(* ===== verification/Prelude.thy ===== *)
theory Prelude
  imports Main "HOL-Library.Word" "HOL-Library.Monad_Syntax"
begin

section \<open>Prelude: C memory blocks, C strings and shared lemmas\<close>

text \<open>
  The C components of the repository work on memory blocks with explicit offsets.  A block is a
  list of cells, a pointer into it is an offset, and an access outside the block, which C leaves
  undefined, is the value \<open>None\<close>.  This theory holds that memory model (\<open>load\<close>, \<open>blit\<close> and the
  functions of \<open>string.h\<close> the sources call, \<open>memmove\<close>, \<open>memset\<close>, \<open>strlen\<close>, \<open>strcpy\<close>), the integer
  types, and the lemmas on lists, options and words that the component theories share, in the
  collections \<open>c_mem\<close> (evaluation of memory operations on split blocks) and \<open>c_word\<close> (words read
  as natural numbers).
\<close>

named_theorems c_mem \<open>evaluation of memory operations on a block split as pre @ cells @ post\<close>
named_theorems c_word \<open>reading words as natural numbers\<close>

type_synonym byte = "8 word"
type_synonym u16 = "16 word"
type_synonym u32 = "32 word"
type_synonym u64 = "64 word"
type_synonym cstring = "byte list"

subsection \<open>Blocks\<close>

definition load :: "'a list \<Rightarrow> nat \<Rightarrow> 'a option" where
  "load m p = (if p < length m then Some (m ! p) else None)"

definition blit :: "'a list \<Rightarrow> nat \<Rightarrow> 'a list \<Rightarrow> 'a list option" where
  "blit m p xs =
     (if p + length xs \<le> length m then Some (take p m @ xs @ drop (p + length xs) m) else None)"

definition memmove :: "'a list \<Rightarrow> nat \<Rightarrow> nat \<Rightarrow> nat \<Rightarrow> 'a list option" where
  "memmove m dst src n =
     (if src + n \<le> length m then blit m dst (take n (drop src m)) else None)"

definition memset :: "'a list \<Rightarrow> nat \<Rightarrow> 'a \<Rightarrow> nat \<Rightarrow> 'a list option" where
  "memset m p c n = blit m p (replicate n c)"

text \<open>\<open>memcpy\<close> between two different blocks, and the store of one cell.\<close>

definition memcpy :: "'a list \<Rightarrow> nat \<Rightarrow> 'a list \<Rightarrow> nat \<Rightarrow> nat \<Rightarrow> 'a list option" where
  "memcpy m dst m' src n =
     (if src + n \<le> length m' then blit m dst (take n (drop src m')) else None)"

definition store :: "'a list \<Rightarrow> nat \<Rightarrow> 'a \<Rightarrow> 'a list option" where
  "store m p v = (if p < length m then Some (m[p := v]) else None)"

lemma store_Some [simp]: "p < length m \<Longrightarrow> store m p v = Some (m[p := v])"
  by (simp add: store_def)

lemma load_append [c_mem]: "load (xs @ ys) p =
   (if p < length xs then load xs p else load ys (p - length xs))"
  by (auto simp: load_def nth_append)

lemma load_Cons [c_mem]: "load (x # xs) p = (if p = 0 then Some x else load xs (p - 1))"
  by (cases p) (auto simp: load_def)

lemma load_Nil [c_mem]: "load [] p = None"
  by (simp add: load_def)

lemma load_Some [simp]: "p < length m \<Longrightarrow> load m p = Some (m ! p)"
  by (simp add: load_def)

lemma blit_length: "blit m p xs = Some m' \<Longrightarrow> length m' = length m"
  by (auto simp: blit_def split: if_splits)

lemma memmove_length: "memmove m d s n = Some m' \<Longrightarrow> length m' = length m"
  by (auto simp: memmove_def dest: blit_length split: if_splits)

lemma memset_length: "memset m p c n = Some m' \<Longrightarrow> length m' = length m"
  by (auto simp: memset_def dest: blit_length)

lemma blit_mid:
  assumes "p = length pre" and "length old = length xs"
  shows "blit (pre @ old @ post) p xs = Some (pre @ xs @ post)"
  using assms by (simp add: blit_def)

lemma blit_split:
  assumes "m = pre @ old @ post" and "p = length pre" and "length old = length xs"
  shows "blit m p xs = Some (pre @ xs @ post)"
  using assms by (simp add: blit_def)

lemma memmove_split:
  assumes "m = pre @ src @ post" and "s = length pre" and "n = length src"
    and "d + n \<le> length m"
  shows "memmove m d s n = Some (take d m @ src @ drop (d + n) m)"
  using assms by (simp add: memmove_def blit_def)

subsection \<open>C strings: a run of non-zero bytes closed by a zero byte\<close>

function strlen :: "byte list \<Rightarrow> nat \<Rightarrow> nat option" where
  "strlen m p =
     (if p < length m
      then if m ! p = 0 then Some 0 else map_option Suc (strlen m (Suc p))
      else None)"
  by pat_completeness auto
termination
  by (relation "measure (\<lambda>(m, p). length m - p)") auto

declare strlen.simps [simp del]

definition strcpy :: "byte list \<Rightarrow> nat \<Rightarrow> cstring \<Rightarrow> byte list option" where
  "strcpy m p s = blit m p (s @ [0])"

text \<open>The string a pointer refers to, as the caller reads it.\<close>

definition cstring_at :: "byte list \<Rightarrow> nat \<Rightarrow> cstring option" where
  "cstring_at m p = do { n \<leftarrow> strlen m p; Some (take n (drop p m)) }"

definition is_cstring :: "cstring \<Rightarrow> bool" where
  "is_cstring s \<longleftrightarrow> 0 \<notin> set s"

lemma strlen_split:
  assumes "is_cstring s" and "p = length pre"
  shows "strlen (pre @ s @ 0 # post) p = Some (length s)"
  using assms
proof (induction s arbitrary: pre p)
  case Nil
  then show ?case by (subst strlen.simps) simp
next
  case (Cons x s)
  have "strlen ((pre @ [x]) @ s @ 0 # post) (Suc p) = Some (length s)"
    by (rule Cons.IH) (use Cons.prems in \<open>auto simp: is_cstring_def\<close>)
  with Cons.prems show ?case
    by (subst strlen.simps) (auto simp: is_cstring_def)
qed

lemma cstring_at_split:
  assumes "is_cstring s" and "p = length pre"
  shows "cstring_at (pre @ s @ 0 # post) p = Some s"
  using assms by (simp add: cstring_at_def strlen_split)

text \<open>In a block whose last cell is zero every pointer refers to a string.\<close>

lemma strlen_total:
  "last m = 0 \<Longrightarrow> p < length m \<Longrightarrow> \<exists>n. strlen m p = Some n \<and> p + n < length m"
proof (induction "length m - p" arbitrary: p)
  case (Suc k)
  show ?case
  proof (cases "m ! p = 0")
    case True
    then show ?thesis using Suc.prems by (subst strlen.simps) simp
  next
    case False
    then have "p \<noteq> length m - 1" using Suc.prems last_conv_nth [of m] by fastforce
    then have "Suc p < length m" using Suc.prems by linarith
    then obtain n where "strlen m (Suc p) = Some n" "Suc p + n < length m"
      using Suc.hyps(1) [of "Suc p"] Suc.hyps(2) Suc.prems(1) by (metis Suc_diff_Suc Suc_inject Suc_lessD)
    then show ?thesis using Suc.prems False by (subst strlen.simps) simp
  qed
qed simp

lemma cstring_at_total:
  "last m = 0 \<Longrightarrow> p < length m \<Longrightarrow> \<exists>s. cstring_at m p = Some s"
  using strlen_total [of m p] by (auto simp: cstring_at_def)

text \<open>The decimal digits \<^verbatim>\<open>%d\<close> prints.\<close>

fun decimal :: "nat \<Rightarrow> cstring" where
  "decimal n = (if n < 10 then [of_nat (48 + n)] else decimal (n div 10) @ [of_nat (48 + n mod 10)])"

declare decimal.simps [simp del]

definition decimal_int :: "int \<Rightarrow> cstring" where
  "decimal_int i = (if i < 0 then 45 # decimal (nat (- i)) else decimal (nat i))"

text \<open>A string literal of the source.\<close>

definition ascii :: "string \<Rightarrow> cstring" where
  "ascii s = map of_char s"

subsection \<open>Words as natural numbers\<close>

lemma unat_of_nat_8 [c_word]: "unat (of_nat n :: byte) = n mod 256"
  by (simp add: unat_of_nat)

lemma unat_of_nat_16 [c_word]: "unat (of_nat n :: u16) = n mod 65536"
  by (simp add: unat_of_nat)

lemma unat_lt_256 [simp]: "unat (x :: byte) < 256"
  using unsigned_less [of x, where ?'a = nat] by simp

lemma unat_lt_65536 [simp]: "unat (x :: u16) < 65536"
  using unsigned_less [of x, where ?'a = nat] by simp

text \<open>A 16-bit number stored little endian in two bytes.\<close>

definition u16_lo :: "u16 \<Rightarrow> byte" where
  "u16_lo n = of_nat (unat n mod 256)"

definition u16_hi :: "u16 \<Rightarrow> byte" where
  "u16_hi n = of_nat (unat n div 256)"

definition u16_of :: "byte \<Rightarrow> byte \<Rightarrow> u16" where
  "u16_of lo hi = of_nat (unat lo + 256 * unat hi)"

lemma u16_of_bytes [simp]: "u16_of (u16_lo n) (u16_hi n) = n"
proof -
  have "unat n div 256 mod 256 = unat n div 256"
    using unat_lt_65536 [of n] by (simp add: less_mult_imp_div_less)
  then have "unat (u16_lo n) + 256 * unat (u16_hi n) = unat n"
    by (simp add: u16_lo_def u16_hi_def c_word)
  then show ?thesis by (simp add: u16_of_def)
qed

end
