(* ===== verification/Basic_Dictionary.thy ===== *)
theory Basic_Dictionary
  imports Prelude
begin

section \<open>BASIC: the hash table of variables\<close>

text \<open>
  Model of \<^verbatim>\<open>src/src/components/basic/src/dictionary.c\<close>.  A dictionary is an array of
  \<open>HASHSIZE\<close> chains; a chain of \<^verbatim>\<open>entry\<close> nodes linked by \<^verbatim>\<open>next\<close> is the list of its
  entries, and the null pointer result of a lookup is \<open>None\<close>.  The while loop of
  \<open>dictionary_del\<close> never advances its cursor, so it is modelled with fuel and its divergence is
  a theorem.
\<close>

subsection \<open>Data and operations\<close>

text \<open>The CMake build defines neither \<^verbatim>\<open>ARCH\<close> nor \<^verbatim>\<open>ARCH_XMEGA\<close>, so the condition
  \<^verbatim>\<open>ARCH != ARCH_XMEGA\<close> compares 0 with 0 and the size is 101.\<close>

definition HASHSIZE :: nat where
  "HASHSIZE = 101"

type_synonym 'v entry = "cstring \<times> 'v"
type_synonym 'v dictionary = "'v entry list list"

text \<open>\<^verbatim>\<open>unsigned int\<close> arithmetic on the signed \<^verbatim>\<open>char\<close> values of the name.\<close>

fun hash_loop :: "u32 \<Rightarrow> cstring \<Rightarrow> u32" where
  "hash_loop hashval [] = hashval"
| "hash_loop hashval (c # name) = hash_loop (scast c + 31 * hashval) name"

definition hash :: "cstring \<Rightarrow> nat" where
  "hash name = unat (hash_loop 0 name) mod HASHSIZE"

text \<open>\<open>entry_index\<close> is the position in the chain of the entry that \<^verbatim>\<open>_get\<close> points to.\<close>

fun entry_index :: "'v entry list \<Rightarrow> cstring \<Rightarrow> nat option" where
  "entry_index [] name = None"
| "entry_index (e # chain) name =
     (if name = fst e then Some 0 else map_option Suc (entry_index chain name))"

definition dict_get :: "'v dictionary \<Rightarrow> cstring \<Rightarrow> 'v entry option" where
  "dict_get d name =
     (let chain = d ! hash name in map_option (\<lambda>i. chain ! i) (entry_index chain name))"

definition dictionary_get :: "'v dictionary \<Rightarrow> cstring \<Rightarrow> 'v option" where
  "dictionary_get d name = (case dict_get d name of Some entry \<Rightarrow> Some (snd entry) | None \<Rightarrow> None)"

definition dictionary_has :: "'v dictionary \<Rightarrow> cstring \<Rightarrow> bool" where
  "dictionary_has d name = (case dict_get d name of Some entry \<Rightarrow> True | None \<Rightarrow> False)"

text \<open>\<open>mem_ok\<close> says whether the allocations of a new entry succeed.\<close>

definition dictionary_put :: "bool \<Rightarrow> 'v dictionary \<Rightarrow> cstring \<Rightarrow> 'v \<Rightarrow> 'v dictionary" where
  "dictionary_put mem_ok d name v =
     (let hashval = hash name; chain = d ! hashval in
      case entry_index chain name of
        None \<Rightarrow> if \<not> mem_ok then d else d[hashval := (name, v) # chain]
      | Some i \<Rightarrow> d[hashval := chain[i := (fst (chain ! i), v)]])"

text \<open>The loop \<^verbatim>\<open>while (element->next)\<close>: \<open>element\<close> stays the root of the chain.\<close>

fun del_loop :: "nat \<Rightarrow> cstring \<Rightarrow> 'v entry \<Rightarrow> 'v entry list \<Rightarrow> ('v option \<times> 'v entry list) option" where
  "del_loop 0 name element next_chain = None"
| "del_loop (Suc fuel) name element next_chain =
     (case next_chain of
        [] \<Rightarrow> Some (None, element # next_chain)
      | next # rest \<Rightarrow>
          if name = fst next then Some (Some (snd next), element # rest)
          else del_loop fuel name element next_chain)"

definition dictionary_del ::
  "nat \<Rightarrow> 'v dictionary \<Rightarrow> cstring \<Rightarrow> ('v option \<times> 'v dictionary) option" where
  "dictionary_del fuel d name =
     (case d ! hash name of
        [] \<Rightarrow> Some (None, d)
      | root # rest \<Rightarrow>
          if name = fst root then Some (Some (snd root), d[hash name := rest])
          else do {
            (v, chain) \<leftarrow> del_loop fuel name root rest;
            Some (v, d[hash name := chain]) })"

text \<open>The entries in the order in which \<open>dictionary_each\<close> passes them to its callback; the
  successor of an entry is read before the callback runs, so the traversal follows the chain as it
  was.\<close>

definition dictionary_each :: "'v dictionary \<Rightarrow> 'v entry list" where
  "dictionary_each d = concat (map (\<lambda>i. d ! i) [0..<HASHSIZE])"

definition dictionary_new :: "bool \<Rightarrow> 'v dictionary option" where
  "dictionary_new mem_ok = (if \<not> mem_ok then None else Some (replicate HASHSIZE []))"

text \<open>The first pass hands every value to the callback; the second deletes every entry.\<close>

fun destroy_pass_2 :: "nat \<Rightarrow> 'v entry list \<Rightarrow> 'v dictionary \<Rightarrow> 'v dictionary option" where
  "destroy_pass_2 fuel [] d = Some d"
| "destroy_pass_2 fuel (e # es) d = do {
     (v, d') \<leftarrow> dictionary_del fuel d (fst e);
     destroy_pass_2 fuel es d' }"

definition dictionary_destroy ::
  "nat \<Rightarrow> 'v dictionary \<Rightarrow> ('v entry list \<times> 'v dictionary) option" where
  "dictionary_destroy fuel d = do {
     let calls = dictionary_each d;
     d' \<leftarrow> destroy_pass_2 fuel (dictionary_each d) d;
     Some (calls, d') }"

subsection \<open>Invariant and abstraction\<close>

definition dict_ok :: "'v dictionary \<Rightarrow> bool" where
  "dict_ok d \<longleftrightarrow> length d = HASHSIZE \<and>
     (\<forall>i<HASHSIZE. distinct (map fst (d ! i)) \<and> (\<forall>e\<in>set (d ! i). hash (fst e) = i))"

lemma hash_less [simp]: "hash name < HASHSIZE"
  by (simp add: hash_def HASHSIZE_def)

lemma hash_less_length: "dict_ok d \<Longrightarrow> hash name < length d"
  by (simp add: dict_ok_def)

lemma chain_ok:
  assumes "dict_ok d"
  shows "distinct (map fst (d ! hash name))" "\<forall>e\<in>set (d ! hash name). hash (fst e) = hash name"
  using assms by (auto simp: dict_ok_def)

lemma entry_hash: "dict_ok d \<Longrightarrow> i < HASHSIZE \<Longrightarrow> e \<in> set (d ! i) \<Longrightarrow> hash (fst e) = i"
  by (simp add: dict_ok_def)

lemma dict_ok_update:
  assumes "dict_ok d" and "distinct (map fst chain)" and "\<forall>e\<in>set chain. hash (fst e) = i"
  shows "dict_ok (d[i := chain])"
proof -
  have "d[i := chain] ! j = (if i = j then chain else d ! j)" if "j < HASHSIZE" for j
    using assms(1) that by (simp add: dict_ok_def)
  then show ?thesis using assms by (simp add: dict_ok_def)
qed

lemma entry_index_map_of:
  "map_option (\<lambda>i. snd (chain ! i)) (entry_index chain name) = map_of chain name"
  by (induction chain) (auto simp: option.map_comp o_def)

lemma entry_index_None: "entry_index chain name = None \<longleftrightarrow> name \<notin> fst ` set chain"
  by (induction chain) auto

lemma entry_index_Some:
  "entry_index chain name = Some i \<Longrightarrow> i < length chain \<and> fst (chain ! i) = name"
  by (induction chain arbitrary: i) (auto split: if_splits)

lemma dictionary_get_map_of: "dictionary_get d name = map_of (d ! hash name) name"
  unfolding entry_index_map_of [symmetric] dictionary_get_def dict_get_def Let_def
  by (simp split: option.splits)

lemma dictionary_has_get: "dictionary_has d name \<longleftrightarrow> dictionary_get d name \<noteq> None"
  by (simp add: dictionary_has_def dictionary_get_def split: option.splits)

lemma update_entry:
  assumes "entry_index chain name = Some i"
  shows "map fst (chain[i := (name, v)]) = map fst chain"
    and "distinct (map fst chain) \<Longrightarrow>
      map_of (chain[i := (name, v)]) k = (if k = name then Some v else map_of chain k)"
  using assms by (induction chain arbitrary: i) (auto split: if_splits)

lemma dictionary_put_ok:
  assumes "dict_ok d"
  shows "dict_ok (dictionary_put b d name v)"
proof (cases "entry_index (d ! hash name) name")
  case None
  then have "name \<notin> fst ` set (d ! hash name)" by (simp add: entry_index_None)
  with None show ?thesis
    using assms chain_ok [OF assms, of name]
    by (auto simp: dictionary_put_def Let_def intro!: dict_ok_update)
next
  case (Some i)
  let ?c = "(d ! hash name)[i := (name, v)]"
  have keys: "map fst ?c = map fst (d ! hash name)"
    using Some by (rule update_entry)
  have "distinct (map fst ?c)" "\<forall>e\<in>set ?c. hash (fst e) = hash name"
    using chain_ok [OF assms, of name] keys by (auto dest!: set_update_subset_insert [THEN subsetD])
  with Some show ?thesis
    using assms entry_index_Some [OF Some]
    by (auto simp: dictionary_put_def Let_def intro!: dict_ok_update)
qed

lemma dictionary_get_put:
  assumes "dict_ok d"
  shows "dictionary_get (dictionary_put True d name v) k
    = (if k = name then Some v else dictionary_get d k)"
proof (cases "entry_index (d ! hash name) name")
  case None
  then show ?thesis
    using hash_less_length [OF assms]
    by (auto simp: dictionary_put_def Let_def dictionary_get_map_of nth_list_update)
next
  case (Some i)
  then show ?thesis
    using hash_less_length [OF assms] chain_ok [OF assms] entry_index_Some [OF Some]
      update_entry(2) [OF Some, of v]
    by (auto simp: dictionary_put_def Let_def dictionary_get_map_of nth_list_update)
qed

lemma dictionary_new_ok: "dictionary_new True = Some d \<Longrightarrow> dict_ok d"
  by (auto simp: dictionary_new_def dict_ok_def)

lemma dictionary_get_new: "dictionary_new True = Some d \<Longrightarrow> dictionary_get d k = None"
  by (auto simp: dictionary_new_def dictionary_get_map_of)

subsection \<open>Deleting\<close>

lemma del_loop_diverges:
  "next_chain \<noteq> [] \<Longrightarrow> name \<noteq> fst (hd next_chain) \<Longrightarrow> del_loop fuel name element next_chain = None"
  by (induction fuel) (auto split: list.splits)

lemma del_loop_first:
  "name = fst next \<Longrightarrow> 0 < fuel \<Longrightarrow>
   del_loop fuel name element (next # rest) = Some (Some (snd next), element # rest)"
  by (cases fuel) auto

lemma dictionary_del_root:
  assumes "d ! hash name = e # rest" and "fst e = name"
  shows "dictionary_del fuel d name = Some (Some (snd e), d[hash name := rest])"
  using assms by (simp add: dictionary_del_def)

lemma dictionary_del_diverges:
  assumes "d ! hash name = e1 # e2 # rest" and "fst e1 \<noteq> name" and "fst e2 \<noteq> name"
  shows "dictionary_del fuel d name = None"
  using assms del_loop_diverges [of "e2 # rest" name fuel e1] by (simp add: dictionary_del_def)

text \<open>Outside the diverging case the deletion is the one of the abstract map.\<close>

lemma dictionary_del_returns:
  assumes "dict_ok d" and "0 < fuel"
    and "length (d ! hash name) < 2 \<or> name \<in> fst ` set (take 2 (d ! hash name))"
  shows "\<exists>d'. dictionary_del fuel d name = Some (dictionary_get d name, d') \<and> dict_ok d'
    \<and> (\<forall>k. dictionary_get d' k = (if k = name then None else dictionary_get d k))"
proof -
  note len = hash_less_length [OF assms(1)] and ok = chain_ok [OF assms(1), of name]
  consider (nil) "d ! hash name = []"
    | (root) e rest where "d ! hash name = e # rest" "fst e = name"
    | (one) e where "d ! hash name = [e]" "fst e \<noteq> name"
    | (second) e1 e2 rest where "d ! hash name = e1 # e2 # rest" "fst e1 \<noteq> name" "fst e2 = name"
    using assms(3) by (cases "d ! hash name" rule: remdups_adj.cases) auto
  then show ?thesis
  proof cases
    case nil
    then show ?thesis
      using assms(1) by (auto simp: dictionary_del_def dictionary_get_map_of)
  next
    case (root e rest)
    moreover have "dict_ok (d[hash name := rest])"
      using assms(1) ok root by (intro dict_ok_update) auto
    moreover have "map_of rest name = None"
      using ok(1) root by (simp add: map_of_eq_None_iff)
    ultimately show ?thesis
      using len by (cases e)
        (auto simp: dictionary_del_root dictionary_get_map_of nth_list_update)
  next
    case (one e)
    moreover obtain f where "fuel = Suc f" using assms(2) by (cases fuel) auto
    moreover have "d[hash name := [e]] = d"
      using one list_update_id [of d "hash name"] by simp
    ultimately show ?thesis
      using assms(1) by (cases e) (auto simp: dictionary_del_def dictionary_get_map_of)
  next
    case (second e1 e2 rest)
    moreover have "dict_ok (d[hash name := e1 # rest])"
      using assms(1) ok second by (intro dict_ok_update) auto
    moreover have "map_of rest name = None"
      using ok(1) second by (simp add: map_of_eq_None_iff)
    ultimately show ?thesis
      using len assms(2) del_loop_first [of name e2 fuel e1 rest] by (cases e1; cases e2)
        (auto simp: dictionary_del_def dictionary_get_map_of nth_list_update)
  qed
qed

subsection \<open>Destroying\<close>

text \<open>The second pass meets the entries in chain order, so each deletion hits the root of its
  chain and the diverging loop is never entered.\<close>

lemma destroy_chain:
  assumes "dict_ok d" and "i < HASHSIZE" and "d ! i = chain"
  shows "destroy_pass_2 fuel (chain @ es) d = destroy_pass_2 fuel es (d[i := []])"
  using assms
proof (induction chain arbitrary: d)
  case Nil
  then show ?case using list_update_id [of d i] by simp
next
  case (Cons e chain)
  have hash: "hash (fst e) = i"
    using Cons.prems by (auto simp: dict_ok_def)
  have ok: "dict_ok (d[i := chain])"
    using Cons.prems by (intro dict_ok_update) (auto simp: dict_ok_def)
  have "dictionary_del fuel d (fst e) = Some (Some (snd e), d[i := chain])"
    using dictionary_del_root [of d "fst e" e chain fuel] Cons.prems hash by simp
  moreover have "d[i := chain] ! i = chain"
    using Cons.prems by (simp add: dict_ok_def)
  ultimately show ?case
    using Cons.IH [OF ok Cons.prems(2)] by simp
qed

lemma destroy_upto:
  assumes "dict_ok d" and "n \<le> HASHSIZE"
  shows "destroy_pass_2 fuel (concat (map (\<lambda>i. d ! i) [0..<n]) @ es) d
    = destroy_pass_2 fuel es (replicate n [] @ drop n d)"
  using assms(2)
proof (induction n arbitrary: es)
  case 0
  then show ?case by simp
next
  case (Suc n)
  let ?d = "replicate n [] @ drop n d"
  have n: "n < length d" "n < HASHSIZE" using Suc.prems assms(1) by (auto simp: dict_ok_def)
  have drop: "drop n d = d ! n # drop (Suc n) d" using n(1) by (simp add: Cons_nth_drop_Suc)
  have "dict_ok ?d"
    using assms(1) n by (auto simp: dict_ok_def nth_append)
  moreover have "?d ! n = d ! n"
    using n by (simp add: nth_append)
  moreover have "?d[n := []] = replicate (Suc n) [] @ drop (Suc n) d"
    unfolding drop using list_update_length [of "replicate n []" "d ! n" "drop (Suc n) d" "[]"]
    by (simp add: replicate_app_Cons_same)
  ultimately have "destroy_pass_2 fuel (d ! n @ es) ?d
      = destroy_pass_2 fuel es (replicate (Suc n) [] @ drop (Suc n) d)"
    using destroy_chain [of ?d n "d ! n" fuel es] n by simp
  then show ?case
    using Suc.IH [of "d ! n @ es"] Suc.prems by simp
qed

lemma dictionary_destroy_empties:
  assumes "dict_ok d"
  shows "dictionary_destroy fuel d = Some (dictionary_each d, replicate HASHSIZE [])"
  using destroy_upto [OF assms order_refl, of fuel "[]"] assms
  by (simp add: dictionary_destroy_def dictionary_each_def dict_ok_def)

lemma dictionary_each_entries:
  assumes "dict_ok d"
  shows "distinct (map fst (dictionary_each d))"
    and "(name, v) \<in> set (dictionary_each d) \<longleftrightarrow> dictionary_get d name = Some v"
proof -
  have keys: "distinct (map fst (concat (map (\<lambda>i. d ! i) [0..<n])))" if "n \<le> HASHSIZE" for n
    using that
  proof (induction n)
    case (Suc n)
    have "hash (fst e) < n" if e: "e \<in> set (concat (map (\<lambda>i. d ! i) [0..<n]))" for e
    proof -
      obtain i where "i < n" "e \<in> set (d ! i)" using e by auto
      then show ?thesis using entry_hash [OF assms, of i e] Suc.prems by simp
    qed
    moreover have "hash (fst e) = n" if "e \<in> set (d ! n)" for e
      using that Suc.prems by (simp add: entry_hash [OF assms])
    ultimately have "fst ` set (concat (map (\<lambda>i. d ! i) [0..<n])) \<inter> fst ` set (d ! n) = {}"
      by fastforce
    moreover have "distinct (map fst (d ! n))"
      using assms Suc.prems by (simp add: dict_ok_def)
    ultimately show ?case
      using Suc.IH Suc.prems by (simp add: Int_commute)
  qed simp
  show "distinct (map fst (dictionary_each d))"
    unfolding dictionary_each_def by (rule keys) simp
  have "(name, v) \<in> set (dictionary_each d) \<longleftrightarrow> (name, v) \<in> set (d ! hash name)"
    using assms hash_less [of name]
    by (fastforce simp: dictionary_each_def dict_ok_def)
  also have "\<dots> \<longleftrightarrow> map_of (d ! hash name) name = Some v"
    using chain_ok(1) [OF assms] by simp
  finally show "(name, v) \<in> set (dictionary_each d) \<longleftrightarrow> dictionary_get d name = Some v"
    by (simp add: dictionary_get_map_of)
qed

subsection \<open>The interface the variables use\<close>

locale name_table =
  fixes ok :: "'d \<Rightarrow> bool"
    and get :: "'d \<Rightarrow> cstring \<Rightarrow> 'v option"
    and put :: "'d \<Rightarrow> cstring \<Rightarrow> 'v \<Rightarrow> 'd"
  assumes ok_put: "ok d \<Longrightarrow> ok (put d n v)"
    and get_put: "ok d \<Longrightarrow> get (put d n v) k = (if k = n then Some v else get d k)"
begin

lemma get_put_same [simp]: "ok d \<Longrightarrow> get (put d n v) n = Some v"
  by (simp add: get_put)

lemma get_put_other: "ok d \<Longrightarrow> k \<noteq> n \<Longrightarrow> get (put d n v) k = get d k"
  by (simp add: get_put)

lemma put_put_get:
  "ok d \<Longrightarrow> get (put (put d n v) n w) k = get (put d n w) k"
  by (simp add: get_put ok_put)

end

interpretation dict: name_table dict_ok dictionary_get "dictionary_put True"
  by unfold_locales (simp_all add: dictionary_put_ok dictionary_get_put)

subsection \<open>Properties\<close>

definition put_all :: "'v entry list \<Rightarrow> 'v dictionary \<Rightarrow> 'v dictionary" where
  "put_all ps d = fold (\<lambda>(n, v) d. dictionary_put True d n v) ps d"

lemma put_all_ok: "dict_ok d \<Longrightarrow> dict_ok (put_all ps d)"
  by (induction ps rule: rev_induct) (auto simp: put_all_def dict.ok_put)

lemma put_all_get:
  "dict_ok d \<Longrightarrow> dictionary_get (put_all ps d) k
    = (case map_of (rev ps) k of None \<Rightarrow> dictionary_get d k | Some v \<Rightarrow> Some v)"
proof (induction ps rule: rev_induct)
  case (snoc p ps)
  then show ?case
    using put_all_ok [of d ps] by (cases p) (auto simp: put_all_def dict.get_put)
qed (simp add: put_all_def)

text \<open>C25. A dictionary filled from empty by any sequence of \<open>dictionary_put\<close> calls keeps its
  invariant (every entry in the chain of its hash, no name twice in a chain), and
  \<open>dictionary_get\<close> finds under each name the last value put under it.\<close>

theorem dictionary_is_map:
  "\<exists>d. dictionary_new True = Some d
    \<and> dict_ok (put_all ps d) \<and> dictionary_get (put_all ps d) k = map_of (rev ps) k"
proof -
  obtain d :: "'a dictionary" where d: "dictionary_new True = Some d"
    by (simp add: dictionary_new_def)
  show ?thesis
    using d put_all_ok [OF dictionary_new_ok [OF d]] put_all_get [OF dictionary_new_ok [OF d]]
      dictionary_get_new [OF d]
    by (auto split: option.splits)
qed

text \<open>\<open>dictionary_del\<close> returns the value stored under the name and removes exactly that name,
  when the chain of the name has at most one entry or the name is one of its first two entries.\<close>

theorem dictionary_del_correct:
  assumes "dict_ok d" and "0 < fuel"
    and "length (d ! hash name) < 2 \<or> name \<in> fst ` set (take 2 (d ! hash name))"
  shows "\<exists>d'. dictionary_del fuel d name = Some (dictionary_get d name, d') \<and> dict_ok d'
    \<and> (\<forall>k. dictionary_get d' k = (if k = name then None else dictionary_get d k))"
  using assms by (rule dictionary_del_returns)

theorem dictionary_del_correct_witness:
  "\<exists>d'. dictionary_del 1 (dictionary_put True (replicate HASHSIZE []) [65] True) [65]
      = Some (dictionary_get (dictionary_put True (replicate HASHSIZE []) [65] True) [65], d')
    \<and> dict_ok d' \<and> (\<forall>k. dictionary_get d' k = (if k = [65] then None
        else dictionary_get (dictionary_put True (replicate HASHSIZE []) [65] True) k))"
proof (rule dictionary_del_correct)
  show "dict_ok (dictionary_put True (replicate HASHSIZE []) [65] True)"
    by (rule dict.ok_put) (simp add: dict_ok_def)
qed (simp_all add: dictionary_put_def)

text \<open>C29. In every other case \<open>dictionary_del\<close> does not return: its loop tests the second entry
  of the chain again and again, because the cursor is never advanced.\<close>

theorem dictionary_del_loops:
  assumes "d ! hash name = ea # eb # rest" and "fst ea \<noteq> name" and "fst eb \<noteq> name"
  shows "dictionary_del fuel d name = None"
  using assms by (rule dictionary_del_diverges)

theorem dictionary_del_loops_witness:
  "dictionary_del 1000 ((replicate HASHSIZE [])[hash [65] := [([66], True), ([67], True)]]) [65] = None"
  by (rule dictionary_del_loops [where ea = "([66], True)" and eb = "([67], True)" and rest = "[]"])
    (simp_all add: hash_less [unfolded HASHSIZE_def] HASHSIZE_def)

text \<open>\<open>dictionary_destroy\<close> always returns; it passes every stored pair to the callback exactly
  once and deletes every entry.\<close>

theorem dictionary_destroy_correct:
  assumes "dict_ok d"
  shows "\<exists>calls. dictionary_destroy fuel d = Some (calls, replicate HASHSIZE [])
    \<and> distinct (map fst calls)
    \<and> (\<forall>name v. (name, v) \<in> set calls \<longleftrightarrow> dictionary_get d name = Some v)"
  using dictionary_destroy_empties [OF assms, of fuel] dictionary_each_entries [OF assms] by blast

theorem dictionary_destroy_correct_witness:
  "\<exists>calls. dictionary_destroy 0 (dictionary_put True (replicate HASHSIZE []) [65] True)
      = Some (calls, replicate HASHSIZE [])
    \<and> distinct (map fst calls)
    \<and> (\<forall>name v. (name, v) \<in> set calls
        \<longleftrightarrow> dictionary_get (dictionary_put True (replicate HASHSIZE []) [65] True) name = Some v)"
  by (rule dictionary_destroy_correct, rule dict.ok_put) (simp add: dict_ok_def)

end
