(* ===== verification/Basic_Variables.thy ===== *)
theory Basic_Variables
  imports Basic_Dictionary
begin

section \<open>BASIC: growable arrays and variables\<close>

text \<open>
  Model of \<^verbatim>\<open>src/src/components/basic/src/array.c\<close> and \<^verbatim>\<open>variables.c\<close>.  The float type of
  the interpreter is the type variable \<open>'f\<close>: the code of these files only stores and returns
  floats and uses the constant 0.  A cell of memory obtained by \<^verbatim>\<open>realloc\<close> and not yet written is
  \<open>None\<close>; reading through a pointer outside a block, reading an indeterminate cell or the wrong
  member of the value union is \<open>None\<close> as the result of the operation.  Allocations succeed.  The
  dictionary stores pointers to variables; as no other pointer to a variable outlives a call, the
  model stores the variables themselves.
\<close>

subsection \<open>array.c\<close>

record 'a array =
  element_size :: nat
  arr_size :: nat
  arr_ptr :: "'a option list"

definition realloc :: "'a option list \<Rightarrow> nat \<Rightarrow> 'a option list" where
  "realloc old n = take n old @ replicate (n - length old) None"

definition array_new :: "nat \<Rightarrow> 'a array" where
  "array_new es = \<lparr>element_size = es, arr_size = 0, arr_ptr = []\<rparr>"

text \<open>The number of whole elements in a block of \<open>element_size * n\<close> bytes, a product on
  \<^verbatim>\<open>size_t\<close>.\<close>

definition cells :: "'a array \<Rightarrow> nat \<Rightarrow> nat" where
  "cells a n = (element_size a * n) mod 2 ^ 64 div element_size a"

definition array_alloc :: "'a array \<Rightarrow> nat \<Rightarrow> 'a array" where
  "array_alloc a n = a\<lparr>arr_size := n, arr_ptr := realloc (arr_ptr a) (cells a n)\<rparr>"

text \<open>\<open>array_get\<close> is the cell the returned pointer refers to.\<close>

definition array_get :: "'a array \<Rightarrow> nat \<Rightarrow> 'a option option" where
  "array_get a index = load (arr_ptr a) index"

definition array_set :: "'a array \<Rightarrow> nat \<Rightarrow> 'a \<Rightarrow> 'a array option" where
  "array_set a index v =
     (if index < length (arr_ptr a) then Some (a\<lparr>arr_ptr := (arr_ptr a)[index := Some v]\<rparr>) else None)"

definition array_push :: "'a array \<Rightarrow> 'a \<Rightarrow> 'a array option" where
  "array_push a v = array_set (array_alloc a (arr_size a + 1)) (arr_size a) v"

definition array_size :: "'a array \<Rightarrow> nat" where
  "array_size a = arr_size a"

subsection \<open>variables.c: data\<close>

datatype variable_type = variable_type_unknown | variable_type_numeric | variable_type_string

datatype 'f variable_value = Num 'f | Str cstring

record 'f variable =
  var_name :: cstring
  var_type :: variable_type
  var_value :: "'f variable_value option"
  is_array :: bool
  nr_dimensions :: nat
  dimensions :: "u64 list"
  var_array :: "'f variable_value array option"

record 'f variables_state =
  var_table :: "'f variable dictionary"
  last_error :: "string option"

definition E_INDEX_OUT_OF_BOUNDS :: string where
  "E_INDEX_OUT_OF_BOUNDS = ''INDEX OUT OF BOUNDS''"

definition E_VAR_NOT_FOUND :: string where
  "E_VAR_NOT_FOUND = ''VAR NOT FOUND''"

text \<open>The effect of \<^verbatim>\<open>error\<close> on the state; its message on the console is not part of the model.\<close>

definition error :: "string \<Rightarrow> 'f variables_state \<Rightarrow> 'f variables_state" where
  "error msg st = st\<lparr>last_error := Some msg\<rparr>"

definition variables_init :: "bool \<Rightarrow> 'f variables_state \<Rightarrow> bool \<times> 'f variables_state" where
  "variables_init mem_ok st =
     (case dictionary_new mem_ok of
        None \<Rightarrow> (False, st)
      | Some d \<Rightarrow> (True, st\<lparr>var_table := d\<rparr>))"

definition variable_get :: "'f variables_state \<Rightarrow> cstring \<Rightarrow> 'f variable option" where
  "variable_get st name = dictionary_get (var_table st) name"

text \<open>The variables handed to the releasing callback, and the emptied table.\<close>

definition variables_destroy ::
  "nat \<Rightarrow> 'f variables_state \<Rightarrow> ('f variable list \<times> 'f variables_state) option" where
  "variables_destroy fuel st = do {
     (calls, d) \<leftarrow> dictionary_destroy fuel (var_table st);
     Some (map snd calls, st\<lparr>var_table := d\<rparr>) }"

subsection \<open>variables.c: scalar variables\<close>

definition put_variable ::
  "'f variables_state \<Rightarrow> cstring \<Rightarrow> 'f variable \<Rightarrow> 'f variables_state" where
  "put_variable st name var = st\<lparr>var_table := dictionary_put True (var_table st) name var\<rparr>"

definition new_variable :: "cstring \<Rightarrow> variable_type \<Rightarrow> 'f variable" where
  "new_variable name t = \<lparr>var_name = name, var_type = t, var_value = None, is_array = False,
     nr_dimensions = 0, dimensions = [], var_array = None\<rparr>"

text \<open>Setting an existing variable frees its old string, so the union has to hold a string.\<close>

definition variable_set_string ::
  "'f variables_state \<Rightarrow> cstring \<Rightarrow> cstring \<Rightarrow> ('f variable \<times> 'f variables_state) option" where
  "variable_set_string st name v = do {
     var \<leftarrow> (case dictionary_get (var_table st) name of
              None \<Rightarrow> Some (new_variable name variable_type_string)
            | Some var \<Rightarrow> (case var_value var of Some (Str old) \<Rightarrow> Some var | _ \<Rightarrow> None));
     let var = var\<lparr>var_value := Some (Str v)\<rparr>;
     Some (var, put_variable st name var) }"

definition variable_set_numeric ::
  "'f variables_state \<Rightarrow> cstring \<Rightarrow> 'f \<Rightarrow> 'f variable \<times> 'f variables_state" where
  "variable_set_numeric st name v =
     (let var = (case dictionary_get (var_table st) name of
                   None \<Rightarrow> new_variable name variable_type_numeric
                 | Some var \<Rightarrow> var);
          var = var\<lparr>var_value := Some (Num v)\<rparr>
      in (var, put_variable st name var))"

definition variable_get_string ::
  "'f variables_state \<Rightarrow> cstring \<Rightarrow> (cstring \<times> 'f variables_state) option" where
  "variable_get_string st name = do {
     (var, st) \<leftarrow> (case dictionary_get (var_table st) name of
                     None \<Rightarrow> variable_set_string st name []
                   | Some var \<Rightarrow> Some (var, st));
     case var_value var of Some (Str s) \<Rightarrow> Some (s, st) | _ \<Rightarrow> None }"

definition variable_get_numeric ::
  "('f :: zero) variables_state \<Rightarrow> cstring \<Rightarrow> ('f \<times> 'f variables_state) option" where
  "variable_get_numeric st name =
     (case (case dictionary_get (var_table st) name of
              None \<Rightarrow> variable_set_numeric st name 0
            | Some var \<Rightarrow> (var, st)) of
        (var, st) \<Rightarrow> (case var_value var of Some (Num x) \<Rightarrow> Some (x, st) | _ \<Rightarrow> None))"

definition variable_get_type :: "'f variables_state \<Rightarrow> cstring \<Rightarrow> variable_type option" where
  "variable_get_type st name = map_option var_type (dictionary_get (var_table st) name)"

subsection \<open>variables.c: array variables\<close>

text \<open>\<open>for (j = from; j < nr; ++j) acc *= dimensions[j];\<close> on \<^verbatim>\<open>size_t\<close>.\<close>

fun mult_loop :: "u64 list \<Rightarrow> nat list \<Rightarrow> u64 \<Rightarrow> u64 option" where
  "mult_loop dims [] acc = Some acc"
| "mult_loop dims (j # js) acc = do { d \<leftarrow> load dims j; mult_loop dims js (acc * d) }"

definition calc_size :: "'f variable \<Rightarrow> u64 option" where
  "calc_size var = mult_loop (dimensions var) [0..<nr_dimensions var] 1"

fun bounds_loop :: "u64 list \<Rightarrow> u64 list \<Rightarrow> nat list \<Rightarrow> bool option" where
  "bounds_loop dims vector [] = Some True"
| "bounds_loop dims vector (i # is) = do {
     v \<leftarrow> load vector i;
     d \<leftarrow> load dims i;
     if v > d then Some False else bounds_loop dims vector is }"

definition check_in_bounds :: "'f variable \<Rightarrow> u64 list \<Rightarrow> bool option" where
  "check_in_bounds var vector = bounds_loop (dimensions var) vector [0..<nr_dimensions var]"

fun index_loop :: "u64 list \<Rightarrow> u64 list \<Rightarrow> nat \<Rightarrow> nat list \<Rightarrow> u64 \<Rightarrow> u64 option" where
  "index_loop dims vector nr [] index = Some index"
| "index_loop dims vector nr (i # is) index = do {
     v \<leftarrow> load vector i;
     product \<leftarrow> mult_loop dims [i + 1..<nr] v;
     index_loop dims vector nr is (index + product) }"

definition calc_index :: "'f variable \<Rightarrow> u64 list \<Rightarrow> u64 option" where
  "calc_index var vector =
     index_loop (dimensions var) vector (nr_dimensions var) [0..<nr_dimensions var] 0"

definition variable_array_init ::
  "'f variables_state \<Rightarrow> cstring \<Rightarrow> variable_type \<Rightarrow> nat \<Rightarrow> u64 list \<Rightarrow>
    ('f variable \<times> 'f variables_state) option" where
  "variable_array_init st name t nr vector = do {
     v0 \<leftarrow> load vector 0; v1 \<leftarrow> load vector 1; v2 \<leftarrow> load vector 2;
     v3 \<leftarrow> load vector 3; v4 \<leftarrow> load vector 4;
     let var = \<lparr>var_name = name, var_type = t, var_value = None, is_array = True,
       nr_dimensions = nr, dimensions = [v0 + 1, v1 + 1, v2 + 1, v3 + 1, v4 + 1],
       var_array = Some (array_new 8)\<rparr>;
     size \<leftarrow> calc_size var;
     let var = var\<lparr>var_array := Some (array_alloc (array_new 8) (unat size))\<rparr>;
     Some (var, put_variable st name var) }"

text \<open>The common body of the two setters: \<open>Some (False, st)\<close> is the null pointer result after
  \<^verbatim>\<open>error\<close>.\<close>

definition array_set_value ::
  "'f variables_state \<Rightarrow> cstring \<Rightarrow> 'f variable_value \<Rightarrow> u64 list \<Rightarrow> (bool \<times> 'f variables_state) option"
  where
  "array_set_value st name val vector =
     (case dictionary_get (var_table st) name of
        None \<Rightarrow> Some (False, error E_VAR_NOT_FOUND st)
      | Some var \<Rightarrow> do {
          inside \<leftarrow> check_in_bounds var vector;
          if \<not> inside then Some (False, error E_INDEX_OUT_OF_BOUNDS st)
          else do {
            index \<leftarrow> calc_index var vector;
            a \<leftarrow> var_array var;
            a \<leftarrow> array_set a (unat index) val;
            Some (True, put_variable st name (var\<lparr>var_array := Some a\<rparr>)) } })"

definition variable_array_set_string ::
  "'f variables_state \<Rightarrow> cstring \<Rightarrow> cstring \<Rightarrow> u64 list \<Rightarrow> (bool \<times> 'f variables_state) option" where
  "variable_array_set_string st name v vector = array_set_value st name (Str v) vector"

definition variable_array_set_numeric ::
  "'f variables_state \<Rightarrow> cstring \<Rightarrow> 'f \<Rightarrow> u64 list \<Rightarrow> (bool \<times> 'f variables_state) option" where
  "variable_array_set_numeric st name v vector = array_set_value st name (Num v) vector"

text \<open>The cell read by the two getters: \<open>Inl\<close> is the result after \<^verbatim>\<open>error\<close>.\<close>

definition array_get_value ::
  "'f variables_state \<Rightarrow> cstring \<Rightarrow> u64 list \<Rightarrow>
    ('f variables_state + 'f variable_value option) option" where
  "array_get_value st name vector =
     (case dictionary_get (var_table st) name of
        None \<Rightarrow> Some (Inl (error E_VAR_NOT_FOUND st))
      | Some var \<Rightarrow> do {
          inside \<leftarrow> check_in_bounds var vector;
          if \<not> inside then Some (Inl (error E_INDEX_OUT_OF_BOUNDS st))
          else do {
            index \<leftarrow> calc_index var vector;
            a \<leftarrow> var_array var;
            cell \<leftarrow> array_get a (unat index);
            Some (Inr cell) } })"

text \<open>\<open>Some (None, st)\<close> is the null pointer.\<close>

definition variable_array_get_string ::
  "'f variables_state \<Rightarrow> cstring \<Rightarrow> u64 list \<Rightarrow> (cstring option \<times> 'f variables_state) option" where
  "variable_array_get_string st name vector = do {
     r \<leftarrow> array_get_value st name vector;
     case r of
       Inl st' \<Rightarrow> Some (None, st')
     | Inr (Some (Str s)) \<Rightarrow> Some (Some s, st)
     | Inr _ \<Rightarrow> None }"

definition variable_array_get_numeric ::
  "('f :: zero) variables_state \<Rightarrow> cstring \<Rightarrow> u64 list \<Rightarrow> ('f \<times> 'f variables_state) option" where
  "variable_array_get_numeric st name vector = do {
     r \<leftarrow> array_get_value st name vector;
     case r of
       Inl st' \<Rightarrow> Some (0, st')
     | Inr (Some (Num x)) \<Rightarrow> Some (x, st)
     | Inr _ \<Rightarrow> None }"

definition variables_each :: "'f variables_state \<Rightarrow> 'f variable list" where
  "variables_each st = map snd (dictionary_each (var_table st))"

text \<open>\<open>calc_vector\<close>: the inverse of \<open>calc_index\<close>, used to print an array.\<close>

fun vector_loop :: "u64 list \<Rightarrow> nat \<Rightarrow> nat list \<Rightarrow> u64 \<Rightarrow> u64 \<Rightarrow> u64 list option" where
  "vector_loop dims nr [] index product = Some []"
| "vector_loop dims nr (i # is) index product =
     (if product = 0 then None
      else do {
        product' \<leftarrow> (if i + 1 < nr
                     then do { d \<leftarrow> load dims (i + 1); if d = 0 then None else Some (product div d) }
                     else Some product);
        rest \<leftarrow> vector_loop dims nr is (index mod product) product';
        Some (index div product # rest) })"

definition calc_vector :: "'f variable \<Rightarrow> u64 \<Rightarrow> u64 list option" where
  "calc_vector var index = do {
     product \<leftarrow> mult_loop (dimensions var) [1..<nr_dimensions var] 1;
     vector_loop (dimensions var) (nr_dimensions var) [0..<nr_dimensions var] index product }"

subsection \<open>Mixed-radix arithmetic\<close>

fun mix :: "'a::comm_semiring_1 list \<Rightarrow> 'a list \<Rightarrow> 'a" where
  "mix (v # vs) (d # ds) = v * prod_list ds + mix vs ds"
| "mix _ _ = 0"

lemma mix_less:
  fixes vs ds :: "nat list"
  assumes "list_all2 (<) vs ds"
  shows "mix vs ds < prod_list ds"
  using assms
proof (induction rule: list_all2_induct)
  case (Cons v vs d ds)
  have "v * prod_list ds + mix vs ds < v * prod_list ds + prod_list ds"
    using Cons by simp
  also have "\<dots> = Suc v * prod_list ds" by simp
  also have "\<dots> \<le> d * prod_list ds" using Cons by (intro mult_le_mono1) simp
  finally show ?case by simp
qed simp

lemma of_nat_prod_list:
  "(of_nat (prod_list ds) :: 'a::comm_semiring_1) = prod_list (map of_nat ds)"
  by (induction ds) simp_all

lemma of_nat_mix: "(of_nat (mix vs ds) :: 'a::comm_semiring_1) = mix (map of_nat vs) (map of_nat ds)"
  by (induction vs ds rule: mix.induct) (simp_all add: of_nat_prod_list)

lemma map_of_nat_unat [simp]: "map (\<lambda>x. word_of_nat (unat x)) ws = (ws :: u64 list)"
  by (induction ws) simp_all

lemma mult_loop_upt:
  "k \<le> n \<Longrightarrow> n \<le> length dims \<Longrightarrow>
   mult_loop dims [k..<n] acc = Some (acc * prod_list (drop k (take n dims)))"
proof (induction "n - k" arbitrary: k acc)
  case 0
  then show ?case by simp
next
  case (Suc x)
  then have "k < n" by simp
  then have "drop k (take n dims) = dims ! k # drop (Suc k) (take n dims)"
    using Suc.prems by (simp add: Cons_nth_drop_Suc [symmetric])
  then show ?case
    using Suc.hyps(1) [of "Suc k" "acc * dims ! k"] Suc \<open>k < n\<close>
    by (simp add: upt_conv_Cons mult.assoc)
qed

lemma index_loop_upt:
  "k \<le> n \<Longrightarrow> n \<le> length dims \<Longrightarrow> n \<le> length vector \<Longrightarrow>
   index_loop dims vector n [k..<n] acc
     = Some (acc + mix (drop k (take n vector)) (drop k (take n dims)))"
proof (induction "n - k" arbitrary: k acc)
  case 0
  then show ?case by simp
next
  case (Suc x)
  then have k: "k < n" by simp
  then have "drop k (take n dims) = dims ! k # drop (Suc k) (take n dims)"
    "drop k (take n vector) = vector ! k # drop (Suc k) (take n vector)"
    using Suc.prems by (simp_all add: Cons_nth_drop_Suc [symmetric])
  moreover have "mult_loop dims [Suc k..<n] (vector ! k)
      = Some (vector ! k * prod_list (drop (Suc k) (take n dims)))"
    using k Suc.prems by (intro mult_loop_upt) auto
  ultimately show ?case
    using Suc.hyps(1) [of "Suc k" "acc + vector ! k * prod_list (drop (Suc k) (take n dims))"] Suc k
    by (simp add: upt_conv_Cons add.assoc)
qed

lemma bounds_loop_upt:
  "k \<le> n \<Longrightarrow> n \<le> length dims \<Longrightarrow> n \<le> length vector \<Longrightarrow>
   bounds_loop dims vector [k..<n] = Some (\<forall>i. k \<le> i \<and> i < n \<longrightarrow> vector ! i \<le> dims ! i)"
proof (induction "n - k" arbitrary: k)
  case 0
  then show ?case by auto
next
  case (Suc x)
  then have k: "k < n" by simp
  have "(\<forall>i. k \<le> i \<and> i < n \<longrightarrow> vector ! i \<le> dims ! i) \<longleftrightarrow>
      vector ! k \<le> dims ! k \<and> (\<forall>i. Suc k \<le> i \<and> i < n \<longrightarrow> vector ! i \<le> dims ! i)"
    using k by (metis Suc_le_eq le_eq_less_or_eq)
  then show ?case
    using Suc.hyps(1) [of "Suc k"] Suc k by (auto simp: upt_conv_Cons)
qed

subsection \<open>Array variables: layout\<close>

text \<open>An array variable as \<open>variable_array_init\<close> makes it, whose size does not wrap around.\<close>

definition array_var_ok :: "'f variable \<Rightarrow> bool" where
  "array_var_ok var \<longleftrightarrow> nr_dimensions var \<le> 5 \<and> length (dimensions var) = 5
     \<and> prod_list (map unat (take (nr_dimensions var) (dimensions var))) < 2 ^ 61
     \<and> (case var_array var of None \<Rightarrow> False | Some a \<Rightarrow>
          length (arr_ptr a) = prod_list (map unat (take (nr_dimensions var) (dimensions var))))"

text \<open>Every coordinate below its dimension.\<close>

definition coords_ok :: "'f variable \<Rightarrow> u64 list \<Rightarrow> bool" where
  "coords_ok var vector \<longleftrightarrow> 5 \<le> length vector
     \<and> (\<forall>i<nr_dimensions var. vector ! i < dimensions var ! i)"

definition flat_index :: "'f variable \<Rightarrow> u64 list \<Rightarrow> nat" where
  "flat_index var vector =
     mix (map unat (take (nr_dimensions var) vector)) (map unat (take (nr_dimensions var) (dimensions var)))"

lemma coords_all2:
  assumes "array_var_ok var" and "coords_ok var vector"
  shows "list_all2 (<) (map unat (take (nr_dimensions var) vector))
    (map unat (take (nr_dimensions var) (dimensions var)))"
  using assms by (auto simp: array_var_ok_def coords_ok_def list_all2_conv_all_nth word_less_nat_alt)

lemma calc_size_eq:
  assumes "nr_dimensions var \<le> 5" and "length (dimensions var) = 5"
  shows "calc_size var
    = Some (of_nat (prod_list (map unat (take (nr_dimensions var) (dimensions var)))))"
  using assms by (simp add: calc_size_def mult_loop_upt of_nat_prod_list o_def)

lemma calc_index_eq:
  assumes "array_var_ok var" and "coords_ok var vector"
  shows "calc_index var vector = Some (of_nat (flat_index var vector))"
    and "flat_index var vector < 2 ^ 64"
    and "\<exists>a. var_array var = Some a \<and> flat_index var vector < length (arr_ptr a)"
proof -
  show "calc_index var vector = Some (of_nat (flat_index var vector))"
    using assms by (simp add: calc_index_def index_loop_upt array_var_ok_def coords_ok_def
        flat_index_def of_nat_mix o_def)
  have "flat_index var vector < prod_list (map unat (take (nr_dimensions var) (dimensions var)))"
    unfolding flat_index_def using coords_all2 [OF assms] by (rule mix_less)
  with assms(1) show "flat_index var vector < 2 ^ 64"
    "\<exists>a. var_array var = Some a \<and> flat_index var vector < length (arr_ptr a)"
    by (auto simp: array_var_ok_def split: option.splits)
qed

lemma unat_flat_index:
  assumes "array_var_ok var" and "coords_ok var vector"
  shows "unat (of_nat (flat_index var vector) :: u64) = flat_index var vector"
  using calc_index_eq(2) [OF assms] by (simp add: unat_of_nat)

lemma check_in_bounds_eq:
  assumes "array_var_ok var" and "5 \<le> length vector"
  shows "check_in_bounds var vector = Some (\<forall>i<nr_dimensions var. vector ! i \<le> dimensions var ! i)"
  using assms by (simp add: check_in_bounds_def bounds_loop_upt array_var_ok_def)

lemma check_in_bounds_coords:
  assumes "array_var_ok var" and "coords_ok var vector"
  shows "check_in_bounds var vector = Some True"
  using assms check_in_bounds_eq [of var vector] by (auto simp: coords_ok_def intro: less_imp_le)

lemma mix_inj:
  fixes vs ws ds :: "nat list"
  assumes "list_all2 (<) vs ds" and "list_all2 (<) ws ds" and "mix vs ds = mix ws ds"
  shows "vs = ws"
  using assms
proof (induction arbitrary: ws rule: list_all2_induct)
  case (Cons v vs d ds)
  obtain w ws' where ws: "ws = w # ws'" "list_all2 (<) ws' ds"
    using Cons.prems(1) by (cases ws) auto
  have "v * prod_list ds + mix vs ds = w * prod_list ds + mix ws' ds"
    using Cons.prems(2) ws by simp
  moreover have "mix vs ds < prod_list ds" "mix ws' ds < prod_list ds"
    using Cons.hyps(2) ws(2) by (auto intro: mix_less)
  ultimately have "v = w" "mix vs ds = mix ws' ds"
    by (metis div_mult_self3 div_less less_nat_zero_code add.commute add_left_imp_eq)+
  with Cons.IH [OF ws(2)] ws show ?case by simp
qed simp

subsection \<open>Printing order: calc_vector inverts calc_index\<close>

lemma word_div_of_nat:
  assumes "a < 2 ^ 64" and "b < 2 ^ 64"
  shows "(of_nat a :: u64) div of_nat b = of_nat (a div b)"
  using assms le_less_trans [OF div_le_dividend assms(1), of b]
  by (simp add: word_unat_eq_iff unat_div_distrib unat_of_nat)

lemma word_mod_of_nat:
  assumes "a < 2 ^ 64" and "b < 2 ^ 64"
  shows "(of_nat a :: u64) mod of_nat b = of_nat (a mod b)"
  using assms le_less_trans [OF mod_less_eq_dividend assms(1), of b]
  by (simp add: word_unat_eq_iff unat_mod_distrib unat_of_nat)

lemma word_of_nat_zero: "a < 2 ^ 64 \<Longrightarrow> (of_nat a :: u64) = 0 \<longleftrightarrow> a = 0"
  by (simp add: word_unat_eq_iff unat_of_nat)

lemma vector_loop_mix:
  assumes "list_all2 (<) (map unat vs) (map unat (drop k (take n dims)))"
    and "prod_list (map unat (drop k (take n dims))) < 2 ^ 64" and "n \<le> length dims" and "k \<le> n"
  shows "vector_loop dims n [k..<n] (of_nat (mix (map unat vs) (map unat (drop k (take n dims)))))
      (of_nat (prod_list (map unat (drop (Suc k) (take n dims))))) = Some vs"
  using assms
proof (induction vs arbitrary: k)
  case Nil
  then have "k = n" by auto
  then show ?case by simp
next
  case (Cons v vs)
  then have k: "k < n" by (cases "k = n") auto
  define ds where "ds = drop (Suc k) (take n dims)"
  have ds: "drop k (take n dims) = dims ! k # ds"
    using k Cons.prems(3) by (simp add: ds_def Cons_nth_drop_Suc [symmetric])
  let ?P = "prod_list (map unat ds)" and ?M = "mix (map unat vs) (map unat ds)"
  have v: "unat v < unat (dims ! k)" and vs: "list_all2 (<) (map unat vs) (map unat ds)"
    using Cons.prems(1) unfolding ds by auto
  have M: "?M < ?P" using vs by (rule mix_less)
  have "?P \<le> unat (dims ! k) * ?P" using v by simp
  then have P64: "?P < 2 ^ 64"
    by (rule le_less_trans) (use Cons.prems(2) ds in simp)
  define I where "I = mix (map unat (v # vs)) (map unat (dims ! k # ds))"
  have I: "I div ?P = unat v" "I mod ?P = ?M" using M by (simp_all add: I_def)
  have "I < prod_list (map unat (dims ! k # ds))"
    unfolding I_def using mix_less [OF Cons.prems(1) [unfolded ds]] .
  then have I64: "I < 2 ^ 64"
    using Cons.prems(2) unfolding ds by (rule less_trans)
  have step: "(of_nat I :: u64) div of_nat ?P = v" "(of_nat I :: u64) mod of_nat ?P = of_nat ?M"
    unfolding word_div_of_nat [OF I64 P64] word_mod_of_nat [OF I64 P64] I by simp_all
  have nz: "(of_nat ?P :: u64) \<noteq> 0"
    using M P64 word_of_nat_zero [OF P64] by auto
  have "do { product' \<leftarrow> (if k + 1 < n
             then do { d \<leftarrow> load dims (k + 1); if d = 0 then None else Some (of_nat ?P div d) }
             else Some (of_nat ?P));
           vector_loop dims n [Suc k..<n] (of_nat ?M) product' } = Some vs"
  proof (cases "k + 1 < n")
    case True
    then have ds2: "ds = dims ! Suc k # drop (Suc (Suc k)) (take n dims)"
      using Cons.prems(3) by (simp add: ds_def Cons_nth_drop_Suc [symmetric])
    let ?Q = "prod_list (map unat (drop (Suc (Suc k)) (take n dims)))"
    have P: "?P = unat (dims ! Suc k) * ?Q" unfolding ds2 by simp
    have dnz: "unat (dims ! Suc k) \<noteq> 0"
      using M unfolding P by (cases "unat (dims ! Suc k) = 0") simp_all
    have "(of_nat ?P :: u64) div dims ! Suc k = of_nat ?P div of_nat (unat (dims ! Suc k))"
      by simp
    also have "\<dots> = of_nat ?Q"
      using P dnz by (subst word_div_of_nat [OF P64]) (auto intro: unsigned_less [THEN less_le_trans])
    finally have "(of_nat ?P :: u64) div dims ! Suc k = of_nat ?Q" .
    moreover have "vector_loop dims n [Suc k..<n] (of_nat ?M) (of_nat ?Q) = Some vs"
      using Cons.IH [of "Suc k"] vs P64 Cons.prems(3) k by (simp add: ds_def)
    moreover have "dims ! Suc k \<noteq> 0" using dnz by auto
    ultimately show ?thesis using True Cons.prems(3) by simp
  next
    case False
    then have "ds = []" "Suc k = n" using k by (auto simp: ds_def)
    then show ?thesis using vs by simp
  qed
  then obtain p where p: "(if k + 1 < n
             then do { d \<leftarrow> load dims (k + 1); if d = 0 then None else Some (of_nat ?P div d) }
             else Some (of_nat ?P)) = Some p"
      "vector_loop dims n [Suc k..<n] (of_nat ?M) p = Some vs"
    by (auto simp only: bind_eq_Some_conv)
  have "vector_loop dims n (k # [Suc k..<n]) (of_nat I) (of_nat ?P) = Some (v # vs)"
    using nz step p by (simp only: vector_loop.simps if_False bind.bind_lunit step)
  then show ?case
    unfolding ds ds_def [symmetric] I_def [symmetric] upt_conv_Cons [OF k] .
qed

lemma calc_vector_flat:
  assumes "array_var_ok var" and "coords_ok var vector"
  shows "calc_vector var (of_nat (flat_index var vector)) = Some (take (nr_dimensions var) vector)"
proof (cases "nr_dimensions var")
  case 0
  then show ?thesis using assms by (simp add: calc_vector_def)
next
  case (Suc n)
  define ds where "ds = drop 1 (take (nr_dimensions var) (dimensions var))"
  have "mult_loop (dimensions var) [1..<nr_dimensions var] 1 = Some (1 * prod_list ds)"
    unfolding ds_def using assms Suc by (intro mult_loop_upt) (auto simp: array_var_ok_def)
  then have "mult_loop (dimensions var) [1..<nr_dimensions var] 1
      = Some (of_nat (prod_list (map unat ds)))"
    by (simp add: of_nat_prod_list o_def)
  then show ?thesis
    using vector_loop_mix [of "take (nr_dimensions var) vector" 0 "nr_dimensions var" "dimensions var"]
      coords_all2 [OF assms] assms(1)
    by (simp add: calc_vector_def flat_index_def ds_def array_var_ok_def)
qed

subsection \<open>Operations on a well-formed table\<close>

lemma variable_get_put [simp]:
  "dict_ok (var_table st) \<Longrightarrow>
   variable_get (put_variable st n var) k = (if k = n then Some var else variable_get st k)"
  by (simp add: variable_get_def put_variable_def dict.get_put)

lemma put_variable_ok [simp]:
  "dict_ok (var_table st) \<Longrightarrow> dict_ok (var_table (put_variable st n var))"
  by (simp add: put_variable_def dict.ok_put)

lemma variable_set_numeric_eq:
  "variable_set_numeric st n x =
    (let var = (case variable_get st n of None \<Rightarrow> new_variable n variable_type_numeric | Some var \<Rightarrow> var)
             \<lparr>var_value := Some (Num x)\<rparr>
     in (var, put_variable st n var))"
  by (simp add: variable_set_numeric_def variable_get_def Let_def)

lemma variable_get_numeric_eq:
  "variable_get st n = Some var \<Longrightarrow> var_value var = Some (Num x) \<Longrightarrow>
   variable_get_numeric st n = Some (x, st)"
  by (simp add: variable_get_numeric_def variable_get_def)

lemma variable_get_string_eq:
  "variable_get st n = Some var \<Longrightarrow> var_value var = Some (Str s) \<Longrightarrow>
   variable_get_string st n = Some (s, st)"
  by (simp add: variable_get_string_def variable_get_def)

lemma variable_set_string_eq:
  "(\<And>var. variable_get st n = Some var \<Longrightarrow> \<exists>old. var_value var = Some (Str old)) \<Longrightarrow>
   variable_set_string st n s =
    (let var = (case variable_get st n of None \<Rightarrow> new_variable n variable_type_string | Some var \<Rightarrow> var)
             \<lparr>var_value := Some (Str s)\<rparr>
     in Some (var, put_variable st n var))"
  by (cases "variable_get st n") (auto simp: variable_set_string_def variable_get_def Let_def)

lemma array_set_value_ok:
  assumes "variable_get st name = Some var" and "array_var_ok var" and "coords_ok var vector"
  shows "\<exists>a. var_array var = Some a \<and> flat_index var vector < length (arr_ptr a)
    \<and> array_set_value st name val vector = Some (True, put_variable st name
       (var\<lparr>var_array := Some (a\<lparr>arr_ptr := (arr_ptr a)[flat_index var vector := Some val]\<rparr>)\<rparr>))"
  using calc_index_eq [OF assms(2,3)] check_in_bounds_coords [OF assms(2,3)] assms(1)
    unat_flat_index [OF assms(2,3)]
  by (auto simp: array_set_value_def variable_get_def array_set_def)

lemma array_get_value_ok:
  assumes "variable_get st name = Some var" and "array_var_ok var" and "coords_ok var vector"
    and "var_array var = Some a"
  shows "array_get_value st name vector = Some (Inr (arr_ptr a ! flat_index var vector))"
  using calc_index_eq [OF assms(2,3)] check_in_bounds_coords [OF assms(2,3)] assms(1,4)
    unat_flat_index [OF assms(2,3)]
  by (auto simp: array_get_value_def variable_get_def array_get_def)

lemma flat_index_inj:
  assumes "array_var_ok var" and "coords_ok var v" and "coords_ok var w"
    and "flat_index var v = flat_index var w"
  shows "take (nr_dimensions var) v = take (nr_dimensions var) w"
proof -
  have "map unat (take (nr_dimensions var) v) = map unat (take (nr_dimensions var) w)"
    using mix_inj [OF coords_all2 [OF assms(1,2)] coords_all2 [OF assms(1,3)]] assms(4)
    by (simp add: flat_index_def)
  moreover have "inj (unat :: u64 \<Rightarrow> nat)" by (simp add: inj_def word_unat_eq_iff)
  ultimately show ?thesis by (simp only: inj_map_eq_map)
qed

lemma array_set_get_value:
  assumes "dict_ok (var_table st)" and "variable_get st name = Some var"
    and "array_var_ok var" and "coords_ok var v"
  shows "\<exists>st' var'. array_set_value st name val v = Some (True, st') \<and> dict_ok (var_table st')
    \<and> variable_get st' name = Some var' \<and> array_var_ok var' \<and> coords_ok var' = coords_ok var
    \<and> array_get_value st' name v = Some (Inr (Some val))
    \<and> (\<forall>w. coords_ok var w \<longrightarrow> take (nr_dimensions var) w \<noteq> take (nr_dimensions var) v \<longrightarrow>
         array_get_value st' name w = array_get_value st name w)
    \<and> (\<forall>k. k \<noteq> name \<longrightarrow> variable_get st' k = variable_get st k)"
proof -
  obtain a where a: "var_array var = Some a" "flat_index var v < length (arr_ptr a)"
    and set: "array_set_value st name val v = Some (True, put_variable st name
       (var\<lparr>var_array := Some (a\<lparr>arr_ptr := (arr_ptr a)[flat_index var v := Some val]\<rparr>)\<rparr>))"
    using array_set_value_ok [OF assms(2-4)] by auto
  define a' where "a' = a\<lparr>arr_ptr := (arr_ptr a)[flat_index var v := Some val]\<rparr>"
  define var' where "var' = var\<lparr>var_array := Some a'\<rparr>"
  define st' where "st' = put_variable st name var'"
  have st': "variable_get st' name = Some var'" "dict_ok (var_table st')"
    using assms(1) by (simp_all add: st'_def)
  have co: "coords_ok var' = coords_ok var" and fi: "flat_index var' = flat_index var"
    by (auto simp: fun_eq_iff coords_ok_def flat_index_def var'_def)
  have ok: "array_var_ok var'" using assms(3) a by (simp add: array_var_ok_def var'_def a'_def)
  have get: "array_get_value st' name w = Some (Inr (arr_ptr a' ! flat_index var w))"
    if "coords_ok var w" for w
    using array_get_value_ok [OF st'(1) ok, of w a'] that by (simp add: co fi) (simp add: var'_def)
  have "array_get_value st' name w = array_get_value st name w"
    if w: "coords_ok var w" "take (nr_dimensions var) w \<noteq> take (nr_dimensions var) v" for w
    using get [OF w(1)] array_get_value_ok [OF assms(2,3) w(1) a(1)]
      flat_index_inj [OF assms(3,4) w(1)] w(2)
    by (cases "flat_index var v = flat_index var w") (simp_all add: a'_def)
  moreover have "array_get_value st' name v = Some (Inr (Some val))"
    using get [OF assms(4)] a(2) by (simp add: a'_def)
  moreover have "variable_get st' k = variable_get st k" if "k \<noteq> name" for k
    using that assms(1) by (simp add: st'_def)
  ultimately show ?thesis
    using set st' ok co by (auto simp: st'_def var'_def a'_def)
qed

definition no_variables :: "'f variables_state" where
  "no_variables = \<lparr>var_table = replicate HASHSIZE [], last_error = None\<rparr>"

lemma no_variables_ok [simp]: "dict_ok (var_table no_variables)"
  by (simp add: no_variables_def dict_ok_def)

lemma no_variables_get [simp]: "variable_get no_variables k = None"
  by (simp add: no_variables_def variable_get_def dictionary_get_map_of)

lemma all_less_2: "(\<forall>i<2::nat. P i) \<longleftrightarrow> P 0 \<and> P 1"
  by (auto simp: less_2_cases_iff)

lemma unat_succ_word: "(w :: u64) \<noteq> - 1 \<Longrightarrow> unat (w + 1) = Suc (unat w)"
  using unatSuc [of w] by (simp add: add.commute eq_neg_iff_add_eq_0)

lemma less_succ_word: "(w :: u64) \<noteq> - 1 \<Longrightarrow> x < w + 1 \<longleftrightarrow> x \<le> w"
  by (simp add: word_less_nat_alt word_le_nat_alt unat_succ_word less_Suc_eq_le)

text \<open>What \<open>variable_array_init\<close> leaves in the table.\<close>

lemma array_init_eq:
  assumes "length vector = 5" and "nr \<le> 5" and "\<forall>i<nr. vector ! i \<noteq> - 1"
    and "prod_list (map (\<lambda>v. Suc (unat v)) (take nr vector)) < 2 ^ 61"
  shows "\<exists>var. variable_array_init st name t nr vector = Some (var, put_variable st name var)
    \<and> array_var_ok var \<and> var_type var = t \<and> nr_dimensions var = nr
    \<and> (\<exists>a. var_array var = Some a \<and> set (arr_ptr a) \<subseteq> {None})
    \<and> (\<forall>w. coords_ok var w \<longleftrightarrow> 5 \<le> length w \<and> (\<forall>i<nr. w ! i \<le> vector ! i))"
proof -
  obtain v0 v1 v2 v3 v4 where v: "vector = [v0, v1, v2, v3, v4]"
    using assms(1) by (auto simp: numeral_eq_Suc length_Suc_conv)
  define dims where "dims = map (\<lambda>v. v + 1) vector"
  define var0 where "var0 = (\<lparr>var_name = name, var_type = t, var_value = None, is_array = True,
       nr_dimensions = nr, dimensions = dims, var_array = Some (array_new 8)\<rparr> :: 'a variable)"
  define N where "N = prod_list (map unat (take nr dims))"
  have "map unat (take nr dims) = map (\<lambda>v. Suc (unat v)) (take nr vector)"
    unfolding dims_def using assms(1-3)
    by (auto simp: take_map in_set_conv_nth intro!: unat_succ_word)
  then have N: "N < 2 ^ 61" using assms(4) by (simp add: N_def)
  have size: "calc_size var0 = Some (of_nat N)"
    using calc_size_eq [of var0] assms(1,2) by (simp add: var0_def N_def dims_def)
  define a where "a = array_alloc (array_new 8 :: 'a variable_value array) N"
  define var where "var = var0\<lparr>var_array := Some a\<rparr>"
  have "unat (of_nat N :: u64) = N" using N by (simp add: unat_of_nat)
  then have "variable_array_init st name t nr vector = Some (var, put_variable st name var)"
    using size unfolding variable_array_init_def v
    by (simp add: Let_def var0_def dims_def v var_def a_def)
  moreover have a: "arr_ptr a = replicate N None"
    using N by (simp add: a_def array_alloc_def array_new_def cells_def realloc_def)
  moreover have "array_var_ok var"
    using N a assms(1,2) by (simp add: array_var_ok_def var_def var0_def N_def dims_def)
  moreover have "coords_ok var w \<longleftrightarrow> 5 \<le> length w \<and> (\<forall>i<nr. w ! i \<le> vector ! i)" for w
    using assms(1-3) by (auto simp: coords_ok_def var_def var0_def dims_def less_succ_word)
  ultimately show ?thesis by (auto simp: var_def var0_def)
qed

subsection \<open>Properties\<close>

text \<open>\<open>DIM\<close> on a well-formed table makes an array whose legal index vectors are those with
  every coordinate from 0 to the given bound (when the block of the array fits the address space),
  and changes no other variable.\<close>

theorem array_init_correct:
  assumes "dict_ok (var_table st)" and "length vector = 5" and "nr \<le> 5"
    and "\<forall>i<nr. vector ! i \<noteq> - 1"
    and "prod_list (map (\<lambda>v. Suc (unat v)) (take nr vector)) < 2 ^ 61"
  shows "\<exists>var st'. variable_array_init st name t nr vector = Some (var, st')
    \<and> dict_ok (var_table st') \<and> variable_get st' name = Some var \<and> array_var_ok var
    \<and> (\<forall>v. coords_ok var v \<longleftrightarrow> 5 \<le> length v \<and> (\<forall>i<nr. v ! i \<le> vector ! i))
    \<and> (\<forall>k. k \<noteq> name \<longrightarrow> variable_get st' k = variable_get st k)"
  using array_init_eq [OF assms(2-5), of st name t] assms(1) by fastforce

theorem array_init_correct_witness:
  "\<exists>var st'. variable_array_init (no_variables :: int variables_state) [65] variable_type_numeric 2
        [2, 3, 0, 0, 0] = Some (var, st')
    \<and> dict_ok (var_table st') \<and> variable_get st' [65] = Some var \<and> array_var_ok var
    \<and> (\<forall>v. coords_ok var v \<longleftrightarrow> 5 \<le> length v \<and> (\<forall>i<2. v ! i \<le> [2, 3, 0, 0, 0] ! i))
    \<and> (\<forall>k. k \<noteq> [65] \<longrightarrow> variable_get st' k = variable_get no_variables k)"
proof (rule array_init_correct)
  show "\<forall>i<2. [2, 3, 0, 0, 0 :: u64] ! i \<noteq> - 1"
    by (simp add: all_less_2)
qed (simp_all add: take_Cons')

text \<open>C27. A value stored at a legal index vector of an array is the one read there; no element at
  another legal vector and no other variable changes, and the table and the array stay
  well-formed.\<close>

theorem array_set_get:
  assumes "dict_ok (var_table st)" and "variable_get st name = Some var"
    and "array_var_ok var" and "coords_ok var v"
  shows "\<exists>st' var'. variable_array_set_numeric st name x v = Some (True, st')
    \<and> dict_ok (var_table st') \<and> variable_get st' name = Some var'
    \<and> array_var_ok var' \<and> coords_ok var' = coords_ok var
    \<and> variable_array_get_numeric st' name v = Some (x, st')
    \<and> (\<forall>w. coords_ok var w \<longrightarrow> take (nr_dimensions var) w \<noteq> take (nr_dimensions var) v \<longrightarrow>
         array_get_value st' name w = array_get_value st name w)
    \<and> (\<forall>k. k \<noteq> name \<longrightarrow> variable_get st' k = variable_get st k)"
  using array_set_get_value [OF assms, of "Num x"]
  unfolding variable_array_set_numeric_def variable_array_get_numeric_def by fastforce

definition sample_array :: "int variable" where
  "sample_array = \<lparr>var_name = [65], var_type = variable_type_numeric, var_value = None,
     is_array = True, nr_dimensions = 2, dimensions = [3, 4, 1, 1, 1],
     var_array = Some \<lparr>element_size = 8, arr_size = 12, arr_ptr = replicate 12 None\<rparr>\<rparr>"

lemma sample_array_ok [simp]: "array_var_ok sample_array" "coords_ok sample_array [2, 3, 0, 0, 0]"
  "nr_dimensions sample_array = 2"
  by (simp_all add: array_var_ok_def sample_array_def coords_ok_def take_Cons' all_less_2)

theorem array_set_get_witness:
  "\<exists>st' var'. variable_array_set_numeric (put_variable no_variables [65] sample_array) [65] 7
        [2, 3, 0, 0, 0] = Some (True, st')
    \<and> dict_ok (var_table st') \<and> variable_get st' [65] = Some var'
    \<and> array_var_ok var' \<and> coords_ok var' = coords_ok sample_array
    \<and> variable_array_get_numeric st' [65] [2, 3, 0, 0, 0] = Some (7, st')
    \<and> (\<forall>w. coords_ok sample_array w \<longrightarrow>
         take (nr_dimensions sample_array) w \<noteq> take (nr_dimensions sample_array) [2, 3, 0, 0, 0] \<longrightarrow>
         array_get_value st' [65] w
           = array_get_value (put_variable no_variables [65] sample_array) [65] w)
    \<and> (\<forall>k. k \<noteq> [65] \<longrightarrow>
         variable_get st' k = variable_get (put_variable no_variables [65] sample_array) k)"
  by (rule array_set_get) simp_all

text \<open>C30. \<open>calc_vector\<close>, which \<open>variable_dump\<close> uses to label the elements of an array, inverts
  \<open>calc_index\<close>: from the index of a legal vector it recovers the vector.\<close>

theorem calc_vector_inverts:
  assumes "array_var_ok var" and "coords_ok var vector"
  shows "\<exists>index. calc_index var vector = Some index
    \<and> calc_vector var index = Some (take (nr_dimensions var) vector)"
  using calc_index_eq(1) [OF assms] calc_vector_flat [OF assms] by blast

theorem calc_vector_inverts_witness:
  "\<exists>index. calc_index sample_array [2, 3, 0, 0, 0] = Some index
    \<and> calc_vector sample_array index
        = Some (take (nr_dimensions sample_array) [2, 3, 0, 0, 0])"
  by (rule calc_vector_inverts) simp_all

text \<open>C31. The bound check of array accesses is one too wide: after \<open>DIM A(n)\<close> the access
  \<open>A(n + 1)\<close> is not answered with an error, it writes outside the block of the array.\<close>

theorem array_bound_off_by_one:
  assumes "dict_ok (var_table st)" and "n < 2 ^ 60" and "length v = 5" and "v ! 0 = n + 1"
  shows "\<exists>var st'. variable_array_init st name t 1 [n, 0, 0, 0, 0] = Some (var, st')
    \<and> check_in_bounds var v = Some True \<and> variable_array_set_numeric st' name x v = None"
proof -
  have n: "n \<noteq> - 1" "unat n < 2 ^ 60"
    using assms(2) by (auto simp: word_less_nat_alt unsigned_minus_1_eq_mask mask_eq_exp_minus_1)
  let ?v = "[n, 0, 0, 0, 0]"
  have "\<forall>i<1. ?v ! i \<noteq> - 1" "prod_list (map (\<lambda>v. Suc (unat v)) (take 1 ?v)) < 2 ^ 61"
    using n by simp_all
  then obtain var where var: "variable_array_init st name t 1 ?v = Some (var, put_variable st name var)"
    "array_var_ok var" "nr_dimensions var = 1"
    using array_init_eq [of ?v 1 st name t] by fastforce
  have dim: "dimensions var = [n + 1, 1, 1, 1, 1]"
    using var(1) by (auto simp: variable_array_init_def Let_def bind_eq_Some_conv)
  have inside: "check_in_bounds var v = Some True"
    using check_in_bounds_eq [OF var(2), of v] var(3) dim assms(3,4) by simp
  have "load v 0 = Some (n + 1)" using assms(3,4) by simp
  then have "calc_index var v = Some (n + 1)"
    by (subst calc_index_def) (simp add: var(3) dim)
  moreover obtain a where "var_array var = Some a" "length (arr_ptr a) = unat (n + 1)"
    using var(2,3) dim by (auto simp: array_var_ok_def split: option.splits)
  ultimately have "variable_array_set_numeric (put_variable st name var) name x v = None"
    using inside assms(1) variable_get_put [OF assms(1), of name var name]
    by (simp add: variable_array_set_numeric_def array_set_value_def variable_get_def array_set_def)
  with var(1) inside show ?thesis by blast
qed

theorem array_bound_off_by_one_witness:
  "\<exists>var st'. variable_array_init no_variables [65] variable_type_numeric 1 [3, 0, 0, 0, 0]
      = Some (var, st')
    \<and> check_in_bounds var [4, 0, 0, 0, 0] = Some True
    \<and> variable_array_set_numeric st' [65] (7 :: int) [4, 0, 0, 0, 0] = None"
  by (rule array_bound_off_by_one) simp_all

lemma array_unknown_name:
  "variable_get st name = None \<Longrightarrow>
   variable_array_set_numeric st name x v = Some (False, error E_VAR_NOT_FOUND st)
   \<and> variable_array_get_numeric st name v = Some (0, error E_VAR_NOT_FOUND st)"
  by (simp add: variable_array_set_numeric_def array_set_value_def variable_get_def
      variable_array_get_numeric_def array_get_value_def)

lemma array_index_too_big:
  assumes "5 \<le> length v" and "variable_get st name = Some var" and "array_var_ok var"
    and "i < nr_dimensions var" and "dimensions var ! i < v ! i"
  shows "variable_array_set_numeric st name x v = Some (False, error E_INDEX_OUT_OF_BOUNDS st)
    \<and> variable_array_get_numeric st name v = Some (0, error E_INDEX_OUT_OF_BOUNDS st)"
proof -
  have "check_in_bounds var v = Some False"
    using check_in_bounds_eq [OF assms(3,1)] assms(4,5) by (auto simp: not_le)
  with assms(2) show ?thesis
    by (simp add: variable_array_set_numeric_def array_set_value_def variable_get_def
        variable_array_get_numeric_def array_get_value_def)
qed

text \<open>Array accesses report their errors: an unknown name sets \<open>VAR NOT FOUND\<close>, an index above
  the bound of the check sets \<open>INDEX OUT OF BOUNDS\<close>; both leave every variable as it was.\<close>

theorem array_access_errors:
  assumes "5 \<le> length v"
    and "variable_get st name = None \<and> msg = E_VAR_NOT_FOUND
      \<or> (\<exists>var i. variable_get st name = Some var \<and> array_var_ok var
           \<and> i < nr_dimensions var \<and> dimensions var ! i < v ! i) \<and> msg = E_INDEX_OUT_OF_BOUNDS"
  shows "variable_array_set_numeric st name x v = Some (False, error msg st)
    \<and> variable_array_get_numeric st name v = Some (0, error msg st)
    \<and> last_error (error msg st) = Some msg \<and> variable_get (error msg st) = variable_get st"
proof -
  have "variable_array_set_numeric st name x v = Some (False, error msg st)
    \<and> variable_array_get_numeric st name v = Some (0, error msg st)"
    using assms(2) array_unknown_name array_index_too_big [OF assms(1)] by blast
  then show ?thesis by (simp add: fun_eq_iff variable_get_def error_def)
qed

theorem array_access_errors_witness:
  "(variable_array_set_numeric (put_variable no_variables [65] sample_array) [65] 7 [5, 0, 0, 0, 0]
      = Some (False, error E_INDEX_OUT_OF_BOUNDS (put_variable no_variables [65] sample_array)))
   \<and> variable_array_set_numeric no_variables [65] (7 :: int) [0, 0, 0, 0, 0]
      = Some (False, error E_VAR_NOT_FOUND no_variables)"
proof
  have "dimensions sample_array ! 0 < [5, 0, 0, 0, 0 :: u64] ! 0" "0 < nr_dimensions sample_array"
    "array_var_ok sample_array"
    "variable_get (put_variable no_variables [65] sample_array) [65] = Some sample_array"
    by (simp_all, simp add: sample_array_def)
  then have "variable_get (put_variable no_variables [65] sample_array) [65] = None
        \<and> E_INDEX_OUT_OF_BOUNDS = E_VAR_NOT_FOUND
      \<or> (\<exists>var i. variable_get (put_variable no_variables [65] sample_array) [65] = Some var
           \<and> array_var_ok var \<and> i < nr_dimensions var
           \<and> dimensions var ! i < [5, 0, 0, 0, 0 :: u64] ! i)
        \<and> E_INDEX_OUT_OF_BOUNDS = E_INDEX_OUT_OF_BOUNDS"
    by blast
  from array_access_errors [OF _ this]
  show "variable_array_set_numeric (put_variable no_variables [65] sample_array) [65] 7 [5, 0, 0, 0, 0]
      = Some (False, error E_INDEX_OUT_OF_BOUNDS (put_variable no_variables [65] sample_array))"
    by simp
  show "variable_array_set_numeric no_variables [65] (7 :: int) [0, 0, 0, 0, 0]
      = Some (False, error E_VAR_NOT_FOUND no_variables)"
    using array_access_errors [of "[0, 0, 0, 0, 0]" no_variables "[65]" E_VAR_NOT_FOUND "7 :: int"]
    by simp
qed

lemma scalar_set_get_numeric:
  assumes "dict_ok (var_table st)"
  shows "\<exists>var st'. variable_set_numeric st n x = (var, st') \<and> dict_ok (var_table st')
      \<and> variable_get_numeric st' n = Some (x, st')
      \<and> (\<forall>k. k \<noteq> n \<longrightarrow> variable_get st' k = variable_get st k)"
  using assms by (simp add: variable_set_numeric_eq Let_def variable_get_numeric_eq)

lemma scalar_set_get_string:
  assumes "dict_ok (var_table st)"
    and "\<forall>var. variable_get st n = Some var \<longrightarrow> (\<exists>old. var_value var = Some (Str old))"
  shows "\<exists>var st'. variable_set_string st n s = Some (var, st') \<and> dict_ok (var_table st')
      \<and> variable_get_string st' n = Some (s, st')
      \<and> (\<forall>k. k \<noteq> n \<longrightarrow> variable_get st' k = variable_get st k)"
  using assms by (simp add: variable_set_string_eq Let_def variable_get_string_eq)

lemma scalar_get_unset:
  assumes "variable_get st n = None"
  shows "map_option fst (variable_get_numeric st n) = Some 0
    \<and> map_option fst (variable_get_string st n) = Some []"
  using assms by (simp add: variable_get_numeric_def variable_get_string_def variable_get_def
      variable_set_numeric_def variable_set_string_def Let_def)

text \<open>A scalar variable returns the number or the string set last, of every other variable
  nothing changes, and an unset one reads as 0 or the empty string.  (Setting a string asks of an
  existing variable that it holds a string.)\<close>

theorem scalar_set_get:
  assumes "dict_ok (var_table st)"
  shows "(\<exists>var st'. variable_set_numeric st n x = (var, st') \<and> dict_ok (var_table st')
      \<and> variable_get_numeric st' n = Some (x, st')
      \<and> (\<forall>k. k \<noteq> n \<longrightarrow> variable_get st' k = variable_get st k))
    \<and> ((\<forall>var. variable_get st n = Some var \<longrightarrow> (\<exists>old. var_value var = Some (Str old))) \<longrightarrow>
      (\<exists>var st'. variable_set_string st n s = Some (var, st') \<and> dict_ok (var_table st')
      \<and> variable_get_string st' n = Some (s, st')
      \<and> (\<forall>k. k \<noteq> n \<longrightarrow> variable_get st' k = variable_get st k)))
    \<and> (variable_get st n = None \<longrightarrow>
      map_option fst (variable_get_numeric st n) = Some 0
      \<and> map_option fst (variable_get_string st n) = Some [])"
  using scalar_set_get_numeric [OF assms] scalar_set_get_string [OF assms] scalar_get_unset
  by blast

theorem scalar_set_get_witness:
  "(\<exists>var st'. variable_set_string (no_variables :: int variables_state) [65, 36] [72] = Some (var, st')
      \<and> variable_get_string st' [65, 36] = Some ([72], st'))
   \<and> (\<exists>var st'. variable_set_numeric (no_variables :: int variables_state) [65, 36] 7 = (var, st')
      \<and> variable_get_numeric st' [65, 36] = Some (7, st'))"
  using scalar_set_get [of "no_variables :: int variables_state" "[65, 36]" 7 "[72]"] by auto

end
