(* ===== verification/Basic_Tokenizer.thy ===== *)
theory Basic_Tokenizer
  imports Basic_Variables
begin

section \<open>BASIC: the tokenizer\<close>

text \<open>
  Model of \<^verbatim>\<open>src/src/components/basic/src/tokenizer.c\<close>.  The tokenizer reads through
  \<^verbatim>\<open>tokenizer_p\<close>, which points into the line that is evaluated or into the program memory.  A
  pointer is a block and an offset; the evaluated line lives in a local array of
  \<^verbatim>\<open>basic_eval\<close>, so a pointer into it carries the number of the evaluation and a pointer kept from
  an earlier one refers to nothing.  Floats are the type \<open>'f\<close>, and what the C library does to convert
  a digit string is the parameter \<open>scan_float\<close> (\<^verbatim>\<open>sscanf\<close> with \<^verbatim>\<open>%f\<close>; \<open>None\<close> when nothing is
  converted, which leaves the variable undefined).
\<close>

subsection \<open>Pointers into text\<close>

datatype ptr = Null | Input nat nat | Prog nat

record text_mem =
  mem_eval :: nat
  mem_input :: "byte list"
  mem_prog :: "byte list"

fun ptr_add :: "ptr \<Rightarrow> nat \<Rightarrow> ptr" where
  "ptr_add Null n = Null"
| "ptr_add (Input e k) n = Input e (k + n)"
| "ptr_add (Prog k) n = Prog (k + n)"

text \<open>The bytes from a pointer to the end of its block.\<close>

fun view :: "text_mem \<Rightarrow> ptr \<Rightarrow> byte list option" where
  "view mem Null = None"
| "view mem (Input e k) = (if e = mem_eval mem then Some (drop k (mem_input mem)) else None)"
| "view mem (Prog k) = Some (drop k (mem_prog mem))"

text \<open>The number of bytes a loop \<^verbatim>\<open>while (*p && cond(*p)) p++;\<close> passes; \<open>None\<close> when it leaves the
  block.\<close>

fun span_while :: "(byte \<Rightarrow> bool) \<Rightarrow> byte list \<Rightarrow> nat option" where
  "span_while P [] = None"
| "span_while P (c # cs) = (if c \<noteq> 0 \<and> P c then map_option Suc (span_while P cs) else Some 0)"

text \<open>\<^verbatim>\<open>strncmp(p, name, strlen(name)) == 0\<close>\<close>

fun starts_with :: "byte list \<Rightarrow> cstring \<Rightarrow> bool option" where
  "starts_with cs [] = Some True"
| "starts_with [] (d # ds) = None"
| "starts_with (c # cs) (d # ds) = (if c = d then starts_with cs ds else Some False)"

text \<open>Character classes of the C locale.\<close>

definition isspace :: "byte \<Rightarrow> bool" where
  "isspace c \<longleftrightarrow> c = 32 \<or> 9 \<le> c \<and> c \<le> 13"

definition isdigit :: "byte \<Rightarrow> bool" where
  "isdigit c \<longleftrightarrow> 48 \<le> c \<and> c \<le> 57"

definition isvarchar :: "byte \<Rightarrow> bool" where
  "isvarchar c =
     (if c \<ge> 65 \<and> c \<le> 90 then True
      else if c = 36 then True
      else if c \<ge> 48 \<and> c \<le> 57 then True
      else False)"

subsection \<open>Tokens\<close>

type_synonym token = nat

definition T_THE_END :: token where "T_THE_END = 0"
definition T_ERROR :: token where "T_ERROR = 1"
definition T_EOF :: token where "T_EOF = 2"
definition T_NUMBER :: token where "T_NUMBER = 3"
definition T_STRING :: token where "T_STRING = 4"
definition T_VARIABLE_STRING :: token where "T_VARIABLE_STRING = 5"
definition T_VARIABLE_NUMBER :: token where "T_VARIABLE_NUMBER = 6"
definition T_PLUS :: token where "T_PLUS = 7"
definition T_MINUS :: token where "T_MINUS = 8"
definition T_MULTIPLY :: token where "T_MULTIPLY = 9"
definition T_DIVIDE :: token where "T_DIVIDE = 10"
definition T_LEFT_BANANA :: token where "T_LEFT_BANANA = 11"
definition T_RIGHT_BANANA :: token where "T_RIGHT_BANANA = 12"
definition T_COLON :: token where "T_COLON = 13"
definition T_SEMICOLON :: token where "T_SEMICOLON = 14"
definition T_EQUALS :: token where "T_EQUALS = 15"
definition T_LESS :: token where "T_LESS = 16"
definition T_GREATER :: token where "T_GREATER = 17"
definition T_COMMA :: token where "T_COMMA = 18"
definition TOKEN_TYPE_END :: token where "TOKEN_TYPE_END = 19"

lemmas token_defs = T_THE_END_def T_ERROR_def T_EOF_def T_NUMBER_def T_STRING_def
  T_VARIABLE_STRING_def T_VARIABLE_NUMBER_def T_PLUS_def T_MINUS_def T_MULTIPLY_def T_DIVIDE_def
  T_LEFT_BANANA_def T_RIGHT_BANANA_def T_COLON_def T_SEMICOLON_def T_EQUALS_def T_LESS_def
  T_GREATER_def T_COMMA_def TOKEN_TYPE_END_def

record token_entry =
  te_token :: token
  te_name :: "cstring option"

definition tokenizer_string_length :: nat where
  "tokenizer_string_length = 64"

definition tokenizer_variable_length :: nat where
  "tokenizer_variable_length = 8"

record 'f tokenizer =
  token_array :: "token_entry array"
  tokenizer_line :: ptr
  tokenizer_p :: ptr
  tokenizer_next_p :: ptr
  tokenizer_actual_number :: 'f
  tokenizer_actual_string :: "byte list"
  tokenizer_actual_variable :: "byte list"

subsection \<open>Operations\<close>

definition tokenizer_register_token :: "'f tokenizer \<Rightarrow> token_entry \<Rightarrow> 'f tokenizer option" where
  "tokenizer_register_token t entry = do {
     a \<leftarrow> array_push (token_array t) entry;
     Some (t\<lparr>token_array := a\<rparr>) }"

fun register_all :: "'f tokenizer \<Rightarrow> token_entry list \<Rightarrow> 'f tokenizer option" where
  "register_all t [] = Some t"
| "register_all t (e # es) = do { t \<leftarrow> tokenizer_register_token t e; register_all t es }"

definition setup_tokens :: "token_entry list" where
  "setup_tokens = map (\<lambda>(t, n). \<lparr>te_token = t, te_name = n\<rparr>)
     [(T_ERROR, None), (T_EOF, None), (T_NUMBER, None), (T_STRING, None), (T_VARIABLE_STRING, None),
      (T_VARIABLE_NUMBER, None), (T_PLUS, Some [43]), (T_MINUS, Some [45]), (T_MULTIPLY, Some [42]),
      (T_DIVIDE, Some [47]), (T_LEFT_BANANA, Some [40]), (T_RIGHT_BANANA, Some [41]),
      (T_COLON, Some [58]), (T_SEMICOLON, Some [59]), (T_EQUALS, Some [61]), (T_LESS, Some [60]),
      (T_GREATER, Some [62]), (T_COMMA, Some [44])]"

definition tokenizer_setup :: "'f tokenizer \<Rightarrow> 'f tokenizer option" where
  "tokenizer_setup t = register_all (t\<lparr>token_array := array_new 16\<rparr>) setup_tokens"

definition tokenizer_init :: "'f tokenizer \<Rightarrow> ptr \<Rightarrow> 'f tokenizer" where
  "tokenizer_init t input = t\<lparr>tokenizer_line := input, tokenizer_p := input, tokenizer_next_p := input\<rparr>"

text \<open>The two uses of \<^verbatim>\<open>tokenizer_char_pointer\<close>: with a non-null argument it moves the tokenizer there;
  with the null pointer it skips white space and returns the position.  A null argument meant as a
  position therefore only skips white space.\<close>

definition skip_white :: "text_mem \<Rightarrow> 'f tokenizer \<Rightarrow> 'f tokenizer option" where
  "skip_white mem t = do {
     cs \<leftarrow> view mem (tokenizer_p t);
     n \<leftarrow> span_while isspace cs;
     Some (t\<lparr>tokenizer_p := ptr_add (tokenizer_p t) n\<rparr>) }"

definition tokenizer_char_pointer :: "text_mem \<Rightarrow> 'f tokenizer \<Rightarrow> ptr \<Rightarrow> (ptr \<times> 'f tokenizer) option" where
  "tokenizer_char_pointer mem t pos =
     (if pos \<noteq> Null then Some (Null, t\<lparr>tokenizer_p := pos\<rparr>)
      else do { t \<leftarrow> skip_white mem t; Some (tokenizer_p t, t) })"

text \<open>The loop of \<^verbatim>\<open>_find_registered\<close> over the indices of the token array.\<close>

fun find_registered_loop ::
  "text_mem \<Rightarrow> 'f tokenizer \<Rightarrow> nat list \<Rightarrow> (token \<times> 'f tokenizer) option" where
  "find_registered_loop mem t [] = Some (T_THE_END, t)"
| "find_registered_loop mem t (i # is) = do {
     cell \<leftarrow> array_get (token_array t) i;
     entry \<leftarrow> cell;
     (case te_name entry of
        None \<Rightarrow> find_registered_loop mem t is
      | Some name \<Rightarrow> do {
          cs \<leftarrow> view mem (tokenizer_p t);
          found \<leftarrow> starts_with cs name;
          if found
          then let p = ptr_add (tokenizer_p t) (length name) in
            Some (te_token entry, t\<lparr>tokenizer_next_p := p, tokenizer_p := p\<rparr>)
          else find_registered_loop mem t is }) }"

definition find_registered :: "text_mem \<Rightarrow> 'f tokenizer \<Rightarrow> (token \<times> 'f tokenizer) option" where
  "find_registered mem t = find_registered_loop mem t [0..<array_size (token_array t)]"

definition read_number ::
  "(cstring \<Rightarrow> 'f option) \<Rightarrow> text_mem \<Rightarrow> 'f tokenizer \<Rightarrow> (token \<times> 'f tokenizer) option" where
  "read_number scan_float mem t = do {
     cs \<leftarrow> view mem (tokenizer_p t);
     l \<leftarrow> span_while (\<lambda>c. isdigit c \<or> c = 46) cs;
     let next_p = ptr_add (tokenizer_p t) l;
     f \<leftarrow> scan_float (take l cs);
     Some (T_NUMBER, t\<lparr>tokenizer_next_p := next_p, tokenizer_p := next_p, tokenizer_actual_number := f\<rparr>) }"

definition read_string :: "text_mem \<Rightarrow> 'f tokenizer \<Rightarrow> (token \<times> 'f tokenizer) option" where
  "read_string mem t = do {
     let p = ptr_add (tokenizer_p t) 1;
     cs \<leftarrow> view mem p;
     l \<leftarrow> span_while (\<lambda>c. c \<noteq> 34) cs;
     c \<leftarrow> load cs l;
     let next_p = (if c \<noteq> 0 then ptr_add p (l + 1) else ptr_add p l);
     let t = t\<lparr>tokenizer_p := p, tokenizer_next_p := next_p\<rparr>;
     if l > 80 then Some (T_ERROR, t)
     else do {
       s \<leftarrow> blit (tokenizer_actual_string t) 0 (take l cs);
       s \<leftarrow> store s l 0;
       Some (T_STRING, t\<lparr>tokenizer_actual_string := s, tokenizer_p := next_p\<rparr>) } }"

definition read_variable :: "text_mem \<Rightarrow> 'f tokenizer \<Rightarrow> (token \<times> 'f tokenizer) option" where
  "read_variable mem t = do {
     cs \<leftarrow> view mem (tokenizer_p t);
     len \<leftarrow> span_while isvarchar cs;
     let next_p = ptr_add (tokenizer_p t) len;
     let t = t\<lparr>tokenizer_next_p := next_p\<rparr>;
     if len > tokenizer_variable_length then Some (T_ERROR, t)
     else if len > 0 then do {
       v \<leftarrow> blit (tokenizer_actual_variable t) 0 (take len cs);
       v \<leftarrow> store v len 0;
       let t = t\<lparr>tokenizer_actual_variable := v, tokenizer_p := next_p\<rparr>;
       last_char \<leftarrow> load v (len - 1);
       Some (if last_char = 36 then T_VARIABLE_STRING else T_VARIABLE_NUMBER, t) }
     else Some (T_ERROR, t) }"

definition tokenizer_get_next_token ::
  "(cstring \<Rightarrow> 'f option) \<Rightarrow> text_mem \<Rightarrow> 'f tokenizer \<Rightarrow> (token \<times> 'f tokenizer) option" where
  "tokenizer_get_next_token scan_float mem t = do {
     cs \<leftarrow> view mem (tokenizer_p t);
     c \<leftarrow> load cs 0;
     if c = 0 then Some (T_EOF, t)
     else do {
       t \<leftarrow> skip_white mem t;
       cs \<leftarrow> view mem (tokenizer_p t);
       c \<leftarrow> load cs 0;
       if isdigit c \<or> c = 46 then read_number scan_float mem t
       else if c = 34 then read_string mem t
       else do {
         (tok, t) \<leftarrow> find_registered mem t;
         if tok \<noteq> T_THE_END then Some (tok, t) else read_variable mem t } } }"

definition tokenizer_get_number :: "'f tokenizer \<Rightarrow> 'f" where
  "tokenizer_get_number t = tokenizer_actual_number t"

text \<open>The string the returned pointer refers to.\<close>

definition tokenizer_get_string :: "'f tokenizer \<Rightarrow> cstring option" where
  "tokenizer_get_string t = cstring_at (tokenizer_actual_string t) 0"

text \<open>The callers copy the name into an array of \<open>tokenizer_variable_length\<close> bytes.\<close>

definition tokenizer_get_variable_name :: "'f tokenizer \<Rightarrow> cstring option" where
  "tokenizer_get_variable_name t = cstring_at (tokenizer_actual_variable t) 0"

subsection \<open>Reading the text behind a pointer\<close>

lemma view_add: "view mem p = Some cs \<Longrightarrow> view mem (ptr_add p n) = Some (drop n cs)"
  by (cases p) (auto simp: add.commute split: if_splits)

lemma ptr_add_add [simp]: "ptr_add (ptr_add p m) n = ptr_add p (m + n)"
  by (cases p) simp_all

lemma ptr_add_0 [simp]: "ptr_add p 0 = p"
  by (cases p) simp_all

lemma span_while_split:
  "\<forall>c\<in>set s. c \<noteq> 0 \<and> P c \<Longrightarrow> d = 0 \<or> \<not> P d \<Longrightarrow> span_while P (s @ d # rest) = Some (length s)"
  by (induction s) auto

lemma starts_with_append: "starts_with (name @ rest) name = Some True"
  by (induction name) auto

lemma starts_with_first: "c \<noteq> d \<Longrightarrow> starts_with (c # cs) (d # ds) = Some False"
  by simp

subsection \<open>The token array\<close>

definition holds_entries :: "'a array \<Rightarrow> 'a list \<Rightarrow> bool" where
  "holds_entries a es \<longleftrightarrow> element_size a = 16 \<and> arr_size a = length es \<and> arr_ptr a = map Some es"

lemma holds_entries_push:
  assumes "holds_entries a es" and "length es < 2 ^ 59"
  shows "\<exists>a'. array_push a e = Some a' \<and> holds_entries a' (es @ [e])"
proof -
  have "16 * Suc (length es) < 2 ^ 64" using assms(2) by simp
  then have "cells a (Suc (length es)) = Suc (length es)"
    using assms(1) by (simp add: cells_def holds_entries_def)
  then show ?thesis
    using assms(1) by (simp add: array_push_def array_alloc_def array_set_def realloc_def
        holds_entries_def list_update_append)
qed

lemma register_all_entries:
  assumes "holds_entries (token_array t) es0" and "length es0 + length es < 2 ^ 59"
  shows "\<exists>a. register_all t es = Some (t\<lparr>token_array := a\<rparr>) \<and> holds_entries a (es0 @ es)"
  using assms
proof (induction es arbitrary: t es0)
  case Nil
  then show ?case by (auto intro!: exI [of _ "token_array t"])
next
  case (Cons e es)
  obtain a where a: "array_push (token_array t) e = Some a" "holds_entries a (es0 @ [e])"
    using holds_entries_push [OF Cons.prems(1)] Cons.prems(2) by auto
  then have "\<exists>a'. register_all (t\<lparr>token_array := a\<rparr>) es = Some (t\<lparr>token_array := a\<rparr>\<lparr>token_array := a'\<rparr>)
    \<and> holds_entries a' ((es0 @ [e]) @ es)"
    using Cons.prems(2) by (intro Cons.IH) auto
  then show ?case using a(1) by (simp add: tokenizer_register_token_def)
qed

text \<open>The first entry whose name starts the text, found by the loop over the array.\<close>

fun first_match :: "byte list \<Rightarrow> token_entry list \<Rightarrow> (token \<times> nat) option option" where
  "first_match cs [] = Some None"
| "first_match cs (e # es) =
     (case te_name e of
        None \<Rightarrow> first_match cs es
      | Some name \<Rightarrow> do {
          found \<leftarrow> starts_with cs name;
          if found then Some (Some (te_token e, length name)) else first_match cs es })"

lemma find_registered_loop_match:
  assumes "holds_entries (token_array t) (es0 @ es)" and "view mem (tokenizer_p t) = Some cs"
  shows "find_registered_loop mem t [length es0..<length (es0 @ es)]
    = (case first_match cs es of
         None \<Rightarrow> None
       | Some None \<Rightarrow> Some (T_THE_END, t)
       | Some (Some (tok, n)) \<Rightarrow> let p = ptr_add (tokenizer_p t) n in
           Some (tok, t\<lparr>tokenizer_next_p := p, tokenizer_p := p\<rparr>))"
  using assms(1)
proof (induction es arbitrary: es0)
  case (Cons e es)
  have get: "array_get (token_array t) (length es0) = Some (Some e)"
    using Cons.prems by (simp add: array_get_def holds_entries_def nth_append)
  have IH: "find_registered_loop mem t [Suc (length es0)..<Suc (length es0 + length es)]
    = (case first_match cs es of
         None \<Rightarrow> None
       | Some None \<Rightarrow> Some (T_THE_END, t)
       | Some (Some (tok, n)) \<Rightarrow> let p = ptr_add (tokenizer_p t) n in
           Some (tok, t\<lparr>tokenizer_next_p := p, tokenizer_p := p\<rparr>))"
    using Cons.IH [of "es0 @ [e]"] Cons.prems by simp
  show ?case
  proof (cases "te_name e")
    case None
    then show ?thesis using get IH by (simp add: upt_conv_Cons del: upt_Suc)
  next
    case (Some name)
    then show ?thesis
      using get IH assms(2)
      by (cases "starts_with cs name") (simp_all add: upt_conv_Cons del: upt_Suc)
  qed
qed simp

lemma find_registered_match:
  assumes "holds_entries (token_array t) es" and "view mem (tokenizer_p t) = Some cs"
  shows "find_registered mem t
    = (case first_match cs es of
         None \<Rightarrow> None
       | Some None \<Rightarrow> Some (T_THE_END, t)
       | Some (Some (tok, n)) \<Rightarrow> let p = ptr_add (tokenizer_p t) n in
           Some (tok, t\<lparr>tokenizer_next_p := p, tokenizer_p := p\<rparr>))"
  using find_registered_loop_match [of t "[]" es mem cs] assms
  by (simp add: find_registered_def array_size_def holds_entries_def)

subsection \<open>One token\<close>

text \<open>The switch on the first character when there is no white space in front.\<close>

lemma next_token_at:
  assumes "view mem (tokenizer_p t) = Some (c # cs)" and "c \<noteq> 0" and "\<not> isspace c"
  shows "tokenizer_get_next_token scan mem t =
    (if isdigit c \<or> c = 46 then read_number scan mem t
     else if c = 34 then read_string mem t
     else do {
       (tok, t) \<leftarrow> find_registered mem t;
       if tok \<noteq> T_THE_END then Some (tok, t) else read_variable mem t })"
proof -
  have "skip_white mem t = Some t"
    using assms by (simp add: skip_white_def)
  then show ?thesis using assms by (simp add: tokenizer_get_next_token_def)
qed

lemma next_token_space:
  assumes "view mem (tokenizer_p t) = Some (s @ c # cs)" and "\<forall>d\<in>set s. d \<noteq> 0 \<and> isspace d"
    and "c \<noteq> 0" and "\<not> isspace c"
  shows "tokenizer_get_next_token scan mem t
    = tokenizer_get_next_token scan mem (t\<lparr>tokenizer_p := ptr_add (tokenizer_p t) (length s)\<rparr>)"
proof (cases s)
  case Nil
  then show ?thesis by simp
next
  case (Cons d s')
  have "skip_white mem t = Some (t\<lparr>tokenizer_p := ptr_add (tokenizer_p t) (length s)\<rparr>)"
    using assms span_while_split [of s isspace c cs] by (simp add: skip_white_def)
  moreover have "view mem (ptr_add (tokenizer_p t) (length s)) = Some (c # cs)"
    using view_add [OF assms(1), of "length s"] by simp
  ultimately show ?thesis
    using assms Cons by (simp add: tokenizer_get_next_token_def skip_white_def)
qed

lemma next_token_eof:
  "view mem (tokenizer_p t) = Some (0 # cs) \<Longrightarrow> tokenizer_get_next_token scan mem t = Some (T_EOF, t)"
  by (simp add: tokenizer_get_next_token_def)

lemma next_token_number:
  assumes "view mem (tokenizer_p t) = Some (s @ c # cs)" and "s \<noteq> []"
    and "\<forall>d\<in>set s. isdigit d \<or> d = 46" and "\<not> isdigit c" and "c \<noteq> 46" and "scan s = Some f"
  shows "tokenizer_get_next_token scan mem t = (let p = ptr_add (tokenizer_p t) (length s) in
    Some (T_NUMBER, t\<lparr>tokenizer_next_p := p, tokenizer_p := p, tokenizer_actual_number := f\<rparr>))"
proof -
  obtain d s' where s: "s = d # s'" using assms(2) by (cases s) auto
  have nz: "d \<noteq> 0 \<and> (isdigit d \<or> d = 46)" if "d \<in> set s" for d
    using assms(3) that by (auto simp: isdigit_def)
  have d: "d \<noteq> 0" "\<not> isspace d" "isdigit d \<or> d = 46"
    using nz [of d] assms(3) s by (auto simp: isspace_def isdigit_def word_le_nat_alt)
  have "span_while (\<lambda>c. isdigit c \<or> c = 46) (s @ c # cs) = Some (length s)"
    using nz assms(4,5) by (intro span_while_split) auto
  then show ?thesis
    using next_token_at [of mem t d "s' @ c # cs" scan] assms(1,6) d s
    by (simp add: read_number_def Let_def)
qed

text \<open>A name copied into a static buffer with its closing zero.\<close>

lemma buffer_copy:
  assumes "length buf = n" and "is_cstring s"
  shows "do { b \<leftarrow> blit buf 0 s; store b (length s) 0 }
    = (if length s < n then Some (s @ 0 # drop (length s + 1) buf) else None)"
proof (cases "length s < n")
  case True
  then have "drop (length s) buf = buf ! length s # drop (length s + 1) buf"
    using assms(1) by (simp add: Cons_nth_drop_Suc)
  then have "blit buf 0 s = Some (s @ buf ! length s # drop (length s + 1) buf)"
    using True assms(1) by (simp add: blit_def)
  then show ?thesis using True by (simp add: store_def list_update_append)
next
  case False
  then show ?thesis using assms(1) by (auto simp: blit_def store_def)
qed

lemma cstring_at_start: "is_cstring s \<Longrightarrow> cstring_at (s @ 0 # rest) 0 = Some s"
  using cstring_at_split [of s 0 "[]" rest] by simp

definition string_char :: "byte \<Rightarrow> bool" where
  "string_char c \<longleftrightarrow> c \<noteq> 0 \<and> c \<noteq> 34"

lemma read_string_cases:
  assumes "view mem (tokenizer_p t) = Some (34 # s @ 34 # rest)" and "list_all string_char s"
    and "length (tokenizer_actual_string t) = tokenizer_string_length"
  shows "tokenizer_get_next_token scan mem t =
    (if length s > 80
     then Some (T_ERROR, t\<lparr>tokenizer_p := ptr_add (tokenizer_p t) 1,
       tokenizer_next_p := ptr_add (tokenizer_p t) (length s + 2)\<rparr>)
     else if length s \<ge> tokenizer_string_length then None
     else Some (T_STRING, t\<lparr>tokenizer_p := ptr_add (tokenizer_p t) (length s + 2),
       tokenizer_next_p := ptr_add (tokenizer_p t) (length s + 2),
       tokenizer_actual_string := s @ 0 # drop (length s + 1) (tokenizer_actual_string t)\<rparr>))"
proof -
  have str: "is_cstring s" using assms(2) by (auto simp: is_cstring_def list_all_iff string_char_def)
  have tail: "view mem (ptr_add (tokenizer_p t) 1) = Some (s @ 34 # rest)"
    using view_add [OF assms(1), of 1] by simp
  have "\<not> isspace 34" "\<not> isdigit 34" by (simp_all add: isspace_def isdigit_def)
  then have "tokenizer_get_next_token scan mem t = read_string mem t"
    using next_token_at [OF assms(1)] by simp
  moreover have "span_while (\<lambda>c. c \<noteq> 34) (s @ 34 # rest) = Some (length s)"
    using assms(2) by (intro span_while_split) (auto simp: list_all_iff string_char_def)
  moreover have "load (s @ 34 # rest) (length s) = Some 34" by (simp add: nth_append)
  ultimately show ?thesis
    using tail buffer_copy [OF assms(3) str]
    by (auto simp: read_string_def bind_eq_Some_conv Let_def simp flip: bind_assoc)
qed

text \<open>A string literal of fewer than 64 characters is returned with its text and the tokenizer
  moves behind the closing quote; the limit the code tests is 80, so one of 64 to 80 characters is
  copied over the end of the token buffer; a longer one is an error.\<close>

theorem string_token:
  assumes "view mem (tokenizer_p t) = Some (34 # s @ 34 # rest)" and "list_all string_char s"
    and "length (tokenizer_actual_string t) = tokenizer_string_length"
  shows "if length s > 80 then \<exists>t'. tokenizer_get_next_token scan mem t = Some (T_ERROR, t')
    else if length s \<ge> tokenizer_string_length then tokenizer_get_next_token scan mem t = None
    else \<exists>t'. tokenizer_get_next_token scan mem t = Some (T_STRING, t')
      \<and> tokenizer_get_string t' = Some s \<and> view mem (tokenizer_p t') = Some rest"
proof -
  have "is_cstring s" using assms(2) by (auto simp: is_cstring_def list_all_iff string_char_def)
  then show ?thesis
    using read_string_cases [OF assms, of scan] view_add [OF assms(1), of "length s + 2"]
    by (simp add: tokenizer_get_string_def cstring_at_start)
qed

definition sample_tokenizer :: "int tokenizer" where
  "sample_tokenizer = \<lparr>token_array = array_new 16, tokenizer_line = Prog 0, tokenizer_p = Prog 0,
     tokenizer_next_p = Prog 0, tokenizer_actual_number = 0,
     tokenizer_actual_string = replicate 64 0, tokenizer_actual_variable = replicate 8 0\<rparr>"

theorem string_token_witness:
  "(\<exists>t'. tokenizer_get_next_token (\<lambda>s. Some 0) \<lparr>mem_eval = 0, mem_input = [], mem_prog = [34, 72, 34, 0]\<rparr>
       sample_tokenizer = Some (T_STRING, t') \<and> tokenizer_get_string t' = Some [72])
   \<and> tokenizer_get_next_token (\<lambda>s. Some 0)
       \<lparr>mem_eval = 0, mem_input = [], mem_prog = 34 # replicate 64 65 @ [34, 0]\<rparr> sample_tokenizer = None"
proof
  show "\<exists>t'. tokenizer_get_next_token (\<lambda>s. Some 0) \<lparr>mem_eval = 0, mem_input = [], mem_prog = [34, 72, 34, 0]\<rparr>
       sample_tokenizer = Some (T_STRING, t') \<and> tokenizer_get_string t' = Some [72]"
    using string_token [of "\<lparr>mem_eval = 0, mem_input = [], mem_prog = [34, 72, 34, 0]\<rparr>" sample_tokenizer "[72]"
        "[0]" "\<lambda>s. Some 0"]
    by (auto simp: sample_tokenizer_def string_char_def tokenizer_string_length_def)
  show "tokenizer_get_next_token (\<lambda>s. Some 0)
       \<lparr>mem_eval = 0, mem_input = [], mem_prog = 34 # replicate 64 65 @ [34, 0]\<rparr> sample_tokenizer = None"
    using string_token [of "\<lparr>mem_eval = 0, mem_input = [], mem_prog = 34 # replicate 64 65 @ [34, 0]\<rparr>"
        sample_tokenizer "replicate 64 65" "[0]" "\<lambda>s. Some 0"]
    by (simp add: sample_tokenizer_def string_char_def tokenizer_string_length_def list_all_length)
qed

lemma read_variable_cases:
  assumes "view mem (tokenizer_p t) = Some (s @ c # rest)" and "s \<noteq> []" and "list_all isvarchar s"
    and "\<not> isdigit (hd s)" and "\<not> isvarchar c"
    and "holds_entries (token_array t) es" and "first_match (s @ c # rest) es = Some None"
    and "length (tokenizer_actual_variable t) = tokenizer_variable_length"
  shows "tokenizer_get_next_token scan mem t =
    (if length s > tokenizer_variable_length
     then Some (T_ERROR, t\<lparr>tokenizer_next_p := ptr_add (tokenizer_p t) (length s)\<rparr>)
     else if length s = tokenizer_variable_length then None
     else Some (if last s = 36 then T_VARIABLE_STRING else T_VARIABLE_NUMBER,
       t\<lparr>tokenizer_next_p := ptr_add (tokenizer_p t) (length s),
         tokenizer_actual_variable := s @ 0 # drop (length s + 1) (tokenizer_actual_variable t),
         tokenizer_p := ptr_add (tokenizer_p t) (length s)\<rparr>))"
proof -
  have var: "d \<noteq> 0 \<and> isvarchar d" if "d \<in> set s" for d
    using assms(3) that by (auto simp: list_all_iff isvarchar_def split: if_splits)
  then have str: "is_cstring s" by (auto simp: is_cstring_def)
  obtain d s' where s: "s = d # s'" using assms(2) by (cases s) auto
  have d: "d \<noteq> 0" "\<not> isspace d" "\<not> isdigit d" "d \<noteq> 46" "d \<noteq> 34"
    using var [of d] assms(4) s
    by (auto simp: isvarchar_def isspace_def isdigit_def word_le_nat_alt split: if_splits)
  have "find_registered mem t = Some (T_THE_END, t)"
    using find_registered_match [OF assms(6,1)] assms(7) by simp
  then have "tokenizer_get_next_token scan mem t = read_variable mem t"
    using next_token_at [of mem t d "s' @ c # rest" scan] assms(1) d s by simp
  moreover have "span_while isvarchar (s @ c # rest) = Some (length s)"
    using var assms(5) by (intro span_while_split) auto
  moreover have "load (s @ 0 # drop (length s + 1) (tokenizer_actual_variable t)) (length s - 1) = Some (last s)"
    using assms(2) by (simp add: nth_append last_conv_nth)
  ultimately show ?thesis
    using assms(1,2) buffer_copy [OF assms(8) str]
    by (auto simp: read_variable_def bind_eq_Some_conv Let_def simp flip: bind_assoc)
qed

text \<open>A name that no registered keyword starts is a variable token, a string variable when it ends
  with a dollar sign, with its text in the variable buffer; a name of exactly 8 characters passes
  the length test and overruns the 8-byte buffer by its closing zero; a longer one is an error.\<close>

theorem variable_token:
  assumes "view mem (tokenizer_p t) = Some (s @ c # rest)" and "s \<noteq> []" and "list_all isvarchar s"
    and "\<not> isdigit (hd s)" and "\<not> isvarchar c"
    and "holds_entries (token_array t) es" and "first_match (s @ c # rest) es = Some None"
    and "length (tokenizer_actual_variable t) = tokenizer_variable_length"
  shows "if length s > tokenizer_variable_length
    then \<exists>t'. tokenizer_get_next_token scan mem t = Some (T_ERROR, t')
    else if length s = tokenizer_variable_length then tokenizer_get_next_token scan mem t = None
    else \<exists>t'. tokenizer_get_next_token scan mem t
          = Some (if last s = 36 then T_VARIABLE_STRING else T_VARIABLE_NUMBER, t')
      \<and> tokenizer_get_variable_name t' = Some s \<and> view mem (tokenizer_p t') = Some (c # rest)"
proof -
  have "is_cstring s"
    using assms(3) by (auto simp: is_cstring_def list_all_iff isvarchar_def split: if_splits)
  then show ?thesis
    using read_variable_cases [OF assms, of scan] view_add [OF assms(1), of "length s"]
    by (simp add: tokenizer_get_variable_name_def cstring_at_start)
qed

theorem variable_token_witness:
  "(\<exists>t'. tokenizer_get_next_token (\<lambda>s. Some 0) \<lparr>mem_eval = 0, mem_input = [], mem_prog = [65, 66, 36, 0]\<rparr>
       sample_tokenizer = Some (T_VARIABLE_STRING, t') \<and> tokenizer_get_variable_name t' = Some [65, 66, 36])
   \<and> tokenizer_get_next_token (\<lambda>s. Some 0)
       \<lparr>mem_eval = 0, mem_input = [], mem_prog = replicate 8 65 @ [0]\<rparr> sample_tokenizer = None"
proof
  have h: "holds_entries (token_array sample_tokenizer) []"
    by (simp add: holds_entries_def sample_tokenizer_def array_new_def)
  show "\<exists>t'. tokenizer_get_next_token (\<lambda>s. Some 0) \<lparr>mem_eval = 0, mem_input = [], mem_prog = [65, 66, 36, 0]\<rparr>
       sample_tokenizer = Some (T_VARIABLE_STRING, t') \<and> tokenizer_get_variable_name t' = Some [65, 66, 36]"
    using variable_token [of "\<lparr>mem_eval = 0, mem_input = [], mem_prog = [65, 66, 36, 0]\<rparr>" sample_tokenizer
        "[65, 66, 36]" 0 "[]" "[]" "\<lambda>s. Some 0"] h
    by (auto simp: sample_tokenizer_def isvarchar_def isdigit_def tokenizer_variable_length_def)
  show "tokenizer_get_next_token (\<lambda>s. Some 0)
       \<lparr>mem_eval = 0, mem_input = [], mem_prog = replicate 8 65 @ [0]\<rparr> sample_tokenizer = None"
    using variable_token [of "\<lparr>mem_eval = 0, mem_input = [], mem_prog = replicate 8 65 @ [0]\<rparr>"
        sample_tokenizer "replicate 8 65" 0 "[]" "[]" "\<lambda>s. Some 0"] h
    by (simp add: sample_tokenizer_def isvarchar_def isdigit_def tokenizer_variable_length_def list_all_length)
qed

end
