(* ===== verification/Basic_Lines.thy ===== *)
theory Basic_Lines
  imports Prelude
begin

section \<open>BASIC: the packed program line store\<close>

text \<open>
  Model of \<^verbatim>\<open>src/src/components/basic/src/lines.c\<close>.  The BASIC program is kept in one block of
  memory as a sequence of packed records \<^verbatim>\<open>struct line { uint16_t number; uint8_t length; char
  contents; }\<close>: two bytes of line number (little endian), one byte of length, then the text with
  its closing zero byte.  The sequence ends with a record whose number and length are zero.
  Pointers to records are offsets into the block; \<open>None\<close> is an access outside the block.
\<close>

subsection \<open>Record access (struct line, sizeof(line) = 4)\<close>

record lines_state =
  lines_memory :: "byte list"
  lines_memory_end :: nat
  lines_memory_size :: nat

definition line_number :: "byte list \<Rightarrow> nat \<Rightarrow> u16 option" where
  "line_number m l = do { lo \<leftarrow> load m l; hi \<leftarrow> load m (l + 1); Some (u16_of lo hi) }"

definition line_length :: "byte list \<Rightarrow> nat \<Rightarrow> byte option" where
  "line_length m l = load m (l + 2)"

definition line_contents :: "nat \<Rightarrow> nat" where
  "line_contents l = l + 3"

definition set_line_number :: "byte list \<Rightarrow> nat \<Rightarrow> u16 \<Rightarrow> byte list option" where
  "set_line_number m l n = blit m l [u16_lo n, u16_hi n]"

definition set_line_length :: "byte list \<Rightarrow> nat \<Rightarrow> byte \<Rightarrow> byte list option" where
  "set_line_length m l n = blit m (l + 2) [n]"

definition line_next :: "byte list \<Rightarrow> nat \<Rightarrow> nat option" where
  "line_next m l = do { n \<leftarrow> line_length m l; Some (l + 3 + unat n) }"

definition line_is_end :: "byte list \<Rightarrow> nat \<Rightarrow> bool option" where
  "line_is_end m l = do {
     n \<leftarrow> line_number m l;
     if n = 0 then do { k \<leftarrow> line_length m l; Some (k = 0) } else Some False }"

text \<open>Every record is at least three bytes long, so a walk over the block ends or leaves it.\<close>

lemma line_next_mono: "line_next m l = Some k \<Longrightarrow> l < k \<and> l + 2 < length m"
  by (auto simp: line_next_def line_length_def load_def bind_eq_Some_conv split: if_splits)

function find_end :: "byte list \<Rightarrow> nat \<Rightarrow> nat option" where
  "find_end m n =
     (case line_is_end m n of
        None \<Rightarrow> None
      | Some True \<Rightarrow> Some n
      | Some False \<Rightarrow> (case line_next m n of None \<Rightarrow> None | Some n' \<Rightarrow> find_end m n'))"
  by pat_completeness auto
termination
  by (relation "measure (\<lambda>(m, n). length m - n)") (auto dest: line_next_mono)

declare find_end.simps [simp del]

subsection \<open>Operations\<close>

definition lines_init :: "byte list \<Rightarrow> nat \<Rightarrow> lines_state option" where
  "lines_init memory memory_size = do {
     m \<leftarrow> set_line_number memory 0 0;
     m \<leftarrow> set_line_length m 0 0;
     Some \<lparr>lines_memory = m, lines_memory_end = 0, lines_memory_size = memory_size\<rparr> }"

definition lines_memory_used :: "lines_state \<Rightarrow> nat option" where
  "lines_memory_used s = do {
     end \<leftarrow> find_end (lines_memory s) 0;
     end \<leftarrow> line_next (lines_memory s) end;
     Some (end - 0) }"

text \<open>\<open>size_t\<close> subtraction, 64 bits wide.\<close>

definition lines_memory_available :: "lines_state \<Rightarrow> u64 option" where
  "lines_memory_available s = do {
     used \<leftarrow> lines_memory_used s;
     Some (of_nat (lines_memory_size s) - of_nat used) }"

text \<open>The part of \<open>lines_store\<close> shared by its insert and prepend branches: the records from
  \<open>insert\<close> up to and including the sentinel move right, and the new record is written.\<close>

definition insert_at :: "byte list \<Rightarrow> nat \<Rightarrow> u16 \<Rightarrow> cstring \<Rightarrow> byte list option" where
  "insert_at m ins number contents = do {
     end \<leftarrow> find_end m ins;
     end \<leftarrow> line_next m end;
     let m_size = end - ins;
     let insert_size = 3 + length contents + 1;
     let m_dst = ins + insert_size;
     m \<leftarrow> memmove m m_dst ins m_size;
     m \<leftarrow> set_line_number m ins number;
     m \<leftarrow> set_line_length m ins (of_nat (length contents + 1));
     strcpy m (line_contents ins) contents }"

definition replace_at :: "byte list \<Rightarrow> nat \<Rightarrow> nat \<Rightarrow> cstring \<Rightarrow> byte list option" where
  "replace_at m l next contents = do {
     end \<leftarrow> find_end m l;
     end \<leftarrow> line_next m end;
     let m_size = end - next;
     let replace_size = 3 + length contents + 1;
     old_len \<leftarrow> strlen m (line_contents l);
     let actual_size = 3 + old_len + 1;
     let offset = int replace_size - int actual_size;
     let m_dst = int next + offset;
     m \<leftarrow> (if m_dst < 0 then None else memmove m (nat m_dst) next m_size);
     m \<leftarrow> set_line_length m l (of_nat (length contents + 1));
     strcpy m (line_contents l) contents }"

definition append_at :: "byte list \<Rightarrow> nat \<Rightarrow> u16 \<Rightarrow> cstring \<Rightarrow> byte list option" where
  "append_at m l number contents = do {
     m \<leftarrow> set_line_number m l number;
     m \<leftarrow> set_line_length m l (of_nat (length contents + 1));
     m \<leftarrow> strcpy m (line_contents l) contents;
     end \<leftarrow> line_next m l;
     m \<leftarrow> set_line_number m end 0;
     set_line_length m end 0 }"

function store_loop :: "byte list \<Rightarrow> nat \<Rightarrow> u16 \<Rightarrow> cstring \<Rightarrow> byte list option" where
  "store_loop m l number contents =
     (case line_is_end m l of
        None \<Rightarrow> None
      | Some True \<Rightarrow> append_at m l number contents
      | Some False \<Rightarrow>
         (case (line_next m l, line_number m l) of
            (Some next, Some l_number) \<Rightarrow>
              (case (if l_number < number then line_number m next else Some 0) of
                 None \<Rightarrow> None
               | Some next_number \<Rightarrow>
                   if l_number < number \<and> next_number > number
                   then insert_at m next number contents
                   else if l_number = number then replace_at m l next contents
                   else if l_number > number then insert_at m l number contents
                   else store_loop m next number contents)
          | _ \<Rightarrow> None))"
  by pat_completeness auto
termination
  by (relation "measure (\<lambda>(m, l, _). length m - l)")
    (auto dest: line_next_mono line_next_mono [OF sym])

declare store_loop.simps [simp del]

definition lines_store :: "lines_state \<Rightarrow> u16 \<Rightarrow> cstring \<Rightarrow> (bool \<times> lines_state) option" where
  "lines_store s number contents = do {
     m \<leftarrow> store_loop (lines_memory s) 0 number contents;
     Some (True, s\<lparr>lines_memory := m\<rparr>) }"

text \<open>The search loop shared by \<open>lines_delete\<close> and \<open>lines_get_contents\<close>:
  \<^verbatim>\<open>while (!_is_end(l) && l->number != number) l = _next(l);\<close>.\<close>

function find_line :: "byte list \<Rightarrow> nat \<Rightarrow> u16 \<Rightarrow> nat option" where
  "find_line m l number =
     (case line_is_end m l of
        None \<Rightarrow> None
      | Some True \<Rightarrow> Some l
      | Some False \<Rightarrow>
          (case line_number m l of
             None \<Rightarrow> None
           | Some k \<Rightarrow>
               if k \<noteq> number
               then (case line_next m l of None \<Rightarrow> None | Some l' \<Rightarrow> find_line m l' number)
               else Some l))"
  by pat_completeness auto
termination
  by (relation "measure (\<lambda>(m, l, _). length m - l)")
    (auto dest: line_next_mono line_next_mono [OF sym])

declare find_line.simps [simp del]

definition lines_delete :: "lines_state \<Rightarrow> u16 \<Rightarrow> (bool \<times> lines_state) option" where
  "lines_delete s number = (let m = lines_memory s in do {
     l \<leftarrow> find_line m 0 number;
     at_end \<leftarrow> line_is_end m l;
     if at_end then Some (False, s) else do {
       next \<leftarrow> line_next m l;
       last \<leftarrow> line_is_end m next;
       if last then do {
         len \<leftarrow> strlen m (line_contents l);
         m \<leftarrow> memset m l 0 (3 + len + 1);
         m \<leftarrow> set_line_number m l 0;
         m \<leftarrow> set_line_length m l 0;
         m \<leftarrow> strcpy m (line_contents l) [];
         Some (True, s\<lparr>lines_memory := m\<rparr>) }
       else do {
         end \<leftarrow> find_end m next;
         end \<leftarrow> line_next m end;
         let size = end - next;
         m \<leftarrow> memmove m l next size;
         let rest = next - l;
         m \<leftarrow> memset m (end - rest) 0 rest;
         Some (True, s\<lparr>lines_memory := m\<rparr>) } } })"

definition in_range :: "u16 \<Rightarrow> u16 \<Rightarrow> u16 \<Rightarrow> bool" where
  "in_range i low high =
     (if low = 0 \<and> high = 0 then True
      else if low = 0 \<and> i \<le> high then True
      else if high = 0 \<and> i \<ge> low then True
      else if i \<ge> low \<and> i \<le> high then True
      else False)"

text \<open>The calls of the output callback, in order, with the text the contents pointer refers to.\<close>

function list_loop :: "byte list \<Rightarrow> nat \<Rightarrow> u16 \<Rightarrow> u16 \<Rightarrow> (u16 \<times> cstring) list option" where
  "list_loop m l start end =
     (case line_is_end m l of
        None \<Rightarrow> None
      | Some True \<Rightarrow> Some []
      | Some False \<Rightarrow>
          (case (line_next m l, line_number m l) of
             (Some next, Some k) \<Rightarrow> do {
               out \<leftarrow> (if in_range k start end
                       then do { s \<leftarrow> cstring_at m (line_contents l); Some [(k, s)] }
                       else Some []);
               rest \<leftarrow> list_loop m next start end;
               Some (out @ rest) }
           | _ \<Rightarrow> None))"
  by pat_completeness auto
termination
  by (relation "measure (\<lambda>(m, l, _). length m - l)")
    (auto dest: line_next_mono line_next_mono [OF sym])

declare list_loop.simps [simp del]

definition lines_list :: "lines_state \<Rightarrow> u16 \<Rightarrow> u16 \<Rightarrow> (u16 \<times> cstring) list option" where
  "lines_list s start end = list_loop (lines_memory s) 0 start end"

definition lines_clear :: "lines_state \<Rightarrow> lines_state option" where
  "lines_clear s = (let m = lines_memory s in do {
     end \<leftarrow> find_end m 0;
     end \<leftarrow> line_next m end;
     m \<leftarrow> memset m 0 0 (end - 0);
     m \<leftarrow> set_line_number m 0 0;
     m \<leftarrow> set_line_length m 0 0;
     Some (s\<lparr>lines_memory := m\<rparr>) })"

text \<open>\<open>Some None\<close> is the null pointer.\<close>

definition lines_get_contents :: "lines_state \<Rightarrow> u16 \<Rightarrow> nat option option" where
  "lines_get_contents s number = (let m = lines_memory s in do {
     l \<leftarrow> find_line m 0 number;
     at_end \<leftarrow> line_is_end m l;
     if at_end then Some None else Some (Some (line_contents l)) })"

definition lines_first :: "lines_state \<Rightarrow> u16 option" where
  "lines_first s = line_number (lines_memory s) 0"

function next_loop :: "byte list \<Rightarrow> nat \<Rightarrow> u16 \<Rightarrow> nat option" where
  "next_loop m l number =
     (case line_is_end m l of
        None \<Rightarrow> None
      | Some True \<Rightarrow> Some l
      | Some False \<Rightarrow>
          (case line_number m l of
             None \<Rightarrow> None
           | Some k \<Rightarrow>
               if k \<le> number
               then (case line_next m l of None \<Rightarrow> None | Some l' \<Rightarrow> next_loop m l' number)
               else Some l))"
  by pat_completeness auto
termination
  by (relation "measure (\<lambda>(m, l, _). length m - l)")
    (auto dest: line_next_mono line_next_mono [OF sym])

declare next_loop.simps [simp del]

definition lines_next :: "lines_state \<Rightarrow> u16 \<Rightarrow> u16 option" where
  "lines_next s number = (let m = lines_memory s in do {
     l \<leftarrow> next_loop m 0 number;
     k \<leftarrow> line_number m l;
     if number = k then Some 0 else Some k })"

subsection \<open>The program a block holds\<close>

text \<open>The abstract program is the list of its lines in increasing order of their numbers.\<close>

type_synonym program = "(u16 \<times> cstring) list"

fun line_bytes :: "u16 \<times> cstring \<Rightarrow> byte list" where
  "line_bytes (n, s) = [u16_lo n, u16_hi n, of_nat (length s + 1)] @ s @ [0]"

definition image_bytes :: "program \<Rightarrow> byte list" where
  "image_bytes ls = concat (map line_bytes ls) @ [0, 0, 0]"

fun wf_line :: "u16 \<times> cstring \<Rightarrow> bool" where
  "wf_line (n, s) \<longleftrightarrow> is_cstring s \<and> length s < 255"

definition wf_program :: "program \<Rightarrow> bool" where
  "wf_program ls \<longleftrightarrow> sorted_wrt (<) (map fst ls) \<and> list_all wf_line ls"

definition holds_program :: "lines_state \<Rightarrow> program \<Rightarrow> bool" where
  "holds_program st ls \<longleftrightarrow>
     wf_program ls \<and>
     take (length (image_bytes ls)) (lines_memory st) = image_bytes ls"

fun put_line :: "u16 \<Rightarrow> cstring \<Rightarrow> program \<Rightarrow> program" where
  "put_line n s [] = [(n, s)]"
| "put_line n s ((k, t) # ls) =
     (if n < k then (n, s) # (k, t) # ls
      else if n = k then (n, s) # ls
      else (k, t) # put_line n s ls)"

fun first_number :: "program \<Rightarrow> u16" where
  "first_number [] = 0"
| "first_number ((n, s) # ls) = n"

definition del_line :: "u16 \<Rightarrow> program \<Rightarrow> program" where
  "del_line n ls = filter (\<lambda>l. fst l \<noteq> n) ls"

subsection \<open>Walking over a block\<close>

lemma length_line_bytes [simp]: "length (line_bytes l) = length (snd l) + 4"
  by (cases l) simp

lemma line_number_at [c_mem]:
  "p = length pre \<Longrightarrow> line_number (pre @ line_bytes (n, s) @ post) p = Some n"
  by (simp add: line_number_def load_append load_Cons)

lemma line_number_end [c_mem]:
  "p = length pre \<Longrightarrow> line_number (pre @ 0 # 0 # 0 # post) p = Some 0"
  by (simp add: line_number_def load_append load_Cons u16_of_def)

lemma line_length_at [c_mem]:
  "p = length pre \<Longrightarrow>
   line_length (pre @ line_bytes (n, s) @ post) p = Some (of_nat (length s + 1))"
  by (simp add: line_length_def load_append load_Cons)

lemma line_length_end [c_mem]:
  "p = length pre \<Longrightarrow> line_length (pre @ 0 # 0 # 0 # post) p = Some 0"
  by (simp add: line_length_def load_append load_Cons)

lemma unat_length_byte [c_word]:
  assumes "length s < 255"
  shows "unat (1 + of_nat (length s) :: byte) = Suc (length s)"
proof -
  have "unat (of_nat (Suc (length s)) :: byte) = Suc (length s)"
    using assms by (simp only: unat_of_nat_8) simp
  then show ?thesis by simp
qed

lemma length_byte_nonzero: "length s < 255 \<Longrightarrow> (1 + of_nat (length s) :: byte) \<noteq> 0"
  using unat_length_byte [of s] by fastforce

lemma line_is_end_at [c_mem]:
  "p = length pre \<Longrightarrow> length s < 255 \<Longrightarrow>
   line_is_end (pre @ line_bytes (n, s) @ post) p = Some False"
  by (simp add: line_is_end_def line_number_at line_length_at length_byte_nonzero
      del: line_bytes.simps)

lemma line_is_end_end [c_mem]:
  "p = length pre \<Longrightarrow> line_is_end (pre @ 0 # 0 # 0 # post) p = Some True"
  by (simp add: line_is_end_def c_mem)

lemma line_next_at [c_mem]:
  "p = length pre \<Longrightarrow> length s < 255 \<Longrightarrow>
   line_next (pre @ line_bytes (n, s) @ post) p = Some (p + length s + 4)"
  by (simp add: line_next_def line_length_at unat_length_byte
      del: line_bytes.simps)

lemma line_next_end [c_mem]:
  "p = length pre \<Longrightarrow> line_next (pre @ 0 # 0 # 0 # post) p = Some (p + 3)"
  by (simp add: line_next_def c_mem)

lemma image_bytes_Nil [simp]: "image_bytes [] = [0, 0, 0]"
  by (simp add: image_bytes_def)

lemma image_bytes_Cons [simp]: "image_bytes (l # ls) = line_bytes l @ image_bytes ls"
  by (simp add: image_bytes_def)

lemma image_bytes_append: "image_bytes (xs @ ys) = concat (map line_bytes xs) @ image_bytes ys"
  by (simp add: image_bytes_def)

declare line_bytes.simps [simp del]

lemma first_number_at:
  "p = length pre \<Longrightarrow> line_number (pre @ image_bytes ls @ post) p = Some (first_number ls)"
  by (cases ls) (auto simp: line_number_end line_number_at)

lemma is_end_image_at:
  assumes "list_all wf_line ls" and "p = length pre"
  shows "line_is_end (pre @ image_bytes ls @ post) p = Some (ls = [])"
  using assms by (cases ls) (auto simp: line_is_end_end line_is_end_at)

lemma find_end_at:
  assumes "list_all wf_line ls" and "p = length pre"
  shows "find_end (pre @ image_bytes ls @ post) p = Some (p + length (image_bytes ls) - 3)"
  using assms
proof (induction ls arbitrary: pre p)
  case Nil
  then show ?case by (subst find_end.simps) (simp add: c_mem)
next
  case (Cons l ls)
  obtain n s where l: "l = (n, s)" by (cases l)
  have "find_end ((pre @ line_bytes l) @ image_bytes ls @ post) (p + length s + 4)
      = Some (p + length s + 4 + length (image_bytes ls) - 3)"
    by (rule Cons.IH) (use Cons.prems l in auto)
  then show ?case
    using Cons.prems l by (subst find_end.simps) (simp add: c_mem image_bytes_def)
qed

lemma line_next_end_at:
  assumes "list_all wf_line ls" and "p = length pre"
  shows "line_next (pre @ image_bytes ls @ post) (p + length (image_bytes ls) - 3)
    = Some (p + length (image_bytes ls))"
proof -
  have "line_next ((pre @ concat (map line_bytes ls)) @ 0 # 0 # 0 # post)
      (p + length (image_bytes ls) - 3) = Some (p + length (image_bytes ls))"
    by (subst line_next_end) (use assms in \<open>auto simp: image_bytes_def\<close>)
  then show ?thesis by (simp add: image_bytes_def)
qed

subsection \<open>Writing records\<close>

lemma write_record:
  assumes "length old = length s + 4" and "p = length pre"
  shows "do { m \<leftarrow> set_line_number (pre @ old @ post) p n;
              m \<leftarrow> set_line_length m p (of_nat (length s + 1));
              strcpy m (line_contents p) s }
    = Some (pre @ line_bytes (n, s) @ post)"
proof -
  obtain a b c old' where old: "old = a # b # c # old'" and len: "length old' = length (s @ [0])"
    using assms(1) by (auto simp: numeral_eq_Suc length_Suc_conv)
  have "set_line_number (pre @ old @ post) p n
      = Some (pre @ [u16_lo n, u16_hi n] @ c # old' @ post)"
    unfolding set_line_number_def old
    by (rule blit_split [where old = "[a, b]"]) (use assms in auto)
  moreover have "set_line_length (pre @ [u16_lo n, u16_hi n] @ c # old' @ post) p k
      = Some ((pre @ [u16_lo n, u16_hi n]) @ [k] @ old' @ post)" for k
    unfolding set_line_length_def
    by (rule blit_split [where old = "[c]"]) (use assms in auto)
  moreover have "strcpy ((pre @ [u16_lo n, u16_hi n]) @ [k] @ old' @ post) (line_contents p) s
      = Some ((pre @ [u16_lo n, u16_hi n, k]) @ (s @ [0]) @ post)" for k
    unfolding strcpy_def line_contents_def
    by (rule blit_split [where old = old']) (use assms len in auto)
  ultimately show ?thesis by (simp add: line_bytes.simps)
qed

lemma insert_at_image:
  assumes ls: "list_all wf_line ls" and p: "p = length pre"
    and fits: "length s + 4 \<le> length post"
  shows "insert_at (pre @ image_bytes ls @ post) p n s
    = Some (pre @ image_bytes ((n, s) # ls) @ drop (length s + 4) post)"
proof -
  let ?m = "pre @ image_bytes ls @ post" and ?d = "length s + 4"
  let ?old = "take ?d (image_bytes ls @ post)"
  have move: "memmove ?m (p + (3 + length s + 1)) p (length (image_bytes ls))
      = Some (pre @ ?old @ image_bytes ls @ drop ?d post)"
    by (subst memmove_split [where pre = pre and src = "image_bytes ls" and post = post])
      (use p fits in \<open>auto simp: add.commute\<close>)
  have "length ?old = length s + 4"
    using fits by simp
  from write_record [OF this p] show ?thesis
    unfolding insert_at_def Let_def
    using find_end_at [OF ls p] line_next_end_at [OF ls p] move
    by simp
qed

lemma append_at_image:
  assumes p: "p = length pre" and s: "length s < 255"
    and fits: "length s + 4 \<le> length post"
  shows "append_at (pre @ image_bytes [] @ post) p n s
    = Some (pre @ image_bytes [(n, s)] @ drop (length s + 4) post)"
proof -
  obtain post1 a b c post2 where post: "post = post1 @ a # b # c # post2"
    and post1: "length post1 = length s + 1"
  proof
    show "post = take (length s + 1) post @ post ! (length s + 1) # post ! (length s + 2)
        # post ! (length s + 3) # drop (length s + 4) post"
      using fits by (simp add: Cons_nth_drop_Suc numeral_eq_Suc)
    show "length (take (length s + 1) post) = length s + 1" using fits by simp
  qed
  let ?q = "pre @ line_bytes (n, s)"
  have "do { m \<leftarrow> set_line_number (pre @ image_bytes [] @ post) p n;
             m \<leftarrow> set_line_length m p (of_nat (length s + 1));
             strcpy m (line_contents p) s }
      = Some (?q @ a # b # c # post2)"
    using write_record [of "[0, 0, 0] @ post1" s p pre "a # b # c # post2" n] p post post1
    by simp
  moreover have "set_line_number (?q @ a # b # c # post2) (p + length s + 4) 0
      = Some (?q @ 0 # 0 # c # post2)"
    unfolding set_line_number_def
    by (subst blit_split [where pre = ?q and old = "[a, b]" and post = "c # post2"])
      (use p in \<open>auto simp: u16_lo_def u16_hi_def\<close>)
  moreover have "set_line_length (?q @ 0 # 0 # c # post2) (p + length s + 4) 0
      = Some (?q @ 0 # 0 # 0 # post2)"
    unfolding set_line_length_def
    by (subst blit_split [where pre = "?q @ [0, 0]" and old = "[c]" and post = post2])
      (use p in auto)
  moreover have "line_next (?q @ a # b # c # post2) p = Some (p + length s + 4)"
    using line_next_at [OF p s] by simp
  ultimately show ?thesis
    using post post1 unfolding append_at_def
    by (auto simp: bind_eq_Some_conv)
qed

lemma replace_at_image:
  assumes ls: "list_all wf_line ls" and p: "p = length pre" and t: "wf_line (n, t)"
    and fits: "length s \<le> length t + length post"
  shows "\<exists>post'. replace_at (pre @ image_bytes ((n, t) # ls) @ post) p (p + length t + 4) s
    = Some (pre @ image_bytes ((n, s) # ls) @ post')
      \<and> length t + length post = length s + length post'"
proof -
  let ?m = "pre @ image_bytes ((n, t) # ls) @ post"
  let ?L = "length (image_bytes ls)" and ?d = "p + length s + 4"
  have len: "strlen ?m (line_contents p) = Some (length t)"
    using strlen_split [of t "line_contents p" "pre @ [u16_lo n, u16_hi n, 1 + of_nat (length t)]"]
      p t by (simp add: line_bytes.simps line_contents_def)
  have find: "find_end ?m p = Some (p + length (image_bytes ((n, t) # ls)) - 3)"
    by (rule find_end_at) (use p ls t in auto)
  have nxt: "line_next ?m (p + length (image_bytes ((n, t) # ls)) - 3)
      = Some (p + length (image_bytes ((n, t) # ls)))"
    by (rule line_next_end_at) (use p ls t in auto)
  define post' where "post' = drop (?d + ?L) ?m"
  have move: "memmove ?m ?d (p + length t + 4) ?L = Some (take ?d ?m @ image_bytes ls @ post')"
    unfolding post'_def
    by (rule memmove_split [where pre = "pre @ line_bytes (n, t)" and post = post])
      (use p fits in auto)
  obtain old where tk: "take ?d ?m = (pre @ [u16_lo n, u16_hi n]) @ old" and
    old: "length old = length s + 2"
  proof
    show "take ?d ?m = (pre @ [u16_lo n, u16_hi n]) @ drop (p + 2) (take ?d ?m)"
      using p by (simp add: line_bytes.simps take_Cons' drop_Cons')
    show "length (drop (p + 2) (take ?d ?m)) = length s + 2"
      using p fits by (simp add: image_bytes_def)
  qed
  obtain c old' where old': "old = c # old'" and len': "length old' = length (s @ [0])"
    using old by (cases old) auto
  have "set_line_length (take ?d ?m @ image_bytes ls @ post') p k
      = Some ((pre @ [u16_lo n, u16_hi n]) @ [k] @ old' @ image_bytes ls @ post')" for k
    unfolding set_line_length_def tk old'
    by (rule blit_split [where old = "[c]"]) (use p in auto)
  moreover have "strcpy ((pre @ [u16_lo n, u16_hi n]) @ [k] @ old' @ image_bytes ls @ post')
        (line_contents p) s
      = Some ((pre @ [u16_lo n, u16_hi n, k]) @ (s @ [0]) @ image_bytes ls @ post')" for k
    unfolding strcpy_def line_contents_def
    by (rule blit_split [where old = old']) (use p len' in auto)
  moreover have dst: "nat (int p + (int (length s) + 4)) = p + (length s + 4)"
    by simp
  ultimately have "replace_at ?m p (p + length t + 4) s
      = Some (pre @ image_bytes ((n, s) # ls) @ post')"
    unfolding replace_at_def Let_def
    using find nxt len move dst by (simp add: line_bytes.simps algebra_simps)
  moreover have "length t + length post = length s + length post'"
    using fits p unfolding post'_def by simp
  ultimately show ?thesis by blast
qed

subsection \<open>Storing a line\<close>

lemma store_loop_image:
  assumes "wf_program ls" and "p = length pre" and "length s < 255"
    and "length (image_bytes (put_line n s ls)) \<le> length (image_bytes ls @ post)"
  shows "\<exists>post'. store_loop (pre @ image_bytes ls @ post) p n s
    = Some (pre @ image_bytes (put_line n s ls) @ post')
      \<and> length (image_bytes ls @ post) = length (image_bytes (put_line n s ls) @ post')"
  using assms
proof (induction ls arbitrary: pre p)
  case Nil
  have "append_at (pre @ image_bytes [] @ post) p n s
      = Some (pre @ image_bytes [(n, s)] @ drop (length s + 4) post)"
    by (rule append_at_image) (use Nil.prems in auto)
  with Nil.prems show ?case
    by (intro exI [of _ "drop (length s + 4) post"])
      (subst store_loop.simps, simp add: line_is_end_end)
next
  case (Cons l ls)
  obtain k t where l: "l = (k, t)" by (cases l)
  have wf: "wf_program ls" "wf_line (k, t)" "list_all wf_line ls" "\<forall>x\<in>set ls. k < fst x"
    and t: "length t < 255"
    using Cons.prems(1) l by (auto simp: wf_program_def)
  let ?m = "pre @ image_bytes (l # ls) @ post" and ?next = "p + length t + 4"
  have here: "line_is_end ?m p = Some False" "line_next ?m p = Some ?next"
    "line_number ?m p = Some k"
    using Cons.prems(2) t l by (simp_all add: c_mem)
  have m_next: "?m = (pre @ line_bytes l) @ image_bytes ls @ post" by simp
  have next_pos: "?next = length (pre @ line_bytes l)"
    using Cons.prems(2) l by simp
  consider (before) "n < k" | (same) "n = k" | (after) "k < n" by fastforce
  then show ?case
  proof cases
    case before
    have "insert_at ?m p n s
        = Some (pre @ image_bytes ((n, s) # l # ls) @ drop (length s + 4) post)"
      by (rule insert_at_image) (use Cons.prems before l wf in auto)
    with before here l Cons.prems show ?thesis
      by (intro exI [of _ "drop (length s + 4) post"])
        (subst store_loop.simps, auto simp: not_less_iff_gr_or_eq)
  next
    case same
    then have "\<exists>post'. replace_at ?m p ?next s = Some (pre @ image_bytes ((n, s) # ls) @ post')
        \<and> length t + length post = length s + length post'"
      unfolding l same by (intro replace_at_image) (use Cons.prems l wf same in auto)
    with same here l show ?thesis
      by (subst store_loop.simps) auto
  next
    case after
    have nn: "line_number ?m ?next = Some (first_number ls)"
      unfolding m_next using next_pos by (rule first_number_at)
    show ?thesis
    proof (cases "n < first_number ls")
      case True
      then have put: "put_line n s (l # ls) = l # (n, s) # ls"
        using after l by (cases ls) auto
      have "insert_at ((pre @ line_bytes l) @ image_bytes ls @ post) ?next n s
          = Some ((pre @ line_bytes l) @ image_bytes ((n, s) # ls) @ drop (length s + 4) post)"
        by (rule insert_at_image) (use next_pos wf Cons.prems put in auto)
      with True after here nn put Cons.prems show ?thesis
        by (intro exI [of _ "drop (length s + 4) post"]) (subst store_loop.simps, auto)
    next
      case False
      have put: "put_line n s (l # ls) = l # put_line n s ls"
        using after l by auto
      obtain post' where
        "store_loop ((pre @ line_bytes l) @ image_bytes ls @ post) ?next n s
          = Some ((pre @ line_bytes l) @ image_bytes (put_line n s ls) @ post')"
        "length (image_bytes ls @ post) = length (image_bytes (put_line n s ls) @ post')"
        using Cons.IH [OF wf(1) next_pos Cons.prems(3)] Cons.prems(4) unfolding put by auto
      with False after here nn put show ?thesis
        by (intro exI [of _ post']) (subst store_loop.simps, auto)
    qed
  qed
qed

lemma set_put_line: "set (map fst (put_line n s ls)) = insert n (set (map fst ls))"
  by (induction n s ls rule: put_line.induct) auto

lemma wf_put_line:
  assumes "wf_program ls" and "wf_line (n, s)"
  shows "wf_program (put_line n s ls)"
  using assms
proof (induction n s ls rule: put_line.induct)
  case (1 n s)
  then show ?case by (simp add: wf_program_def)
next
  case (2 n s k t ls)
  have "fst x \<noteq> n \<Longrightarrow> x \<in> set (put_line n s ls) \<Longrightarrow> k < fst x" for x
    using 2(2) set_put_line [of n s ls] by (fastforce simp: wf_program_def)
  then show ?case
    using 2 by (fastforce simp: wf_program_def set_put_line [simplified])
qed

lemma map_of_put_line: "map_of (put_line n s ls) k = (if k = n then Some s else map_of ls k)"
  by (induction n s ls rule: put_line.induct) auto

subsection \<open>Searching\<close>

abbreviation lines_bytes :: "program \<Rightarrow> byte list" where
  "lines_bytes ls \<equiv> concat (map line_bytes ls)"

lemma find_line_at:
  assumes "list_all wf_line ls" and "p = length pre"
  shows "find_line (pre @ image_bytes ls @ post) p n
    = Some (p + length (lines_bytes (takeWhile (\<lambda>l. fst l \<noteq> n) ls)))"
  using assms
proof (induction ls arbitrary: pre p)
  case Nil
  then show ?case by (subst find_line.simps) (simp add: c_mem)
next
  case (Cons l ls)
  obtain k t where l: "l = (k, t)" by (cases l)
  have "find_line ((pre @ line_bytes l) @ image_bytes ls @ post) (p + length t + 4) n
      = Some (p + length t + 4 + length (lines_bytes (takeWhile (\<lambda>l. fst l \<noteq> n) ls)))"
    by (rule Cons.IH) (use Cons.prems l in auto)
  then show ?case
    using Cons.prems l by (subst find_line.simps) (simp add: c_mem)
qed

lemma next_loop_at:
  assumes "list_all wf_line ls" and "p = length pre"
  shows "next_loop (pre @ image_bytes ls @ post) p n
    = Some (p + length (lines_bytes (takeWhile (\<lambda>l. fst l \<le> n) ls)))"
  using assms
proof (induction ls arbitrary: pre p)
  case Nil
  then show ?case by (subst next_loop.simps) (simp add: c_mem)
next
  case (Cons l ls)
  obtain k t where l: "l = (k, t)" by (cases l)
  have "next_loop ((pre @ line_bytes l) @ image_bytes ls @ post) (p + length t + 4) n
      = Some (p + length t + 4 + length (lines_bytes (takeWhile (\<lambda>l. fst l \<le> n) ls)))"
    by (rule Cons.IH) (use Cons.prems l in auto)
  then show ?case
    using Cons.prems l by (subst next_loop.simps) (simp add: c_mem)
qed

lemma contents_at:
  assumes "wf_line (k, t)" and "p = length pre"
  shows "cstring_at (pre @ line_bytes (k, t) @ post) (line_contents p) = Some t"
  using cstring_at_split [of t "line_contents p" "pre @ [u16_lo k, u16_hi k, 1 + of_nat (length t)]"]
    assms by (simp add: line_bytes.simps line_contents_def)

lemma list_loop_at:
  assumes "list_all wf_line ls" and "p = length pre"
  shows "list_loop (pre @ image_bytes ls @ post) p start end
    = Some (filter (\<lambda>l. in_range (fst l) start end) ls)"
  using assms
proof (induction ls arbitrary: pre p)
  case Nil
  then show ?case by (subst list_loop.simps) (simp add: c_mem)
next
  case (Cons l ls)
  obtain k t where l: "l = (k, t)" by (cases l)
  have "list_loop ((pre @ line_bytes l) @ image_bytes ls @ post) (p + length t + 4) start end
      = Some (filter (\<lambda>l. in_range (fst l) start end) ls)"
    by (rule Cons.IH) (use Cons.prems l in auto)
  moreover have "cstring_at (pre @ line_bytes (k, t) @ image_bytes ls @ post) (line_contents p)
      = Some t"
    by (rule contents_at) (use Cons.prems l in auto)
  ultimately show ?case
    using Cons.prems l by (subst list_loop.simps) (simp add: c_mem)
qed

lemma holds_program_iff:
  "holds_program st ls \<longleftrightarrow> wf_program ls \<and> (\<exists>post. lines_memory st = image_bytes ls @ post)"
  unfolding holds_program_def
  by (metis append_eq_conv_conj)

lemma holds_programE:
  assumes "holds_program st ls"
  obtains post where "wf_program ls" "list_all wf_line ls" "lines_memory st = image_bytes ls @ post"
  using assms by (auto simp: holds_program_iff wf_program_def)

lemma image_split:
  "image_bytes ls = lines_bytes (takeWhile P ls) @ image_bytes (dropWhile P ls)"
  by (metis image_bytes_append takeWhile_dropWhile_id)

lemma first_number_dropWhile_le:
  "first_number (dropWhile (\<lambda>l. fst l \<le> n) ls) = n \<Longrightarrow> n = 0"
  by (induction ls) (auto split: if_splits)

subsection \<open>The operations on a block that holds a program\<close>

lemma lines_init_holds:
  assumes "3 \<le> length memory"
  shows "\<exists>st. lines_init memory sz = Some st \<and> holds_program st []
    \<and> length (lines_memory st) = length memory"
proof -
  obtain a b c post where m: "memory = a # b # c # post"
    using assms by (auto simp: numeral_eq_Suc Suc_le_length_iff)
  show ?thesis
    by (auto simp: m lines_init_def set_line_number_def set_line_length_def blit_def
        u16_lo_def u16_hi_def holds_program_def wf_program_def)
qed

lemma lines_store_holds:
  assumes "holds_program st ls" and "wf_line (n, s)"
    and "length (image_bytes (put_line n s ls)) \<le> length (lines_memory st)"
  shows "\<exists>st'. lines_store st n s = Some (True, st') \<and> holds_program st' (put_line n s ls)
    \<and> length (lines_memory st') = length (lines_memory st)"
proof -
  obtain post where wf: "wf_program ls" and m: "lines_memory st = image_bytes ls @ post"
    using assms(1) by (rule holds_programE)
  obtain post' where "store_loop (lines_memory st) 0 n s
      = Some (image_bytes (put_line n s ls) @ post')"
    and "length (lines_memory st) = length (image_bytes (put_line n s ls) @ post')"
    using store_loop_image [OF wf, of 0 "[]" s n post] assms(2,3) m by auto
  then show ?thesis
    using wf_put_line [OF wf assms(2)]
    by (auto simp: lines_store_def holds_program_iff)
qed

lemma lines_memory_used_holds:
  assumes "holds_program st ls"
  shows "lines_memory_used st = Some (length (image_bytes ls))"
proof -
  obtain post where wf: "list_all wf_line ls" and m: "lines_memory st = [] @ image_bytes ls @ post"
    using assms by (rule holds_programE) simp
  show ?thesis
    unfolding lines_memory_used_def m
    using find_end_at [OF wf, of 0 "[]" post] line_next_end_at [OF wf, of 0 "[]" post] by simp
qed

lemma lines_list_holds:
  assumes "holds_program st ls"
  shows "lines_list st start end = Some (filter (\<lambda>l. in_range (fst l) start end) ls)"
proof -
  obtain post where wf: "list_all wf_line ls" and m: "lines_memory st = [] @ image_bytes ls @ post"
    using assms by (rule holds_programE) simp
  show ?thesis
    unfolding lines_list_def m by (rule list_loop_at) (use wf in auto)
qed

lemma lines_clear_holds:
  assumes "holds_program st ls"
  shows "\<exists>st'. lines_clear st = Some st' \<and> holds_program st' []
    \<and> length (lines_memory st') = length (lines_memory st)"
proof -
  obtain post where wf: "list_all wf_line ls" and m: "lines_memory st = [] @ image_bytes ls @ post"
    using assms by (rule holds_programE) simp
  let ?L = "length (image_bytes ls)"
  have L: "replicate ?L (0 :: byte) = 0 # 0 # 0 # replicate (?L - 3) 0"
    by (simp add: image_bytes_def numeral_eq_Suc)
  have "memset (lines_memory st) 0 0 ?L = Some (replicate ?L 0 @ post)"
    using blit_split [of "lines_memory st" "[]" "image_bytes ls" post 0 "replicate ?L 0"] m
    by (simp add: memset_def)
  then have "memset (lines_memory st) 0 0 ?L = Some (0 # 0 # 0 # replicate (?L - 3) 0 @ post)"
    unfolding L by simp
  then show ?thesis
    unfolding lines_clear_def Let_def
    using find_end_at [OF wf, of 0 "[]" post] line_next_end_at [OF wf, of 0 "[]" post] m
    by (auto simp: set_line_number_def set_line_length_def blit_def u16_lo_def u16_hi_def
        holds_program_def wf_program_def image_bytes_def)
qed

lemma find_line_holds:
  fixes n :: u16
  assumes "holds_program st ls"
  defines "l \<equiv> length (lines_bytes (takeWhile (\<lambda>l. fst l \<noteq> n) ls))"
  shows "find_line (lines_memory st) 0 n = Some l"
    and "line_is_end (lines_memory st) l = Some (n \<notin> fst ` set ls)"
proof -
  obtain post where wf: "list_all wf_line ls" and m: "lines_memory st = [] @ image_bytes ls @ post"
    using assms(1) by (rule holds_programE) simp
  show "find_line (lines_memory st) 0 n = Some l"
    unfolding m l_def by (subst find_line_at) (use wf in auto)
  let ?ys = "dropWhile (\<lambda>l. fst l \<noteq> n) ls"
  have mem: "lines_memory st = lines_bytes (takeWhile (\<lambda>l. fst l \<noteq> n) ls) @ image_bytes ?ys @ post"
    by (simp add: m image_split [of ls "\<lambda>l. fst l \<noteq> n"])
  have "list_all wf_line ?ys"
    using wf by (auto simp: list_all_iff dest: set_dropWhileD)
  then have "line_is_end (lines_memory st) l = Some (?ys = [])"
    unfolding mem l_def by (rule is_end_image_at) simp
  also have "(?ys = []) = (n \<notin> fst ` set ls)"
    by (auto simp: image_iff)
  finally show "line_is_end (lines_memory st) l = Some (n \<notin> fst ` set ls)" .
qed

lemma split_program:
  assumes "wf_program ls" and "n \<in> fst ` set ls"
  obtains xs t ys where "ls = xs @ (n, t) # ys" and "takeWhile (\<lambda>l. fst l \<noteq> n) ls = xs"
    and "del_line n ls = xs @ ys" and "wf_line (n, t)" and "list_all wf_line ys"
    and "wf_program (xs @ ys)"
proof -
  from assms(2) have "\<exists>l\<in>set ls. fst l = n" by auto
  then obtain xs l ys where "ls = xs @ l # ys" "fst l = n" "\<forall>x\<in>set xs. fst x \<noteq> n"
    by (rule split_list_first_propE)
  then obtain t where ls: "ls = xs @ (n, t) # ys" and "n \<notin> fst ` set xs"
    by (cases l) auto
  moreover from this assms(1) have "n \<notin> fst ` set ys"
    by (auto simp: wf_program_def sorted_wrt_append)
  ultimately have "\<forall>l\<in>set xs. fst l \<noteq> n" "\<forall>l\<in>set ys. fst l \<noteq> n" by force+
  with ls have "takeWhile (\<lambda>l. fst l \<noteq> n) ls = xs" "del_line n ls = xs @ ys"
    by (simp_all add: del_line_def)
  with ls assms(1) show thesis
    by (intro that [of xs t ys]) (auto simp: wf_program_def sorted_wrt_append)
qed

lemma delete_last_bytes:
  assumes "wf_line (n, t)"
  shows "\<exists>post'. do {
      len \<leftarrow> strlen (pre @ image_bytes [(n, t)] @ post) (line_contents (length pre));
      m \<leftarrow> memset (pre @ image_bytes [(n, t)] @ post) (length pre) 0 (3 + len + 1);
      m \<leftarrow> set_line_number m (length pre) 0;
      m \<leftarrow> set_line_length m (length pre) 0;
      strcpy m (line_contents (length pre)) [] } = Some (pre @ image_bytes [] @ post')
    \<and> length post' = length t + 4 + length post"
proof -
  have "strlen (pre @ image_bytes [(n, t)] @ post) (line_contents (length pre)) = Some (length t)"
    using strlen_split [of t "line_contents (length pre)"
        "pre @ [u16_lo n, u16_hi n, 1 + of_nat (length t)]"] assms
    by (simp add: line_bytes.simps line_contents_def)
  moreover have "memset (pre @ image_bytes [(n, t)] @ post) (length pre) 0 (3 + length t + 1)
      = Some (pre @ (0 # 0 # 0 # 0 # replicate (length t) 0) @ 0 # 0 # 0 # post)"
    unfolding memset_def by (subst blit_split [where old = "line_bytes (n, t)"]) (auto simp: numeral_eq_Suc)
  ultimately show ?thesis
    by (simp add: set_line_number_def set_line_length_def strcpy_def line_contents_def blit_def
        u16_lo_def u16_hi_def)
qed

lemma delete_inner_bytes:
  fixes pre :: "byte list"
  assumes "length old = d"
  shows "do { m \<leftarrow> memmove (pre @ old @ img @ post) (length pre) (length pre + d) (length img);
              memset m (length pre + length img) 0 d }
    = Some (pre @ img @ replicate d 0 @ post)"
proof -
  have move: "memmove (pre @ old @ img @ post) (length pre) (length pre + d) (length img)
      = Some (pre @ img @ drop (length img) (old @ img @ post))"
    by (subst memmove_split [where pre = "pre @ old" and src = img and post = post])
      (use assms in auto)
  have "memset (pre @ img @ drop (length img) (old @ img @ post)) (length pre + length img) 0 d
      = Some ((pre @ img) @ replicate d 0 @ post)"
    unfolding memset_def
    by (rule blit_split [where old = "drop (length img) (old @ img)"]) (use assms in auto)
  with move show ?thesis by simp
qed

lemma lines_delete_holds:
  assumes "holds_program st ls"
  shows "\<exists>st'. lines_delete st n = Some (n \<in> fst ` set ls, st')
    \<and> holds_program st' (del_line n ls)
    \<and> length (lines_memory st') = length (lines_memory st)"
proof (cases "n \<in> fst ` set ls")
  case False
  then have "del_line n ls = ls"
    unfolding del_line_def by (force simp: filter_id_conv)
  then show ?thesis
    using False find_line_holds [OF assms, of n] assms
    by (simp add: lines_delete_def Let_def)
next
  case True
  obtain post where wf: "wf_program ls" and m0: "lines_memory st = image_bytes ls @ post"
    using assms by (rule holds_programE)
  obtain xs t ys where ls: "ls = xs @ (n, t) # ys" "takeWhile (\<lambda>l. fst l \<noteq> n) ls = xs"
    "del_line n ls = xs @ ys" and wfs: "wf_line (n, t)" "list_all wf_line ys" "wf_program (xs @ ys)"
    using split_program [OF wf True] .
  define pre where "pre = lines_bytes xs"
  let ?m = "lines_memory st"
  have m: "?m = pre @ image_bytes ((n, t) # ys) @ post"
    "?m = (pre @ line_bytes (n, t)) @ image_bytes ys @ post"
    by (simp_all add: m0 ls(1) image_bytes_append pre_def)
  have found: "find_line ?m 0 n = Some (length pre)" "line_is_end ?m (length pre) = Some False"
    using find_line_holds [OF assms, of n] True ls(2) by (auto simp: pre_def)
  have nxt: "line_next ?m (length pre) = Some (length (pre @ line_bytes (n, t)))"
    unfolding m(1) using wfs(1) by (simp add: line_next_at)
  show ?thesis
  proof (cases ys)
    case Nil
    have last: "line_is_end ?m (length (pre @ line_bytes (n, t))) = Some True"
      unfolding m(2) by (subst is_end_image_at) (use wfs(2) Nil in auto)
    from delete_last_bytes [OF wfs(1), of pre post] obtain post' where "do {
        len \<leftarrow> strlen ?m (line_contents (length pre));
        m \<leftarrow> memset ?m (length pre) 0 (3 + len + 1);
        m \<leftarrow> set_line_number m (length pre) 0;
        m \<leftarrow> set_line_length m (length pre) 0;
        strcpy m (line_contents (length pre)) [] } = Some (pre @ image_bytes [] @ post')"
      and "length post' = length t + 4 + length post"
      unfolding m(1) Nil by blast
    with found nxt last True Nil ls(3) wfs(3) m0 ls(1) show ?thesis
      by (intro exI [of _ "st\<lparr>lines_memory := pre @ image_bytes [] @ post'\<rparr>"])
        (auto simp: lines_delete_def Let_def holds_program_iff image_bytes_append pre_def
          image_bytes_def bind_eq_Some_conv)
  next
    case (Cons y ys')
    have last: "line_is_end ?m (length (pre @ line_bytes (n, t))) = Some False"
      unfolding m(2) by (subst is_end_image_at) (use wfs(2) Cons in auto)
    have ends: "find_end ?m (length (pre @ line_bytes (n, t)))
        = Some (length (pre @ line_bytes (n, t)) + length (image_bytes ys) - 3)"
      "line_next ?m (length (pre @ line_bytes (n, t)) + length (image_bytes ys) - 3)
        = Some (length (pre @ line_bytes (n, t)) + length (image_bytes ys))"
      unfolding m(2)
      by (rule find_end_at [OF wfs(2) refl], rule line_next_end_at [OF wfs(2) refl])
    have "do { m \<leftarrow> memmove ?m (length pre) (length pre + (length t + 4)) (length (image_bytes ys));
               memset m (length pre + length (image_bytes ys)) 0 (length t + 4) }
        = Some (pre @ image_bytes ys @ replicate (length t + 4) 0 @ post)"
      using delete_inner_bytes [of "line_bytes (n, t)" "length t + 4" pre "image_bytes ys" post] m(2)
      by simp
    with found nxt last ends True ls(3) wfs(3) m0 ls(1) show ?thesis
      by (intro exI [of _ "st\<lparr>lines_memory := pre @ image_bytes ys @ replicate (length t + 4) 0 @ post\<rparr>"])
        (auto simp: lines_delete_def Let_def holds_program_iff image_bytes_append pre_def
          bind_eq_Some_conv algebra_simps)
  qed
qed

text \<open>The text a result of \<open>lines_get_contents\<close> points to; \<open>Some None\<close> is the null pointer.\<close>

definition contents_text :: "lines_state \<Rightarrow> u16 \<Rightarrow> cstring option option" where
  "contents_text st n = do {
     p \<leftarrow> lines_get_contents st n;
     case p of None \<Rightarrow> Some None
     | Some q \<Rightarrow> map_option Some (cstring_at (lines_memory st) q) }"

lemma contents_text_holds:
  assumes "holds_program st ls"
  shows "contents_text st n = Some (map_of ls n)"
proof (cases "n \<in> fst ` set ls")
  case False
  then show ?thesis
    using find_line_holds [OF assms, of n] map_of_eq_None_iff [of ls n]
    by (simp add: contents_text_def lines_get_contents_def Let_def)
next
  case True
  obtain post where wf: "wf_program ls" and m0: "lines_memory st = image_bytes ls @ post"
    using assms by (rule holds_programE)
  obtain xs t ys where ls: "ls = xs @ (n, t) # ys" "takeWhile (\<lambda>l. fst l \<noteq> n) ls = xs"
    and wfs: "wf_line (n, t)" "list_all wf_line ys" "wf_program (xs @ ys)"
    using split_program [OF wf True] by blast
  have "cstring_at (lines_bytes xs @ line_bytes (n, t) @ image_bytes ys @ post)
      (line_contents (length (lines_bytes xs))) = Some t"
    using wfs(1) by (rule contents_at) simp
  moreover have "map_of ls n = Some t"
    using wf unfolding ls(1)
    by (auto simp: wf_program_def map_add_def sorted_wrt_append split: option.splits
        dest!: map_of_SomeD)
  ultimately show ?thesis
    using find_line_holds [OF assms, of n] ls(2) True m0
    by (simp add: contents_text_def lines_get_contents_def Let_def ls(1) image_bytes_append)
qed

lemma lines_first_holds:
  assumes "holds_program st ls"
  shows "lines_first st = Some (first_number ls)"
proof -
  obtain post where "lines_memory st = [] @ image_bytes ls @ post"
    using assms by (rule holds_programE) simp
  then show ?thesis
    unfolding lines_first_def by (simp only:) (rule first_number_at, simp)
qed

lemma lines_next_holds:
  assumes "holds_program st ls"
  shows "lines_next st n = Some (first_number (dropWhile (\<lambda>l. fst l \<le> n) ls))"
proof -
  obtain post where wf: "list_all wf_line ls" and m0: "lines_memory st = [] @ image_bytes ls @ post"
    using assms by (rule holds_programE) simp
  let ?xs = "takeWhile (\<lambda>l. fst l \<le> n) ls" and ?ys = "dropWhile (\<lambda>l. fst l \<le> n) ls"
  have "lines_memory st = lines_bytes ?xs @ image_bytes ?ys @ post"
    by (simp add: m0 image_split [of ls "\<lambda>l. fst l \<le> n"])
  then have "line_number (lines_memory st) (length (lines_bytes ?xs)) = Some (first_number ?ys)"
    by (simp only:) (rule first_number_at, simp)
  moreover have "next_loop (lines_memory st) 0 n = Some (length (lines_bytes ?xs))"
    unfolding m0 using next_loop_at [OF wf, of 0 "[]" post n] by simp
  ultimately show ?thesis
    using first_number_dropWhile_le [of n ls]
    by (auto simp: lines_next_def Let_def)
qed

subsection \<open>The interface of the line store\<close>

text \<open>
  What the interpreter relies on: a store of program lines over which it reads the text of a line,
  steps to the next line and enters or deletes lines.  \<open>rep\<close> relates a state to the program it
  holds, \<open>room\<close> says that a program fits.
\<close>

locale program_store =
  fixes rep :: "'s \<Rightarrow> program \<Rightarrow> bool"
    and room :: "'s \<Rightarrow> program \<Rightarrow> bool"
    and store :: "'s \<Rightarrow> u16 \<Rightarrow> cstring \<Rightarrow> (bool \<times> 's) option"
    and delete :: "'s \<Rightarrow> u16 \<Rightarrow> (bool \<times> 's) option"
    and text_of :: "'s \<Rightarrow> u16 \<Rightarrow> cstring option option"
    and first_of :: "'s \<Rightarrow> u16 option"
    and next_of :: "'s \<Rightarrow> u16 \<Rightarrow> u16 option"
  assumes rep_wf: "rep st ls \<Longrightarrow> wf_program ls"
    and store: "rep st ls \<Longrightarrow> wf_line (n, s) \<Longrightarrow> room st (put_line n s ls) \<Longrightarrow>
      \<exists>st'. store st n s = Some (True, st') \<and> rep st' (put_line n s ls)
        \<and> room st' = room st"
    and delete: "rep st ls \<Longrightarrow>
      \<exists>st'. delete st n = Some (n \<in> fst ` set ls, st') \<and> rep st' (del_line n ls)
        \<and> room st' = room st"
    and text_of: "rep st ls \<Longrightarrow> text_of st n = Some (map_of ls n)"
    and first_of: "rep st ls \<Longrightarrow> first_of st = Some (first_number ls)"
    and next_of: "rep st ls \<Longrightarrow>
      next_of st n = Some (first_number (dropWhile (\<lambda>l. fst l \<le> n) ls))"
begin

lemma text_after_store:
  assumes "rep st ls" "wf_line (n, s)" "room st (put_line n s ls)"
  obtains st' where "store st n s = Some (True, st')"
    and "text_of st' k = (if k = n then Some (Some s) else text_of st k)"
proof -
  obtain st' where "store st n s = Some (True, st')" "rep st' (put_line n s ls)"
    using store [OF assms] by blast
  with assms(1) show thesis
    by (intro that [of st']) (auto simp: text_of map_of_put_line)
qed

lemma text_after_delete:
  assumes "rep st ls"
  obtains b st' where "delete st n = Some (b, st')"
    and "text_of st' k = (if k = n then Some None else text_of st k)"
proof -
  obtain st' where "delete st n = Some (n \<in> fst ` set ls, st')" "rep st' (del_line n ls)"
    using delete [OF assms] by blast
  moreover have "map_of (del_line n ls) k = (if k = n then None else map_of ls k)"
    by (induction ls) (auto simp: del_line_def)
  ultimately show thesis
    using assms by (intro that [of "n \<in> fst ` set ls" st']) (auto simp: text_of)
qed

text \<open>Stepping from a line of the program reaches the following line, and zero after the last.\<close>

lemma next_of_mid:
  assumes "rep st (xs @ (n, s) # ys)"
  shows "next_of st n = Some (first_number ys)"
proof -
  have "\<forall>l\<in>set xs. fst l \<le> n" "\<forall>l\<in>set ys. n < fst l"
    using rep_wf [OF assms] by (auto simp: wf_program_def sorted_wrt_append intro: less_imp_le)
  then have "dropWhile (\<lambda>l. fst l \<le> n) (xs @ (n, s) # ys) = ys"
    by (cases ys) auto
  with next_of [OF assms, of n] show ?thesis by simp
qed

end

interpretation ls: program_store holds_program
    "\<lambda>st ls. length (image_bytes ls) \<le> length (lines_memory st)"
    lines_store lines_delete contents_text lines_first lines_next
proof unfold_locales
  fix st ls n s
  assume "holds_program st ls"
  then show "wf_program ls" by (rule holds_programE)
next
  fix st ls n s
  assume "holds_program st ls" "wf_line (n, s)"
    "length (image_bytes (put_line n s ls)) \<le> length (lines_memory st)"
  from lines_store_holds [OF this]
  show "\<exists>st'. lines_store st n s = Some (True, st') \<and> holds_program st' (put_line n s ls)
    \<and> (\<lambda>ls. length (image_bytes ls) \<le> length (lines_memory st'))
      = (\<lambda>ls. length (image_bytes ls) \<le> length (lines_memory st))" by auto
next
  fix st ls n
  assume "holds_program st ls"
  from lines_delete_holds [OF this, of n]
  show "\<exists>st'. lines_delete st n = Some (n \<in> fst ` set ls, st') \<and> holds_program st' (del_line n ls)
    \<and> (\<lambda>ls. length (image_bytes ls) \<le> length (lines_memory st'))
      = (\<lambda>ls. length (image_bytes ls) \<le> length (lines_memory st))" by auto
qed (simp_all add: contents_text_holds lines_first_holds lines_next_holds)

subsection \<open>No capacity check: a program that does not fit is written past the block\<close>

lemma insert_at_overflow:
  assumes "list_all wf_line ls" and "p = length pre" and "length post < length s + 4"
  shows "insert_at (pre @ image_bytes ls @ post) p n s = None"
  using assms find_end_at [OF assms(1,2), of post] line_next_end_at [OF assms(1,2), of post]
  by (simp add: insert_at_def Let_def memmove_def blit_def)

lemma replace_at_overflow:
  assumes "list_all wf_line ls" and "p = length pre" and "wf_line (n, t)"
    and "length t + length post < length s"
  shows "replace_at (pre @ image_bytes ((n, t) # ls) @ post) p (p + length t + 4) s = None"
proof -
  have wf: "list_all wf_line ((n, t) # ls)" using assms by simp
  have "strlen (pre @ image_bytes ((n, t) # ls) @ post) (line_contents p) = Some (length t)"
    using strlen_split [of t "line_contents p" "pre @ [u16_lo n, u16_hi n, 1 + of_nat (length t)]"]
      assms by (simp add: line_bytes.simps line_contents_def)
  moreover have "nat (int (length pre) + (4 + int (length s))) = length pre + 4 + length s"
    by simp
  ultimately show ?thesis
    using assms find_end_at [OF wf assms(2), of post] line_next_end_at [OF wf assms(2), of post]
    by (simp add: replace_at_def Let_def memmove_def blit_def)
qed

lemma append_at_overflow:
  assumes "p = length pre" and "length s < 255" and "length post < length s + 4"
  shows "append_at (pre @ image_bytes [] @ post) p n s = None"
proof (cases "length s + 1 \<le> length post")
  case False
  with assms show ?thesis
    by (simp add: append_at_def set_line_number_def set_line_length_def strcpy_def
        line_contents_def blit_def)
next
  case True
  let ?rest = "drop (length s + 1) post"
  have "do { m \<leftarrow> set_line_number (pre @ image_bytes [] @ post) p n;
             m \<leftarrow> set_line_length m p (of_nat (length s + 1));
             strcpy m (line_contents p) s }
      = Some (pre @ line_bytes (n, s) @ ?rest)"
    using write_record [of "[0, 0, 0] @ take (length s + 1) post" s p pre ?rest n] True assms(1)
    by simp
  moreover have "do { m \<leftarrow> set_line_number (pre @ line_bytes (n, s) @ ?rest) (p + length s + 4) 0;
      set_line_length m (p + length s + 4) 0 } = None"
    using assms True by (auto simp: set_line_number_def set_line_length_def blit_def)
  ultimately show ?thesis
    using line_next_at [OF assms(1,2), of n ?rest] unfolding append_at_def
    by (auto simp: bind_eq_Some_conv bind_eq_None_conv)
qed

lemma store_loop_overflow:
  assumes "wf_program ls" and "p = length pre" and "length s < 255"
    and "length (image_bytes ls @ post) < length (image_bytes (put_line n s ls))"
  shows "store_loop (pre @ image_bytes ls @ post) p n s = None"
  using assms
proof (induction ls arbitrary: pre p)
  case Nil
  then have "append_at (pre @ image_bytes [] @ post) p n s = None"
    by (intro append_at_overflow) auto
  with Nil.prems show ?case
    by (subst store_loop.simps) (simp add: line_is_end_end)
next
  case (Cons l ls)
  obtain k t where l: "l = (k, t)" by (cases l)
  have wf: "wf_program ls" "wf_line (k, t)" "list_all wf_line ls" and t: "length t < 255"
    using Cons.prems(1) l by (auto simp: wf_program_def)
  let ?m = "pre @ image_bytes (l # ls) @ post" and ?next = "p + length t + 4"
  have here: "line_is_end ?m p = Some False" "line_next ?m p = Some ?next"
    "line_number ?m p = Some k"
    using Cons.prems(2) t l by (simp_all add: c_mem)
  have m_next: "?m = (pre @ line_bytes l) @ image_bytes ls @ post" by simp
  have next_pos: "?next = length (pre @ line_bytes l)"
    using Cons.prems(2) l by simp
  have nn: "line_number ?m ?next = Some (first_number ls)"
    unfolding m_next using next_pos by (rule first_number_at)
  consider (before) "n < k" | (same) "n = k" | (mid) "k < n" "n < first_number ls"
    | (after) "k < n" "\<not> n < first_number ls" by fastforce
  then show ?case
  proof cases
    case before
    have "insert_at ?m p n s = None"
      by (rule insert_at_overflow) (use Cons.prems before l wf in auto)
    with before here show ?thesis by (subst store_loop.simps) auto
  next
    case same
    then have "replace_at ?m p ?next s = None"
      unfolding l same by (intro replace_at_overflow) (use Cons.prems l wf same in auto)
    with same here show ?thesis by (subst store_loop.simps) auto
  next
    case mid
    then have "put_line n s (l # ls) = l # (n, s) # ls"
      using l by (cases ls) auto
    with Cons.prems(4) have "insert_at ((pre @ line_bytes l) @ image_bytes ls @ post) ?next n s = None"
      by (intro insert_at_overflow) (use next_pos wf in auto)
    with mid here nn show ?thesis by (subst store_loop.simps) auto
  next
    case after
    then have put: "put_line n s (l # ls) = l # put_line n s ls" using l by auto
    have "store_loop ((pre @ line_bytes l) @ image_bytes ls @ post) ?next n s = None"
      using Cons.IH [OF wf(1) next_pos Cons.prems(3)] Cons.prems(4) unfolding put by auto
    with after here nn show ?thesis by (subst store_loop.simps) auto
  qed
qed

subsection \<open>Saving a program: the client of the store\<close>

text \<open>\<open>save_cb\<close> is the callback \<^verbatim>\<open>_save_cb\<close> of the interpreter: the number and the text of the
  current line and the number left in the context.  \<open>arch_save_loop\<close> is the loop of
  \<^verbatim>\<open>arch_save\<close> that calls it until it delivers the null pointer; the lines written to the file
  are returned, and \<open>None\<close> is running out of fuel or leaving the block.\<close>

definition save_cb :: "lines_state \<Rightarrow> u16 \<Rightarrow> (u16 \<times> cstring option \<times> u16) option" where
  "save_cb st number = do {
     ctx_number \<leftarrow> lines_next st number;
     line \<leftarrow> contents_text st number;
     Some (number, line, ctx_number) }"

fun arch_save_loop :: "nat \<Rightarrow> lines_state \<Rightarrow> u16 \<Rightarrow> (u16 \<times> cstring) list option" where
  "arch_save_loop 0 st ctx_number = None"
| "arch_save_loop (Suc fuel) st ctx_number = do {
     (number, line, ctx_number) \<leftarrow> save_cb st ctx_number;
     case line of
       None \<Rightarrow> Some []
     | Some s \<Rightarrow> do { rest \<leftarrow> arch_save_loop fuel st ctx_number; Some ((number, s) # rest) } }"

definition do_save_lines :: "nat \<Rightarrow> lines_state \<Rightarrow> (u16 \<times> cstring) list option" where
  "do_save_lines fuel st = do { n \<leftarrow> lines_first st; arch_save_loop fuel st n }"

lemma save_cb_mid:
  assumes "holds_program st (xs @ (n, s) # ys)"
  shows "save_cb st n = Some (n, Some s, first_number ys)"
proof -
  have "map_of (xs @ (n, s) # ys) n = Some s"
    using ls.rep_wf [OF assms]
    by (auto simp: wf_program_def map_add_def sorted_wrt_append split: option.splits
        dest!: map_of_SomeD)
  then show ?thesis
    using ls.next_of_mid [OF assms] ls.text_of [OF assms, of n] by (simp add: save_cb_def)
qed

lemma arch_save_loop_suffix:
  assumes "holds_program st (xs @ ys)" and "0 \<notin> fst ` set (xs @ ys)" and "length ys < fuel"
  shows "arch_save_loop fuel st (first_number ys) = Some ys"
  using assms
proof (induction ys arbitrary: xs fuel)
  case Nil
  then obtain f where f: "fuel = Suc f" by (cases fuel) auto
  have "map_of xs 0 = None"
    using Nil.prems(2) by (simp add: map_of_eq_None_iff)
  then show ?case
    using Nil.prems(1) ls.next_of [of st xs 0] ls.text_of [of st xs 0] f by (simp add: save_cb_def)
next
  case (Cons y ys)
  obtain n s where y: "y = (n, s)" by (cases y)
  obtain f where f: "fuel = Suc f" using Cons.prems by (cases fuel) auto
  have "arch_save_loop f st (first_number ys) = Some ys"
    by (rule Cons.IH [of "xs @ [y]"]) (use Cons.prems f in auto)
  then show ?case
    using save_cb_mid [of st xs n s ys] Cons.prems(1) y f by simp
qed

lemma arch_save_loop_wraps:
  assumes "holds_program st (xs @ ys)" and "0 \<in> fst ` set (xs @ ys)"
  shows "arch_save_loop fuel st (first_number ys) = None"
  using assms
proof (induction fuel arbitrary: xs ys)
  case 0
  then show ?case by simp
next
  case (Suc fuel)
  have start: "\<exists>s zs. xs @ ys = (0, s) # zs"
  proof -
    obtain us s vs where split: "xs @ ys = us @ (0, s) # vs"
      using Suc.prems(2) by (metis imageE prod.collapse split_list)
    then have "us = []"
      using ls.rep_wf [OF Suc.prems(1)]
      by (cases us) (auto simp: wf_program_def)
    with split show ?thesis by auto
  qed
  show ?case
  proof (cases ys)
    case Nil
    then obtain s zs where "xs = (0, s) # zs" using start by auto
    with Suc.prems Nil have "save_cb st 0 = Some (0, Some s, first_number zs)"
      "arch_save_loop fuel st (first_number zs) = None"
      using save_cb_mid [of st "[]" 0 s zs] Suc.IH [of "[(0, s)]" zs] by auto
    with Nil show ?thesis by simp
  next
    case (Cons y ys')
    obtain n s where y: "y = (n, s)" by (cases y)
    have "save_cb st n = Some (n, Some s, first_number ys')"
      "arch_save_loop fuel st (first_number ys') = None"
      using save_cb_mid [of st xs n s ys'] Suc.IH [of "xs @ [y]" ys'] Suc.prems Cons y by auto
    with Cons y show ?thesis by simp
  qed
qed

subsection \<open>Command sequences\<close>

text \<open>What \<open>basic_eval\<close> and the CLEAR keyword do to the store, as one step per command.\<close>

datatype line_cmd = Store u16 cstring | Delete u16 | Clear

fun exec_cmd :: "line_cmd \<Rightarrow> lines_state \<Rightarrow> lines_state option" where
  "exec_cmd (Store n s) st = map_option snd (lines_store st n s)"
| "exec_cmd (Delete n) st = map_option snd (lines_delete st n)"
| "exec_cmd Clear st = lines_clear st"

fun spec_cmd :: "line_cmd \<Rightarrow> program \<Rightarrow> program" where
  "spec_cmd (Store n s) ls = put_line n s ls"
| "spec_cmd (Delete n) ls = del_line n ls"
| "spec_cmd Clear ls = []"

fun cmd_ok :: "nat \<Rightarrow> line_cmd \<Rightarrow> program \<Rightarrow> bool" where
  "cmd_ok cap (Store n s) ls \<longleftrightarrow> wf_line (n, s) \<and> length (image_bytes (put_line n s ls)) \<le> cap"
| "cmd_ok cap _ ls \<longleftrightarrow> True"

fun exec_cmds :: "line_cmd list \<Rightarrow> lines_state \<Rightarrow> lines_state option" where
  "exec_cmds [] st = Some st"
| "exec_cmds (c # cs) st = do { st' \<leftarrow> exec_cmd c st; exec_cmds cs st' }"

fun cmds_ok :: "nat \<Rightarrow> line_cmd list \<Rightarrow> program \<Rightarrow> bool" where
  "cmds_ok cap [] ls \<longleftrightarrow> True"
| "cmds_ok cap (c # cs) ls \<longleftrightarrow> cmd_ok cap c ls \<and> cmds_ok cap cs (spec_cmd c ls)"

lemma exec_cmd_simulates:
  assumes "holds_program st ls" and "cmd_ok (length (lines_memory st)) c ls"
  shows "\<exists>st'. exec_cmd c st = Some st' \<and> holds_program st' (spec_cmd c ls)
    \<and> length (lines_memory st') = length (lines_memory st)"
proof (cases c)
  case (Store n s)
  then show ?thesis using lines_store_holds [OF assms(1), of n s] assms(2) by auto
next
  case (Delete n)
  then show ?thesis using lines_delete_holds [OF assms(1), of n] by auto
next
  case Clear
  then show ?thesis using lines_clear_holds [OF assms(1)] by auto
qed

lemma exec_cmds_simulates:
  assumes "holds_program st ls" and "cmds_ok (length (lines_memory st)) cs ls"
  shows "\<exists>st'. exec_cmds cs st = Some st' \<and> holds_program st' (fold spec_cmd cs ls)
    \<and> length (lines_memory st') = length (lines_memory st)"
  using assms
proof (induction cs arbitrary: st ls)
  case Nil
  then show ?case by simp
next
  case (Cons c cs)
  obtain st1 where "exec_cmd c st = Some st1" "holds_program st1 (spec_cmd c ls)"
    "length (lines_memory st1) = length (lines_memory st)"
    using exec_cmd_simulates [of st ls c] Cons.prems by auto
  then show ?case
    using Cons.IH [of st1 "spec_cmd c ls"] Cons.prems(2) by auto
qed

subsection \<open>Properties\<close>

text \<open>C2. After \<open>lines_init\<close> on a block of at least three bytes, every sequence of store, delete
  and clear commands whose programs fit the block runs without leaving the block and leaves in it
  exactly the program that the abstract commands on sorted line lists compute.\<close>

theorem lines_commands_refine:
  assumes "3 \<le> length memory" and "cmds_ok (length memory) cs []"
  shows "\<exists>st0 st. lines_init memory sz = Some st0 \<and> exec_cmds cs st0 = Some st
    \<and> holds_program st (fold spec_cmd cs [])
    \<and> lines_memory_used st = Some (length (image_bytes (fold spec_cmd cs [])))"
proof -
  obtain st0 where st0: "lines_init memory sz = Some st0" "holds_program st0 []"
    "length (lines_memory st0) = length memory"
    using lines_init_holds [OF assms(1)] by blast
  with exec_cmds_simulates [of st0 "[]" cs] assms(2) show ?thesis
    by (auto intro: lines_memory_used_holds)
qed

theorem lines_commands_refine_witness:
  "\<exists>st0 st. lines_init (replicate 20 7) 20 = Some st0
    \<and> exec_cmds [Store 20 [65], Store 10 [66, 67], Delete 20] st0 = Some st
    \<and> holds_program st (fold spec_cmd [Store 20 [65], Store 10 [66, 67], Delete 20] [])
    \<and> lines_memory_used st
      = Some (length (image_bytes (fold spec_cmd [Store 20 [65], Store 10 [66, 67], Delete 20] [])))"
  by (rule lines_commands_refine) (simp_all add: is_cstring_def del_line_def)

text \<open>Storing a line that fits makes the text of that line number the new text, and no other
  line's text changes.\<close>

theorem lines_store_lookup:
  assumes "holds_program st ls" and "wf_line (n, s)"
    and "length (image_bytes (put_line n s ls)) \<le> length (lines_memory st)"
  shows "\<exists>st'. lines_store st n s = Some (True, st')
    \<and> contents_text st' k = (if k = n then Some (Some s) else contents_text st k)"
  using ls.text_after_store [OF assms, of k] by metis

theorem lines_store_lookup_witness:
  "\<exists>st'. lines_store \<lparr>lines_memory = replicate 9 0, lines_memory_end = 0, lines_memory_size = 9\<rparr>
      10 [65] = Some (True, st')
    \<and> contents_text st' 10 = (if (10::u16) = 10 then Some (Some [65])
        else contents_text \<lparr>lines_memory = replicate 9 0, lines_memory_end = 0,
          lines_memory_size = 9\<rparr> 10)"
  by (rule lines_store_lookup [where ls = "[]"])
    (simp_all add: holds_program_def wf_program_def is_cstring_def)

text \<open>Deleting a line reports whether the line existed, afterwards no text is found under its
  number, and every other line keeps its text.\<close>

theorem lines_delete_lookup:
  assumes "holds_program st ls"
  shows "\<exists>st'. lines_delete st n = Some (n \<in> fst ` set ls, st')
    \<and> holds_program st' (del_line n ls)
    \<and> contents_text st' k = (if k = n then Some None else contents_text st k)"
proof -
  obtain b st' where st': "lines_delete st n = Some (b, st')"
    "contents_text st' k = (if k = n then Some None else contents_text st k)"
    using ls.text_after_delete [OF assms, of n k] by blast
  with ls.delete [OF assms, of n] show ?thesis by auto
qed

theorem lines_delete_lookup_witness:
  "\<exists>st'. lines_delete \<lparr>lines_memory = image_bytes [(10, [65]), (20, [66])], lines_memory_end = 0,
        lines_memory_size = 13\<rparr> 10
      = Some ((10 :: u16) \<in> fst ` set [(10 :: u16, [65 :: byte]), (20, [66])], st')
    \<and> holds_program st' (del_line 10 [(10, [65]), (20, [66])])
    \<and> contents_text st' 20 = (if (20 :: u16) = 10 then Some None
        else contents_text \<lparr>lines_memory = image_bytes [(10, [65]), (20, [66])],
          lines_memory_end = 0, lines_memory_size = 13\<rparr> 20)"
  by (rule lines_delete_lookup) (simp add: holds_program_def wf_program_def is_cstring_def)

text \<open>Saving a program that has no line 0 terminates and writes exactly its lines in
  increasing order of their numbers.\<close>

theorem save_writes_program:
  assumes "holds_program st ls" and "0 \<notin> fst ` set ls" and "length ls < fuel"
  shows "do_save_lines fuel st = Some ls"
  using arch_save_loop_suffix [of st "[]" ls fuel] assms ls.first_of [OF assms(1)]
  by (simp add: do_save_lines_def)

theorem save_writes_program_witness:
  "do_save_lines 3 \<lparr>lines_memory = image_bytes [(10, [65]), (20, [66])], lines_memory_end = 0,
     lines_memory_size = 13\<rparr> = Some [(10, [65]), (20, [66])]"
  by (rule save_writes_program) (simp_all add: holds_program_def wf_program_def is_cstring_def)

text \<open>A program with a line numbered 0 is never saved completely: \<open>lines_next\<close> answers 0 after
  the last line, which is then the number of an existing line, so the saving loop starts over and
  runs forever.\<close>

theorem save_line_zero_diverges:
  assumes "holds_program st ls" and "0 \<in> fst ` set ls"
  shows "do_save_lines fuel st = None"
  using arch_save_loop_wraps [of st "[]" ls fuel] assms ls.first_of [OF assms(1)]
  by (simp add: do_save_lines_def)

theorem save_line_zero_diverges_witness:
  "do_save_lines 100 \<lparr>lines_memory = image_bytes [(0, [65])], lines_memory_end = 0,
     lines_memory_size = 13\<rparr> = None"
  by (rule save_line_zero_diverges [where ls = "[(0, [65])]"])
    (simp_all add: holds_program_def wf_program_def is_cstring_def)

text \<open>C28. \<open>lines_store\<close> has no capacity check: storing a line whose program does not fit the block
  writes outside of it.\<close>

theorem lines_store_overflow:
  assumes "holds_program st ls" and "wf_line (n, s)"
    and "length (lines_memory st) < length (image_bytes (put_line n s ls))"
  shows "lines_store st n s = None"
proof -
  obtain post where wf: "wf_program ls" and m: "lines_memory st = image_bytes ls @ post"
    using assms(1) by (rule holds_programE)
  then show ?thesis
    using store_loop_overflow [OF wf, of 0 "[]" s post n] assms(2,3) by (simp add: lines_store_def)
qed

theorem lines_store_overflow_witness:
  "lines_store \<lparr>lines_memory = replicate 7 0, lines_memory_end = 0, lines_memory_size = 7\<rparr> 10 [65]
    = None"
  by (rule lines_store_overflow [where ls = "[]"])
    (simp_all add: holds_program_def wf_program_def is_cstring_def)

text \<open>LIST shows the lines in the requested range, each with its text, in increasing order.\<close>

theorem lines_list_correct:
  assumes "holds_program st ls"
  shows "lines_list st start end = Some (filter (\<lambda>l. in_range (fst l) start end) ls)"
  using assms by (rule lines_list_holds)

theorem lines_list_correct_witness:
  "lines_list \<lparr>lines_memory = image_bytes [(10, [65]), (20, [66])], lines_memory_end = 0,
     lines_memory_size = 13\<rparr> 15 0
   = Some (filter (\<lambda>l. in_range (fst l) 15 0) [(10, [65]), (20, [66])])"
  by (rule lines_list_correct) (simp add: holds_program_def wf_program_def is_cstring_def)

end
