(* ===== verification/Basic_Expressions.thy ===== *)
theory Basic_Expressions
  imports Basic_Tokenizer Basic_Lines
begin

section \<open>BASIC: the state of the interpreter and the expression parser\<close>

text \<open>
  Model of the first half of \<^verbatim>\<open>src/src/components/basic/src/parser.c\<close>: the state of the interpreter,
  the registered functions and the recursive-descent parser that evaluates expressions while it
  reads tokens.  C floats are the type \<open>'f\<close> with the operations of the record \<open>floats\<close> (the
  arithmetic, the conversions and the functions of \<^verbatim>\<open>math.h\<close> and \<^verbatim>\<open>stdio.h\<close> the code calls).  Every
  function of the parser takes the state and returns it; \<open>None\<close> is undefined behaviour of the C code
  (an access outside an object, a null pointer, a conversion out of range) or fuel that ran out.
  The recursion of the parser goes through \<open>factor\<close>, \<open>numeric_expression\<close> and
  \<open>string_expression\<close>; the bodies of the functions take these three as arguments, and the
  recursive functions at the end tie the knot with fuel.
\<close>

subsection \<open>Floats\<close>

record 'f floats =
  f_of_int :: "int \<Rightarrow> 'f"
  f_trunc :: "'f \<Rightarrow> int option"
  f_add :: "'f \<Rightarrow> 'f \<Rightarrow> 'f"
  f_sub :: "'f \<Rightarrow> 'f \<Rightarrow> 'f"
  f_mul :: "'f \<Rightarrow> 'f \<Rightarrow> 'f"
  f_div :: "'f \<Rightarrow> 'f \<Rightarrow> 'f"
  f_lt :: "'f \<Rightarrow> 'f \<Rightarrow> bool"
  f_eq :: "'f \<Rightarrow> 'f \<Rightarrow> bool"
  f_scan :: "cstring \<Rightarrow> 'f option"
  f_atof :: "cstring \<Rightarrow> 'f"
  f_strtof :: "cstring \<Rightarrow> 'f"
  f_show :: "'f \<Rightarrow> cstring"
  f_ratio :: "int \<Rightarrow> int \<Rightarrow> 'f"
  f_fabs :: "'f \<Rightarrow> 'f"
  f_sqrt :: "'f \<Rightarrow> 'f"
  f_sinf :: "'f \<Rightarrow> 'f"
  f_cosf :: "'f \<Rightarrow> 'f"
  f_tanf :: "'f \<Rightarrow> 'f"
  f_logf :: "'f \<Rightarrow> 'f"
  f_expf :: "'f \<Rightarrow> 'f"
  f_atanf :: "'f \<Rightarrow> 'f"
  f_powf :: "'f \<Rightarrow> 'f \<Rightarrow> 'f"
  rand_max :: int
  rand_seq :: "nat \<Rightarrow> int list"
  tm_sec :: int
  file_contents :: "cstring \<Rightarrow> byte list option"

text \<open>\<open>f_trunc\<close> is the integer part of a float, absent for infinities and NaN; the conversion to an
  integer type is undefined when it does not fit the type.\<close>

definition to_int :: "'f floats \<Rightarrow> 'f \<Rightarrow> int option" where
  "to_int F x = do { i \<leftarrow> f_trunc F x; if - (2 ^ 31) \<le> i \<and> i < 2 ^ 31 then Some i else None }"

definition to_uint16 :: "'f floats \<Rightarrow> 'f \<Rightarrow> u16 option" where
  "to_uint16 F x = do { i \<leftarrow> f_trunc F x; if 0 \<le> i \<and> i < 2 ^ 16 then Some (of_int i) else None }"

definition to_size :: "'f floats \<Rightarrow> 'f \<Rightarrow> u64 option" where
  "to_size F x = do { i \<leftarrow> f_trunc F x; if 0 \<le> i \<and> i < 2 ^ 64 then Some (of_int i) else None }"

definition f_gt0 :: "'f floats \<Rightarrow> 'f \<Rightarrow> bool" where
  "f_gt0 F x = f_lt F (f_of_int F 0) x"

definition f_lt0 :: "'f floats \<Rightarrow> 'f \<Rightarrow> bool" where
  "f_lt0 F x = f_lt F x (f_of_int F 0)"

definition f_bool :: "'f floats \<Rightarrow> bool \<Rightarrow> 'f" where
  "f_bool F b = f_of_int F (if b then 1 else 0)"

subsection \<open>Registered functions\<close>

datatype basic_function_type =
    basic_function_type_keyword
  | basic_function_type_op
  | basic_function_type_numeric
  | basic_function_type_string
  | basic_function_type_print

datatype kind = kind_numeric | kind_string

text \<open>The C functions that are registered, in place of function pointers.\<close>

datatype fn =
    Do_list | Do_clear | Do_goto | Do_on_goto | Do_gosub | Do_return | Do_run | Do_if | Do_for | Do_next
  | Do_end | Do_rem | Do_dim | Do_data | Do_read | Do_restore | Do_load | Do_save | Do_delete | Do_dir
  | Do_let | Do_input | Do_get | Do_print | Do_spc | Do_tab | Do_cls
  | F_abs | F_sin | F_cos | F_rnd | F_int | F_tan | F_sqr | F_sgn | F_log | F_exp | F_pow | F_atn | F_not
  | Str_len | Str_chr | Str_mid | Str_left | Str_right | Str_asc | Str_val | Str_str
  | Do_sleep | Dump

record basic_function =
  bf_token :: token
  bf_type :: basic_function_type
  bf_nr_arguments :: nat
  bf_kinds :: "kind list"
  bf_function :: fn

text \<open>An argument or a result; a value that was never written is \<open>None\<close>.\<close>

record 'f basic_type =
  bt_kind :: kind
  bt_empty :: bool
  bt_value :: "'f variable_value option"

definition function_kind_i :: "basic_function \<Rightarrow> nat \<Rightarrow> kind" where
  "function_kind_i bf i = (if i < length (bf_kinds bf) \<and> i < 5 then bf_kinds bf ! i else kind_numeric)"

subsection \<open>The state\<close>

datatype data_state = data_state_init | data_state_find | data_state_read

record data_pointer =
  data_line :: u16
  data_cursor :: ptr
  data_char_pointer :: ptr
  data_state_of :: data_state

datatype 'f stack_frame =
    For_frame cstring 'f 'f u16 ptr
  | Gosub_frame u16 ptr

text \<open>\<open>stack_frames\<close> are the frames between \<^verbatim>\<open>__stack_p\<close> and the end of the stack block, the top one
  first.\<close>

record 'f basic =
  tok :: "'f tokenizer"
  sym :: token
  eval_no :: nat
  eval_line :: "byte list"
  prog :: lines_state
  vars :: "'f variables_state"
  basic_functions :: "basic_function array"
  cur_line :: u16
  cur_cursor :: ptr
  stack_frames :: "'f stack_frame list"
  stack_p :: nat
  RUNNING :: bool
  REPL :: bool
  STOPPED :: bool
  data_ptr :: data_pointer
  out :: "byte list"
  inp :: "int list"
  rands :: "int list"

definition text_of :: "'f basic \<Rightarrow> text_mem" where
  "text_of st = \<lparr>mem_eval = eval_no st, mem_input = eval_line st, mem_prog = lines_memory (prog st)\<rparr>"

definition raise :: "string \<Rightarrow> 'f basic \<Rightarrow> 'f basic" where
  "raise msg st = st\<lparr>vars := error msg (vars st)\<rparr>"

definition basic_io_print :: "cstring \<Rightarrow> 'f basic \<Rightarrow> 'f basic" where
  "basic_io_print s st = st\<lparr>out := out st @ s\<rparr>"

definition putch :: "byte \<Rightarrow> 'f basic \<Rightarrow> 'f basic" where
  "putch c st = st\<lparr>out := out st @ [c]\<rparr>"

subsection \<open>Symbols\<close>

definition get_sym :: "'f floats \<Rightarrow> 'f basic \<Rightarrow> 'f basic option" where
  "get_sym F st = do {
     (s, t) \<leftarrow> tokenizer_get_next_token (f_scan F) (text_of st) (tok st);
     Some (st\<lparr>tok := t, sym := s\<rparr>) }"

definition accept :: "'f floats \<Rightarrow> token \<Rightarrow> 'f basic \<Rightarrow> (bool \<times> 'f basic) option" where
  "accept F t st = (if t = sym st then do { st \<leftarrow> get_sym F st; Some (True, st) } else Some (False, st))"

definition expect :: "'f floats \<Rightarrow> token \<Rightarrow> 'f basic \<Rightarrow> (bool \<times> 'f basic) option" where
  "expect F t st = do {
     (ok, st) \<leftarrow> accept F t st;
     if ok then Some (True, st) else Some (False, raise ''UNEXPECTED SYMBOL'' st) }"

definition tokenizer_pos :: "ptr \<Rightarrow> 'f basic \<Rightarrow> (ptr \<times> 'f basic) option" where
  "tokenizer_pos p st = do {
     (q, t) \<leftarrow> tokenizer_char_pointer (text_of st) (tok st) p;
     Some (q, st\<lparr>tok := t\<rparr>) }"

text \<open>Token numbers are given out from \<^verbatim>\<open>TOKEN_TYPE_END + 1000\<close> on in the order of the registrations in
  \<^verbatim>\<open>basic_init\<close>.\<close>

definition basic_token_id :: "nat \<Rightarrow> token" where
  "basic_token_id k = TOKEN_TYPE_END + 1000 + k"

definition t_keyword_list :: token where "t_keyword_list = basic_token_id 0"
definition t_keyword_clear :: token where "t_keyword_clear = basic_token_id 1"
definition t_keyword_goto :: token where "t_keyword_goto = basic_token_id 3"
definition t_keyword_on :: token where "t_keyword_on = basic_token_id 4"
definition t_keyword_gosub :: token where "t_keyword_gosub = basic_token_id 5"
definition t_keyword_return :: token where "t_keyword_return = basic_token_id 6"
definition t_keyword_then :: token where "t_keyword_then = basic_token_id 9"
definition t_keyword_for :: token where "t_keyword_for = basic_token_id 10"
definition t_keyword_to :: token where "t_keyword_to = basic_token_id 11"
definition t_keyword_step :: token where "t_keyword_step = basic_token_id 12"
definition t_keyword_next :: token where "t_keyword_next = basic_token_id 13"
definition t_keyword_rem :: token where "t_keyword_rem = basic_token_id 16"
definition t_keyword_dim :: token where "t_keyword_dim = basic_token_id 17"
definition t_keyword_data :: token where "t_keyword_data = basic_token_id 18"
definition t_keyword_read :: token where "t_keyword_read = basic_token_id 19"
definition t_keyword_restore :: token where "t_keyword_restore = basic_token_id 20"
definition t_keyword_load :: token where "t_keyword_load = basic_token_id 21"
definition t_keyword_save :: token where "t_keyword_save = basic_token_id 22"
definition t_keyword_delete :: token where "t_keyword_delete = basic_token_id 23"
definition t_keyword_dir :: token where "t_keyword_dir = basic_token_id 24"
definition t_op_or :: token where "t_op_or = basic_token_id 28"
definition t_op_and :: token where "t_op_and = basic_token_id 29"
definition t_keyword_print :: token where "t_keyword_print = basic_token_id 30"
definition t_keyword_print_short :: token where "t_keyword_print_short = basic_token_id 31"

subsection \<open>Functions of expressions\<close>

fun find_function_loop ::
  "basic_function array \<Rightarrow> token \<Rightarrow> basic_function_type \<Rightarrow> nat list \<Rightarrow> basic_function option option" where
  "find_function_loop a s type [] = Some None"
| "find_function_loop a s type (i # is) = do {
     cell \<leftarrow> array_get a i;
     bf \<leftarrow> cell;
     if bf_type bf = type \<and> bf_token bf = s then Some (Some bf) else find_function_loop a s type is }"

definition find_basic_function_by_type ::
  "'f basic \<Rightarrow> token \<Rightarrow> basic_function_type \<Rightarrow> basic_function option option" where
  "find_basic_function_by_type st s type =
     find_function_loop (basic_functions st) s type [0..<array_size (basic_functions st)]"

fun num_arg :: "'f basic_type \<Rightarrow> 'f option" where
  "num_arg v = (case bt_value v of Some (Num x) \<Rightarrow> Some x | _ \<Rightarrow> None)"

fun str_arg :: "'f basic_type \<Rightarrow> cstring option" where
  "str_arg v = (case bt_value v of Some (Str s) \<Rightarrow> Some s | _ \<Rightarrow> None)"

definition f_abs :: "'f floats \<Rightarrow> 'f \<Rightarrow> 'f" where
  "f_abs F x = f_fabs F x"

text \<open>\<^verbatim>\<open>rand()\<close> takes the next number of the sequence; \<^verbatim>\<open>srand\<close> starts the sequence of a seed; the
  conversion of a negative number to the unsigned seed is undefined unless it truncates to 0.\<close>

definition f_rnd :: "'f floats \<Rightarrow> 'f \<Rightarrow> 'f basic \<Rightarrow> ('f \<times> 'f basic) option" where
  "f_rnd F x st =
     (if f_gt0 F x then (case rands st of
          [] \<Rightarrow> None
        | r # rs \<Rightarrow> Some (f_ratio F r (rand_max F), st\<lparr>rands := rs\<rparr>))
      else if f_lt0 F x then do {
        seed \<leftarrow> f_trunc F x;
        if seed \<noteq> 0 then None
        else (case rand_seq F 0 of
                [] \<Rightarrow> None
              | r # rs \<Rightarrow> Some (f_ratio F r (rand_max F), st\<lparr>rands := rs\<rparr>)) }
      else Some (f_ratio F (tm_sec F) 60, st))"

definition f_int :: "'f floats \<Rightarrow> 'f \<Rightarrow> 'f option" where
  "f_int F x = do { i \<leftarrow> to_int F x; Some (f_of_int F i) }"

definition f_sgn :: "'f floats \<Rightarrow> 'f \<Rightarrow> 'f" where
  "f_sgn F x = (if f_lt0 F x then f_of_int F (- 1) else if f_gt0 F x then f_of_int F 1 else f_of_int F 0)"

definition f_not :: "'f floats \<Rightarrow> 'f \<Rightarrow> 'f option" where
  "f_not F x = do { i \<leftarrow> to_int F x; Some (f_of_int F (- i - 1)) }"

definition float_or :: "'f floats \<Rightarrow> 'f \<Rightarrow> 'f \<Rightarrow> 'f option" where
  "float_or F a b = do { i \<leftarrow> to_int F a; j \<leftarrow> to_int F b; Some (f_of_int F (or i j)) }"

definition float_and :: "'f floats \<Rightarrow> 'f \<Rightarrow> 'f \<Rightarrow> 'f option" where
  "float_and F a b = do { i \<leftarrow> to_int F a; j \<leftarrow> to_int F b; Some (f_of_int F (and i j)) }"

definition str_chr :: "'f floats \<Rightarrow> 'f \<Rightarrow> cstring option" where
  "str_chr F x = do {
     i \<leftarrow> to_int F x;
     let c = (of_int i :: byte);
     Some (if c = 0 then [] else [c]) }"

text \<open>\<^verbatim>\<open>int\<close> values are compared with \<^verbatim>\<open>strlen\<close> as \<^verbatim>\<open>size_t\<close>, so negative ones count as larger.\<close>

definition str_mid :: "'f floats \<Rightarrow> cstring \<Rightarrow> 'f \<Rightarrow> 'f option \<Rightarrow> cstring option" where
  "str_mid F source start len_arg = do {
     i \<leftarrow> to_int F start;
     if i = - (2 ^ 31) then None
     else do {
       let n = int (length source);
       let st0 = i - 1;
       let st = (if st0 < 0 \<or> st0 > n then n else st0);
       len \<leftarrow> (case len_arg of
               None \<Rightarrow> Some (n - st)
             | Some x \<Rightarrow> do {
                 k \<leftarrow> to_int F x;
                 if k + st \<ge> 2 ^ 31 then None
                 else Some (if k + st < 0 \<or> k + st > n then n - st else k) });
       if len < 0 \<or> len > n - st then None
       else Some (take (nat len) (drop (nat st) source)) } }"

definition str_right :: "'f floats \<Rightarrow> cstring \<Rightarrow> 'f \<Rightarrow> cstring option" where
  "str_right F source len_arg = do {
     k \<leftarrow> to_int F len_arg;
     if k < 0 \<or> k > int (length source) then None
     else Some (drop (length source - nat k) source) }"

definition str_left :: "'f floats \<Rightarrow> cstring \<Rightarrow> 'f \<Rightarrow> cstring option" where
  "str_left F source len_arg = do {
     k \<leftarrow> to_int F len_arg;
     if k < 0 \<or> k > int (length source) then None
     else Some (take (nat k) source) }"

definition str_len :: "'f floats \<Rightarrow> cstring \<Rightarrow> 'f" where
  "str_len F s = f_of_int F (int (length s))"

definition str_asc :: "'f floats \<Rightarrow> cstring \<Rightarrow> 'f" where
  "str_asc F s = f_of_int F (case s of [] \<Rightarrow> 0 | c # _ \<Rightarrow> sint c)"

definition str_val :: "'f floats \<Rightarrow> cstring \<Rightarrow> 'f" where
  "str_val F s = f_atof F s"

definition str_str :: "'f floats \<Rightarrow> 'f \<Rightarrow> cstring" where
  "str_str F x = take 15 (f_show F x)"

text \<open>\<^verbatim>\<open>for (size_t i = 0; i < n; i++) __putch(' ');\<close> with \<^verbatim>\<open>i\<close> converted to float in the comparison.\<close>

fun spaces_loop :: "'f floats \<Rightarrow> nat \<Rightarrow> nat \<Rightarrow> 'f \<Rightarrow> 'f basic \<Rightarrow> 'f basic option" where
  "spaces_loop F 0 i n st = None"
| "spaces_loop F (Suc fuel) i n st =
     (if f_lt F (f_of_int F (int i)) n then spaces_loop F fuel (Suc i) n (putch 32 st) else Some st)"

definition do_spc :: "'f floats \<Rightarrow> nat \<Rightarrow> 'f \<Rightarrow> 'f basic \<Rightarrow> ('f variable_value \<times> 'f basic) option" where
  "do_spc F fuel n st = do { st \<leftarrow> spaces_loop F fuel 0 n st; Some (Num (f_of_int F 0), st) }"

definition do_tab :: "'f floats \<Rightarrow> nat \<Rightarrow> 'f \<Rightarrow> 'f basic \<Rightarrow> ('f variable_value \<times> 'f basic) option" where
  "do_tab F fuel n st = do { st \<leftarrow> spaces_loop F fuel 0 n st; Some (Num (f_of_int F 0), st) }"

definition do_sleep :: "'f floats \<Rightarrow> 'f \<Rightarrow> 'f basic \<Rightarrow> ('f variable_value \<times> 'f basic) option" where
  "do_sleep F delay st = do { ms \<leftarrow> to_int F delay; Some (Num (f_of_int F 0), st) }"

text \<open>The call of a registered function that takes arguments.\<close>

definition call_function ::
  "'f floats \<Rightarrow> nat \<Rightarrow> fn \<Rightarrow> 'f basic_type list \<Rightarrow> 'f basic \<Rightarrow> ('f variable_value \<times> 'f basic) option" where
  "call_function F fuel f v st =
     (let num = (\<lambda>g. do { b \<leftarrow> load v 0; x \<leftarrow> num_arg b; Some (Num (g x), st) });
          num_opt = (\<lambda>g. do { b \<leftarrow> load v 0; x \<leftarrow> num_arg b; y \<leftarrow> g x; Some (Num y, st) });
          on_str = (\<lambda>g. do { b \<leftarrow> load v 0; s \<leftarrow> str_arg b; Some (Num (g s), st) })
      in case f of
        F_abs \<Rightarrow> num (f_abs F)
      | F_sin \<Rightarrow> num (f_sinf F)
      | F_cos \<Rightarrow> num (f_cosf F)
      | F_rnd \<Rightarrow> do { b \<leftarrow> load v 0; x \<leftarrow> num_arg b; (y, st) \<leftarrow> f_rnd F x st; Some (Num y, st) }
      | F_int \<Rightarrow> num_opt (f_int F)
      | F_tan \<Rightarrow> num (f_tanf F)
      | F_sqr \<Rightarrow> num (f_sqrt F)
      | F_sgn \<Rightarrow> num (f_sgn F)
      | F_log \<Rightarrow> num (f_logf F)
      | F_exp \<Rightarrow> num (f_expf F)
      | F_pow \<Rightarrow> do { a \<leftarrow> load v 0; x \<leftarrow> num_arg a; b \<leftarrow> load v 1; y \<leftarrow> num_arg b; Some (Num (f_powf F x y), st) }
      | F_atn \<Rightarrow> num (f_atanf F)
      | F_not \<Rightarrow> num_opt (f_not F)
      | Str_len \<Rightarrow> on_str (str_len F)
      | Str_asc \<Rightarrow> on_str (str_asc F)
      | Str_val \<Rightarrow> on_str (str_val F)
      | Str_chr \<Rightarrow> do { b \<leftarrow> load v 0; x \<leftarrow> num_arg b; s \<leftarrow> str_chr F x; Some (Str s, st) }
      | Str_str \<Rightarrow> do { b \<leftarrow> load v 0; x \<leftarrow> num_arg b; Some (Str (str_str F x), st) }
      | Str_left \<Rightarrow> do { a \<leftarrow> load v 0; s \<leftarrow> str_arg a; b \<leftarrow> load v 1; x \<leftarrow> num_arg b;
                       r \<leftarrow> str_left F s x; Some (Str r, st) }
      | Str_right \<Rightarrow> do { a \<leftarrow> load v 0; s \<leftarrow> str_arg a; b \<leftarrow> load v 1; x \<leftarrow> num_arg b;
                        r \<leftarrow> str_right F s x; Some (Str r, st) }
      | Str_mid \<Rightarrow> do { a \<leftarrow> load v 0; s \<leftarrow> str_arg a; b \<leftarrow> load v 1; x \<leftarrow> num_arg b; c \<leftarrow> load v 2;
                      r \<leftarrow> (if bt_empty c then str_mid F s x None
                           else do { y \<leftarrow> num_arg c; str_mid F s x (Some y) });
                      Some (Str r, st) }
      | Do_spc \<Rightarrow> do { b \<leftarrow> load v 0; x \<leftarrow> num_arg b; do_spc F fuel x st }
      | Do_tab \<Rightarrow> do { b \<leftarrow> load v 0; x \<leftarrow> num_arg b; do_tab F fuel x st }
      | Do_sleep \<Rightarrow> do { b \<leftarrow> load v 0; x \<leftarrow> num_arg b; do_sleep F x st }
      | _ \<Rightarrow> None)"

subsection \<open>Relations\<close>

datatype relop = OP_NOP | OP_LT | OP_LE | OP_EQ | OP_GE | OP_GT | OP_NE

definition get_relop :: "'f floats \<Rightarrow> 'f basic \<Rightarrow> (relop \<times> 'f basic) option" where
  "get_relop F st =
     (if sym st = T_LESS then do {
        (_, st) \<leftarrow> accept F T_LESS st;
        if sym st = T_EQUALS then do { (_, st) \<leftarrow> accept F T_EQUALS st; Some (OP_LE, st) }
        else if sym st = T_GREATER then do { (_, st) \<leftarrow> accept F T_GREATER st; Some (OP_NE, st) }
        else Some (OP_LT, st) }
      else if sym st = T_EQUALS then do { (_, st) \<leftarrow> accept F T_EQUALS st; Some (OP_EQ, st) }
      else if sym st = T_GREATER then do {
        (_, st) \<leftarrow> accept F T_GREATER st;
        if sym st = T_EQUALS then do { (_, st) \<leftarrow> accept F T_EQUALS st; Some (OP_GE, st) }
        else Some (OP_GT, st) }
      else Some (OP_NOP, st))"

definition numeric_condition :: "'f floats \<Rightarrow> 'f \<Rightarrow> 'f \<Rightarrow> relop \<Rightarrow> 'f basic \<Rightarrow> bool \<times> 'f basic" where
  "numeric_condition F left right op st =
     (case op of
        OP_NOP \<Rightarrow> (False, raise ''EXPECTED RELOP'' st)
      | OP_LT \<Rightarrow> (f_lt F left right, st)
      | OP_LE \<Rightarrow> (f_lt F left right \<or> f_eq F left right, st)
      | OP_EQ \<Rightarrow> (f_eq F left right, st)
      | OP_GE \<Rightarrow> (f_lt F right left \<or> f_eq F left right, st)
      | OP_GT \<Rightarrow> (f_lt F right left, st)
      | OP_NE \<Rightarrow> (\<not> f_eq F left right, st))"

text \<open>\<^verbatim>\<open>strcmp\<close>: bytes are compared as unsigned characters.\<close>

fun strcmp :: "cstring \<Rightarrow> cstring \<Rightarrow> int" where
  "strcmp [] [] = 0"
| "strcmp [] (d # ds) = - 1"
| "strcmp (c # cs) [] = 1"
| "strcmp (c # cs) (d # ds) = (if c = d then strcmp cs ds else if c < d then - 1 else 1)"

definition string_condition :: "cstring \<Rightarrow> cstring \<Rightarrow> relop \<Rightarrow> 'f basic \<Rightarrow> bool \<times> 'f basic" where
  "string_condition left right op st =
     (let comparison = strcmp left right in
      case op of
        OP_NOP \<Rightarrow> (False, raise ''EXPECTED RELOP'' st)
      | OP_LT \<Rightarrow> (comparison < 0, st)
      | OP_LE \<Rightarrow> (comparison \<le> 0, st)
      | OP_EQ \<Rightarrow> (comparison = 0, st)
      | OP_NE \<Rightarrow> (comparison \<noteq> 0, st)
      | OP_GE \<Rightarrow> (comparison \<ge> 0, st)
      | OP_GT \<Rightarrow> (comparison > 0, st))"

subsection \<open>Bodies of the parser functions\<close>

type_synonym 'f num_parser = "'f basic \<Rightarrow> ('f \<times> 'f basic) option"
type_synonym 'f str_parser = "'f basic \<Rightarrow> (cstring option \<times> 'f basic) option"

text \<open>\<^verbatim>\<open>get_vector\<close> with a vector of \<open>max_dims\<close> elements; the write behind the last one comes before the
  test of the size.\<close>

fun vector_items ::
  "'f floats \<Rightarrow> 'f num_parser \<Rightarrow> nat \<Rightarrow> nat \<Rightarrow> u64 list \<Rightarrow> nat \<Rightarrow> 'f basic \<Rightarrow> (nat \<times> u64 list \<times> 'f basic) option"
  where
  "vector_items F ne 0 max_dims vector dims st = None"
| "vector_items F ne (Suc fuel) max_dims vector dims st =
     (if sym st = T_RIGHT_BANANA then Some (dims, vector, st)
      else do {
        (n, st) \<leftarrow> ne st;
        x \<leftarrow> to_size F n;
        vector \<leftarrow> store vector dims x;
        let dims = dims + 1;
        if dims > max_dims then Some (dims, vector, raise ''MAX DIM'' st)
        else do {
          st \<leftarrow> (if sym st = T_COMMA then do { (_, st) \<leftarrow> accept F T_COMMA st; Some st } else Some st);
          vector_items F ne fuel max_dims vector dims st } })"

definition get_vector ::
  "'f floats \<Rightarrow> 'f num_parser \<Rightarrow> nat \<Rightarrow> nat \<Rightarrow> 'f basic \<Rightarrow> (nat \<times> u64 list \<times> 'f basic) option" where
  "get_vector F ne fuel max_dims st = vector_items F ne fuel max_dims (replicate max_dims 0) 0 st"

text \<open>The name of an array is the name of the variable with an opening parenthesis, in a local array of
  \<open>tokenizer_variable_length\<close> bytes.\<close>

definition array_name :: "cstring \<Rightarrow> cstring option" where
  "array_name name = (if length name + 2 \<le> tokenizer_variable_length then Some (name @ [40]) else None)"

definition get_parameter ::
  "'f num_parser \<Rightarrow> 'f str_parser \<Rightarrow> kind \<Rightarrow> 'f basic \<Rightarrow> ('f basic_type \<times> 'f basic) option" where
  "get_parameter ne se k st =
     (case k of
        kind_string \<Rightarrow> do {
          (s, st) \<leftarrow> se st;
          Some (\<lparr>bt_kind = kind_string, bt_empty = False, bt_value = map_option Str s\<rparr>, st) }
      | kind_numeric \<Rightarrow> do {
          (n, st) \<leftarrow> ne st;
          Some (\<lparr>bt_kind = kind_numeric, bt_empty = False, bt_value = Some (Num n)\<rparr>, st) })"

text \<open>The first loop over the arguments: the result is the index it stopped at and the argument array.\<close>

fun args_loop ::
  "'f floats \<Rightarrow> 'f num_parser \<Rightarrow> 'f str_parser \<Rightarrow> basic_function \<Rightarrow> nat list \<Rightarrow> 'f basic_type list \<Rightarrow>
    'f basic \<Rightarrow> (nat \<times> 'f basic_type list \<times> 'f basic) option" where
  "args_loop F ne se bf [] v st = Some (bf_nr_arguments bf, v, st)"
| "args_loop F ne se bf (i # is) v st =
     (if sym st \<noteq> T_RIGHT_BANANA then do {
        (a, st) \<leftarrow> get_parameter ne se (function_kind_i bf i) st;
        v \<leftarrow> store v i a;
        if i < bf_nr_arguments bf - 1
        then if sym st \<noteq> T_COMMA then Some (i, v, st)
          else do { (_, st) \<leftarrow> expect F T_COMMA st; args_loop F ne se bf is v st }
        else args_loop F ne se bf is v st }
      else args_loop F ne se bf is v st)"

text \<open>The second loop marks the rest as empty; a value read before stays in the union.\<close>

fun empty_loop :: "nat list \<Rightarrow> 'f basic_type list \<Rightarrow> 'f basic_type list" where
  "empty_loop [] v = v"
| "empty_loop (i # is) v = empty_loop is (v[i := (v ! i)\<lparr>bt_empty := True, bt_kind := kind_numeric\<rparr>])"

text \<open>\<^verbatim>\<open>basic_dispatch_function\<close>; the result is \<open>None\<close> when it is not written.  A keyword without
  arguments is called through \<open>handler\<close>; expressions only dispatch functions of the other types.\<close>

definition dispatch_with_arguments ::
  "'f floats \<Rightarrow> nat \<Rightarrow> 'f num_parser \<Rightarrow> 'f str_parser \<Rightarrow> basic_function \<Rightarrow> 'f basic \<Rightarrow>
    ('f variable_value \<times> 'f basic) option" where
  "dispatch_with_arguments F fuel ne se bf st = do {
     (_, st) \<leftarrow> expect F T_LEFT_BANANA st;
     (i, v, st) \<leftarrow> args_loop F ne se bf [0..<bf_nr_arguments bf]
       (replicate 5 \<lparr>bt_kind = kind_numeric, bt_empty = False, bt_value = None\<rparr>) st;
     let v = empty_loop [i..<bf_nr_arguments bf] v;
     (_, st) \<leftarrow> expect F T_RIGHT_BANANA st;
     call_function F fuel (bf_function bf) v st }"

definition basic_dispatch_function ::
  "'f floats \<Rightarrow> nat \<Rightarrow> 'f num_parser \<Rightarrow> 'f str_parser \<Rightarrow> (fn \<Rightarrow> 'f basic \<Rightarrow> 'f basic option) \<Rightarrow>
    basic_function \<Rightarrow> 'f basic \<Rightarrow> ('f variable_value option \<times> 'f basic) option" where
  "basic_dispatch_function F fuel ne se handler bf st =
     (if bf_nr_arguments bf > 5 then Some (None, raise ''MAX ARGUMENTS'' st)
      else do {
        (_, st) \<leftarrow> accept F (sym st) st;
        if bf_nr_arguments bf = 0 \<and> bf_type bf = basic_function_type_keyword
        then do { st \<leftarrow> handler (bf_function bf) st; Some (None, st) }
        else do {
          (rv, st) \<leftarrow> dispatch_with_arguments F fuel ne se bf st;
          Some (Some rv, st) } })"

definition dispatch_expression ::
  "'f floats \<Rightarrow> nat \<Rightarrow> 'f num_parser \<Rightarrow> 'f str_parser \<Rightarrow> basic_function \<Rightarrow> 'f basic \<Rightarrow>
    ('f variable_value option \<times> 'f basic) option" where
  "dispatch_expression F fuel ne se bf st =
     basic_dispatch_function F fuel ne se (\<lambda>_ _. None) bf st"

definition string_term ::
  "('f :: zero) floats \<Rightarrow> nat \<Rightarrow> 'f num_parser \<Rightarrow> 'f str_parser \<Rightarrow> 'f basic \<Rightarrow> (cstring option \<times> 'f basic) option"
  where
  "string_term F fuel ne se st =
     (if sym st = T_STRING then do {
        s \<leftarrow> tokenizer_get_string (tok st);
        (_, st) \<leftarrow> accept F T_STRING st;
        Some (Some s, st) }
      else if sym st = T_VARIABLE_STRING then do {
        name \<leftarrow> tokenizer_get_variable_name (tok st);
        st \<leftarrow> get_sym F st;
        if sym st = T_LEFT_BANANA then do {
          name \<leftarrow> array_name name;
          (_, st) \<leftarrow> accept F T_LEFT_BANANA st;
          (_, vector, st) \<leftarrow> get_vector F ne fuel 5 st;
          (s, vs) \<leftarrow> variable_array_get_string (vars st) name vector;
          s \<leftarrow> s;
          (_, st) \<leftarrow> expect F T_RIGHT_BANANA (st\<lparr>vars := vs\<rparr>);
          Some (Some s, st) }
        else do {
          (s, vs) \<leftarrow> variable_get_string (vars st) name;
          (_, st) \<leftarrow> accept F T_VARIABLE_STRING (st\<lparr>vars := vs\<rparr>);
          Some (Some s, st) } }
      else do {
        bf \<leftarrow> find_basic_function_by_type st (sym st) basic_function_type_string;
        (case bf of
           None \<Rightarrow> Some (None, st)
         | Some bf \<Rightarrow> do {
             (rv, st) \<leftarrow> dispatch_expression F fuel ne se bf st;
             (case rv of
                Some (Str s) \<Rightarrow> Some (Some s, st)
              | _ \<Rightarrow> None) }) })"

fun string_loop ::
  "('f :: zero) floats \<Rightarrow> nat \<Rightarrow> 'f num_parser \<Rightarrow> 'f str_parser \<Rightarrow> cstring option \<Rightarrow> 'f basic \<Rightarrow>
    (cstring option \<times> 'f basic) option" where
  "string_loop F 0 ne se s1 st = None"
| "string_loop F (Suc fuel) ne se s1 st =
     (if sym st = T_PLUS then do {
        (_, st) \<leftarrow> accept F T_PLUS st;
        (s2, st) \<leftarrow> string_term F fuel ne se st;
        a \<leftarrow> s1;
        b \<leftarrow> s2;
        string_loop F fuel ne se (Some (a @ b)) st }
      else Some (s1, st))"

definition string_expression_body ::
  "('f :: zero) floats \<Rightarrow> nat \<Rightarrow> 'f num_parser \<Rightarrow> 'f str_parser \<Rightarrow> 'f basic \<Rightarrow> (cstring option \<times> 'f basic) option"
  where
  "string_expression_body F fuel ne se st = do {
     (s1, st) \<leftarrow> string_term F fuel ne se st;
     string_loop F fuel ne se s1 st }"

text \<open>\<^verbatim>\<open>numeric_factor\<close>: a number, a variable, an array element or a parenthesis; a function call; a
  relation with the factor behind it.\<close>

definition numeric_primary ::
  "('f :: zero) floats \<Rightarrow> nat \<Rightarrow> 'f num_parser \<Rightarrow> 'f basic \<Rightarrow> ('f \<times> 'f basic) option" where
  "numeric_primary F fuel ne st =
     (if sym st = T_NUMBER then do {
        let number = tokenizer_get_number (tok st);
        (_, st) \<leftarrow> accept F T_NUMBER st;
        Some (number, st) }
      else if sym st = T_VARIABLE_NUMBER then do {
        name \<leftarrow> tokenizer_get_variable_name (tok st);
        st \<leftarrow> get_sym F st;
        if sym st = T_LEFT_BANANA then do {
          name \<leftarrow> array_name name;
          (_, st) \<leftarrow> accept F T_LEFT_BANANA st;
          (_, vector, st) \<leftarrow> get_vector F ne fuel 5 st;
          (x, vs) \<leftarrow> variable_array_get_numeric (vars st) name vector;
          (_, st) \<leftarrow> expect F T_RIGHT_BANANA (st\<lparr>vars := vs\<rparr>);
          Some (x, st) }
        else do {
          (x, vs) \<leftarrow> variable_get_numeric (vars st) name;
          (_, st) \<leftarrow> accept F T_VARIABLE_NUMBER (st\<lparr>vars := vs\<rparr>);
          Some (x, st) } }
      else do {
        (open, st) \<leftarrow> accept F T_LEFT_BANANA st;
        if open then do {
          (number, st) \<leftarrow> ne st;
          (_, st) \<leftarrow> expect F T_RIGHT_BANANA st;
          Some (number, st) }
        else do {
          st \<leftarrow> get_sym F (raise ''FACTOR SYNTAX ERROR'' st);
          Some (f_of_int F 0, st) } })"

definition numeric_atom ::
  "('f :: zero) floats \<Rightarrow> nat \<Rightarrow> 'f num_parser \<Rightarrow> 'f str_parser \<Rightarrow> 'f basic \<Rightarrow> ('f \<times> 'f basic) option" where
  "numeric_atom F fuel ne se st = do {
     bf \<leftarrow> find_basic_function_by_type st (sym st) basic_function_type_numeric;
     (case bf of
        Some bf \<Rightarrow> do {
          (rv, st) \<leftarrow> dispatch_expression F fuel ne se bf st;
          (case rv of Some (Num x) \<Rightarrow> Some (x, st) | _ \<Rightarrow> None) }
      | None \<Rightarrow> numeric_primary F fuel ne st) }"

definition numeric_factor_body ::
  "('f :: zero) floats \<Rightarrow> nat \<Rightarrow> 'f num_parser \<Rightarrow> 'f num_parser \<Rightarrow> 'f str_parser \<Rightarrow> 'f basic \<Rightarrow> ('f \<times> 'f basic) option"
  where
  "numeric_factor_body F fuel fac ne se st = do {
     (number, st) \<leftarrow> numeric_atom F fuel ne se st;
     (op, st) \<leftarrow> get_relop F st;
     if op \<noteq> OP_NOP then do {
       (right, st) \<leftarrow> fac st;
       let (b, st) = numeric_condition F number right op st;
       Some (f_bool F b, st) }
     else Some (number, st) }"

definition factor_body ::
  "('f :: zero) floats \<Rightarrow> nat \<Rightarrow> 'f num_parser \<Rightarrow> 'f num_parser \<Rightarrow> 'f str_parser \<Rightarrow> 'f basic \<Rightarrow> ('f \<times> 'f basic) option"
  where
  "factor_body F fuel fac ne se st =
     (if sym st = T_STRING \<or> sym st = T_VARIABLE_STRING then do {
        (s1, st) \<leftarrow> string_term F fuel ne se st;
        (op, st) \<leftarrow> get_relop F st;
        if op = OP_NOP then Some (f_of_int F 0, raise ''EXPECTED RELOP'' st)
        else do {
          (s2, st) \<leftarrow> string_term F fuel ne se st;
          a \<leftarrow> s1;
          b \<leftarrow> s2;
          let (r, st) = string_condition a b op st;
          Some (f_bool F r, st) } }
      else numeric_factor_body F fuel fac ne se st)"

fun term_loop :: "'f floats \<Rightarrow> nat \<Rightarrow> 'f num_parser \<Rightarrow> 'f \<Rightarrow> 'f basic \<Rightarrow> ('f \<times> 'f basic) option" where
  "term_loop F 0 fac x st = None"
| "term_loop F (Suc fuel) fac x st =
     (if sym st = T_MULTIPLY \<or> sym st = T_DIVIDE \<or> sym st = t_op_and then do {
        let op = sym st;
        st \<leftarrow> get_sym F st;
        (y, st) \<leftarrow> fac st;
        x \<leftarrow> (if op = T_MULTIPLY then Some (f_mul F x y)
             else if op = T_DIVIDE then Some (f_div F x y)
             else float_and F x y);
        term_loop F fuel fac x st }
      else Some (x, st))"

definition term_body :: "'f floats \<Rightarrow> nat \<Rightarrow> 'f num_parser \<Rightarrow> 'f basic \<Rightarrow> ('f \<times> 'f basic) option" where
  "term_body F fuel fac st = do { (x, st) \<leftarrow> fac st; term_loop F fuel fac x st }"

fun sum_loop :: "'f floats \<Rightarrow> nat \<Rightarrow> 'f num_parser \<Rightarrow> 'f \<Rightarrow> 'f basic \<Rightarrow> ('f \<times> 'f basic) option" where
  "sum_loop F 0 trm x st = None"
| "sum_loop F (Suc fuel) trm x st =
     (if sym st = T_PLUS \<or> sym st = T_MINUS \<or> sym st = t_op_or then do {
        let op = sym st;
        st \<leftarrow> get_sym F st;
        (y, st) \<leftarrow> trm st;
        x \<leftarrow> (if op = T_PLUS then Some (f_add F x y)
             else if op = T_MINUS then Some (f_sub F x y)
             else float_or F x y);
        sum_loop F fuel trm x st }
      else Some (x, st))"

definition numeric_expression_body ::
  "'f floats \<Rightarrow> nat \<Rightarrow> 'f num_parser \<Rightarrow> 'f basic \<Rightarrow> ('f \<times> 'f basic) option" where
  "numeric_expression_body F fuel fac st = do {
     let negative = (sym st = T_MINUS);
     st \<leftarrow> (if sym st = T_PLUS \<or> sym st = T_MINUS then get_sym F st else Some st);
     (x, st) \<leftarrow> term_body F fuel fac st;
     let x = (if negative then f_mul F (f_of_int F (- 1)) x else x);
     sum_loop F fuel (term_body F fuel fac) x st }"

subsection \<open>The recursive parser\<close>

fun factor :: "('f :: zero) floats \<Rightarrow> nat \<Rightarrow> 'f basic \<Rightarrow> ('f \<times> 'f basic) option"
  and numeric_expression :: "('f :: zero) floats \<Rightarrow> nat \<Rightarrow> 'f basic \<Rightarrow> ('f \<times> 'f basic) option"
  and string_expression :: "('f :: zero) floats \<Rightarrow> nat \<Rightarrow> 'f basic \<Rightarrow> (cstring option \<times> 'f basic) option"
where
  "factor F 0 st = None"
| "factor F (Suc n) st =
     factor_body F n (factor F n) (numeric_expression F n) (string_expression F n) st"
| "numeric_expression F 0 st = None"
| "numeric_expression F (Suc n) st = numeric_expression_body F n (factor F n) st"
| "string_expression F 0 st = None"
| "string_expression F (Suc n) st =
     string_expression_body F n (numeric_expression F n) (string_expression F n) st"

text \<open>The result of \<^verbatim>\<open>expression\<close>: a number or a string.\<close>

definition expression :: "('f :: zero) floats \<Rightarrow> nat \<Rightarrow> 'f basic \<Rightarrow> ('f variable_value \<times> 'f basic) option" where
  "expression F fuel st = do {
     (s, st) \<leftarrow> string_expression F fuel st;
     (case s of
        Some s \<Rightarrow> do {
          (op, st) \<leftarrow> get_relop F st;
          if op = OP_NOP then Some (Str s, st)
          else do {
            (right, st) \<leftarrow> string_expression F fuel st;
            r \<leftarrow> right;
            let (b, st) = string_condition s r op st;
            Some (Num (f_bool F b), st) } }
      | None \<Rightarrow> do {
          (x, st) \<leftarrow> numeric_expression F fuel st;
          Some (Num x, st) }) }"

end
