(* ===== verification/Basic_Interpreter.thy ===== *)
theory Basic_Interpreter
  imports Basic_Expressions
begin

section \<open>BASIC: statements, programs and the evaluation of lines\<close>

text \<open>
  Model of the second half of \<^verbatim>\<open>src/src/components/basic/src/parser.c\<close>, with \<^verbatim>\<open>io.c\<close> and the file
  functions of \<^verbatim>\<open>arch/chino/arch.c\<close>: the statement handlers, \<^verbatim>\<open>statement\<close>, \<^verbatim>\<open>parse_line\<close>,
  \<^verbatim>\<open>do_run\<close>, \<^verbatim>\<open>basic_init\<close> and \<^verbatim>\<open>basic_eval\<close>.  A handler takes the state and returns it.  The
  handlers that execute statements themselves (\<open>IF\<close>, \<open>RUN\<close>) take \<open>parse_line\<close> as an argument; the
  recursive \<open>parse_line\<close> at the end ties the knot with fuel.  The files are a parameter, the bytes
  typed on the console are the list \<open>inp\<close> and the bytes printed are appended to \<open>out\<close>.  The stack
  block is the list of its frames; the sizes of the two frame types are those of a 64-bit target.
  The token numbers are those of the first call of \<^verbatim>\<open>basic_init\<close>.
\<close>

subsection \<open>Output\<close>

definition chars_of :: "cstring \<Rightarrow> string" where
  "chars_of s = map (\<lambda>c. char_of (unat c)) s"

definition ready :: "'f basic \<Rightarrow> 'f basic" where
  "ready st = (if REPL st then basic_io_print (ascii ''READY.'' @ [10]) st else st)"

definition expression_print :: "'f floats \<Rightarrow> 'f variable_value \<Rightarrow> 'f basic \<Rightarrow> 'f basic option" where
  "expression_print F e st =
     (case e of
        Str s \<Rightarrow> Some (basic_io_print s st)
      | Num x \<Rightarrow> do {
          i \<leftarrow> to_int F x;
          Some (if f_eq F (f_of_int F i) x
                then basic_io_print (take 15 (decimal_int i)) st
                else basic_io_print (take 15 (f_show F x)) st) })"

definition list_out :: "u16 \<Rightarrow> cstring \<Rightarrow> 'f basic \<Rightarrow> 'f basic" where
  "list_out number contents st =
     basic_io_print (take 63 (decimal (unat number) @ [32] @ contents @ [10])) st"

subsection \<open>Moving in the program\<close>

definition lines_contents :: "'f basic \<Rightarrow> u16 \<Rightarrow> ptr option" where
  "lines_contents st n = do {
     p \<leftarrow> lines_get_contents (prog st) n;
     Some (case p of None \<Rightarrow> Null | Some k \<Rightarrow> Prog k) }"

definition set_line :: "u16 \<Rightarrow> 'f basic \<Rightarrow> 'f basic option" where
  "set_line n st = do {
     let st = st\<lparr>cur_line := n\<rparr>;
     p \<leftarrow> lines_contents st n;
     (_, st) \<leftarrow> tokenizer_pos p st;
     Some st }"

definition move_to_next_line :: "'f floats \<Rightarrow> 'f basic \<Rightarrow> 'f basic option" where
  "move_to_next_line F st = do {
     n \<leftarrow> lines_next (prog st) (cur_line st);
     st \<leftarrow> set_line n st;
     get_sym F st }"

fun move_to_next_statement :: "'f floats \<Rightarrow> nat \<Rightarrow> 'f basic \<Rightarrow> 'f basic option" where
  "move_to_next_statement F 0 st = None"
| "move_to_next_statement F (Suc fuel) st =
     (if sym st \<noteq> T_EOF \<and> sym st \<noteq> T_COLON
      then do { st \<leftarrow> get_sym F st; move_to_next_statement F fuel st }
      else Some st)"

subsection \<open>Statement handlers\<close>

definition do_list :: "'f floats \<Rightarrow> 'f basic \<Rightarrow> 'f basic option" where
  "do_list F st = do {
     (_, st) \<leftarrow> accept F t_keyword_list st;
     (start, end', st) \<leftarrow> (if sym st = T_NUMBER then do {
         start \<leftarrow> to_uint16 F (tokenizer_get_number (tok st));
         (_, st) \<leftarrow> accept F T_NUMBER st;
         if sym st = T_MINUS then do {
           (_, st) \<leftarrow> accept F T_MINUS st;
           if sym st = T_NUMBER then do {
             e \<leftarrow> to_uint16 F (tokenizer_get_number (tok st));
             (_, st) \<leftarrow> accept F T_NUMBER st;
             Some (start, e, st) }
           else Some (start, 0, st) }
         else Some (start, 0, st) }
       else Some (0, 0, st));
     ls \<leftarrow> lines_list (prog st) start end';
     Some (ready (fold (\<lambda>(n, s). list_out n s) ls st)) }"

definition do_clear :: "'f floats \<Rightarrow> 'f basic \<Rightarrow> 'f basic option" where
  "do_clear F st = do {
     (_, st) \<leftarrow> accept F t_keyword_clear st;
     p \<leftarrow> lines_clear (prog st);
     Some (ready (st\<lparr>prog := p\<rparr>)) }"

fun print_items :: "('f :: zero) floats \<Rightarrow> nat \<Rightarrow> 'f basic \<Rightarrow> 'f basic option" where
  "print_items F 0 st = None"
| "print_items F (Suc fuel) st =
     (if sym st \<noteq> T_EOF \<and> sym st \<noteq> T_COLON then do {
        bf \<leftarrow> find_basic_function_by_type st (sym st) basic_function_type_print;
        st \<leftarrow> (case bf of
            Some bf \<Rightarrow> do {
              (_, st) \<leftarrow> dispatch_expression F fuel (numeric_expression F fuel) (string_expression F fuel) bf st;
              Some st }
          | None \<Rightarrow> do {
              (e, st) \<leftarrow> expression F fuel st;
              expression_print F e st });
        st \<leftarrow> (if sym st = T_SEMICOLON then do { (_, st) \<leftarrow> accept F T_SEMICOLON st; Some st }
              else if sym st = T_COMMA then do { (_, st) \<leftarrow> accept F T_COMMA st; Some (putch 9 st) }
              else Some (putch 10 st));
        print_items F fuel st }
      else Some st)"

definition do_print :: "('f :: zero) floats \<Rightarrow> nat \<Rightarrow> 'f basic \<Rightarrow> 'f basic option" where
  "do_print F fuel st = do {
     (_, st) \<leftarrow> accept F t_keyword_print st;
     (_, st) \<leftarrow> accept F t_keyword_print_short st;
     if sym st = T_EOF \<or> sym st = T_COLON then Some (putch 10 st) else print_items F fuel st }"

definition do_cls :: "'f basic \<Rightarrow> 'f basic option" where
  "do_cls st = Some (basic_io_print [27, 91, 48, 59, 48, 72] (basic_io_print [27, 91, 50, 74] st))"

definition do_goto :: "'f floats \<Rightarrow> 'f basic \<Rightarrow> 'f basic option" where
  "do_goto F st = do {
     (_, st) \<leftarrow> accept F t_keyword_goto st;
     if sym st \<noteq> T_NUMBER then Some (raise ''GOTO EXPECTED NUMBER'' st)
     else do {
       i \<leftarrow> to_int F (tokenizer_get_number (tok st));
       (_, st) \<leftarrow> accept F T_NUMBER st;
       p \<leftarrow> lines_contents st (of_int i);
       if p = Null then Some (raise ''GOTO LINE NOT FOUND'' st)
       else set_line (of_int i) st } }"

text \<open>\<^verbatim>\<open>sizeof(stack_frame_gosub)\<close> and \<^verbatim>\<open>sizeof(stack_frame_for)\<close>.\<close>

definition sizeof_gosub :: nat where "sizeof_gosub = 24"
definition sizeof_for :: nat where "sizeof_for = 40"

fun frame_size :: "'f stack_frame \<Rightarrow> nat" where
  "frame_size (Gosub_frame _ _) = sizeof_gosub"
| "frame_size (For_frame _ _ _ _ _) = sizeof_for"

definition push_gosub :: "'f basic \<Rightarrow> 'f basic option" where
  "push_gosub st = do {
     (cursor, st) \<leftarrow> tokenizer_pos Null st;
     Some (st\<lparr>stack_p := stack_p st - sizeof_gosub,
       stack_frames := Gosub_frame (cur_line st) cursor # stack_frames st\<rparr>) }"

fun list_items ::
  "('f :: zero) floats \<Rightarrow> nat \<Rightarrow> nat \<Rightarrow> u64 list \<Rightarrow> nat \<Rightarrow> 'f basic \<Rightarrow> (nat \<times> u64 list \<times> 'f basic) option" where
  "list_items F 0 max_size items n st = None"
| "list_items F (Suc fuel) max_size items n st = do {
     st \<leftarrow> (if sym st = T_COMMA then do { (_, st) \<leftarrow> accept F T_COMMA st; Some st } else Some st);
     (x, st) \<leftarrow> numeric_expression F fuel st;
     k \<leftarrow> to_size F x;
     items \<leftarrow> store items n k;
     let n = n + 1;
     if n > max_size then Some (n, items, raise ''LIST MAX SIZE'' st)
     else if sym st = T_COMMA then list_items F fuel max_size items n st
     else Some (n, items, st) }"

definition get_list ::
  "('f :: zero) floats \<Rightarrow> nat \<Rightarrow> nat \<Rightarrow> 'f basic \<Rightarrow> (nat \<times> u64 list \<times> 'f basic) option" where
  "get_list F fuel max_size st = list_items F fuel max_size (replicate max_size 0) 0 st"

text \<open>An index below 1 is compared as \<^verbatim>\<open>size_t\<close>: negative ones are out of bounds, 0 reads \<^verbatim>\<open>list[-1]\<close>.\<close>

definition do_on_goto :: "('f :: zero) floats \<Rightarrow> nat \<Rightarrow> 'f basic \<Rightarrow> 'f basic option" where
  "do_on_goto F fuel st = do {
     (_, st) \<leftarrow> accept F t_keyword_on st;
     (x, st) \<leftarrow> numeric_expression F fuel st;
     index \<leftarrow> to_int F x;
     if sym st \<noteq> t_keyword_goto \<and> sym st \<noteq> t_keyword_gosub
     then Some (raise ''ON WITHOUT GOTO OR GOSUB'' st)
     else do {
       let what = sym st;
       (_, st) \<leftarrow> accept F what st;
       (n, items, st) \<leftarrow> get_list F fuel 10 st;
       if index < 0 \<or> index > int n then Some (raise ''ON OUT OF BOUNDS'' st)
       else if index = 0 then None
       else do {
         k \<leftarrow> load items (nat (index - 1));
         let line_number = (ucast k :: u16);
         if what = t_keyword_goto then do {
           p \<leftarrow> lines_contents st line_number;
           set_line line_number (if p = Null then raise ''LINE NOT FOUND'' st else st) }
         else if stack_p st < sizeof_gosub then Some (raise ''STACK FULL'' st)
         else do { st \<leftarrow> push_gosub st; set_line line_number st } } } }"

definition do_gosub :: "'f floats \<Rightarrow> 'f basic \<Rightarrow> 'f basic option" where
  "do_gosub F st = do {
     (_, st) \<leftarrow> accept F t_keyword_gosub st;
     if sym st \<noteq> T_NUMBER then Some (raise ''EXPECTED NUMBER'' st)
     else do {
       i \<leftarrow> to_int F (tokenizer_get_number (tok st));
       (_, st) \<leftarrow> accept F T_NUMBER st;
       if stack_p st < sizeof_gosub then Some (raise ''STACK FULL'' st)
       else do { st \<leftarrow> push_gosub st; set_line (of_int i) st } } }"

text \<open>With an empty stack the frame is read behind the end of the stack block.\<close>

definition do_return :: "'f floats \<Rightarrow> 'f basic \<Rightarrow> 'f basic option" where
  "do_return F st = do {
     (_, st) \<leftarrow> accept F t_keyword_return st;
     (case stack_frames st of
        [] \<Rightarrow> None
      | For_frame _ _ _ _ _ # _ \<Rightarrow> Some (raise ''EXPECTED GOSUB STACK FRAME'' st)
      | Gosub_frame line cursor # frames \<Rightarrow> do {
          (_, st) \<leftarrow> tokenizer_pos cursor (st\<lparr>cur_line := line\<rparr>);
          Some (st\<lparr>stack_p := stack_p st + sizeof_gosub, stack_frames := frames\<rparr>) }) }"

definition push_for :: "cstring \<Rightarrow> 'f \<Rightarrow> 'f \<Rightarrow> 'f basic \<Rightarrow> 'f basic option" where
  "push_for name end_value step st = do {
     (cursor, st) \<leftarrow> tokenizer_pos Null st;
     Some (st\<lparr>stack_p := stack_p st - sizeof_for,
       stack_frames := For_frame name end_value step (cur_line st) cursor # stack_frames st\<rparr>) }"

definition do_for :: "('f :: zero) floats \<Rightarrow> nat \<Rightarrow> 'f basic \<Rightarrow> 'f basic option" where
  "do_for F fuel st = do {
     (_, st) \<leftarrow> accept F t_keyword_for st;
     if sym st \<noteq> T_VARIABLE_NUMBER then Some (raise ''EXPECTED VAR'' st)
     else do {
       name \<leftarrow> tokenizer_get_variable_name (tok st);
       st \<leftarrow> get_sym F st;
       (_, st) \<leftarrow> expect F T_EQUALS st;
       (x, st) \<leftarrow> numeric_expression F fuel st;
       let st = st\<lparr>vars := snd (variable_set_numeric (vars st) name x)\<rparr>;
       (_, st) \<leftarrow> expect F t_keyword_to st;
       (end_value, st) \<leftarrow> numeric_expression F fuel st;
       (step, st) \<leftarrow> (if sym st \<noteq> T_EOF \<and> sym st \<noteq> T_COLON
           then do { (_, st) \<leftarrow> expect F t_keyword_step st; numeric_expression F fuel st }
           else Some (f_of_int F 1, st));
       if stack_p st < sizeof_for then Some (raise ''STACK FULL'' st)
       else push_for name end_value step st } }"

definition do_next :: "('f :: zero) floats \<Rightarrow> 'f basic \<Rightarrow> 'f basic option" where
  "do_next F st = do {
     (_, st) \<leftarrow> accept F t_keyword_next st;
     (case stack_frames st of
        [] \<Rightarrow> None
      | Gosub_frame _ _ # _ \<Rightarrow> Some (raise ''EXPECTED FOR STACK FRAME'' st)
      | For_frame name end_value step line cursor # frames \<Rightarrow> do {
          (wrong, var_name, st) \<leftarrow> (if sym st = T_VARIABLE_NUMBER then do {
              var_name \<leftarrow> tokenizer_get_variable_name (tok st);
              (_, st) \<leftarrow> accept F T_VARIABLE_NUMBER st;
              Some (var_name \<noteq> name, var_name, st) }
            else Some (False, [], st));
          if wrong
          then Some (raise (take 31 (''EXPECTED NEXT WITH '' @ chars_of var_name @ '', GOT '' @ chars_of name)) st)
          else do {
            (x, vs) \<leftarrow> variable_get_numeric (vars st) name;
            let st = st\<lparr>vars := vs\<rparr>;
            let x = f_add F x step;
            if f_gt0 F step \<and> f_lt F end_value x \<or> f_lt0 F step \<and> f_lt F x end_value
            then Some (st\<lparr>stack_p := stack_p st + sizeof_for, stack_frames := frames\<rparr>)
            else do {
              let st = st\<lparr>vars := snd (variable_set_numeric (vars st) name x), cur_line := line\<rparr>;
              (_, st) \<leftarrow> tokenizer_pos cursor st;
              Some st } } }) }"

definition do_end :: "'f basic \<Rightarrow> 'f basic option" where
  "do_end st = Some (st\<lparr>RUNNING := False\<rparr>)"

definition do_rem :: "'f floats \<Rightarrow> 'f basic \<Rightarrow> 'f basic option" where
  "do_rem F st = do {
     (_, st) \<leftarrow> accept F t_keyword_rem st;
     n \<leftarrow> lines_next (prog st) (cur_line st);
     st \<leftarrow> set_line n st;
     get_sym F st }"

fun dim_items :: "('f :: zero) floats \<Rightarrow> nat \<Rightarrow> 'f basic \<Rightarrow> 'f basic option" where
  "dim_items F 0 st = None"
| "dim_items F (Suc fuel) st =
     (if sym st \<noteq> T_EOF \<and> sym st \<noteq> T_COLON then do {
        st \<leftarrow> (if sym st = T_VARIABLE_NUMBER \<or> sym st = T_VARIABLE_STRING then do {
            let type = (if sym st = T_VARIABLE_STRING then variable_type_string else variable_type_numeric);
            name \<leftarrow> tokenizer_get_variable_name (tok st);
            name \<leftarrow> array_name name;
            (_, st) \<leftarrow> accept F (sym st) st;
            (_, st) \<leftarrow> expect F T_LEFT_BANANA st;
            (dims, vector, st) \<leftarrow> get_vector F (numeric_expression F fuel) fuel 5 st;
            (_, st) \<leftarrow> expect F T_RIGHT_BANANA st;
            (_, vs) \<leftarrow> variable_array_init (vars st) name type dims vector;
            Some (st\<lparr>vars := vs\<rparr>) }
          else Some st);
        st \<leftarrow> (if sym st = T_COMMA then do { (_, st) \<leftarrow> accept F T_COMMA st; Some st } else Some st);
        dim_items F fuel st }
      else Some st)"

definition do_dim :: "('f :: zero) floats \<Rightarrow> nat \<Rightarrow> 'f basic \<Rightarrow> 'f basic option" where
  "do_dim F fuel st = do { (_, st) \<leftarrow> accept F t_keyword_dim st; dim_items F fuel st }"

subsection \<open>DATA and READ\<close>

definition do_data :: "'f floats \<Rightarrow> nat \<Rightarrow> 'f basic \<Rightarrow> 'f basic option" where
  "do_data F fuel st = do {
     (_, st) \<leftarrow> accept F t_keyword_data st;
     move_to_next_statement F fuel st }"

definition data_value :: "variable_type \<Rightarrow> 'f basic \<Rightarrow> 'f variable_value option" where
  "data_value type st =
     (if type = variable_type_string then map_option Str (tokenizer_get_string (tok st))
      else Some (Num (tokenizer_get_number (tok st))))"

definition start_at :: "ptr \<Rightarrow> 'f basic \<Rightarrow> 'f basic" where
  "start_at p st = st\<lparr>tok := tokenizer_init (tok st) p\<rparr>"

text \<open>The inner loop of \<^verbatim>\<open>_data_find\<close>: to the next \<^verbatim>\<open>DATA\<close> keyword of the line.\<close>

fun find_data_keyword :: "'f floats \<Rightarrow> nat \<Rightarrow> 'f basic \<Rightarrow> (bool \<times> 'f basic) option" where
  "find_data_keyword F 0 st = None"
| "find_data_keyword F (Suc fuel) st =
     (if sym st = T_EOF then Some (False, st)
      else if sym st = t_keyword_data then do {
        (_, st) \<leftarrow> accept F t_keyword_data st;
        Some (True, st) }
      else do { st \<leftarrow> get_sym F st; find_data_keyword F fuel st })"

fun data_find_loop ::
  "'f floats \<Rightarrow> nat \<Rightarrow> variable_type \<Rightarrow> 'f basic \<Rightarrow> ('f variable_value option \<times> 'f basic) option" where
  "data_find_loop F 0 type st = None"
| "data_find_loop F (Suc fuel) type st =
     (if data_cursor (data_ptr st) \<noteq> Null then do {
        st \<leftarrow> get_sym F st;
        (found, st) \<leftarrow> find_data_keyword F fuel st;
        if found then do {
          v \<leftarrow> data_value type st;
          (p, st) \<leftarrow> tokenizer_pos Null st;
          Some (Some v, st\<lparr>data_ptr := (data_ptr st)\<lparr>data_state_of := data_state_read, data_char_pointer := p\<rparr>\<rparr>) }
        else do {
          n \<leftarrow> lines_next (prog st) (data_line (data_ptr st));
          p \<leftarrow> lines_contents st n;
          let st = st\<lparr>data_ptr := (data_ptr st)\<lparr>data_line := n, data_cursor := p\<rparr>\<rparr>;
          data_find_loop F fuel type (start_at p st) } }
      else Some (None, st))"

definition data_find ::
  "'f floats \<Rightarrow> nat \<Rightarrow> variable_type \<Rightarrow> 'f basic \<Rightarrow> ('f variable_value option \<times> 'f basic) option" where
  "data_find F fuel type st = do {
     (_, st) \<leftarrow> tokenizer_pos (data_char_pointer (data_ptr st)) (start_at (data_cursor (data_ptr st)) st);
     data_find_loop F fuel type st }"

definition data_read ::
  "'f floats \<Rightarrow> variable_type \<Rightarrow> 'f basic \<Rightarrow> ('f variable_value option \<times> 'f basic) option" where
  "data_read F type st = do {
     (_, st) \<leftarrow> tokenizer_pos (data_char_pointer (data_ptr st)) (start_at (data_cursor (data_ptr st)) st);
     st \<leftarrow> get_sym F st;
     if sym st \<noteq> T_EOF then do {
       (_, st) \<leftarrow> accept F T_COMMA st;
       v \<leftarrow> data_value type st;
       (p, st) \<leftarrow> tokenizer_pos Null st;
       Some (Some v, st\<lparr>data_ptr := (data_ptr st)\<lparr>data_char_pointer := p\<rparr>\<rparr>) }
     else do {
       p \<leftarrow> lines_contents st (data_line (data_ptr st));
       Some (None, st\<lparr>data_ptr := (data_ptr st)\<lparr>data_cursor := p\<rparr>\<rparr>) } }"

definition do_data_read ::
  "'f floats \<Rightarrow> nat \<Rightarrow> variable_type \<Rightarrow> 'f basic \<Rightarrow> ('f variable_value option \<times> 'f basic) option" where
  "do_data_read F fuel type st = do {
     (save_pointer, st) \<leftarrow> tokenizer_pos Null st;
     (rv, st) \<leftarrow> (case data_state_of (data_ptr st) of
         data_state_init \<Rightarrow> do {
           n \<leftarrow> lines_first (prog st);
           p \<leftarrow> lines_contents st n;
           (q, st) \<leftarrow> tokenizer_pos Null st;
           data_find F fuel type (st\<lparr>data_ptr := \<lparr>data_line = n, data_cursor = p,
             data_char_pointer = q, data_state_of = data_state_find\<rparr>\<rparr>) }
       | data_state_find \<Rightarrow> data_find F fuel type st
       | data_state_read \<Rightarrow> do {
           (v, st) \<leftarrow> data_read F type st;
           if v \<noteq> None then Some (v, st) else data_find F fuel type st });
     (_, st) \<leftarrow> tokenizer_pos save_pointer (start_at (cur_cursor st) st);
     Some (rv, st) }"

text \<open>Assignment of a value to a variable or to an element of an array.\<close>

definition assign ::
  "bool \<Rightarrow> cstring \<Rightarrow> u64 list \<Rightarrow> 'f variable_value \<Rightarrow> 'f basic \<Rightarrow> 'f basic option" where
  "assign arr name vector v st = (case v of
       Str s \<Rightarrow>
         if arr then do {
           (_, vs) \<leftarrow> variable_array_set_string (vars st) name s vector;
           Some (st\<lparr>vars := vs\<rparr>) }
         else do {
           (_, vs) \<leftarrow> variable_set_string (vars st) name s;
           Some (st\<lparr>vars := vs\<rparr>) }
     | Num x \<Rightarrow>
         if arr then do {
           (_, vs) \<leftarrow> variable_array_set_numeric (vars st) name x vector;
           Some (st\<lparr>vars := vs\<rparr>) }
         else Some (st\<lparr>vars := snd (variable_set_numeric (vars st) name x)\<rparr>))"

text \<open>\<^verbatim>\<open>is_array\<close> and \<^verbatim>\<open>vector\<close> are declared outside of the loop and keep their values from one variable
  to the next.\<close>

fun read_items ::
  "('f :: zero) floats \<Rightarrow> nat \<Rightarrow> bool \<Rightarrow> u64 list \<Rightarrow> 'f basic \<Rightarrow> 'f basic option" where
  "read_items F 0 arr vector st = None"
| "read_items F (Suc fuel) arr vector st =
     (if sym st \<noteq> T_EOF \<and> sym st \<noteq> T_COLON then do {
        (stop, arr, vector, st) \<leftarrow>
          (if sym st = T_VARIABLE_NUMBER \<or> sym st = T_VARIABLE_STRING then do {
             let type = (if sym st = T_VARIABLE_STRING then variable_type_string else variable_type_numeric);
             name \<leftarrow> tokenizer_get_variable_name (tok st);
             (_, st) \<leftarrow> accept F (sym st) st;
             (arr, name, vector, st) \<leftarrow> (if sym st = T_LEFT_BANANA then do {
                 name \<leftarrow> array_name name;
                 (_, st) \<leftarrow> accept F T_LEFT_BANANA st;
                 (_, vector, st) \<leftarrow> get_vector F (numeric_expression F fuel) fuel 5 st;
                 (_, st) \<leftarrow> expect F T_RIGHT_BANANA st;
                 Some (True, name, vector, st) }
               else Some (arr, name, vector, st));
             (v, st) \<leftarrow> do_data_read F fuel type st;
             (case v of
                None \<Rightarrow> Some (True, arr, vector, raise ''READ WITHOUT DATA'' st)
              | Some v \<Rightarrow> do {
                  st \<leftarrow> assign arr name vector v st;
                  Some (False, arr, vector, st) }) }
           else Some (False, arr, vector, st));
        if stop then Some st
        else do {
          st \<leftarrow> get_sym F st;
          (_, st) \<leftarrow> accept F T_COMMA st;
          read_items F fuel arr vector st } }
      else Some st)"

definition do_read :: "('f :: zero) floats \<Rightarrow> nat \<Rightarrow> 'f basic \<Rightarrow> 'f basic option" where
  "do_read F fuel st = do {
     (_, st) \<leftarrow> accept F t_keyword_read st;
     read_items F fuel False [] st }"

definition do_restore :: "'f floats \<Rightarrow> 'f basic \<Rightarrow> 'f basic option" where
  "do_restore F st = do {
     (_, st) \<leftarrow> accept F t_keyword_restore st;
     Some (st\<lparr>data_ptr := (data_ptr st)\<lparr>data_line := 0, data_cursor := Null, data_state_of := data_state_init\<rparr>\<rparr>) }"

subsection \<open>Files\<close>

definition is_comment :: "cstring \<Rightarrow> bool" where
  "is_comment s \<longleftrightarrow> (case s of [] \<Rightarrow> False | c # _ \<Rightarrow> c = 35)"

definition is_empty :: "cstring \<Rightarrow> bool" where
  "is_empty s \<longleftrightarrow> list_all isspace s"

definition trim :: "cstring \<Rightarrow> cstring" where
  "trim s = rev (dropWhile isspace (rev s))"

text \<open>\<^verbatim>\<open>sscanf\<close> with \<^verbatim>\<open>%d\<close>: white space, an optional sign and digits.  Without a digit nothing is
  converted, and a number that does not fit is undefined.\<close>

definition digits_value :: "cstring \<Rightarrow> int" where
  "digits_value ds = foldl (\<lambda>n d. 10 * n + (uint d - 48)) 0 ds"

definition scan_int :: "cstring \<Rightarrow> int option" where
  "scan_int s =
     (let s = dropWhile isspace s;
          (neg, s) = (case s of [] \<Rightarrow> (False, s) | c # cs \<Rightarrow>
            if c = 45 then (True, cs) else if c = 43 then (False, cs) else (False, s));
          ds = takeWhile isdigit s;
          n = (if neg then - digits_value ds else digits_value ds)
      in if ds = [] \<or> n < - (2 ^ 31) \<or> n \<ge> 2 ^ 31 then None else Some n)"

definition store_line :: "cstring \<Rightarrow> 'f basic \<Rightarrow> 'f basic option" where
  "store_line line st = do {
     number \<leftarrow> scan_int line;
     (_, p) \<leftarrow> lines_store (prog st) (of_int number) (trim (dropWhile isspace (dropWhile isdigit line)));
     Some (st\<lparr>prog := p\<rparr>) }"

definition load_cb :: "cstring \<Rightarrow> 'f basic \<Rightarrow> 'f basic option" where
  "load_cb line st = (if \<not> (is_empty line \<or> is_comment line) then store_line line st else Some st)"

text \<open>The strings that calls of \<^verbatim>\<open>fgets\<close> with a buffer of \<open>n + 1\<close> bytes read from a file: up to a new line
  or \<open>n\<close> bytes; the string ends at the first null byte.\<close>

fun fgets_take :: "nat \<Rightarrow> byte list \<Rightarrow> byte list \<times> byte list" where
  "fgets_take 0 cs = ([], cs)"
| "fgets_take (Suc n) [] = ([], [])"
| "fgets_take (Suc n) (c # cs) =
     (if c = 10 then ([c], cs) else (case fgets_take n cs of (l, rest) \<Rightarrow> (c # l, rest)))"

lemma fgets_take_length: "length (snd (fgets_take n cs)) \<le> length cs"
  by (induction n cs rule: fgets_take.induct) (auto split: prod.splits)

lemma fgets_take_shorter: "(l, rest) = fgets_take (Suc n) (c # cs) \<Longrightarrow> length rest < Suc (length cs)"
  using fgets_take_length [of n cs] by (auto split: if_splits prod.splits)

function fgets_lines :: "nat \<Rightarrow> byte list \<Rightarrow> cstring list" where
  "fgets_lines n [] = []"
| "fgets_lines n (c # cs) =
     (case fgets_take (Suc n) (c # cs) of (l, rest) \<Rightarrow> takeWhile (\<lambda>c. c \<noteq> 0) l # fgets_lines n rest)"
  by pat_completeness auto
termination
  by (relation "measure (\<lambda>(n, cs). length cs)") (auto simp del: fgets_take.simps dest: fgets_take_shorter)

fun fold_lines :: "(cstring \<Rightarrow> 's \<Rightarrow> 's option) \<Rightarrow> cstring list \<Rightarrow> 's \<Rightarrow> 's option" where
  "fold_lines cb [] st = Some st"
| "fold_lines cb (l # ls) st = do { st \<leftarrow> cb l st; fold_lines cb ls st }"

definition arch_load :: "'f floats \<Rightarrow> cstring \<Rightarrow> 'f basic \<Rightarrow> (int \<times> 'f basic) option" where
  "arch_load F filename st =
     (case file_contents F filename of
        None \<Rightarrow> Some (1, st)
      | Some cs \<Rightarrow> do { st \<leftarrow> fold_lines load_cb (fgets_lines 254 cs) st; Some (0, st) })"

definition arch_save :: "cstring \<Rightarrow> int" where "arch_save filename = 1"
definition arch_dir :: int where "arch_dir = 1"
definition arch_delete :: "cstring \<Rightarrow> int" where "arch_delete filename = 1"

text \<open>The file name is a pointer to the string of the tokenizer, so it is read after the next token.\<close>

definition do_load :: "'f floats \<Rightarrow> 'f basic \<Rightarrow> 'f basic option" where
  "do_load F st = do {
     (_, st) \<leftarrow> accept F t_keyword_load st;
     if sym st \<noteq> T_STRING then Some (raise ''EXPECTED LITERAL STRING'' st)
     else do {
       (_, st) \<leftarrow> accept F T_STRING st;
       p \<leftarrow> lines_clear (prog st);
       filename \<leftarrow> tokenizer_get_string (tok st);
       (_, st) \<leftarrow> arch_load F filename (st\<lparr>prog := p\<rparr>);
       Some (ready st) } }"

definition do_save :: "'f floats \<Rightarrow> 'f basic \<Rightarrow> 'f basic option" where
  "do_save F st = do {
     (_, st) \<leftarrow> accept F t_keyword_save st;
     if sym st \<noteq> T_STRING then Some (raise ''EXPECTED LITERAL STRING'' st)
     else do {
       (_, st) \<leftarrow> accept F T_STRING st;
       number \<leftarrow> lines_first (prog st);
       filename \<leftarrow> tokenizer_get_string (tok st);
       let status = arch_save filename;
       Some (ready st) } }"

definition do_delete :: "'f floats \<Rightarrow> 'f basic \<Rightarrow> 'f basic option" where
  "do_delete F st = do {
     (_, st) \<leftarrow> accept F t_keyword_delete st;
     if sym st \<noteq> T_STRING then Some (raise ''EXPECTED LITERAL STRING'' st)
     else do {
       (_, st) \<leftarrow> accept F T_STRING st;
       filename \<leftarrow> tokenizer_get_string (tok st);
       let status = arch_delete filename;
       Some (ready st) } }"

definition do_dir :: "'f floats \<Rightarrow> 'f basic \<Rightarrow> 'f basic option" where
  "do_dir F st = do {
     (_, st) \<leftarrow> accept F t_keyword_dir st;
     let status = arch_dir;
     Some (ready st) }"

subsection \<open>RUN, IF, LET, INPUT and GET\<close>

type_synonym 'f line_parser = "'f basic \<Rightarrow> 'f basic option"

fun run_loop :: "'f floats \<Rightarrow> 'f line_parser \<Rightarrow> nat \<Rightarrow> 'f basic \<Rightarrow> 'f basic option" where
  "run_loop F parse 0 st = None"
| "run_loop F parse (Suc fuel) st =
     (if cur_cursor st \<noteq> Null \<and> RUNNING st then do {
        st \<leftarrow> get_sym F st;
        (stop, st) \<leftarrow> (if sym st = T_EOF then do {
            n \<leftarrow> lines_next (prog st) (cur_line st);
            p \<leftarrow> lines_contents st n;
            let st = st\<lparr>cur_line := n, cur_cursor := p\<rparr>;
            if p = Null then Some (True, st\<lparr>RUNNING := False\<rparr>) else Some (False, start_at p st) }
          else Some (False, st));
        if stop then Some st else do { st \<leftarrow> parse st; run_loop F parse fuel st } }
      else Some st)"

definition do_run :: "'f floats \<Rightarrow> 'f line_parser \<Rightarrow> nat \<Rightarrow> 'f basic \<Rightarrow> 'f basic option" where
  "do_run F parse fuel st = do {
     n \<leftarrow> lines_first (prog st);
     p \<leftarrow> lines_contents st n;
     let st = start_at p (st\<lparr>cur_line := n, cur_cursor := p\<rparr>);
     st \<leftarrow> run_loop F parse fuel (st\<lparr>RUNNING := True, STOPPED := False\<rparr>);
     Some (ready st) }"

text \<open>A side of the wrong type is an error, and its value is then read as the other type.\<close>

definition condition ::
  "'f floats \<Rightarrow> 'f variable_value \<Rightarrow> 'f variable_value \<Rightarrow> relop \<Rightarrow> 'f basic \<Rightarrow> (bool \<times> 'f basic) option" where
  "condition F left right op st =
     (case (left, right) of
        (Num a, Num b) \<Rightarrow> Some (numeric_condition F a b op st)
      | (Str a, Str b) \<Rightarrow> Some (string_condition a b op st)
      | _ \<Rightarrow> None)"

definition do_if :: "('f :: zero) floats \<Rightarrow> 'f line_parser \<Rightarrow> nat \<Rightarrow> 'f basic \<Rightarrow> 'f basic option" where
  "do_if F parse fuel st = do {
     (left, st) \<leftarrow> expression F fuel st;
     (result, st) \<leftarrow> (case left of
         Str _ \<Rightarrow> do {
           (op, st) \<leftarrow> get_relop F st;
           (right, st) \<leftarrow> expression F fuel st;
           condition F left right op st }
       | Num x \<Rightarrow> Some (f_eq F x (f_of_int F 1), st));
     if sym st \<noteq> t_keyword_then then Some (raise ''IF WITHOUT THEN'' st)
     else if result then do {
       st \<leftarrow> get_sym F st;
       if sym st = T_NUMBER then do {
         let line_number = tokenizer_get_number (tok st);
         (_, st) \<leftarrow> accept F T_NUMBER st;
         n \<leftarrow> to_uint16 F line_number;
         set_line n st }
       else parse st }
     else move_to_next_line F st }"

definition do_let :: "('f :: zero) floats \<Rightarrow> nat \<Rightarrow> 'f basic \<Rightarrow> 'f basic option" where
  "do_let F fuel st =
     (if sym st \<noteq> T_VARIABLE_NUMBER \<and> sym st \<noteq> T_VARIABLE_STRING then Some (raise ''EXPECTED VAR'' st)
      else do {
        name \<leftarrow> tokenizer_get_variable_name (tok st);
        let type = sym st;
        st \<leftarrow> get_sym F st;
        (arr, name, vector, st) \<leftarrow> (if sym st = T_LEFT_BANANA then do {
            name \<leftarrow> array_name name;
            (_, st) \<leftarrow> accept F T_LEFT_BANANA st;
            (_, vector, st) \<leftarrow> get_vector F (numeric_expression F fuel) fuel 5 st;
            (_, st) \<leftarrow> expect F T_RIGHT_BANANA st;
            Some (True, name, vector, st) }
          else Some (False, name, [], st));
        (_, st) \<leftarrow> expect F T_EQUALS st;
        if type = T_VARIABLE_NUMBER then do {
          (x, st) \<leftarrow> numeric_expression F fuel st;
          assign arr name vector (Num x) st }
        else do {
          (s, st) \<leftarrow> string_expression F fuel st;
          s \<leftarrow> s;
          assign arr name vector (Str s) st } })"

definition getch :: "'f basic \<Rightarrow> (int \<times> 'f basic) option" where
  "getch st = (case inp st of [] \<Rightarrow> None | c # cs \<Rightarrow> Some (c, st\<lparr>inp := cs\<rparr>))"

definition toupper :: "byte \<Rightarrow> byte" where
  "toupper c = (if 97 \<le> c \<and> c \<le> 122 then c - 32 else c)"

text \<open>The bytes before \<^verbatim>\<open>len\<close> in the buffer; neither \<^verbatim>\<open>ARCH\<close> nor \<^verbatim>\<open>ARCH_XMEGA\<close> is defined in this build, so
  the preprocessor compares 0 with 0 and keeps \<^verbatim>\<open>toupper\<close>.\<close>

fun readline_loop :: "nat \<Rightarrow> nat \<Rightarrow> cstring \<Rightarrow> 'f basic \<Rightarrow> (cstring \<times> 'f basic) option" where
  "readline_loop 0 buffer_size acc st = None"
| "readline_loop (Suc fuel) buffer_size acc st = do {
     (i, st) \<leftarrow> getch st;
     let ch = (of_int i :: byte);
     if ch \<noteq> 10 \<and> length acc < buffer_size - 1
     then let ch = toupper ch in
       readline_loop fuel buffer_size (if ch = 8 then butlast acc else acc @ [ch]) st
     else Some (takeWhile (\<lambda>c. c \<noteq> 0) acc, st) }"

definition basic_io_readline :: "nat \<Rightarrow> string \<Rightarrow> nat \<Rightarrow> 'f basic \<Rightarrow> (cstring \<times> 'f basic) option" where
  "basic_io_readline fuel prompt buffer_size st =
     readline_loop fuel buffer_size [] (basic_io_print (ascii prompt) st)"

definition do_input :: "('f :: zero) floats \<Rightarrow> nat \<Rightarrow> 'f basic \<Rightarrow> 'f basic option" where
  "do_input F fuel st = do {
     (expr, st) \<leftarrow> (if sym st \<noteq> T_VARIABLE_NUMBER \<and> sym st \<noteq> T_VARIABLE_STRING then do {
         (e, st) \<leftarrow> expression F fuel st;
         st \<leftarrow> (if sym st = T_COMMA \<or> sym st = T_SEMICOLON then get_sym F st
               else Some (raise ''UNEXPECTED TOKEN'' st));
         Some (Some e, st) }
       else Some (None, st));
     if sym st \<noteq> T_VARIABLE_NUMBER \<and> sym st \<noteq> T_VARIABLE_STRING then Some (raise ''EXPECTED VAR'' st)
     else do {
       let type = sym st;
       name \<leftarrow> tokenizer_get_variable_name (tok st);
       (_, st) \<leftarrow> accept F type st;
       st \<leftarrow> (case expr of Some e \<Rightarrow> expression_print F e st | None \<Rightarrow> Some st);
       (line, st) \<leftarrow> basic_io_readline fuel (if expr \<noteq> None then '' '' else ''? '') tokenizer_string_length st;
       assign False name []
         (if type = T_VARIABLE_NUMBER then Num (f_strtof F line) else Str line) st } }"

definition do_get :: "'f floats \<Rightarrow> 'f basic \<Rightarrow> 'f basic option" where
  "do_get F st =
     (if sym st \<noteq> T_VARIABLE_STRING then Some (raise ''EXPECTED STRING VAR'' st)
      else do {
        name \<leftarrow> tokenizer_get_variable_name (tok st);
        (_, st) \<leftarrow> accept F T_VARIABLE_STRING st;
        (ch, st) \<leftarrow> getch st;
        let c = (of_int (if ch = 10 then 13 else ch) :: byte);
        assign False name [] (Str (if c = 0 then [] else [c])) st })"

definition dump :: "'f basic \<Rightarrow> 'f basic option" where
  "dump st = (let calls = variables_each (vars st) in Some st)"

subsection \<open>Statements and lines\<close>

text \<open>The registered keywords without arguments.\<close>

definition call_keyword ::
  "('f :: zero) floats \<Rightarrow> 'f line_parser \<Rightarrow> nat \<Rightarrow> fn \<Rightarrow> 'f basic \<Rightarrow> 'f basic option" where
  "call_keyword F parse fuel f st = (case f of
       Do_list \<Rightarrow> do_list F st
     | Do_clear \<Rightarrow> do_clear F st
     | Do_goto \<Rightarrow> do_goto F st
     | Do_on_goto \<Rightarrow> do_on_goto F fuel st
     | Do_gosub \<Rightarrow> do_gosub F st
     | Do_return \<Rightarrow> do_return F st
     | Do_run \<Rightarrow> do_run F parse fuel st
     | Do_if \<Rightarrow> do_if F parse fuel st
     | Do_for \<Rightarrow> do_for F fuel st
     | Do_next \<Rightarrow> do_next F st
     | Do_end \<Rightarrow> do_end st
     | Do_rem \<Rightarrow> do_rem F st
     | Do_dim \<Rightarrow> do_dim F fuel st
     | Do_data \<Rightarrow> do_data F fuel st
     | Do_read \<Rightarrow> do_read F fuel st
     | Do_restore \<Rightarrow> do_restore F st
     | Do_load \<Rightarrow> do_load F st
     | Do_save \<Rightarrow> do_save F st
     | Do_delete \<Rightarrow> do_delete F st
     | Do_dir \<Rightarrow> do_dir F st
     | Do_let \<Rightarrow> do_let F fuel st
     | Do_input \<Rightarrow> do_input F fuel st
     | Do_get \<Rightarrow> do_get F st
     | Do_print \<Rightarrow> do_print F fuel st
     | Do_cls \<Rightarrow> do_cls st
     | Dump \<Rightarrow> dump st
     | _ \<Rightarrow> None)"

definition statement ::
  "('f :: zero) floats \<Rightarrow> 'f line_parser \<Rightarrow> nat \<Rightarrow> 'f basic \<Rightarrow> (bool \<times> 'f basic) option" where
  "statement F parse fuel st = do {
     st \<leftarrow> (if sym st = T_ERROR then Some (raise ''STATEMENT ERROR'' st)
           else do {
             bf \<leftarrow> find_basic_function_by_type st (sym st) basic_function_type_keyword;
             (case bf of
                Some bf \<Rightarrow> do {
                  (_, st) \<leftarrow> basic_dispatch_function F fuel (numeric_expression F fuel)
                    (string_expression F fuel) (call_keyword F parse fuel) bf st;
                  Some st }
              | None \<Rightarrow> do_let F fuel st) });
     Some (last_error (vars st) = None, st) }"

fun parse_line :: "('f :: zero) floats \<Rightarrow> nat \<Rightarrow> 'f basic \<Rightarrow> 'f basic option" where
  "parse_line F 0 st = None"
| "parse_line F (Suc fuel) st =
     (if sym st \<noteq> T_EOF \<and> sym st \<noteq> T_COLON then do {
        (ok, st) \<leftarrow> statement F (parse_line F fuel) fuel st;
        if ok then parse_line F fuel st else Some st }
      else Some st)"

subsection \<open>Registration and initialisation\<close>

datatype registration =
    Token string
  | Function basic_function_type string fn "kind list"

definition register_token :: "nat \<Rightarrow> string \<Rightarrow> 'f basic \<Rightarrow> (token \<times> 'f basic) option" where
  "register_token k name st = do {
     t \<leftarrow> tokenizer_register_token (tok st) \<lparr>te_token = basic_token_id k, te_name = Some (ascii name)\<rparr>;
     Some (basic_token_id k, st\<lparr>tok := t\<rparr>) }"

text \<open>\<^verbatim>\<open>register_function_0\<close> to \<^verbatim>\<open>register_function_5\<close>: the number of arguments is the number of kinds.\<close>

definition register_function ::
  "nat \<Rightarrow> basic_function_type \<Rightarrow> string \<Rightarrow> fn \<Rightarrow> kind list \<Rightarrow> 'f basic \<Rightarrow> (token \<times> 'f basic) option" where
  "register_function k type keyword f kinds st = do {
     (t, st) \<leftarrow> register_token k keyword st;
     a \<leftarrow> array_push (basic_functions st) \<lparr>bf_token = t, bf_type = type,
       bf_nr_arguments = length kinds, bf_kinds = kinds, bf_function = f\<rparr>;
     Some (t, st\<lparr>basic_functions := a\<rparr>) }"

fun register_entry :: "nat \<Rightarrow> registration \<Rightarrow> 'f basic \<Rightarrow> (token \<times> 'f basic) option" where
  "register_entry k (Token name) st = register_token k name st"
| "register_entry k (Function type name f kinds) st = register_function k type name f kinds st"

fun register_entries :: "nat \<Rightarrow> registration list \<Rightarrow> 'f basic \<Rightarrow> 'f basic option" where
  "register_entries k [] st = Some st"
| "register_entries k (r # rs) st = do {
     (_, st) \<leftarrow> register_entry k r st;
     register_entries (Suc k) rs st }"

abbreviation keyword :: "string \<Rightarrow> fn \<Rightarrow> registration" where
  "keyword name f \<equiv> Function basic_function_type_keyword name f []"

abbreviation numeric_fn :: "string \<Rightarrow> fn \<Rightarrow> kind list \<Rightarrow> registration" where
  "numeric_fn name f kinds \<equiv> Function basic_function_type_numeric name f kinds"

abbreviation string_fn :: "string \<Rightarrow> fn \<Rightarrow> kind list \<Rightarrow> registration" where
  "string_fn name f kinds \<equiv> Function basic_function_type_string name f kinds"

definition registrations :: "registration list" where
  "registrations =
    [keyword ''LIST'' Do_list, keyword ''CLEAR'' Do_clear, keyword ''NEW'' Do_clear,
     keyword ''GOTO'' Do_goto, keyword ''ON'' Do_on_goto, keyword ''GOSUB'' Do_gosub,
     keyword ''RETURN'' Do_return, keyword ''RUN'' Do_run, keyword ''IF'' Do_if, Token ''THEN'',
     keyword ''FOR'' Do_for, Token ''TO'', Token ''STEP'', keyword ''NEXT'' Do_next,
     keyword ''END'' Do_end, keyword ''STOP'' Do_end, keyword ''REM'' Do_rem,
     keyword ''DIM'' Do_dim, keyword ''DATA'' Do_data, keyword ''READ'' Do_read,
     keyword ''RESTORE'' Do_restore, keyword ''LOAD'' Do_load, keyword ''SAVE'' Do_save,
     keyword ''DELETE'' Do_delete, keyword ''DIR'' Do_dir, keyword ''LET'' Do_let,
     keyword ''INPUT'' Do_input, keyword ''GET'' Do_get, Token ''OR'', Token ''AND'',
     keyword ''PRINT'' Do_print, keyword ''?'' Do_print,
     Function basic_function_type_print ''SPC'' Do_spc [kind_numeric],
     Function basic_function_type_print ''TAB'' Do_tab [kind_numeric],
     keyword ''CLS'' Do_cls,
     numeric_fn ''ABS'' F_abs [kind_numeric], numeric_fn ''SIN'' F_sin [kind_numeric],
     numeric_fn ''COS'' F_cos [kind_numeric], numeric_fn ''RND'' F_rnd [kind_numeric],
     numeric_fn ''INT'' F_int [kind_numeric], numeric_fn ''TAN'' F_tan [kind_numeric],
     numeric_fn ''SQR'' F_sqr [kind_numeric], numeric_fn ''SGN'' F_sgn [kind_numeric],
     numeric_fn ''LOG'' F_log [kind_numeric], numeric_fn ''EXP'' F_exp [kind_numeric],
     numeric_fn ''POW'' F_pow [kind_numeric, kind_numeric], numeric_fn ''ATN'' F_atn [kind_numeric],
     numeric_fn ''NOT'' F_not [kind_numeric], numeric_fn ''LEN'' Str_len [kind_string],
     string_fn ''CHR$'' Str_chr [kind_numeric],
     string_fn ''MID$'' Str_mid [kind_string, kind_numeric, kind_numeric],
     string_fn ''LEFT$'' Str_left [kind_string, kind_numeric],
     string_fn ''RIGHT$'' Str_right [kind_string, kind_numeric],
     numeric_fn ''ASC'' Str_asc [kind_string], numeric_fn ''VAL'' Str_val [kind_string],
     string_fn ''STR$'' Str_str [kind_numeric],
     Function basic_function_type_keyword ''SLEEP'' Do_sleep [kind_numeric],
     keyword ''DUMP'' Dump]"

text \<open>The arguments are the block \<^verbatim>\<open>malloc\<close> returns for the program (its bytes are arbitrary), the size of
  the stack with whether its allocation succeeds, and whether the variable table can be allocated.\<close>

definition basic_init ::
  "byte list option \<Rightarrow> nat \<Rightarrow> bool \<Rightarrow> bool \<Rightarrow> 'f basic \<Rightarrow> 'f basic option" where
  "basic_init memory stack_size stack_ok table_ok st =
     (case memory of
        None \<Rightarrow> Some (raise ''CANNOT ALLOCATE PROGRAM SPACE'' st)
      | Some m \<Rightarrow>
          if \<not> stack_ok then Some (raise ''CANNOT ALLOCATE STACK SPACE'' st)
          else do {
            let st = st\<lparr>stack_p := stack_size, stack_frames := [], cur_line := 0,
              data_ptr := (data_ptr st)\<lparr>data_state_of := data_state_init\<rparr>,
              basic_functions := array_new 16\<rparr>;
            t \<leftarrow> tokenizer_setup (tok st);
            st \<leftarrow> register_entries 0 registrations (st\<lparr>tok := t\<rparr>);
            p \<leftarrow> lines_init m (length m);
            let (_, vs) = variables_init table_ok (vars st);
            Some (st\<lparr>prog := p, vars := vs,
              data_ptr := (data_ptr st)\<lparr>data_line := 0, data_cursor := Null, data_state_of := data_state_init\<rparr>\<rparr>) })"

text \<open>\<^verbatim>\<open>basic_destroy\<close> empties the variable table; the blocks it frees are not used after it.\<close>

definition basic_destroy :: "nat \<Rightarrow> 'f basic \<Rightarrow> 'f basic option" where
  "basic_destroy fuel st = do {
     (_, vs) \<leftarrow> variables_destroy fuel (vars st);
     Some (st\<lparr>vars := vs\<rparr>) }"

subsection \<open>Evaluating a line\<close>

text \<open>\<^verbatim>\<open>strncpy\<close> into an array of \<open>n\<close> bytes, and \<^verbatim>\<open>_trim\<close> on the array.\<close>

definition strncpy :: "nat \<Rightarrow> cstring \<Rightarrow> byte list" where
  "strncpy n s = take n (s @ replicate (n - length s) 0)"

definition trim_buffer :: "byte list \<Rightarrow> byte list option" where
  "trim_buffer m = do {
     s \<leftarrow> cstring_at m 0;
     store m (length (trim s)) 0 }"

definition basic_eval :: "('f :: zero) floats \<Rightarrow> nat \<Rightarrow> cstring \<Rightarrow> 'f basic \<Rightarrow> 'f basic option" where
  "basic_eval F fuel line st =
     (if length line > 0 \<and> length line - 1 > tokenizer_string_length
      then Some (raise ''LINE TOO LONG'' st)
      else do {
        line_string \<leftarrow> trim_buffer (strncpy tokenizer_string_length line);
        s \<leftarrow> cstring_at line_string 0;
        let st = st\<lparr>eval_no := Suc (eval_no st), eval_line := line_string\<rparr>;
        if is_empty s \<or> is_comment s then Some st
        else do {
          st \<leftarrow> get_sym F (start_at (Input (eval_no st) 0) (st\<lparr>vars := (vars st)\<lparr>last_error := None\<rparr>\<rparr>));
          if sym st = T_NUMBER then do {
            let line_number = tokenizer_get_number (tok st);
            (p, st) \<leftarrow> tokenizer_pos Null st;
            st \<leftarrow> get_sym F st;
            n \<leftarrow> to_uint16 F line_number;
            (_, pr) \<leftarrow> (if sym st = T_EOF then lines_delete (prog st) n
                else do {
                  cs \<leftarrow> view (text_of st) p;
                  contents \<leftarrow> cstring_at cs 0;
                  lines_store (prog st) n contents });
            Some (st\<lparr>prog := pr\<rparr>) }
          else parse_line F fuel st } })"

definition basic_run :: "('f :: zero) floats \<Rightarrow> nat \<Rightarrow> 'f basic \<Rightarrow> 'f basic option" where
  "basic_run F fuel st = basic_eval F fuel (ascii ''RUN'') (st\<lparr>REPL := False\<rparr>)"

definition evaluate :: "('f :: zero) floats \<Rightarrow> nat \<Rightarrow> cstring \<Rightarrow> 'f basic \<Rightarrow> ('f \<times> 'f basic) option" where
  "evaluate F fuel expression_string st = do {
     let st = st\<lparr>eval_no := Suc (eval_no st), eval_line := expression_string @ [0],
       vars := (vars st)\<lparr>last_error := None\<rparr>\<rparr>;
     st \<leftarrow> get_sym F (start_at (Input (eval_no st) 0) st);
     (x, st) \<leftarrow> numeric_expression F fuel st;
     (_, st) \<leftarrow> expect F T_EOF st;
     Some (x, st) }"

definition evaluate_last_error :: "'f basic \<Rightarrow> string option" where
  "evaluate_last_error st = last_error (vars st)"

definition clear_last_error :: "'f basic \<Rightarrow> 'f basic" where
  "clear_last_error st = st\<lparr>vars := (vars st)\<lparr>last_error := None\<rparr>\<rparr>"

subsection \<open>The console and program files\<close>

text \<open>\<^verbatim>\<open>repl_line\<close> and \<^verbatim>\<open>run\<close> of \<^verbatim>\<open>arch/chino/main.c\<close>; the first component of the results is the return value
  and \<^verbatim>\<open>quit\<close> for the former.\<close>

definition repl_line ::
  "('f :: zero) floats \<Rightarrow> nat \<Rightarrow> cstring \<Rightarrow> bool \<Rightarrow> 'f basic \<Rightarrow> (int \<times> bool \<times> 'f basic) option" where
  "repl_line F fuel line quit st =
     (if line = ascii ''QUIT'' then Some (1, True, st)
      else do {
        st \<leftarrow> basic_eval F fuel line st;
        Some (0, quit, if evaluate_last_error st \<noteq> None then clear_last_error st else st) })"

fun run_lines :: "('f :: zero) floats \<Rightarrow> nat \<Rightarrow> cstring list \<Rightarrow> 'f basic \<Rightarrow> (bool \<times> 'f basic) option" where
  "run_lines F fuel [] st = Some (True, st)"
| "run_lines F fuel (l # ls) st =
     (if l = [] then None
      else if last l \<noteq> 10 then Some (False, st)
      else do { st \<leftarrow> basic_eval F fuel l st; run_lines F fuel ls st })"

definition run :: "('f :: zero) floats \<Rightarrow> nat \<Rightarrow> cstring \<Rightarrow> 'f basic \<Rightarrow> 'f basic option" where
  "run F fuel file_name st =
     (case file_contents F file_name of
        None \<Rightarrow> Some st
      | Some cs \<Rightarrow> do {
          (eol, st) \<leftarrow> run_lines F fuel (fgets_lines 62 cs) st;
          if eol then basic_run F fuel st else Some st })"

end
