(* ===== verification/Basic_Frame.thy ===== *)
theory Basic_Frame
  imports Basic_Interpreter
begin

section \<open>BASIC: what the interpreter leaves unchanged\<close>

text \<open>
  Frame lemmas of the interpreter.  \<open>core\<close> is the part of the state that the evaluation of an
  expression does not change, \<open>shape\<close> the part that no statement changes: the tables, the evaluated
  line and the size of the stack block, free space and frames together.  Both are functions of the
  state, so that a chain of calls is a chain of equations.
\<close>

subsection \<open>Results of partial functions\<close>

lemma bind_SomeE: "m \<bind> f = Some y \<Longrightarrow> (\<And>x. m = Some x \<Longrightarrow> f x = Some y \<Longrightarrow> P) \<Longrightarrow> P"
  by (cases m) auto

lemma if_SomeE:
  "(if b then u else v) = Some y \<Longrightarrow> (b \<Longrightarrow> u = Some y \<Longrightarrow> P) \<Longrightarrow> (\<not> b \<Longrightarrow> v = Some y \<Longrightarrow> P) \<Longrightarrow> P"
  by (cases b) auto

lemma case_prod_SomeE:
  "(case p of (a, b) \<Rightarrow> f a b) = Some y \<Longrightarrow> (\<And>a b. p = (a, b) \<Longrightarrow> f a b = Some y \<Longrightarrow> P) \<Longrightarrow> P"
  by (cases p) auto

lemma case_option_SomeE:
  "(case v of None \<Rightarrow> u | Some x \<Rightarrow> f x) = Some y \<Longrightarrow> (v = None \<Longrightarrow> u = Some y \<Longrightarrow> P) \<Longrightarrow>
    (\<And>x. v = Some x \<Longrightarrow> f x = Some y \<Longrightarrow> P) \<Longrightarrow> P"
  by (cases v) auto

lemma case_value_SomeE:
  "(case v of Num x \<Rightarrow> f x | Str s \<Rightarrow> g s) = Some y \<Longrightarrow> (\<And>x. v = Num x \<Longrightarrow> f x = Some y \<Longrightarrow> P) \<Longrightarrow>
    (\<And>s. v = Str s \<Longrightarrow> g s = Some y \<Longrightarrow> P) \<Longrightarrow> P"
  by (cases v) auto

lemmas result_elims = bind_SomeE if_SomeE case_prod_SomeE case_option_SomeE case_value_SomeE

subsection \<open>The tokenizer\<close>

definition scanner :: "'f tokenizer \<Rightarrow> token_entry array \<times> nat \<times> nat" where
  "scanner t = (token_array t, length (tokenizer_actual_string t), length (tokenizer_actual_variable t))"

lemma scanner_simps [simp]:
  "scanner (t\<lparr>tokenizer_line := a\<rparr>) = scanner t"
  "scanner (t\<lparr>tokenizer_p := a\<rparr>) = scanner t"
  "scanner (t\<lparr>tokenizer_next_p := a\<rparr>) = scanner t"
  "scanner (t\<lparr>tokenizer_actual_number := x\<rparr>) = scanner t"
  "length s = length (tokenizer_actual_string t) \<Longrightarrow> scanner (t\<lparr>tokenizer_actual_string := s\<rparr>) = scanner t"
  "length s = length (tokenizer_actual_variable t) \<Longrightarrow> scanner (t\<lparr>tokenizer_actual_variable := s\<rparr>) = scanner t"
  by (simp_all add: scanner_def)

lemma store_length: "store m p v = Some m' \<Longrightarrow> length m' = length m"
  by (auto simp: store_def split: if_splits)

lemma skip_white_scanner: "skip_white mem t = Some t' \<Longrightarrow> scanner t' = scanner t"
  by (auto simp: skip_white_def bind_eq_Some_conv)

lemma char_pointer_scanner: "tokenizer_char_pointer mem t p = Some (q, t') \<Longrightarrow> scanner t' = scanner t"
  by (auto simp: tokenizer_char_pointer_def bind_eq_Some_conv dest: skip_white_scanner split: if_splits)

lemma tokenizer_init_scanner [simp]: "scanner (tokenizer_init t p) = scanner t"
  by (simp add: tokenizer_init_def)

lemma find_registered_scanner: "find_registered mem t = Some (s, t') \<Longrightarrow> scanner t' = scanner t"
proof -
  have "find_registered_loop mem t is = Some (s, t') \<Longrightarrow> scanner t' = scanner t" for "is"
    by (induction "is") (auto simp: bind_eq_Some_conv Let_def split: option.splits if_splits)
  then show "find_registered mem t = Some (s, t') \<Longrightarrow> scanner t' = scanner t"
    by (simp add: find_registered_def)
qed

lemma read_number_scanner: "read_number scan mem t = Some (s, t') \<Longrightarrow> scanner t' = scanner t"
  by (auto simp: read_number_def bind_eq_Some_conv Let_def)

lemma read_string_scanner: "read_string mem t = Some (s, t') \<Longrightarrow> scanner t' = scanner t"
  by (auto simp: read_string_def bind_eq_Some_conv Let_def dest!: blit_length store_length split: if_splits)

lemma read_variable_scanner: "read_variable mem t = Some (s, t') \<Longrightarrow> scanner t' = scanner t"
  by (auto simp: read_variable_def bind_eq_Some_conv Let_def dest!: blit_length store_length split: if_splits)

lemma next_token_scanner:
  "tokenizer_get_next_token scan mem t = Some (s, t') \<Longrightarrow> scanner t' = scanner t"
  by (auto simp: tokenizer_get_next_token_def bind_eq_Some_conv split: if_splits
      dest!: skip_white_scanner find_registered_scanner read_number_scanner read_string_scanner
        read_variable_scanner)

subsection \<open>The core of the state\<close>

definition core where
  "core st = (scanner (tok st), basic_functions st, prog st, eval_no st, eval_line st, cur_line st,
     cur_cursor st, stack_frames st, stack_p st, RUNNING st, REPL st, STOPPED st, data_ptr st, inp st)"

lemma core_simps [simp]:
  "core (st\<lparr>sym := s\<rparr>) = core st"
  "core (st\<lparr>vars := v\<rparr>) = core st"
  "core (st\<lparr>out := bs\<rparr>) = core st"
  "core (st\<lparr>rands := rs\<rparr>) = core st"
  "scanner t = scanner (tok st) \<Longrightarrow> core (st\<lparr>tok := t\<rparr>) = core st"
  by (simp_all add: core_def)

lemma raise_core [simp]: "core (raise msg st) = core st"
  by (simp add: raise_def)

lemma basic_io_print_core [simp]: "core (basic_io_print s st) = core st"
  by (simp add: basic_io_print_def)

lemma putch_core [simp]: "core (putch c st) = core st"
  by (simp add: putch_def)

named_theorems core_dest \<open>functions that leave the core of the state unchanged\<close>

lemma get_sym_core [core_dest]: "get_sym F st = Some st' \<Longrightarrow> core st' = core st"
  by (auto simp: get_sym_def bind_eq_Some_conv dest: next_token_scanner)

lemma accept_core [core_dest]: "accept F t st = Some (b, st') \<Longrightarrow> core st' = core st"
  by (auto simp: accept_def bind_eq_Some_conv dest: get_sym_core split: if_splits)

lemma expect_core [core_dest]: "expect F t st = Some (b, st') \<Longrightarrow> core st' = core st"
  by (auto simp: expect_def bind_eq_Some_conv dest!: accept_core split: if_splits)

lemma tokenizer_pos_core [core_dest]: "tokenizer_pos p st = Some (q, st') \<Longrightarrow> core st' = core st"
  by (auto simp: tokenizer_pos_def bind_eq_Some_conv dest: char_pointer_scanner)

lemma start_at_core [simp]: "core (start_at p st) = core st"
  by (simp add: start_at_def)

lemma get_relop_core [core_dest]: "get_relop F st = Some (op, st') \<Longrightarrow> core st' = core st"
  by (auto simp: get_relop_def bind_eq_Some_conv dest!: accept_core split: if_splits)

lemma numeric_condition_core [core_dest]: "numeric_condition F a b op st = (r, st') \<Longrightarrow> core st' = core st"
  by (cases op) (auto simp: numeric_condition_def)

lemma string_condition_core [core_dest]: "string_condition a b op st = (r, st') \<Longrightarrow> core st' = core st"
  by (cases op) (auto simp: string_condition_def Let_def)

lemma f_rnd_core [core_dest]: "f_rnd F x st = Some (y, st') \<Longrightarrow> core st' = core st"
  by (auto simp: f_rnd_def bind_eq_Some_conv split: if_splits list.splits)

lemma spaces_loop_core [core_dest]: "spaces_loop F fuel i n st = Some st' \<Longrightarrow> core st' = core st"
  by (induction F fuel i n st rule: spaces_loop.induct) (auto elim!: result_elims)

lemma call_function_core [core_dest]: "call_function F fuel f v st = Some (y, st') \<Longrightarrow> core st' = core st"
  by (cases f)
    (auto simp: call_function_def do_spc_def do_tab_def do_sleep_def Let_def elim!: result_elims dest: f_rnd_core spaces_loop_core)

text \<open>The bodies of the parsing functions, for any functions in the place of the recursive calls.\<close>

locale expression_parsers =
  fixes F :: "('f :: zero) floats"
    and fac :: "'f num_parser"
    and ne :: "'f num_parser"
    and se :: "'f str_parser"
  assumes fac_core: "fac st = Some (x, st') \<Longrightarrow> core st' = core st"
    and ne_core: "ne st = Some (x, st') \<Longrightarrow> core st' = core st"
    and se_core: "se st = Some (s, st') \<Longrightarrow> core st' = core st"
begin

lemma vector_items_core:
  "vector_items F ne fuel k v d st = Some (n, w, st') \<Longrightarrow> core st' = core st"
  by (induction fuel arbitrary: v d st)
    (auto simp: Let_def elim!: result_elims dest!: ne_core accept_core)

lemma get_vector_core: "get_vector F ne fuel k st = Some (n, w, st') \<Longrightarrow> core st' = core st"
  by (auto simp: get_vector_def elim!: result_elims dest: vector_items_core)

lemma get_parameter_core: "get_parameter ne se k st = Some (v, st') \<Longrightarrow> core st' = core st"
  by (cases k) (auto simp: get_parameter_def Let_def elim!: result_elims dest: ne_core se_core)

lemma args_loop_core: "args_loop F ne se bf is v st = Some (i, w, st') \<Longrightarrow> core st' = core st"
  by (induction "is" arbitrary: v st)
    (auto simp: Let_def elim!: result_elims dest!: get_parameter_core expect_core)

lemma dispatch_with_arguments_core:
  "dispatch_with_arguments F fuel ne se bf st = Some (v, st') \<Longrightarrow> core st' = core st"
  by (auto simp: dispatch_with_arguments_def Let_def elim!: result_elims dest!: args_loop_core expect_core call_function_core)

lemma dispatch_expression_core:
  "dispatch_expression F fuel ne se bf st = Some (v, st') \<Longrightarrow> core st' = core st"
  by (auto simp: dispatch_expression_def basic_dispatch_function_def Let_def elim!: result_elims dest!: dispatch_with_arguments_core accept_core)

lemmas parser_core = fac_core ne_core se_core get_vector_core dispatch_expression_core

lemma string_term_core: "string_term F fuel ne se st = Some (s, st') \<Longrightarrow> core st' = core st"
  by (auto simp: string_term_def Let_def elim!: result_elims dest!: parser_core core_dest)

lemma string_loop_core: "string_loop F fuel ne se s st = Some (r, st') \<Longrightarrow> core st' = core st"
  by (induction fuel arbitrary: s st)
    (auto simp: Let_def elim!: result_elims dest!: string_term_core accept_core)

lemma string_expression_body_core:
  "string_expression_body F fuel ne se st = Some (s, st') \<Longrightarrow> core st' = core st"
  by (auto simp: string_expression_body_def Let_def elim!: result_elims dest!: string_term_core string_loop_core)

lemma numeric_primary_core: "numeric_primary F fuel ne st = Some (x, st') \<Longrightarrow> core st' = core st"
  by (auto simp: numeric_primary_def Let_def elim!: result_elims dest!: parser_core core_dest)

lemma numeric_atom_core: "numeric_atom F fuel ne se st = Some (x, st') \<Longrightarrow> core st' = core st"
  by (auto simp: numeric_atom_def Let_def elim!: result_elims dest!: numeric_primary_core dispatch_expression_core)

lemma numeric_factor_body_core:
  "numeric_factor_body F fuel fac ne se st = Some (x, st') \<Longrightarrow> core st' = core st"
  by (auto simp: numeric_factor_body_def Let_def elim!: result_elims dest!: numeric_atom_core fac_core core_dest)

lemma factor_body_core: "factor_body F fuel fac ne se st = Some (x, st') \<Longrightarrow> core st' = core st"
  by (auto simp: factor_body_def Let_def elim!: result_elims dest!: string_term_core numeric_factor_body_core core_dest)

lemma term_loop_core: "term_loop F fuel fac x st = Some (y, st') \<Longrightarrow> core st' = core st"
  by (induction fuel arbitrary: x st)
    (auto simp: Let_def elim!: result_elims dest!: fac_core get_sym_core)

lemma term_body_core: "term_body F fuel fac st = Some (y, st') \<Longrightarrow> core st' = core st"
  by (auto simp: term_body_def Let_def elim!: result_elims dest!: fac_core term_loop_core)

lemma sum_loop_core: "sum_loop F k (term_body F fuel fac) x st = Some (y, st') \<Longrightarrow> core st' = core st"
  by (induction k arbitrary: x st)
    (auto simp: Let_def elim!: result_elims dest!: term_body_core get_sym_core)

lemma numeric_expression_body_core:
  "numeric_expression_body F fuel fac st = Some (y, st') \<Longrightarrow> core st' = core st"
  by (auto simp: numeric_expression_body_def Let_def elim!: result_elims dest!: term_body_core sum_loop_core get_sym_core)

end

lemma parsers: "expression_parsers (factor F n) (numeric_expression F n) (string_expression F n)"
proof (induction n)
  case 0
  show ?case by unfold_locales simp_all
next
  case (Suc n)
  note bodies = expression_parsers.factor_body_core [OF Suc]
    expression_parsers.numeric_expression_body_core [OF Suc]
    expression_parsers.string_expression_body_core [OF Suc]
  show ?case by unfold_locales (auto dest: bodies)
qed

interpretation ep: expression_parsers F "factor F n" "numeric_expression F n" "string_expression F n" for F n
  by (rule parsers)

lemmas expression_parts_core [core_dest] = ep.ne_core ep.se_core ep.get_vector_core ep.dispatch_expression_core

lemma expression_core [core_dest]: "expression F fuel st = Some (e, st') \<Longrightarrow> core st' = core st"
  by (auto simp: expression_def Let_def elim!: result_elims dest!: core_dest)

lemma expression_print_core [core_dest]: "expression_print F e st = Some st' \<Longrightarrow> core st' = core st"
  by (auto simp: expression_print_def elim!: result_elims)

lemma ready_core [simp]: "core (ready st) = core st"
  by (simp add: ready_def)

lemma print_items_core [core_dest]: "print_items F fuel st = Some st' \<Longrightarrow> core st' = core st"
  by (induction fuel arbitrary: st) (auto simp: Let_def elim!: result_elims dest!: core_dest)

lemma list_items_core: "list_items F fuel k v d st = Some (n, w, st') \<Longrightarrow> core st' = core st"
  by (induction fuel arbitrary: v d st) (auto simp: Let_def elim!: result_elims dest!: core_dest)

lemma get_list_core [core_dest]: "get_list F fuel k st = Some (n, w, st') \<Longrightarrow> core st' = core st"
  by (auto simp: get_list_def dest: list_items_core)

lemma move_to_next_statement_core [core_dest]:
  "move_to_next_statement F fuel st = Some st' \<Longrightarrow> core st' = core st"
  by (induction fuel arbitrary: st) (auto elim!: result_elims dest!: core_dest)

lemma dim_items_core [core_dest]: "dim_items F fuel st = Some st' \<Longrightarrow> core st' = core st"
  by (induction fuel arbitrary: st) (auto simp: Let_def elim!: result_elims dest!: core_dest)

lemma find_data_keyword_core [core_dest]: "find_data_keyword F fuel st = Some (b, st') \<Longrightarrow> core st' = core st"
  by (induction fuel arbitrary: st) (auto elim!: result_elims dest!: core_dest)

lemma assign_core [core_dest]: "assign arr name v x st = Some st' \<Longrightarrow> core st' = core st"
  by (auto simp: assign_def elim!: result_elims)

subsection \<open>What no statement changes\<close>

definition stack_total :: "'f basic \<Rightarrow> nat" where
  "stack_total st = stack_p st + sum_list (map frame_size (stack_frames st))"

definition shape where
  "shape st = (scanner (tok st), basic_functions st, eval_no st, eval_line st, stack_total st, REPL st)"

lemma shape_of_core: "core st' = core st \<Longrightarrow> shape st' = shape st"
  by (simp add: core_def shape_def stack_total_def)

lemma shape_simps [simp]:
  "shape (st\<lparr>sym := s\<rparr>) = shape st"
  "shape (st\<lparr>vars := v\<rparr>) = shape st"
  "shape (st\<lparr>out := bs\<rparr>) = shape st"
  "shape (st\<lparr>inp := is\<rparr>) = shape st"
  "shape (st\<lparr>prog := p\<rparr>) = shape st"
  "shape (st\<lparr>cur_line := n\<rparr>) = shape st"
  "shape (st\<lparr>cur_cursor := c\<rparr>) = shape st"
  "shape (st\<lparr>data_ptr := d\<rparr>) = shape st"
  "shape (st\<lparr>RUNNING := b\<rparr>) = shape st"
  "shape (st\<lparr>STOPPED := b\<rparr>) = shape st"
  "shape (start_at q st) = shape st"
  "shape (raise msg st) = shape st"
  "shape (basic_io_print bs st) = shape st"
  "shape (putch ch st) = shape st"
  "shape (ready st) = shape st"
  by (simp_all add: shape_def stack_total_def start_at_def raise_def basic_io_print_def putch_def ready_def)

lemma shape_push:
  "frame_size f \<le> stack_p st \<Longrightarrow> k = frame_size f \<Longrightarrow>
    shape (st\<lparr>stack_p := stack_p st - k, stack_frames := f # stack_frames st\<rparr>) = shape st"
  by (simp add: shape_def stack_total_def)

lemma shape_pop:
  "stack_frames st = f # fs \<Longrightarrow> p = stack_p st + frame_size f \<Longrightarrow>
    shape (st\<lparr>stack_p := p, stack_frames := fs\<rparr>) = shape st"
  "stack_frames st = f # fs \<Longrightarrow> p = stack_p st + frame_size f \<Longrightarrow>
    shape (st\<lparr>vars := v, stack_p := p, stack_frames := fs\<rparr>) = shape st"
  by (simp_all add: shape_def stack_total_def)

named_theorems shape_dest \<open>functions that keep the tables and the size of the stack\<close>

lemmas core_shape [shape_dest] = core_dest [THEN shape_of_core]

lemma set_line_shape [shape_dest]: "set_line n st = Some st' \<Longrightarrow> shape st' = shape st"
  by (auto simp: set_line_def Let_def elim!: result_elims dest!: shape_dest)

lemma move_to_next_line_shape [shape_dest]: "move_to_next_line F st = Some st' \<Longrightarrow> shape st' = shape st"
  by (auto simp: move_to_next_line_def elim!: result_elims dest!: shape_dest)

lemma list_out_shape [simp]: "shape (fold (\<lambda>(n, s). list_out n s) ls st) = shape st"
  by (induction ls arbitrary: st) (auto simp: list_out_def)

lemma do_list_shape: "do_list F st = Some st' \<Longrightarrow> shape st' = shape st"
  by (auto simp: do_list_def elim!: result_elims dest!: shape_dest)

lemma do_clear_shape: "do_clear F st = Some st' \<Longrightarrow> shape st' = shape st"
  by (auto simp: do_clear_def elim!: result_elims dest!: shape_dest)

lemma do_print_shape: "do_print F fuel st = Some st' \<Longrightarrow> shape st' = shape st"
  by (auto simp: do_print_def elim!: result_elims dest!: shape_dest)

lemma do_goto_shape: "do_goto F st = Some st' \<Longrightarrow> shape st' = shape st"
  by (auto simp: do_goto_def elim!: result_elims dest!: shape_dest)

lemma core_stack: "core st' = core st \<Longrightarrow> stack_p st' = stack_p st \<and> stack_frames st' = stack_frames st"
  by (simp add: core_def)

lemma shape_if_raise [simp]: "shape (if b then raise msg st else st) = shape st"
  by simp

lemma push_gosub_shape:
  assumes "push_gosub st = Some st'" and "\<not> stack_p st < sizeof_gosub"
  shows "shape st' = shape st"
proof -
  obtain c st1 where pos: "tokenizer_pos Null st = Some (c, st1)"
    and st': "st' = st1\<lparr>stack_p := stack_p st1 - sizeof_gosub,
      stack_frames := Gosub_frame (cur_line st1) c # stack_frames st1\<rparr>"
    using assms(1) by (auto simp: push_gosub_def elim!: result_elims)
  note core = tokenizer_pos_core [OF pos]
  have "shape st' = shape st1" unfolding st'
    using core_stack [OF core] assms(2) by (intro shape_push) simp_all
  then show ?thesis using shape_of_core [OF core] by simp
qed

lemma do_on_goto_shape: "do_on_goto F fuel st = Some st' \<Longrightarrow> shape st' = shape st"
  by (auto simp: do_on_goto_def Let_def elim!: result_elims
      dest!: push_gosub_shape shape_dest)

lemma do_gosub_shape: "do_gosub F st = Some st' \<Longrightarrow> shape st' = shape st"
  by (auto simp: do_gosub_def elim!: result_elims dest!: push_gosub_shape shape_dest)

lemma jump_core: "tokenizer_pos c (st\<lparr>cur_line := n\<rparr>) = Some (q, st') \<Longrightarrow>
    stack_frames st' = stack_frames st \<and> shape st' = shape st"
  by (auto dest!: tokenizer_pos_core dest: shape_of_core core_stack)

lemma do_return_shape: "do_return F st = Some st' \<Longrightarrow> shape st' = shape st"
  by (auto simp: do_return_def shape_pop elim!: result_elims dest!: jump_core accept_core [THEN shape_of_core]
      split: list.split_asm stack_frame.split_asm)

lemma pos_core: "tokenizer_pos c st = Some (q, st') \<Longrightarrow>
    stack_p st' = stack_p st \<and> stack_frames st' = stack_frames st \<and> shape st' = shape st"
  by (auto dest!: tokenizer_pos_core dest: shape_of_core core_stack)

lemma push_for_shape:
  assumes "push_for name e s st = Some st'" and "\<not> stack_p st < sizeof_for"
  shows "shape st' = shape st"
proof -
  obtain c st1 where pos: "tokenizer_pos Null st = Some (c, st1)"
    and st': "st' = st1\<lparr>stack_p := stack_p st1 - sizeof_for,
      stack_frames := For_frame name e s (cur_line st1) c # stack_frames st1\<rparr>"
    using assms(1) by (auto simp: push_for_def elim!: result_elims)
  have "shape st' = shape st1" unfolding st'
    using pos_core [OF pos] assms(2) by (intro shape_push) simp_all
  then show ?thesis using pos_core [OF pos] by simp
qed

lemma do_for_shape: "do_for F fuel st = Some st' \<Longrightarrow> shape st' = shape st"
  by (auto simp: do_for_def Let_def elim!: result_elims dest!: push_for_shape shape_dest)

lemma accept_stack: "accept F t st = Some (b, st') \<Longrightarrow>
    stack_p st' = stack_p st \<and> stack_frames st' = stack_frames st \<and> shape st' = shape st"
  by (auto dest!: accept_core dest: shape_of_core core_stack)

lemma do_next_shape: "do_next F st = Some st' \<Longrightarrow> shape st' = shape st"
  by (auto simp: do_next_def Let_def shape_pop elim!: result_elims
      dest!: pos_core accept_stack split: list.split_asm stack_frame.split_asm)

lemma do_rem_shape: "do_rem F st = Some st' \<Longrightarrow> shape st' = shape st"
  by (auto simp: do_rem_def elim!: result_elims dest!: shape_dest)

lemma do_dim_shape: "do_dim F fuel st = Some st' \<Longrightarrow> shape st' = shape st"
  by (auto simp: do_dim_def elim!: result_elims dest!: shape_dest)

lemma do_data_shape: "do_data F fuel st = Some st' \<Longrightarrow> shape st' = shape st"
  by (auto simp: do_data_def elim!: result_elims dest!: shape_dest)

lemma data_find_loop_shape: "data_find_loop F fuel type st = Some (v, st') \<Longrightarrow> shape st' = shape st"
  by (induction fuel arbitrary: st) (auto simp: Let_def elim!: result_elims dest!: shape_dest)

lemma data_find_shape: "data_find F fuel type st = Some (v, st') \<Longrightarrow> shape st' = shape st"
  by (auto simp: data_find_def elim!: result_elims dest!: shape_dest data_find_loop_shape)

lemma data_read_shape: "data_read F type st = Some (v, st') \<Longrightarrow> shape st' = shape st"
  by (auto simp: data_read_def elim!: result_elims dest!: shape_dest)

lemma do_data_read_shape [shape_dest]: "do_data_read F fuel type st = Some (v, st') \<Longrightarrow> shape st' = shape st"
  by (auto simp: do_data_read_def elim!: result_elims dest!: shape_dest data_find_shape data_read_shape
      split: data_state.split_asm)

lemma read_items_shape: "read_items F fuel arr v st = Some st' \<Longrightarrow> shape st' = shape st"
  by (induction fuel arbitrary: arr v st) (auto simp: Let_def elim!: result_elims dest!: shape_dest)

lemma do_read_shape: "do_read F fuel st = Some st' \<Longrightarrow> shape st' = shape st"
  by (auto simp: do_read_def elim!: result_elims dest!: shape_dest read_items_shape)

lemma do_restore_shape: "do_restore F st = Some st' \<Longrightarrow> shape st' = shape st"
  by (auto simp: do_restore_def elim!: result_elims dest!: shape_dest)

lemma load_cb_shape: "load_cb l st = Some st' \<Longrightarrow> shape st' = shape st"
  by (auto simp: load_cb_def store_line_def elim!: result_elims)

lemma arch_load_shape: "arch_load F name st = Some (r, st') \<Longrightarrow> shape st' = shape st"
proof -
  have "fold_lines load_cb ls st = Some st' \<Longrightarrow> shape st' = shape st" for ls
    by (induction ls arbitrary: st) (auto elim!: result_elims dest!: load_cb_shape)
  then show "arch_load F name st = Some (r, st') \<Longrightarrow> shape st' = shape st"
    by (auto simp: arch_load_def elim!: result_elims)
qed

lemma do_load_shape: "do_load F st = Some st' \<Longrightarrow> shape st' = shape st"
  by (auto simp: do_load_def elim!: result_elims dest!: shape_dest arch_load_shape)

lemma do_save_shape: "do_save F st = Some st' \<Longrightarrow> shape st' = shape st"
  by (auto simp: do_save_def elim!: result_elims dest!: shape_dest)

lemma do_delete_shape: "do_delete F st = Some st' \<Longrightarrow> shape st' = shape st"
  by (auto simp: do_delete_def elim!: result_elims dest!: shape_dest)

lemma do_dir_shape: "do_dir F st = Some st' \<Longrightarrow> shape st' = shape st"
  by (auto simp: do_dir_def elim!: result_elims dest!: shape_dest)

lemma do_let_shape: "do_let F fuel st = Some st' \<Longrightarrow> shape st' = shape st"
  by (auto simp: do_let_def Let_def elim!: result_elims dest!: shape_dest)

lemma getch_shape [shape_dest]: "getch st = Some (c, st') \<Longrightarrow> shape st' = shape st"
  by (auto simp: getch_def split: list.split_asm)

lemma readline_loop_shape: "readline_loop fuel k acc st = Some (l, st') \<Longrightarrow> shape st' = shape st"
  by (induction fuel arbitrary: acc st) (auto simp: Let_def elim!: result_elims dest!: getch_shape)

lemma basic_io_readline_shape [shape_dest]:
  "basic_io_readline fuel prompt k st = Some (l, st') \<Longrightarrow> shape st' = shape st"
  by (auto simp: basic_io_readline_def dest!: readline_loop_shape)

lemma do_input_shape: "do_input F fuel st = Some st' \<Longrightarrow> shape st' = shape st"
  by (auto simp: do_input_def Let_def elim!: result_elims dest!: shape_dest)

lemma do_get_shape: "do_get F st = Some st' \<Longrightarrow> shape st' = shape st"
  by (auto simp: do_get_def Let_def elim!: result_elims dest!: shape_dest)

text \<open>The handlers that execute statements, for any line parser that keeps the shape.\<close>

locale shape_keeper =
  fixes parse :: "('f :: zero) line_parser"
  assumes parse_shape: "parse st = Some st' \<Longrightarrow> shape st' = shape st"
begin

lemma run_loop_shape: "run_loop F parse fuel st = Some st' \<Longrightarrow> shape st' = shape st"
  by (induction fuel arbitrary: st) (auto simp: Let_def elim!: result_elims dest!: shape_dest parse_shape)

lemma do_run_shape: "do_run F parse fuel st = Some st' \<Longrightarrow> shape st' = shape st"
  by (auto simp: do_run_def Let_def elim!: result_elims dest!: run_loop_shape)

lemma condition_shape: "condition F a b op st = Some (r, st') \<Longrightarrow> shape st' = shape st"
  by (auto simp: condition_def split: variable_value.split_asm dest!: core_dest [THEN shape_of_core])

lemma do_if_shape: "do_if F parse fuel st = Some st' \<Longrightarrow> shape st' = shape st"
  by (auto simp: do_if_def Let_def elim!: result_elims dest!: shape_dest condition_shape parse_shape)

lemmas handler_shapes = do_list_shape do_clear_shape do_goto_shape do_on_goto_shape do_gosub_shape
  do_return_shape do_run_shape do_if_shape do_for_shape do_next_shape do_rem_shape do_dim_shape
  do_data_shape do_read_shape do_restore_shape do_load_shape do_save_shape do_delete_shape
  do_dir_shape do_let_shape do_input_shape do_get_shape do_print_shape

lemma call_keyword_shape: "call_keyword F parse fuel f st = Some st' \<Longrightarrow> shape st' = shape st"
  by (cases f) (simp_all add: call_keyword_def handler_shapes do_end_def do_cls_def dump_def Let_def, auto)

lemma dispatch_shape:
  "basic_dispatch_function F fuel (numeric_expression F fuel) (string_expression F fuel)
     (call_keyword F parse fuel) bf st = Some (v, st') \<Longrightarrow> shape st' = shape st"
  by (auto simp: basic_dispatch_function_def elim!: result_elims
      dest!: shape_dest call_keyword_shape ep.dispatch_with_arguments_core [THEN shape_of_core])

lemma statement_shape: "statement F parse fuel st = Some (ok, st') \<Longrightarrow> shape st' = shape st"
  by (auto simp: statement_def elim!: result_elims dest!: dispatch_shape do_let_shape)

end

lemma parse_line_shape: "parse_line F fuel st = Some st' \<Longrightarrow> shape st' = shape st"
proof (induction fuel arbitrary: st st')
  case (Suc fuel)
  have keeper: "shape_keeper (parse_line F fuel)" by unfold_locales (rule Suc.IH)
  show ?case using Suc.prems
    by (auto elim!: result_elims dest!: Suc.IH shape_keeper.statement_shape [OF keeper])
qed simp

interpretation pl: shape_keeper "parse_line F fuel" for F fuel
  by unfold_locales (rule parse_line_shape)

end
