(* ===== verification/Basic_Tables.thy ===== *)
theory Basic_Tables
  imports Basic_Frame
begin

section \<open>BASIC: the tables made by basic_init, and the invariant of the interpreter\<close>

text \<open>
  What \<^verbatim>\<open>basic_init\<close> builds: the token table with the punctuation followed by the keywords, the table
  of the functions, an empty program, an empty stack and no variables.  \<open>basic_ok\<close> is the invariant
  that the tables, the buffers and the size of the stack block stay as they were made, for every
  sequence of evaluated lines.
\<close>

subsection \<open>The contents of the tables\<close>

fun registration_name :: "registration \<Rightarrow> string" where
  "registration_name (Token name) = name"
| "registration_name (Function _ name _ _) = name"

fun entries_from :: "nat \<Rightarrow> registration list \<Rightarrow> token_entry list" where
  "entries_from k [] = []"
| "entries_from k (r # rs) =
     \<lparr>te_token = basic_token_id k, te_name = Some (ascii (registration_name r))\<rparr> # entries_from (Suc k) rs"

fun functions_from :: "nat \<Rightarrow> registration list \<Rightarrow> basic_function list" where
  "functions_from k [] = []"
| "functions_from k (Token _ # rs) = functions_from (Suc k) rs"
| "functions_from k (Function type _ f kinds # rs) =
     \<lparr>bf_token = basic_token_id k, bf_type = type, bf_nr_arguments = length kinds, bf_kinds = kinds,
       bf_function = f\<rparr> # functions_from (Suc k) rs"

definition all_tokens :: "token_entry list" where
  "all_tokens = setup_tokens @ entries_from 0 registrations"

definition all_functions :: "basic_function list" where
  "all_functions = functions_from 0 registrations"

lemma length_entries_from [simp]: "length (entries_from k rs) = length rs"
  by (induction rs arbitrary: k) auto

lemma length_functions_from: "length (functions_from k rs) \<le> length rs"
  by (induction k rs rule: functions_from.induct) auto

lemma register_entry_tables:
  assumes "holds_entries (token_array (tok st)) es" and "holds_entries (basic_functions st) fs"
    and "length es < 2 ^ 59" and "length fs < 2 ^ 59"
  shows "\<exists>t a b. register_entry k r st
      = Some (t, st\<lparr>tok := (tok st)\<lparr>token_array := a\<rparr>, basic_functions := b\<rparr>)
    \<and> holds_entries a (es @ entries_from k [r]) \<and> holds_entries b (fs @ functions_from k [r])"
proof -
  obtain a where a: "array_push (token_array (tok st))
      \<lparr>te_token = basic_token_id k, te_name = Some (ascii (registration_name r))\<rparr> = Some a"
    "holds_entries a (es @ entries_from k [r])"
    using holds_entries_push [OF assms(1,3)] by fastforce
  show ?thesis
  proof (cases r)
    case (Token name)
    then show ?thesis using a assms(2)
      by (auto simp: register_token_def tokenizer_register_token_def intro!: exI [of _ "basic_functions st"])
  next
    case (Function type name f kinds)
    obtain b where "array_push (basic_functions st) \<lparr>bf_token = basic_token_id k, bf_type = type,
        bf_nr_arguments = length kinds, bf_kinds = kinds, bf_function = f\<rparr> = Some b"
      "holds_entries b (fs @ functions_from k [r])"
      using holds_entries_push [OF assms(2,4)] Function by fastforce
    then show ?thesis using a Function
      by (auto simp: register_function_def register_token_def tokenizer_register_token_def)
  qed
qed

lemma functions_from_Cons: "functions_from k (r # rs) = functions_from k [r] @ functions_from (Suc k) rs"
  by (cases r) auto

lemma register_entries_tables:
  assumes "holds_entries (token_array (tok st)) es" and "holds_entries (basic_functions st) fs"
    and "length es + length rs < 2 ^ 59" and "length fs + length rs < 2 ^ 59"
  shows "\<exists>a b. register_entries k rs st
      = Some (st\<lparr>tok := (tok st)\<lparr>token_array := a\<rparr>, basic_functions := b\<rparr>)
    \<and> holds_entries a (es @ entries_from k rs) \<and> holds_entries b (fs @ functions_from k rs)"
  using assms
proof (induction rs arbitrary: k st es fs)
  case Nil
  then show ?case
    by (auto intro!: exI [of _ "token_array (tok st)"] exI [of _ "basic_functions st"])
next
  case (Cons r rs)
  obtain t a b where step: "register_entry k r st
      = Some (t, st\<lparr>tok := (tok st)\<lparr>token_array := a\<rparr>, basic_functions := b\<rparr>)"
    and ab: "holds_entries a (es @ entries_from k [r])" "holds_entries b (fs @ functions_from k [r])"
    using register_entry_tables [OF Cons.prems(1,2), of k r] Cons.prems(3,4) by auto
  have "length (functions_from k [r]) \<le> 1" by (cases r) auto
  then show ?case
    using Cons.IH [of "st\<lparr>tok := (tok st)\<lparr>token_array := a\<rparr>, basic_functions := b\<rparr>"
        "es @ entries_from k [r]" "fs @ functions_from k [r]" "Suc k"] Cons.prems(3,4) ab step
    by (auto simp: functions_from_Cons [of k r rs])
qed

subsection \<open>The invariant\<close>

definition basic_ok :: "nat \<Rightarrow> 'f basic \<Rightarrow> bool" where
  "basic_ok stack_size st \<longleftrightarrow>
     holds_entries (token_array (tok st)) all_tokens \<and> holds_entries (basic_functions st) all_functions \<and>
     length (tokenizer_actual_string (tok st)) = tokenizer_string_length \<and>
     length (tokenizer_actual_variable (tok st)) = tokenizer_variable_length \<and>
     stack_total st = stack_size"

lemma basic_ok_shape: "shape st' = shape st \<Longrightarrow> basic_ok n st' = basic_ok n st"
  by (simp add: basic_ok_def shape_def scanner_def)

lemma setup_tables: "\<exists>a. tokenizer_setup t = Some (t\<lparr>token_array := a\<rparr>) \<and> holds_entries a setup_tokens"
proof -
  have "holds_entries (token_array (t\<lparr>token_array := array_new 16\<rparr>)) []"
    by (simp add: holds_entries_def array_new_def)
  from register_all_entries [OF this, of setup_tokens]
  show ?thesis by (simp add: tokenizer_setup_def setup_tokens_def)
qed

lemma basic_init_tables:
  assumes "length (tokenizer_actual_string (tok st)) = tokenizer_string_length"
    and "length (tokenizer_actual_variable (tok st)) = tokenizer_variable_length"
    and "3 \<le> length m"
  shows "\<exists>st'. basic_init (Some m) n True True st = Some st' \<and> basic_ok n st' \<and> stack_frames st' = []
    \<and> holds_program (prog st') [] \<and> var_table (vars st') = replicate HASHSIZE []"
proof -
  let ?st = "st\<lparr>stack_p := n, stack_frames := [], cur_line := 0,
    data_ptr := (data_ptr st)\<lparr>data_state_of := data_state_init\<rparr>, basic_functions := array_new 16\<rparr>"
  obtain a where a: "tokenizer_setup (tok st) = Some ((tok st)\<lparr>token_array := a\<rparr>)" "holds_entries a setup_tokens"
    using setup_tables by auto
  have "holds_entries (array_new 16) ([] :: basic_function list)"
    by (simp add: holds_entries_def array_new_def)
  moreover have "length registrations = 58" "length setup_tokens = 18"
    by (simp_all add: registrations_def setup_tokens_def)
  ultimately obtain a' b where reg: "register_entries 0 registrations (?st\<lparr>tok := (tok st)\<lparr>token_array := a\<rparr>\<rparr>)
      = Some (?st\<lparr>tok := (tok st)\<lparr>token_array := a'\<rparr>, basic_functions := b\<rparr>)"
    and ok: "holds_entries a' all_tokens" "holds_entries b all_functions"
    using register_entries_tables [of "?st\<lparr>tok := (tok st)\<lparr>token_array := a\<rparr>\<rparr>" setup_tokens "[]" registrations 0] a(2)
    by (auto simp: all_tokens_def all_functions_def)
  obtain p where p: "lines_init m (length m) = Some p" "holds_program p []"
    using lines_init_holds [OF assms(3)] by blast
  show ?thesis
    using a(1) reg ok p assms
    by (auto simp: basic_init_def variables_init_def dictionary_new_def basic_ok_def stack_total_def)
qed

definition tables where
  "tables st = (scanner (tok st), basic_functions st, stack_total st)"

lemma tables_of_shape: "shape st' = shape st \<Longrightarrow> tables st' = tables st"
  by (simp add: shape_def tables_def)

lemma tables_simps [simp]:
  "tables (st\<lparr>vars := v\<rparr>) = tables st"
  "tables (st\<lparr>prog := p\<rparr>) = tables st"
  "tables (st\<lparr>eval_no := e, eval_line := l\<rparr>) = tables st"
  "tables (st\<lparr>eval_no := e, eval_line := l, vars := v\<rparr>) = tables st"
  "tables (raise msg st) = tables st"
  "tables (start_at q st) = tables st"
  by (simp_all add: tables_def stack_total_def raise_def start_at_def)

lemma basic_eval_tables: "basic_eval F fuel line st = Some st' \<Longrightarrow> tables st' = tables st"
  unfolding basic_eval_def
  by (auto simp: Let_def elim!: result_elims
      dest!: shape_dest [THEN tables_of_shape] parse_line_shape [THEN tables_of_shape])

lemma basic_eval_ok: "basic_eval F fuel line st = Some st' \<Longrightarrow> basic_ok n st' = basic_ok n st"
  by (drule basic_eval_tables) (simp add: tables_def basic_ok_def scanner_def)

lemma fold_eval_ok: "fold_lines (basic_eval F fuel) ls st = Some st' \<Longrightarrow> basic_ok n st' = basic_ok n st"
  by (induction ls arbitrary: st) (auto elim!: result_elims dest!: basic_eval_ok [where n = n])

subsection \<open>Keywords\<close>

text \<open>Two words that differ at a position both have: neither starts a text that starts with the other.\<close>

fun differ :: "'a list \<Rightarrow> 'a list \<Rightarrow> bool" where
  "differ (a # as) (b # bs) \<longleftrightarrow> a \<noteq> b \<or> differ as bs"
| "differ _ _ \<longleftrightarrow> False"

lemma differ_starts_with: "differ s w \<Longrightarrow> starts_with (s @ rest) w = Some False"
  by (induction s w rule: differ.induct) auto

lemma unat_of_char: "unat (of_char c :: byte) = of_char c"
proof -
  have "unat (of_nat (of_char c) :: byte) = of_char c"
    by (simp add: unsigned_of_nat take_bit_eq_mod)
  then show ?thesis by (simp only: of_nat_of_char)
qed

lemma of_char_byte_inject: "(of_char a :: byte) = of_char b \<longleftrightarrow> a = b"
  using unat_of_char by (metis of_char_eq_iff)

lemma length_ascii: "length (ascii s) = length s"
  by (simp add: ascii_def)

lemma differ_sym: "differ a b \<Longrightarrow> differ b a"
  by (induction a b rule: differ.induct) auto

lemma differ_ascii: "differ (ascii a) (ascii b) = differ a b"
  by (induction a b rule: differ.induct) (auto simp: ascii_def of_char_byte_inject)

fun separate :: "string list \<Rightarrow> bool" where
  "separate [] \<longleftrightarrow> True"
| "separate (w # ws) \<longleftrightarrow> list_all (differ w) ws \<and> separate ws"

definition words :: "string list" where
  "words = [''+'', ''-'', ''*'', ''/'', ''('', '')'', '':'', '';'', ''='', ''<'', ''>'', '','']
     @ map registration_name registrations"

lemma words_separate: "separate words"
  unfolding words_def registrations_def
  by code_simp

lemma separate_nth: "separate ws \<Longrightarrow> i < j \<Longrightarrow> j < length ws \<Longrightarrow> differ (ws ! j) (ws ! i)"
proof (induction ws arbitrary: i j)
  case (Cons w ws)
  then show ?case
    by (cases i; cases j) (auto simp: list_all_length intro: differ_sym)
qed simp

lemma entries_from_names: "map te_name (entries_from k rs) = map (\<lambda>r. Some (ascii (registration_name r))) rs"
  by (induction rs arbitrary: k) auto

lemma entries_from_token: "i < length rs \<Longrightarrow> te_token (entries_from k rs ! i) = basic_token_id (k + i)"
  by (induction rs arbitrary: k i) (auto simp: nth_Cons split: nat.split)

lemma all_tokens_names: "map te_name all_tokens = replicate 6 None @ map (\<lambda>w. Some (ascii w)) words"
proof -
  have "map te_name setup_tokens = replicate 6 None @ map (\<lambda>w. Some (ascii w))
      [''+'', ''-'', ''*'', ''/'', ''('', '')'', '':'', '';'', ''='', ''<'', ''>'', '','']"
    by (simp add: setup_tokens_def ascii_def eval_nat_numeral)
  then show ?thesis by (simp add: all_tokens_def words_def entries_from_names)
qed

lemma first_match_skip:
  "\<forall>e\<in>set es. \<forall>v. te_name e = Some v \<longrightarrow> starts_with cs v = Some False \<Longrightarrow>
    first_match cs (es @ es') = first_match cs es'"
  by (induction es) (auto split: option.splits)

lemma length_all_tokens: "length all_tokens = 6 + length words"
proof -
  have "length (map te_name all_tokens) = length (replicate 6 None @ map (\<lambda>w. Some (ascii w)) words)"
    by (simp only: all_tokens_names)
  then show ?thesis by simp
qed

lemma all_tokens_nth: "i < length words \<Longrightarrow> te_name (all_tokens ! (6 + i)) = Some (ascii (words ! i))"
  using nth_map [of "6 + i" all_tokens te_name] length_all_tokens
  by (simp add: all_tokens_names nth_append)

lemma word_match:
  assumes "i < length words"
  shows "first_match (ascii (words ! i) @ rest) all_tokens
    = Some (Some (te_token (all_tokens ! (6 + i)), length (words ! i)))"
proof -
  let ?w = "ascii (words ! i)"
  note len = length_all_tokens
  have "starts_with (?w @ rest) v = Some False"
    if "e \<in> set (take (6 + i) all_tokens)" and v: "te_name e = Some v" for e v
  proof -
    obtain j where j: "j < 6 + i" "e = all_tokens ! j"
      using \<open>e \<in> _\<close> len assms by (auto simp: in_set_conv_nth)
    have "j \<ge> 6"
      using v j nth_map [of j all_tokens te_name] len assms
      by (cases "j < 6") (auto simp: all_tokens_names nth_append)
    then obtain l where "j = 6 + l" using le_Suc_ex by blast
    then have "v = ascii (words ! l)" "l < i"
      using v j all_tokens_nth [of l] assms by auto
    then show ?thesis
      using separate_nth [OF words_separate, of l i] assms
      by (simp add: differ_starts_with differ_ascii)
  qed
  then have "first_match (?w @ rest) (take (6 + i) all_tokens @ drop (6 + i) all_tokens)
      = first_match (?w @ rest) (drop (6 + i) all_tokens)"
    by (intro first_match_skip) blast
  then have "first_match (?w @ rest) all_tokens = first_match (?w @ rest) (drop (6 + i) all_tokens)"
    by (simp only: append_take_drop_id)
  moreover have "drop (6 + i) all_tokens = all_tokens ! (6 + i) # drop (Suc (6 + i)) all_tokens"
    using len assms by (intro Cons_nth_drop_Suc [symmetric]) simp
  ultimately show ?thesis
    using all_tokens_nth [OF assms] by (simp add: starts_with_append length_ascii)
qed

lemma find_function_loop_find:
  assumes "holds_entries a (fs0 @ fs)"
  shows "find_function_loop a s type [length fs0..<length (fs0 @ fs)]
    = Some (List.find (\<lambda>bf. bf_type bf = type \<and> bf_token bf = s) fs)"
  using assms
proof (induction fs arbitrary: fs0)
  case (Cons f fs)
  have "array_get a (length fs0) = Some (Some f)"
    using Cons.prems by (simp add: array_get_def holds_entries_def nth_append)
  then show ?case
    using Cons.IH [of "fs0 @ [f]"] Cons.prems by (simp add: upt_conv_Cons del: upt_Suc)
qed simp

lemma find_function_find:
  "holds_entries (basic_functions st) fs \<Longrightarrow> find_basic_function_by_type st s type
    = Some (List.find (\<lambda>bf. bf_type bf = type \<and> bf_token bf = s) fs)"
  using find_function_loop_find [of "basic_functions st" "[]" fs s type]
  by (simp add: find_basic_function_by_type_def array_size_def holds_entries_def)

lemma basic_token_id_inject [simp]: "basic_token_id i = basic_token_id j \<longleftrightarrow> i = j"
  by (simp add: basic_token_id_def)

lemma functions_from_find:
  "i < length rs \<Longrightarrow> rs ! i = Function type name f kinds \<Longrightarrow>
    List.find (\<lambda>bf. bf_type bf = type \<and> bf_token bf = basic_token_id (k + i)) (functions_from k rs)
    = Some \<lparr>bf_token = basic_token_id (k + i), bf_type = type, bf_nr_arguments = length kinds,
        bf_kinds = kinds, bf_function = f\<rparr>"
proof (induction rs arbitrary: i k)
  case (Cons r rs)
  show ?case
  proof (cases i)
    case 0
    then show ?thesis using Cons.prems by simp
  next
    case (Suc j)
    then show ?thesis using Cons.IH [of j "Suc k"] Cons.prems by (cases r) auto
  qed
qed simp

lemma functions_from_tokens: "bf \<in> set (functions_from k rs) \<Longrightarrow> basic_token_id k \<le> bf_token bf"
proof (induction k rs rule: functions_from.induct)
  case (2 k name rs)
  then show ?case by (simp add: basic_token_id_def)
next
  case (3 k type name f kinds rs)
  then show ?case by (auto simp: basic_token_id_def)
qed simp

lemma no_function:
  "holds_entries (basic_functions st) all_functions \<Longrightarrow> s < TOKEN_TYPE_END \<Longrightarrow>
    find_basic_function_by_type st s type = Some None"
  by (auto simp: find_function_find find_None_iff all_functions_def basic_token_id_def
      dest!: functions_from_tokens)

lemma registration_names:
  "r \<in> set registrations \<Longrightarrow> \<exists>c cs. ascii (registration_name r) = c # cs \<and> (65 \<le> c \<and> c \<le> 90 \<or> c = 63)"
  unfolding registrations_def ascii_def by auto

lemma word_starts:
  assumes "i < length words"
  shows "\<exists>c cs. ascii (words ! i) = c # cs \<and> c \<noteq> 0 \<and> \<not> isspace c \<and> \<not> isdigit c \<and> c \<noteq> 46 \<and> c \<noteq> 34"
proof -
  have "\<exists>c cs. ascii w = c # cs \<and> (65 \<le> c \<and> c \<le> 90 \<or> c = 63)" if "w \<in> registration_name ` set registrations" for w
    using that registration_names by auto
  moreover have "words ! i \<in> set words" using assms by simp
  ultimately show ?thesis
    unfolding words_def set_append set_map
    by (elim UnE) (fastforce simp: ascii_def isspace_def isdigit_def word_le_nat_alt)+
qed

text \<open>The state after a token of \<open>n\<close> characters that carries no value.\<close>

definition advance :: "nat \<Rightarrow> token \<Rightarrow> 'f basic \<Rightarrow> 'f basic" where
  "advance n t st = (let p = ptr_add (tokenizer_p (tok st)) n in
     st\<lparr>tok := (tok st)\<lparr>tokenizer_p := p, tokenizer_next_p := p\<rparr>, sym := t\<rparr>)"

lemma get_sym_word:
  assumes "basic_ok n st" and "i < length words" and "\<forall>c\<in>set sp. isspace c"
    and "view (text_of st) (tokenizer_p (tok st)) = Some (sp @ ascii (words ! i) @ rest)"
    and "te_token (all_tokens ! (6 + i)) \<noteq> T_THE_END"
  shows "get_sym F st = Some (advance (length sp + length (words ! i)) (te_token (all_tokens ! (6 + i))) st)"
proof -
  let ?w = "ascii (words ! i)" and ?s = "te_token (all_tokens ! (6 + i))"
  let ?t = "(tok st)\<lparr>tokenizer_p := ptr_add (tokenizer_p (tok st)) (length sp)\<rparr>"
  let ?t' = "?t\<lparr>tokenizer_next_p := ptr_add (tokenizer_p ?t) (length ?w),
    tokenizer_p := ptr_add (tokenizer_p ?t) (length ?w)\<rparr>"
  obtain c cs where w: "?w = c # cs"
    and c: "c \<noteq> 0" "\<not> isspace c" "\<not> isdigit c" "c \<noteq> 46" "c \<noteq> 34"
    using word_starts [OF assms(2)] by auto
  have sp: "\<forall>d\<in>set sp. d \<noteq> 0 \<and> isspace d"
    using assms(3) by (auto simp: isspace_def)
  have view: "view (text_of st) (tokenizer_p ?t) = Some (?w @ rest)"
    using view_add [OF assms(4), of "length sp"] by simp
  then have "find_registered (text_of st) ?t = Some (?s, ?t')"
    using find_registered_match [of ?t all_tokens, OF _ view] assms(1) word_match [OF assms(2), of rest]
    by (simp add: basic_ok_def Let_def length_ascii)
  then have "tokenizer_get_next_token (f_scan F) (text_of st) ?t = Some (?s, ?t')"
    using next_token_at [of "text_of st" ?t c "cs @ rest" "f_scan F"] view w c assms(5) by simp
  moreover have "tokenizer_get_next_token (f_scan F) (text_of st) (tok st)
      = tokenizer_get_next_token (f_scan F) (text_of st) ?t"
    using next_token_space [of "text_of st" "tok st" sp c "cs @ rest"] assms(4) w sp c by simp
  ultimately show ?thesis by (simp add: get_sym_def advance_def Let_def length_ascii)
qed

subsection \<open>Sample states\<close>

text \<open>Integer arithmetic in the place of floats and a state before \<^verbatim>\<open>basic_init\<close>.\<close>

definition int_floats :: "int floats" where
  "int_floats = \<lparr>f_of_int = (\<lambda>i. i), f_trunc = Some, f_add = (+), f_sub = (-), f_mul = (*), f_div = (div),
     f_lt = (<), f_eq = (=), f_scan = (\<lambda>s. Some (digits_value s)), f_atof = digits_value,
     f_strtof = digits_value, f_show = decimal_int, f_ratio = (div), f_fabs = abs,
     f_sqrt = (\<lambda>x. x), f_sinf = (\<lambda>x. 0), f_cosf = (\<lambda>x. 1), f_tanf = (\<lambda>x. 0), f_logf = (\<lambda>x. 0),
     f_expf = (\<lambda>x. 1), f_atanf = (\<lambda>x. 0), f_powf = (\<lambda>x y. x ^ nat y), rand_max = 32767,
     rand_seq = (\<lambda>_. []), tm_sec = 0, file_contents = (\<lambda>_. None)\<rparr>"

definition blank_state :: "int basic" where
  "blank_state = \<lparr>tok = \<lparr>token_array = array_new 16, tokenizer_line = Null, tokenizer_p = Null,
       tokenizer_next_p = Null, tokenizer_actual_number = 0, tokenizer_actual_string = replicate 64 0,
       tokenizer_actual_variable = replicate 8 0\<rparr>,
     sym = T_EOF, eval_no = 0, eval_line = [], prog = \<lparr>lines_memory = [], lines_memory_end = 0,
       lines_memory_size = 0\<rparr>, vars = no_variables, basic_functions = array_new 16, cur_line = 0,
     cur_cursor = Null, stack_frames = [], stack_p = 0, RUNNING = False, REPL = True, STOPPED = False,
     data_ptr = \<lparr>data_line = 0, data_cursor = Null, data_char_pointer = Null,
       data_state_of = data_state_init\<rparr>, out = [], inp = [], rands = []\<rparr>"

lemma blank_buffers:
  "length (tokenizer_actual_string (tok blank_state)) = tokenizer_string_length"
  "length (tokenizer_actual_variable (tok blank_state)) = tokenizer_variable_length"
  by (simp_all add: blank_state_def tokenizer_string_length_def tokenizer_variable_length_def)

definition with_text :: "cstring \<Rightarrow> 'f basic \<Rightarrow> 'f basic" where
  "with_text s st = st\<lparr>eval_line := s @ [0], tok := (tok st)\<lparr>tokenizer_p := Input (eval_no st) 0\<rparr>\<rparr>"

lemma with_text_ok [simp]: "basic_ok n (with_text s st) = basic_ok n st"
  by (simp add: basic_ok_def with_text_def stack_total_def)

lemma with_text_view [simp]: "view (text_of (with_text s st)) (tokenizer_p (tok (with_text s st))) = Some (s @ [0])"
  by (simp add: with_text_def text_of_def)

lemma sample_ok: "\<exists>st :: int basic. basic_ok 2048 st \<and> stack_frames st = [] \<and> holds_program (prog st) []
    \<and> var_table (vars st) = replicate HASHSIZE []"
  using basic_init_tables [OF blank_buffers, of "replicate 400 7" 2048] by auto

subsection \<open>Properties\<close>

lemma frame_size_ge: "24 * length fs \<le> sum_list (map frame_size fs)"
proof (induction fs)
  case (Cons f fs)
  then show ?case by (cases f) (simp_all add: sizeof_gosub_def sizeof_for_def)
qed simp

lemma basic_ok_facts:
  "basic_ok n st \<Longrightarrow>
     holds_entries (token_array (tok st)) all_tokens \<and> holds_entries (basic_functions st) all_functions \<and>
     length (tokenizer_actual_string (tok st)) = 64 \<and> length (tokenizer_actual_variable (tok st)) = 8 \<and>
     stack_p st + sum_list (map frame_size (stack_frames st)) = n \<and> 24 * length (stack_frames st) \<le> n"
  using frame_size_ge [of "stack_frames st"]
  by (simp add: basic_ok_def stack_total_def tokenizer_string_length_def tokenizer_variable_length_def)

text \<open>C26. In a state that \<^verbatim>\<open>basic_init\<close> made, the text of every registered word, after any white space and
  whatever follows it, is read as the token of that word and of no other, and the token of a word registered
  with a function finds exactly this function.\<close>

theorem keyword_token:
  assumes "basic_ok n st" and "i < length registrations" and "\<forall>c\<in>set sp. isspace c"
    and "view (text_of st) (tokenizer_p (tok st)) = Some (sp @ ascii (registration_name (registrations ! i)) @ rest)"
  shows "(let p = ptr_add (tokenizer_p (tok st)) (length sp + length (registration_name (registrations ! i))) in
      get_sym F st = Some (st\<lparr>tok := (tok st)\<lparr>tokenizer_p := p, tokenizer_next_p := p\<rparr>, sym := basic_token_id i\<rparr>))
    \<and> (case registrations ! i of Token _ \<Rightarrow> True | Function type _ f kinds \<Rightarrow>
         find_basic_function_by_type st (basic_token_id i) type = Some (Some \<lparr>bf_token = basic_token_id i,
           bf_type = type, bf_nr_arguments = length kinds, bf_kinds = kinds, bf_function = f\<rparr>))"
proof -
  let ?w = "registration_name (registrations ! i)"
  have word: "words ! (12 + i) = ?w" and token: "te_token (all_tokens ! (18 + i)) = basic_token_id i"
    using assms(2) entries_from_token [of i registrations 0]
    by (simp_all add: words_def all_tokens_def nth_append setup_tokens_def)
  have "get_sym F st = Some (advance (length sp + length ?w) (basic_token_id i) st)"
    using get_sym_word [of n st "12 + i" sp rest F] assms word token
    by (simp add: words_def basic_token_id_def token_defs)
  moreover have "case registrations ! i of Token _ \<Rightarrow> True | Function type _ f kinds \<Rightarrow>
         find_basic_function_by_type st (basic_token_id i) type = Some (Some \<lparr>bf_token = basic_token_id i,
           bf_type = type, bf_nr_arguments = length kinds, bf_kinds = kinds, bf_function = f\<rparr>)"
    using assms(1,2) functions_from_find [of i registrations _ _ _ _ 0]
    by (auto simp: basic_ok_def find_function_find all_functions_def split: registration.split)
  ultimately show ?thesis by (simp add: Let_def advance_def)
qed

theorem keyword_token_witness:
  "\<exists>st :: int basic. basic_ok 2048 st \<and> 30 < length registrations \<and>
    get_sym int_floats st = Some (advance 6 t_keyword_print st) \<and>
    find_basic_function_by_type st t_keyword_print basic_function_type_keyword = Some (Some
      \<lparr>bf_token = t_keyword_print, bf_type = basic_function_type_keyword, bf_nr_arguments = 0,
       bf_kinds = [], bf_function = Do_print\<rparr>)"
proof -
  obtain st0 :: "int basic" where st0: "basic_ok 2048 st0" using sample_ok by blast
  have n: "30 < length registrations" and r: "registrations ! 30 = keyword ''PRINT'' Do_print"
    by (simp_all add: registrations_def)
  have sp: "\<forall>c\<in>set [32 :: byte]. isspace c" by (simp add: isspace_def)
  let ?st = "with_text ([32] @ ascii ''PRINT'') st0"
  have v: "view (text_of ?st) (tokenizer_p (tok ?st))
      = Some ([32] @ ascii (registration_name (registrations ! 30)) @ [0])"
    using with_text_view [of "[32] @ ascii ''PRINT''" st0] r by simp
  show ?thesis
    using keyword_token [OF _ n sp v, of 2048 int_floats] st0 n r
    by (intro exI [of _ ?st]) (simp add: Let_def advance_def t_keyword_print_def eval_nat_numeral)
qed

end
