(* ===== verification/Basic_Arithmetic.thy ===== *)
theory Basic_Arithmetic
  imports Basic_Tables
begin

section \<open>BASIC: the values of arithmetic expressions\<close>

text \<open>
  A reference semantics for the expressions of the language and the proof that the parser, which
  evaluates while it reads, computes it.  The syntax trees follow the functions of the parser:
  sums of products of factors, where a factor may be a relation.  \<open>spelled\<close> relates the text of an
  expression, with arbitrary white space between the lexemes, to the lexemes of its tree.
\<close>

subsection \<open>Lexemes\<close>

datatype lexeme = Word nat | Number cstring | Name cstring | End_of_line

text \<open>The positions of the operators in the list of words.\<close>

abbreviation "l_plus \<equiv> Word 0"
abbreviation "l_minus \<equiv> Word 1"
abbreviation "l_times \<equiv> Word 2"
abbreviation "l_divide \<equiv> Word 3"
abbreviation "l_open \<equiv> Word 4"
abbreviation "l_close \<equiv> Word 5"
abbreviation "l_equals \<equiv> Word 8"
abbreviation "l_less \<equiv> Word 9"
abbreviation "l_greater \<equiv> Word 10"

fun lexeme_token :: "lexeme \<Rightarrow> token" where
  "lexeme_token (Word i) = te_token (all_tokens ! (6 + i))"
| "lexeme_token (Number _) = T_NUMBER"
| "lexeme_token (Name _) = T_VARIABLE_NUMBER"
| "lexeme_token End_of_line = T_EOF"

fun spelling :: "lexeme \<Rightarrow> cstring" where
  "spelling (Word i) = ascii (words ! i)"
| "spelling (Number ds) = ds"
| "spelling (Name v) = v"
| "spelling End_of_line = []"

text \<open>A name that the tokenizer reads as a numeric variable.\<close>

definition plain_name :: "cstring \<Rightarrow> bool" where
  "plain_name v \<longleftrightarrow> v \<noteq> [] \<and> list_all isvarchar v \<and> \<not> isdigit (hd v) \<and> last v \<noteq> 36 \<and>
     length v < tokenizer_variable_length \<and> list_all (\<lambda>w. take (length w) v \<noteq> ascii w) words"

definition plain_number :: "'f floats \<Rightarrow> cstring \<Rightarrow> bool" where
  "plain_number F ds \<longleftrightarrow> ds \<noteq> [] \<and> list_all (\<lambda>c. isdigit c \<or> c = 46) ds \<and> f_scan F ds \<noteq> None"

text \<open>What a lexeme needs of itself and of the text behind it.\<close>

fun lexeme_ok :: "'f floats \<Rightarrow> lexeme \<Rightarrow> cstring \<Rightarrow> bool" where
  "lexeme_ok F (Word i) r \<longleftrightarrow> i < length words"
| "lexeme_ok F (Number ds) r \<longleftrightarrow> plain_number F ds \<and> r \<noteq> [] \<and> \<not> isdigit (hd r) \<and> hd r \<noteq> 46"
| "lexeme_ok F (Name v) r \<longleftrightarrow> plain_name v \<and> r \<noteq> [] \<and> \<not> isvarchar (hd r)"
| "lexeme_ok F End_of_line r \<longleftrightarrow> r \<noteq> [] \<and> hd r = 0"

fun spelled :: "'f floats \<Rightarrow> lexeme list \<Rightarrow> cstring \<Rightarrow> bool" where
  "spelled F [] t \<longleftrightarrow> True"
| "spelled F (l # ls) t \<longleftrightarrow> (\<exists>sp r. t = sp @ spelling l @ r \<and> (\<forall>c\<in>set sp. isspace c) \<and>
     (l = End_of_line \<longrightarrow> sp = []) \<and> lexeme_ok F l r \<and> spelled F ls r)"

text \<open>The tokenizer has read the first lexeme and the text behind it spells the others.\<close>

fun value_read :: "'f floats \<Rightarrow> lexeme \<Rightarrow> 'f tokenizer \<Rightarrow> bool" where
  "value_read F (Number ds) t \<longleftrightarrow> f_scan F ds = Some (tokenizer_get_number t)"
| "value_read F (Name v) t \<longleftrightarrow> tokenizer_get_variable_name t = Some v"
| "value_read F _ t \<longleftrightarrow> True"

definition reads :: "'f floats \<Rightarrow> 'f basic \<Rightarrow> lexeme list \<Rightarrow> bool" where
  "reads F st ls \<longleftrightarrow> (case ls of [] \<Rightarrow> False | l # ls \<Rightarrow>
     sym st = lexeme_token l \<and> value_read F l (tok st) \<and>
     (\<exists>t. view (text_of st) (tokenizer_p (tok st)) = Some t \<and> spelled F ls t \<and>
        (l = End_of_line \<longrightarrow> t \<noteq> [] \<and> hd t = 0)))"

subsection \<open>Reading a lexeme\<close>

lemma starts_with_name:
  "take (length w) v \<noteq> w \<Longrightarrow> list_all isvarchar w \<Longrightarrow> \<not> isvarchar d \<Longrightarrow>
    starts_with (v @ d # r) w = Some False"
proof (induction w arbitrary: v)
  case (Cons x w)
  then show ?case by (cases v) auto
qed simp

lemma name_no_word:
  assumes "plain_name v" and "\<not> isvarchar d" and "w \<in> set words"
  shows "starts_with (v @ d # r) (ascii w) = Some False"
proof -
  have "\<forall>w\<in>set words. 1 < length w \<longrightarrow> list_all (\<lambda>c. isvarchar (of_char c)) w"
    unfolding words_def registrations_def by (simp add: isvarchar_def)
  then have w: "list_all isvarchar (ascii w) \<or> length w \<le> 1"
    using assms(3) by (force simp: ascii_def list_all_iff)
  have no: "take (length (ascii w)) v \<noteq> ascii w" and v: "v \<noteq> []"
    using assms(1,3) by (auto simp: plain_name_def list_all_iff length_ascii)
  show ?thesis
  proof (cases "list_all isvarchar (ascii w)")
    case True
    then show ?thesis using starts_with_name [OF no] assms(2) by blast
  next
    case False
    then have "ascii w \<noteq> []" by auto
    then have "length (ascii w) = 1" using w False by (simp add: length_ascii ascii_def le_Suc_eq)
    then obtain x where "ascii w = [x]" by (auto simp: length_Suc_conv)
    then show ?thesis using no v by (cases v) auto
  qed
qed

lemma name_no_match:
  assumes "plain_name v" and "\<not> isvarchar d"
  shows "first_match (v @ d # r) all_tokens = Some None"
proof -
  have "starts_with (v @ d # r) x = Some False" if "e \<in> set all_tokens" and "te_name e = Some x" for e x
  proof -
    have "Some x \<in> set (map te_name all_tokens)" using that by (metis image_eqI list.set_map)
    then obtain w where "w \<in> set words" "x = ascii w" by (auto simp: all_tokens_names)
    then show ?thesis using name_no_word [OF assms] by simp
  qed
  then show ?thesis using first_match_skip [of all_tokens "v @ d # r" "[]"] by auto
qed

text \<open>Reading a lexeme changes the tokenizer and the symbol only.\<close>

definition only_tok :: "'f basic \<Rightarrow> 'f basic \<Rightarrow> bool" where
  "only_tok st st' \<longleftrightarrow> (\<exists>t s. st' = st\<lparr>tok := t, sym := s\<rparr>) \<and> scanner (tok st') = scanner (tok st)"

lemma only_tok_refl [simp]: "only_tok st st"
  by (auto simp: only_tok_def intro!: exI [of _ "tok st"] exI [of _ "sym st"])

lemma only_tok_trans [trans]: "only_tok st st' \<Longrightarrow> only_tok st' st'' \<Longrightarrow> only_tok st st''"
  by (fastforce simp: only_tok_def)

lemma only_tok_ok: "only_tok st st' \<Longrightarrow> basic_ok n st' = basic_ok n st"
  by (auto simp: only_tok_def basic_ok_def scanner_def stack_total_def)

lemma only_tok_vars: "only_tok st st' \<Longrightarrow> vars st' = vars st"
  by (auto simp: only_tok_def)

lemma get_sym_only_tok: "get_sym F st = Some st' \<Longrightarrow> only_tok st st'"
  by (auto simp: get_sym_def only_tok_def elim!: result_elims dest: next_token_scanner)

lemma spaces_nonzero: "\<forall>c\<in>set sp. isspace c \<Longrightarrow> \<forall>c\<in>set sp. c \<noteq> 0 \<and> isspace c"
  by (auto simp: isspace_def)

lemma get_sym_number:
  assumes "view (text_of st) (tokenizer_p (tok st)) = Some (sp @ ds @ r)" and "\<forall>c\<in>set sp. isspace c"
    and "lexeme_ok F (Number ds) r"
  shows "\<exists>st'. get_sym F st = Some st' \<and> sym st' = T_NUMBER \<and> value_read F (Number ds) (tok st') \<and>
    view (text_of st') (tokenizer_p (tok st')) = Some r"
proof -
  let ?t = "(tok st)\<lparr>tokenizer_p := ptr_add (tokenizer_p (tok st)) (length sp)\<rparr>"
  let ?mem = "text_of st"
  obtain c ds' where ds: "ds = c # ds'" using assms(3) by (cases ds) (auto simp: plain_number_def)
  obtain e r' where r: "r = e # r'" using assms(3) by (cases r) auto
  obtain f where f: "f_scan F ds = Some f" using assms(3) by (auto simp: plain_number_def)
  have c: "c \<noteq> 0" "\<not> isspace c"
    using assms(3) ds by (auto simp: plain_number_def isdigit_def isspace_def word_le_nat_alt)
  have view: "view ?mem (tokenizer_p ?t) = Some (ds @ r)"
    using view_add [OF assms(1), of "length sp"] by simp
  have "tokenizer_get_next_token (f_scan F) ?mem (tok st) = tokenizer_get_next_token (f_scan F) ?mem ?t"
    using next_token_space [OF _ spaces_nonzero [OF assms(2)] c, of ?mem "tok st" "ds' @ r"] assms(1) ds by simp
  also have "\<dots> = (let p = ptr_add (tokenizer_p ?t) (length ds) in
      Some (T_NUMBER, ?t\<lparr>tokenizer_next_p := p, tokenizer_p := p, tokenizer_actual_number := f\<rparr>))"
    using assms(3) view r f
    by (intro next_token_number [of _ _ _ e r']) (auto simp: plain_number_def list_all_iff)
  finally show ?thesis
    using f view_add [OF view, of "length ds"]
    by (simp add: get_sym_def Let_def tokenizer_get_number_def text_of_def)
qed

lemma get_sym_name:
  assumes "view (text_of st) (tokenizer_p (tok st)) = Some (sp @ v @ r)" and "\<forall>c\<in>set sp. isspace c"
    and "lexeme_ok F (Name v) r" and "basic_ok n st"
  shows "\<exists>st'. get_sym F st = Some st' \<and> sym st' = T_VARIABLE_NUMBER \<and> value_read F (Name v) (tok st') \<and>
    view (text_of st') (tokenizer_p (tok st')) = Some r"
proof -
  let ?t = "(tok st)\<lparr>tokenizer_p := ptr_add (tokenizer_p (tok st)) (length sp)\<rparr>"
  let ?mem = "text_of st"
  obtain c v' where v: "v = c # v'" using assms(3) by (cases v) (auto simp: plain_name_def)
  obtain e r' where r: "r = e # r'" using assms(3) by (cases r) auto
  have plain: "plain_name v" "\<not> isvarchar e" using assms(3) r by auto
  have c: "c \<noteq> 0" "\<not> isspace c"
    using plain v by (auto simp: plain_name_def isvarchar_def isspace_def word_le_nat_alt split: if_splits)
  have "is_cstring v"
    using plain(1) by (auto simp: plain_name_def is_cstring_def list_all_iff isvarchar_def split: if_splits)
  moreover have view: "view ?mem (tokenizer_p ?t) = Some (v @ e # r')"
    using view_add [OF assms(1), of "length sp"] r by simp
  moreover have "tokenizer_get_next_token (f_scan F) ?mem (tok st) = tokenizer_get_next_token (f_scan F) ?mem ?t"
    using next_token_space [OF _ spaces_nonzero [OF assms(2)] c, of ?mem "tok st" "v' @ r"] assms(1) v by simp
  ultimately show ?thesis
    using read_variable_cases [of ?mem ?t v e r' all_tokens "f_scan F"] assms(4) plain
      name_no_match [OF plain, of r'] view_add [OF view, of "length v"] r
    by (simp add: get_sym_def tokenizer_get_variable_name_def cstring_at_start basic_ok_def plain_name_def text_of_def)
qed

lemma get_sym_lexeme:
  assumes "reads F st (l # l' # ls)" and "basic_ok n st" and "lexeme_token l' \<noteq> T_THE_END"
  shows "\<exists>st'. get_sym F st = Some st' \<and> reads F st' (l' # ls)"
proof -
  obtain sp r where view: "view (text_of st) (tokenizer_p (tok st)) = Some (sp @ spelling l' @ r)"
    and sp: "\<forall>c\<in>set sp. isspace c" and eol: "l' = End_of_line \<longrightarrow> sp = []"
    and l': "lexeme_ok F l' r" and ls: "spelled F ls r"
    using assms(1) by (auto simp: reads_def)
  show ?thesis
  proof (cases l')
    case (Word i)
    then have "get_sym F st = Some (advance (length sp + length (words ! i)) (lexeme_token l') st)"
      using get_sym_word [OF assms(2) _ sp, of i r F] view l' assms(3) by simp
    moreover have "view (text_of st) (ptr_add (tokenizer_p (tok st)) (length sp + length (words ! i))) = Some r"
      using view_add [OF view, of "length sp + length (words ! i)"] Word by (simp add: length_ascii)
    ultimately show ?thesis
      using Word ls by (auto simp: advance_def Let_def reads_def text_of_def)
  next
    case (Number ds)
    then show ?thesis using get_sym_number [OF _ sp, of st ds r F] view l' ls by (fastforce simp: reads_def)
  next
    case (Name v)
    then show ?thesis using get_sym_name [OF _ sp _ assms(2), of v r F] view l' ls by (fastforce simp: reads_def)
  next
    case End_of_line
    then obtain r' where r: "r = 0 # r'" using l' by (cases r) auto
    then have "get_sym F st = Some (st\<lparr>sym := T_EOF\<rparr>)"
      using view eol End_of_line next_token_eof [of "text_of st" "tok st" r' "f_scan F"] by (simp add: get_sym_def)
    then show ?thesis using End_of_line view eol ls r by (auto simp: reads_def text_of_def)
  qed
qed

lemma operator_tokens [simp]:
  "te_token (all_tokens ! 6) = T_PLUS" "te_token (all_tokens ! 7) = T_MINUS"
  "te_token (all_tokens ! 8) = T_MULTIPLY" "te_token (all_tokens ! 9) = T_DIVIDE"
  "te_token (all_tokens ! 10) = T_LEFT_BANANA" "te_token (all_tokens ! 11) = T_RIGHT_BANANA"
  "te_token (all_tokens ! 14) = T_EQUALS" "te_token (all_tokens ! 15) = T_LESS"
  "te_token (all_tokens ! 16) = T_GREATER"
  by (simp_all add: all_tokens_def setup_tokens_def)

subsection \<open>Syntax trees, their lexemes and their values\<close>

datatype sum = First "bool option" prod | Plus_minus sum bool prod
  and prod = Single fact | Times_divide prod bool fact
  and fact = Plain atom | Rel atom relop fact
  and atom = Lit cstring | Var cstring | Group sum

fun relop_lexemes :: "relop \<Rightarrow> lexeme list" where
  "relop_lexemes OP_NOP = []"
| "relop_lexemes OP_LT = [l_less]"
| "relop_lexemes OP_LE = [l_less, l_equals]"
| "relop_lexemes OP_EQ = [l_equals]"
| "relop_lexemes OP_GE = [l_greater, l_equals]"
| "relop_lexemes OP_GT = [l_greater]"
| "relop_lexemes OP_NE = [l_less, l_greater]"

text \<open>The sign of a sum: \<open>None\<close>, \<open>Some True\<close> for plus, \<open>Some False\<close> for minus.\<close>

fun sum_lexemes :: "sum \<Rightarrow> lexeme list"
  and prod_lexemes :: "prod \<Rightarrow> lexeme list"
  and fact_lexemes :: "fact \<Rightarrow> lexeme list"
  and atom_lexemes :: "atom \<Rightarrow> lexeme list" where
  "sum_lexemes (First sign p) =
     (case sign of None \<Rightarrow> [] | Some b \<Rightarrow> [if b then l_plus else l_minus]) @ prod_lexemes p"
| "sum_lexemes (Plus_minus s b p) = sum_lexemes s @ (if b then l_plus else l_minus) # prod_lexemes p"
| "prod_lexemes (Single f) = fact_lexemes f"
| "prod_lexemes (Times_divide p b f) = prod_lexemes p @ (if b then l_times else l_divide) # fact_lexemes f"
| "fact_lexemes (Plain a) = atom_lexemes a"
| "fact_lexemes (Rel a op f) = atom_lexemes a @ relop_lexemes op @ fact_lexemes f"
| "atom_lexemes (Lit ds) = [Number ds]"
| "atom_lexemes (Var v) = [Name v]"
| "atom_lexemes (Group s) = l_open # sum_lexemes s @ [l_close]"

fun relop_holds :: "'f floats \<Rightarrow> relop \<Rightarrow> 'f \<Rightarrow> 'f \<Rightarrow> bool" where
  "relop_holds F OP_NOP x y = False"
| "relop_holds F OP_LT x y = f_lt F x y"
| "relop_holds F OP_LE x y = (f_lt F x y \<or> f_eq F x y)"
| "relop_holds F OP_EQ x y = f_eq F x y"
| "relop_holds F OP_GE x y = (f_lt F y x \<or> f_eq F x y)"
| "relop_holds F OP_GT x y = f_lt F y x"
| "relop_holds F OP_NE x y = (\<not> f_eq F x y)"

fun sum_value :: "'f floats \<Rightarrow> (cstring \<Rightarrow> 'f) \<Rightarrow> sum \<Rightarrow> 'f"
  and prod_value :: "'f floats \<Rightarrow> (cstring \<Rightarrow> 'f) \<Rightarrow> prod \<Rightarrow> 'f"
  and fact_value :: "'f floats \<Rightarrow> (cstring \<Rightarrow> 'f) \<Rightarrow> fact \<Rightarrow> 'f"
  and atom_value :: "'f floats \<Rightarrow> (cstring \<Rightarrow> 'f) \<Rightarrow> atom \<Rightarrow> 'f" where
  "sum_value F env (First sign p) =
     (if sign = Some False then f_mul F (f_of_int F (- 1)) (prod_value F env p) else prod_value F env p)"
| "sum_value F env (Plus_minus s b p) =
     (if b then f_add F else f_sub F) (sum_value F env s) (prod_value F env p)"
| "prod_value F env (Single f) = fact_value F env f"
| "prod_value F env (Times_divide p b f) =
     (if b then f_mul F else f_div F) (prod_value F env p) (fact_value F env f)"
| "fact_value F env (Plain a) = atom_value F env a"
| "fact_value F env (Rel a op f) = f_bool F (relop_holds F op (atom_value F env a) (fact_value F env f))"
| "atom_value F env (Lit ds) = the (f_scan F ds)"
| "atom_value F env (Var v) = env v"
| "atom_value F env (Group s) = sum_value F env s"

text \<open>Every relation is one the language has, and every variable holds the number the environment gives.\<close>

fun sum_ok :: "(cstring \<Rightarrow> bool) \<Rightarrow> sum \<Rightarrow> bool"
  and prod_ok :: "(cstring \<Rightarrow> bool) \<Rightarrow> prod \<Rightarrow> bool"
  and fact_ok :: "(cstring \<Rightarrow> bool) \<Rightarrow> fact \<Rightarrow> bool"
  and atom_ok :: "(cstring \<Rightarrow> bool) \<Rightarrow> atom \<Rightarrow> bool" where
  "sum_ok P (First sign p) = prod_ok P p"
| "sum_ok P (Plus_minus s b p) = (sum_ok P s \<and> prod_ok P p)"
| "prod_ok P (Single f) = fact_ok P f"
| "prod_ok P (Times_divide p b f) = (prod_ok P p \<and> fact_ok P f)"
| "fact_ok P (Plain a) = atom_ok P a"
| "fact_ok P (Rel a op f) = (atom_ok P a \<and> op \<noteq> OP_NOP \<and> fact_ok P f)"
| "atom_ok P (Lit ds) = True"
| "atom_ok P (Var v) = P v"
| "atom_ok P (Group s) = sum_ok P s"

text \<open>Fuel that is enough for a tree, and the number of operators at the top of a sum or product.\<close>

fun sum_fuel :: "sum \<Rightarrow> nat"
  and prod_fuel :: "prod \<Rightarrow> nat"
  and fact_fuel :: "fact \<Rightarrow> nat"
  and atom_fuel :: "atom \<Rightarrow> nat" where
  "sum_fuel (First sign p) = prod_fuel p + 1"
| "sum_fuel (Plus_minus s b p) = sum_fuel s + prod_fuel p + 1"
| "prod_fuel (Single f) = fact_fuel f + 1"
| "prod_fuel (Times_divide p b f) = prod_fuel p + fact_fuel f + 1"
| "fact_fuel (Plain a) = atom_fuel a + 1"
| "fact_fuel (Rel a op f) = atom_fuel a + fact_fuel f + 1"
| "atom_fuel (Lit ds) = 0"
| "atom_fuel (Var v) = 0"
| "atom_fuel (Group s) = sum_fuel s + 1"

fun sum_ops :: "sum \<Rightarrow> nat" where
  "sum_ops (First sign p) = 0"
| "sum_ops (Plus_minus s b p) = sum_ops s + 1"

fun prod_ops :: "prod \<Rightarrow> nat" where
  "prod_ops (Single f) = 0"
| "prod_ops (Times_divide p b f) = prod_ops p + 1"

lemma prod_ops_fuel: "prod_ops p < prod_fuel p"
  by (induction p) simp_all

lemma sum_ops_fuel: "sum_ops s < sum_fuel s"
  by (induction s) simp_all

subsection \<open>One step of the parser\<close>

definition good :: "nat \<Rightarrow> 'f variables_state \<Rightarrow> 'f basic \<Rightarrow> bool" where
  "good k vs st \<longleftrightarrow> basic_ok k st \<and> vars st = vs"

lemma good_only_tok: "only_tok st st' \<Longrightarrow> good k vs st \<Longrightarrow> good k vs st'"
  by (simp add: good_def only_tok_ok only_tok_vars)

text \<open>\<open>leads\<close>: on a state that reads the lexemes \<open>lx\<close> and then one whose token is not in \<open>stops\<close>, \<open>p\<close>
  continues as \<open>q\<close> on the state that reads this lexeme.\<close>

definition leads ::
  "'f floats \<Rightarrow> nat \<Rightarrow> 'f variables_state \<Rightarrow> token set \<Rightarrow> ('f basic \<Rightarrow> ('f \<times> 'f basic) option) \<Rightarrow>
    ('f basic \<Rightarrow> ('f \<times> 'f basic) option) \<Rightarrow> lexeme list \<Rightarrow> bool" where
  "leads F k vs stops p q lx \<longleftrightarrow> (\<forall>st l ls. good k vs st \<longrightarrow> reads F st (lx @ l # ls) \<longrightarrow> lexeme_token l \<notin> stops \<longrightarrow>
     (\<exists>st'. p st = q st' \<and> reads F st' (l # ls) \<and> only_tok st st'))"

lemma leadsI:
  "(\<And>st l ls. good k vs st \<Longrightarrow> reads F st (lx @ l # ls) \<Longrightarrow> lexeme_token l \<notin> stops \<Longrightarrow>
     \<exists>st'. p st = q st' \<and> reads F st' (l # ls) \<and> only_tok st st') \<Longrightarrow> leads F k vs stops p q lx"
  by (simp add: leads_def)

lemma leadsE:
  assumes "leads F k vs stops p q lx" and "good k vs st" and "reads F st (lx @ l # ls)" and "lexeme_token l \<notin> stops"
  obtains st' where "p st = q st'" and "reads F st' (l # ls)" and "only_tok st st'"
  using assms unfolding leads_def by blast

lemma reads_sym: "reads F st (l # ls) \<Longrightarrow> sym st = lexeme_token l"
  by (simp add: reads_def)

lemma get_sym_step:
  assumes "good k vs st" and "reads F st (l # l' # ls)" and "lexeme_token l' \<noteq> T_THE_END"
  obtains st' where "get_sym F st = Some st'" and "reads F st' (l' # ls)" and "only_tok st st'" and "good k vs st'"
  using get_sym_lexeme [OF assms(2) _ assms(3)] assms(1) good_only_tok get_sym_only_tok
  by (metis good_def)

lemma accept_step:
  assumes "good k vs st" and "reads F st (l # l' # ls)" and "lexeme_token l' \<noteq> T_THE_END" and "t = lexeme_token l"
  obtains st' where "accept F t st = Some (True, st')" and "reads F st' (l' # ls)" and "only_tok st st'" and "good k vs st'"
proof -
  obtain st' where "get_sym F st = Some st'" "reads F st' (l' # ls)" "only_tok st st'" "good k vs st'"
    by (rule get_sym_step [OF assms(1-3)])
  then show thesis using reads_sym [OF assms(2)] assms(4) that by (simp add: accept_def)
qed

lemma accept_skip: "sym st \<noteq> t \<Longrightarrow> accept F t st = Some (False, st)"
  by (simp add: accept_def)

lemma expect_step:
  assumes "good k vs st" and "reads F st (l # l' # ls)" and "lexeme_token l' \<noteq> T_THE_END" and "t = lexeme_token l"
  obtains st' where "expect F t st = Some (True, st')" and "reads F st' (l' # ls)" and "only_tok st st'" and "good k vs st'"
proof -
  obtain st' where "accept F t st = Some (True, st')" "reads F st' (l' # ls)" "only_tok st st'" "good k vs st'"
    by (rule accept_step [OF assms])
  then show thesis using that by (simp add: expect_def)
qed

lemma relop_step:
  assumes "good k vs st" and "reads F st (relop_lexemes op @ l # ls)"
    and "lexeme_token l \<notin> {T_THE_END, T_LESS, T_EQUALS, T_GREATER}"
  obtains st' where "get_relop F st = Some (op, st')" and "reads F st' (l # ls)" and "only_tok st st'" and "good k vs st'"
proof -
  have one: "\<exists>st'. accept F t st = Some (True, st') \<and> sym st' = lexeme_token l' \<and> reads F st' (l' # ls) \<and>
      only_tok st st' \<and> good k vs st'"
    if "good k vs st" "reads F st (Word i # l' # ls)" "lexeme_token l' \<noteq> T_THE_END" "t = lexeme_token (Word i)"
    for st i l' ls t
    using accept_step [OF that] reads_sym by metis
  have "\<exists>st'. get_relop F st = Some (op, st') \<and> reads F st' (l # ls) \<and> only_tok st st' \<and> good k vs st'"
  proof (cases op)
    case OP_NOP
    then show ?thesis using assms reads_sym [of F st l ls] by (simp add: get_relop_def)
  next
    case OP_LT
    then show ?thesis
      using assms reads_sym [of F st] one [of st 9 l ls T_LESS] by (auto simp: get_relop_def)
  next
    case OP_LE
    then obtain st1 where "accept F T_LESS st = Some (True, st1)" "sym st1 = T_EQUALS"
      "reads F st1 (l_equals # l # ls)" "only_tok st st1" "good k vs st1"
      using assms one [of st 9 l_equals "l # ls" T_LESS] by (auto simp: token_defs)
    then show ?thesis
      using OP_LE assms reads_sym [of F st] one [of st1 8 l ls T_EQUALS] only_tok_trans
      by (fastforce simp: get_relop_def)
  next
    case OP_EQ
    then show ?thesis
      using assms reads_sym [of F st] one [of st 8 l ls T_EQUALS] by (auto simp: get_relop_def token_defs)
  next
    case OP_GE
    then obtain st1 where "accept F T_GREATER st = Some (True, st1)" "sym st1 = T_EQUALS"
      "reads F st1 (l_equals # l # ls)" "only_tok st st1" "good k vs st1"
      using assms one [of st 10 l_equals "l # ls" T_GREATER] by (auto simp: token_defs)
    then show ?thesis
      using OP_GE assms reads_sym [of F st] one [of st1 8 l ls T_EQUALS] only_tok_trans
      by (fastforce simp: get_relop_def token_defs)
  next
    case OP_GT
    then show ?thesis
      using assms reads_sym [of F st] one [of st 10 l ls T_GREATER] by (auto simp: get_relop_def token_defs)
  next
    case OP_NE
    then obtain st1 where "accept F T_LESS st = Some (True, st1)" "sym st1 = T_GREATER"
      "reads F st1 (l_greater # l # ls)" "only_tok st st1" "good k vs st1"
      using assms one [of st 9 l_greater "l # ls" T_LESS] by (auto simp: token_defs)
    then show ?thesis
      using OP_NE assms reads_sym [of F st] one [of st1 10 l ls T_GREATER] only_tok_trans
      by (fastforce simp: get_relop_def token_defs)
  qed
  then show thesis using that by blast
qed

subsection \<open>The parser computes the value of the tree\<close>

abbreviation "stop_atom \<equiv> {T_THE_END, T_LEFT_BANANA, T_VARIABLE_NUMBER}"
abbreviation "stop_fact \<equiv> stop_atom \<union> {T_LESS, T_EQUALS, T_GREATER}"
abbreviation "stop_prod \<equiv> stop_fact \<union> {T_MULTIPLY, T_DIVIDE, t_op_and}"
abbreviation "stop_sum \<equiv> stop_prod \<union> {T_PLUS, T_MINUS, t_op_or}"

lemma atom_no_function:
  "good k vs st \<Longrightarrow> sym st < TOKEN_TYPE_END \<Longrightarrow> numeric_atom F n ne se st = numeric_primary F n ne st"
  by (simp add: numeric_atom_def no_function good_def basic_ok_def)

lemma atom_lit:
  "leads F k vs stop_atom (numeric_atom F n ne se) (\<lambda>st. Some (the (f_scan F ds), st)) [Number ds]"
proof (rule leadsI)
  fix st l ls
  assume st: "good k vs st" "reads F st ([Number ds] @ l # ls)" "lexeme_token l \<notin> stop_atom"
  then obtain st' where "accept F T_NUMBER st = Some (True, st')" "reads F st' (l # ls)" "only_tok st st'"
    using accept_step [of k vs st F "Number ds" l ls T_NUMBER] by auto
  moreover have "sym st = T_NUMBER" "the (f_scan F ds) = tokenizer_get_number (tok st)"
    using st(2) by (auto simp: reads_def)
  ultimately show "\<exists>st'. numeric_atom F n ne se st = Some (the (f_scan F ds), st') \<and> reads F st' (l # ls) \<and> only_tok st st'"
    using atom_no_function [OF st(1), of F n ne se] by (simp add: numeric_primary_def token_defs)
qed

lemma atom_var:
  assumes "variable_get_numeric vs v = Some (env v, vs)"
  shows "leads F k vs stop_atom (numeric_atom F n ne se) (\<lambda>st. Some (env v, st)) [Name v]"
proof (rule leadsI)
  fix st l ls
  assume st: "good k vs st" "reads F st ([Name v] @ l # ls)" "lexeme_token l \<notin> stop_atom"
  then obtain st' where st': "get_sym F st = Some st'" "reads F st' (l # ls)" "only_tok st st'" "good k vs st'"
    using get_sym_step [of k vs st F "Name v" l ls] by auto
  have sym: "sym st = T_VARIABLE_NUMBER" "tokenizer_get_variable_name (tok st) = Some v"
    using st(2) by (auto simp: reads_def)
  have vs: "vars st' = vs" "st'\<lparr>vars := vs\<rparr> = st'" using st'(4) by (auto simp: good_def)
  have "sym st' \<noteq> T_LEFT_BANANA" "sym st' \<noteq> T_VARIABLE_NUMBER"
    using st(3) reads_sym [OF st'(2)] by auto
  then have "numeric_primary F n ne st = Some (env v, st')"
    using sym st' vs assms by (simp add: numeric_primary_def accept_skip token_defs)
  then show "\<exists>st'. numeric_atom F n ne se st = Some (env v, st') \<and> reads F st' (l # ls) \<and> only_tok st st'"
    using atom_no_function [OF st(1), of F n ne se] sym st' by (auto simp: token_defs)
qed

lemma atom_group:
  assumes "leads F k vs stop_sum ne (\<lambda>st. Some (x, st)) (h # lx)" and "lexeme_token h \<noteq> T_THE_END"
  shows "leads F k vs stop_atom (numeric_atom F n ne se) (\<lambda>st. Some (x, st)) (l_open # (h # lx) @ [l_close])"
proof (rule leadsI)
  fix st l ls
  assume st: "good k vs st" "reads F st ((l_open # (h # lx) @ [l_close]) @ l # ls)" "lexeme_token l \<notin> stop_atom"
  then obtain st1 where st1: "accept F T_LEFT_BANANA st = Some (True, st1)"
      "reads F st1 ((h # lx) @ l_close # l # ls)" "only_tok st st1" "good k vs st1"
    using accept_step [of k vs st F l_open h "lx @ l_close # l # ls" T_LEFT_BANANA] assms(2) by auto
  obtain st2 where st2: "ne st1 = Some (x, st2)" "reads F st2 (l_close # l # ls)" "only_tok st1 st2"
    by (rule leadsE [OF assms(1) st1(4,2)]) (auto simp: token_defs t_op_and_def t_op_or_def basic_token_id_def)
  obtain st3 where st3: "expect F T_RIGHT_BANANA st2 = Some (True, st3)" "reads F st3 (l # ls)" "only_tok st2 st3"
    using expect_step [OF good_only_tok [OF st2(3) st1(4)] st2(2), of T_RIGHT_BANANA] st(3) by auto
  have "sym st = T_LEFT_BANANA" using reads_sym [of F st] st(2) by simp
  then have "numeric_atom F n ne se st = Some (x, st3)"
    using atom_no_function [OF st(1), of F n ne se] st1(1) st2(1) st3(1) by (simp add: numeric_primary_def token_defs)
  then show "\<exists>st'. numeric_atom F n ne se st = Some (x, st') \<and> reads F st' (l # ls) \<and> only_tok st st'"
    using st1(3) st2(3) st3(2,3) only_tok_trans by blast
qed

lemma factor_sym: "sym st \<in> {T_NUMBER, T_VARIABLE_NUMBER, T_LEFT_BANANA} \<Longrightarrow>
    factor F (Suc n) st = numeric_factor_body F n (factor F n) (numeric_expression F n) (string_expression F n) st"
  by (auto simp: factor_body_def token_defs)

lemma fact_plain:
  assumes "leads F k vs stop_atom (numeric_atom F n (numeric_expression F n) (string_expression F n)) (\<lambda>st. Some (x, st)) (h # lx)"
    and "lexeme_token h \<in> {T_NUMBER, T_VARIABLE_NUMBER, T_LEFT_BANANA}"
  shows "leads F k vs stop_fact (factor F (Suc n)) (\<lambda>st. Some (x, st)) (h # lx)"
proof (rule leadsI)
  fix st l ls
  assume st: "good k vs st" "reads F st ((h # lx) @ l # ls)" "lexeme_token l \<notin> stop_fact"
  obtain st1 where st1: "numeric_atom F n (numeric_expression F n) (string_expression F n) st = Some (x, st1)"
      "reads F st1 (l # ls)" "only_tok st st1"
    by (rule leadsE [OF assms(1) st(1,2)]) (use st(3) in auto)
  obtain st2 where st2: "get_relop F st1 = Some (OP_NOP, st2)" "reads F st2 (l # ls)" "only_tok st1 st2"
    by (rule relop_step [OF good_only_tok [OF st1(3) st(1)], of F OP_NOP l ls]) (use st1(2) st(3) in auto)
  have "factor F (Suc n) st = Some (x, st2)"
    using factor_sym [of st F n] reads_sym [of F st h] st(2) assms(2) st1(1) st2(1)
    by (simp add: numeric_factor_body_def)
  then show "\<exists>st'. factor F (Suc n) st = Some (x, st') \<and> reads F st' (l # ls) \<and> only_tok st st'"
    using st1(3) st2(2,3) only_tok_trans by blast
qed

lemma relop_holds_condition: "op \<noteq> OP_NOP \<Longrightarrow> numeric_condition F x y op st = (relop_holds F op x y, st)"
  by (cases op) (simp_all add: numeric_condition_def)

lemma fact_rel:
  assumes "leads F k vs stop_atom (numeric_atom F n (numeric_expression F n) (string_expression F n)) (\<lambda>st. Some (x, st)) (h # lx)"
    and "lexeme_token h \<in> {T_NUMBER, T_VARIABLE_NUMBER, T_LEFT_BANANA}"
    and "leads F k vs stop_fact (factor F n) (\<lambda>st. Some (y, st)) (h' # lx')"
    and "lexeme_token h' \<in> {T_NUMBER, T_VARIABLE_NUMBER, T_LEFT_BANANA}" and "op \<noteq> OP_NOP"
  shows "leads F k vs stop_fact (factor F (Suc n)) (\<lambda>st. Some (f_bool F (relop_holds F op x y), st))
    ((h # lx) @ relop_lexemes op @ h' # lx')"
proof (rule leadsI)
  fix st l ls
  assume st: "good k vs st" "reads F st (((h # lx) @ relop_lexemes op @ h' # lx') @ l # ls)" "lexeme_token l \<notin> stop_fact"
  obtain r rs where rop: "relop_lexemes op = r # rs" "lexeme_token r \<in> {T_LESS, T_EQUALS, T_GREATER}"
    using assms(5) by (cases op) auto
  have st': "reads F st ((h # lx) @ r # rs @ h' # lx' @ l # ls)" using st(2) rop(1) by simp
  obtain st1 where st1: "numeric_atom F n (numeric_expression F n) (string_expression F n) st = Some (x, st1)"
      "reads F st1 (r # rs @ h' # lx' @ l # ls)" "only_tok st st1"
    by (rule leadsE [OF assms(1) st(1) st']) (use rop(2) in \<open>auto simp: token_defs\<close>)
  have st1r: "reads F st1 (relop_lexemes op @ h' # lx' @ l # ls)" using st1(2) rop(1) by simp
  obtain st2 where st2: "get_relop F st1 = Some (op, st2)" "reads F st2 (h' # lx' @ l # ls)" "only_tok st1 st2" "good k vs st2"
    by (rule relop_step [OF good_only_tok [OF st1(3) st(1)] st1r]) (use assms(4) in \<open>auto simp: token_defs\<close>)
  obtain st3 where st3: "factor F n st2 = Some (y, st3)" "reads F st3 (l # ls)" "only_tok st2 st3"
    by (rule leadsE [OF assms(3) st2(4), of l ls]) (use st2(2) st(3) in auto)
  have "factor F (Suc n) st = Some (f_bool F (relop_holds F op x y), st3)"
    using factor_sym [of st F n] reads_sym [of F st h] st(2) assms(2,5) st1(1) st2(1) st3(1)
    by (simp add: numeric_factor_body_def relop_holds_condition)
  then show "\<exists>st'. factor F (Suc n) st = Some (f_bool F (relop_holds F op x y), st') \<and> reads F st' (l # ls) \<and> only_tok st st'"
    using st1(3) st2(3) st3(2,3) only_tok_trans by blast
qed

abbreviation "starts \<equiv> {T_NUMBER, T_VARIABLE_NUMBER, T_LEFT_BANANA}"

lemma prod_single:
  assumes "leads F k vs stop_fact fac (\<lambda>st. Some (x, st)) lx"
  shows "leads F k vs stop_fact (term_body F n fac) (term_loop F n fac x) lx"
proof (rule leadsI)
  fix st l ls
  assume st: "good k vs st" "reads F st (lx @ l # ls)" "lexeme_token l \<notin> stop_fact"
  obtain st' where "fac st = Some (x, st')" "reads F st' (l # ls)" "only_tok st st'"
    by (rule leadsE [OF assms st])
  then show "\<exists>st'. term_body F n fac st = term_loop F n fac x st' \<and> reads F st' (l # ls) \<and> only_tok st st'"
    by (auto simp: term_body_def)
qed

lemma prod_step:
  assumes "leads F k vs stop_fact p (term_loop F (Suc n) fac x) lx"
    and "leads F k vs stop_fact fac (\<lambda>st. Some (y, st)) (h # lx')" and "lexeme_token h \<in> starts"
  shows "leads F k vs stop_fact p (term_loop F n fac ((if b then f_mul F else f_div F) x y))
    (lx @ (if b then l_times else l_divide) # h # lx')"
proof (rule leadsI)
  fix st l ls
  let ?op = "if b then l_times else l_divide"
  assume st: "good k vs st" "reads F st ((lx @ ?op # h # lx') @ l # ls)" "lexeme_token l \<notin> stop_fact"
  have st': "reads F st (lx @ ?op # h # lx' @ l # ls)" using st(2) by simp
  obtain st1 where st1: "p st = term_loop F (Suc n) fac x st1" "reads F st1 (?op # h # lx' @ l # ls)" "only_tok st st1"
    by (rule leadsE [OF assms(1) st(1) st']) (auto simp: token_defs)
  obtain st2 where st2: "get_sym F st1 = Some st2" "reads F st2 (h # lx' @ l # ls)" "only_tok st1 st2" "good k vs st2"
    by (rule get_sym_step [OF good_only_tok [OF st1(3) st(1)] st1(2)]) (use assms(3) in \<open>auto simp: token_defs\<close>)
  obtain st3 where st3: "fac st2 = Some (y, st3)" "reads F st3 (l # ls)" "only_tok st2 st3"
    by (rule leadsE [OF assms(2) st2(4), of l ls]) (use st2(2) st(3) in auto)
  have "sym st1 = (if b then T_MULTIPLY else T_DIVIDE)" using reads_sym [OF st1(2)] by simp
  then have "p st = term_loop F n fac ((if b then f_mul F else f_div F) x y) st3"
    using st1(1) st2(1) st3(1) by (simp add: token_defs)
  then show "\<exists>st'. p st = term_loop F n fac ((if b then f_mul F else f_div F) x y) st' \<and> reads F st' (l # ls) \<and> only_tok st st'"
    using st1(3) st2(3) st3(2,3) only_tok_trans by blast
qed

lemma prod_end:
  assumes "leads F k vs stop_fact p (term_loop F (Suc n) fac x) lx"
  shows "leads F k vs stop_prod p (\<lambda>st. Some (x, st)) lx"
proof (rule leadsI)
  fix st l ls
  assume st: "good k vs st" "reads F st (lx @ l # ls)" "lexeme_token l \<notin> stop_prod"
  obtain st' where st': "p st = term_loop F (Suc n) fac x st'" "reads F st' (l # ls)" "only_tok st st'"
    by (rule leadsE [OF assms st(1,2)]) (use st(3) in auto)
  then show "\<exists>st'. p st = Some (x, st') \<and> reads F st' (l # ls) \<and> only_tok st st'"
    using reads_sym [OF st'(2)] st(3) by auto
qed

lemma sum_first:
  assumes "leads F k vs stop_prod (term_body F n fac) (\<lambda>st. Some (x, st)) (h # lx)" and "lexeme_token h \<in> starts"
  shows "leads F k vs stop_prod (numeric_expression_body F n fac)
    (sum_loop F n (term_body F n fac) (if sign = Some False then f_mul F (f_of_int F (- 1)) x else x))
    ((case sign of None \<Rightarrow> [] | Some b \<Rightarrow> [if b then l_plus else l_minus]) @ h # lx)"
proof (rule leadsI)
  fix st l ls
  let ?sign = "case sign of None \<Rightarrow> [] | Some b \<Rightarrow> [if b then l_plus else l_minus]"
  assume st: "good k vs st" "reads F st ((?sign @ h # lx) @ l # ls)" "lexeme_token l \<notin> stop_prod"
  obtain st1 where st1: "(if sym st = T_PLUS \<or> sym st = T_MINUS then get_sym F st else Some st) = Some st1"
      "reads F st1 ((h # lx) @ l # ls)" "only_tok st st1" "good k vs st1" and neg: "sym st = T_MINUS \<longleftrightarrow> sign = Some False"
  proof (cases sign)
    case None
    then show ?thesis using that [of st] st reads_sym [of F st h] assms(2) by (auto simp: token_defs)
  next
    case (Some b)
    then have reads: "reads F st ((if b then l_plus else l_minus) # h # lx @ l # ls)" using st(2) by simp
    show ?thesis
      by (rule get_sym_step [OF st(1) reads])
        (use assms(2) reads_sym [OF reads] Some that in \<open>auto simp: token_defs split: if_splits\<close>)
  qed
  obtain st2 where st2: "term_body F n fac st1 = Some (x, st2)" "reads F st2 (l # ls)" "only_tok st1 st2"
    by (rule leadsE [OF assms(1) st1(4,2) st(3)])
  then have "numeric_expression_body F n fac st = sum_loop F n (term_body F n fac)
      (if sign = Some False then f_mul F (f_of_int F (- 1)) x else x) st2"
    using st1(1) neg by (simp add: numeric_expression_body_def Let_def)
  then show "\<exists>st'. numeric_expression_body F n fac st = sum_loop F n (term_body F n fac)
      (if sign = Some False then f_mul F (f_of_int F (- 1)) x else x) st' \<and> reads F st' (l # ls) \<and> only_tok st st'"
    using st1(3) st2(2,3) only_tok_trans by blast
qed

lemma sum_step:
  assumes "leads F k vs stop_prod p (sum_loop F (Suc n) trm x) lx"
    and "leads F k vs stop_prod trm (\<lambda>st. Some (y, st)) (h # lx')" and "lexeme_token h \<in> starts"
  shows "leads F k vs stop_prod p (sum_loop F n trm ((if b then f_add F else f_sub F) x y))
    (lx @ (if b then l_plus else l_minus) # h # lx')"
proof (rule leadsI)
  fix st l ls
  let ?op = "if b then l_plus else l_minus"
  assume st: "good k vs st" "reads F st ((lx @ ?op # h # lx') @ l # ls)" "lexeme_token l \<notin> stop_prod"
  have st': "reads F st (lx @ ?op # h # lx' @ l # ls)" using st(2) by simp
  obtain st1 where st1: "p st = sum_loop F (Suc n) trm x st1" "reads F st1 (?op # h # lx' @ l # ls)" "only_tok st st1"
    by (rule leadsE [OF assms(1) st(1) st']) (auto simp: token_defs t_op_and_def basic_token_id_def)
  obtain st2 where st2: "get_sym F st1 = Some st2" "reads F st2 (h # lx' @ l # ls)" "only_tok st1 st2" "good k vs st2"
    by (rule get_sym_step [OF good_only_tok [OF st1(3) st(1)] st1(2)]) (use assms(3) in \<open>auto simp: token_defs\<close>)
  obtain st3 where st3: "trm st2 = Some (y, st3)" "reads F st3 (l # ls)" "only_tok st2 st3"
    by (rule leadsE [OF assms(2) st2(4), of l ls]) (use st2(2) st(3) in auto)
  have "sym st1 = (if b then T_PLUS else T_MINUS)" using reads_sym [OF st1(2)] by simp
  then have "p st = sum_loop F n trm ((if b then f_add F else f_sub F) x y) st3"
    using st1(1) st2(1) st3(1) by (simp add: token_defs)
  then show "\<exists>st'. p st = sum_loop F n trm ((if b then f_add F else f_sub F) x y) st' \<and> reads F st' (l # ls) \<and> only_tok st st'"
    using st1(3) st2(3) st3(2,3) only_tok_trans by blast
qed

lemma sum_end:
  assumes "leads F k vs stop_prod p (sum_loop F (Suc n) trm x) lx"
  shows "leads F k vs stop_sum p (\<lambda>st. Some (x, st)) lx"
proof (rule leadsI)
  fix st l ls
  assume st: "good k vs st" "reads F st (lx @ l # ls)" "lexeme_token l \<notin> stop_sum"
  obtain st' where st': "p st = sum_loop F (Suc n) trm x st'" "reads F st' (l # ls)" "only_tok st st'"
    by (rule leadsE [OF assms st(1,2)]) (use st(3) in auto)
  then show "\<exists>st'. p st = Some (x, st') \<and> reads F st' (l # ls) \<and> only_tok st st'"
    using reads_sym [OF st'(2)] st(3) by auto
qed

lemma atom_start: "\<exists>h lx. atom_lexemes a = h # lx \<and> lexeme_token h \<in> starts"
  by (cases a) auto

lemma fact_start: "\<exists>h lx. fact_lexemes f = h # lx \<and> lexeme_token h \<in> starts"
proof (cases f)
  case (Plain a)
  then show ?thesis using atom_start [of a] by simp
next
  case (Rel a op g)
  then show ?thesis using atom_start [of a] by auto
qed

lemma prod_start: "\<exists>h lx. prod_lexemes p = h # lx \<and> lexeme_token h \<in> starts"
proof (induction p rule: prod_ops.induct)
  case (1 f)
  then show ?case using fact_start [of f] by simp
qed auto

lemma sum_start: "\<exists>h lx. sum_lexemes s = h # lx \<and> lexeme_token h \<noteq> T_THE_END"
proof (induction s rule: sum_ops.induct)
  case (1 sign p)
  then show ?case using prod_start [of p] by (cases sign) (auto simp: token_defs)
qed auto

lemma sum_complete:
  assumes "leads F k vs stop_prod (numeric_expression_body F n (factor F n))
      (sum_loop F (n - sum_ops s) (term_body F n (factor F n)) x) (sum_lexemes s)" and "sum_fuel s \<le> n"
  shows "leads F k vs stop_sum (numeric_expression F (Suc n)) (\<lambda>st. Some (x, st)) (sum_lexemes s)"
proof -
  obtain j where "n - sum_ops s = Suc j" using sum_ops_fuel [of s] assms(2) by (cases "n - sum_ops s") auto
  then show ?thesis using sum_end [of F k vs _ j] assms(1) by (simp add: leads_def)
qed

lemma prod_complete:
  assumes "leads F k vs stop_fact (term_body F n fac) (term_loop F (n - prod_ops p) fac x) (prod_lexemes p)"
    and "prod_fuel p \<le> n"
  shows "leads F k vs stop_prod (term_body F n fac) (\<lambda>st. Some (x, st)) (prod_lexemes p)"
proof -
  obtain j where "n - prod_ops p = Suc j" using prod_ops_fuel [of p] assms(2) by (cases "n - prod_ops p") auto
  then show ?thesis using prod_end [of F k vs _ j] assms(1) by simp
qed

lemma parser_computes:
  fixes F :: "('f :: zero) floats" and vs :: "'f variables_state" and env k
  defines "set_to \<equiv> \<lambda>v. variable_get_numeric vs v = Some (env v, vs)"
  shows "sum_ok set_to s \<Longrightarrow> sum_fuel s \<le> n1 \<Longrightarrow> leads F k vs stop_prod (numeric_expression_body F n1 (factor F n1))
      (sum_loop F (n1 - sum_ops s) (term_body F n1 (factor F n1)) (sum_value F env s)) (sum_lexemes s)"
    and "prod_ok set_to p \<Longrightarrow> prod_fuel p \<le> n2 \<Longrightarrow> leads F k vs stop_fact (term_body F n2 (factor F n2))
      (term_loop F (n2 - prod_ops p) (factor F n2) (prod_value F env p)) (prod_lexemes p)"
    and "fact_ok set_to f \<Longrightarrow> fact_fuel f \<le> n3 \<Longrightarrow>
      leads F k vs stop_fact (factor F n3) (\<lambda>st. Some (fact_value F env f, st)) (fact_lexemes f)"
    and "atom_ok set_to a \<Longrightarrow> atom_fuel a \<le> n4 \<Longrightarrow>
      leads F k vs stop_atom (numeric_atom F n4 (numeric_expression F n4) (string_expression F n4))
        (\<lambda>st. Some (atom_value F env a, st)) (atom_lexemes a)"
proof (induction s and p and f and a arbitrary: n1 and n2 and n3 and n4)
  case (First sign p)
  obtain h lx where p: "prod_lexemes p = h # lx" "lexeme_token h \<in> starts" using prod_start by blast
  have "leads F k vs stop_prod (term_body F n1 (factor F n1)) (\<lambda>st. Some (prod_value F env p, st)) (h # lx)"
    using prod_complete [of F k vs n1 _ p] First p by simp
  then show ?case
    using sum_first [OF _ p(2)] by (simp only: sum_value.simps sum_lexemes.simps sum_ops.simps diff_zero p(1))
next
  case (Plus_minus s b p)
  obtain h lx where p: "prod_lexemes p = h # lx" "lexeme_token h \<in> starts" using prod_start by blast
  have n: "n1 - sum_ops s = Suc (n1 - sum_ops (Plus_minus s b p))"
    using sum_ops_fuel [of s] Plus_minus.prems(2) by simp
  have "leads F k vs stop_prod (term_body F n1 (factor F n1)) (\<lambda>st. Some (prod_value F env p, st)) (h # lx)"
    using prod_complete [of F k vs n1 _ p] Plus_minus p by simp
  moreover have "leads F k vs stop_prod (numeric_expression_body F n1 (factor F n1))
      (sum_loop F (Suc (n1 - sum_ops (Plus_minus s b p))) (term_body F n1 (factor F n1)) (sum_value F env s))
      (sum_lexemes s)"
    unfolding n [symmetric] using Plus_minus by simp
  ultimately show ?case
    unfolding sum_lexemes.simps sum_value.simps p(1) by (intro sum_step [OF _ _ p(2)])
next
  case (Single f)
  then have "leads F k vs stop_fact (factor F n2) (\<lambda>st. Some (fact_value F env f, st)) (fact_lexemes f)" by simp
  from prod_single [OF this] show ?case by simp
next
  case (Times_divide p b f)
  obtain h lx where f: "fact_lexemes f = h # lx" "lexeme_token h \<in> starts" using fact_start by blast
  have n: "n2 - prod_ops p = Suc (n2 - prod_ops (Times_divide p b f))"
    using prod_ops_fuel [of p] Times_divide.prems(2) by simp
  have "leads F k vs stop_fact (factor F n2) (\<lambda>st. Some (fact_value F env f, st)) (h # lx)"
    using Times_divide f by simp
  moreover have "leads F k vs stop_fact (term_body F n2 (factor F n2))
      (term_loop F (Suc (n2 - prod_ops (Times_divide p b f))) (factor F n2) (prod_value F env p)) (prod_lexemes p)"
    unfolding n [symmetric] using Times_divide by simp
  ultimately show ?case
    unfolding prod_lexemes.simps prod_value.simps f(1) by (intro prod_step [OF _ _ f(2)])
next
  case (Plain a)
  obtain h lx where a: "atom_lexemes a = h # lx" "lexeme_token h \<in> starts" using atom_start by blast
  obtain j where j: "n3 = Suc j" "atom_fuel a \<le> j" using Plain.prems by (cases n3) auto
  have "leads F k vs stop_atom (numeric_atom F j (numeric_expression F j) (string_expression F j))
      (\<lambda>st. Some (atom_value F env a, st)) (h # lx)"
    using Plain j(2) a(1) by simp
  from fact_plain [OF this a(2)] show ?case unfolding j(1) fact_lexemes.simps fact_value.simps a(1) .
next
  case (Rel a op f)
  obtain h lx where a: "atom_lexemes a = h # lx" "lexeme_token h \<in> starts" using atom_start by blast
  obtain h' lx' where f: "fact_lexemes f = h' # lx'" "lexeme_token h' \<in> starts" using fact_start by blast
  obtain j where j: "n3 = Suc j" "atom_fuel a \<le> j" "fact_fuel f \<le> j" using Rel.prems by (cases n3) auto
  have "leads F k vs stop_atom (numeric_atom F j (numeric_expression F j) (string_expression F j))
      (\<lambda>st. Some (atom_value F env a, st)) (h # lx)"
    "leads F k vs stop_fact (factor F j) (\<lambda>st. Some (fact_value F env f, st)) (h' # lx')" "op \<noteq> OP_NOP"
    using Rel j(2,3) a(1) f(1) by simp_all
  from fact_rel [OF this(1) a(2) this(2) f(2) this(3)]
  show ?case unfolding j(1) fact_lexemes.simps fact_value.simps a(1) f(1) .
next
  case (Lit ds)
  then show ?case using atom_lit by simp
next
  case (Var v)
  then show ?case using atom_var by (simp add: set_to_def)
next
  case (Group s)
  obtain h lx where s: "sum_lexemes s = h # lx" "lexeme_token h \<noteq> T_THE_END" using sum_start by blast
  obtain j where j: "n4 = Suc j" "sum_fuel s \<le> j" using Group.prems by (cases n4) auto
  have "leads F k vs stop_sum (numeric_expression F n4) (\<lambda>st. Some (sum_value F env s, st)) (h # lx)"
    using sum_complete [OF Group.IH j(2)] Group.prems(1) j s(1) by simp
  from atom_group [OF this s(2)] show ?case unfolding atom_lexemes.simps atom_value.simps s(1) .
qed

lemma get_sym_sym: "get_sym F (st\<lparr>sym := s\<rparr>) = get_sym F st"
  by (simp add: get_sym_def text_of_def)

lemma expect_eof: "reads F st [End_of_line] \<Longrightarrow> expect F T_EOF st = Some (True, st)"
proof -
  assume eof: "reads F st [End_of_line]"
  then obtain t where "view (text_of st) (tokenizer_p (tok st)) = Some (0 # t)" by (auto simp: reads_def neq_Nil_conv)
  then have "get_sym F st = Some (st\<lparr>sym := T_EOF\<rparr>)" by (simp add: get_sym_def next_token_eof)
  then show ?thesis using reads_sym [OF eof] by (simp add: expect_def accept_def)
qed

lemma numeric_expression_value:
  assumes "good k vs st" and "reads F st (sum_lexemes s @ l # ls)" and "lexeme_token l \<notin> stop_sum"
    and "sum_ok (\<lambda>v. variable_get_numeric vs v = Some (env v, vs)) s" and "sum_fuel s < n"
  shows "\<exists>st'. numeric_expression F n st = Some (sum_value F env s, st') \<and> reads F st' (l # ls) \<and> only_tok st st'"
proof -
  obtain j where j: "n = Suc j" "sum_fuel s \<le> j" using assms(5) by (cases n) auto
  then have "leads F k vs stop_sum (numeric_expression F n) (\<lambda>st. Some (sum_value F env s, st)) (sum_lexemes s)"
    using sum_complete [OF parser_computes(1)] assms(4) by simp
  then show ?thesis using leadsE [OF _ assms(1-3)] by metis
qed

subsection \<open>Properties\<close>

text \<open>C3. The text of any expression of numbers, set variables, parentheses, relations, products and sums, with
  arbitrary white space between its parts, evaluates to the value of its tree: products before sums, both from
  left to right, a leading sign applied to the first product, and a relation, which binds tighter than both
  and associates to the right, to 1 or 0.  The evaluation returns with enough fuel, raises no error and changes
  neither the variables nor the program nor the stack.\<close>

theorem evaluate_value:
  assumes "basic_ok k st" and "spelled F (sum_lexemes s @ [End_of_line]) (expression_string @ [0])"
    and "sum_ok (\<lambda>v. variable_get_numeric ((vars st)\<lparr>last_error := None\<rparr>) v = Some (env v, (vars st)\<lparr>last_error := None\<rparr>)) s"
    and "sum_fuel s < fuel"
  shows "\<exists>st'. evaluate F fuel expression_string st = Some (sum_value F env s, st') \<and>
    vars st' = (vars st)\<lparr>last_error := None\<rparr> \<and> prog st' = prog st \<and> stack_frames st' = stack_frames st \<and>
    stack_p st' = stack_p st \<and> sym st' = T_EOF"
proof -
  let ?vs = "(vars st)\<lparr>last_error := None\<rparr>"
  let ?st0 = "st\<lparr>eval_no := Suc (eval_no st), eval_line := expression_string @ [0], vars := ?vs\<rparr>"
  let ?st = "(start_at (Input (Suc (eval_no st)) 0) ?st0)\<lparr>sym := T_PLUS\<rparr>"
  have good: "good k ?vs ?st"
    using assms(1) by (simp add: good_def basic_ok_def stack_total_def start_at_def tokenizer_init_def)
  obtain h lx where s: "sum_lexemes s = h # lx" "lexeme_token h \<noteq> T_THE_END" using sum_start by blast
  have "reads F ?st (l_plus # h # lx @ [End_of_line])"
    using assms(2) s(1) by (auto simp: reads_def start_at_def tokenizer_init_def text_of_def)
  then obtain st1 where st1: "get_sym F ?st = Some st1" "reads F st1 (sum_lexemes s @ [End_of_line])"
      "only_tok ?st st1" "good k ?vs st1"
    using get_sym_step [OF good _ s(2)] s(1) by (metis append_Cons)
  have "\<exists>st2. numeric_expression F fuel st1 = Some (sum_value F env s, st2) \<and> reads F st2 [End_of_line] \<and> only_tok st1 st2"
    by (rule numeric_expression_value [OF st1(4,2) _ assms(3,4)])
      (auto simp: token_defs t_op_and_def t_op_or_def basic_token_id_def)
  then obtain st2 where st2: "numeric_expression F fuel st1 = Some (sum_value F env s, st2)"
      "reads F st2 [End_of_line]" "only_tok st1 st2" by blast
  have "evaluate F fuel expression_string st = Some (sum_value F env s, st2)"
    using st1(1) st2(1) expect_eof [OF st2(2)] unfolding get_sym_sym
    by (simp add: evaluate_def Let_def)
  then show ?thesis
    using only_tok_trans [OF st1(3) st2(3)] reads_sym [OF st2(2)]
    by (auto simp: only_tok_def start_at_def)
qed

lemma spelled_step: "lexeme_ok F l r \<Longrightarrow> spelled F ls r \<Longrightarrow> t = spelling l @ r \<Longrightarrow> spelled F (l # ls) t"
  unfolding spelled.simps by (intro exI [where x = "[]"] exI [where x = r]) simp

text \<open>\<^verbatim>\<open>2+1=3\<close> is the sum of 2 and the relation \<^verbatim>\<open>1=3\<close>.\<close>

definition two_plus_relation :: sum where
  "two_plus_relation = Plus_minus (First None (Single (Plain (Lit [50])))) True
     (Single (Rel (Lit [49]) OP_EQ (Plain (Lit [51]))))"

lemma two_plus_relation_spelled:
  "spelled int_floats (sum_lexemes two_plus_relation @ [End_of_line]) ([50, 43, 49, 61, 51] @ [0])"
proof -
  have ok: "lexeme_ok int_floats (Number [d]) (c # r)" if "isdigit d" "\<not> isdigit c" "c \<noteq> 46" for d c r
    using that by (simp add: plain_number_def int_floats_def)
  have words: "length words = 70" "words ! 0 = ''+''" "words ! 8 = ''=''"
    by (simp_all add: words_def registrations_def)
  have 1: "spelled int_floats [End_of_line] [0]" by simp
  have 2: "spelled int_floats [Number [51], End_of_line] [51, 0]"
    by (rule spelled_step [OF ok 1]) (simp_all add: isdigit_def)
  have 3: "spelled int_floats [l_equals, Number [51], End_of_line] [61, 51, 0]"
    by (rule spelled_step [OF _ 2]) (simp_all add: words ascii_def)
  have 4: "spelled int_floats [Number [49], l_equals, Number [51], End_of_line] [49, 61, 51, 0]"
    by (rule spelled_step [OF ok 3]) (simp_all add: isdigit_def)
  have 5: "spelled int_floats [l_plus, Number [49], l_equals, Number [51], End_of_line] [43, 49, 61, 51, 0]"
    by (rule spelled_step [OF _ 4]) (simp_all add: words ascii_def)
  have "spelled int_floats [Number [50], l_plus, Number [49], l_equals, Number [51], End_of_line] [50, 43, 49, 61, 51, 0]"
    by (rule spelled_step [OF ok 5]) (simp_all add: isdigit_def)
  then show ?thesis by (simp add: two_plus_relation_def)
qed

theorem evaluate_value_witness:
  "\<exists>st. basic_ok 2048 st \<and> spelled int_floats (sum_lexemes two_plus_relation @ [End_of_line]) ([50, 43, 49, 61, 51] @ [0]) \<and>
    (\<exists>st'. evaluate int_floats 20 [50, 43, 49, 61, 51] st = Some (2, st') \<and> sym st' = T_EOF)"
proof -
  obtain st :: "int basic" where st: "basic_ok 2048 st" using sample_ok by blast
  have "\<exists>st'. evaluate int_floats 20 [50, 43, 49, 61, 51] st = Some (sum_value int_floats (\<lambda>_. 0) two_plus_relation, st') \<and>
    vars st' = (vars st)\<lparr>last_error := None\<rparr> \<and> prog st' = prog st \<and> stack_frames st' = stack_frames st \<and>
    stack_p st' = stack_p st \<and> sym st' = T_EOF"
    by (rule evaluate_value [OF st two_plus_relation_spelled]) (simp_all add: two_plus_relation_def)
  moreover have "sum_value int_floats (\<lambda>_. 0) two_plus_relation = 2"
    by (simp add: two_plus_relation_def int_floats_def digits_value_def f_bool_def)
  ultimately show ?thesis using st two_plus_relation_spelled by auto
qed

text \<open>The evaluation of any expression, with all its function calls, array accesses and errors, leaves the
  program, the stack, the position in the program, the data pointer, the run flag, the tables and the input
  alone: only the tokenizer, the variables, the output and the random numbers change.\<close>

theorem expression_frame:
  assumes "expression F fuel st = Some (e, st')"
  shows "prog st' = prog st \<and> stack_frames st' = stack_frames st \<and> stack_p st' = stack_p st \<and>
    cur_line st' = cur_line st \<and> cur_cursor st' = cur_cursor st \<and> data_ptr st' = data_ptr st \<and>
    RUNNING st' = RUNNING st \<and> basic_functions st' = basic_functions st \<and>
    token_array (tok st') = token_array (tok st) \<and> eval_line st' = eval_line st \<and> inp st' = inp st"
  using expression_core [OF assms] by (simp add: core_def scanner_def)

theorem expression_frame_witness:
  "\<exists>st'. expression int_floats 5 (with_text [] (blank_state\<lparr>sym := T_STRING\<rparr>)) = Some (Str [], st') \<and>
    prog st' = prog blank_state \<and> stack_p st' = 0"
proof -
  have "\<exists>st'. expression int_floats 5 (with_text [] (blank_state\<lparr>sym := T_STRING\<rparr>)) = Some (Str [], st')"
    by (simp add: expression_def string_expression_body_def string_term_def accept_def get_sym_def
        tokenizer_get_next_token_def get_relop_def with_text_def blank_state_def text_of_def
        tokenizer_get_string_def cstring_at_def strlen.simps token_defs eval_nat_numeral load_def)
  then obtain st' where st': "expression int_floats 5 (with_text [] (blank_state\<lparr>sym := T_STRING\<rparr>)) = Some (Str [], st')"
    by blast
  then show ?thesis using expression_frame [OF st'] by (simp add: with_text_def) (simp add: blank_state_def)
qed

end
