(* ===== verification/Basic_Control.thy ===== *)
theory Basic_Control
  imports Basic_Arithmetic
begin

section \<open>BASIC: subroutines, loops and the entry of program lines\<close>

text \<open>
  What GOSUB, RETURN and NEXT do on the stack, and the evaluation of a line that starts with a number.
\<close>

subsection \<open>GOSUB and RETURN\<close>

lemma tokenizer_pos_move: "p \<noteq> Null \<Longrightarrow> tokenizer_pos p st = Some (Null, st\<lparr>tok := (tok st)\<lparr>tokenizer_p := p\<rparr>\<rparr>)"
  by (simp add: tokenizer_pos_def tokenizer_char_pointer_def)

lemma tokenizer_pos_here:
  assumes "tokenizer_pos Null st = Some (c, st')"
  shows "c \<noteq> Null \<and> st' = st\<lparr>tok := (tok st)\<lparr>tokenizer_p := c\<rparr>\<rparr>"
proof -
  obtain cs n where "view (text_of st) (tokenizer_p (tok st)) = Some cs" "c = ptr_add (tokenizer_p (tok st)) n"
    "st' = st\<lparr>tok := (tok st)\<lparr>tokenizer_p := c\<rparr>\<rparr>"
    using assms by (auto simp: tokenizer_pos_def tokenizer_char_pointer_def skip_white_def elim!: result_elims)
  then show ?thesis by (cases "tokenizer_p (tok st)") auto
qed

text \<open>C22. GOSUB moves to the line it names and keeps the place behind it; the next RETURN with that stack
  continues at exactly this place in this line and gives back the stack as it was before the GOSUB, whatever
  happened to the rest of the state in between.  Without room on the stack GOSUB is an error and moves nowhere.\<close>

theorem gosub_return:
  assumes "sym st = T_NUMBER" and "to_int F (tokenizer_get_number (tok st)) = Some i"
    and "get_sym F st = Some st1" and "tokenizer_pos Null st1 = Some (c, st2)"
    and "lines_contents st (of_int i) = Some (Prog q)"
  shows "if stack_p st < 24 then do_gosub F st = Some (raise ''STACK FULL'' st1)
    else \<exists>st3. do_gosub F st = Some st3 \<and> cur_line st3 = of_int i \<and> tokenizer_p (tok st3) = Prog q \<and>
      stack_p st3 = stack_p st - 24 \<and>
      (\<forall>st4. stack_frames st4 = stack_frames st3 \<and> stack_p st4 = stack_p st3 \<and> sym st4 \<noteq> t_keyword_return \<longrightarrow>
        (\<exists>st5. do_return F st4 = Some st5 \<and> cur_line st5 = cur_line st \<and> tokenizer_p (tok st5) = c \<and>
          stack_frames st5 = stack_frames st \<and> stack_p st5 = stack_p st \<and> vars st5 = vars st4 \<and> prog st5 = prog st4))"
proof -
  have st1: "stack_p st1 = stack_p st" "stack_frames st1 = stack_frames st" "cur_line st1 = cur_line st" "prog st1 = prog st"
    using get_sym_core [OF assms(3)] by (simp_all add: core_def)
  have st2: "c \<noteq> Null" "st2 = st1\<lparr>tok := (tok st1)\<lparr>tokenizer_p := c\<rparr>\<rparr>"
    using tokenizer_pos_here [OF assms(4)] by auto
  have skip: "accept F t_keyword_gosub st = Some (False, st)"
    using assms(1) by (simp add: accept_skip token_defs t_keyword_gosub_def basic_token_id_def)
  have acc: "accept F T_NUMBER st = Some (True, st1)"
    using assms(1,3) by (simp add: accept_def)
  show ?thesis
  proof (cases "stack_p st < 24")
    case True
    then show ?thesis
      using skip acc assms(1,2) st1 by (simp add: do_gosub_def sizeof_gosub_def)
  next
    case False
    let ?st2 = "st2\<lparr>stack_p := stack_p st - 24, stack_frames := Gosub_frame (cur_line st) c # stack_frames st\<rparr>"
    have "lines_contents (?st2\<lparr>cur_line := of_int i\<rparr>) (of_int i) = Some (Prog q)"
      using assms(5) st1(4) by (simp add: lines_contents_def st2(2))
    then have "do_gosub F st = Some (?st2\<lparr>cur_line := of_int i, tok := (tok st2)\<lparr>tokenizer_p := Prog q\<rparr>\<rparr>)"
      using skip acc assms(1,2,4) st1 False st2(2)
      by (simp add: do_gosub_def sizeof_gosub_def push_gosub_def set_line_def tokenizer_pos_move)
    moreover have "\<exists>st5. do_return F st4 = Some st5 \<and> cur_line st5 = cur_line st \<and> tokenizer_p (tok st5) = c \<and>
          stack_frames st5 = stack_frames st \<and> stack_p st5 = stack_p st \<and> vars st5 = vars st4 \<and> prog st5 = prog st4"
      if "stack_frames st4 = Gosub_frame (cur_line st) c # stack_frames st" "stack_p st4 = stack_p st - 24"
        "sym st4 \<noteq> t_keyword_return" for st4
      using that False st2(1)
      by (simp add: do_return_def accept_skip tokenizer_pos_move sizeof_gosub_def)
    ultimately show ?thesis using False by simp
  qed
qed

definition gosub_sample :: "int basic" where
  "gosub_sample = blank_state\<lparr>sym := T_NUMBER, eval_line := [0], stack_p := 100,
     tok := (tok blank_state)\<lparr>tokenizer_p := Input 0 0, tokenizer_actual_number := 20\<rparr>,
     prog := \<lparr>lines_memory = image_bytes [(20, [82])], lines_memory_end = 0, lines_memory_size = 8\<rparr>\<rparr>"

theorem gosub_return_witness:
  "\<exists>st3. do_gosub int_floats gosub_sample = Some st3 \<and> cur_line st3 = 20 \<and> tokenizer_p (tok st3) = Prog 3 \<and>
    (\<exists>st5. do_return int_floats (st3\<lparr>sym := T_EOF\<rparr>) = Some st5 \<and> cur_line st5 = 0 \<and> tokenizer_p (tok st5) = Input 0 0 \<and>
      stack_frames st5 = [] \<and> stack_p st5 = 100)"
proof -
  let ?st1 = "gosub_sample\<lparr>sym := T_EOF\<rparr>"
  have "sym gosub_sample = T_NUMBER" "to_int int_floats (tokenizer_get_number (tok gosub_sample)) = Some 20"
    by (simp_all add: gosub_sample_def tokenizer_get_number_def to_int_def int_floats_def)
  moreover have "get_sym int_floats gosub_sample = Some ?st1"
    by (simp add: get_sym_def next_token_eof gosub_sample_def text_of_def blank_state_def)
  moreover have "tokenizer_pos Null ?st1 = Some (Input 0 0, ?st1)"
    by (simp add: tokenizer_pos_def tokenizer_char_pointer_def skip_white_def gosub_sample_def text_of_def blank_state_def)
  moreover have "lines_contents gosub_sample (of_int 20) = Some (Prog 3)"
    by (simp add: lines_contents_def gosub_sample_def) code_simp
  ultimately have *: "if stack_p gosub_sample < 24 then do_gosub int_floats gosub_sample = Some (raise ''STACK FULL'' ?st1)
    else \<exists>st3. do_gosub int_floats gosub_sample = Some st3 \<and> cur_line st3 = of_int 20 \<and> tokenizer_p (tok st3) = Prog 3 \<and>
      stack_p st3 = stack_p gosub_sample - 24 \<and>
      (\<forall>st4. stack_frames st4 = stack_frames st3 \<and> stack_p st4 = stack_p st3 \<and> sym st4 \<noteq> t_keyword_return \<longrightarrow>
        (\<exists>st5. do_return int_floats st4 = Some st5 \<and> cur_line st5 = cur_line gosub_sample \<and>
          tokenizer_p (tok st5) = Input 0 0 \<and> stack_frames st5 = stack_frames gosub_sample \<and>
          stack_p st5 = stack_p gosub_sample \<and> vars st5 = vars st4 \<and> prog st5 = prog st4))"
    by (rule gosub_return)
  have sample: "stack_p gosub_sample = 100" "cur_line gosub_sample = 0" "stack_frames gosub_sample = []"
    by (simp_all add: gosub_sample_def blank_state_def)
  from * obtain st3 where st3: "do_gosub int_floats gosub_sample = Some st3" "cur_line st3 = 20" "tokenizer_p (tok st3) = Prog 3"
    and ret: "\<And>st4. stack_frames st4 = stack_frames st3 \<and> stack_p st4 = stack_p st3 \<and> sym st4 \<noteq> t_keyword_return \<Longrightarrow>
        \<exists>st5. do_return int_floats st4 = Some st5 \<and> cur_line st5 = 0 \<and> tokenizer_p (tok st5) = Input 0 0 \<and>
          stack_frames st5 = [] \<and> stack_p st5 = 100 \<and> vars st5 = vars st4 \<and> prog st5 = prog st4"
    by (auto simp: sample)
  have "T_EOF \<noteq> t_keyword_return" by (simp add: token_defs t_keyword_return_def basic_token_id_def)
  then show ?thesis using st3 ret [of "st3\<lparr>sym := T_EOF\<rparr>"] by auto
qed

subsection \<open>NEXT\<close>

lemma do_next_for:
  assumes "sym st = T_EOF" and "stack_frames st = For_frame v e s n c # fs" and "c \<noteq> Null"
    and "variable_get_numeric (vars st) v = Some (x, vars st)"
  shows "do_next F st =
    (if f_gt0 F s \<and> f_lt F e (f_add F x s) \<or> f_lt0 F s \<and> f_lt F (f_add F x s) e
     then Some (st\<lparr>stack_p := stack_p st + 40, stack_frames := fs\<rparr>)
     else Some (st\<lparr>vars := snd (variable_set_numeric (vars st) v (f_add F x s)), cur_line := n,
       tok := (tok st)\<lparr>tokenizer_p := c\<rparr>\<rparr>))"
  using assms
  by (simp add: do_next_def accept_skip token_defs t_keyword_next_def basic_token_id_def Let_def
      tokenizer_pos_move sizeof_for_def)

text \<open>NEXT with the name of the variable reads the name and goes on like NEXT without it.\<close>

lemma do_next_named:
  assumes "sym st = T_VARIABLE_NUMBER" and "tokenizer_get_variable_name (tok st) = Some v" and "get_sym F st = Some st'" and "sym st' = T_EOF"
    and "stack_frames st = For_frame v e s n c # fs"
  shows "do_next F st = do_next F st'"
proof -
  have "stack_frames st' = For_frame v e s n c # fs" using get_sym_core [OF assms(3)] assms(5) by (simp add: core_def)
  then show ?thesis
    using assms by (simp add: do_next_def accept_skip accept_def token_defs t_keyword_next_def basic_token_id_def Let_def)
qed

subsection \<open>The entry of a program line\<close>

lemma trim_id: "s = [] \<or> \<not> isspace (last s) \<Longrightarrow> trim s = s"
  by (cases s rule: rev_cases) (auto simp: trim_def)

lemma trim_append: "\<forall>c\<in>set tr. isspace c \<Longrightarrow> s = [] \<or> \<not> isspace (last s) \<Longrightarrow> trim (s @ tr) = s"
  by (cases s rule: rev_cases) (auto simp: trim_def dropWhile_append)

text \<open>The buffer of the line: white space at its end is cut off.\<close>

lemma line_buffer_trim:
  assumes "is_cstring line" and "length (line @ tr) < tokenizer_string_length" and "line = [] \<or> \<not> isspace (last line)" and "\<forall>c\<in>set tr. isspace c"
  obtains r where "trim_buffer (strncpy tokenizer_string_length (line @ tr)) = Some (line @ 0 # r)"
    and "tr = [] \<longrightarrow> line @ 0 # r = line @ replicate (tokenizer_string_length - length line) 0"
proof -
  obtain k where k: "tokenizer_string_length - length (line @ tr) = Suc k" using assms(2) by (cases "tokenizer_string_length - length (line @ tr)") auto
  let ?z = "0 # replicate k (0 :: byte)"
  have str: "is_cstring (line @ tr)" using assms(1,4) by (auto simp: is_cstring_def isspace_def)
  have copy: "strncpy tokenizer_string_length (line @ tr) = line @ tr @ ?z" using k by (simp add: strncpy_def)
  have at: "cstring_at (line @ tr @ ?z) 0 = Some (line @ tr)" using cstring_at_start [OF str] by simp
  obtain x r where x: "tr @ ?z = x # r" by (cases tr) auto
  then have "store (line @ tr @ ?z) (length line) 0 = Some (line @ 0 # r)" by (simp add: store_def list_update_append)
  then have "trim_buffer (strncpy tokenizer_string_length (line @ tr)) = Some (line @ 0 # r)"
    using trim_append [OF assms(4,3)] by (simp add: trim_buffer_def copy at)
  moreover have "tr = [] \<longrightarrow> line @ 0 # r = line @ replicate (tokenizer_string_length - length line) 0" using x k by auto
  ultimately show thesis by (rule that)
qed

lemma line_buffer:
  assumes "is_cstring line" and "length line < tokenizer_string_length" and "line = [] \<or> \<not> isspace (last line)"
  shows "trim_buffer (strncpy tokenizer_string_length line) = Some (line @ replicate (tokenizer_string_length - length line) 0)"
  by (rule line_buffer_trim [of line "[]"]) (use assms in simp_all)

lemma here_view:
  assumes "view (text_of st) (tokenizer_p (tok st)) = Some (sp @ d # r)" and "\<forall>c\<in>set sp. isspace c" and "\<not> isspace d"
  shows "tokenizer_pos Null st = Some (ptr_add (tokenizer_p (tok st)) (length sp),
      st\<lparr>tok := (tok st)\<lparr>tokenizer_p := ptr_add (tokenizer_p (tok st)) (length sp)\<rparr>\<rparr>)"
proof -
  have "span_while isspace (sp @ d # r) = Some (length sp)"
    using assms(2,3) by (intro span_while_split) (auto simp: isspace_def)
  then show ?thesis
    using assms(1) by (simp add: tokenizer_pos_def tokenizer_char_pointer_def skip_white_def)
qed

text \<open>
  The text of a program line, as it is stored: nothing, or any text from a character that is not white space to one that is not.  The code reads the
  first token of the text to see whether there is one, so this token has to be one that it can read: a number that \<^verbatim>\<open>sscanf\<close>
  converts, and no name of exactly eight characters, whose closing zero is written behind the buffer of the name.
\<close>

definition readable :: "'f floats \<Rightarrow> cstring \<Rightarrow> bool" where
  "readable F t \<longleftrightarrow> (if isdigit (hd t) \<or> hd t = 46 then f_scan F (takeWhile (\<lambda>c. isdigit c \<or> c = 46) t) \<noteq> None
     else hd t = 34 \<or> length (takeWhile isvarchar t) \<noteq> tokenizer_variable_length \<or> (\<exists>i t'. i < length words \<and> t = ascii (words ! i) @ t'))"

definition line_text :: "'f floats \<Rightarrow> cstring \<Rightarrow> bool" where
  "line_text F t \<longleftrightarrow> is_cstring t \<and> (t = [] \<or> \<not> isspace (hd t) \<and> \<not> isspace (last t) \<and> readable F t)"

text \<open>A text that begins like a number is read as a part of the line number when nothing stands between them.\<close>

definition apart :: "cstring \<Rightarrow> cstring \<Rightarrow> bool" where
  "apart sp t \<longleftrightarrow> (\<forall>c\<in>set sp. isspace c) \<and> (if t = [] then sp = [] else sp = [] \<longrightarrow> \<not> isdigit (hd t) \<and> hd t \<noteq> 46)"

lemma word_token_not_eof: "i < length words \<Longrightarrow> te_token (all_tokens ! (6 + i)) \<notin> {T_EOF, T_THE_END}"
proof -
  have "\<forall>e\<in>set (drop 6 all_tokens). te_token e \<notin> {T_EOF, T_THE_END}"
    by (simp add: all_tokens_def setup_tokens_def registrations_def basic_token_id_def token_defs)
  moreover assume "i < length words"
  ultimately show ?thesis using length_all_tokens nth_mem [of i "drop 6 all_tokens"] by simp
qed

lemma only_tok_pos: "scanner t = scanner (tok st) \<Longrightarrow> only_tok st (st\<lparr>tok := t\<rparr>)"
  unfolding only_tok_def by (intro conjI exI [where x = t] exI [where x = "sym st"]) simp_all

lemma number_char: "isdigit c \<or> c = 46 \<Longrightarrow> c \<noteq> 0 \<and> \<not> isspace c \<and> c \<noteq> 35"
  by (auto simp: isdigit_def isspace_def word_le_nat_alt)

lemma space_char: "isspace c \<Longrightarrow> c \<noteq> 0 \<and> \<not> isdigit c \<and> c \<noteq> 46"
  by (auto simp: isdigit_def isspace_def word_le_nat_alt)

lemma span_while_cstring: "is_cstring u \<Longrightarrow> span_while P (u @ 0 # r) = Some (length (takeWhile P u))"
  by (induction u) (auto simp: is_cstring_def)

lemma starts_with_total: "is_cstring w \<Longrightarrow> starts_with (u @ 0 # r) w \<noteq> None"
proof (induction u arbitrary: w)
  case Nil
  then show ?case by (cases w) (auto simp: is_cstring_def)
next
  case (Cons c u)
  then show ?case by (cases w) (auto simp: is_cstring_def)
qed

lemma first_match_total:
  assumes "\<forall>e\<in>set es. \<forall>w. te_name e = Some w \<longrightarrow> is_cstring w"
  shows "\<exists>m. first_match (u @ 0 # r) es = Some m \<and> (\<forall>k l. m = Some (k, l) \<longrightarrow> (\<exists>e\<in>set es. te_name e \<noteq> None \<and> te_token e = k))"
  using assms
proof (induction es)
  case (Cons e es)
  obtain m where m: "first_match (u @ 0 # r) es = Some m" "\<forall>k l. m = Some (k, l) \<longrightarrow> (\<exists>e\<in>set es. te_name e \<noteq> None \<and> te_token e = k)"
    using Cons.IH Cons.prems by auto
  show ?case
  proof (cases "te_name e")
    case (Some w)
    then obtain b where "starts_with (u @ 0 # r) w = Some b" using starts_with_total [of w u r] Cons.prems by auto
    then show ?thesis using Some m by (cases b) auto
  qed (use m in auto)
qed simp

lemma token_names:
  assumes "e \<in> set all_tokens" and "te_name e = Some w"
  shows "is_cstring w" and "te_token e \<notin> {T_EOF, T_THE_END}"
proof -
  have "Some w \<in> set (map te_name all_tokens)" using assms by (metis image_eqI list.set_map)
  then obtain i where i: "i < length words" "w = ascii (words ! i)" by (auto simp: all_tokens_names in_set_conv_nth)
  have "\<forall>w\<in>set words. is_cstring (ascii w)" unfolding words_def registrations_def by (simp add: is_cstring_def ascii_def)
  then show "is_cstring w" using i by simp
  obtain j where j: "j < length all_tokens" "e = all_tokens ! j" using assms(1) by (auto simp: in_set_conv_nth)
  have "6 \<le> j" using assms(2) j nth_map [of j all_tokens te_name] by (cases "j < 6") (auto simp: all_tokens_names nth_append)
  then obtain k where "j = 6 + k" using le_Suc_ex by blast
  then show "te_token e \<notin> {T_EOF, T_THE_END}" using j length_all_tokens word_token_not_eof [of k] by simp
qed

text \<open>The tokens a text can begin with.\<close>

lemma number_read:
  assumes "view mem (tokenizer_p t) = Some (s @ 0 # r)" and "is_cstring s" and "f_scan F (takeWhile (\<lambda>c. isdigit c \<or> c = 46) s) \<noteq> None"
  shows "\<exists>t'. read_number (f_scan F) mem t = Some (T_NUMBER, t')"
  using assms span_while_cstring [OF assms(2), of "\<lambda>c. isdigit c \<or> c = 46" r] takeWhile_eq_take [of "\<lambda>c. isdigit c \<or> c = 46" s]
    length_takeWhile_le [of "\<lambda>c. isdigit c \<or> c = 46" s]
  by (auto simp: read_number_def Let_def)

lemma string_read:
  assumes "view mem (tokenizer_p t) = Some (34 # s @ 0 # r)" and "is_cstring s" and "length s < 63"
    and "length (tokenizer_actual_string t) = tokenizer_string_length"
  shows "\<exists>t'. read_string mem t = Some (T_STRING, t')"
proof -
  have l: "length (takeWhile (\<lambda>c. c \<noteq> 34) s) \<le> length s" by (rule length_takeWhile_le)
  have "view mem (ptr_add (tokenizer_p t) 1) = Some (s @ 0 # r)" using view_add [OF assms(1), of 1] by simp
  then show ?thesis using l assms(3,4) span_while_cstring [OF assms(2), of "\<lambda>c. c \<noteq> 34" r]
    by (simp add: read_string_def load_def blit_def tokenizer_string_length_def Let_def)
qed

lemma variable_read:
  assumes "view mem (tokenizer_p t) = Some (s @ 0 # r)" and "is_cstring s" and "length (takeWhile isvarchar s) \<noteq> tokenizer_variable_length"
    and "length (tokenizer_actual_variable t) = tokenizer_variable_length"
  shows "\<exists>k t'. read_variable mem t = Some (k, t') \<and> k \<noteq> T_EOF"
proof -
  let ?l = "length (takeWhile isvarchar s)"
  have l: "?l \<le> length s" by (rule length_takeWhile_le)
  show ?thesis
    using assms l span_while_cstring [OF assms(2), of isvarchar r]
    by (auto simp: read_variable_def blit_def load_def token_defs tokenizer_variable_length_def Let_def)
qed

lemma next_symbol:
  assumes "basic_ok n st" and "view (text_of st) (tokenizer_p (tok st)) = Some (t @ 0 # r)" and "t \<noteq> []" and "line_text F t"
    and "length t < tokenizer_string_length"
  shows "\<exists>st'. get_sym F st = Some st' \<and> sym st' \<noteq> T_EOF"
proof -
  obtain d u where t: "t = d # u" using assms(3) by (cases t) auto
  have str: "is_cstring t" "d \<noteq> 0" "\<not> isspace d" and rd: "readable F t"
    using assms(4) t by (auto simp: line_text_def is_cstring_def)
  have ok: "holds_entries (token_array (tok st)) all_tokens" "length (tokenizer_actual_string (tok st)) = tokenizer_string_length"
    "length (tokenizer_actual_variable (tok st)) = tokenizer_variable_length"
    using assms(1) by (simp_all add: basic_ok_def)
  note at = next_token_at [of "text_of st" "tok st" d "u @ 0 # r" "f_scan F"]
  have "\<exists>k tk. tokenizer_get_next_token (f_scan F) (text_of st) (tok st) = Some (k, tk) \<and> k \<noteq> T_EOF"
  proof -
    consider "isdigit d \<or> d = 46" | "\<not> (isdigit d \<or> d = 46)" "d = 34" | "\<not> (isdigit d \<or> d = 46)" "d \<noteq> 34" by blast
    then show ?thesis
    proof cases
      case 1
      then have "f_scan F (takeWhile (\<lambda>c. isdigit c \<or> c = 46) t) \<noteq> None" using rd t by (auto simp: readable_def)
      from number_read [OF assms(2) str(1) this] show ?thesis using 1 at assms(2) str t by (auto simp: token_defs)
    next
      case 2
      then have "view (text_of st) (tokenizer_p (tok st)) = Some (34 # u @ 0 # r)" "is_cstring u" "length u < 63"
        using assms(2,5) str(1) t by (auto simp: is_cstring_def tokenizer_string_length_def)
      from string_read [OF this ok(2)] show ?thesis using 2 at assms(2) str t by (auto simp: token_defs)
    next
      case 3
      have "\<forall>e\<in>set all_tokens. \<forall>w. te_name e = Some w \<longrightarrow> is_cstring w" using token_names(1) by blast
      from first_match_total [OF this, of t r] obtain m where m: "first_match (t @ 0 # r) all_tokens = Some m"
        "\<forall>k l. m = Some (k, l) \<longrightarrow> (\<exists>e\<in>set all_tokens. te_name e \<noteq> None \<and> te_token e = k)" by blast
      note reg = find_registered_match [OF ok(1) assms(2)]
      show ?thesis
      proof (cases m)
        case None
        have "\<not> (\<exists>i t'. i < length words \<and> t = ascii (words ! i) @ t')"
        proof
          assume "\<exists>i t'. i < length words \<and> t = ascii (words ! i) @ t'"
          then obtain i t' where "i < length words" "t = ascii (words ! i) @ t'" by blast
          then show False using word_match [of i "t' @ 0 # r"] m(1) None by simp
        qed
        then have "length (takeWhile isvarchar t) \<noteq> tokenizer_variable_length" using rd 3 t by (auto simp: readable_def tokenizer_variable_length_def)
        from variable_read [OF assms(2) str(1) this ok(3)] show ?thesis using 3 at assms(2) str t reg m(1) None by auto
      next
        case (Some kl)
        obtain k l where kl: "kl = (k, l)" by force
        then have "k \<notin> {T_EOF, T_THE_END}" using m(2) Some token_names(2) by fastforce
        then show ?thesis using 3 at assms(2) str t reg m(1) Some kl by (simp add: Let_def)
      qed
    qed
  qed
  then show ?thesis by (auto simp: get_sym_def)
qed

lemma second_symbol:
  assumes "basic_ok n st" and "view (text_of st) (tokenizer_p (tok st)) = Some (sp @ t @ 0 # r)"
    and "apart sp t" and "line_text F t" and "length t < tokenizer_string_length"
  shows "\<exists>p st2 st3. tokenizer_pos Null st = Some (p, st2) \<and> view (text_of st) p = Some (t @ 0 # r) \<and>
    get_sym F st2 = Some st3 \<and> (sym st3 = T_EOF \<longleftrightarrow> t = []) \<and> only_tok st st3"
proof -
  let ?p = "ptr_add (tokenizer_p (tok st)) (length sp)"
  let ?st2 = "st\<lparr>tok := (tok st)\<lparr>tokenizer_p := ?p\<rparr>\<rparr>"
  have sp: "\<forall>c\<in>set sp. isspace c" using assms(3) by (simp add: apart_def)
  obtain d u where d: "t @ 0 # r = d # u" "\<not> isspace d"
    using assms(4) by (cases t) (auto simp: line_text_def isspace_def)
  have pos: "tokenizer_pos Null st = Some (?p, ?st2)"
    using here_view [of st sp d u] assms(2) sp d by simp
  have view: "view (text_of st) ?p = Some (t @ 0 # r)"
    using view_add [OF assms(2), of "length sp"] by simp
  have only: "only_tok st ?st2" by (rule only_tok_pos) simp
  have "\<exists>st3. get_sym F ?st2 = Some st3 \<and> (sym st3 = T_EOF \<longleftrightarrow> t = [])"
  proof (cases "t = []")
    case True
    then have "get_sym F ?st2 = Some (?st2\<lparr>sym := T_EOF\<rparr>)"
      using view next_token_eof [of "text_of st" "tok ?st2" r] by (simp add: get_sym_def text_of_def)
    then show ?thesis using True by simp
  next
    case False
    then show ?thesis using next_symbol [of n ?st2 t r F] only_tok_ok [OF only] assms(1,4,5) view by (simp add: text_of_def)
  qed
  then show ?thesis using pos view only get_sym_only_tok only_tok_trans by blast
qed

text \<open>The state in which the line is read.\<close>

definition entered_in :: "byte list \<Rightarrow> 'f basic \<Rightarrow> 'f basic" where
  "entered_in b st = start_at (Input (Suc (eval_no st)) 0)
     (st\<lparr>eval_no := Suc (eval_no st), eval_line := b, vars := (vars st)\<lparr>last_error := None\<rparr>\<rparr>)"

definition entered :: "cstring \<Rightarrow> 'f basic \<Rightarrow> 'f basic" where
  "entered line = entered_in (line @ replicate (tokenizer_string_length - length line) 0)"

lemma entered_buffer:
  assumes "plain_number F ds" and "apart sp t" and "line_text F t" and "\<forall>c\<in>set tr. isspace c"
    and "length (ds @ sp @ t @ tr) < tokenizer_string_length"
  shows "\<exists>r. trim_buffer (strncpy tokenizer_string_length (ds @ sp @ t @ tr)) = Some (ds @ sp @ t @ 0 # r) \<and>
    cstring_at (ds @ sp @ t @ 0 # r) 0 = Some (ds @ sp @ t) \<and> \<not> is_empty (ds @ sp @ t) \<and> \<not> is_comment (ds @ sp @ t)"
proof -
  let ?line = "ds @ sp @ t"
  have number: "\<forall>c\<in>set ds. c \<noteq> 0 \<and> \<not> isspace c \<and> c \<noteq> 35"
    using assms(1) number_char by (auto simp: plain_number_def list_all_iff)
  obtain c ds' where ds: "ds = c # ds'" "\<not> isspace c" "c \<noteq> 35"
    using assms(1) number by (cases ds) (auto simp: plain_number_def)
  have str: "is_cstring ?line"
    using number assms(2,3) space_char by (auto simp: line_text_def is_cstring_def apart_def)
  have last: "\<not> isspace (last ?line)"
    using assms(2,3) ds(1) number by (cases "t = []") (auto simp: line_text_def last_append apart_def)
  obtain r where "trim_buffer (strncpy tokenizer_string_length (?line @ tr)) = Some (?line @ 0 # r)"
    using line_buffer_trim [OF str _ _ assms(4)] assms(5) last by auto
  then show ?thesis
    using cstring_at_start [OF str, of r] ds by (auto simp: is_empty_def is_comment_def)
qed

lemma eval_number_line:
  assumes "basic_ok n st" and "plain_number F ds" and "f_scan F ds = Some x"
    and "apart sp t" and "line_text F t" and "\<forall>c\<in>set tr. isspace c"
    and "length (ds @ sp @ t @ tr) < tokenizer_string_length"
  shows "\<exists>b st'. only_tok (entered_in b st) st' \<and> basic_eval F fuel (ds @ sp @ t @ tr) st = do {
      k \<leftarrow> to_uint16 F x;
      (_, pr) \<leftarrow> (if t = [] then lines_delete (prog st) k else lines_store (prog st) k t);
      Some (st'\<lparr>prog := pr\<rparr>) }"
proof -
  obtain r where r: "trim_buffer (strncpy tokenizer_string_length (ds @ sp @ t @ tr)) = Some (ds @ sp @ t @ 0 # r)"
    "cstring_at (ds @ sp @ t @ 0 # r) 0 = Some (ds @ sp @ t)" "\<not> is_empty (ds @ sp @ t)" "\<not> is_comment (ds @ sp @ t)"
    using entered_buffer [OF assms(2,4-7)] by blast
  let ?st = "entered_in (ds @ sp @ t @ 0 # r) st"
  have "\<not> isdigit (hd (sp @ t @ 0 # r)) \<and> hd (sp @ t @ 0 # r) \<noteq> 46"
    using assms(4) space_char by (cases sp; cases t) (auto simp: apart_def isdigit_def)
  then have lexeme: "lexeme_ok F (Number ds) (sp @ t @ 0 # r)" using assms(2) by simp
  have ok: "basic_ok n ?st"
    using assms(1) by (simp add: entered_in_def basic_ok_def stack_total_def start_at_def tokenizer_init_def)
  have "view (text_of ?st) (tokenizer_p (tok ?st)) = Some ([] @ ds @ sp @ t @ 0 # r)"
    by (simp add: entered_in_def start_at_def tokenizer_init_def text_of_def)
  then obtain st1 where st1: "get_sym F ?st = Some st1" "sym st1 = T_NUMBER" "tokenizer_get_number (tok st1) = x"
      "view (text_of st1) (tokenizer_p (tok st1)) = Some (sp @ t @ 0 # r)"
    using get_sym_number [of ?st "[]" ds "sp @ t @ 0 # r" F] lexeme assms(3) by auto
  obtain p st2 st3 where st3: "tokenizer_pos Null st1 = Some (p, st2)"
      "view (text_of st1) p = Some (t @ 0 # r)" "get_sym F st2 = Some st3"
      "sym st3 = T_EOF \<longleftrightarrow> t = []" "only_tok st1 st3"
    using second_symbol [OF _ st1(4) assms(4,5), of n] only_tok_ok [OF get_sym_only_tok [OF st1(1)]] ok assms(7) by auto
  have only: "only_tok ?st st3" by (rule only_tok_trans [OF get_sym_only_tok [OF st1(1)] st3(5)])
  then have prog: "prog st3 = prog st" by (auto simp: only_tok_def start_at_def entered_in_def)
  have same_text: "text_of st3 = text_of st1" using st3(5) by (auto simp: only_tok_def text_of_def)
  have t: "cstring_at (t @ 0 # r) 0 = Some t"
    using cstring_at_start [of t r] assms(5) by (simp add: line_text_def)
  show ?thesis
    using r st1(1-3) st3(1-4) same_text prog t only assms(7)
    by (intro exI [where x = "ds @ sp @ t @ 0 # r"] exI [where x = st3]) (auto simp: basic_eval_def entered_in_def Let_def)
qed

text \<open>C24. Entering a line that starts with a number stores the text behind it, less the white space around it, under that number in the
  program, and deletes the line when there is no text; stack, variables and the other lines stay as they were.  The number is
  what the conversion of the digits to a float and back to 16 bits gives.  The text is any text whose first token can be read (\<open>line_text\<close>);
  the line has fewer than 64 characters, which is the room of the buffer, and the program with the line fits into the memory, which the code does not check.\<close>

theorem enter_line:
  assumes "basic_ok n st" and "holds_program (prog st) ls"
    and "plain_number F ds" and "f_scan F ds = Some x" and "to_uint16 F x = Some k"
    and "apart sp t" and "line_text F t" and "\<forall>c\<in>set tr. isspace c"
    and "length (ds @ sp @ t @ tr) < tokenizer_string_length"
    and "length (image_bytes (put_line k t ls)) \<le> length (lines_memory (prog st))"
  shows "\<exists>st'. basic_eval F fuel (ds @ sp @ t @ tr) st = Some st' \<and>
    holds_program (prog st') (if t = [] then del_line k ls else put_line k t ls) \<and>
    stack_frames st' = stack_frames st \<and> stack_p st' = stack_p st \<and> vars st' = (vars st)\<lparr>last_error := None\<rparr>"
proof -
  obtain b st1 where st1: "only_tok (entered_in b st) st1" "basic_eval F fuel (ds @ sp @ t @ tr) st = do {
      k \<leftarrow> to_uint16 F x;
      (_, pr) \<leftarrow> (if t = [] then lines_delete (prog st) k else lines_store (prog st) k t);
      Some (st1\<lparr>prog := pr\<rparr>) }"
    using eval_number_line [OF assms(1,3,4,6-9)] by blast
  have "\<exists>b pr. (if t = [] then lines_delete (prog st) k else lines_store (prog st) k t) = Some (b, pr) \<and>
      holds_program pr (if t = [] then del_line k ls else put_line k t ls)"
  proof (cases "t = []")
    case True
    then show ?thesis using ls.delete [OF assms(2), of k] by auto
  next
    case False
    have "length t < 255" using assms(9) by (simp add: tokenizer_string_length_def)
    then have "wf_line (k, t)" using assms(7) by (simp add: line_text_def)
    then show ?thesis using False ls.store [OF assms(2)] assms(10) by fastforce
  qed
  then show ?thesis using st1 assms(5) by (auto simp: only_tok_def entered_in_def start_at_def split: if_splits)
qed

text \<open>The line \<^verbatim>\<open>10 A=5\<close> with a space at its end, entered into an empty program.\<close>

theorem enter_line_witness:
  "\<exists>st :: int basic. basic_ok 2048 st \<and> holds_program (prog st) [] \<and>
    (\<exists>st'. basic_eval int_floats 0 (ascii ''10 A=5 '') st = Some st' \<and> holds_program (prog st') [(10, ascii ''A=5'')])"
proof -
  obtain st0 :: "int basic" where st0: "basic_ok 2048 st0" using sample_ok by blast
  let ?st = "st0\<lparr>prog := \<lparr>lines_memory = image_bytes [] @ replicate 40 7, lines_memory_end = 0, lines_memory_size = 43\<rparr>\<rparr>"
  have ok: "basic_ok 2048 ?st" using st0 by (simp add: basic_ok_def stack_total_def)
  have empty: "holds_program (prog ?st) []" by (simp add: holds_program_iff wf_program_def)
  have a5: "apart [32] (ascii ''A=5'')" "line_text int_floats (ascii ''A=5'')" "\<forall>c\<in>set [32 :: byte]. isspace c"
    by (simp_all add: apart_def line_text_def readable_def is_cstring_def ascii_def isspace_def isdigit_def isvarchar_def
        tokenizer_variable_length_def)
  have number: "plain_number int_floats [49, 48]" "f_scan int_floats [49, 48] = Some 10" "to_uint16 int_floats 10 = Some 10"
    by (simp_all add: plain_number_def int_floats_def isdigit_def word_le_nat_alt digits_value_def to_uint16_def)
  have "\<exists>st'. basic_eval int_floats 0 ([49, 48] @ [32] @ ascii ''A=5'' @ [32]) ?st = Some st' \<and>
    holds_program (prog st') (if ascii ''A=5'' = [] then del_line 10 [] else put_line 10 (ascii ''A=5'') []) \<and>
    stack_frames st' = stack_frames ?st \<and> stack_p st' = stack_p ?st \<and> vars st' = (vars ?st)\<lparr>last_error := None\<rparr>"
    by (rule enter_line [OF ok empty number a5])
      (simp_all add: ascii_def tokenizer_string_length_def image_bytes_def)
  then show ?thesis using ok empty by (intro exI [of _ ?st]) (auto simp: ascii_def)
qed

end
