(* ===== verification/Basic_Source.thy ===== *)
theory Basic_Source
  imports Basic_Control
begin

section \<open>BASIC: a reference semantics of programs\<close>

text \<open>
  The language seen from its user: a program is a list of numbered statements, a configuration has
  the current line, the values of the variables, the pending subroutines and loops, the free space
  of the stack and what was printed.  Statements work on syntax trees and values; there is no text,
  no tokenizer and no pointer.  A statement that the reference semantics gives no meaning to (a
  variable that is read before it is set, RETURN without GOSUB, NEXT without its FOR, a missing line, a number that does not
  fit the type it is converted to) stops the reference run without a result.
\<close>

subsection \<open>Statements and their lexemes\<close>

datatype stmt =
    Let cstring sum
  | Print sum
  | Goto cstring
  | If_then sum cstring
  | Gosub cstring
  | Return
  | For cstring sum sum "sum option"
  | Next "cstring option"
  | End

abbreviation "l_goto \<equiv> Word 15"
abbreviation "l_gosub \<equiv> Word 17"
abbreviation "l_return \<equiv> Word 18"
abbreviation "l_if \<equiv> Word 20"
abbreviation "l_then \<equiv> Word 21"
abbreviation "l_for \<equiv> Word 22"
abbreviation "l_to \<equiv> Word 23"
abbreviation "l_step \<equiv> Word 24"
abbreviation "l_next \<equiv> Word 25"
abbreviation "l_end \<equiv> Word 26"
abbreviation "l_print \<equiv> Word 42"

fun stmt_lexemes :: "stmt \<Rightarrow> lexeme list" where
  "stmt_lexemes (Let v e) = Name v # l_equals # sum_lexemes e"
| "stmt_lexemes (Print e) = l_print # sum_lexemes e"
| "stmt_lexemes (Goto ds) = [l_goto, Number ds]"
| "stmt_lexemes (If_then e ds) = l_if # sum_lexemes e @ [l_then, Number ds]"
| "stmt_lexemes (Gosub ds) = [l_gosub, Number ds]"
| "stmt_lexemes Return = [l_return]"
| "stmt_lexemes (For v a b s) = l_for # Name v # l_equals # sum_lexemes a @ l_to # sum_lexemes b @
     (case s of None \<Rightarrow> [] | Some e \<Rightarrow> l_step # sum_lexemes e)"
| "stmt_lexemes (Next w) = l_next # (case w of None \<Rightarrow> [] | Some v \<Rightarrow> [Name v])"
| "stmt_lexemes End = [l_end]"

text \<open>Fuel that is enough for the expressions of a statement.\<close>

fun stmt_fuel :: "stmt \<Rightarrow> nat" where
  "stmt_fuel (Let v e) = sum_fuel e"
| "stmt_fuel (Print e) = sum_fuel e"
| "stmt_fuel (If_then e ds) = sum_fuel e"
| "stmt_fuel (For v a b s) = sum_fuel a + sum_fuel b + (case s of None \<Rightarrow> 0 | Some e \<Rightarrow> sum_fuel e)"
| "stmt_fuel _ = 0"

subsection \<open>Configurations and steps\<close>

datatype 'f pending = Subroutine u16 | Loop cstring 'f 'f u16

record 'f config =
  at_line :: u16
  env :: "cstring \<rightharpoonup> 'f"
  pending :: "'f pending list"
  room :: nat
  printed :: cstring

text \<open>How a statement ends: the next line is the current line of the configuration (\<open>Jump\<close>), the one behind it
  (\<open>After\<close>, where the program ends behind the last line; \<open>Skip\<close>, which needs a further line), or none (\<open>Halt\<close>).\<close>

datatype 'f outcome = Jump "'f config" | After "'f config" | Skip "'f config" | Halt "'f config"

definition tree_value :: "'f floats \<Rightarrow> (cstring \<rightharpoonup> 'f) \<Rightarrow> sum \<Rightarrow> 'f option" where
  "tree_value F \<rho> e = (if sum_ok (\<lambda>v. \<rho> v \<noteq> None) e then Some (sum_value F (\<lambda>v. the (\<rho> v)) e) else None)"

text \<open>An expression that starts with a plus sign is not read as a number by \<^verbatim>\<open>PRINT\<close> and \<^verbatim>\<open>IF\<close>.\<close>

fun starts_with_plus :: "sum \<Rightarrow> bool" where
  "starts_with_plus (First sign p) \<longleftrightarrow> sign = Some True"
| "starts_with_plus (Plus_minus s b p) \<longleftrightarrow> starts_with_plus s"

definition shown :: "'f floats \<Rightarrow> 'f \<Rightarrow> cstring option" where
  "shown F x = do {
     i \<leftarrow> to_int F x;
     Some (take 15 (if f_eq F (f_of_int F i) x then decimal_int i else f_show F x)) }"

definition goto_line :: "'f floats \<Rightarrow> cstring \<Rightarrow> u16 option" where
  "goto_line F ds = do { x \<leftarrow> f_scan F ds; i \<leftarrow> to_int F x; Some (of_int i) }"

definition then_line :: "'f floats \<Rightarrow> cstring \<Rightarrow> u16 option" where
  "then_line F ds = do { x \<leftarrow> f_scan F ds; to_uint16 F x }"

definition past_end :: "'f floats \<Rightarrow> 'f \<Rightarrow> 'f \<Rightarrow> 'f \<Rightarrow> bool" where
  "past_end F step end_value x \<longleftrightarrow> f_gt0 F step \<and> f_lt F end_value x \<or> f_lt0 F step \<and> f_lt F x end_value"

fun exec_stmt :: "'f floats \<Rightarrow> stmt \<Rightarrow> 'f config \<Rightarrow> 'f outcome option" where
  "exec_stmt F (Let v e) c = do {
     x \<leftarrow> tree_value F (env c) e;
     Some (After (c\<lparr>env := (env c)(v \<mapsto> x)\<rparr>)) }"
| "exec_stmt F (Print e) c = (if starts_with_plus e then None else do {
     x \<leftarrow> tree_value F (env c) e;
     s \<leftarrow> shown F x;
     Some (After (c\<lparr>printed := printed c @ s @ [10]\<rparr>)) })"
| "exec_stmt F (Goto ds) c = do {
     n \<leftarrow> goto_line F ds;
     Some (Jump (c\<lparr>at_line := n\<rparr>)) }"
| "exec_stmt F (If_then e ds) c = (if starts_with_plus e then None else do {
     x \<leftarrow> tree_value F (env c) e;
     if f_eq F x (f_of_int F 1) then do {
       n \<leftarrow> then_line F ds;
       Some (Jump (c\<lparr>at_line := n\<rparr>)) }
     else Some (Skip c) })"
| "exec_stmt F (Gosub ds) c = (if room c < sizeof_gosub then None else do {
     n \<leftarrow> goto_line F ds;
     Some (Jump (c\<lparr>pending := Subroutine (at_line c) # pending c, room := room c - sizeof_gosub, at_line := n\<rparr>)) })"
| "exec_stmt F Return c = (case pending c of
       Subroutine n # fs \<Rightarrow> Some (After (c\<lparr>pending := fs, room := room c + sizeof_gosub, at_line := n\<rparr>))
     | _ \<Rightarrow> None)"
| "exec_stmt F (For v a b s) c = (if room c < sizeof_for then None else do {
     x \<leftarrow> tree_value F (env c) a;
     let \<rho> = (env c)(v \<mapsto> x);
     y \<leftarrow> tree_value F \<rho> b;
     z \<leftarrow> (case s of None \<Rightarrow> Some (f_of_int F 1) | Some e \<Rightarrow> tree_value F \<rho> e);
     Some (After (c\<lparr>env := \<rho>, pending := Loop v y z (at_line c) # pending c, room := room c - sizeof_for\<rparr>)) })"
| "exec_stmt F (Next w) c = (case pending c of
       Loop v y z n # fs \<Rightarrow> if w \<noteq> None \<and> w \<noteq> Some v then None else do {
         x \<leftarrow> env c v;
         let x = f_add F x z;
         Some (After (if past_end F z y x then c\<lparr>pending := fs, room := room c + sizeof_for\<rparr>
                      else c\<lparr>env := (env c)(v \<mapsto> x), at_line := n\<rparr>)) }
     | _ \<Rightarrow> None)"
| "exec_stmt F End c = Some (Halt c)"

subsection \<open>Runs\<close>

type_synonym source = "(u16 \<times> stmt) list"

definition following :: "('a :: linorder \<times> 'b) list \<Rightarrow> 'a \<Rightarrow> 'a option" where
  "following src n = map_option fst (List.find (\<lambda>l. n < fst l) src)"

text \<open>\<open>runs F src c k d\<close>: the program that is at configuration \<open>c\<close> stops after \<open>k\<close> statements in \<open>d\<close>.\<close>

inductive runs :: "'f floats \<Rightarrow> source \<Rightarrow> 'f config \<Rightarrow> nat \<Rightarrow> 'f config \<Rightarrow> bool" for F src where
  run_halt: "map_of src (at_line c) = Some s \<Longrightarrow> exec_stmt F s c = Some (Halt d) \<Longrightarrow> runs F src c (Suc 0) d"
| run_end: "map_of src (at_line c) = Some s \<Longrightarrow> exec_stmt F s c = Some (After d) \<Longrightarrow>
    following src (at_line d) = None \<Longrightarrow> runs F src c (Suc 0) d"
| run_after: "map_of src (at_line c) = Some s \<Longrightarrow> exec_stmt F s c = Some (After c') \<Longrightarrow>
    following src (at_line c') = Some n \<Longrightarrow> runs F src (c'\<lparr>at_line := n\<rparr>) k d \<Longrightarrow> runs F src c (Suc k) d"
| run_skip: "map_of src (at_line c) = Some s \<Longrightarrow> exec_stmt F s c = Some (Skip c') \<Longrightarrow>
    following src (at_line c') = Some n \<Longrightarrow> runs F src (c'\<lparr>at_line := n\<rparr>) k d \<Longrightarrow> runs F src c (Suc k) d"
| run_jump: "map_of src (at_line c) = Some s \<Longrightarrow> exec_stmt F s c = Some (Jump c') \<Longrightarrow>
    runs F src c' k d \<Longrightarrow> runs F src c (Suc k) d"

inductive_cases runs_cases: "runs F src c k d"

text \<open>The same as a function with the number of statements as fuel.\<close>

fun run_source :: "'f floats \<Rightarrow> source \<Rightarrow> nat \<Rightarrow> 'f config \<Rightarrow> (nat \<times> 'f config) option" where
  "run_source F src 0 c = None"
| "run_source F src (Suc k) c = do {
     s \<leftarrow> map_of src (at_line c);
     r \<leftarrow> exec_stmt F s c;
     (case r of
        Halt d \<Rightarrow> Some (Suc 0, d)
      | After d \<Rightarrow> (case following src (at_line d) of
            None \<Rightarrow> Some (Suc 0, d)
          | Some n \<Rightarrow> map_option (apfst Suc) (run_source F src k (d\<lparr>at_line := n\<rparr>)))
      | Skip d \<Rightarrow> do {
          n \<leftarrow> following src (at_line d);
          map_option (apfst Suc) (run_source F src k (d\<lparr>at_line := n\<rparr>)) }
      | Jump d \<Rightarrow> map_option (apfst Suc) (run_source F src k d)) }"

lemma run_source_runs: "run_source F src k c = Some (j, d) \<Longrightarrow> runs F src c j d"
proof (induction k arbitrary: c j)
  case (Suc k)
  then show ?case
    by (auto elim!: result_elims simp: apfst_def map_prod_def split: outcome.splits option.splits)
      (blast intro: runs.intros)+
qed simp

lemma runs_deterministic: "runs F src c k d \<Longrightarrow> runs F src c k' d' \<Longrightarrow> k' = k \<and> d' = d"
  by (induction arbitrary: k' d' rule: runs.induct) (erule runs_cases; auto)+

end
