(* ===== verification/Basic_Run.thy ===== *)
theory Basic_Run
  imports Basic_Source
begin

section \<open>BASIC: RUN refines the reference semantics\<close>

text \<open>
  The proof that \<^verbatim>\<open>RUN\<close> on the bytes of a stored program does what the reference semantics says: the
  configuration of the reference run is related to the state of the interpreter, every statement
  handler is shown to follow \<open>exec_stmt\<close>, and the loops of \<^verbatim>\<open>parse_line\<close> and \<^verbatim>\<open>do_run\<close> follow the run.
\<close>

subsection \<open>The stored program\<close>

definition source_in :: "'f floats \<Rightarrow> source \<Rightarrow> lines_state \<Rightarrow> bool" where
  "source_in F src pr \<longleftrightarrow> (\<exists>ls. holds_program pr ls \<and>
     list_all2 (\<lambda>(n, s) (m, t). n = m \<and> spelled F (stmt_lexemes s @ [End_of_line]) (t @ [0])) src ls) \<and>
     0 \<notin> fst ` set src"

lemma lexeme_ok_append: "lexeme_ok F l r \<Longrightarrow> lexeme_ok F l (r @ r')"
  by (cases l) auto

lemma spelled_append: "spelled F ls t \<Longrightarrow> spelled F ls (t @ r)"
proof (induction ls arbitrary: t)
  case (Cons l ls)
  then obtain sp r' where "t = sp @ spelling l @ r'" "\<forall>c\<in>set sp. isspace c" "l = End_of_line \<longrightarrow> sp = []"
    "lexeme_ok F l r'" "spelled F ls r'" by auto
  then show ?case
    using Cons.IH [of r'] lexeme_ok_append [of F l r' r]
    unfolding spelled.simps by (intro exI [of _ sp] exI [of _ "r' @ r"]) simp
qed simp

lemma strlen_drop: "strlen m q = Some n \<Longrightarrow> \<exists>r. drop q m = take n (drop q m) @ 0 # r"
proof (induction m q arbitrary: n rule: strlen.induct)
  case (1 m q)
  then show ?case
    by (subst (asm) strlen.simps) (auto elim!: result_elims simp: Cons_nth_drop_Suc [symmetric] split: if_splits)
qed

lemma cstring_at_drop: "cstring_at m q = Some t \<Longrightarrow> \<exists>r. drop q m = t @ 0 # r"
  using strlen_drop by (auto simp: cstring_at_def elim!: result_elims)

lemma same_lines:
  assumes "list_all2 (\<lambda>(n, s) (m, t). n = m \<and> P s t) src ls"
  shows "following src k = following ls k" and "map_of src k = None \<longleftrightarrow> map_of ls k = None"
    and "map_of src k = Some s \<Longrightarrow> \<exists>t. map_of ls k = Some t \<and> P s t"
  using assms by (induction rule: list_all2_induct) (auto simp: following_def split: if_splits)

lemma first_number_following:
  "first_number (dropWhile (\<lambda>l. fst l \<le> n) ls) = (case following ls n of None \<Rightarrow> 0 | Some m \<Rightarrow> m)"
  by (induction ls) (auto simp: following_def)

lemma following_in: "following src n = Some m \<Longrightarrow> map_of src m \<noteq> None"
  by (induction src) (auto simp: following_def split: if_splits)

lemma source_contents:
  assumes "source_in F src pr" and "map_of src n = Some s"
  shows "\<exists>q. lines_get_contents pr n = Some (Some q) \<and> spelled F (stmt_lexemes s @ [End_of_line]) (drop q (lines_memory pr))"
proof -
  obtain ls where ls: "holds_program pr ls"
      "list_all2 (\<lambda>(n, s) (m, t). n = m \<and> spelled F (stmt_lexemes s @ [End_of_line]) (t @ [0])) src ls"
    using assms(1) by (auto simp: source_in_def)
  obtain t where t: "map_of ls n = Some t" "spelled F (stmt_lexemes s @ [End_of_line]) (t @ [0])"
    using same_lines(3) [OF ls(2) assms(2)] by blast
  have "contents_text pr n = Some (Some t)" using contents_text_holds [OF ls(1), of n] t(1) by simp
  then obtain q where q: "lines_get_contents pr n = Some (Some q)" "cstring_at (lines_memory pr) q = Some t"
    by (auto simp: contents_text_def elim!: result_elims split: option.splits)
  obtain r where "drop q (lines_memory pr) = (t @ [0]) @ r" using cstring_at_drop [OF q(2)] by auto
  then show ?thesis using q(1) spelled_append [OF t(2), of r] by metis
qed

lemma source_no_contents:
  assumes "source_in F src pr" and "map_of src n = None"
  shows "lines_get_contents pr n = Some None"
proof -
  obtain ls where ls: "holds_program pr ls" "map_of ls n = None"
    using assms same_lines(2) by (fastforce simp: source_in_def)
  then show ?thesis
    using contents_text_holds [OF ls(1), of n]
    by (auto simp: contents_text_def elim!: result_elims split: option.splits)
qed

lemma source_next:
  assumes "source_in F src pr"
  shows "lines_next pr n = Some (case following src n of None \<Rightarrow> 0 | Some m \<Rightarrow> m)"
  using assms lines_next_holds same_lines(1) by (fastforce simp: source_in_def first_number_following)

lemma source_first:
  assumes "source_in F src pr" and "src = (n, s) # src'"
  shows "lines_first pr = Some n"
  using assms lines_first_holds by (fastforce simp: source_in_def list_all2_Cons1)

lemma source_no_zero: "source_in F src pr \<Longrightarrow> map_of src 0 = None"
  by (simp add: source_in_def map_of_eq_None_iff)

subsection \<open>Expressions under an environment\<close>

definition env_holds :: "(cstring \<rightharpoonup> 'f) \<Rightarrow> 'f variables_state \<Rightarrow> bool" where
  "env_holds \<rho> vs \<longleftrightarrow> (\<forall>v x. \<rho> v = Some x \<longrightarrow> (\<exists>var. variable_get vs v = Some var \<and> var_value var = Some (Num x)))"

lemma env_holdsD: "env_holds \<rho> vs \<Longrightarrow> \<rho> v = Some x \<Longrightarrow> variable_get_numeric vs v = Some (x, vs)"
  using variable_get_numeric_eq by (fastforce simp: env_holds_def)

lemma env_holds_empty [simp]: "env_holds Map.empty vs"
  by (simp add: env_holds_def)

lemma env_holds_set:
  assumes "env_holds \<rho> vs" and "dict_ok (var_table vs)"
  shows "env_holds (\<rho>(v \<mapsto> x)) (snd (variable_set_numeric vs v x))"
    and "dict_ok (var_table (snd (variable_set_numeric vs v x)))"
    and "last_error (snd (variable_set_numeric vs v x)) = last_error vs"
  using assms by (auto simp: env_holds_def variable_set_numeric_eq Let_def) (simp add: put_variable_def)

lemma sum_ok_mono:
  assumes "\<And>v. P v \<Longrightarrow> Q v"
  shows "sum_ok P s \<Longrightarrow> sum_ok Q s" and "prod_ok P p \<Longrightarrow> prod_ok Q p"
    and "fact_ok P f \<Longrightarrow> fact_ok Q f" and "atom_ok P a \<Longrightarrow> atom_ok Q a"
  by (induction s and p and f and a) (use assms in auto)

lemma parse_tree:
  assumes "basic_ok k st" and "env_holds \<rho> (vars st)" and "tree_value F \<rho> e = Some x"
    and "reads F st (sum_lexemes e @ l # ls)" and "lexeme_token l \<notin> stop_sum" and "sum_fuel e < n"
  obtains st' where "numeric_expression F n st = Some (x, st')" and "reads F st' (l # ls)" and "only_tok st st'"
proof -
  have x: "sum_ok (\<lambda>v. \<rho> v \<noteq> None) e" "x = sum_value F (\<lambda>v. the (\<rho> v)) e"
    using assms(3) by (auto simp: tree_value_def split: if_splits)
  have "sum_ok (\<lambda>v. variable_get_numeric (vars st) v = Some (the (\<rho> v), vars st)) e"
    by (rule sum_ok_mono(1) [OF _ x(1)]) (auto dest: env_holdsD [OF assms(2)])
  moreover have "good k (vars st) st" using assms(1) by (simp add: good_def)
  ultimately have "\<exists>st'. numeric_expression F n st = Some (x, st') \<and> reads F st' (l # ls) \<and> only_tok st st'"
    unfolding x(2) by (intro numeric_expression_value [OF _ assms(4,5) _ assms(6)])
  then show thesis using that by blast
qed

lemma sum_start_minus: "\<not> starts_with_plus s \<Longrightarrow> \<exists>h lx. sum_lexemes s = h # lx \<and> lexeme_token h \<in> insert T_MINUS starts"
proof (induction s rule: starts_with_plus.induct)
  case (1 sign p)
  then show ?case using prod_start [of p] by (cases sign) auto
qed auto

lemma string_expression_none:
  assumes "basic_ok k st" and "sym st \<in> insert T_MINUS starts" and "Suc 0 < n"
  shows "string_expression F n st = Some (None, st)"
proof -
  obtain m where m: "n = Suc (Suc m)" using assms(3) by (cases n; cases "n - 1") auto
  have "find_basic_function_by_type st (sym st) basic_function_type_string = Some None"
    using assms(1,2) no_function [of st "sym st"] by (auto simp: basic_ok_def token_defs)
  then show ?thesis
    using assms(2) by (auto simp: m string_expression_body_def string_term_def token_defs)
qed

lemma expression_tree:
  assumes "basic_ok k st" and "env_holds \<rho> (vars st)" and "tree_value F \<rho> e = Some x" and "\<not> starts_with_plus e"
    and "reads F st (sum_lexemes e @ l # ls)" and "lexeme_token l \<notin> stop_sum" and "sum_fuel e < n"
  obtains st' where "expression F n st = Some (Num x, st')" and "reads F st' (l # ls)" and "only_tok st st'"
proof -
  obtain st' where st': "numeric_expression F n st = Some (x, st')" "reads F st' (l # ls)" "only_tok st st'"
    by (rule parse_tree [OF assms(1-3,5-7)])
  have "sym st \<in> insert T_MINUS starts"
    using sum_start_minus [OF assms(4)] assms(5) reads_sym by fastforce
  moreover have "Suc 0 < n" using sum_ops_fuel [of e] assms(7) by simp
  ultimately have "string_expression F n st = Some (None, st)" by (rule string_expression_none [OF assms(1)])
  then have "expression F n st = Some (Num x, st')" using st'(1) by (simp add: expression_def)
  then show thesis using st'(2,3) by (rule that)
qed

subsection \<open>Related states\<close>

text \<open>A pending subroutine or loop is a frame with the line of its GOSUB or FOR and the end of that line.\<close>

fun frame_for :: "text_mem \<Rightarrow> 'f stack_frame \<Rightarrow> 'f pending \<Rightarrow> bool" where
  "frame_for mem (Gosub_frame n c) (Subroutine m) \<longleftrightarrow> n = m \<and> (\<exists>r. view mem c = Some (0 # r))"
| "frame_for mem (For_frame v e s n c) (Loop v' e' s' m) \<longleftrightarrow>
     v = v' \<and> e = e' \<and> s = s' \<and> n = m \<and> (\<exists>r. view mem c = Some (0 # r))"
| "frame_for mem _ _ \<longleftrightarrow> False"

definition same_session :: "'f basic \<Rightarrow> 'f basic \<Rightarrow> bool" where
  "same_session st0 st \<longleftrightarrow> prog st = prog st0 \<and> eval_no st = eval_no st0 \<and> eval_line st = eval_line st0 \<and> REPL st = REPL st0"

definition related :: "nat \<Rightarrow> 'f basic \<Rightarrow> 'f basic \<Rightarrow> 'f config \<Rightarrow> bool" where
  "related k st0 st c \<longleftrightarrow> basic_ok k st \<and> same_session st0 st \<and> out st = out st0 @ printed c \<and>
     last_error (vars st) = None \<and> dict_ok (var_table (vars st)) \<and> env_holds (env c) (vars st) \<and>
     list_all2 (frame_for (text_of st0)) (stack_frames st) (pending c) \<and> stack_p st = room c"

lemma related_text: "related k st0 st c \<Longrightarrow> text_of st = text_of st0 \<and> prog st = prog st0"
  by (simp add: related_def same_session_def text_of_def)

lemma related_only_tok: "only_tok st st' \<Longrightarrow> related k st0 st c \<Longrightarrow> related k st0 st' c"
  unfolding related_def using only_tok_ok [of st st' k] by (auto simp: only_tok_def same_session_def)

text \<open>The interpreter runs and the tokenizer is at the start of a statement, or at the end of a line.\<close>

definition running :: "'f basic \<Rightarrow> bool" where
  "running st \<longleftrightarrow> RUNNING st \<and> cur_cursor st \<noteq> Null"

definition at_start :: "'f floats \<Rightarrow> stmt \<Rightarrow> 'f basic \<Rightarrow> bool" where
  "at_start F s st \<longleftrightarrow> running st \<and>
     (\<exists>t. view (text_of st) (tokenizer_p (tok st)) = Some t \<and> spelled F (stmt_lexemes s @ [End_of_line]) t)"

definition at_end :: "'f basic \<Rightarrow> bool" where
  "at_end st \<longleftrightarrow> running st \<and> (\<exists>r. view (text_of st) (tokenizer_p (tok st)) = Some (0 # r))"

lemma reads_eol: "reads F st (End_of_line # ls) \<Longrightarrow> \<exists>r. view (text_of st) (tokenizer_p (tok st)) = Some (0 # r)"
  by (auto simp: reads_def neq_Nil_conv)

lemma only_tok_fields:
  "only_tok st st' \<Longrightarrow> cur_line st' = cur_line st \<and> running st' = running st \<and> RUNNING st' = RUNNING st \<and> out st' = out st"
  by (auto simp: only_tok_def running_def)

subsection \<open>Statements with a keyword\<close>

lemmas keyword_defs = token_defs basic_token_id_def t_keyword_goto_def t_keyword_gosub_def t_keyword_return_def
  t_keyword_then_def t_keyword_for_def t_keyword_to_def t_keyword_step_def t_keyword_next_def t_keyword_print_def
  t_keyword_print_short_def t_op_and_def t_op_or_def

lemma keyword_token_number: "i < length registrations \<Longrightarrow> te_token (all_tokens ! (18 + i)) = basic_token_id i"
  using entries_from_token [of i registrations 0] by (simp add: all_tokens_def nth_append setup_tokens_def)

lemma length_registrations: "length registrations = 58"
  by (simp add: registrations_def)

lemma registered:
  "registrations ! 3 = keyword ''GOTO'' Do_goto" "registrations ! 5 = keyword ''GOSUB'' Do_gosub"
  "registrations ! 6 = keyword ''RETURN'' Do_return" "registrations ! 7 = keyword ''RUN'' Do_run"
  "registrations ! 8 = keyword ''IF'' Do_if" "registrations ! 10 = keyword ''FOR'' Do_for"
  "registrations ! 13 = keyword ''NEXT'' Do_next" "registrations ! 14 = keyword ''END'' Do_end"
  "registrations ! 30 = keyword ''PRINT'' Do_print"
  by (simp_all add: registrations_def)

lemma keyword_lexemes [simp]:
  "te_token (all_tokens ! 21) = basic_token_id 3" "te_token (all_tokens ! 23) = basic_token_id 5"
  "te_token (all_tokens ! 24) = basic_token_id 6" "te_token (all_tokens ! 26) = basic_token_id 8"
  "te_token (all_tokens ! 27) = basic_token_id 9" "te_token (all_tokens ! 28) = basic_token_id 10"
  "te_token (all_tokens ! 29) = basic_token_id 11" "te_token (all_tokens ! 30) = basic_token_id 12"
  "te_token (all_tokens ! 31) = basic_token_id 13" "te_token (all_tokens ! 32) = basic_token_id 14"
  "te_token (all_tokens ! 48) = basic_token_id 30"
  using keyword_token_number [of 3] keyword_token_number [of 5] keyword_token_number [of 6]
    keyword_token_number [of 8] keyword_token_number [of 9] keyword_token_number [of 10]
    keyword_token_number [of 11] keyword_token_number [of 12] keyword_token_number [of 13]
    keyword_token_number [of 14] keyword_token_number [of 30]
  by (simp_all add: length_registrations)

lemma keyword_function:
  assumes "basic_ok n st" and "i < length registrations" and "registrations ! i = keyword w f"
  shows "find_basic_function_by_type st (basic_token_id i) basic_function_type_keyword = Some (Some
    \<lparr>bf_token = basic_token_id i, bf_type = basic_function_type_keyword, bf_nr_arguments = 0, bf_kinds = [], bf_function = f\<rparr>)"
  using assms functions_from_find [of i registrations _ _ _ _ 0] find_function_find [of st all_functions]
  by (simp add: basic_ok_def all_functions_def)

lemma statement_word:
  assumes "basic_ok k st" and "reads F st (Word (12 + i) # l # ls)" and "i < length registrations"
    and "registrations ! i = keyword w f" and "lexeme_token l \<noteq> T_THE_END"
  obtains st1 where "reads F st1 (l # ls)" and "only_tok st st1"
    and "statement F parse fuel st = do { st \<leftarrow> call_keyword F parse fuel f st1; Some (last_error (vars st) = None, st) }"
proof -
  have good: "good k (vars st) st" using assms(1) by (simp add: good_def)
  have sym: "sym st = basic_token_id i"
    using reads_sym [OF assms(2)] keyword_token_number [OF assms(3)] by simp
  obtain st1 where st1: "accept F (sym st) st = Some (True, st1)" "reads F st1 (l # ls)" "only_tok st st1"
    using accept_step [OF good assms(2,5) reads_sym [OF assms(2)]] by blast
  have "find_basic_function_by_type st (sym st) basic_function_type_keyword = Some (Some
    \<lparr>bf_token = basic_token_id i, bf_type = basic_function_type_keyword, bf_nr_arguments = 0, bf_kinds = [], bf_function = f\<rparr>)"
    unfolding sym by (rule keyword_function [OF assms(1,3,4)])
  moreover have "sym st \<noteq> T_ERROR" by (simp add: sym keyword_defs)
  ultimately have "statement F parse fuel st = do { st \<leftarrow> call_keyword F parse fuel f st1; Some (last_error (vars st) = None, st) }"
    using st1(1) by (simp add: statement_def basic_dispatch_function_def)
  then show thesis using that st1(2,3) by blast
qed

lemma statement_keyword:
  assumes "related k st0 st c" and "reads F st (Word (12 + i) # l # ls)" and "i < length registrations"
    and "registrations ! i = keyword w f" and "lexeme_token l \<noteq> T_THE_END"
  obtains st1 where "reads F st1 (l # ls)" and "only_tok st st1" and "related k st0 st1 c"
    and "statement F parse fuel st = do { st \<leftarrow> call_keyword F parse fuel f st1; Some (last_error (vars st) = None, st) }"
proof -
  have "basic_ok k st" using assms(1) by (simp add: related_def)
  from statement_word [OF this assms(2-5), of parse fuel]
  obtain st1 where st1: "reads F st1 (l # ls)" "only_tok st st1"
    "statement F parse fuel st = do { st \<leftarrow> call_keyword F parse fuel f st1; Some (last_error (vars st) = None, st) }" by blast
  show thesis by (rule that [OF st1(1,2) related_only_tok [OF st1(2) assms(1)] st1(3)])
qed

text \<open>Where a statement leaves the interpreter.\<close>

fun reached :: "'f floats \<Rightarrow> source \<Rightarrow> nat \<Rightarrow> 'f basic \<Rightarrow> 'f outcome \<Rightarrow> 'f basic \<Rightarrow> bool" where
  "reached F src k st0 (After d) st \<longleftrightarrow> related k st0 st d \<and> cur_line st = at_line d \<and> at_end st \<and> sym st = T_EOF"
| "reached F src k st0 (Jump d) st \<longleftrightarrow> related k st0 st d \<and> cur_line st = at_line d \<and> sym st = T_EOF \<and>
     (\<exists>s. map_of src (at_line d) = Some s \<and> at_start F s st)"
| "reached F src k st0 (Skip d) st \<longleftrightarrow> related k st0 st d \<and> running st \<and>
     (\<exists>n s. following src (at_line d) = Some n \<and> map_of src n = Some s \<and> cur_line st = n \<and>
        reads F st (stmt_lexemes s @ [End_of_line]))"
| "reached F src k st0 (Halt d) st \<longleftrightarrow> related k st0 st d \<and> \<not> RUNNING st \<and> sym st = T_EOF"

text \<open>The line a statement goes to exists.\<close>

fun lands :: "source \<Rightarrow> 'f outcome \<Rightarrow> bool" where
  "lands src (Jump d) \<longleftrightarrow> map_of src (at_line d) \<noteq> None"
| "lands src (Skip d) \<longleftrightarrow> following src (at_line d) \<noteq> None"
| "lands src _ \<longleftrightarrow> True"

lemma keyword_reached:
  assumes "statement F parse fuel st = do { st \<leftarrow> call_keyword F parse fuel f st1; Some (last_error (vars st) = None, st) }"
    and "call_keyword F parse fuel f st1 = Some st'" and "reached F src k st0 r st'"
  shows "\<exists>st'. statement F parse fuel st = Some (True, st') \<and> reached F src k st0 r st'"
  using assms by (cases r) (auto simp: related_def)

subsection \<open>Assignment and output\<close>

lemma related_set:
  "related k st0 st c \<Longrightarrow>
    related k st0 (st\<lparr>vars := snd (variable_set_numeric (vars st) v x)\<rparr>) (c\<lparr>env := (env c)(v \<mapsto> x)\<rparr>)"
  using env_holds_set [of "env c" "vars st" v x]
  by (simp add: related_def same_session_def basic_ok_def stack_total_def)

lemma eol_token: "lexeme_token End_of_line \<notin> stop_sum" "lexeme_token End_of_line \<noteq> T_THE_END"
  by (simp_all add: keyword_defs)

lemma related_good: "related k st0 st c \<Longrightarrow> good k (vars st) st"
  by (simp add: related_def good_def)

lemma related_tree:
  assumes "related k st0 st c" and "tree_value F (env c) e = Some x"
    and "reads F st (sum_lexemes e @ l # ls)" and "lexeme_token l \<notin> stop_sum" and "sum_fuel e < n"
  obtains st' where "numeric_expression F n st = Some (x, st')" and "reads F st' (l # ls)" and "only_tok st st'"
    and "related k st0 st' c"
  using parse_tree [of k st "env c" F e x l ls n] assms related_only_tok by (metis related_def)

text \<open>\<^verbatim>\<open>v =\<close>, the beginning of an assignment and of a loop.\<close>

lemma name_equals:
  assumes "related k st0 st c" and "reads F st (Name v # l_equals # sum_lexemes e @ ls)"
  obtains st1 st2 where "tokenizer_get_variable_name (tok st) = Some v" and "sym st = T_VARIABLE_NUMBER"
    and "get_sym F st = Some st1" and "sym st1 = T_EQUALS" and "expect F T_EQUALS st1 = Some (True, st2)"
    and "reads F st2 (sum_lexemes e @ ls)" and "only_tok st st2" and "related k st0 st2 c"
proof -
  have st: "tokenizer_get_variable_name (tok st) = Some v" "sym st = T_VARIABLE_NUMBER"
    using assms(2) by (auto simp: reads_def)
  obtain st1 where st1: "get_sym F st = Some st1" "reads F st1 (l_equals # sum_lexemes e @ ls)" "only_tok st st1"
      "good k (vars st) st1"
    by (rule get_sym_step [OF related_good [OF assms(1)] assms(2)]) (simp_all add: token_defs)
  obtain h lx where h: "sum_lexemes e = h # lx" "lexeme_token h \<noteq> T_THE_END" using sum_start by blast
  have reads1: "reads F st1 (l_equals # h # lx @ ls)" using st1(2) h(1) by simp
  obtain st2 where st2: "expect F T_EQUALS st1 = Some (True, st2)" "reads F st2 (h # lx @ ls)" "only_tok st1 st2"
    using expect_step [OF st1(4) reads1 h(2), of T_EQUALS] by auto
  show thesis
    using that [OF st st1(1) _ st2(1)] st2(2,3) h(1) st1(3) reads_sym [OF reads1] only_tok_trans related_only_tok assms(1)
    by fastforce
qed

lemma statement_let:
  assumes "related k st0 st c" and "running st" and "cur_line st = at_line c"
    and "reads F st (stmt_lexemes (Let v e) @ [End_of_line])" and "exec_stmt F (Let v e) c = Some r" and "sum_fuel e < fuel"
  shows "\<exists>st'. statement F parse fuel st = Some (True, st') \<and> reached F src k st0 r st'"
proof -
  obtain x where x: "tree_value F (env c) e = Some x" "r = After (c\<lparr>env := (env c)(v \<mapsto> x)\<rparr>)"
    using assms(5) by (auto elim!: result_elims)
  have reads: "reads F st (Name v # l_equals # sum_lexemes e @ [End_of_line])" using assms(4) by simp
  obtain st1 st2 where st2: "tokenizer_get_variable_name (tok st) = Some v" "sym st = T_VARIABLE_NUMBER"
      "get_sym F st = Some st1" "sym st1 = T_EQUALS" "expect F T_EQUALS st1 = Some (True, st2)"
      "reads F st2 (sum_lexemes e @ [End_of_line])" "only_tok st st2" "related k st0 st2 c"
    by (rule name_equals [OF assms(1) reads])
  obtain st3 where st3: "numeric_expression F fuel st2 = Some (x, st3)" "reads F st3 [End_of_line]" "only_tok st2 st3"
      "related k st0 st3 c"
    by (rule related_tree [OF st2(8) x(1) st2(6) eol_token(1) assms(6)])
  let ?st = "st3\<lparr>vars := snd (variable_set_numeric (vars st3) v x)\<rparr>"
  have "find_basic_function_by_type st (sym st) basic_function_type_keyword = Some None"
    using assms(1) st2(2) by (intro no_function) (simp_all add: related_def basic_ok_def token_defs)
  moreover have "do_let F fuel st = Some ?st"
    using st2 st3(1) by (simp add: do_let_def assign_def token_defs Let_def case_prod_beta)
  moreover have rel: "related k st0 ?st (c\<lparr>env := (env c)(v \<mapsto> x)\<rparr>)" by (rule related_set [OF st3(4)])
  ultimately have "statement F parse fuel st = Some (True, ?st)"
    using st2(2) by (simp add: statement_def token_defs related_def)
  moreover have "only_tok st st3" using st2(7) st3(3) only_tok_trans by blast
  ultimately show ?thesis
    using rel x(2) only_tok_fields [of st st3] assms(2,3) reads_eol [OF st3(2)] reads_sym [OF st3(2)]
    by (auto simp: at_end_def running_def text_of_def)
qed

lemma related_print: "related k st0 st c \<Longrightarrow> related k st0 (st\<lparr>out := out st @ s\<rparr>) (c\<lparr>printed := printed c @ s\<rparr>)"
  by (simp add: related_def same_session_def basic_ok_def stack_total_def)

lemma statement_print:
  assumes "related k st0 st c" and "running st" and "cur_line st = at_line c"
    and "reads F st (stmt_lexemes (Print e) @ [End_of_line])" and "exec_stmt F (Print e) c = Some r" and "Suc (sum_fuel e) < fuel"
  shows "\<exists>st'. statement F parse fuel st = Some (True, st') \<and> reached F src k st0 r st'"
proof -
  obtain x s where x: "\<not> starts_with_plus e" "tree_value F (env c) e = Some x" "shown F x = Some s"
      "r = After (c\<lparr>printed := printed c @ s @ [10]\<rparr>)"
    using assms(5) by (auto elim!: result_elims split: if_splits)
  obtain h lx where h: "sum_lexemes e = h # lx" "lexeme_token h \<in> insert T_MINUS starts" using sum_start_minus [OF x(1)] by blast
  have reads: "reads F st (Word (12 + 30) # h # lx @ [End_of_line])" using assms(4) h(1) by simp
  obtain st1 where st1: "reads F st1 (h # lx @ [End_of_line])" "only_tok st st1" "related k st0 st1 c"
      "statement F parse fuel st = do { st \<leftarrow> call_keyword F parse fuel Do_print st1; Some (last_error (vars st) = None, st) }"
    by (rule statement_keyword [OF assms(1) reads _ registered(9)])
      (use h(2) in \<open>auto simp: length_registrations token_defs\<close>)
  obtain m where m: "fuel = Suc (Suc m)" "sum_fuel e < Suc m" using assms(6) by (cases fuel; cases "fuel - 1") auto
  have reads1: "reads F st1 (sum_lexemes e @ [End_of_line])" using st1(1) h(1) by simp
  obtain st2 where st2: "expression F (Suc m) st1 = Some (Num x, st2)" "reads F st2 [End_of_line]" "only_tok st1 st2"
    by (rule expression_tree [OF _ _ x(2,1) reads1 eol_token(1) m(2), of k]) (use st1(3) in \<open>simp_all add: related_def\<close>)
  have sym1: "sym st1 \<in> insert T_MINUS starts" using reads_sym [OF st1(1)] h(2) by simp
  have none: "find_basic_function_by_type st1 (sym st1) basic_function_type_print = Some None"
    using st1(3) sym1 by (intro no_function) (auto simp: related_def basic_ok_def token_defs)
  have sym2: "sym st2 = T_EOF" using reads_sym [OF st2(2)] by simp
  let ?st = "st2\<lparr>out := out st2 @ s @ [10]\<rparr>"
  have "expression_print F (Num x) st2 = Some (basic_io_print s st2)"
    using x(3) by (auto simp: expression_print_def shown_def elim!: result_elims)
  then have "print_items F fuel st1 = Some ?st"
    using none st2(1) sym1 sym2
    by (auto simp: m(1) token_defs putch_def basic_io_print_def)
  then have "do_print F fuel st1 = Some ?st"
    using sym1 by (auto simp: do_print_def accept_skip keyword_defs)
  moreover have rel2: "related k st0 st2 c" by (rule related_only_tok [OF st2(3) st1(3)])
  then have rel: "related k st0 ?st (c\<lparr>printed := printed c @ s @ [10]\<rparr>)" by (rule related_print)
  ultimately have "statement F parse fuel st = Some (True, ?st)"
    using st1(4) by (simp add: call_keyword_def related_def)
  moreover have "only_tok st st2" using st1(2) st2(3) only_tok_trans by blast
  ultimately show ?thesis
    using rel x(4) only_tok_fields [of st st2] assms(2,3) reads_eol [OF st2(2)] sym2
    by (auto simp: at_end_def running_def text_of_def)
qed

subsection \<open>Jumps and subroutines\<close>

lemma related_line [simp]: "related k st0 st (c\<lparr>at_line := n\<rparr>) = related k st0 st c"
  by (simp add: related_def)

lemma related_move:
  "related k st0 st c \<Longrightarrow> related k st0 (st\<lparr>cur_line := n, tok := (tok st)\<lparr>tokenizer_p := p\<rparr>\<rparr>) c"
  by (simp add: related_def same_session_def basic_ok_def stack_total_def)

lemma related_push:
  assumes "related k st0 st c" and "frame_for (text_of st0) f p" and "frame_size f \<le> room c"
  shows "related k st0 (st\<lparr>stack_p := stack_p st - frame_size f, stack_frames := f # stack_frames st\<rparr>)
    (c\<lparr>pending := p # pending c, room := room c - frame_size f\<rparr>)"
  using assms by (auto simp: related_def same_session_def basic_ok_def stack_total_def)

lemma related_pop:
  assumes "related k st0 st c" and "stack_frames st = f # fs" and "pending c = p # ps"
  shows "related k st0 (st\<lparr>stack_p := stack_p st + frame_size f, stack_frames := fs\<rparr>)
    (c\<lparr>pending := ps, room := room c + frame_size f\<rparr>)"
  using assms by (auto simp: related_def same_session_def basic_ok_def stack_total_def)

lemma related_frame:
  assumes "related k st0 st c" and "pending c = p # ps"
  obtains f fs where "stack_frames st = f # fs" and "frame_for (text_of st0) f p"
  using assms by (auto simp: related_def list_all2_Cons2)

lemma pos_at_end:
  assumes "view (text_of st) (tokenizer_p (tok st)) = Some (0 # r)"
  shows "tokenizer_pos Null st = Some (tokenizer_p (tok st), st)"
  using here_view [of st "[]" 0 r] assms by (simp add: isspace_def)

lemma number_at_end:
  assumes "related k st0 st c" and "reads F st [Number ds, End_of_line]"
  obtains st' where "f_scan F ds = Some (tokenizer_get_number (tok st))" and "sym st = T_NUMBER"
    and "accept F T_NUMBER st = Some (True, st')" and "reads F st' [End_of_line]" and "sym st' = T_EOF"
    and "only_tok st st'" and "related k st0 st' c"
proof -
  obtain st' where st': "accept F T_NUMBER st = Some (True, st')" "reads F st' [End_of_line]" "only_tok st st'"
    using accept_step [OF related_good [OF assms(1)] assms(2), of T_NUMBER] by (auto simp: token_defs)
  moreover have "f_scan F ds = Some (tokenizer_get_number (tok st))" "sym st = T_NUMBER"
    using assms(2) by (auto simp: reads_def)
  ultimately show thesis using that reads_sym [OF st'(2)] related_only_tok [OF st'(3) assms(1)] by simp
qed

lemma set_line_source:
  assumes "source_in F src (prog st0)" and "related k st0 st c" and "running st" and "map_of src n = Some s"
  obtains q where "lines_contents st n = Some (Prog q)"
    and "set_line n st = Some (st\<lparr>cur_line := n, tok := (tok st)\<lparr>tokenizer_p := Prog q\<rparr>\<rparr>)"
    and "at_start F s (st\<lparr>cur_line := n, tok := (tok st)\<lparr>tokenizer_p := Prog q\<rparr>\<rparr>)"
proof -
  obtain q where q: "lines_get_contents (prog st0) n = Some (Some q)"
      "spelled F (stmt_lexemes s @ [End_of_line]) (drop q (lines_memory (prog st0)))"
    using source_contents [OF assms(1,4)] by blast
  have prog: "prog st = prog st0" using related_text [OF assms(2)] by simp
  show thesis
    using that [of q] q assms(3) by (simp add: lines_contents_def set_line_def tokenizer_pos_move prog at_start_def running_def text_of_def)
qed

lemma statement_goto:
  assumes "source_in F src (prog st0)" and "related k st0 st c" and "running st" and "cur_line st = at_line c"
    and "reads F st (stmt_lexemes (Goto ds) @ [End_of_line])" and "exec_stmt F (Goto ds) c = Some r" and "lands src r"
  shows "\<exists>st'. statement F parse fuel st = Some (True, st') \<and> reached F src k st0 r st'"
proof -
  obtain n where n: "goto_line F ds = Some n" "r = Jump (c\<lparr>at_line := n\<rparr>)" using assms(6) by (auto elim!: result_elims)
  obtain s where s: "map_of src n = Some s" using assms(7) n(2) by auto
  have reads: "reads F st (Word (12 + 3) # Number ds # [End_of_line])" using assms(5) by simp
  obtain st1 where st1: "reads F st1 [Number ds, End_of_line]" "only_tok st st1" "related k st0 st1 c"
      "statement F parse fuel st = do { st \<leftarrow> call_keyword F parse fuel Do_goto st1; Some (last_error (vars st) = None, st) }"
    by (rule statement_keyword [OF assms(2) reads _ registered(1)]) (simp_all add: length_registrations token_defs)
  obtain st2 where st2: "f_scan F ds = Some (tokenizer_get_number (tok st1))" "sym st1 = T_NUMBER"
      "accept F T_NUMBER st1 = Some (True, st2)" "sym st2 = T_EOF" "only_tok st1 st2" "related k st0 st2 c"
    by (rule number_at_end [OF st1(3,1)])
  have run2: "running st2" using only_tok_fields [OF only_tok_trans [OF st1(2) st2(5)]] assms(3) by simp
  obtain q where q: "lines_contents st2 n = Some (Prog q)"
      "set_line n st2 = Some (st2\<lparr>cur_line := n, tok := (tok st2)\<lparr>tokenizer_p := Prog q\<rparr>\<rparr>)"
      "at_start F s (st2\<lparr>cur_line := n, tok := (tok st2)\<lparr>tokenizer_p := Prog q\<rparr>\<rparr>)"
    by (rule set_line_source [OF assms(1) st2(6) run2 s])
  obtain i where "to_int F (tokenizer_get_number (tok st1)) = Some i" "n = of_int i"
    using n(1) st2(1) by (auto simp: goto_line_def elim!: result_elims)
  then have "do_goto F st1 = Some (st2\<lparr>cur_line := n, tok := (tok st2)\<lparr>tokenizer_p := Prog q\<rparr>\<rparr>)"
    using st2(2,3) q(1,2) by (simp add: do_goto_def accept_skip keyword_defs)
  then show ?thesis
    using related_move [OF st2(6)] q(3) n(2) s st2(4)
    by (intro keyword_reached [OF st1(4)], simp add: call_keyword_def, simp)
qed

lemma statement_gosub:
  assumes "source_in F src (prog st0)" and "related k st0 st c" and "running st" and "cur_line st = at_line c"
    and "reads F st (stmt_lexemes (Gosub ds) @ [End_of_line])" and "exec_stmt F (Gosub ds) c = Some r" and "lands src r"
  shows "\<exists>st'. statement F parse fuel st = Some (True, st') \<and> reached F src k st0 r st'"
proof -
  let ?c = "c\<lparr>pending := Subroutine (at_line c) # pending c, room := room c - sizeof_gosub\<rparr>"
  obtain n where n: "sizeof_gosub \<le> room c" "goto_line F ds = Some n" "r = Jump (?c\<lparr>at_line := n\<rparr>)"
    using assms(6) by (auto elim!: result_elims split: if_splits)
  obtain s where s: "map_of src n = Some s" using assms(7) n(3) by auto
  have reads: "reads F st (Word (12 + 5) # Number ds # [End_of_line])" using assms(5) by simp
  obtain st1 where st1: "reads F st1 [Number ds, End_of_line]" "only_tok st st1" "related k st0 st1 c"
      "statement F parse fuel st = do { st \<leftarrow> call_keyword F parse fuel Do_gosub st1; Some (last_error (vars st) = None, st) }"
    by (rule statement_keyword [OF assms(2) reads _ registered(2)]) (simp_all add: length_registrations token_defs)
  obtain st2 where st2: "f_scan F ds = Some (tokenizer_get_number (tok st1))" "sym st1 = T_NUMBER"
      "accept F T_NUMBER st1 = Some (True, st2)" "reads F st2 [End_of_line]" "sym st2 = T_EOF" "only_tok st1 st2" "related k st0 st2 c"
    by (rule number_at_end [OF st1(3,1)])
  let ?f = "Gosub_frame (cur_line st2) (tokenizer_p (tok st2))"
  let ?st3 = "st2\<lparr>stack_p := stack_p st2 - sizeof_gosub, stack_frames := ?f # stack_frames st2\<rparr>"
  have st2_line: "cur_line st2 = at_line c" and run2: "running st2"
    using only_tok_fields [OF only_tok_trans [OF st1(2) st2(6)]] assms(3,4) by simp_all
  obtain t where t: "view (text_of st2) (tokenizer_p (tok st2)) = Some (0 # t)" using reads_eol [OF st2(4)] by blast
  have "frame_for (text_of st0) ?f (Subroutine (at_line c))"
    using t related_text [OF st2(7)] st2_line by simp
  from related_push [OF st2(7) this] have rel3: "related k st0 ?st3 ?c" using n(1) by simp
  have run3: "running ?st3" using run2 by (simp add: running_def)
  obtain q where q: "set_line n ?st3 = Some (?st3\<lparr>cur_line := n, tok := (tok ?st3)\<lparr>tokenizer_p := Prog q\<rparr>\<rparr>)"
      "at_start F s (?st3\<lparr>cur_line := n, tok := (tok ?st3)\<lparr>tokenizer_p := Prog q\<rparr>\<rparr>)"
    using set_line_source [OF assms(1) rel3 run3 s] by blast
  obtain i where i: "to_int F (tokenizer_get_number (tok st1)) = Some i" "n = of_int i"
    using n(2) st2(1) by (auto simp: goto_line_def elim!: result_elims)
  have "push_gosub st2 = Some ?st3" using pos_at_end [OF t] by (simp add: push_gosub_def)
  moreover have "\<not> stack_p st2 < sizeof_gosub" using n(1) st2(7) by (simp add: related_def)
  ultimately have "do_gosub F st1 = Some (?st3\<lparr>cur_line := n, tok := (tok ?st3)\<lparr>tokenizer_p := Prog q\<rparr>\<rparr>)"
    using st2(2,3) i q(1) by (simp add: do_gosub_def accept_skip keyword_defs)
  then show ?thesis
    using related_move [OF rel3] q(2) n(3) s st2(5)
    by (intro keyword_reached [OF st1(4)], simp add: call_keyword_def, simp)
qed

lemma statement_return:
  assumes "related k st0 st c" and "running st" and "reads F st (stmt_lexemes Return @ [End_of_line])"
    and "exec_stmt F Return c = Some r"
  shows "\<exists>st'. statement F parse fuel st = Some (True, st') \<and> reached F src k st0 r st'"
proof -
  obtain n ps where n: "pending c = Subroutine n # ps"
      "r = After (c\<lparr>pending := ps, room := room c + sizeof_gosub, at_line := n\<rparr>)"
    using assms(4) by (auto split: list.splits pending.splits)
  have reads: "reads F st (Word (12 + 6) # End_of_line # [])" using assms(3) by simp
  obtain st1 where st1: "reads F st1 [End_of_line]" "only_tok st st1" "related k st0 st1 c"
      "statement F parse fuel st = do { st \<leftarrow> call_keyword F parse fuel Do_return st1; Some (last_error (vars st) = None, st) }"
    by (rule statement_keyword [OF assms(1) reads _ registered(3)]) (simp_all add: length_registrations token_defs)
  obtain f fs where f: "stack_frames st1 = f # fs" "frame_for (text_of st0) f (Subroutine n)"
    by (rule related_frame [OF st1(3) n(1)])
  obtain p t where p: "f = Gosub_frame n p" "view (text_of st0) p = Some (0 # t)" using f(2) by (cases f) auto
  have "p \<noteq> Null" using p(2) by (cases p) auto
  let ?st2 = "st1\<lparr>stack_p := stack_p st1 + frame_size f, stack_frames := fs\<rparr>"
  let ?st3 = "?st2\<lparr>cur_line := n, tok := (tok ?st2)\<lparr>tokenizer_p := p\<rparr>\<rparr>"
  have sym1: "sym st1 = T_EOF" using reads_sym [OF st1(1)] by simp
  have "do_return F st1 = Some ?st3"
    using sym1 f(1) p(1) \<open>p \<noteq> Null\<close> by (simp add: do_return_def accept_skip keyword_defs tokenizer_pos_move)
  moreover have "related k st0 ?st3 (c\<lparr>pending := ps, room := room c + sizeof_gosub\<rparr>)"
    using related_move [OF related_pop [OF st1(3) f(1) n(1)]] p(1) by simp
  moreover have "at_end ?st3"
    using p(2) related_text [OF st1(3)] only_tok_fields [OF st1(2)] assms(2) by (simp add: at_end_def running_def text_of_def)
  ultimately show ?thesis
    using n(2) sym1 by (intro keyword_reached [OF st1(4)], simp add: call_keyword_def, simp)
qed

subsection \<open>IF\<close>

lemma at_start_reads:
  assumes "related k st0 st c" and "at_start F s st"
  obtains st' where "get_sym F st = Some st'" and "reads F st' (stmt_lexemes s @ [End_of_line])" and "only_tok st st'"
    and "related k st0 st' c"
proof -
  obtain h lx where h: "stmt_lexemes s = h # lx" "lexeme_token h \<noteq> T_THE_END"
    by (cases s) (auto simp: keyword_defs)
  let ?st = "st\<lparr>sym := T_PLUS\<rparr>"
  have "reads F ?st (l_plus # h # lx @ [End_of_line])"
    using assms(2) h(1) by (auto simp: at_start_def reads_def text_of_def)
  moreover have good: "good k (vars st) ?st" using related_good [OF assms(1)] by (simp add: good_def basic_ok_def stack_total_def)
  ultimately obtain st' where st': "get_sym F ?st = Some st'" "reads F st' (h # lx @ [End_of_line])"
    using get_sym_step [OF _ _ h(2)] by metis
  have "get_sym F st = Some st'" using st'(1) by (simp add: get_sym_sym)
  then show thesis
    using that st'(2) h(1) get_sym_only_tok related_only_tok assms(1) by (metis append_Cons)
qed

lemma statement_if:
  assumes "source_in F src (prog st0)" and "related k st0 st c" and "running st" and "cur_line st = at_line c"
    and "reads F st (stmt_lexemes (If_then e ds) @ [End_of_line])" and "exec_stmt F (If_then e ds) c = Some r" and "lands src r"
    and "sum_fuel e < fuel"
  shows "\<exists>st'. statement F parse fuel st = Some (True, st') \<and> reached F src k st0 r st'"
proof -
  obtain x where x: "\<not> starts_with_plus e" "tree_value F (env c) e = Some x"
      "if f_eq F x (f_of_int F 1) then \<exists>n. then_line F ds = Some n \<and> r = Jump (c\<lparr>at_line := n\<rparr>) else r = Skip c"
    using assms(6) by (auto elim!: result_elims split: if_splits)
  obtain h lx where h: "sum_lexemes e = h # lx" "lexeme_token h \<noteq> T_THE_END" using sum_start by blast
  have reads: "reads F st (Word (12 + 8) # h # lx @ [l_then, Number ds, End_of_line])" using assms(5) h(1) by simp
  obtain st1 where st1: "reads F st1 (h # lx @ [l_then, Number ds, End_of_line])" "only_tok st st1" "related k st0 st1 c"
      "statement F parse fuel st = do { st \<leftarrow> call_keyword F parse fuel Do_if st1; Some (last_error (vars st) = None, st) }"
    by (rule statement_keyword [OF assms(2) reads _ registered(5)]) (use h(2) in \<open>simp_all add: length_registrations\<close>)
  have reads1: "reads F st1 (sum_lexemes e @ l_then # [Number ds, End_of_line])" using st1(1) h(1) by simp
  obtain st2 where st2: "expression F fuel st1 = Some (Num x, st2)" "reads F st2 [l_then, Number ds, End_of_line]" "only_tok st1 st2"
    by (rule expression_tree [OF _ _ x(2,1) reads1 _ assms(8), of k])
      (use st1(3) in \<open>auto simp: related_def keyword_defs\<close>)
  have rel2: "related k st0 st2 c" by (rule related_only_tok [OF st2(3) st1(3)])
  have line2: "cur_line st2 = at_line c" "running st2"
    using only_tok_fields [OF only_tok_trans [OF st1(2) st2(3)]] assms(3,4) by simp_all
  have sym2: "sym st2 = t_keyword_then" using reads_sym [OF st2(2)] by (simp add: t_keyword_then_def)
  show ?thesis
  proof (cases "f_eq F x (f_of_int F 1)")
    case True
    then obtain n where n: "then_line F ds = Some n" "r = Jump (c\<lparr>at_line := n\<rparr>)" using x(3) by auto
    obtain s where s: "map_of src n = Some s" using assms(7) n(2) by auto
    obtain st3 where st3: "get_sym F st2 = Some st3" "reads F st3 [Number ds, End_of_line]" "only_tok st2 st3"
      by (rule get_sym_step [OF related_good [OF rel2] st2(2)]) (simp_all add: token_defs)
    obtain st4 where st4: "f_scan F ds = Some (tokenizer_get_number (tok st3))" "sym st3 = T_NUMBER"
        "accept F T_NUMBER st3 = Some (True, st4)" "sym st4 = T_EOF" "only_tok st3 st4" "related k st0 st4 c"
      by (rule number_at_end [OF related_only_tok [OF st3(3) rel2] st3(2)])
    have run4: "running st4" using only_tok_fields [OF only_tok_trans [OF st3(3) st4(5)]] line2 by simp
    obtain q where q: "set_line n st4 = Some (st4\<lparr>cur_line := n, tok := (tok st4)\<lparr>tokenizer_p := Prog q\<rparr>\<rparr>)"
        "at_start F s (st4\<lparr>cur_line := n, tok := (tok st4)\<lparr>tokenizer_p := Prog q\<rparr>\<rparr>)"
      using set_line_source [OF assms(1) st4(6) run4 s] by blast
    have "to_uint16 F (tokenizer_get_number (tok st3)) = Some n" using n(1) st4(1) by (simp add: then_line_def)
    then have "do_if F parse fuel st1 = Some (st4\<lparr>cur_line := n, tok := (tok st4)\<lparr>tokenizer_p := Prog q\<rparr>\<rparr>)"
      using st2(1) sym2 True st3(1) st4(2,3) q(1) by (simp add: do_if_def)
    then show ?thesis
      using related_move [OF st4(6)] q(2) n(2) s st4(4)
      by (intro keyword_reached [OF st1(4)], simp add: call_keyword_def, simp)
  next
    case False
    then have r: "r = Skip c" using x(3) by simp
    then obtain n s where n: "following src (at_line c) = Some n" "map_of src n = Some s"
      using assms(7) following_in [of src "at_line c"] by fastforce
    obtain q where q: "set_line n st2 = Some (st2\<lparr>cur_line := n, tok := (tok st2)\<lparr>tokenizer_p := Prog q\<rparr>\<rparr>)"
        "at_start F s (st2\<lparr>cur_line := n, tok := (tok st2)\<lparr>tokenizer_p := Prog q\<rparr>\<rparr>)"
      using set_line_source [OF assms(1) rel2 line2(2) n(2)] by blast
    obtain st3 where st3: "get_sym F (st2\<lparr>cur_line := n, tok := (tok st2)\<lparr>tokenizer_p := Prog q\<rparr>\<rparr>) = Some st3"
        "reads F st3 (stmt_lexemes s @ [End_of_line])"
        "only_tok (st2\<lparr>cur_line := n, tok := (tok st2)\<lparr>tokenizer_p := Prog q\<rparr>\<rparr>) st3" "related k st0 st3 c"
      by (rule at_start_reads [OF related_move [OF rel2] q(2)])
    have "lines_next (prog st2) (cur_line st2) = Some n"
      using source_next [OF assms(1), of "at_line c"] n(1) related_text [OF rel2] line2(1) by simp
    then have "do_if F parse fuel st1 = Some st3"
      using st2(1) sym2 False q(1) st3(1) by (simp add: do_if_def move_to_next_line_def)
    then show ?thesis
      using r n st3(2,4) only_tok_fields [OF st3(3)] line2(2)
      by (intro keyword_reached [OF st1(4)], simp add: call_keyword_def) (auto simp: running_def)
  qed
qed

subsection \<open>FOR, NEXT and END\<close>

lemma statement_end:
  assumes "related k st0 st c" and "reads F st (stmt_lexemes End @ [End_of_line])" and "exec_stmt F End c = Some r"
  shows "\<exists>st'. statement F parse fuel st = Some (True, st') \<and> reached F src k st0 r st'"
proof -
  have reads: "reads F st (Word (12 + 14) # End_of_line # [])" using assms(2) by simp
  obtain st1 where st1: "reads F st1 [End_of_line]" "only_tok st st1" "related k st0 st1 c"
      "statement F parse fuel st = do { st \<leftarrow> call_keyword F parse fuel Do_end st1; Some (last_error (vars st) = None, st) }"
    by (rule statement_keyword [OF assms(1) reads _ registered(8)]) (simp_all add: length_registrations token_defs)
  have "related k st0 (st1\<lparr>RUNNING := False\<rparr>) c"
    using st1(3) by (simp add: related_def same_session_def basic_ok_def stack_total_def)
  moreover have "r = Halt c" "sym st1 = T_EOF" using assms(3) reads_sym [OF st1(1)] by simp_all
  ultimately show ?thesis
    by (intro keyword_reached [OF st1(4), of "st1\<lparr>RUNNING := False\<rparr>"]) (simp_all add: call_keyword_def do_end_def)
qed

lemma statement_next:
  assumes "related k st0 st c" and "running st" and "cur_line st = at_line c"
    and "reads F st (stmt_lexemes (Next w) @ [End_of_line])" and "exec_stmt F (Next w) c = Some r"
  shows "\<exists>st'. statement F parse fuel st = Some (True, st') \<and> reached F src k st0 r st'"
proof -
  obtain v y z n ps x where n: "pending c = Loop v y z n # ps" "env c v = Some x" "w = None \<or> w = Some v"
      "r = After (if past_end F z y (f_add F x z) then c\<lparr>pending := ps, room := room c + sizeof_for\<rparr>
        else c\<lparr>env := (env c)(v \<mapsto> f_add F x z), at_line := n\<rparr>)"
    using assms(5) by (auto simp: Let_def split: list.splits pending.splits if_splits elim!: result_elims)
  obtain l ls where l: "(case w of None \<Rightarrow> [] | Some v \<Rightarrow> [Name v]) @ [End_of_line] = l # ls" "lexeme_token l \<noteq> T_THE_END"
    by (cases w) (simp_all add: token_defs)
  have reads: "reads F st (Word (12 + 13) # l # ls)" using assms(4) l(1) by simp
  obtain st0' where st0': "reads F st0' (l # ls)" "only_tok st st0'" "related k st0 st0' c"
      "statement F parse fuel st = do { st \<leftarrow> call_keyword F parse fuel Do_next st0'; Some (last_error (vars st) = None, st) }"
    by (rule statement_keyword [OF assms(1) reads _ registered(7)]) (use l(2) in \<open>simp_all add: length_registrations\<close>)
  obtain f fs where f: "stack_frames st0' = f # fs" "frame_for (text_of st0) f (Loop v y z n)"
    by (rule related_frame [OF st0'(3) n(1)])
  obtain p t where p: "f = For_frame v y z n p" "view (text_of st0) p = Some (0 # t)" using f(2) by (cases f) auto
  have "p \<noteq> Null" using p(2) by (cases p) auto
  have "\<exists>st1. reads F st1 [End_of_line] \<and> only_tok st0' st1 \<and> do_next F st0' = do_next F st1"
  proof (cases "w = None")
    case False
    then have "reads F st0' [Name v, End_of_line]" using st0'(1) l(1) n(3) by auto
    moreover from this obtain st1 where st1: "get_sym F st0' = Some st1" "reads F st1 [End_of_line]" "only_tok st0' st1"
      by (rule get_sym_step [OF related_good [OF st0'(3)]]) (simp_all add: token_defs)
    moreover have "sym st1 = T_EOF" using reads_sym [OF st1(2)] by simp
    ultimately have "do_next F st0' = do_next F st1"
      by (intro do_next_named [OF _ _ _ _ f(1) [unfolded p(1)]]) (simp_all add: reads_def)
    then show ?thesis using st1 by blast
  qed (use st0'(1) l(1) in auto)
  then obtain st1 where st1': "reads F st1 [End_of_line]" "only_tok st0' st1" "do_next F st0' = do_next F st1" by blast
  have st1: "reads F st1 [End_of_line]" "only_tok st st1" "related k st0 st1 c" "stack_frames st1 = f # fs"
      "statement F parse fuel st = do { st \<leftarrow> call_keyword F parse fuel Do_next st1; Some (last_error (vars st) = None, st) }"
    subgoal by (rule st1'(1))
    subgoal by (rule only_tok_trans [OF st0'(2) st1'(2)])
    subgoal by (rule related_only_tok [OF st1'(2) st0'(3)])
    subgoal using st1'(2) f(1) by (auto simp: only_tok_def)
    subgoal using st0'(4) st1'(3) by (simp add: call_keyword_def)
    done
  have sym1: "sym st1 = T_EOF" using reads_sym [OF st1(1)] by simp
  have "variable_get_numeric (vars st1) v = Some (x, vars st1)"
    using st1(3) n(2) by (auto simp: related_def intro: env_holdsD)
  note next_for = do_next_for [OF sym1 st1(4) [unfolded p(1)] \<open>p \<noteq> Null\<close> this, of F]
  have run1: "cur_line st1 = at_line c" "running st1" using only_tok_fields [OF st1(2)] assms(2,3) by simp_all
  show ?thesis
  proof (cases "past_end F z y (f_add F x z)")
    case True
    let ?st = "st1\<lparr>stack_p := stack_p st1 + frame_size f, stack_frames := fs\<rparr>"
    have "do_next F st1 = Some ?st" using next_for True p(1) by (simp add: past_end_def sizeof_for_def)
    moreover have "related k st0 ?st (c\<lparr>pending := ps, room := room c + sizeof_for\<rparr>)"
      using related_pop [OF st1(3,4) n(1)] p(1) by simp
    moreover have "at_end ?st" using run1(2) reads_eol [OF st1(1)] by (simp add: at_end_def running_def text_of_def)
    ultimately show ?thesis
      using n(4) True sym1 run1(1) by (intro keyword_reached [OF st1(5), of ?st]) (simp_all add: call_keyword_def)
  next
    case False
    let ?st2 = "st1\<lparr>vars := snd (variable_set_numeric (vars st1) v (f_add F x z))\<rparr>"
    let ?st = "?st2\<lparr>cur_line := n, tok := (tok ?st2)\<lparr>tokenizer_p := p\<rparr>\<rparr>"
    have "do_next F st1 = Some ?st" using next_for False by (auto simp: past_end_def)
    moreover have "related k st0 ?st (c\<lparr>env := (env c)(v \<mapsto> f_add F x z)\<rparr>)"
      by (rule related_move [OF related_set [OF st1(3)]])
    moreover have "at_end ?st"
      using p(2) related_text [OF st1(3)] run1 by (simp add: at_end_def running_def text_of_def)
    ultimately show ?thesis
      using n(4) False sym1 by (intro keyword_reached [OF st1(5)], simp add: call_keyword_def, simp)
  qed
qed

text \<open>The optional \<^verbatim>\<open>STEP\<close> of a loop.\<close>

abbreviation step_lexemes :: "sum option \<Rightarrow> lexeme list" where
  "step_lexemes s \<equiv> (case s of None \<Rightarrow> [] | Some e \<Rightarrow> l_step # sum_lexemes e)"

lemma expect_word:
  assumes "related k st0 st c" and "reads F st (Word i # sum_lexemes e @ ls)" and "t = lexeme_token (Word i)"
  obtains st' where "expect F t st = Some (True, st')" and "reads F st' (sum_lexemes e @ ls)" and "only_tok st st'"
    and "related k st0 st' c"
proof -
  obtain h lx where h: "sum_lexemes e = h # lx" "lexeme_token h \<noteq> T_THE_END" using sum_start by blast
  have reads: "reads F st (Word i # h # lx @ ls)" using assms(2) h(1) by simp
  obtain st' where "expect F t st = Some (True, st')" "reads F st' (h # lx @ ls)" "only_tok st st'"
    by (rule expect_step [OF related_good [OF assms(1)] reads h(2) assms(3)])
  then show thesis using that h(1) related_only_tok [OF _ assms(1)] by fastforce
qed

lemma for_step:
  assumes "related k st0 st c" and "reads F st (step_lexemes s @ [End_of_line])"
    and "(case s of None \<Rightarrow> Some (f_of_int F 1) | Some e \<Rightarrow> tree_value F (env c) e) = Some z"
    and "(case s of None \<Rightarrow> 0 | Some e \<Rightarrow> sum_fuel e) < fuel"
  obtains st' where "(if sym st \<noteq> T_EOF \<and> sym st \<noteq> T_COLON
      then do { (_, st) \<leftarrow> expect F t_keyword_step st; numeric_expression F fuel st }
      else Some (f_of_int F 1, st)) = Some (z, st')"
    and "reads F st' [End_of_line]" and "only_tok st st'" and "related k st0 st' c"
proof (cases s)
  case None
  then have "reads F st [End_of_line]" "sym st = T_EOF" "z = f_of_int F 1"
    using assms(2,3) reads_sym [of F st End_of_line "[]"] by auto
  then show thesis using that [of st] assms(1) by simp
next
  case (Some e)
  then have reads: "reads F st (l_step # sum_lexemes e @ [End_of_line])" using assms(2) by simp
  have "sym st \<noteq> T_EOF" "sym st \<noteq> T_COLON" using reads_sym [OF reads] by (simp_all add: keyword_defs)
  moreover obtain st1 where st1: "expect F t_keyword_step st = Some (True, st1)" "reads F st1 (sum_lexemes e @ [End_of_line])"
      "only_tok st st1" "related k st0 st1 c"
    by (rule expect_word [OF assms(1) reads, of t_keyword_step]) (simp add: t_keyword_step_def)
  moreover obtain st2 where "numeric_expression F fuel st1 = Some (z, st2)" "reads F st2 [End_of_line]" "only_tok st1 st2"
      "related k st0 st2 c"
    by (rule related_tree [OF st1(4) _ st1(2) eol_token(1), of z fuel]) (use assms(3,4) Some in simp_all)
  ultimately show thesis using that [of st2] only_tok_trans [of st st1 st2] by simp
qed

lemma statement_for:
  assumes "related k st0 st c" and "running st" and "cur_line st = at_line c"
    and "reads F st (stmt_lexemes (For v a b s) @ [End_of_line])" and "exec_stmt F (For v a b s) c = Some r"
    and "stmt_fuel (For v a b s) < fuel"
  shows "\<exists>st'. statement F parse fuel st = Some (True, st') \<and> reached F src k st0 r st'"
proof -
  obtain x y z where val: "sizeof_for \<le> room c" "tree_value F (env c) a = Some x"
      "tree_value F ((env c)(v \<mapsto> x)) b = Some y"
      "(case s of None \<Rightarrow> Some (f_of_int F 1) | Some e \<Rightarrow> tree_value F ((env c)(v \<mapsto> x)) e) = Some z"
      "r = After (c\<lparr>env := (env c)(v \<mapsto> x), pending := Loop v y z (at_line c) # pending c, room := room c - sizeof_for\<rparr>)"
    using assms(5) by (auto simp: Let_def split: if_splits elim!: result_elims)
  let ?c = "c\<lparr>env := (env c)(v \<mapsto> x)\<rparr>"
  have reads: "reads F st (Word (12 + 10) # Name v # l_equals # sum_lexemes a @ l_to # sum_lexemes b @ step_lexemes s @ [End_of_line])"
    using assms(4) by simp
  obtain st1 where st1: "reads F st1 (Name v # l_equals # sum_lexemes a @ l_to # sum_lexemes b @ step_lexemes s @ [End_of_line])"
      "only_tok st st1" "related k st0 st1 c"
      "statement F parse fuel st = do { st \<leftarrow> call_keyword F parse fuel Do_for st1; Some (last_error (vars st) = None, st) }"
    by (rule statement_keyword [OF assms(1) reads _ registered(6)]) (simp_all add: length_registrations token_defs)
  obtain st2 st3 where st3: "tokenizer_get_variable_name (tok st1) = Some v" "sym st1 = T_VARIABLE_NUMBER"
      "get_sym F st1 = Some st2" "expect F T_EQUALS st2 = Some (True, st3)"
      "reads F st3 (sum_lexemes a @ l_to # sum_lexemes b @ step_lexemes s @ [End_of_line])" "only_tok st1 st3" "related k st0 st3 c"
    by (rule name_equals [OF st1(3,1)])
  obtain st4 where st4: "numeric_expression F fuel st3 = Some (x, st4)"
      "reads F st4 (l_to # sum_lexemes b @ step_lexemes s @ [End_of_line])" "only_tok st3 st4" "related k st0 st4 c"
    by (rule related_tree [OF st3(7) val(2) st3(5), of fuel]) (use assms(6) in \<open>simp_all add: keyword_defs\<close>)
  let ?st4 = "st4\<lparr>vars := snd (variable_set_numeric (vars st4) v x)\<rparr>"
  have rel4: "related k st0 ?st4 ?c" by (rule related_set [OF st4(4)])
  have reads4: "reads F ?st4 (l_to # sum_lexemes b @ step_lexemes s @ [End_of_line])" using st4(2) by (simp add: reads_def text_of_def)
  obtain st5 where st5: "expect F t_keyword_to ?st4 = Some (True, st5)" "reads F st5 (sum_lexemes b @ step_lexemes s @ [End_of_line])"
      "only_tok ?st4 st5" "related k st0 st5 ?c"
    by (rule expect_word [OF rel4 reads4, of t_keyword_to]) (simp add: t_keyword_to_def)
  obtain l ls where l: "step_lexemes s @ [End_of_line] = l # ls" "lexeme_token l \<notin> stop_sum"
    by (cases s) (auto simp: keyword_defs)
  have reads5: "reads F st5 (sum_lexemes b @ l # ls)" using st5(2) l(1) by simp
  have val3: "tree_value F (env ?c) b = Some y" using val(3) by simp
  obtain st6 where st6: "numeric_expression F fuel st5 = Some (y, st6)" "reads F st6 (l # ls)" "only_tok st5 st6" "related k st0 st6 ?c"
    by (rule related_tree [OF st5(4) val3 reads5 l(2), of fuel]) (use assms(6) in simp_all)
  obtain st7 where st7: "(if sym st6 \<noteq> T_EOF \<and> sym st6 \<noteq> T_COLON
      then do { (_, st) \<leftarrow> expect F t_keyword_step st6; numeric_expression F fuel st }
      else Some (f_of_int F 1, st6)) = Some (z, st7)" "reads F st7 [End_of_line]" "only_tok st6 st7" "related k st0 st7 ?c"
    by (rule for_step [OF st6(4), of F s z fuel]) (use st6(2) l(1) val(4) assms(6) in \<open>auto split: option.splits\<close>)
  have st7_line: "cur_line st7 = at_line c" "running st7"
    using only_tok_fields [OF only_tok_trans [OF st1(2) only_tok_trans [OF st3(6) st4(3)]]]
      only_tok_fields [OF only_tok_trans [OF st5(3) only_tok_trans [OF st6(3) st7(3)]]] assms(2,3)
    by (simp_all add: running_def)
  obtain t where t: "view (text_of st7) (tokenizer_p (tok st7)) = Some (0 # t)" using reads_eol [OF st7(2)] by blast
  let ?f = "For_frame v y z (at_line c) (tokenizer_p (tok st7))"
  let ?st = "st7\<lparr>stack_p := stack_p st7 - frame_size ?f, stack_frames := ?f # stack_frames st7\<rparr>"
  have "\<not> stack_p st7 < sizeof_for" using val(1) st7(4) by (simp add: related_def)
  then have "do_for F fuel st1 = Some ?st"
    using st3(1-4) st4(1) st5(1) st6(1) st7(1) pos_at_end [OF t] st7_line
    by (simp add: do_for_def push_for_def accept_skip keyword_defs Let_def)
  moreover have "related k st0 ?st (?c\<lparr>pending := Loop v y z (at_line c) # pending ?c, room := room ?c - frame_size ?f\<rparr>)"
    using t related_text [OF st7(4)] val(1) by (intro related_push [OF st7(4)]) simp_all
  moreover have "at_end ?st" using t st7_line by (simp add: at_end_def running_def text_of_def)
  ultimately show ?thesis
    using val(5) st7_line reads_sym [OF st7(2)]
    by (intro keyword_reached [OF st1(4), of ?st]) (simp_all add: call_keyword_def)
qed

subsection \<open>The loops\<close>

lemma statement_follows:
  assumes "source_in F src (prog st0)" and "related k st0 st c" and "running st" and "cur_line st = at_line c"
    and "reads F st (stmt_lexemes s @ [End_of_line])" and "exec_stmt F s c = Some r" and "lands src r"
    and "Suc (stmt_fuel s) < fuel"
  shows "\<exists>st'. statement F parse fuel st = Some (True, st') \<and> reached F src k st0 r st'"
proof (cases s)
  case (Let v e)
  then show ?thesis using statement_let [OF assms(2-4)] assms(5,6,8) by simp
next
  case (Print e)
  then show ?thesis using statement_print [OF assms(2-4)] assms(5,6,8) by simp
next
  case (Goto ds)
  then show ?thesis using statement_goto [OF assms(1-4) _ _ assms(7)] assms(5,6) by simp
next
  case (If_then e ds)
  then show ?thesis using statement_if [OF assms(1-4) _ _ assms(7)] assms(5,6,8) by simp
next
  case (Gosub ds)
  then show ?thesis using statement_gosub [OF assms(1-4) _ _ assms(7)] assms(5,6) by simp
next
  case Return
  then show ?thesis using statement_return [OF assms(2,3)] assms(5,6) by simp
next
  case (For v a b e)
  then show ?thesis using statement_for [OF assms(2-4)] assms(5,6,8) by (simp del: exec_stmt.simps stmt_lexemes.simps)
next
  case (Next w)
  then show ?thesis using statement_next [OF assms(2-4)] assms(5,6) by (simp del: exec_stmt.simps stmt_lexemes.simps)
next
  case End
  then show ?thesis using statement_end [OF assms(2)] assms(5,6) by simp
qed

lemma stmt_first: "reads F st (stmt_lexemes s @ [End_of_line]) \<Longrightarrow> sym st \<noteq> T_EOF \<and> sym st \<noteq> T_COLON"
  by (cases s) (auto simp: reads_def keyword_defs)

lemma parse_line_follows:
  assumes "source_in F src (prog st0)" and "related k st0 st c" and "running st" and "cur_line st = at_line c"
    and "reads F st (stmt_lexemes s @ [End_of_line])" and "exec_stmt F s c = Some r" and "lands src r"
    and "Suc (stmt_fuel s) < fuel"
  obtains st' where "reached F src k st0 r st'"
    and "parse_line F (Suc fuel) st = (if \<exists>d. r = Skip d then parse_line F fuel st' else Some st')"
proof -
  obtain st' where st': "statement F (parse_line F fuel) fuel st = Some (True, st')" "reached F src k st0 r st'"
    using statement_follows [OF assms] by blast
  obtain f where "fuel = Suc f" using assms(8) by (cases fuel) auto
  then have "parse_line F (Suc fuel) st = (if \<exists>d. r = Skip d then parse_line F fuel st' else Some st')"
    using st' stmt_first [OF assms(5)] by (cases r) auto
  then show thesis using that st'(2) by blast
qed

lemma related_start_at: "related k st0 st c \<Longrightarrow> related k st0 (start_at p (st\<lparr>cur_line := n, cur_cursor := p\<rparr>)) c"
  by (simp add: related_def same_session_def basic_ok_def stack_total_def start_at_def tokenizer_init_def)

lemma get_sym_at_end: "at_end st \<Longrightarrow> get_sym F st = Some (st\<lparr>sym := T_EOF\<rparr>)"
  by (auto simp: at_end_def get_sym_def next_token_eof)

lemma line_at_start:
  assumes "source_in F src (prog st0)" and "related k st0 st c" and "RUNNING st" and "map_of src n = Some s"
  obtains q where "lines_contents st n = Some (Prog q)"
    and "at_start F s (start_at (Prog q) (st\<lparr>cur_line := n, cur_cursor := Prog q\<rparr>))"
proof -
  obtain q where "lines_get_contents (prog st0) n = Some (Some q)"
      "spelled F (stmt_lexemes s @ [End_of_line]) (drop q (lines_memory (prog st0)))"
    using source_contents [OF assms(1,4)] by blast
  then show thesis
    using that [of q] assms(3) related_text [OF assms(2)]
    by (simp add: lines_contents_def at_start_def running_def start_at_def tokenizer_init_def text_of_def)
qed

lemma related_sym [simp]: "related k st0 (st\<lparr>sym := s\<rparr>) c = related k st0 st c"
  by (simp add: related_def same_session_def basic_ok_def stack_total_def)

text \<open>At the end of a line the loop goes on at the start of the following line.\<close>

lemma run_loop_next:
  assumes "source_in F src (prog st0)" and "related k st0 st c" and "at_end st" and "cur_line st = at_line c"
    and "following src (at_line c) = Some n" and "map_of src n = Some s"
  obtains st' where "run_loop F (parse_line F (Suc p)) (Suc l) st = run_loop F (parse_line F (Suc p)) l st'"
    and "related k st0 st' c" and "at_start F s st'" and "cur_line st' = n"
proof -
  let ?st = "st\<lparr>sym := T_EOF\<rparr>"
  have rel: "related k st0 ?st c" and run: "RUNNING ?st" "running st" using assms(2,3) by (simp_all add: at_end_def running_def)
  obtain q where q: "lines_contents ?st n = Some (Prog q)"
      "at_start F s (start_at (Prog q) (?st\<lparr>cur_line := n, cur_cursor := Prog q\<rparr>))"
    by (rule line_at_start [OF assms(1) rel run(1) assms(6)])
  let ?st' = "start_at (Prog q) (?st\<lparr>cur_line := n, cur_cursor := Prog q\<rparr>)"
  have "lines_next (prog ?st) (cur_line ?st) = Some n"
    using source_next [OF assms(1), of "at_line c"] assms(4,5) related_text [OF assms(2)] by simp
  moreover have "sym ?st' = T_EOF" by (simp add: start_at_def)
  ultimately have "run_loop F (parse_line F (Suc p)) (Suc l) st = run_loop F (parse_line F (Suc p)) l ?st'"
    using q(1) run(2) get_sym_at_end [OF assms(3), of F] by (simp add: running_def)
  then show thesis using that [of ?st'] related_start_at [OF rel] q(2) by (simp add: start_at_def)
qed

lemma run_loop_end:
  assumes "source_in F src (prog st0)" and "related k st0 st c" and "at_end st" and "cur_line st = at_line c"
    and "following src (at_line c) = None"
  obtains st' where "run_loop F parse (Suc l) st = Some st'" and "related k st0 st' c" and "sym st' = T_EOF"
proof -
  let ?st' = "st\<lparr>sym := T_EOF, cur_line := 0, cur_cursor := Null, RUNNING := False\<rparr>"
  have "lines_next (prog st) (cur_line st) = Some 0" "lines_get_contents (prog st) 0 = Some None"
    using source_next [OF assms(1), of "at_line c"] source_no_contents [OF assms(1) source_no_zero [OF assms(1)]]
      assms(4,5) related_text [OF assms(2)] by simp_all
  then have "run_loop F parse (Suc l) st = Some ?st'"
    using get_sym_at_end [OF assms(3), of F] assms(3) by (simp add: lines_contents_def at_end_def running_def)
  moreover have "related k st0 ?st' c"
    using assms(2) by (simp add: related_def same_session_def basic_ok_def stack_total_def)
  ultimately show thesis using that [of ?st'] by simp
qed

text \<open>A run of the reference semantics is followed from the middle of an iteration of the loop and, one
  iteration earlier, from the start of a line.\<close>

definition finishes :: "nat \<Rightarrow> 'f basic \<Rightarrow> 'f config \<Rightarrow> 'f basic option \<Rightarrow> bool" where
  "finishes k st0 d res \<longleftrightarrow> (\<exists>st'. res = Some st' \<and> related k st0 st' d \<and> sym st' = T_EOF)"

lemma run_loop_start:
  assumes "related k st0 st c" and "at_start F s st"
  obtains st' where "run_loop F parse (Suc l) st = do { st \<leftarrow> parse st'; run_loop F parse l st }"
    and "related k st0 st' c" and "running st'" and "cur_line st' = cur_line st"
    and "reads F st' (stmt_lexemes s @ [End_of_line])"
proof -
  obtain st' where st': "get_sym F st = Some st'" "reads F st' (stmt_lexemes s @ [End_of_line])" "only_tok st st'"
      "related k st0 st' c"
    by (rule at_start_reads [OF assms])
  have "running st" using assms(2) by (simp add: at_start_def)
  then have "run_loop F parse (Suc l) st = do { st \<leftarrow> parse st'; run_loop F parse l st }"
    using st'(1) stmt_first [OF st'(2)] by (simp add: running_def)
  then show thesis using that st'(2,4) only_tok_fields [OF st'(3)] \<open>running st\<close> by simp
qed

lemma run_loop_next_start:
  assumes "source_in F src (prog st0)" and "related k st0 st c" and "at_end st" and "cur_line st = at_line c"
    and "following src (at_line c) = Some n" and "0 < p"
  obtains st' s where "run_loop F (parse_line F p) (Suc (Suc l)) st = do { st \<leftarrow> parse_line F p st'; run_loop F (parse_line F p) l st }"
    and "map_of src n = Some s" and "related k st0 st' c" and "running st'" and "cur_line st' = n"
    and "reads F st' (stmt_lexemes s @ [End_of_line])"
proof -
  obtain g where g: "p = Suc g" using assms(6) by (cases p) auto
  obtain s where s: "map_of src n = Some s" using following_in [OF assms(5)] by auto
  obtain st1 where st1: "run_loop F (parse_line F p) (Suc (Suc l)) st = run_loop F (parse_line F p) (Suc l) st1"
      "related k st0 st1 c" "at_start F s st1" "cur_line st1 = n"
    unfolding g by (rule run_loop_next [OF assms(1-5) s])
  show thesis
    using run_loop_start [OF st1(2,3), of "parse_line F p" l] that [OF _ s] st1(1,4) by metis
qed

lemma parse_step:
  assumes "source_in F src (prog st0)" and "\<forall>(n, s) \<in> set src. stmt_fuel s \<le> e" and "map_of src (at_line c) = Some s"
    and "related k st0 st c" and "running st" and "cur_line st = at_line c"
    and "reads F st (stmt_lexemes s @ [End_of_line])" and "e + 2 < p" and "exec_stmt F s c = Some r" and "lands src r"
  obtains st' where "reached F src k st0 r st'"
    and "parse_line F p st = (if \<exists>d. r = Skip d then parse_line F (p - 1) st' else Some st')"
proof -
  obtain f where f: "p = Suc f" "Suc (stmt_fuel s) < f"
    using assms(2,3,8) map_of_SomeD by (cases p) fastforce+
  show thesis
    using parse_line_follows [OF assms(1,4-7,9,10) f(2)] that unfolding f(1) by (metis diff_Suc_1)
qed

lemma runs_followed:
  assumes "runs F src c j d" and "source_in F src (prog st0)" and "\<forall>(n, s) \<in> set src. stmt_fuel s \<le> e"
    and "e + Suc j < p"
  shows "map_of src (at_line c) = Some s \<Longrightarrow> related k st0 st c \<Longrightarrow> running st \<Longrightarrow> cur_line st = at_line c \<Longrightarrow>
    reads F st (stmt_lexemes s @ [End_of_line]) \<Longrightarrow> e + Suc j < p' \<Longrightarrow> 2 * j \<le> l \<Longrightarrow>
    finishes k st0 d (do { st \<leftarrow> parse_line F p' st; run_loop F (parse_line F p) l st })"
  using assms(1,4)
proof (induction arbitrary: s st p' l rule: runs.induct)
  case (run_halt c s0 d)
  have exec: "exec_stmt F s c = Some (Halt d)" using run_halt by simp
  obtain st' where st': "reached F src k st0 (Halt d) st'" "parse_line F p' st = Some st'"
    by (rule parse_step [where p = p', OF assms(2,3) run_halt.prems(1-5) _ exec]) (use run_halt.prems(6) in auto)
  obtain l' where "l = Suc l'" using run_halt.prems(7) by (cases l) auto
  then show ?case using st' by (simp add: finishes_def)
next
  case (run_end c s0 d)
  have exec: "exec_stmt F s c = Some (After d)" using run_end by simp
  obtain st' where st': "reached F src k st0 (After d) st'" "parse_line F p' st = Some st'"
    by (rule parse_step [where p = p', OF assms(2,3) run_end.prems(1-5) _ exec]) (use run_end.prems(6) in auto)
  obtain l' where l': "l = Suc l'" using run_end.prems(7) by (cases l) auto
  obtain st'' where "run_loop F (parse_line F p) (Suc l') st' = Some st''" "related k st0 st'' d" "sym st'' = T_EOF"
    using run_loop_end [OF assms(2), of k st' d] st'(1) run_end.hyps(3) by auto
  then show ?case using st'(2) l' by (simp add: finishes_def)
next
  case (run_after c s0 c' n j d)
  have exec: "exec_stmt F s c = Some (After c')" using run_after by simp
  obtain st1 where st1: "reached F src k st0 (After c') st1" "parse_line F p' st = Some st1"
    by (rule parse_step [where p = p', OF assms(2,3) run_after.prems(1-5) _ exec]) (use run_after.prems(6) in auto)
  obtain l' where l': "l = Suc (Suc l')" "2 * j \<le> l'" using run_after.prems(7) by (cases l; cases "l - 1") auto
  obtain st2 s' where st2: "run_loop F (parse_line F p) (Suc (Suc l')) st1 = do { st \<leftarrow> parse_line F p st2; run_loop F (parse_line F p) l' st }"
      "map_of src n = Some s'" "related k st0 st2 c'" "running st2" "cur_line st2 = n" "reads F st2 (stmt_lexemes s' @ [End_of_line])"
    using run_loop_next_start [OF assms(2), of k st1 c' n p l'] st1(1) run_after.hyps(3) run_after.prems(8) by auto
  have "finishes k st0 d (do { st \<leftarrow> parse_line F p st2; run_loop F (parse_line F p) l' st })"
    using run_after.IH [of s' st2 p l'] st2(2-6) l'(2) run_after.prems(8) by simp
  then show ?case using st1(2) st2(1) l'(1) by simp
next
  case (run_skip c s0 c' n j d)
  have exec: "exec_stmt F s c = Some (Skip c')" using run_skip by simp
  obtain st1 where st1: "reached F src k st0 (Skip c') st1" "parse_line F p' st = parse_line F (p' - 1) st1"
    by (rule parse_step [where p = p', OF assms(2,3) run_skip.prems(1-5) _ exec]) (use run_skip.prems(6) run_skip.hyps(3) in auto)
  then obtain s' where s': "map_of src n = Some s'" "related k st0 st1 c'" "running st1" "cur_line st1 = n"
      "reads F st1 (stmt_lexemes s' @ [End_of_line])" using run_skip.hyps(3) by auto
  show ?case
    using run_skip.IH [of s' st1 "p' - 1" l] s' st1(2) run_skip.prems(6-8) by simp
next
  case (run_jump c s0 c' j d)
  have exec: "exec_stmt F s c = Some (Jump c')" using run_jump by simp
  have lands: "lands src (Jump c')" using run_jump.hyps(3) by (cases rule: runs.cases) auto
  obtain st1 where st1: "reached F src k st0 (Jump c') st1" "parse_line F p' st = Some st1"
    by (rule parse_step [where p = p', OF assms(2,3) run_jump.prems(1-5) _ exec lands]) (use run_jump.prems(6) in auto)
  then obtain s' where s': "map_of src (at_line c') = Some s'" "at_start F s' st1" by auto
  obtain l' where l': "l = Suc l'" "2 * j \<le> l'" using run_jump.prems(7) by (cases l) auto
  obtain st2 where st2: "run_loop F (parse_line F p) (Suc l') st1 = do { st \<leftarrow> parse_line F p st2; run_loop F (parse_line F p) l' st }"
      "related k st0 st2 c'" "running st2" "cur_line st2 = cur_line st1" "reads F st2 (stmt_lexemes s' @ [End_of_line])"
    using run_loop_start [OF _ s'(2), of k st0 c' "parse_line F p" l'] st1(1) by auto
  have "finishes k st0 d (do { st \<leftarrow> parse_line F p st2; run_loop F (parse_line F p) l' st })"
    using run_jump.IH [of s' st2 p l'] s'(1) st1(1) st2(2-5) l'(2) run_jump.prems(8) by simp
  then show ?case using st1(2) st2(1) l'(1) by simp
qed

subsection \<open>RUN\<close>

definition start_config :: "u16 \<Rightarrow> (cstring \<rightharpoonup> 'f) \<Rightarrow> nat \<Rightarrow> 'f config" where
  "start_config n \<rho> m = \<lparr>at_line = n, env = \<rho>, pending = [], room = m, printed = []\<rparr>"

lemma do_run_follows:
  assumes "source_in F src (prog st0)" and "src = (n, s) # src'" and "related k st0 st c" and "at_line c = n"
    and "runs F src c j d" and "\<forall>(n, s) \<in> set src. stmt_fuel s \<le> e" and "e + Suc j < p" and "2 * j < l"
  obtains st' where "do_run F (parse_line F p) l st = Some (ready st')" and "related k st0 st' d" and "sym st' = T_EOF"
proof -
  let ?st = "st\<lparr>RUNNING := True, STOPPED := False\<rparr>"
  have rel: "related k st0 ?st c" using assms(3) by (simp add: related_def same_session_def basic_ok_def stack_total_def)
  have s: "map_of src n = Some s" using assms(2) by simp
  obtain q where q: "lines_contents ?st n = Some (Prog q)"
      "at_start F s (start_at (Prog q) (?st\<lparr>cur_line := n, cur_cursor := Prog q\<rparr>))"
    by (rule line_at_start [OF assms(1) rel _ s]) simp
  let ?st1 = "start_at (Prog q) (?st\<lparr>cur_line := n, cur_cursor := Prog q\<rparr>)"
  obtain l' where l': "l = Suc l'" "2 * j \<le> l'" using assms(8) by (cases l) auto
  obtain st2 where st2: "run_loop F (parse_line F p) l ?st1 = do { st \<leftarrow> parse_line F p st2; run_loop F (parse_line F p) l' st }"
      "related k st0 st2 c" "running st2" "cur_line st2 = cur_line ?st1" "reads F st2 (stmt_lexemes s @ [End_of_line])"
    unfolding l'(1) by (rule run_loop_start [OF related_start_at [OF rel] q(2)])
  have "finishes k st0 d (run_loop F (parse_line F p) l ?st1)"
    unfolding st2(1) using s assms(4) st2(2-5) assms(7) l'(2)
    by (intro runs_followed [OF assms(5,1,6,7)]) (simp_all add: start_at_def)
  then obtain st' where st': "run_loop F (parse_line F p) l ?st1 = Some st'" "related k st0 st' d" "sym st' = T_EOF"
    by (auto simp: finishes_def)
  have "lines_contents st n = Some (Prog q)" using q(1) by (simp add: lines_contents_def)
  moreover have "lines_first (prog st) = Some n"
    using source_first [OF assms(1,2)] related_text [OF assms(3)] by simp
  moreover have "(start_at (Prog q) (st\<lparr>cur_line := n, cur_cursor := Prog q\<rparr>))\<lparr>RUNNING := True, STOPPED := False\<rparr> = ?st1"
    by (simp add: start_at_def)
  ultimately have "do_run F (parse_line F p) l st = Some (ready st')" using st'(1) by (simp add: do_run_def)
  then show thesis using that st'(2,3) by blast
qed

lemma run_word: "words ! 19 = ''RUN''" "length words = 70"
  by (simp_all add: words_def registrations_def)

text \<open>A line that is nothing but a keyword.\<close>

lemma entered_ok [simp]: "basic_ok k (entered l st) = basic_ok k st"
  by (simp add: entered_def entered_in_def basic_ok_def stack_total_def start_at_def tokenizer_init_def)

lemma entered_word:
  assumes "basic_ok k st" and "i < length registrations" and "l = ascii (words ! (12 + i))" and "length l < tokenizer_string_length"
  obtains st1 where "get_sym F (entered l st) = Some st1" and "reads F st1 [Word (12 + i), End_of_line]" and "only_tok (entered l st) st1"
proof -
  let ?st = "(entered l st)\<lparr>sym := T_PLUS\<rparr>"
  obtain z where "tokenizer_string_length - length l = Suc z"
    using assms(4) by (cases "tokenizer_string_length - length l") auto
  then have z: "eval_line ?st = l @ 0 # replicate z 0" by (simp add: entered_def entered_in_def start_at_def)
  have "12 + i < length words" using assms(2) by (simp add: words_def)
  then have "spelled F [Word (12 + i), End_of_line] (l @ 0 # replicate z 0)"
    using spelled_step [of F "Word (12 + i)" "0 # replicate z 0" "[End_of_line]"] assms(3) by simp
  then have "reads F ?st [l_plus, Word (12 + i), End_of_line]"
    using z by (simp add: reads_def entered_def entered_in_def start_at_def tokenizer_init_def text_of_def)
  moreover have "basic_ok k ?st" using assms(1) entered_ok [of k l st] by (simp add: basic_ok_def stack_total_def)
  then have "good k (vars ?st) ?st" by (simp add: good_def)
  moreover have "lexeme_token (Word (12 + i)) \<noteq> T_THE_END" using keyword_token_number [OF assms(2)] by (simp add: keyword_defs)
  ultimately obtain st1 where st1: "get_sym F ?st = Some st1" "reads F st1 [Word (12 + i), End_of_line]"
    using get_sym_step by metis
  then have "get_sym F (entered l st) = Some st1" by (simp add: get_sym_sym)
  then show thesis using that st1(2) get_sym_only_tok by blast
qed

lemma eval_text:
  assumes "is_cstring l" and "length l < tokenizer_string_length" and "\<not> isspace (last l)" and "\<not> is_empty l" and "\<not> is_comment l"
    and "get_sym F (entered l st) = Some st1" and "sym st1 \<noteq> T_NUMBER"
  shows "basic_eval F fuel l st = parse_line F fuel st1"
proof -
  obtain z where "tokenizer_string_length - length l = Suc z"
    using assms(2) by (cases "tokenizer_string_length - length l") auto
  then show ?thesis
    using line_buffer [OF assms(1,2)] assms cstring_at_start [OF assms(1), of "replicate z 0"]
    by (auto simp: basic_eval_def entered_def entered_in_def Let_def)
qed

lemma eval_run:
  assumes "get_sym F (entered (ascii ''RUN'') st) = Some st1" and "sym st1 \<noteq> T_NUMBER"
  shows "basic_eval F fuel (ascii ''RUN'') st = parse_line F fuel st1"
  by (rule eval_text [OF _ _ _ _ _ assms])
    (simp_all add: ascii_def is_cstring_def tokenizer_string_length_def isspace_def is_empty_def is_comment_def)

lemma entered_run:
  assumes "related k st0 (entered (ascii ''RUN'') st) c"
  obtains st1 where "get_sym F (entered (ascii ''RUN'') st) = Some st1" and "reads F st1 [Word 19, End_of_line]"
    and "related k st0 st1 c"
proof -
  have "basic_ok k st" using assms by (simp add: related_def)
  moreover have "ascii ''RUN'' = ascii (words ! (12 + 7))" "7 < length registrations" using run_word by (simp_all add: length_registrations)
  moreover have "length (ascii ''RUN'') < tokenizer_string_length" by (simp add: ascii_def tokenizer_string_length_def)
  ultimately obtain st1 where "get_sym F (entered (ascii ''RUN'') st) = Some st1" "reads F st1 [Word (12 + 7), End_of_line]"
      "only_tok (entered (ascii ''RUN'') st) st1" using entered_word by metis
  then show thesis using that related_only_tok [OF _ assms] by simp
qed

lemma run_follows:
  assumes "basic_ok k st" and "stack_frames st = []" and "dict_ok (var_table (vars st))" and "env_holds \<rho> (vars st)"
    and "source_in F src (prog st)" and "src = (n, s) # src'"
    and "runs F src (start_config n \<rho> (stack_p st)) j d"
    and "\<forall>(n, s) \<in> set src. stmt_fuel s \<le> e" and "e + 2 * j + 2 < fuel"
  shows "\<exists>st'. basic_eval F fuel (ascii ''RUN'') st = Some st' \<and>
    out st' = out st @ printed d @ (if REPL st then ascii ''READY.'' @ [10] else []) \<and>
    env_holds (env d) (vars st') \<and> last_error (vars st') = None \<and> prog st' = prog st \<and> stack_p st' = room d"
proof -
  let ?st0 = "entered (ascii ''RUN'') st" and ?c = "start_config n \<rho> (stack_p st)"
  have rel: "related k ?st0 ?st0 ?c"
    using assms(1-4)
    by (simp add: related_def same_session_def entered_def entered_in_def start_at_def tokenizer_init_def start_config_def
        basic_ok_def stack_total_def env_holds_def variable_get_def)
  have st0: "prog ?st0 = prog st" "out ?st0 = out st" "REPL ?st0 = REPL st" by (simp_all add: entered_def entered_in_def start_at_def)
  obtain st1 where st1: "get_sym F ?st0 = Some st1" "reads F st1 [Word 19, End_of_line]" "related k ?st0 st1 ?c"
    by (rule entered_run [OF rel])
  have sym1: "sym st1 = basic_token_id 7"
    using reads_sym [OF st1(2)] keyword_token_number [of 7] by (simp add: length_registrations)
  obtain f where f: "fuel = Suc (Suc f)" using assms(9) by (cases fuel; cases "fuel - 1") auto
  have reads1: "reads F st1 (Word (12 + 7) # End_of_line # [])" using st1(2) by simp
  obtain st2 where st2: "related k ?st0 st2 ?c"
      "statement F (parse_line F (Suc f)) (Suc f) st1 =
        do { st \<leftarrow> call_keyword F (parse_line F (Suc f)) (Suc f) Do_run st2; Some (last_error (vars st) = None, st) }"
    by (rule statement_keyword [OF st1(3) reads1 _ registered(4)]) (simp_all add: length_registrations token_defs)
  have source: "source_in F src (prog ?st0)" using assms(5) st0(1) by simp
  obtain st3 where st3: "do_run F (parse_line F (Suc f)) (Suc f) st2 = Some (ready st3)" "related k ?st0 st3 d" "sym st3 = T_EOF"
    by (rule do_run_follows [where p = "Suc f" and l = "Suc f", OF source assms(6) st2(1) _ assms(7,8)])
      (use assms(9) f in \<open>simp_all add: start_config_def\<close>)
  have "parse_line F fuel st1 = Some (ready st3)"
    using sym1 st2(2) st3 by (simp add: f call_keyword_def keyword_defs ready_def basic_io_print_def related_def)
  moreover have "sym st1 \<noteq> T_NUMBER" by (simp add: sym1 keyword_defs)
  ultimately have "basic_eval F fuel (ascii ''RUN'') st = Some (ready st3)" using eval_run [OF st1(1)] by simp
  then show ?thesis
    using st3(2) st0 by (auto simp: ready_def basic_io_print_def related_def same_session_def)
qed

text \<open>C1. \<^verbatim>\<open>RUN\<close> does what the program says: when the reference semantics of the stored program stops after
  \<open>j\<close> statements, the evaluation of the line \<^verbatim>\<open>RUN\<close> returns, has printed exactly what the reference run printed
  (and \<^verbatim>\<open>READY.\<close> at an interactive console), leaves every variable with the value of the reference run, the
  stack with its free space, the program as it was and no error.  Programs may have any number of lines with
  assignments, PRINT, GOTO, IF, GOSUB, RETURN, FOR, NEXT (with or without its variable) and END, with any expressions and white space, but no line
  with the number 0.\<close>

theorem run_refines:
  assumes "basic_ok k st" and "stack_frames st = []" and "dict_ok (var_table (vars st))" and "env_holds \<rho> (vars st)"
    and "source_in F src (prog st)" and "src = (n, s) # src'"
    and "runs F src (start_config n \<rho> (stack_p st)) j d"
    and "\<forall>(n, s) \<in> set src. stmt_fuel s \<le> e" and "e + 2 * j + 2 < fuel"
  shows "\<exists>st'. basic_eval F fuel (ascii ''RUN'') st = Some st' \<and>
    out st' = out st @ printed d @ (if REPL st then ascii ''READY.'' @ [10] else []) \<and>
    env_holds (env d) (vars st') \<and> last_error (vars st') = None \<and> prog st' = prog st \<and> stack_p st' = room d"
  by (rule run_follows [OF assms])

text \<open>A program that counts with a loop made of IF and GOTO.\<close>

definition count_lines :: program where
  "count_lines = [(10, ascii ''A=1''), (20, ascii ''PRINT A''), (30, ascii ''A = A+1''), (40, ascii ''IF A<3 THEN 20''), (50, ascii ''END'')]"

definition count_source :: source where
  "count_source =
    [(10, Let [65] (First None (Single (Plain (Lit [49]))))),
     (20, Print (First None (Single (Plain (Var [65]))))),
     (30, Let [65] (Plus_minus (First None (Single (Plain (Var [65])))) True (Single (Plain (Lit [49]))))),
     (40, If_then (First None (Single (Rel (Var [65]) OP_LT (Plain (Lit [51]))))) [50, 48]),
     (50, End)]"

text \<open>An executable form of \<open>spelled\<close>.\<close>

fun spells :: "'f floats \<Rightarrow> lexeme list \<Rightarrow> cstring \<Rightarrow> bool" where
  "spells F [] t \<longleftrightarrow> True"
| "spells F (l # ls) t \<longleftrightarrow> (let u = (if l = End_of_line then t else dropWhile isspace t); n = length (spelling l) in
     take n u = spelling l \<and> lexeme_ok F l (drop n u) \<and> spells F ls (drop n u))"

lemma spells_spelled: "spells F ls t \<Longrightarrow> spelled F ls t"
proof (induction ls arbitrary: t)
  case (Cons l ls)
  define sp where "sp = (if l = End_of_line then [] else takeWhile isspace t)"
  define u where "u = (if l = End_of_line then t else dropWhile isspace t)"
  define r where "r = drop (length (spelling l)) u"
  have u: "take (length (spelling l)) u = spelling l" "lexeme_ok F l r" "spells F ls r"
    using Cons.prems by (simp_all add: u_def r_def Let_def)
  have "t = sp @ u" by (simp add: sp_def u_def)
  also have "u = spelling l @ r" using u(1) append_take_drop_id [of "length (spelling l)" u] by (simp add: r_def)
  finally show ?case
    using Cons.IH [OF u(3)] u(2) set_takeWhileD [of _ isspace t] unfolding spelled.simps
    by (intro exI [of _ sp] exI [of _ r]) (auto simp: sp_def)
qed simp

lemma count_spelled:
  "list_all2 (\<lambda>(n, s) (m, t). n = m \<and> spelled int_floats (stmt_lexemes s @ [End_of_line]) (t @ [0])) count_source count_lines"
proof -
  have "list_all2 (\<lambda>(n, s) (m, t). n = m \<and> spells int_floats (stmt_lexemes s @ [End_of_line]) (t @ [0])) count_source count_lines"
    by code_simp
  then show ?thesis by (rule list_all2_mono) (auto intro: spells_spelled)
qed

theorem run_refines_witness:
  "\<exists>st :: int basic. basic_ok 2048 st \<and> stack_frames st = [] \<and> holds_program (prog st) count_lines \<and> out st = [] \<and>
    (\<exists>st'. basic_eval int_floats 50 (ascii ''RUN'') st = Some st' \<and> out st' = [49, 10, 50, 10] @ ascii ''READY.'' @ [10] \<and>
      variable_get_numeric (vars st') [65] = Some (3, vars st'))"
proof -
  obtain st0 :: "int basic" where st0: "basic_ok 2048 st0" "stack_frames st0 = []" "var_table (vars st0) = replicate HASHSIZE []"
    using sample_ok by blast
  let ?st = "st0\<lparr>prog := \<lparr>lines_memory = image_bytes count_lines, lines_memory_end = 0, lines_memory_size = 100\<rparr>, out := [], REPL := True\<rparr>"
  have ok: "basic_ok 2048 ?st" "stack_frames ?st = []" "dict_ok (var_table (vars ?st))" "stack_p ?st = 2048"
    using st0 dictionary_new_ok by (auto simp: basic_ok_def stack_total_def dictionary_new_def)
  have lines: "holds_program (prog ?st) count_lines"
    by (simp add: holds_program_iff wf_program_def count_lines_def ascii_def is_cstring_def)
  have source: "source_in int_floats count_source (prog ?st)"
    using lines count_spelled by (auto simp: source_in_def count_source_def)
  have "map_option (\<lambda>(j, d). (j, printed d, env d [65])) (run_source int_floats count_source 20 (start_config 10 Map.empty 2048))
    = Some (8, [49, 10, 50, 10], Some 3)"
    by code_simp
  then obtain d where d: "runs int_floats count_source (start_config 10 Map.empty (stack_p ?st)) 8 d"
      "printed d = [49, 10, 50, 10]" "env d [65] = Some 3"
    using run_source_runs ok(4) by fastforce
  have first: "count_source = (10, Let [65] (First None (Single (Plain (Lit [49]))))) # tl count_source" by (simp add: count_source_def)
  have bound: "\<forall>(n, s) \<in> set count_source. stmt_fuel s \<le> 10" by (simp add: count_source_def)
  have "\<exists>st'. basic_eval int_floats 50 (ascii ''RUN'') ?st = Some st' \<and>
    out st' = out ?st @ printed d @ (if REPL ?st then ascii ''READY.'' @ [10] else []) \<and>
    env_holds (env d) (vars st') \<and> last_error (vars st') = None \<and> prog st' = prog ?st \<and> stack_p st' = room d"
    by (rule run_refines [OF ok(1-3) env_holds_empty source first d(1) bound]) simp
  then show ?thesis using ok(1,2) lines d(2,3) env_holdsD by (intro exI [of _ ?st]) fastforce
qed

subsection \<open>A loop of a program\<close>

text \<open>The statements of a loop body that go straight on, on the values of the variables and what is printed.\<close>

fun plain_step :: "'f floats \<Rightarrow> stmt \<Rightarrow> (cstring \<rightharpoonup> 'f) \<times> cstring \<Rightarrow> ((cstring \<rightharpoonup> 'f) \<times> cstring) option" where
  "plain_step F (Let w e) (\<rho>, o') = map_option (\<lambda>x. (\<rho>(w \<mapsto> x), o')) (tree_value F \<rho> e)"
| "plain_step F (Print e) (\<rho>, o') = (if starts_with_plus e then None else do {
     x \<leftarrow> tree_value F \<rho> e;
     s \<leftarrow> shown F x;
     Some (\<rho>, o' @ s @ [10]) })"
| "plain_step F s (\<rho>, o') = None"

fun plain_steps :: "'f floats \<Rightarrow> stmt list \<Rightarrow> (cstring \<rightharpoonup> 'f) \<times> cstring \<Rightarrow> ((cstring \<rightharpoonup> 'f) \<times> cstring) option" where
  "plain_steps F [] p = Some p"
| "plain_steps F (s # ss) p = do { p \<leftarrow> plain_step F s p; plain_steps F ss p }"

text \<open>\<open>k\<close> rounds of a loop body, the variable counting from \<open>i\<close> in steps of \<open>d\<close>.\<close>

fun rounds :: "'f floats \<Rightarrow> cstring \<Rightarrow> int \<Rightarrow> stmt list \<Rightarrow> nat \<Rightarrow> int \<Rightarrow> (cstring \<rightharpoonup> 'f) \<times> cstring \<Rightarrow> ((cstring \<rightharpoonup> 'f) \<times> cstring) option" where
  "rounds F v d ss 0 i p = Some p"
| "rounds F v d ss (Suc k) i (\<rho>, o') = do { p \<leftarrow> plain_steps F ss (\<rho>(v \<mapsto> f_of_int F i), o'); rounds F v d ss k (i + d) p }"

text \<open>How often NEXT goes back in \<^verbatim>\<open>FOR v = a TO b STEP d\<close>, and that the floats count exactly that far.\<close>

definition repeats :: "int \<Rightarrow> int \<Rightarrow> int \<Rightarrow> nat" where
  "repeats a b d = nat ((b - a) div d)"

definition counts :: "'f floats \<Rightarrow> int \<Rightarrow> int \<Rightarrow> int \<Rightarrow> bool" where
  "counts F a b d \<longleftrightarrow> d \<noteq> 0 \<and> (f_gt0 F (f_of_int F d) \<longleftrightarrow> 0 < d) \<and> (f_lt0 F (f_of_int F d) \<longleftrightarrow> d < 0) \<and>
     (\<forall>k \<le> repeats a b d. f_add F (f_of_int F (a + int k * d)) (f_of_int F d) = f_of_int F (a + int k * d + d) \<and>
       (f_lt F (f_of_int F b) (f_of_int F (a + int k * d + d)) \<longleftrightarrow> b < a + int k * d + d) \<and>
       (f_lt F (f_of_int F (a + int k * d + d)) (f_of_int F b) \<longleftrightarrow> a + int k * d + d < b))"

lemma last_round:
  fixes a b d :: int
  assumes "d \<noteq> 0" and "k \<le> repeats a b d"
  shows "(0 < d \<and> b < a + int k * d + d \<or> d < 0 \<and> a + int k * d + d < b) \<longleftrightarrow> k = repeats a b d"
proof -
  define q where "q = (b - a) div d"
  have q: "b - a = q * d + (b - a) mod d" by (simp add: q_def)
  have k: "k = repeats a b d \<longleftrightarrow> q \<le> int k" using assms(2) by (auto simp: repeats_def q_def)
  have split: "int k * d + d = (int k + 1) * d" by (simp add: algebra_simps)
  show ?thesis
  proof (cases "0 < d")
    case True
    then have r: "0 \<le> (b - a) mod d" "(b - a) mod d < d" by simp_all
    have "b - a < (int k + 1) * d \<longleftrightarrow> q < int k + 1"
    proof
      assume "b - a < (int k + 1) * d"
      then have "q * d < (int k + 1) * d" using q r(1) by linarith
      then show "q < int k + 1" using True by (simp add: mult_less_cancel_right)
    next
      assume "q < int k + 1"
      then have "q * d \<le> int k * d" using True by (intro mult_right_mono) auto
      then show "b - a < (int k + 1) * d" using q r(2) by (simp add: algebra_simps)
    qed
    then show ?thesis using True k split by (auto simp: add.assoc)
  next
    case False
    then have "d < 0" using assms(1) by simp
    then have r: "d < (b - a) mod d" "(b - a) mod d \<le> 0" by simp_all
    have "(int k + 1) * d < b - a \<longleftrightarrow> q < int k + 1"
    proof
      assume "(int k + 1) * d < b - a"
      then have "(int k + 1) * d < q * d" using q r(2) by linarith
      then show "q < int k + 1" using \<open>d < 0\<close> by (simp add: mult_less_cancel_right)
    next
      assume "q < int k + 1"
      then have "int k * d \<le> q * d" using \<open>d < 0\<close> by (intro mult_right_mono_neg) auto
      then show "(int k + 1) * d < b - a" using q r(1) by (simp add: algebra_simps)
    qed
    then show ?thesis using \<open>d < 0\<close> k split by (auto simp: add.assoc)
  qed
qed

lemma countsD:
  assumes "counts F a b d" and "k \<le> repeats a b d"
  shows "f_add F (f_of_int F (a + int k * d)) (f_of_int F d) = f_of_int F (a + int k * d + d)"
    and "past_end F (f_of_int F d) (f_of_int F b) (f_of_int F (a + int k * d + d)) \<longleftrightarrow> k = repeats a b d"
  using assms last_round [OF _ assms(2)] by (auto simp: counts_def past_end_def)

subsubsection \<open>The lines of a program\<close>

lemma source_sorted: "source_in F src pr \<Longrightarrow> sorted_wrt (<) (map fst src)"
proof -
  assume "source_in F src pr"
  then obtain ls where "holds_program pr ls" and *: "list_all2 (\<lambda>(n, s) (m, t). n = m \<and> spelled F (stmt_lexemes s @ [End_of_line]) (t @ [0])) src ls"
    by (auto simp: source_in_def)
  moreover have "map fst src = map fst ls" using * by (induction rule: list_all2_induct) auto
  ultimately show ?thesis by (simp add: holds_program_iff wf_program_def)
qed

lemma sorted_at:
  assumes "sorted_wrt (<) (map fst (xs @ (n :: u16, s) # ys))"
  shows "map_of (xs @ (n, s) # ys) n = Some s" and "following (xs @ (n, s) # ys) n = (case ys of [] \<Rightarrow> None | l # _ \<Rightarrow> Some (fst l))"
proof -
  have small: "fst l < n" if "l \<in> set xs" for l using assms that by (auto simp: sorted_wrt_append)
  then have "map_of xs n = None" by (auto simp: map_of_eq_None_iff)
  then show "map_of (xs @ (n, s) # ys) n = Some s" by (simp add: map_add_def)
  have "find (\<lambda>l. n < fst l) (xs @ zs) = find (\<lambda>l. n < fst l) zs" for zs
    using small by (induction xs) (auto simp: less_not_sym)
  then show "following (xs @ (n, s) # ys) n = (case ys of [] \<Rightarrow> None | l # _ \<Rightarrow> Some (fst l))"
    using assms by (cases ys) (auto simp: following_def sorted_wrt_append)
qed

text \<open>The run goes on behind the current line.\<close>

definition resumes :: "'f floats \<Rightarrow> source \<Rightarrow> 'f config \<Rightarrow> nat \<Rightarrow> 'f config \<Rightarrow> bool" where
  "resumes F src c j d \<longleftrightarrow> (case following src (at_line c) of None \<Rightarrow> j = 0 \<and> d = c | Some n \<Rightarrow> runs F src (c\<lparr>at_line := n\<rparr>) j d)"

lemma run_resumes:
  assumes "map_of src (at_line c) = Some s" and "exec_stmt F s c = Some (After c')" and "resumes F src c' j d"
  shows "runs F src c (Suc j) d"
  using assms run_end [OF assms(1,2)] run_after [OF assms(1,2)] by (auto simp: resumes_def split: option.splits)

lemma plain_exec: "plain_step F s (env c, printed c) = Some (\<rho>, o') \<Longrightarrow> exec_stmt F s c = Some (After (c\<lparr>env := \<rho>, printed := o'\<rparr>))"
  by (cases s) (auto elim!: result_elims split: if_splits)

lemma plain_runs:
  assumes "sorted_wrt (<) (map fst src)"
  shows "src = pre @ body @ (m, t) # post \<Longrightarrow> plain_steps F (map snd body) (env c, printed c) = Some (\<rho>, o') \<Longrightarrow>
    runs F src (c\<lparr>at_line := m, env := \<rho>, printed := o'\<rparr>) j d \<Longrightarrow>
    runs F src (c\<lparr>at_line := fst (hd (body @ [(m, t)]))\<rparr>) (length body + j) d"
proof (induction body arbitrary: pre c)
  case Nil
  then show ?case by auto
next
  case (Cons l body)
  obtain n s where l: "l = (n, s)" by (cases l)
  obtain \<rho>1 o1 where p: "plain_step F s (env c, printed c) = Some (\<rho>1, o1)" "plain_steps F (map snd body) (\<rho>1, o1) = Some (\<rho>, o')"
    using Cons.prems(2) l by (auto elim!: result_elims)
  let ?c = "c\<lparr>at_line := n\<rparr>" and ?c1 = "c\<lparr>at_line := n, env := \<rho>1, printed := o1\<rparr>"
  have src: "src = pre @ (n, s) # body @ (m, t) # post" using Cons.prems(1) l by simp
  note at = sorted_at [OF assms [unfolded src], folded src]
  have exec: "exec_stmt F s ?c = Some (After ?c1)" using plain_exec [of F s ?c] p(1) by simp
  have "runs F src (?c1\<lparr>at_line := fst (hd (body @ [(m, t)]))\<rparr>) (length body + j) d"
    by (rule Cons.IH [of "pre @ [(n, s)]"]) (use Cons.prems(1,3) p(2) l in simp_all)
  moreover have "following src n = Some (fst (hd (body @ [(m, t)])))" using at(2) by (cases body) simp_all
  ultimately have "resumes F src ?c1 (length body + j) d" by (simp add: resumes_def)
  then show ?case using run_resumes [of src ?c s F ?c1] at(1) exec l by simp
qed

lemma plain_keeps:
  assumes "plain_steps F ss (\<rho>, o') = Some (\<rho>', o'')" and "\<forall>e. Let v e \<notin> set ss"
  shows "\<rho>' v = \<rho> v"
  using assms
proof (induction ss arbitrary: \<rho> o')
  case (Cons s ss)
  obtain \<rho>1 o1 where p: "plain_step F s (\<rho>, o') = Some (\<rho>1, o1)" "plain_steps F ss (\<rho>1, o1) = Some (\<rho>', o'')"
    using Cons.prems(1) by (auto elim!: result_elims)
  have "\<rho>1 v = \<rho> v" using p(1) Cons.prems(2) by (cases s) (auto elim!: result_elims split: if_splits)
  then show ?case using Cons.IH [OF p(2)] Cons.prems(2) by auto
qed simp

lemma rounds_set: "rounds F v d ss (Suc k) i (\<rho>(v \<mapsto> f_of_int F i), o') = rounds F v d ss (Suc k) i (\<rho>, o')"
  by simp

text \<open>The rounds of a loop whose frame is on the stack, from the first line of its body.\<close>

lemma rounds_run:
  fixes b d0 a :: int
  assumes sorted: "sorted_wrt (<) (map fst src)" and src: "src = pre @ (n0, s0) # body @ (n1, Next w) # post" and w: "w = None \<or> w = Some v"
    and body: "\<forall>e. Let v e \<notin> snd ` set body" and counts: "counts F a b d0"
    and k: "i + k = repeats a b d0"
    and c: "pending c = Loop v (f_of_int F b) (f_of_int F d0) n0 # fs" "env c v = Some (f_of_int F (a + int i * d0))"
    and r: "rounds F v d0 (map snd body) (Suc k) (a + int i * d0) (env c, printed c) = Some (\<rho>, o')"
    and rest: "resumes F src (c\<lparr>at_line := n1, env := \<rho>, printed := o', pending := fs, room := room c + sizeof_for\<rparr>) j d"
  shows "runs F src (c\<lparr>at_line := fst (hd (body @ [(n1, Next w)]))\<rparr>) (Suc k * Suc (length body) + j) d"
  using k c r rest
proof (induction k arbitrary: i c)
  case (0 i c)
  have same: "(env c)(v \<mapsto> f_of_int F (a + int i * d0)) = env c" using 0(3) by (simp add: fun_upd_idem_iff)
  have steps: "plain_steps F (map snd body) (env c, printed c) = Some (\<rho>, o')" using 0(4) by (auto simp: same elim!: result_elims)
  have "\<rho> v = env c v" using plain_keeps [OF steps] body by force
  let ?c = "c\<lparr>at_line := n1, env := \<rho>, printed := o'\<rparr>"
  have "map_of src n1 = Some (Next w)" using sorted_at(1) [of "pre @ (n0, s0) # body" n1 "Next w" post] sorted src by simp
  moreover have "exec_stmt F (Next w) ?c = Some (After (c\<lparr>at_line := n1, env := \<rho>, printed := o', pending := fs, room := room c + sizeof_for\<rparr>))"
    using w 0(1-3) \<open>\<rho> v = _\<close> countsD [OF counts, of i] by auto
  ultimately have "runs F src ?c (Suc j) d" using run_resumes [of src ?c "Next w"] 0(5) by simp
  then have "runs F src (c\<lparr>at_line := fst (hd (body @ [(n1, Next w)]))\<rparr>) (length body + Suc j) d"
    by (intro plain_runs [OF sorted, of "pre @ [(n0, s0)]"]) (use steps src in simp_all)
  then show ?case by simp
next
  case (Suc k i c)
  let ?x = "\<lambda>i. f_of_int F (a + int i * d0)"
  have same: "(env c)(v \<mapsto> ?x i) = env c" using Suc(4) by (simp add: fun_upd_idem_iff)
  obtain \<rho>1 o1 where p: "plain_steps F (map snd body) (env c, printed c) = Some (\<rho>1, o1)"
      "rounds F v d0 (map snd body) (Suc k) (a + int (Suc i) * d0) (\<rho>1, o1) = Some (\<rho>, o')"
  proof -
    have next_value: "a + int i * d0 + d0 = a + int (Suc i) * d0" by (simp add: algebra_simps)
    have "do { p \<leftarrow> plain_steps F (map snd body) (env c, printed c); rounds F v d0 (map snd body) (Suc k) (a + int (Suc i) * d0) p } = Some (\<rho>, o')"
      using Suc(5) unfolding rounds.simps(2) [of F v d0 "map snd body" "Suc k"] same next_value .
    then show thesis using that by (auto simp del: rounds.simps of_nat_Suc elim!: result_elims)
  qed
  have "\<rho>1 v = env c v" using plain_keeps [OF p(1)] body by force
  let ?c1 = "c\<lparr>at_line := n1, env := \<rho>1, printed := o1\<rparr>"
  let ?c2 = "c\<lparr>at_line := n0, env := \<rho>1(v \<mapsto> ?x (Suc i)), printed := o1\<rparr>"
  have at: "map_of src n1 = Some (Next w)" "following src n0 = Some (fst (hd (body @ [(n1, Next w)])))"
    using sorted_at(1) [of "pre @ (n0, s0) # body" n1 "Next w" post] sorted_at(2) [of pre n0 s0 "body @ (n1, Next w) # post"] sorted src
    by (cases body; simp)+
  have "exec_stmt F (Next w) ?c1 = Some (After ?c2)"
    using w Suc(2-4) \<open>\<rho>1 v = _\<close> countsD [OF counts, of i] by (auto simp: algebra_simps)
  moreover have "rounds F v d0 (map snd body) (Suc k) (a + int (Suc i) * d0) (env ?c2, printed ?c2) = Some (\<rho>, o')"
    using p(2) rounds_set [of F v d0 "map snd body" k "a + int (Suc i) * d0" \<rho>1 o1] by (simp del: rounds.simps of_nat_Suc)
  from Suc.IH [of "Suc i" ?c2, OF _ _ _ this]
  have "runs F src (?c2\<lparr>at_line := fst (hd (body @ [(n1, Next w)]))\<rparr>) (Suc k * Suc (length body) + j) d"
    using Suc(2,3,6) by (simp del: rounds.simps)
  then have "resumes F src ?c2 (Suc k * Suc (length body) + j) d" using at(2) by (simp add: resumes_def)
  ultimately have "runs F src ?c1 (Suc (Suc k * Suc (length body) + j)) d" using run_resumes [of src ?c1 "Next w"] at(1) by simp
  then have "runs F src (c\<lparr>at_line := fst (hd (body @ [(n1, Next w)]))\<rparr>) (length body + Suc (Suc k * Suc (length body) + j)) d"
    by (intro plain_runs [OF sorted, of "pre @ [(n0, s0)]"]) (use p(1) src in simp_all)
  then show ?case by (simp add: algebra_simps)
qed

lemma rounds_last:
  assumes "\<forall>e. Let v e \<notin> set ss"
  shows "rounds F v d ss (Suc k) i (\<rho>, o') = Some (\<rho>', o'') \<Longrightarrow> \<rho>' v = Some (f_of_int F (i + int k * d))"
proof (induction k arbitrary: i \<rho> o')
  case 0
  then have "plain_steps F ss (\<rho>(v \<mapsto> f_of_int F i), o') = Some (\<rho>', o'')" by (auto elim!: result_elims)
  from plain_keeps [OF this assms] show ?case by simp
next
  case (Suc k)
  then obtain \<rho>1 o1 where "rounds F v d ss (Suc k) (i + d) (\<rho>1, o1) = Some (\<rho>', o'')"
    unfolding rounds.simps(2) [of F v d ss "Suc k"] by (auto simp del: rounds.simps elim!: result_elims)
  then show ?case using Suc.IH [of "i + d" \<rho>1 o1] by (simp add: algebra_simps)
qed

lemma loop_runs:
  assumes sorted: "sorted_wrt (<) (map fst src)" and src: "src = pre @ (n0, For v ea eb es) # body @ (n1, Next w) # post"
    and w: "w = None \<or> w = Some v" and body: "\<forall>e. Let v e \<notin> snd ` set body" and counts: "counts F a b d0"
    and ea: "tree_value F (env c) ea = Some (f_of_int F a)" and eb: "tree_value F ((env c)(v \<mapsto> f_of_int F a)) eb = Some (f_of_int F b)"
    and es: "case es of None \<Rightarrow> d0 = 1 | Some e \<Rightarrow> tree_value F ((env c)(v \<mapsto> f_of_int F a)) e = Some (f_of_int F d0)"
    and room: "sizeof_for \<le> room c"
    and r: "rounds F v d0 (map snd body) (Suc (repeats a b d0)) a (env c, printed c) = Some (\<rho>, o')"
    and rest: "resumes F src (c\<lparr>at_line := n1, env := \<rho>, printed := o'\<rparr>) j d"
  shows "runs F src (c\<lparr>at_line := n0\<rparr>) (Suc (Suc (repeats a b d0) * Suc (length body) + j)) d"
proof -
  let ?x = "f_of_int F a"
  let ?c = "c\<lparr>at_line := n0, env := (env c)(v \<mapsto> ?x), pending := Loop v (f_of_int F b) (f_of_int F d0) n0 # pending c, room := room c - sizeof_for\<rparr>"
  have at: "map_of src n0 = Some (For v ea eb es)" "following src n0 = Some (fst (hd (body @ [(n1, Next w)])))"
    using sorted_at [of pre n0 _ "body @ (n1, Next w) # post"] sorted src by (cases body; simp)+
  have exec: "exec_stmt F (For v ea eb es) (c\<lparr>at_line := n0\<rparr>) = Some (After ?c)"
    using ea eb es room by (auto simp: Let_def split: option.splits)
  have "runs F src (?c\<lparr>at_line := fst (hd (body @ [(n1, Next w)]))\<rparr>) (Suc (repeats a b d0) * Suc (length body) + j) d"
    by (rule rounds_run [OF sorted src w body counts, where i = 0 and fs = "pending c" and \<rho> = \<rho> and o' = o'])
      (use r rest room in \<open>simp_all add: rounds_set del: rounds.simps\<close>)
  then have "resumes F src ?c (Suc (repeats a b d0) * Suc (length body) + j) d" using at(2) by (simp add: resumes_def)
  then show ?thesis using run_resumes [of src "c\<lparr>at_line := n0\<rparr>"] at(1) exec by simp
qed

text \<open>C23. RUN on a program that comes, behind assignments and PRINTs, to a loop \<^verbatim>\<open>FOR v = a TO b STEP d\<close> over integers (without
  \<^verbatim>\<open>STEP\<close>, \<open>d\<close> is 1; \<open>d\<close> may be negative) with a body of PRINTs and assignments to other variables and a NEXT with or without the name \<open>v\<close>:
  the body is executed \<open>repeats a b d + 1\<close> times with \<open>v\<close> counting from \<open>a\<close> in steps of \<open>d\<close>, that is for every value up to \<open>b\<close>, and once even when \<open>a\<close>
  is already past \<open>b\<close>, since only NEXT tests; then the frame is off the stack, \<open>v\<close> keeps the last value that is not past the end, and the run goes on
  behind the NEXT to its end \<open>d\<close>.  The hypothesis on floats, \<open>counts\<close>, holds while the integers are at most \<^verbatim>\<open>2^24\<close>.\<close>

theorem for_loop_ends:
  assumes "basic_ok k st" and "stack_frames st = []" and "dict_ok (var_table (vars st))" and "env_holds \<rho> (vars st)"
    and "source_in F src (prog st)" and src: "src = pre @ (n0, For v ea eb es) # body @ (n1, Next w) # post"
    and "w = None \<or> w = Some v" and "\<forall>e. Let v e \<notin> snd ` set body"
    and "plain_steps F (map snd pre) (\<rho>, []) = Some (\<sigma>, p)"
    and "tree_value F \<sigma> ea = Some (f_of_int F a)" and "tree_value F (\<sigma>(v \<mapsto> f_of_int F a)) eb = Some (f_of_int F b)"
    and "case es of None \<Rightarrow> d0 = 1 | Some e \<Rightarrow> tree_value F (\<sigma>(v \<mapsto> f_of_int F a)) e = Some (f_of_int F d0)"
    and "counts F a b d0" and "sizeof_for \<le> stack_p st"
    and "rounds F v d0 (map snd body) (Suc (repeats a b d0)) a (\<sigma>, p) = Some (\<tau>, q)"
    and "resumes F src \<lparr>at_line = n1, env = \<tau>, pending = [], room = stack_p st, printed = q\<rparr> j d"
    and "\<forall>(n, s) \<in> set src. stmt_fuel s \<le> e" and "e + 2 * (length pre + Suc (Suc (repeats a b d0) * Suc (length body) + j)) + 2 < fuel"
  shows "\<tau> v = Some (f_of_int F (a + int (repeats a b d0) * d0)) \<and>
    (\<exists>st'. basic_eval F fuel (ascii ''RUN'') st = Some st' \<and>
      out st' = out st @ printed d @ (if REPL st then ascii ''READY.'' @ [10] else []) \<and>
      env_holds (env d) (vars st') \<and> last_error (vars st') = None \<and> prog st' = prog st \<and> stack_p st' = room d)"
proof
  let ?k = "Suc (Suc (repeats a b d0) * Suc (length body) + j)"
  let ?c = "start_config (fst (hd (pre @ [(n0, For v ea eb es)]))) \<rho> (stack_p st)"
  note sorted = source_sorted [OF assms(5)]
  show "\<tau> v = Some (f_of_int F (a + int (repeats a b d0) * d0))" using rounds_last [OF _ assms(15)] assms(8) by force
  have "runs F src (?c\<lparr>env := \<sigma>, printed := p, at_line := n0\<rparr>) ?k d"
    by (rule loop_runs [OF sorted src assms(7,8,13)]) (use assms(10-12,14-16) in \<open>simp_all add: start_config_def del: rounds.simps split: option.splits\<close>)
  then have "runs F src (?c\<lparr>at_line := fst (hd (pre @ [(n0, For v ea eb es)]))\<rparr>) (length pre + ?k) d"
    by (intro plain_runs [OF sorted, of "[]"]) (use assms(9) src in \<open>simp_all add: start_config_def\<close>)
  then have runs: "runs F src ?c (length pre + ?k) d" by (simp add: start_config_def)
  obtain s src' where "src = (fst (hd (pre @ [(n0, For v ea eb es)])), s) # src'" using src by (cases pre) auto
  from run_follows [OF assms(1-5) this runs assms(17,18)]
  show "\<exists>st'. basic_eval F fuel (ascii ''RUN'') st = Some st' \<and>
      out st' = out st @ printed d @ (if REPL st then ascii ''READY.'' @ [10] else []) \<and>
      env_holds (env d) (vars st') \<and> last_error (vars st') = None \<and> prog st' = prog st \<and> stack_p st' = room d" .
qed

text \<open>A loop that counts down by two.\<close>

definition down_lines :: program where
  "down_lines = [(10, ascii ''FOR I = 6 TO 1 STEP -2''), (20, ascii ''PRINT I''), (30, ascii ''NEXT I''), (40, ascii ''PRINT I+1'')]"

definition down_source :: source where
  "down_source =
    [(10, For [73] (First None (Single (Plain (Lit [54])))) (First None (Single (Plain (Lit [49]))))
        (Some (First (Some False) (Single (Plain (Lit [50])))))),
     (20, Print (First None (Single (Plain (Var [73]))))),
     (30, Next (Some [73])),
     (40, Print (Plus_minus (First None (Single (Plain (Var [73])))) True (Single (Plain (Lit [49])))))]"

lemma down_spelled:
  "list_all2 (\<lambda>(n, s) (m, t). n = m \<and> spelled int_floats (stmt_lexemes s @ [End_of_line]) (t @ [0])) down_source down_lines"
proof -
  have "list_all2 (\<lambda>(n, s) (m, t). n = m \<and> spells int_floats (stmt_lexemes s @ [End_of_line]) (t @ [0])) down_source down_lines"
    by code_simp
  then show ?thesis by (rule list_all2_mono) (auto intro: spells_spelled)
qed

theorem for_loop_ends_witness:
  "\<exists>st :: int basic. basic_ok 2048 st \<and> stack_frames st = [] \<and> holds_program (prog st) down_lines \<and> out st = [] \<and>
    (\<exists>st'. basic_eval int_floats 80 (ascii ''RUN'') st = Some st' \<and> out st' = [54, 10, 52, 10, 50, 10, 51, 10] \<and>
      variable_get_numeric (vars st') [73] = Some (2, vars st') \<and> stack_p st' = 2048)"
proof -
  obtain st0 :: "int basic" where st0: "basic_ok 2048 st0" "stack_frames st0 = []" "var_table (vars st0) = replicate HASHSIZE []"
    using sample_ok by blast
  let ?st = "st0\<lparr>prog := \<lparr>lines_memory = image_bytes down_lines, lines_memory_end = 0, lines_memory_size = 100\<rparr>, out := [], REPL := False\<rparr>"
  have ok: "basic_ok 2048 ?st" "stack_frames ?st = []" "dict_ok (var_table (vars ?st))" "stack_p ?st = 2048"
    using st0 dictionary_new_ok by (auto simp: basic_ok_def stack_total_def dictionary_new_def)
  have lines: "holds_program (prog ?st) down_lines"
    by (simp add: holds_program_iff wf_program_def down_lines_def ascii_def is_cstring_def)
  have source: "source_in int_floats down_source (prog ?st)"
    using lines down_spelled by (auto simp: source_in_def down_source_def)
  let ?one = "First None (Single (Plain (Lit [49])))" and ?six = "First None (Single (Plain (Lit [54])))"
  let ?step = "First (Some False) (Single (Plain (Lit [50])))"
  let ?body = "[(20 :: u16, Print (First None (Single (Plain (Var [73])))))]"
  let ?\<rho> = "Map.empty([73 :: byte] \<mapsto> 2 :: int)"
  let ?c = "\<lparr>at_line = 30, env = ?\<rho>, pending = [], room = 2048, printed = [54, 10, 52, 10, 50, 10]\<rparr>"
  have src: "down_source = [] @ (10, For [73] ?six ?one (Some ?step)) # ?body @ (30, Next (Some [73])) # drop 3 down_source"
    by (simp add: down_source_def)
  have vals: "tree_value int_floats Map.empty ?six = Some (f_of_int int_floats 6)"
    "tree_value int_floats (Map.empty([73] \<mapsto> f_of_int int_floats 6)) ?one = Some (f_of_int int_floats 1)"
    "tree_value int_floats (Map.empty([73] \<mapsto> f_of_int int_floats 6)) ?step = Some (f_of_int int_floats (- 2))"
    by code_simp+
  have three: "repeats 6 1 (- 2) = 2" by (simp add: repeats_def)
  have counts: "counts int_floats 6 1 (- 2)" by (simp add: counts_def int_floats_def f_gt0_def f_lt0_def)
  have print: "plain_step int_floats (snd (hd ?body)) (\<rho>([73] \<mapsto> x), o') = Some (\<rho>([73] \<mapsto> x), o' @ s @ [10])"
    if "shown int_floats x = Some s" for \<rho> o' x s
    using that by (simp add: tree_value_def)
  have digits: "shown int_floats 6 = Some [54]" "shown int_floats 4 = Some [52]" "shown int_floats 2 = Some [50]" "shown int_floats 3 = Some [51]"
    by code_simp+
  have "f_of_int int_floats i = i" for i by (simp add: int_floats_def)
  then have rounds: "rounds int_floats [73] (- 2) (map snd ?body) 3 6 (Map.empty, []) = Some (?\<rho>, [54, 10, 52, 10, 50, 10])"
    using print digits by (simp add: numeral_3_eq_3 del: plain_step.simps)
  have "following down_source 30 = Some 40" "map_of down_source 40 = Some (snd (down_source ! 3))" "following down_source 40 = None"
    by (simp_all add: down_source_def following_def)
  moreover have "tree_value int_floats ?\<rho> (Plus_minus (First None (Single (Plain (Var [73])))) True (Single (Plain (Lit [49])))) = Some 3"
    by code_simp
  then have "exec_stmt int_floats (snd (down_source ! 3)) (?c\<lparr>at_line := 40\<rparr>) = Some (After (?c\<lparr>at_line := 40, printed := printed ?c @ [51, 10]\<rparr>))"
    using digits(4) by (simp add: down_source_def)
  ultimately have rest: "resumes int_floats down_source ?c 1 (?c\<lparr>at_line := 40, printed := printed ?c @ [51, 10]\<rparr>)"
    by (auto simp: resumes_def intro: run_end)
  have "?\<rho> [73] = Some (f_of_int int_floats (6 + int (repeats 6 1 (- 2)) * - 2)) \<and>
    (\<exists>st'. basic_eval int_floats 80 (ascii ''RUN'') ?st = Some st' \<and>
      out st' = out ?st @ printed (?c\<lparr>at_line := 40, printed := printed ?c @ [51, 10]\<rparr>) @ (if REPL ?st then ascii ''READY.'' @ [10] else []) \<and>
      env_holds (env (?c\<lparr>at_line := 40, printed := printed ?c @ [51, 10]\<rparr>)) (vars st') \<and> last_error (vars st') = None \<and> prog st' = prog ?st \<and>
      stack_p st' = room (?c\<lparr>at_line := 40, printed := printed ?c @ [51, 10]\<rparr>))"
    by (rule for_loop_ends [OF ok(1-3) env_holds_empty source src _ _ _ vals(1,2) _ counts, where e = 20 and j = 1 and \<tau> = "?\<rho>" and p = "[]" and q = "[54, 10, 52, 10, 50, 10]"])
      (use ok(4) rounds rest vals(3) three in \<open>simp_all add: sizeof_for_def down_source_def\<close>)
  then show ?thesis using ok lines env_holdsD by (intro exI [of _ ?st]) fastforce
qed

end
