(* ===== verification/Basic_Invariant.thy ===== *)
theory Basic_Invariant
  imports Basic_Run
begin

section \<open>BASIC: the invariant of the interpreter\<close>

text \<open>
  The states the interpreter passes through, between the statements of programs that end and of programs that do not, and what holds in all of
  them of the tables, the buffers and the stack; and what the statements that take a frame from the stack do when there is none, or
  one of the other kind.
\<close>

subsection \<open>The states of the interpreter\<close>

text \<open>One round of the loop of \<^verbatim>\<open>do_run\<close> up to \<^verbatim>\<open>parse_line\<close>.\<close>

definition run_round :: "'f floats \<Rightarrow> 'f basic \<Rightarrow> (bool \<times> 'f basic) option" where
  "run_round F st = do {
     st \<leftarrow> get_sym F st;
     if sym st = T_EOF then do {
       n \<leftarrow> lines_next (prog st) (cur_line st);
       p \<leftarrow> lines_contents st n;
       let st = st\<lparr>cur_line := n, cur_cursor := p\<rparr>;
       if p = Null then Some (True, st\<lparr>RUNNING := False\<rparr>) else Some (False, start_at p st) }
     else Some (False, st) }"

lemma run_loop_rounds:
  "run_loop F parse (Suc fuel) st = (if cur_cursor st \<noteq> Null \<and> RUNNING st
     then do { (stop, st) \<leftarrow> run_round F st; if stop then Some st else do { st \<leftarrow> parse st; run_loop F parse fuel st } }
     else Some st)"
  by (cases "get_sym F st") (auto simp: run_round_def Let_def)

text \<open>
  A state is passed when a line was evaluated, and while a line is evaluated: when its first token was read, after each
  statement, at the start of \<^verbatim>\<open>RUN\<close> and in each round of its loop.  So a program that never ends passes a state after each of its statements.
\<close>

inductive passed :: "('f :: zero) floats \<Rightarrow> 'f basic \<Rightarrow> 'f basic \<Rightarrow> bool" for F st0 where
  passed_start: "passed F st0 st0"
| passed_line: "passed F st0 st \<Longrightarrow> basic_eval F fuel line st = Some st' \<Longrightarrow> passed F st0 st'"
| passed_entry: "passed F st0 st \<Longrightarrow> get_sym F (entered_in b st) = Some st' \<Longrightarrow> passed F st0 st'"
| passed_statement: "passed F st0 st \<Longrightarrow> statement F (parse_line F fuel) fuel st = Some (b, st') \<Longrightarrow> passed F st0 st'"
| passed_run: "passed F st0 st \<Longrightarrow> passed F st0 ((start_at p (st\<lparr>cur_line := n, cur_cursor := p\<rparr>))\<lparr>RUNNING := True, STOPPED := False\<rparr>)"
| passed_round: "passed F st0 st \<Longrightarrow> run_round F st = Some (b, st') \<Longrightarrow> passed F st0 st'"

lemma run_round_shape: "run_round F st = Some (b, st') \<Longrightarrow> shape st' = shape st"
proof -
  assume *: "run_round F st = Some (b, st')"
  then obtain st1 where st1: "get_sym F st = Some st1" by (auto simp: run_round_def elim: result_elims)
  then have "shape st1 = shape st" using get_sym_core shape_of_core by blast
  then show ?thesis using * st1 by (auto simp: run_round_def Let_def elim!: result_elims split: if_splits)
qed

lemma shape_keeps: "basic_ok n st \<Longrightarrow> shape st' = shape st \<Longrightarrow> basic_ok n st'"
  using basic_ok_shape by blast

lemma passed_ok: "passed F st0 st \<Longrightarrow> basic_ok n st0 \<Longrightarrow> basic_ok n st"
proof (induction rule: passed.induct)
  case (passed_line st fuel line st')
  then show ?case using basic_eval_ok by blast
next
  case (passed_entry st b st')
  have "basic_ok n (entered_in b st)"
    using passed_entry.IH [OF passed_entry.prems] by (simp add: entered_in_def basic_ok_def stack_total_def start_at_def tokenizer_init_def)
  then show ?case using only_tok_ok [OF get_sym_only_tok [OF passed_entry.hyps(2)]] by blast
next
  case (passed_statement st fuel b st')
  have "shape_keeper (parse_line F fuel)" by unfold_locales (rule parse_line_shape)
  then show ?case using passed_statement shape_keeper.statement_shape shape_keeps by blast
next
  case (passed_run st p n')
  then show ?case by (simp add: basic_ok_def stack_total_def start_at_def tokenizer_init_def)
next
  case (passed_round st b st')
  then show ?case using run_round_shape shape_keeps by blast
qed

subsection \<open>A keyword as the whole line\<close>

lemma eval_keyword:
  assumes "basic_ok n st" and "i < length registrations" and "registrations ! i = keyword w f"
    and "is_cstring (ascii w)" and "length w < tokenizer_string_length" and "\<not> isspace (last (ascii w))" and "\<not> is_empty (ascii w)" and "\<not> is_comment (ascii w)"
  obtains st1 where "only_tok (entered (ascii w) st) st1" and "sym st1 = basic_token_id i"
    and "\<And>fuel. basic_eval F fuel (ascii w) st = parse_line F fuel st1"
    and "\<And>parse fuel. \<exists>st2. only_tok (entered (ascii w) st) st2 \<and> sym st2 = T_EOF \<and>
      statement F parse fuel st1 = do { st \<leftarrow> call_keyword F parse fuel f st2; Some (last_error (vars st) = None, st) }"
proof -
  have w: "ascii w = ascii (words ! (12 + i))" "length (ascii w) < tokenizer_string_length"
    using assms(2,3,5) by (simp_all add: words_def nth_append length_ascii)
  obtain st1 where st1: "get_sym F (entered (ascii w) st) = Some st1" "reads F st1 [Word (12 + i), End_of_line]" "only_tok (entered (ascii w) st) st1"
    by (rule entered_word [OF assms(1,2) w])
  have sym: "sym st1 = basic_token_id i" using reads_sym [OF st1(2)] keyword_token_number [OF assms(2)] by simp
  then have "sym st1 \<noteq> T_NUMBER" by (simp add: keyword_defs)
  note eval = eval_text [OF assms(4) w(2) assms(6-8) st1(1) this]
  have ok: "basic_ok n st1" using only_tok_ok [OF st1(3)] assms(1) by simp
  have "\<exists>st2. only_tok (entered (ascii w) st) st2 \<and> sym st2 = T_EOF \<and>
      statement F parse fuel st1 = do { st \<leftarrow> call_keyword F parse fuel f st2; Some (last_error (vars st) = None, st) }" for parse fuel
  proof -
    obtain st2 where "reads F st2 [End_of_line]" "only_tok st1 st2"
        "statement F parse fuel st1 = do { st \<leftarrow> call_keyword F parse fuel f st2; Some (last_error (vars st) = None, st) }"
      by (rule statement_word [OF ok st1(2) assms(2,3)]) (simp_all add: token_defs)
    then show ?thesis using only_tok_trans [OF st1(3)] reads_sym [of F st2 End_of_line "[]"] by auto
  qed
  then show thesis using that st1(3) sym eval by blast
qed

text \<open>RETURN and NEXT take the frame on top of the stack; \<open>wrong\<close> is the error when it is of the other kind.\<close>

lemma frame_keyword:
  assumes "basic_ok n st" and "i < length registrations" and "registrations ! i = keyword w f"
    and "is_cstring (ascii w)" and "length w < tokenizer_string_length" and "\<not> isspace (last (ascii w))" and "\<not> is_empty (ascii w)" and "\<not> is_comment (ascii w)"
    and f: "\<And>parse fuel st. sym st = T_EOF \<Longrightarrow> call_keyword F parse fuel f st = (case stack_frames st of [] \<Rightarrow> None | x # _ \<Rightarrow> if other x then Some (raise wrong st) else g x st)"
  shows "case stack_frames st of
      [] \<Rightarrow> basic_eval F k (ascii w) st = None
    | x # _ \<Rightarrow> other x \<longrightarrow> (\<exists>st'. basic_eval F (Suc k) (ascii w) st = Some st' \<and> last_error (vars st') = Some wrong \<and>
        stack_frames st' = stack_frames st \<and> stack_p st' = stack_p st)"
proof -
  obtain st1 where st1: "only_tok (entered (ascii w) st) st1" "sym st1 = basic_token_id i" "\<And>fuel. basic_eval F fuel (ascii w) st = parse_line F fuel st1"
    "\<And>parse fuel. \<exists>st2. only_tok (entered (ascii w) st) st2 \<and> sym st2 = T_EOF \<and>
      statement F parse fuel st1 = do { st \<leftarrow> call_keyword F parse fuel f st2; Some (last_error (vars st) = None, st) }"
    by (rule eval_keyword [OF assms(1-8), of F]) blast
  have same: "stack_frames st2 = stack_frames st \<and> stack_p st2 = stack_p st" if "only_tok (entered (ascii w) st) st2" for st2
    using that by (auto simp: only_tok_def entered_def entered_in_def start_at_def)
  have step: "parse_line F (Suc k) st1 = do { (ok, st) \<leftarrow> statement F (parse_line F k) k st1; if ok then parse_line F k st else Some st }" for k
    using st1(2) by (simp add: keyword_defs)
  show ?thesis
  proof (cases "stack_frames st")
    case Nil
    have "parse_line F k st1 = None"
    proof (cases k)
      case (Suc k')
      obtain st2 where "only_tok (entered (ascii w) st) st2" "sym st2 = T_EOF"
        "statement F (parse_line F k') k' st1 = do { st \<leftarrow> call_keyword F (parse_line F k') k' f st2; Some (last_error (vars st) = None, st) }"
        using st1(4) by blast
      then show ?thesis using step [of k'] f [of st2] same [of st2] Nil Suc by simp
    qed simp
    then show ?thesis using Nil st1(3) by simp
  next
    case (Cons x fs)
    obtain st2 where st2: "only_tok (entered (ascii w) st) st2" "sym st2 = T_EOF"
      "statement F (parse_line F k) k st1 = do { st \<leftarrow> call_keyword F (parse_line F k) k f st2; Some (last_error (vars st) = None, st) }"
      using st1(4) by blast
    have "basic_eval F (Suc k) (ascii w) st = Some (raise wrong st2)" if "other x"
      using step [of k] f [of st2] same [of st2] st2 Cons st1(3) that by (simp add: raise_def error_def)
    then show ?thesis using same [OF st2(1)] Cons by (auto simp: raise_def error_def)
  qed
qed

fun is_for :: "'f stack_frame \<Rightarrow> bool" where
  "is_for (For_frame _ _ _ _ _) = True"
| "is_for (Gosub_frame _ _) = False"

lemma return_line:
  assumes "basic_ok n st"
  shows "case stack_frames st of [] \<Rightarrow> basic_eval F k (ascii ''RETURN'') st = None
    | x # _ \<Rightarrow> is_for x \<longrightarrow> (\<exists>st'. basic_eval F (Suc k) (ascii ''RETURN'') st = Some st' \<and> last_error (vars st') = Some ''EXPECTED GOSUB STACK FRAME'' \<and>
        stack_frames st' = stack_frames st \<and> stack_p st' = stack_p st)"
  by (rule frame_keyword [OF assms _ registered(3), where g = "\<lambda>x st. do_return F st"])
    (auto simp: length_registrations ascii_def is_cstring_def tokenizer_string_length_def isspace_def is_empty_def is_comment_def
      call_keyword_def do_return_def accept_skip token_defs t_keyword_return_def basic_token_id_def split: list.splits stack_frame.splits)

lemma next_line:
  assumes "basic_ok n st"
  shows "case stack_frames st of [] \<Rightarrow> basic_eval F k (ascii ''NEXT'') st = None
    | x # _ \<Rightarrow> \<not> is_for x \<longrightarrow> (\<exists>st'. basic_eval F (Suc k) (ascii ''NEXT'') st = Some st' \<and> last_error (vars st') = Some ''EXPECTED FOR STACK FRAME'' \<and>
        stack_frames st' = stack_frames st \<and> stack_p st' = stack_p st)"
  by (rule frame_keyword [OF assms _ registered(7), where g = "\<lambda>x st. do_next F st"])
    (auto simp: length_registrations ascii_def is_cstring_def tokenizer_string_length_def isspace_def is_empty_def is_comment_def
      call_keyword_def do_next_def accept_skip token_defs t_keyword_next_def basic_token_id_def split: list.splits stack_frame.splits)

text \<open>C8. After \<^verbatim>\<open>basic_init\<close> succeeded, in every state that the interpreter passes through, after every line and, while a
  line runs a program, after every statement of it whether the program ends or not, the token table and the function table
  are the ones that were registered, the buffers of the tokenizer keep their size, and the free part of the
  stack block and the frames on it make up exactly the block that was allocated, so that the frames
  never leave it.  The invariant stops at undefined behaviour, and on the stack this is where: with no frame on the stack RETURN and NEXT have no
  defined result, since the code then reads the frame behind the block; with a frame of the other kind on top they are an error and leave the stack alone.\<close>

theorem interpreter_invariant:
  assumes "length (tokenizer_actual_string (tok st)) = tokenizer_string_length"
    and "length (tokenizer_actual_variable (tok st)) = tokenizer_variable_length"
    and "3 \<le> length m"
  shows "\<exists>st0. basic_init (Some m) n True True st = Some st0 \<and>
    (\<forall>st'. passed F st0 st' \<longrightarrow>
       holds_entries (token_array (tok st')) all_tokens \<and> holds_entries (basic_functions st') all_functions \<and>
       length (tokenizer_actual_string (tok st')) = 64 \<and> length (tokenizer_actual_variable (tok st')) = 8 \<and>
       stack_p st' + sum_list (map frame_size (stack_frames st')) = n \<and> 24 * length (stack_frames st') \<le> n \<and>
       (\<forall>k. case stack_frames st' of
          [] \<Rightarrow> basic_eval F k (ascii ''RETURN'') st' = None \<and> basic_eval F k (ascii ''NEXT'') st' = None
        | For_frame _ _ _ _ _ # _ \<Rightarrow> (\<exists>st''. basic_eval F (Suc k) (ascii ''RETURN'') st' = Some st'' \<and>
            last_error (vars st'') = Some ''EXPECTED GOSUB STACK FRAME'' \<and> stack_frames st'' = stack_frames st' \<and> stack_p st'' = stack_p st')
        | Gosub_frame _ _ # _ \<Rightarrow> (\<exists>st''. basic_eval F (Suc k) (ascii ''NEXT'') st' = Some st'' \<and>
            last_error (vars st'') = Some ''EXPECTED FOR STACK FRAME'' \<and> stack_frames st'' = stack_frames st' \<and> stack_p st'' = stack_p st')))"
proof -
  obtain st0 where st0: "basic_init (Some m) n True True st = Some st0" "basic_ok n st0"
    using basic_init_tables [OF assms] by blast
  have ok: "basic_ok n st'" if "passed F st0 st'" for st' using passed_ok [OF that st0(2)] .
  show ?thesis using st0(1) ok basic_ok_facts return_line next_line by (fastforce split: list.splits stack_frame.splits)
qed

theorem interpreter_invariant_witness:
  "\<exists>st0. basic_init (Some (replicate 400 7)) 2048 True True blank_state = Some st0 \<and> stack_frames st0 = [] \<and> stack_p st0 = 2048 \<and>
    length (tokenizer_actual_string (tok st0)) = 64 \<and> basic_eval int_floats 9 (ascii ''RETURN'') st0 = None \<and> basic_eval int_floats 9 (ascii ''NEXT'') st0 = None"
proof -
  have m: "3 \<le> length (replicate 400 (7 :: byte))" by simp
  obtain st0 where st0: "basic_init (Some (replicate 400 7)) 2048 True True blank_state = Some st0" "stack_frames st0 = []"
    using basic_init_tables [OF blank_buffers m, of 2048] by blast
  show ?thesis
    using interpreter_invariant [OF blank_buffers m, of 2048 int_floats] st0 passed_start [of int_floats st0] by (intro exI [of _ st0]) fastforce
qed

end
