(* ===== verification/Microrl_History.thy ===== *)
theory Microrl_History
  imports Prelude
begin

section \<open>microrl: the history ring buffer\<close>

text \<open>
  Model of the history part of \<^verbatim>\<open>src/src/components/readline/microrl/src/microrl.c\<close>.  The ring
  buffer holds records of one length byte and the characters of a line, oldest first from
  \<open>hist_begin\<close>, and a zero byte at \<open>hist_end\<close>.  The length bytes are at most 62, so whether
  \<^verbatim>\<open>char\<close> is signed plays no role.  The while loops follow the length bytes of the buffer and would
  not stop on an arbitrary buffer; they carry fuel \<open>RING_HISTORY_LEN\<close>, which the refinement shows to
  be enough.
\<close>

subsection \<open>Data and operations\<close>

definition RING_HISTORY_LEN :: nat where
  "RING_HISTORY_LEN = 64"

definition COMMAND_LINE_LEN :: nat where
  "COMMAND_LINE_LEN = 101"

record ring_history =
  ring_buf :: "byte list"
  hist_begin :: nat
  hist_end :: nat
  hist_cur :: nat

datatype hist_dir = HIST_UP | HIST_DOWN

text \<open>\<^verbatim>\<open>if (p >= _RING_HISTORY_LEN) p -= _RING_HISTORY_LEN;\<close>\<close>

definition hist_wrap :: "nat \<Rightarrow> nat" where
  "hist_wrap p = (if p \<ge> RING_HISTORY_LEN then p - RING_HISTORY_LEN else p)"

definition hist_erase_older :: "ring_history \<Rightarrow> ring_history option" where
  "hist_erase_older h = do {
     n \<leftarrow> load (ring_buf h) (hist_begin h);
     Some (h\<lparr>hist_begin := hist_wrap (hist_begin h + unat n + 1)\<rparr>) }"

definition hist_is_space_for_new :: "ring_history \<Rightarrow> nat \<Rightarrow> bool option" where
  "hist_is_space_for_new h len = do {
     n \<leftarrow> load (ring_buf h) (hist_begin h);
     Some (if n = 0 then True
           else if hist_end h \<ge> hist_begin h
           then int RING_HISTORY_LEN - int (hist_end h) + int (hist_begin h) - 1 > int len
           else int (hist_begin h) - int (hist_end h) - 1 > int len) }"

fun erase_loop :: "nat \<Rightarrow> ring_history \<Rightarrow> nat \<Rightarrow> ring_history option" where
  "erase_loop 0 h len = None"
| "erase_loop (Suc fuel) h len = do {
     space \<leftarrow> hist_is_space_for_new h len;
     if space then Some h
     else do { h \<leftarrow> hist_erase_older h; erase_loop fuel h len } }"

text \<open>The two copies of a line that may wrap around the end of the buffer.\<close>

definition ring_store :: "byte list \<Rightarrow> nat \<Rightarrow> byte list \<Rightarrow> nat \<Rightarrow> byte list option" where
  "ring_store buf e line len =
     (if int len < int RING_HISTORY_LEN - int e - 1
      then memcpy buf (e + 1) line 0 len
      else do {
        let part_len = RING_HISTORY_LEN - e - 1;
        buf \<leftarrow> memcpy buf (e + 1) line 0 part_len;
        memcpy buf 0 line part_len (len - part_len) })"

definition hist_save_line :: "ring_history \<Rightarrow> byte list \<Rightarrow> nat \<Rightarrow> ring_history option" where
  "hist_save_line h line len =
     (if len > RING_HISTORY_LEN - 2 then Some h
      else do {
        h \<leftarrow> erase_loop RING_HISTORY_LEN h len;
        first \<leftarrow> load (ring_buf h) (hist_begin h);
        buf \<leftarrow> (if first = 0 then store (ring_buf h) (hist_begin h) (of_nat len) else Some (ring_buf h));
        buf \<leftarrow> ring_store buf (hist_end h) line len;
        buf \<leftarrow> store buf (hist_end h) (of_nat len);
        let e = hist_wrap (hist_end h + len + 1);
        buf \<leftarrow> store buf e 0;
        Some (h\<lparr>ring_buf := buf, hist_end := e, hist_cur := 0\<rparr>) })"

fun count_loop :: "nat \<Rightarrow> byte list \<Rightarrow> nat \<Rightarrow> nat \<Rightarrow> nat option" where
  "count_loop 0 buf header cnt = None"
| "count_loop (Suc fuel) buf header cnt = do {
     n \<leftarrow> load buf header;
     if n \<noteq> 0 then count_loop fuel buf (hist_wrap (header + unat n + 1)) (cnt + 1)
     else Some cnt }"

text \<open>The search for the record of index \<open>cur\<close>; \<open>k\<close> is \<open>cnt - j - 1\<close> going up and \<open>cnt - j\<close> going
  down.\<close>

fun find_loop :: "nat \<Rightarrow> byte list \<Rightarrow> nat \<Rightarrow> int \<Rightarrow> nat \<Rightarrow> nat option" where
  "find_loop 0 buf header k cur = None"
| "find_loop (Suc fuel) buf header k cur = do {
     n \<leftarrow> load buf header;
     if n \<noteq> 0 \<and> k \<noteq> int cur
     then find_loop fuel buf (hist_wrap (header + unat n + 1)) (k - 1) cur
     else Some header }"

definition obtain_line :: "byte list \<Rightarrow> nat \<Rightarrow> byte list \<Rightarrow> byte list option" where
  "obtain_line buf header line = do {
     n \<leftarrow> load buf header;
     if unat n + header < RING_HISTORY_LEN
     then memcpy line 0 buf (header + 1) (unat n)
     else do {
       let part0 = RING_HISTORY_LEN - header - 1;
       line \<leftarrow> memcpy line 0 buf (header + 1) part0;
       memcpy line part0 buf 0 (unat n - part0) } }"

text \<open>The result is the returned length, \<open>None\<close> for -1, with the history and the line buffer.\<close>

definition hist_restore_line ::
  "ring_history \<Rightarrow> byte list \<Rightarrow> hist_dir \<Rightarrow> (nat option \<times> ring_history \<times> byte list) option" where
  "hist_restore_line h line dir = do {
     cnt \<leftarrow> count_loop RING_HISTORY_LEN (ring_buf h) (hist_begin h) 0;
     case dir of
       HIST_UP \<Rightarrow>
         if cnt \<ge> hist_cur h
         then do {
           header \<leftarrow> find_loop RING_HISTORY_LEN (ring_buf h) (hist_begin h) (int cnt - 1) (hist_cur h);
           n \<leftarrow> load (ring_buf h) header;
           if n \<noteq> 0
           then do {
             line \<leftarrow> memset line 0 0 COMMAND_LINE_LEN;
             line \<leftarrow> obtain_line (ring_buf h) header line;
             Some (Some (unat n), h\<lparr>hist_cur := hist_cur h + 1\<rparr>, line) }
           else Some (None, h, line) }
         else Some (None, h, line)
     | HIST_DOWN \<Rightarrow>
         if hist_cur h > 0
         then do {
           let cur = hist_cur h - 1;
           header \<leftarrow> find_loop RING_HISTORY_LEN (ring_buf h) (hist_begin h) (int cnt) cur;
           n \<leftarrow> load (ring_buf h) header;
           line \<leftarrow> obtain_line (ring_buf h) header line;
           Some (Some (unat n), h\<lparr>hist_cur := cur\<rparr>, line) }
         else Some (Some 0, h, line) }"

subsection \<open>Abstract history\<close>

text \<open>The lines of the history, oldest first, and the position of the last recall: \<open>cur = k\<close> means
  that the \<open>k\<close>-th most recent line is shown.\<close>

fun records :: "cstring list \<Rightarrow> byte list" where
  "records [] = []"
| "records (l # ls) = of_nat (length l) # l @ records ls"

fun make_room :: "cstring list \<Rightarrow> nat \<Rightarrow> cstring list" where
  "make_room [] n = []"
| "make_room (l # ls) n =
     (if length (records (l # ls)) + n + 2 \<le> RING_HISTORY_LEN then l # ls else make_room ls n)"

definition recall_up :: "cstring list \<Rightarrow> nat \<Rightarrow> (cstring \<times> nat) option" where
  "recall_up ls cur =
     (if cur < length ls then Some (ls ! (length ls - 1 - cur), cur + 1) else None)"

definition recall_down :: "cstring list \<Rightarrow> nat \<Rightarrow> cstring \<times> nat" where
  "recall_down ls cur =
     (if cur > 1 then (ls ! (length ls - (cur - 1)), cur - 1) else ([], 0))"

definition hist_line_ok :: "cstring \<Rightarrow> bool" where
  "hist_line_ok l \<longleftrightarrow> l \<noteq> [] \<and> length l \<le> RING_HISTORY_LEN - 2"

text \<open>The bytes read circularly from a position of the ring.\<close>

definition reads :: "byte list \<Rightarrow> nat \<Rightarrow> byte list \<Rightarrow> bool" where
  "reads buf p xs \<longleftrightarrow> (\<forall>i<length xs. buf ! hist_wrap (p + i) = xs ! i)"

definition ring_holds :: "ring_history \<Rightarrow> cstring list \<Rightarrow> bool" where
  "ring_holds h ls \<longleftrightarrow> length (ring_buf h) = RING_HISTORY_LEN \<and> hist_begin h < RING_HISTORY_LEN
     \<and> list_all hist_line_ok ls \<and> length (records ls) < RING_HISTORY_LEN
     \<and> hist_end h = hist_wrap (hist_begin h + length (records ls))
     \<and> reads (ring_buf h) (hist_begin h) (records ls @ [0]) \<and> hist_cur h \<le> length ls"

subsection \<open>Reading the ring\<close>

lemma reads_Nil [simp]: "reads buf p []"
  by (simp add: reads_def)

lemma reads_append:
  assumes "p < RING_HISTORY_LEN" and "length (xs @ ys) \<le> RING_HISTORY_LEN"
  shows "reads buf p (xs @ ys) \<longleftrightarrow> reads buf p xs \<and> reads buf (hist_wrap (p + length xs)) ys"
proof -
  have w: "hist_wrap (hist_wrap (p + length xs) + j) = hist_wrap (p + (length xs + j))"
    if "j < length ys" for j
    using that assms by (auto simp: hist_wrap_def)
  have "(\<forall>i<length (xs @ ys). buf ! hist_wrap (p + i) = (xs @ ys) ! i)
    \<longleftrightarrow> (\<forall>i<length xs. buf ! hist_wrap (p + i) = xs ! i)
      \<and> (\<forall>j<length ys. buf ! hist_wrap (p + (length xs + j)) = ys ! j)"
    by (auto simp: nth_append) (metis add_diff_inverse_nat nat_add_left_cancel_less)
  then show ?thesis using w by (simp add: reads_def)
qed

lemma reads_Cons:
  assumes "p < RING_HISTORY_LEN" and "length xs < RING_HISTORY_LEN"
  shows "reads buf p (x # xs) \<longleftrightarrow> buf ! p = x \<and> reads buf (hist_wrap (p + 1)) xs"
proof -
  have "reads buf p [x] \<longleftrightarrow> buf ! p = x"
    using assms(1) by (simp add: reads_def hist_wrap_def)
  then show ?thesis using reads_append [of p "[x]" xs buf] assms by simp
qed

lemma hist_wrap_less: "p < RING_HISTORY_LEN \<Longrightarrow> n \<le> RING_HISTORY_LEN \<Longrightarrow> hist_wrap (p + n) < RING_HISTORY_LEN"
  by (auto simp: hist_wrap_def)

lemma hist_wrap_wrap:
  "p < RING_HISTORY_LEN \<Longrightarrow> n + k \<le> RING_HISTORY_LEN \<Longrightarrow>
   hist_wrap (hist_wrap (p + n) + k) = hist_wrap (p + (n + k))"
  by (auto simp: hist_wrap_def)

lemma length_byte:
  "hist_line_ok l \<Longrightarrow> unat (of_nat (length l) :: byte) = length l \<and> (of_nat (length l) :: byte) \<noteq> 0"
  by (auto simp: hist_line_ok_def RING_HISTORY_LEN_def unat_of_nat word_unat_eq_iff)

lemma records_append [simp]: "records (ls @ ls') = records ls @ records ls'"
  by (induction ls) simp_all

lemma records_long: "list_all hist_line_ok ls \<Longrightarrow> 2 * length ls \<le> length (records ls)"
proof (induction ls)
  case (Cons l ls)
  then have "1 \<le> length l" by (cases l) (auto simp: hist_line_ok_def)
  with Cons show ?case by simp
qed simp

text \<open>A ring read from the header of its first record.\<close>

lemma reads_record:
  assumes "p < RING_HISTORY_LEN" and "length (records (l # ls)) < RING_HISTORY_LEN"
    and "reads buf p (records (l # ls) @ [0])"
  shows "buf ! p = of_nat (length l)" and "reads buf (hist_wrap (p + 1)) l"
    and "reads buf (hist_wrap (p + length l + 1)) (records ls @ [0])"
proof -
  have *: "buf ! p = of_nat (length l) \<and> reads buf (hist_wrap (p + 1)) (l @ records ls @ [0])"
    using assms reads_Cons [of p "l @ records ls @ [0]" buf] by simp
  moreover have "hist_wrap (p + 1) < RING_HISTORY_LEN"
    using assms(1) by (intro hist_wrap_less) (simp_all add: RING_HISTORY_LEN_def)
  ultimately show "buf ! p = of_nat (length l)" "reads buf (hist_wrap (p + 1)) l"
    "reads buf (hist_wrap (p + length l + 1)) (records ls @ [0])"
    using assms(1,2) reads_append [of "hist_wrap (p + 1)" l "records ls @ [0]" buf]
      hist_wrap_wrap [of p 1 "length l"] by (simp_all add: add.commute add.assoc)
qed

lemma reads_end:
  assumes "p < RING_HISTORY_LEN" and "reads buf p (records [] @ [0])"
  shows "buf ! p = 0"
  using assms reads_Cons [of p "[]" buf] by (simp add: RING_HISTORY_LEN_def)

lemma count_loop_records:
  assumes "length buf = RING_HISTORY_LEN" and "p < RING_HISTORY_LEN" and "list_all hist_line_ok ls"
    and "length (records ls) < RING_HISTORY_LEN" and "reads buf p (records ls @ [0])"
    and "length ls < fuel"
  shows "count_loop fuel buf p cnt = Some (cnt + length ls)"
  using assms(2-)
proof (induction ls arbitrary: p cnt fuel)
  case Nil
  then show ?case using assms(1) reads_end [of p buf] by (cases fuel) simp_all
next
  case (Cons l ls)
  obtain f where f: "fuel = Suc f" using Cons.prems(5) by (cases fuel) auto
  have l: "hist_line_ok l" "list_all hist_line_ok ls" using Cons.prems(2) by simp_all
  note r = reads_record [OF Cons.prems(1,3,4)]
  have "count_loop f buf (hist_wrap (p + length l + 1)) (cnt + 1) = Some (cnt + 1 + length ls)"
    using Cons.prems l r hist_wrap_less [of p "length l + 1"] f
    by (intro Cons.IH) (simp_all add: add.assoc)
  then show ?case
    using f r(1) length_byte [OF l(1)] Cons.prems(1) assms(1) by simp
qed

text \<open>Where the header search stops: at the record \<open>m\<close> steps on, or at the end of the records.\<close>

lemma find_loop_records:
  assumes "length buf = RING_HISTORY_LEN" and "p < RING_HISTORY_LEN" and "list_all hist_line_ok ls"
    and "length (records ls) < RING_HISTORY_LEN" and "reads buf p (records ls @ [0])"
    and "length ls < fuel"
    and "(m \<le> length ls \<and> k = int cur + int m) \<or> (m = length ls \<and> k < int cur)"
  shows "find_loop fuel buf p k cur = Some (hist_wrap (p + length (records (take m ls))))
    \<and> reads buf (hist_wrap (p + length (records (take m ls)))) (records (drop m ls) @ [0])"
  using assms(2-)
proof (induction ls arbitrary: p k m fuel)
  case Nil
  then show ?case using assms(1) reads_end [of p buf] by (cases fuel) (simp_all add: hist_wrap_def)
next
  case (Cons l ls)
  obtain f where f: "fuel = Suc f" using Cons.prems(5) by (cases fuel) auto
  have l: "hist_line_ok l" "list_all hist_line_ok ls" using Cons.prems(2) by simp_all
  note r = reads_record [OF Cons.prems(1,3,4)]
  show ?case
  proof (cases m)
    case 0
    then show ?thesis using Cons.prems f r(1) assms(1) by (auto simp: hist_wrap_def)
  next
    case (Suc m')
    let ?p = "hist_wrap (p + length l + 1)"
    have IH: "find_loop f buf ?p (k - 1) cur = Some (hist_wrap (?p + length (records (take m' ls))))
      \<and> reads buf (hist_wrap (?p + length (records (take m' ls)))) (records (drop m' ls) @ [0])"
      using Cons.prems l r hist_wrap_less [of p "length l + 1"] f Suc
      by (intro Cons.IH) (auto simp: add.assoc)
    have "length (records (take m' ls)) \<le> length (records ls)"
      by (metis append_take_drop_id le_add1 length_append records_append)
    then have "hist_wrap (?p + length (records (take m' ls)))
        = hist_wrap (p + length (records (take m (l # ls))))"
      using hist_wrap_wrap [of p "length l + 1" "length (records (take m' ls))"] Cons.prems(1,3) Suc
      by (simp add: add.assoc add.commute add.left_commute)
    then show ?thesis
      using IH f r(1) length_byte [OF l(1)] Cons.prems assms(1) Suc by auto
  qed
qed

lemma obtain_line_record:
  assumes "length buf = RING_HISTORY_LEN" and "p < RING_HISTORY_LEN"
    and "unat (buf ! p) = length l" and "length l \<le> RING_HISTORY_LEN - 2"
    and "reads buf (hist_wrap (p + 1)) l" and "length l \<le> length line"
  shows "obtain_line buf p line = Some (l @ drop (length l) line)"
proof -
  have nth: "buf ! hist_wrap (p + 1 + i) = l ! i" if "i < length l" for i
    using assms(2,4,5) that hist_wrap_wrap [of p 1 i] by (auto simp: reads_def add.assoc)
  show ?thesis
  proof (cases "length l + p < RING_HISTORY_LEN")
    case True
    have "take (length l) (drop (p + 1) buf) = l"
      using True assms(1,2) nth by (auto intro!: nth_equalityI simp: hist_wrap_def)
    with True assms show ?thesis
      by (simp add: obtain_line_def memcpy_def blit_def)
  next
    case False
    define k where "k = RING_HISTORY_LEN - p - 1"
    have k: "k \<le> length l" "p + 1 + k = RING_HISTORY_LEN" "length l \<le> RING_HISTORY_LEN"
      using False assms(2,4) by (auto simp: k_def)
    have one: "take k (drop (p + 1) buf) = take k l"
    proof (rule nth_equalityI)
      fix i assume "i < length (take k (drop (p + 1) buf))"
      then have "i < length l" "i < k" "p + 1 + i < RING_HISTORY_LEN" using k by auto
      with nth [of i] show "take k (drop (p + 1) buf) ! i = take k l ! i"
        using k assms(1) by (simp add: hist_wrap_def)
    qed (use k assms(1) in auto)
    have two: "take (length l - k) buf = drop k l"
    proof (rule nth_equalityI)
      fix i assume "i < length (take (length l - k) buf)"
      then have i: "k + i < length l" "i < length l - k" by auto
      have "hist_wrap (p + 1 + (k + i)) = i" using k by (simp add: hist_wrap_def)
      with nth [OF i(1)] i(2) show "take (length l - k) buf ! i = drop k l ! i"
        using k by simp
    qed (use k assms(1) in auto)
    have "obtain_line buf p line = do {
        line \<leftarrow> memcpy line 0 buf (p + 1) k; memcpy line k buf 0 (length l - k) }"
      using False assms(1-3) by (simp add: obtain_line_def k_def Let_def)
    also have "\<dots> = Some (l @ drop (length l) line)"
      using one two k assms(1,6) by (simp add: memcpy_def blit_def)
    finally show ?thesis .
  qed
qed

lemma ring_holds_count:
  "ring_holds h ls \<Longrightarrow> count_loop RING_HISTORY_LEN (ring_buf h) (hist_begin h) 0 = Some (length ls)
    \<and> length ls < RING_HISTORY_LEN"
  using records_long [of ls] count_loop_records [of "ring_buf h" "hist_begin h" ls RING_HISTORY_LEN 0]
  by (auto simp: ring_holds_def)

text \<open>The record a search ends at, read into a line buffer.\<close>

lemma find_obtain:
  assumes "ring_holds h ls" and "m < length ls" and "k = int cur + int m"
    and "length line = COMMAND_LINE_LEN"
  shows "\<exists>header. find_loop RING_HISTORY_LEN (ring_buf h) (hist_begin h) k cur = Some header
    \<and> load (ring_buf h) header = Some (of_nat (length (ls ! m)))
    \<and> obtain_line (ring_buf h) header line = Some (ls ! m @ drop (length (ls ! m)) line)"
proof -
  let ?p = "hist_wrap (hist_begin h + length (records (take m ls)))"
  have h: "length (ring_buf h) = RING_HISTORY_LEN" "hist_begin h < RING_HISTORY_LEN"
    "list_all hist_line_ok ls" "length (records ls) < RING_HISTORY_LEN"
    "reads (ring_buf h) (hist_begin h) (records ls @ [0])"
    using assms(1) by (simp_all add: ring_holds_def)
  have split: "ls = take m ls @ ls ! m # drop (Suc m) ls" "drop m ls = ls ! m # drop (Suc m) ls"
    using assms(2) by (simp_all add: id_take_nth_drop Cons_nth_drop_Suc)
  have len: "length (records ls) = length (records (take m ls)) + length (records (drop m ls))"
    by (metis append_take_drop_id length_append records_append)
  have ok: "hist_line_ok (ls ! m)" using h(3) assms(2) by (simp add: list_all_length)
  have find: "find_loop RING_HISTORY_LEN (ring_buf h) (hist_begin h) k cur = Some ?p"
    "reads (ring_buf h) ?p (records (ls ! m # drop (Suc m) ls) @ [0])"
    using find_loop_records [OF h, of RING_HISTORY_LEN m k cur] ring_holds_count [OF assms(1)] assms(2,3)
    unfolding split(2) by auto
  have p: "?p < RING_HISTORY_LEN" using h(2,4) len by (intro hist_wrap_less) auto
  have small: "length (records (ls ! m # drop (Suc m) ls)) < RING_HISTORY_LEN"
    using h(4) len unfolding split(2) by simp
  note r = reads_record [OF p small find(2)]
  show ?thesis
    using find(1) r(1) h(1) p length_byte [OF ok] ok assms(4)
      obtain_line_record [OF h(1) p _ _ r(2), of line]
    by (auto simp: hist_line_ok_def RING_HISTORY_LEN_def COMMAND_LINE_LEN_def)
qed

lemma find_end:
  assumes "ring_holds h ls" and "k = int cur + int (length ls) \<or> k < int cur"
    and "length line = COMMAND_LINE_LEN"
  shows "\<exists>header. find_loop RING_HISTORY_LEN (ring_buf h) (hist_begin h) k cur = Some header
    \<and> load (ring_buf h) header = Some 0 \<and> obtain_line (ring_buf h) header line = Some line"
proof -
  let ?p = "hist_wrap (hist_begin h + length (records ls))"
  have h: "length (ring_buf h) = RING_HISTORY_LEN" "hist_begin h < RING_HISTORY_LEN"
    "list_all hist_line_ok ls" "length (records ls) < RING_HISTORY_LEN"
    "reads (ring_buf h) (hist_begin h) (records ls @ [0])"
    using assms(1) by (simp_all add: ring_holds_def)
  have find: "find_loop RING_HISTORY_LEN (ring_buf h) (hist_begin h) k cur = Some ?p"
    "reads (ring_buf h) ?p (records [] @ [0])"
    using find_loop_records [OF h, of RING_HISTORY_LEN "length ls" k cur] ring_holds_count [OF assms(1)]
      assms(2) by auto
  have p: "?p < RING_HISTORY_LEN" using h(2,4) by (intro hist_wrap_less) auto
  have "ring_buf h ! ?p = 0" using reads_end [OF p find(2)] .
  then show ?thesis
    using find(1) h(1) p obtain_line_record [OF h(1) p, of "[]" line] by simp
qed

lemma hist_restore_up:
  assumes "ring_holds h ls" and "length line = COMMAND_LINE_LEN"
  shows "hist_restore_line h line HIST_UP =
    (case recall_up ls (hist_cur h) of
       None \<Rightarrow> Some (None, h, line)
     | Some (l, c) \<Rightarrow> Some (Some (length l), h\<lparr>hist_cur := c\<rparr>,
         l @ replicate (COMMAND_LINE_LEN - length l) 0))"
proof (cases "hist_cur h < length ls")
  case True
  let ?m = "length ls - 1 - hist_cur h" and ?z = "replicate COMMAND_LINE_LEN 0"
  have m: "?m < length ls" using True by linarith
  have ok: "hist_line_ok (ls ! ?m)"
    using assms(1) True by (simp add: ring_holds_def list_all_length)
  obtain header where
    "find_loop RING_HISTORY_LEN (ring_buf h) (hist_begin h) (int (length ls) - 1) (hist_cur h) = Some header"
    "load (ring_buf h) header = Some (of_nat (length (ls ! ?m)))"
    "obtain_line (ring_buf h) header ?z = Some (ls ! ?m @ drop (length (ls ! ?m)) ?z)"
    using find_obtain [OF assms(1) m, of "int (length ls) - 1" "hist_cur h" ?z] True by auto
  then show ?thesis
    using True ring_holds_count [OF assms(1)] assms(2) length_byte [OF ok]
    by (simp add: hist_restore_line_def recall_up_def memset_def blit_def)
next
  case False
  then have cur: "hist_cur h = length ls" using assms(1) by (simp add: ring_holds_def)
  obtain header where
    "find_loop RING_HISTORY_LEN (ring_buf h) (hist_begin h) (int (length ls) - 1) (hist_cur h) = Some header"
    "load (ring_buf h) header = Some 0"
    using find_end [OF assms(1) _ assms(2), of "int (length ls) - 1" "hist_cur h"] cur by auto
  then show ?thesis
    using ring_holds_count [OF assms(1)] cur by (simp add: hist_restore_line_def recall_up_def)
qed

lemma hist_restore_down:
  assumes "ring_holds h ls" and "length line = COMMAND_LINE_LEN"
  shows "hist_restore_line h line HIST_DOWN =
    (let (l, c) = recall_down ls (hist_cur h) in
     Some (Some (length l), h\<lparr>hist_cur := c\<rparr>, l @ drop (length l) line))"
proof -
  note n = ring_holds_count [OF assms(1)]
  have cur: "hist_cur h \<le> length ls" using assms(1) by (simp add: ring_holds_def)
  consider "hist_cur h = 0" | "hist_cur h = 1" | "hist_cur h > 1" by linarith
  then show ?thesis
  proof cases
    case 1
    then show ?thesis
      using n by (simp add: hist_restore_line_def recall_down_def)
  next
    case 2
    obtain header where
      "find_loop RING_HISTORY_LEN (ring_buf h) (hist_begin h) (int (length ls)) 0 = Some header"
      "load (ring_buf h) header = Some 0" "obtain_line (ring_buf h) header line = Some line"
      using find_end [OF assms(1) _ assms(2), of "int (length ls)" 0] by auto
    then show ?thesis using n 2 by (simp add: hist_restore_line_def recall_down_def)
  next
    case 3
    let ?m = "length ls - (hist_cur h - 1)"
    have m: "?m < length ls" using 3 cur by linarith
    have ok: "hist_line_ok (ls ! ?m)"
      using assms(1) 3 cur by (simp add: ring_holds_def list_all_length)
    obtain header where
      "find_loop RING_HISTORY_LEN (ring_buf h) (hist_begin h) (int (length ls)) (hist_cur h - 1) = Some header"
      "load (ring_buf h) header = Some (of_nat (length (ls ! ?m)))"
      "obtain_line (ring_buf h) header line = Some (ls ! ?m @ drop (length (ls ! ?m)) line)"
      using find_obtain [OF assms(1) m _ assms(2), of "int (length ls)" "hist_cur h - 1"] 3 cur
      by auto
    then show ?thesis
      using n 3 length_byte [OF ok] by (simp add: hist_restore_line_def recall_down_def)
  qed
qed

subsection \<open>Writing the ring\<close>

lemma hist_wrap_inj:
  "b < RING_HISTORY_LEN \<Longrightarrow> i < RING_HISTORY_LEN \<Longrightarrow> j < RING_HISTORY_LEN \<Longrightarrow>
   hist_wrap (b + i) = hist_wrap (b + j) \<longleftrightarrow> i = j"
  by (auto simp: hist_wrap_def)

lemma ring_store_nth:
  assumes "length buf = RING_HISTORY_LEN" and "e < RING_HISTORY_LEN"
    and "len < RING_HISTORY_LEN" and "len \<le> length line"
  shows "\<exists>buf'. ring_store buf e line len = Some buf' \<and> length buf' = RING_HISTORY_LEN
    \<and> (\<forall>j<RING_HISTORY_LEN. buf' ! j =
         (if e < j \<and> j \<le> e + len then line ! (j - e - 1)
          else if RING_HISTORY_LEN + j \<le> e + len then line ! (RING_HISTORY_LEN + j - e - 1)
          else buf ! j))"
proof (cases "len + e + 1 < RING_HISTORY_LEN")
  case True
  then have "ring_store buf e line len
      = Some (take (e + 1) buf @ take len line @ drop (e + 1 + len) buf)"
    using assms by (simp add: ring_store_def memcpy_def blit_def min_def)
  with True show ?thesis
    using assms by (auto simp: nth_append min_def)
next
  case False
  define k where "k = RING_HISTORY_LEN - e - 1"
  have k: "k \<le> len" "e + 1 + k = RING_HISTORY_LEN" using False assms(2) by (auto simp: k_def)
  have "ring_store buf e line len = do {
      buf \<leftarrow> memcpy buf (e + 1) line 0 k; memcpy buf 0 line k (len - k) }"
    using False assms(2) by (simp add: ring_store_def k_def Let_def)
  also have "\<dots> = Some (take (len - k) (drop k line)
      @ drop (len - k) (take (e + 1) buf @ take k line))"
    using k assms by (simp add: memcpy_def blit_def min_absorb1 min_absorb2)
  finally have store: "ring_store buf e line len = Some (take (len - k) (drop k line)
      @ drop (len - k) (take (e + 1) buf @ take k line))" .
  have "(take (len - k) (drop k line) @ drop (len - k) (take (e + 1) buf @ take k line)) ! j =
         (if e < j \<and> j \<le> e + len then line ! (j - e - 1)
          else if RING_HISTORY_LEN + j \<le> e + len then line ! (RING_HISTORY_LEN + j - e - 1)
          else buf ! j)" if "j < RING_HISTORY_LEN" for j
  proof -
    consider "j < len - k" | "len - k \<le> j" "j \<le> e" | "e < j" using that by linarith
    then show ?thesis
    proof cases
      case 1
      then have "RING_HISTORY_LEN + j - e - 1 = k + j" "RING_HISTORY_LEN + j \<le> e + len" "\<not> e < j"
        using k assms(3) by linarith+
      with 1 show ?thesis using assms(4) by (simp add: nth_append)
    next
      case 2
      then show ?thesis using k assms by (auto simp: nth_append)
    next
      case 3
      then have "j + k - RING_HISTORY_LEN = j - Suc e" "j \<le> e + len" "j - e - 1 < k"
        "\<not> j < len - k" using k that assms(3) by linarith+
      with 3 show ?thesis using k assms that by (auto simp: nth_append min_absorb2)
    qed
  qed
  with store show ?thesis
    using k assms by (auto simp: min_absorb1 min_absorb2)
qed

lemma ring_store_at:
  assumes "length buf = RING_HISTORY_LEN" and "b < RING_HISTORY_LEN"
    and "u + len + 1 < RING_HISTORY_LEN" and "len \<le> length line"
  shows "\<exists>buf'. ring_store buf (hist_wrap (b + u)) line len = Some buf' \<and> length buf' = RING_HISTORY_LEN
    \<and> (\<forall>i<RING_HISTORY_LEN. buf' ! hist_wrap (b + i) =
         (if u < i \<and> i \<le> u + len then line ! (i - u - 1) else buf ! hist_wrap (b + i)))"
proof -
  obtain buf' where buf': "ring_store buf (hist_wrap (b + u)) line len = Some buf'"
    "length buf' = RING_HISTORY_LEN"
    "\<forall>j<RING_HISTORY_LEN. buf' ! j =
       (if hist_wrap (b + u) < j \<and> j \<le> hist_wrap (b + u) + len then line ! (j - hist_wrap (b + u) - 1)
        else if RING_HISTORY_LEN + j \<le> hist_wrap (b + u) + len
          then line ! (RING_HISTORY_LEN + j - hist_wrap (b + u) - 1)
        else buf ! j)"
    using ring_store_nth [OF assms(1) hist_wrap_less [OF assms(2), of u] _ assms(4)] assms(3) by auto
  have "buf' ! hist_wrap (b + i) =
      (if u < i \<and> i \<le> u + len then line ! (i - u - 1) else buf ! hist_wrap (b + i))"
    if i: "i < RING_HISTORY_LEN" for i
  proof -
    have "hist_wrap (b + i) < RING_HISTORY_LEN" using assms(2) i by (intro hist_wrap_less) auto
    with buf'(3) show ?thesis
      using assms(2,3) i by (auto simp: hist_wrap_def)
  qed
  with buf'(1,2) show ?thesis by blast
qed

lemma ring_holds_erase:
  assumes "ring_holds h (l # ls)"
  shows "\<exists>h'. hist_erase_older h = Some h' \<and> ring_holds (h'\<lparr>hist_cur := 0\<rparr>) ls"
proof -
  have h: "hist_begin h < RING_HISTORY_LEN" "length (records (l # ls)) < RING_HISTORY_LEN"
    "reads (ring_buf h) (hist_begin h) (records (l # ls) @ [0])" "hist_line_ok l"
    "length (ring_buf h) = RING_HISTORY_LEN"
    using assms by (simp_all add: ring_holds_def)
  note r = reads_record [OF h(1-3)]
  show ?thesis
    using assms h r hist_wrap_less [of "hist_begin h" "length l + 1"] length_byte [OF h(4)]
      hist_wrap_wrap [of "hist_begin h" "length l + 1" "length (records ls)"]
    by (auto simp: hist_erase_older_def ring_holds_def add.assoc)
qed

lemma ring_holds_space:
  assumes "ring_holds h ls"
  shows "hist_is_space_for_new h len
    = Some (ls = [] \<or> length (records ls) + len + 2 \<le> RING_HISTORY_LEN)"
proof -
  have h: "hist_begin h < RING_HISTORY_LEN" "length (records ls) < RING_HISTORY_LEN"
    "reads (ring_buf h) (hist_begin h) (records ls @ [0])" "list_all hist_line_ok ls"
    "length (ring_buf h) = RING_HISTORY_LEN"
    "hist_end h = hist_wrap (hist_begin h + length (records ls))"
    using assms by (simp_all add: ring_holds_def)
  show ?thesis
  proof (cases ls)
    case Nil
    then show ?thesis using h reads_end [of "hist_begin h" "ring_buf h"]
      by (simp add: hist_is_space_for_new_def)
  next
    case (Cons l ls')
    then have "ring_buf h ! hist_begin h \<noteq> 0"
      using reads_record(1) [of "hist_begin h" l ls' "ring_buf h"] h length_byte [of l] by simp
    moreover have "length (records ls) > 0" using Cons by simp
    ultimately show ?thesis
      using h Cons by (auto simp: hist_is_space_for_new_def hist_wrap_def)
  qed
qed

lemma space_cur [simp]:
  "hist_is_space_for_new (h\<lparr>hist_cur := c\<rparr>) len = hist_is_space_for_new h len"
  by (cases "load (ring_buf h) (hist_begin h)") (simp_all add: hist_is_space_for_new_def)

lemma erase_cur:
  "hist_erase_older (h\<lparr>hist_cur := c\<rparr>) = map_option (hist_cur_update (\<lambda>_. c)) (hist_erase_older h)"
  by (cases "load (ring_buf h) (hist_begin h)") (simp_all add: hist_erase_older_def)

lemma erase_loop_make_room:
  assumes "ring_holds (h\<lparr>hist_cur := 0\<rparr>) ls" and "length ls < fuel"
  shows "\<exists>h'. erase_loop fuel h len = Some h' \<and> ring_holds (h'\<lparr>hist_cur := 0\<rparr>) (make_room ls len)"
  using assms
proof (induction ls arbitrary: h fuel)
  case Nil
  then obtain f where "fuel = Suc f" by (cases fuel) auto
  then show ?case
    using Nil.prems ring_holds_space [OF Nil.prems(1), of len] by simp
next
  case (Cons l ls)
  obtain f where f: "fuel = Suc f" using Cons.prems(2) by (cases fuel) auto
  have space: "hist_is_space_for_new h len
      = Some (length (records (l # ls)) + len + 2 \<le> RING_HISTORY_LEN)"
    using ring_holds_space [OF Cons.prems(1), of len] by simp
  obtain h' where h': "hist_erase_older h = Some h'" "ring_holds (h'\<lparr>hist_cur := 0\<rparr>) ls"
    using ring_holds_erase [OF Cons.prems(1)] by (auto simp: erase_cur)
  show ?case
    using Cons.IH [OF h'(2), of f] Cons.prems space h'(1) f by auto
qed

lemma make_room_small:
  "length (records ls) < RING_HISTORY_LEN \<Longrightarrow> len \<le> RING_HISTORY_LEN - 2 \<Longrightarrow>
   length (records (make_room ls len)) + len + 2 \<le> RING_HISTORY_LEN"
  by (induction ls) (auto simp: RING_HISTORY_LEN_def)

lemma hist_save_holds:
  assumes "ring_holds h ls" and "0 < len" and "len \<le> RING_HISTORY_LEN - 2" and "len \<le> length line"
  shows "\<exists>h'. hist_save_line h line len = Some h' \<and> hist_cur h' = 0
    \<and> ring_holds h' (make_room ls len @ [take len line])"
proof -
  have start: "ring_holds (h\<lparr>hist_cur := 0\<rparr>) ls" using assms(1) by (simp add: ring_holds_def)
  define rs where "rs = make_room ls len"
  define u where "u = length (records rs)"
  obtain h1 where h1: "erase_loop RING_HISTORY_LEN h len = Some h1" "ring_holds (h1\<lparr>hist_cur := 0\<rparr>) rs"
    using erase_loop_make_room [OF start, of RING_HISTORY_LEN len] ring_holds_count [OF assms(1)]
    by (auto simp: rs_def)
  define b where "b = hist_begin h1"
  have small: "u + len + 2 \<le> RING_HISTORY_LEN"
    using make_room_small assms(1,3) by (simp add: u_def rs_def ring_holds_def)
  have h: "b < RING_HISTORY_LEN" "length (ring_buf h1) = RING_HISTORY_LEN"
    "hist_end h1 = hist_wrap (b + u)" "reads (ring_buf h1) b (records rs @ [0])"
    "list_all hist_line_ok rs"
    using h1(2) by (simp_all add: ring_holds_def b_def u_def)
  define e where "e = hist_wrap (b + u)"
  have e: "e < RING_HISTORY_LEN" using h(1) small by (auto simp: e_def intro: hist_wrap_less)
  define buf1 where "buf1 = (if ring_buf h1 ! b = 0 then (ring_buf h1)[b := of_nat len] else ring_buf h1)"
  have "rs = [] \<and> b = e" if "ring_buf h1 ! b = 0"
  proof (cases rs)
    case Nil
    then show ?thesis using h(1) by (simp add: e_def u_def hist_wrap_def)
  next
    case (Cons l ls')
    then show ?thesis
      using that reads_record(1) [of b l ls' "ring_buf h1"] h small length_byte [of l]
      by (auto simp: u_def)
  qed
  then have buf1: "length buf1 = RING_HISTORY_LEN" "\<forall>j. j \<noteq> e \<longrightarrow> buf1 ! j = ring_buf h1 ! j"
    using h(2) by (auto simp: buf1_def)
  obtain buf2 where buf2: "ring_store buf1 e line len = Some buf2" "length buf2 = RING_HISTORY_LEN"
    "\<forall>i<RING_HISTORY_LEN. buf2 ! hist_wrap (b + i) =
       (if u < i \<and> i \<le> u + len then line ! (i - u - 1) else buf1 ! hist_wrap (b + i))"
    using ring_store_at [OF buf1(1) h(1) _ assms(4), of u] small by (auto simp: e_def)
  define e' where "e' = hist_wrap (b + (u + len + 1))"
  have e': "hist_wrap (e + len + 1) = e'" "e' < RING_HISTORY_LEN"
    using hist_wrap_wrap [of b u "len + 1"] hist_wrap_less [of b "u + len + 1"] h(1) small
    by (simp_all add: e_def e'_def add.assoc)
  define buf4 where "buf4 = buf2[e := of_nat len, e' := 0]"
  define h' where "h' = h1\<lparr>ring_buf := buf4, hist_end := e', hist_cur := 0\<rparr>"
  have save: "hist_save_line h line len = Some h'"
    using assms(3) h1(1) h(1-3) buf2(1,2) e e' unfolding hist_save_line_def h'_def
    by (cases "ring_buf h1 ! b = 0")
      (simp_all add: b_def [symmetric] e_def [symmetric] buf4_def buf1_def)
  have pos: "hist_wrap (b + i) = e \<longleftrightarrow> i = u" "hist_wrap (b + i) = e' \<longleftrightarrow> i = u + len + 1"
    if "i \<le> u + len + 1" for i
    using hist_wrap_inj [of b i u] hist_wrap_inj [of b i "u + len + 1"] h(1) small that
    by (simp_all add: e_def e'_def)
  have "reads buf4 b (records (rs @ [take len line]) @ [0])"
    unfolding reads_def
  proof (intro allI impI)
    fix i assume "i < length (records (rs @ [take len line]) @ [0])"
    then have i: "i \<le> u + len + 1" using assms(4) by (simp add: u_def min_absorb2)
    have w: "hist_wrap (b + i) < RING_HISTORY_LEN" using h(1) i small by (intro hist_wrap_less) auto
    have old: "ring_buf h1 ! hist_wrap (b + i) = records rs ! i" if "i < u"
      using h(4) that by (auto simp: reads_def u_def nth_append)
    consider "i < u" | "i = u" | "u < i" "i \<le> u + len" | "i = u + len + 1" using i by linarith
    then show "buf4 ! hist_wrap (b + i) = (records (rs @ [take len line]) @ [0]) ! i"
    proof cases
      case 1
      then show ?thesis
        using pos [OF i] old buf2(3) buf1(2) small e'(2) e i
        by (simp add: buf4_def nth_append u_def)
    next
      case 2
      then show ?thesis
        using pos [OF i] buf2(2) e e'(2) assms(4) by (simp add: buf4_def nth_append u_def min_def)
    next
      case 3
      then show ?thesis
        using pos [OF i] buf2(3) small i assms(4)
        by (auto simp: buf4_def nth_append u_def nth_Cons' min_def)
    next
      case 4
      then show ?thesis
        using pos [OF i] buf2(2) e'(2) assms(4) by (simp add: buf4_def nth_append u_def min_def)
    qed
  qed
  then have "ring_holds h' (rs @ [take len line])"
    using h small assms(2-4) buf2(2)
    by (auto simp: ring_holds_def h'_def buf4_def e'_def u_def b_def hist_line_ok_def min_def add.assoc)
  with save show ?thesis by (simp add: h'_def rs_def)
qed

subsection \<open>The interface the line editor uses\<close>

text \<open>What the editor relies on: a history \<open>holds\<close> a list of lines and a recall position, saving
  appends a line after dropping the oldest ones that stand in its way, and the two recalls follow
  the abstract ones.\<close>

definition ring_state :: "ring_history \<Rightarrow> cstring list \<Rightarrow> nat \<Rightarrow> bool" where
  "ring_state h ls c \<longleftrightarrow> ring_holds h ls \<and> hist_cur h = c"

definition save_lines :: "cstring list \<Rightarrow> cstring \<Rightarrow> cstring list" where
  "save_lines ls l = (if length l \<le> RING_HISTORY_LEN - 2 then make_room ls (length l) @ [l] else ls)"

definition save_cur :: "nat \<Rightarrow> cstring \<Rightarrow> nat" where
  "save_cur c l = (if length l \<le> RING_HISTORY_LEN - 2 then 0 else c)"

locale line_history =
  fixes holds :: "'h \<Rightarrow> cstring list \<Rightarrow> nat \<Rightarrow> bool"
    and save :: "'h \<Rightarrow> byte list \<Rightarrow> nat \<Rightarrow> 'h option"
    and restore :: "'h \<Rightarrow> byte list \<Rightarrow> hist_dir \<Rightarrow> (nat option \<times> 'h \<times> byte list) option"
  assumes cur_bound: "holds h ls c \<Longrightarrow> c \<le> length ls"
    and line_bound: "holds h ls c \<Longrightarrow> l \<in> set ls \<Longrightarrow> length l \<le> RING_HISTORY_LEN - 2"
    and save_law: "holds h ls c \<Longrightarrow> 0 < len \<Longrightarrow> len \<le> length buf \<Longrightarrow>
      \<exists>h'. save h buf len = Some h'
        \<and> holds h' (save_lines ls (take len buf)) (save_cur c (take len buf))"
    and up_law: "holds h ls c \<Longrightarrow> length buf = COMMAND_LINE_LEN \<Longrightarrow> recall_up ls c = Some (l, c') \<Longrightarrow>
      \<exists>h' rest. restore h buf HIST_UP = Some (Some (length l), h', l @ rest)
        \<and> length (l @ rest) = COMMAND_LINE_LEN \<and> set rest \<subseteq> {0} \<and> holds h' ls c'"
    and up_none_law: "holds h ls c \<Longrightarrow> length buf = COMMAND_LINE_LEN \<Longrightarrow> recall_up ls c = None \<Longrightarrow>
      restore h buf HIST_UP = Some (None, h, buf)"
    and down_law: "holds h ls c \<Longrightarrow> length buf = COMMAND_LINE_LEN \<Longrightarrow> recall_down ls c = (l, c') \<Longrightarrow>
      \<exists>h'. restore h buf HIST_DOWN = Some (Some (length l), h', l @ drop (length l) buf)
        \<and> holds h' ls c'"
begin

lemma recalled_small:
  assumes "holds h ls c"
  shows "recall_up ls c = Some (l, c') \<Longrightarrow> length l \<le> RING_HISTORY_LEN - 2"
    and "recall_down ls c = (l, c') \<Longrightarrow> length l \<le> RING_HISTORY_LEN - 2"
  using line_bound [OF assms] cur_bound [OF assms]
  by (auto simp: recall_up_def recall_down_def split: if_splits intro!: line_bound [OF assms] nth_mem)

text \<open>One command: its effect on the history, and the text it brings to the line.\<close>

lemma recall_text:
  assumes "holds h ls c" and "length buf = COMMAND_LINE_LEN"
  shows "\<exists>n h' buf'. restore h buf d = Some (n, h', buf') \<and> length buf' = COMMAND_LINE_LEN
    \<and> (last buf = 0 \<longrightarrow> last buf' = 0)
    \<and> (case d of
         HIST_UP \<Rightarrow> (case recall_up ls c of
             None \<Rightarrow> n = None \<and> holds h' ls c \<and> buf' = buf
           | Some (l, c') \<Rightarrow> n = Some (length l) \<and> take (length l) buf' = l \<and> holds h' ls c')
       | HIST_DOWN \<Rightarrow> n = Some (length (fst (recall_down ls c)))
             \<and> take (length (fst (recall_down ls c))) buf' = fst (recall_down ls c)
             \<and> holds h' ls (snd (recall_down ls c)))"
proof (cases d)
  case HIST_UP
  show ?thesis
  proof (cases "recall_up ls c")
    case None
    then show ?thesis using up_none_law [OF assms] assms HIST_UP by auto
  next
    case (Some lc)
    obtain l c' where lc: "recall_up ls c = Some (l, c')" using Some by (cases lc) auto
    obtain h' rest where r: "restore h buf HIST_UP = Some (Some (length l), h', l @ rest)"
      "length (l @ rest) = COMMAND_LINE_LEN" "set rest \<subseteq> {0}" "holds h' ls c'"
      using up_law [OF assms lc] by blast
    have "rest \<noteq> []"
      using r(2) recalled_small(1) [OF assms(1) lc]
      by (auto simp: RING_HISTORY_LEN_def COMMAND_LINE_LEN_def)
    then have "last (l @ rest) = 0" using subsetD [OF r(3) last_in_set] by auto
    with r lc HIST_UP show ?thesis by auto
  qed
next
  case HIST_DOWN
  obtain l c' where lc: "recall_down ls c = (l, c')" by force
  have "length l < length buf"
    using recalled_small(2) [OF assms(1) lc] assms(2)
    by (simp add: RING_HISTORY_LEN_def COMMAND_LINE_LEN_def)
  then show ?thesis
    using down_law [OF assms lc] assms(2) HIST_DOWN lc by auto
qed

end

lemma ring_save_law:
  assumes "ring_state h ls c" and "0 < len" and "len \<le> length buf"
  shows "\<exists>h'. hist_save_line h buf len = Some h'
    \<and> ring_state h' (save_lines ls (take len buf)) (save_cur c (take len buf))"
proof (cases "len \<le> RING_HISTORY_LEN - 2")
  case True
  then show ?thesis
    using hist_save_holds [of h ls len buf] assms
    by (auto simp: ring_state_def save_lines_def save_cur_def min_absorb2)
next
  case False
  then show ?thesis
    using assms by (auto simp: ring_state_def save_lines_def save_cur_def hist_save_line_def min_absorb2)
qed

lemma ring_holds_cur: "ring_holds h ls \<Longrightarrow> c \<le> length ls \<Longrightarrow> ring_holds (h\<lparr>hist_cur := c\<rparr>) ls"
  by (simp add: ring_holds_def)

lemma ring_state_reset: "ring_state h ls c \<Longrightarrow> ring_state (h\<lparr>hist_cur := 0\<rparr>) ls 0"
  by (simp add: ring_state_def ring_holds_cur)

lemma ring_state_line:
  assumes "ring_state h ls c" and "l \<in> set ls"
  shows "length l \<le> RING_HISTORY_LEN - 2"
  using assms by (auto simp: ring_state_def ring_holds_def list_all_iff hist_line_ok_def)

interpretation ring: line_history ring_state hist_save_line hist_restore_line
proof
  fix h ls c
  show "ring_state h ls c \<Longrightarrow> c \<le> length ls"
    by (auto simp: ring_state_def ring_holds_def)
next
  fix h ls c l
  show "ring_state h ls c \<Longrightarrow> l \<in> set ls \<Longrightarrow> length l \<le> RING_HISTORY_LEN - 2"
    by (rule ring_state_line)
next
  fix h ls c len and buf :: "byte list"
  show "ring_state h ls c \<Longrightarrow> 0 < len \<Longrightarrow> len \<le> length buf \<Longrightarrow>
      \<exists>h'. hist_save_line h buf len = Some h'
        \<and> ring_state h' (save_lines ls (take len buf)) (save_cur c (take len buf))"
    by (rule ring_save_law)
next
  fix h ls c l c' and buf :: "byte list"
  assume h: "ring_state h ls c" "length buf = COMMAND_LINE_LEN" "recall_up ls c = Some (l, c')"
  then have "l \<in> set ls" "c' \<le> length ls" by (auto simp: recall_up_def split: if_splits)
  with h ring_state_line [OF h(1)] show "\<exists>h' rest. hist_restore_line h buf HIST_UP = Some (Some (length l), h', l @ rest)
        \<and> length (l @ rest) = COMMAND_LINE_LEN \<and> set rest \<subseteq> {0} \<and> ring_state h' ls c'"
    using hist_restore_up [of h ls buf]
    by (force simp: ring_state_def ring_holds_cur RING_HISTORY_LEN_def COMMAND_LINE_LEN_def)
next
  fix h ls c and buf :: "byte list"
  assume "ring_state h ls c" "length buf = COMMAND_LINE_LEN" "recall_up ls c = None"
  then show "hist_restore_line h buf HIST_UP = Some (None, h, buf)"
    using hist_restore_up [of h ls buf] by (auto simp: ring_state_def)
next
  fix h ls c l c' and buf :: "byte list"
  assume h: "ring_state h ls c" "length buf = COMMAND_LINE_LEN" "recall_down ls c = (l, c')"
  then have "c' \<le> length ls"
    by (auto simp: recall_down_def ring_state_def ring_holds_def split: if_splits)
  with h show "\<exists>h'. hist_restore_line h buf HIST_DOWN = Some (Some (length l), h', l @ drop (length l) buf)
        \<and> ring_state h' ls c'"
    using hist_restore_down [of h ls buf] by (auto simp: ring_state_def ring_holds_cur)
qed

subsection \<open>Properties\<close>

datatype hist_cmd = Save cstring | Recall hist_dir

text \<open>A sequence of history commands on the ring and a line buffer, with the text each recall
  shows (\<open>None\<close> for a command that leaves the line as it is), and the same on the abstract history.\<close>

fun hist_run :: "hist_cmd list \<Rightarrow> ring_history \<Rightarrow> byte list \<Rightarrow> cstring option list option" where
  "hist_run [] h buf = Some []"
| "hist_run (Save l # cmds) h buf = do {
     h \<leftarrow> hist_save_line h l (length l);
     shown \<leftarrow> hist_run cmds h buf;
     Some (None # shown) }"
| "hist_run (Recall d # cmds) h buf = do {
     (n, h, buf) \<leftarrow> hist_restore_line h buf d;
     shown \<leftarrow> hist_run cmds h buf;
     Some (map_option (\<lambda>k. take k buf) n # shown) }"

fun hist_spec :: "hist_cmd list \<Rightarrow> cstring list \<Rightarrow> nat \<Rightarrow> cstring option list" where
  "hist_spec [] ls c = []"
| "hist_spec (Save l # cmds) ls c = None # hist_spec cmds (save_lines ls l) (save_cur c l)"
| "hist_spec (Recall HIST_UP # cmds) ls c =
     (case recall_up ls c of
        None \<Rightarrow> None # hist_spec cmds ls c
      | Some (l, c') \<Rightarrow> Some l # hist_spec cmds ls c')"
| "hist_spec (Recall HIST_DOWN # cmds) ls c =
     (let (l, c') = recall_down ls c in Some l # hist_spec cmds ls c')"

definition empty_history :: ring_history where
  "empty_history = \<lparr>ring_buf = replicate RING_HISTORY_LEN 0, hist_begin = 0, hist_end = 0, hist_cur = 0\<rparr>"

lemma empty_history_state: "ring_state empty_history [] 0"
  by (auto simp: ring_state_def ring_holds_def empty_history_def reads_def RING_HISTORY_LEN_def
      hist_wrap_def)

lemma hist_run_spec:
  assumes "ring_state h ls c" and "length buf = COMMAND_LINE_LEN" and "Save [] \<notin> set cmds"
  shows "hist_run cmds h buf = Some (hist_spec cmds ls c)"
  using assms
proof (induction cmds arbitrary: h ls c buf)
  case (Cons cmd cmds)
  show ?case
  proof (cases cmd)
    case (Save l)
    then obtain h' where "hist_save_line h l (length l) = Some h'"
      "ring_state h' (save_lines ls l) (save_cur c l)"
      using ring.save_law [OF Cons.prems(1), of "length l" l] Cons.prems(3) by (cases l) auto
    with Cons.IH [OF this(2) Cons.prems(2)] Cons.prems(3) Save show ?thesis by simp
  next
    case (Recall d)
    obtain n h' buf' where r: "hist_restore_line h buf d = Some (n, h', buf')"
      "length buf' = COMMAND_LINE_LEN"
      "case d of
         HIST_UP \<Rightarrow> (case recall_up ls c of
             None \<Rightarrow> n = None \<and> ring_state h' ls c \<and> buf' = buf
           | Some (l, c') \<Rightarrow> n = Some (length l) \<and> take (length l) buf' = l \<and> ring_state h' ls c')
       | HIST_DOWN \<Rightarrow> n = Some (length (fst (recall_down ls c)))
             \<and> take (length (fst (recall_down ls c))) buf' = fst (recall_down ls c)
             \<and> ring_state h' ls (snd (recall_down ls c))"
      using ring.recall_text [OF Cons.prems(1,2), of d] by blast
    then show ?thesis
      using Cons.IH [OF _ r(2), of h'] Cons.prems(3) Recall
      by (auto split: hist_dir.splits option.splits prod.splits)
  qed
qed simp

text \<open>C9. The ring buffer implements the history: for every sequence of saved (non-empty) lines and
  UP and DOWN recalls, starting from the initial ring, every loop ends, every access stays inside
  the buffers, and each recall shows what the list of saved lines, with the oldest dropped until the
  new line fits, gives.\<close>

theorem history_refines:
  assumes "Save [] \<notin> set cmds"
  shows "hist_run cmds empty_history (replicate COMMAND_LINE_LEN 0) = Some (hist_spec cmds [] 0)"
  using hist_run_spec [OF empty_history_state] assms by simp

theorem history_refines_witness:
  "hist_run [Save [65], Save [66, 67], Recall HIST_UP, Recall HIST_UP, Recall HIST_DOWN]
     empty_history (replicate COMMAND_LINE_LEN 0)
   = Some [None, None, Some [66, 67], Some [65], Some [66, 67]]"
  by (subst history_refines) (simp_all add: save_lines_def save_cur_def recall_up_def recall_down_def
      RING_HISTORY_LEN_def)

lemma make_room_suffix: "\<exists>k\<le>length ls. make_room ls n = drop k ls
    \<and> (\<forall>j<k. RING_HISTORY_LEN < length (records (drop j ls)) + n + 2)"
proof (induction ls)
  case (Cons l ls)
  show ?case
  proof (cases "length (records (l # ls)) + n + 2 \<le> RING_HISTORY_LEN")
    case True
    then show ?thesis by (intro exI [of _ 0]) simp
  next
    case False
    obtain k where "k \<le> length ls" "make_room ls n = drop k ls"
      "\<forall>j<k. RING_HISTORY_LEN < length (records (drop j ls)) + n + 2"
      using Cons.IH by blast
    with False show ?thesis
      by (intro exI [of _ "Suc k"]) (auto simp: drop_Cons' split: if_splits)
  qed
qed simp

text \<open>Saving a line that fits the ring keeps it as the most recent line and drops the oldest
  lines only as far as needed: the kept lines are the longest suffix of the old history that leaves
  room, unless the line is too long, which leaves the history as it was.\<close>

lemma history_save_keeps_suffix:
  assumes "ring_state h ls c" and "0 < len" and "len \<le> length line"
  shows "\<exists>h'. hist_save_line h line len = Some h'
    \<and> (if len \<le> RING_HISTORY_LEN - 2
       then \<exists>k\<le>length ls. ring_state h' (drop k ls @ [take len line]) 0
         \<and> (\<forall>j<k. RING_HISTORY_LEN < length (records (drop j ls)) + len + 2)
       else h' = h)"
proof (cases "len \<le> RING_HISTORY_LEN - 2")
  case True
  then show ?thesis
    using ring.save_law [OF assms] make_room_suffix [of ls len] assms(3)
    by (auto simp: save_lines_def save_cur_def min_absorb2)
qed (simp add: hist_save_line_def)

end
