(* ===== verification/Microrl.thy ===== *)
theory Microrl
  imports Microrl_History
begin

section \<open>microrl: the line editor\<close>

text \<open>
  Model of the rest of \<^verbatim>\<open>src/src/components/readline/microrl/src/microrl.c\<close> in the configuration of
  its \<^verbatim>\<open>config.h\<close> (history, completion, escape sequences, Ctrl-C, libc stdio, line feed ends a
  line).  What the code does to the outside, the strings it hands to \<^verbatim>\<open>printf\<close> as a format and the
  calls of the callbacks, is the list \<open>events\<close> of the state.  The callbacks are fields that may be
  absent, as the function pointers may be null; they are functions of their arguments, which says
  that they do not touch the editor.  \<^verbatim>\<open>None\<close> as the result of an operation is an access outside a
  buffer.
\<close>

subsection \<open>Data\<close>

definition COMMAND_TOKEN_NMB :: nat where
  "COMMAND_TOKEN_NMB = 8"

definition DEFAULT_PROMPT_LEN :: nat where
  "DEFAULT_PROMPT_LEN = 7"

definition prompt_default :: cstring where
  "prompt_default = [27, 91, 51, 50, 109, 73, 82, 105, 110, 32, 62, 27, 91, 48, 109, 32]"

definition ENDL :: cstring where
  "ENDL = [10]"

definition ESC_BRACKET :: nat where
  "ESC_BRACKET = 1"

definition ESC_HOME :: nat where
  "ESC_HOME = 2"

definition ESC_END :: nat where
  "ESC_END = 3"

datatype event =
    Printf cstring
  | Newline_call cstring
  | Execute_call "cstring list"
  | Completion_call int "cstring list"
  | Sigint_call

record microrl =
  escape_seq :: nat
  escape :: bool
  ring_hist :: ring_history
  prompt_str :: cstring
  prompt_len :: nat
  cmdline :: "byte list"
  cmdlen :: nat
  cursor :: nat
  execute :: "(cstring list \<Rightarrow> bool) option"
  newline :: "(cstring \<Rightarrow> bool) option"
  eot :: bool
  wait_newline :: bool
  get_completion :: "(int \<Rightarrow> cstring list \<Rightarrow> cstring list) option"
  sigint :: bool
  events :: "event list"

definition emit :: "event \<Rightarrow> microrl \<Rightarrow> microrl" where
  "emit ev rl = rl\<lparr>events := events rl @ [ev]\<rparr>"

subsection \<open>Splitting the line into tokens\<close>

function skip_zero :: "byte list \<Rightarrow> nat \<Rightarrow> nat \<Rightarrow> nat option" where
  "skip_zero line limit ind =
     (case load line ind of
        None \<Rightarrow> None
      | Some c \<Rightarrow> if c = 0 \<and> ind < limit then skip_zero line limit (Suc ind) else Some ind)"
  by pat_completeness auto
termination
  by (relation "measure (\<lambda>(line, limit, ind). limit - ind)") auto

function skip_word :: "byte list \<Rightarrow> nat \<Rightarrow> nat \<Rightarrow> nat option" where
  "skip_word line limit ind =
     (case load line ind of
        None \<Rightarrow> None
      | Some c \<Rightarrow> if c \<noteq> 0 \<and> ind < limit then skip_word line limit (Suc ind) else Some ind)"
  by pat_completeness auto
termination
  by (relation "measure (\<lambda>(line, limit, ind). limit - ind)") auto

declare skip_zero.simps [simp del] skip_word.simps [simp del]

text \<open>\<open>split_loop\<close> carries the tokens found so far, as offsets into the line.  The result is the
  returned count (-1 for too many tokens), the token array and the line.\<close>

function split_loop ::
  "byte list \<Rightarrow> nat \<Rightarrow> nat \<Rightarrow> nat list \<Rightarrow> (int \<times> nat list \<times> byte list) option" where
  "split_loop line limit ind tkn_arr = do {
     line \<leftarrow> (if ind < limit
             then do { c \<leftarrow> load line ind; if c = 32 then store line ind 0 else Some line }
             else Some line);
     ind \<leftarrow> skip_zero line limit ind;
     if \<not> ind < limit then Some (int (length tkn_arr), tkn_arr, line)
     else do {
       let tkn_arr = tkn_arr @ [ind];
       if length tkn_arr \<ge> COMMAND_TOKEN_NMB then Some (-1, tkn_arr, line)
       else do {
         ind \<leftarrow> skip_word line limit ind;
         if \<not> ind < limit then Some (int (length tkn_arr), tkn_arr, line)
         else split_loop line limit ind tkn_arr } } }"
  by pat_completeness auto
termination
  by (relation "measure (\<lambda>(line, limit, ind, tkn_arr). COMMAND_TOKEN_NMB - length tkn_arr)") auto

declare split_loop.simps [simp del]

definition split :: "microrl \<Rightarrow> nat \<Rightarrow> (int \<times> nat list \<times> microrl) option" where
  "split rl limit = do {
     (n, tkn_arr, line) \<leftarrow> split_loop (cmdline rl) limit 0 [];
     Some (n, tkn_arr, rl\<lparr>cmdline := line\<rparr>) }"

text \<open>The strings a token array points to.\<close>

fun token_strings :: "byte list \<Rightarrow> nat list \<Rightarrow> cstring list option" where
  "token_strings line [] = Some []"
| "token_strings line (t # ts) = do {
     s \<leftarrow> cstring_at line t;
     ss \<leftarrow> token_strings line ts;
     Some (s # ss) }"

subsection \<open>Terminal output\<close>

definition print_prompt :: "microrl \<Rightarrow> microrl" where
  "print_prompt rl = emit (Printf (prompt_str rl)) rl"

definition terminal_backspace :: "microrl \<Rightarrow> microrl" where
  "terminal_backspace rl = emit (Printf [27, 91, 68, 32, 27, 91, 68]) rl"

definition terminal_newline :: "microrl \<Rightarrow> microrl" where
  "terminal_newline rl = emit (Printf ENDL) rl"

definition microrl_prompt :: "microrl \<Rightarrow> microrl" where
  "microrl_prompt rl = print_prompt rl"

definition terminal_move_cursor :: "microrl \<Rightarrow> int \<Rightarrow> microrl" where
  "terminal_move_cursor rl offset =
     (let str = (if offset > 0 then take 15 ([27, 91] @ decimal (nat offset) @ [67])
                 else if offset < 0 then take 15 ([27, 91] @ decimal (nat (- offset)) @ [68])
                 else [])
      in emit (Printf str) rl)"

definition terminal_reset_cursor :: "microrl \<Rightarrow> microrl" where
  "terminal_reset_cursor rl =
     emit (Printf (take 15 ([27, 91] @ decimal (COMMAND_LINE_LEN + prompt_len rl + 2) @ [68, 27, 91]
       @ decimal (prompt_len rl) @ [67]))) rl"

fun print_loop :: "microrl \<Rightarrow> nat list \<Rightarrow> microrl option" where
  "print_loop rl [] = Some rl"
| "print_loop rl (i # is) = do {
     c \<leftarrow> load (cmdline rl) i;
     print_loop (emit (Printf [if c = 0 then 32 else c]) rl) is }"

definition terminal_print_line :: "microrl \<Rightarrow> nat \<Rightarrow> nat \<Rightarrow> microrl option" where
  "terminal_print_line rl pos cur = do {
     let rl = emit (Printf [27, 91, 75]) rl;
     rl \<leftarrow> print_loop rl [pos..<cmdlen rl];
     Some (terminal_move_cursor (terminal_reset_cursor rl) (int cur)) }"

subsection \<open>Initialisation\<close>

text \<open>\<open>escape_seq\<close>, \<open>escape\<close> and \<open>wait_newline\<close> are not set by the code and keep their values.\<close>

definition microrl_init :: "microrl \<Rightarrow> microrl" where
  "microrl_init rl = rl\<lparr>
     cmdline := replicate COMMAND_LINE_LEN 0,
     ring_hist := \<lparr>ring_buf = replicate RING_HISTORY_LEN 0, hist_begin = 0, hist_end = 0, hist_cur = 0\<rparr>,
     cmdlen := 0, cursor := 0, execute := None, newline := None, get_completion := None, eot := False,
     sigint := False, prompt_str := prompt_default, prompt_len := DEFAULT_PROMPT_LEN\<rparr>"

definition microrl_set_complete_callback ::
  "microrl \<Rightarrow> (int \<Rightarrow> cstring list \<Rightarrow> cstring list) \<Rightarrow> microrl" where
  "microrl_set_complete_callback rl f = rl\<lparr>get_completion := Some f\<rparr>"

definition microrl_set_execute_callback :: "microrl \<Rightarrow> (cstring list \<Rightarrow> bool) \<Rightarrow> microrl" where
  "microrl_set_execute_callback rl f = rl\<lparr>execute := Some f\<rparr>"

definition microrl_set_newline_callback :: "microrl \<Rightarrow> (cstring \<Rightarrow> bool) \<Rightarrow> microrl" where
  "microrl_set_newline_callback rl f = rl\<lparr>newline := Some f\<rparr>"

definition microrl_set_sigint_callback :: "microrl \<Rightarrow> microrl" where
  "microrl_set_sigint_callback rl = rl\<lparr>sigint := True\<rparr>"

subsection \<open>History keys and escape sequences\<close>

definition hist_search :: "microrl \<Rightarrow> hist_dir \<Rightarrow> microrl option" where
  "hist_search rl dir = do {
     (n, h, line) \<leftarrow> hist_restore_line (ring_hist rl) (cmdline rl) dir;
     let rl = rl\<lparr>ring_hist := h, cmdline := line\<rparr>;
     case n of
       None \<Rightarrow> Some rl
     | Some len \<Rightarrow> do {
         line \<leftarrow> store (cmdline rl) len 0;
         let rl = rl\<lparr>cmdline := line, cursor := len, cmdlen := len\<rparr>;
         let rl = terminal_reset_cursor rl;
         terminal_print_line rl 0 (cursor rl) } }"

definition cursor_right :: "microrl \<Rightarrow> microrl" where
  "cursor_right rl =
     (if cursor rl < cmdlen rl
      then let rl = terminal_move_cursor rl 1 in rl\<lparr>cursor := cursor rl + 1\<rparr> else rl)"

definition cursor_left :: "microrl \<Rightarrow> microrl" where
  "cursor_left rl =
     (if cursor rl > 0
      then let rl = terminal_move_cursor rl (- 1) in rl\<lparr>cursor := cursor rl - 1\<rparr> else rl)"

definition cursor_home :: "microrl \<Rightarrow> microrl" where
  "cursor_home rl = (let rl = terminal_reset_cursor rl in rl\<lparr>cursor := 0\<rparr>)"

definition cursor_end :: "microrl \<Rightarrow> microrl" where
  "cursor_end rl =
     (let rl = terminal_move_cursor rl (int (cmdlen rl) - int (cursor rl)) in rl\<lparr>cursor := cmdlen rl\<rparr>)"

text \<open>The flag of the result is the returned value: the escape sequence is over.\<close>

definition escape_process :: "microrl \<Rightarrow> byte \<Rightarrow> (bool \<times> microrl) option" where
  "escape_process rl ch =
     (if ch = 91 then Some (False, rl\<lparr>escape_seq := ESC_BRACKET\<rparr>)
      else if escape_seq rl = ESC_BRACKET then
        if ch = 65 then do { rl \<leftarrow> hist_search rl HIST_UP; Some (True, rl) }
        else if ch = 66 then do { rl \<leftarrow> hist_search rl HIST_DOWN; Some (True, rl) }
        else if ch = 67 then Some (True, cursor_right rl)
        else if ch = 68 then Some (True, cursor_left rl)
        else if ch = 55 then Some (False, rl\<lparr>escape_seq := ESC_HOME\<rparr>)
        else if ch = 56 then Some (False, rl\<lparr>escape_seq := ESC_END\<rparr>)
        else Some (True, rl)
      else if ch = 126 then
        if escape_seq rl = ESC_HOME then Some (True, cursor_home rl)
        else if escape_seq rl = ESC_END then Some (True, cursor_end rl)
        else Some (True, rl)
      else Some (True, rl))"

subsection \<open>Editing\<close>

text \<open>\<open>len\<close> may be negative when a completion is shorter than the token it completes.\<close>

definition microrl_insert_text :: "microrl \<Rightarrow> byte list \<Rightarrow> int \<Rightarrow> (bool \<times> microrl) option" where
  "microrl_insert_text rl text len =
     (if int (cmdlen rl) + len < int COMMAND_LINE_LEN then
        if int (cursor rl) + len < 0 \<or> cmdlen rl < cursor rl \<or> int (length text) < len then None
        else do {
          let dst = nat (int (cursor rl) + len);
          line \<leftarrow> memmove (cmdline rl) dst (cursor rl) (cmdlen rl - cursor rl);
          line \<leftarrow> blit line (cursor rl) (take (nat len) text);
          let n = nat (int (cmdlen rl) + len);
          line \<leftarrow> store line n 0;
          Some (True, rl\<lparr>cmdline := line, cursor := dst, cmdlen := n\<rparr>) }
      else Some (False, rl))"

definition microrl_backspace :: "microrl \<Rightarrow> microrl option" where
  "microrl_backspace rl =
     (if cursor rl > 0 then
        if cmdlen rl < cursor rl then None
        else do {
          let rl = terminal_backspace rl;
          line \<leftarrow> memmove (cmdline rl) (cursor rl - 1) (cursor rl) (cmdlen rl - cursor rl + 1);
          line \<leftarrow> store line (cmdlen rl) 0;
          Some (rl\<lparr>cmdline := line, cursor := cursor rl - 1, cmdlen := cmdlen rl - 1\<rparr>) }
      else Some rl)"

text \<open>\<^verbatim>\<open>while (pThis->cursor > 0) microrl_backspace(pThis);\<close>  A backspace always moves the cursor, so the
  inner test, which makes the recursion well-founded, never fails.\<close>

function kill_loop :: "microrl \<Rightarrow> microrl option" where
  "kill_loop rl =
     (if cursor rl > 0
      then (case microrl_backspace rl of
              None \<Rightarrow> None
            | Some rl' \<Rightarrow> if cursor rl' < cursor rl then kill_loop rl' else None)
      else Some rl)"
  by pat_completeness auto
termination
  by (relation "measure cursor") auto

declare kill_loop.simps [simp del]

subsection \<open>Completion\<close>

fun shortest_loop :: "cstring \<Rightarrow> cstring list \<Rightarrow> cstring" where
  "shortest_loop shortest [] = shortest"
| "shortest_loop shortest (a # as) =
     shortest_loop (if length a < length shortest then a else shortest) as"

function common_loop :: "cstring \<Rightarrow> cstring list \<Rightarrow> nat \<Rightarrow> nat" where
  "common_loop shortest arr i =
     (if i < length shortest
      then if \<exists>a\<in>set arr. shortest ! i \<noteq> a ! i then i else common_loop shortest arr (Suc i)
      else i)"
  by pat_completeness auto
termination
  by (relation "measure (\<lambda>(shortest, arr, i). length shortest - i)") auto

declare common_loop.simps [simp del]

definition common_len :: "cstring list \<Rightarrow> nat" where
  "common_len arr = (let shortest = shortest_loop (hd arr) arr in common_loop shortest arr 0)"

fun print_all :: "cstring list \<Rightarrow> microrl \<Rightarrow> microrl" where
  "print_all [] rl = rl"
| "print_all (s # ss) rl = print_all ss (emit (Printf [32]) (emit (Printf s) rl))"

text \<open>The part of \<^verbatim>\<open>microrl_get_complite\<close> after the callback returned the completions \<open>c0 # cs\<close>;
  \<open>last_token\<close> is the string of \<^verbatim>\<open>tkn_arr[status - 1]\<close>, absent when that is outside the array.\<close>

definition complete_with :: "microrl \<Rightarrow> cstring option \<Rightarrow> cstring \<Rightarrow> cstring list \<Rightarrow> microrl option" where
  "complete_with rl last_token c0 cs = do {
     let (len, rl) = (if cs = [] then (length c0, rl)
                      else (common_len (c0 # cs),
                        print_prompt (terminal_newline (print_all (c0 # cs) (terminal_newline rl)))));
     rl \<leftarrow> (if len \<noteq> 0
           then do {
             tkn \<leftarrow> last_token;
             (ok, rl) \<leftarrow> microrl_insert_text rl (drop (length tkn) c0) (int len - int (length tkn));
             (if cs = [] then do { (ok, rl) \<leftarrow> microrl_insert_text rl [32] 1; Some rl } else Some rl) }
           else Some rl);
     terminal_print_line (terminal_reset_cursor rl) 0 (cursor rl) }"

definition microrl_get_complite :: "microrl \<Rightarrow> microrl option" where
  "microrl_get_complite rl =
     (case get_completion rl of
        None \<Rightarrow> Some rl
      | Some f \<Rightarrow> do {
          (status, tkn_arr, rl) \<leftarrow> split rl (cursor rl);
          tkns \<leftarrow> token_strings (cmdline rl) tkn_arr;
          before \<leftarrow> (if cursor rl = 0 then None else load (cmdline rl) (cursor rl - 1));
          (status, tkns) \<leftarrow> (if before = 0
             then if status < 0 then None else Some (status + 1, tkns @ [[]])
             else Some (status, tkns));
          let compl_token = f status tkns;
          let rl = emit (Completion_call status tkns) rl;
          (case compl_token of
             [] \<Rightarrow> Some rl
           | c0 # cs \<Rightarrow>
               complete_with rl (if status < 1 then None else Some (tkns ! nat (status - 1))) c0 cs) })"

subsection \<open>Enter, characters and reading a line\<close>

definition clear_line :: "microrl \<Rightarrow> microrl option" where
  "clear_line rl = do {
     line \<leftarrow> memset (cmdline rl) 0 0 COMMAND_LINE_LEN;
     Some (rl\<lparr>cmdlen := 0, cursor := 0, cmdline := line, ring_hist := (ring_hist rl)\<lparr>hist_cur := 0\<rparr>\<rparr>) }"

text \<open>The branch without a newline callback: split the line and call \<open>execute\<close>.\<close>

definition execute_line :: "microrl \<Rightarrow> (bool \<times> microrl) option" where
  "execute_line rl = do {
     (status, tkn_arr, rl) \<leftarrow> split rl (cmdlen rl);
     let rl = (if status = -1
               then emit (Printf ENDL) (emit (Printf (map of_nat
                 [69, 82, 82, 79, 82, 58, 116, 111, 111, 32, 109, 97, 110, 121, 32, 116, 111, 107, 101, 110, 115])) rl)
               else rl);
     (case execute rl of
        None \<Rightarrow> Some (False, rl)
      | Some f \<Rightarrow>
          if status > 0
          then do {
            tkns \<leftarrow> token_strings (cmdline rl) tkn_arr;
            Some (f tkns, emit (Execute_call tkns) rl) }
          else Some (False, rl)) }"

definition new_line_handler :: "microrl \<Rightarrow> (bool \<times> microrl) option" where
  "new_line_handler rl = do {
     let rl = terminal_newline rl;
     rl \<leftarrow> (if cmdlen rl > 0
           then do {
             h \<leftarrow> hist_save_line (ring_hist rl) (cmdline rl) (cmdlen rl);
             Some (rl\<lparr>ring_hist := h\<rparr>) }
           else Some rl);
     if wait_newline rl then Some (True, rl\<lparr>wait_newline := False\<rparr>)
     else do {
       (bexit, rl) \<leftarrow> (case newline rl of
           Some f \<Rightarrow> do {
             s \<leftarrow> cstring_at (cmdline rl) 0;
             Some (f s, emit (Newline_call s) rl) }
         | None \<Rightarrow> execute_line rl);
       let rl = (if \<not> bexit then print_prompt rl else rl);
       rl \<leftarrow> clear_line rl;
       Some (False, rl) } }"

definition microrl_free :: "microrl \<Rightarrow> microrl option" where
  "microrl_free rl = clear_line rl"

text \<open>\<^verbatim>\<open>microrl_insert_char\<close> outside an escape sequence: the switch on the character.\<close>

definition process_char :: "microrl \<Rightarrow> int \<Rightarrow> microrl option" where
  "process_char rl ch =
     (if ch = 13 then Some rl
      else if ch = 10 then do { (r, rl) \<leftarrow> new_line_handler rl; Some rl }
      else if ch = 9 then microrl_get_complite rl
      else if ch = 27 then Some (rl\<lparr>escape := True\<rparr>)
      else if ch = 21 then do { rl \<leftarrow> kill_loop rl; terminal_print_line rl 0 (cursor rl) }
      else if ch = 11 then let rl = emit (Printf [27, 91, 75]) rl in Some (rl\<lparr>cmdlen := cursor rl\<rparr>)
      else if ch = 5 then Some (cursor_end rl)
      else if ch = 1 then Some (cursor_home rl)
      else if ch = 6 then Some (cursor_right rl)
      else if ch = 2 then Some (cursor_left rl)
      else if ch = 16 then hist_search rl HIST_UP
      else if ch = 14 then hist_search rl HIST_DOWN
      else if ch = 127 \<or> ch = 8 then do {
        rl \<leftarrow> microrl_backspace rl; terminal_print_line rl (cursor rl) (cursor rl) }
      else if ch = 18 then
        terminal_print_line (terminal_reset_cursor (print_prompt (terminal_newline rl))) 0 (cursor rl)
      else if ch = 3 then Some (if sigint rl then emit Sigint_call rl else rl)
      else if ch = 4 then do { (r, rl) \<leftarrow> new_line_handler (rl\<lparr>eot := True\<rparr>); Some rl }
      else if ch = 32 \<and> cmdlen rl = 0 \<or> ch \<le> 31 then Some rl
      else do {
        (ok, rl) \<leftarrow> microrl_insert_text rl [of_int ch] 1;
        if ok then terminal_print_line rl (cursor rl - 1) (cursor rl) else Some rl })"

definition microrl_insert_char :: "microrl \<Rightarrow> int \<Rightarrow> microrl option" where
  "microrl_insert_char rl ch =
     (if escape rl then do {
        (over, rl) \<leftarrow> escape_process rl (of_int ch);
        Some (if over then rl\<lparr>escape := False\<rparr> else rl) }
      else process_char rl ch)"

text \<open>The loop of \<^verbatim>\<open>microrl_readline\<close> over the characters \<^verbatim>\<open>getchar\<close> delivers; \<open>None\<close> also when they run
  out before the line ends (the call blocks).  The result is the returned string (\<open>None\<close> for the
  null pointer), the unread characters and the editor.\<close>

fun readline_loop :: "microrl \<Rightarrow> int list \<Rightarrow> (int list \<times> microrl) option" where
  "readline_loop rl input =
     (if \<not> wait_newline rl then Some (input, rl)
      else case input of
        [] \<Rightarrow> None
      | ch # input \<Rightarrow> do { rl \<leftarrow> microrl_insert_char rl ch; readline_loop rl input })"

declare readline_loop.simps [simp del]

definition microrl_readline ::
  "microrl \<Rightarrow> cstring \<Rightarrow> int list \<Rightarrow> (cstring option \<times> int list \<times> microrl) option" where
  "microrl_readline rl prompt input = do {
     let rl = emit (Printf prompt) (rl\<lparr>wait_newline := True\<rparr>);
     (rest, rl) \<leftarrow> readline_loop rl input;
     if eot rl then Some (None, rest, rl)
     else do { s \<leftarrow> cstring_at (cmdline rl) 0; Some (Some s, rest, rl) } }"

subsection \<open>Abstract editor\<close>

text \<open>A line being edited, a position in it, the saved lines and the position of the last recall, with
  the state of an escape sequence, whether a reader waits for the line and whether the end of the
  input was typed.\<close>

record editor =
  ed_text :: cstring
  ed_pos :: nat
  ed_lines :: "cstring list"
  ed_rec :: nat
  ed_escape :: bool
  ed_seq :: nat
  ed_wait :: bool
  ed_eot :: bool

definition ed_recall :: "hist_dir \<Rightarrow> editor \<Rightarrow> editor" where
  "ed_recall d ed =
     (case d of
        HIST_UP \<Rightarrow> (case recall_up (ed_lines ed) (ed_rec ed) of
            None \<Rightarrow> ed
          | Some (l, c) \<Rightarrow> ed\<lparr>ed_text := l, ed_pos := length l, ed_rec := c\<rparr>)
      | HIST_DOWN \<Rightarrow> (case recall_down (ed_lines ed) (ed_rec ed) of
            (l, c) \<Rightarrow> ed\<lparr>ed_text := l, ed_pos := length l, ed_rec := c\<rparr>))"

definition ed_right :: "editor \<Rightarrow> editor" where
  "ed_right ed = ed\<lparr>ed_pos := min (length (ed_text ed)) (ed_pos ed + 1)\<rparr>"

definition ed_left :: "editor \<Rightarrow> editor" where
  "ed_left ed = ed\<lparr>ed_pos := ed_pos ed - 1\<rparr>"

definition ed_home :: "editor \<Rightarrow> editor" where
  "ed_home ed = ed\<lparr>ed_pos := 0\<rparr>"

definition ed_end :: "editor \<Rightarrow> editor" where
  "ed_end ed = ed\<lparr>ed_pos := length (ed_text ed)\<rparr>"

definition ed_insert :: "byte \<Rightarrow> editor \<Rightarrow> editor" where
  "ed_insert c ed =
     (if length (ed_text ed) + 1 < COMMAND_LINE_LEN
      then ed\<lparr>ed_text := take (ed_pos ed) (ed_text ed) @ c # drop (ed_pos ed) (ed_text ed),
              ed_pos := ed_pos ed + 1\<rparr>
      else ed)"

definition ed_backspace :: "editor \<Rightarrow> editor" where
  "ed_backspace ed =
     (if 0 < ed_pos ed
      then ed\<lparr>ed_text := take (ed_pos ed - 1) (ed_text ed) @ drop (ed_pos ed) (ed_text ed),
              ed_pos := ed_pos ed - 1\<rparr>
      else ed)"

definition ed_enter :: "editor \<Rightarrow> editor" where
  "ed_enter ed =
     (let ed = (if ed_text ed = [] then ed
                else ed\<lparr>ed_lines := save_lines (ed_lines ed) (ed_text ed),
                        ed_rec := save_cur (ed_rec ed) (ed_text ed)\<rparr>)
      in if ed_wait ed then ed\<lparr>ed_wait := False\<rparr> else ed\<lparr>ed_text := [], ed_pos := 0, ed_rec := 0\<rparr>)"

definition ed_escape_key :: "byte \<Rightarrow> editor \<Rightarrow> editor" where
  "ed_escape_key ch ed =
     (if ch = 91 then ed\<lparr>ed_seq := ESC_BRACKET\<rparr>
      else if ed_seq ed = ESC_BRACKET \<and> ch = 55 then ed\<lparr>ed_seq := ESC_HOME\<rparr>
      else if ed_seq ed = ESC_BRACKET \<and> ch = 56 then ed\<lparr>ed_seq := ESC_END\<rparr>
      else (if ed_seq ed = ESC_BRACKET then
              if ch = 65 then ed_recall HIST_UP ed else if ch = 66 then ed_recall HIST_DOWN ed
              else if ch = 67 then ed_right ed else if ch = 68 then ed_left ed else ed
            else if ch = 126 then
              if ed_seq ed = ESC_HOME then ed_home ed
              else if ed_seq ed = ESC_END then ed_end ed else ed
            else ed)\<lparr>ed_escape := False\<rparr>)"

definition ed_key :: "int \<Rightarrow> editor \<Rightarrow> editor" where
  "ed_key ch ed =
     (if ed_escape ed then ed_escape_key (of_int ch) ed
      else if ch = 10 then ed_enter ed
      else if ch = 4 then ed_enter (ed\<lparr>ed_eot := True\<rparr>)
      else if ch = 27 then ed\<lparr>ed_escape := True\<rparr>
      else if ch = 21 then ed\<lparr>ed_text := drop (ed_pos ed) (ed_text ed), ed_pos := 0\<rparr>
      else if ch = 11 then ed\<lparr>ed_text := take (ed_pos ed) (ed_text ed)\<rparr>
      else if ch = 5 then ed_end ed
      else if ch = 1 then ed_home ed
      else if ch = 6 then ed_right ed
      else if ch = 2 then ed_left ed
      else if ch = 16 then ed_recall HIST_UP ed
      else if ch = 14 then ed_recall HIST_DOWN ed
      else if ch = 127 \<or> ch = 8 then ed_backspace ed
      else if ch \<le> 31 \<or> ch = 32 \<and> ed_text ed = [] then ed
      else ed_insert (of_int ch) ed)"

text \<open>A line buffer of \<open>COMMAND_LINE_LEN\<close> bytes, the last of them zero, whose first bytes are a text.\<close>

definition buf_holds :: "byte list \<Rightarrow> cstring \<Rightarrow> bool" where
  "buf_holds line text \<longleftrightarrow> length line = COMMAND_LINE_LEN \<and> last line = 0
     \<and> length text < COMMAND_LINE_LEN \<and> take (length text) line = text"

definition rl_refines :: "microrl \<Rightarrow> editor \<Rightarrow> bool" where
  "rl_refines rl ed \<longleftrightarrow> buf_holds (cmdline rl) (ed_text ed) \<and> cmdlen rl = length (ed_text ed)
     \<and> cursor rl = ed_pos ed \<and> ed_pos ed \<le> length (ed_text ed)
     \<and> ring_state (ring_hist rl) (ed_lines ed) (ed_rec ed)
     \<and> escape rl = ed_escape ed \<and> escape_seq rl = ed_seq ed \<and> wait_newline rl = ed_wait ed \<and> eot rl = ed_eot ed
     \<and> get_completion rl = None"

subsection \<open>Every key refines the abstract editor\<close>

lemma rl_refines_events [simp]: "rl_refines (rl\<lparr>events := evs\<rparr>) ed \<longleftrightarrow> rl_refines rl ed"
  by (simp add: rl_refines_def)

lemma emit_refines [simp]: "rl_refines (emit ev rl) ed \<longleftrightarrow> rl_refines rl ed"
  by (simp add: emit_def)

lemma emit_fields [simp]:
  "cmdline (emit ev rl) = cmdline rl" "cmdlen (emit ev rl) = cmdlen rl" "cursor (emit ev rl) = cursor rl"
  "ring_hist (emit ev rl) = ring_hist rl" "wait_newline (emit ev rl) = wait_newline rl"
  "newline (emit ev rl) = newline rl" "execute (emit ev rl) = execute rl" "eot (emit ev rl) = eot rl"
  "get_completion (emit ev rl) = get_completion rl" "escape (emit ev rl) = escape rl"
  "escape_seq (emit ev rl) = escape_seq rl" "prompt_len (emit ev rl) = prompt_len rl"
  by (simp_all add: emit_def)

lemmas terminal_defs = print_prompt_def terminal_backspace_def terminal_newline_def
  terminal_move_cursor_def terminal_reset_cursor_def Let_def

lemma refines_cmdlen: "rl_refines rl ed \<Longrightarrow> cmdlen rl = length (ed_text ed)"
  by (simp add: rl_refines_def)

lemma print_loop_events:
  "\<forall>i\<in>set is. i < length (cmdline rl) \<Longrightarrow> \<exists>evs. print_loop rl is = Some (rl\<lparr>events := evs\<rparr>)"
proof (induction "is" arbitrary: rl)
  case (Cons i "is")
  then show ?case
    using Cons.IH [of "emit (Printf [if cmdline rl ! i = 0 then 32 else cmdline rl ! i]) rl"]
    by (auto simp: emit_def)
next
  case Nil
  show ?case by (rule exI [of _ "events rl"]) simp
qed

lemma terminal_print_line_ok:
  assumes "cmdlen rl \<le> length (cmdline rl)"
  shows "\<exists>evs. terminal_print_line rl pos c = Some (rl\<lparr>events := evs\<rparr>)"
proof -
  obtain evs where "print_loop (emit (Printf [27, 91, 75]) rl) [pos..<cmdlen rl]
      = Some (emit (Printf [27, 91, 75]) rl\<lparr>events := evs\<rparr>)"
    using print_loop_events [of "[pos..<cmdlen rl]" "emit (Printf [27, 91, 75]) rl"] assms by auto
  then show ?thesis
    by (auto simp: terminal_print_line_def terminal_defs emit_def)
qed

lemma refines_print:
  assumes "rl_refines rl ed"
  shows "\<exists>rl'. terminal_print_line rl pos c = Some rl' \<and> rl_refines rl' ed"
proof -
  have "cmdlen rl \<le> length (cmdline rl)" using assms by (simp add: rl_refines_def buf_holds_def)
  from terminal_print_line_ok [OF this, of pos c] show ?thesis using assms by auto
qed

lemma buf_holds_store:
  "buf_holds line text \<Longrightarrow> n \<ge> length text \<Longrightarrow> n < COMMAND_LINE_LEN \<Longrightarrow> buf_holds (line[n := 0]) text"
  by (cases "line = []") (auto simp: buf_holds_def last_list_update)

lemma refines_show:
  assumes "rl_refines rl ed" and "buf_holds line l" and "ring_state h (ed_lines ed) c"
  shows "\<exists>rl'. do {
         line \<leftarrow> store line (length l) 0;
         let rl = rl\<lparr>ring_hist := h, cmdline := line, cursor := length l, cmdlen := length l\<rparr>;
         let rl = terminal_reset_cursor rl;
         terminal_print_line rl 0 (cursor rl) } = Some rl'
    \<and> rl_refines rl' (ed\<lparr>ed_text := l, ed_pos := length l, ed_rec := c\<rparr>)"
proof -
  let ?rl = "rl\<lparr>ring_hist := h, cmdline := line[length l := 0], cursor := length l, cmdlen := length l\<rparr>"
  have "rl_refines ?rl (ed\<lparr>ed_text := l, ed_pos := length l, ed_rec := c\<rparr>)"
    using assms buf_holds_store [OF assms(2), of "length l"]
    by (simp add: rl_refines_def buf_holds_def)
  then have "rl_refines (terminal_reset_cursor ?rl) (ed\<lparr>ed_text := l, ed_pos := length l, ed_rec := c\<rparr>)"
    by (simp add: terminal_defs)
  from refines_print [OF this, of 0 "length l"] show ?thesis
    using assms(2) by (simp add: buf_holds_def terminal_defs)
qed

lemma refines_recall:
  assumes "rl_refines rl ed"
  shows "\<exists>rl'. hist_search rl d = Some rl' \<and> rl_refines rl' (ed_recall d ed)"
proof -
  let ?down = "recall_down (ed_lines ed) (ed_rec ed)"
  have rl: "ring_state (ring_hist rl) (ed_lines ed) (ed_rec ed)" "length (cmdline rl) = COMMAND_LINE_LEN"
    "last (cmdline rl) = 0"
    using assms by (simp_all add: rl_refines_def buf_holds_def)
  obtain n h line where r: "hist_restore_line (ring_hist rl) (cmdline rl) d = Some (n, h, line)"
    "length line = COMMAND_LINE_LEN" "last line = 0"
    and c: "case d of
         HIST_UP \<Rightarrow> (case recall_up (ed_lines ed) (ed_rec ed) of
             None \<Rightarrow> n = None \<and> ring_state h (ed_lines ed) (ed_rec ed) \<and> line = cmdline rl
           | Some (l, c') \<Rightarrow> n = Some (length l) \<and> take (length l) line = l \<and> ring_state h (ed_lines ed) c')
       | HIST_DOWN \<Rightarrow> n = Some (length (fst ?down)) \<and> take (length (fst ?down)) line = fst ?down
             \<and> ring_state h (ed_lines ed) (snd ?down)"
    using ring.recall_text [OF rl(1,2), of d] rl(3) by blast
  have small: "length l < COMMAND_LINE_LEN" if "length l \<le> RING_HISTORY_LEN - 2" for l :: cstring
    using that by (simp add: RING_HISTORY_LEN_def COMMAND_LINE_LEN_def)
  show ?thesis
  proof (cases "d = HIST_UP \<and> recall_up (ed_lines ed) (ed_rec ed) = None")
    case True
    then show ?thesis
      using r(1) c assms by (simp add: hist_search_def ed_recall_def rl_refines_def)
  next
    case False
    obtain l c' where lc: "n = Some (length l)" "take (length l) line = l" "ring_state h (ed_lines ed) c'"
      "ed_recall d ed = ed\<lparr>ed_text := l, ed_pos := length l, ed_rec := c'\<rparr>"
      "length l \<le> RING_HISTORY_LEN - 2"
    proof (cases d)
      case HIST_UP
      then show ?thesis
        using c False ring.recalled_small(1) [OF rl(1)] that
        by (auto simp: ed_recall_def split: option.splits)
    next
      case HIST_DOWN
      then show ?thesis
        using c ring.recalled_small(2) [OF rl(1)] that
        by (cases ?down) (auto simp: ed_recall_def)
    qed
    have "buf_holds line l" using r lc small by (simp add: buf_holds_def)
    from refines_show [OF assms this lc(3)] show ?thesis
      using r(1) lc by (simp add: hist_search_def)
  qed
qed

lemma buf_holds_split:
  assumes "buf_holds line text"
  obtains rest where "line = text @ rest" "rest \<noteq> []" "last rest = 0"
    "length text + length rest = COMMAND_LINE_LEN"
proof
  let ?rest = "drop (length text) line"
  show "line = text @ ?rest"
    using assms append_take_drop_id [of "length text" line] by (simp add: buf_holds_def)
  show "?rest \<noteq> []" "last ?rest = 0" "length text + length ?rest = COMMAND_LINE_LEN"
    using assms by (auto simp: buf_holds_def)
qed

lemma buf_holds_append:
  "length text + length rest = COMMAND_LINE_LEN \<Longrightarrow> rest \<noteq> [] \<Longrightarrow> last rest = 0 \<Longrightarrow>
   buf_holds (text @ rest) text"
  by (cases rest) (auto simp: buf_holds_def)

lemma buf_holds_take:
  assumes "buf_holds line text"
  shows "buf_holds line (take p text)"
proof -
  have "take (length (take p text)) line = take p (take (length text) line)"
    by (simp add: min.commute)
  also have "\<dots> = take p text" using assms by (simp add: buf_holds_def)
  finally show ?thesis using assms by (auto simp: buf_holds_def)
qed

lemma insert_char_buf:
  assumes "buf_holds line text" and "p \<le> length text" and "length text + 1 < COMMAND_LINE_LEN"
  shows "\<exists>line'. do {
      line \<leftarrow> memmove line (p + 1) p (length text - p);
      line \<leftarrow> blit line p [c];
      store line (length text + 1) 0 } = Some line'
    \<and> buf_holds line' (take p text @ c # drop p text)"
proof -
  obtain rest where rest: "line = text @ rest" "rest \<noteq> []" "last rest = 0"
    "length text + length rest = COMMAND_LINE_LEN"
    using assms(1) by (rule buf_holds_split)
  then obtain a b rest' where r: "rest = a # b # rest'"
    using assms(3) by (cases rest; cases "tl rest") auto
  have move: "memmove line (p + 1) p (length text - p)
      = Some (take (p + 1) line @ drop p text @ b # rest')"
    using rest(1,4) r assms(2) by (simp add: memmove_def blit_def)
  have put: "blit (take (p + 1) line @ drop p text @ b # rest') p [c]
      = Some ((take p text @ c # drop p text) @ b # rest')"
    using rest(1) r assms(2) by (simp add: blit_def min_absorb2 Suc_diff_le)
  have "length (take p text @ c # drop p text) = length text + 1" using assms(2) by simp
  then have "store ((take p text @ c # drop p text) @ b # rest') (length text + 1) 0
      = Some ((take p text @ c # drop p text) @ 0 # rest')"
    using list_update_length [of "take p text @ c # drop p text" b rest' 0]
    by (simp del: append_assoc)
  moreover have "buf_holds ((take p text @ c # drop p text) @ 0 # rest') (take p text @ c # drop p text)"
    using rest r assms(2) by (intro buf_holds_append) (auto split: if_splits)
  ultimately show ?thesis using move put by auto
qed

lemma refines_insert:
  assumes "rl_refines rl ed"
  shows "\<exists>rl'. microrl_insert_text rl [c] 1 = Some (length (ed_text ed) + 1 < COMMAND_LINE_LEN, rl')
    \<and> rl_refines rl' (ed_insert c ed)"
proof (cases "length (ed_text ed) + 1 < COMMAND_LINE_LEN")
  case True
  obtain line' where line': "do {
      line \<leftarrow> memmove (cmdline rl) (cursor rl + 1) (cursor rl) (cmdlen rl - cursor rl);
      line \<leftarrow> blit line (cursor rl) [c];
      store line (cmdlen rl + 1) 0 } = Some line'"
    "buf_holds line' (take (cursor rl) (ed_text ed) @ c # drop (cursor rl) (ed_text ed))"
    using insert_char_buf [of "cmdline rl" "ed_text ed" "cursor rl" c] assms True
    by (auto simp: rl_refines_def)
  have "microrl_insert_text rl [c] 1
      = Some (True, rl\<lparr>cmdline := line', cursor := cursor rl + 1, cmdlen := cmdlen rl + 1\<rparr>)"
    using assms True line'(1)
    by (simp add: microrl_insert_text_def rl_refines_def nat_add_distrib bind_eq_Some_conv) blast
  with line'(2) assms True show ?thesis
    by (simp add: rl_refines_def ed_insert_def)
next
  case False
  then show ?thesis
    using assms by (simp add: microrl_insert_text_def rl_refines_def ed_insert_def)
qed

lemma backspace_buf:
  assumes "buf_holds line text" and "0 < p" and "p \<le> length text"
  shows "\<exists>line'. do {
      line \<leftarrow> memmove line (p - 1) p (length text - p + 1);
      store line (length text) 0 } = Some line'
    \<and> buf_holds line' (take (p - 1) text @ drop p text)"
proof -
  obtain rest where rest: "line = text @ rest" "rest \<noteq> []" "last rest = 0"
    "length text + length rest = COMMAND_LINE_LEN"
    using assms(1) by (rule buf_holds_split)
  then obtain a rest' where r: "rest = a # rest'" by (cases rest) auto
  have move: "memmove line (p - 1) p (length text - p + 1)
      = Some ((take (p - 1) text @ drop p text @ [a]) @ a # rest')"
    using rest(1) r assms(2,3) by (simp add: memmove_def blit_def)
  have "store ((take (p - 1) text @ drop p text @ [a]) @ a # rest') (length text) 0
      = Some ((take (p - 1) text @ drop p text) @ a # 0 # rest')"
    using assms(2,3) by (subst store_Some) (auto simp: list_update_append)
  moreover have "buf_holds ((take (p - 1) text @ drop p text) @ a # 0 # rest') (take (p - 1) text @ drop p text)"
    using rest r assms(2,3) by (intro buf_holds_append) (auto split: if_splits)
  ultimately show ?thesis using move by auto
qed

lemma refines_backspace:
  assumes "rl_refines rl ed"
  shows "\<exists>rl'. microrl_backspace rl = Some rl' \<and> rl_refines rl' (ed_backspace ed)"
proof (cases "0 < cursor rl")
  case True
  obtain line' where line': "do {
      line \<leftarrow> memmove (cmdline rl) (cursor rl - 1) (cursor rl) (cmdlen rl - cursor rl + 1);
      store line (cmdlen rl) 0 } = Some line'"
    "buf_holds line' (take (cursor rl - 1) (ed_text ed) @ drop (cursor rl) (ed_text ed))"
    using backspace_buf [of "cmdline rl" "ed_text ed" "cursor rl"] assms True
    by (auto simp: rl_refines_def)
  have "microrl_backspace rl
      = Some ((terminal_backspace rl)\<lparr>cmdline := line', cursor := cursor rl - 1, cmdlen := cmdlen rl - 1\<rparr>)"
    using assms True line'(1)
    by (simp add: microrl_backspace_def rl_refines_def terminal_defs bind_eq_Some_conv) blast
  with line'(2) assms True show ?thesis
    by (auto simp: rl_refines_def ed_backspace_def terminal_defs min_absorb2)
next
  case False
  then show ?thesis
    using assms by (simp add: microrl_backspace_def rl_refines_def ed_backspace_def)
qed

lemma refines_kill:
  assumes "rl_refines rl ed"
  shows "\<exists>rl'. kill_loop rl = Some rl'
    \<and> rl_refines rl' (ed\<lparr>ed_text := drop (ed_pos ed) (ed_text ed), ed_pos := 0\<rparr>)"
  using assms
proof (induction "ed_pos ed" arbitrary: rl ed)
  case 0
  then show ?case by (subst kill_loop.simps) (simp add: rl_refines_def)
next
  case (Suc n)
  obtain rl1 where rl1: "microrl_backspace rl = Some rl1" "rl_refines rl1 (ed_backspace ed)"
    using refines_backspace [OF Suc.prems] by blast
  have pos: "ed_pos (ed_backspace ed) = n" using Suc.hyps(2) by (simp add: ed_backspace_def)
  have "cursor rl1 = n" "cursor rl = Suc n"
    using rl1(2) Suc.prems Suc.hyps(2) pos by (simp_all add: rl_refines_def)
  moreover have "ed_pos ed \<le> length (ed_text ed)" using Suc.prems by (simp add: rl_refines_def)
  moreover from this have "(ed_backspace ed)\<lparr>ed_text := drop n (ed_text (ed_backspace ed)), ed_pos := 0\<rparr>
      = ed\<lparr>ed_text := drop (ed_pos ed) (ed_text ed), ed_pos := 0\<rparr>"
    using Suc.hyps(2) by (simp add: ed_backspace_def)
  moreover obtain rl2 where "kill_loop rl1 = Some rl2"
    "rl_refines rl2 ((ed_backspace ed)\<lparr>ed_text := drop n (ed_text (ed_backspace ed)), ed_pos := 0\<rparr>)"
    using Suc.hyps(1) [OF pos [symmetric] rl1(2)] pos by auto
  ultimately show ?case
    using rl1(1) by (subst kill_loop.simps) simp
qed

subsection \<open>Enter\<close>

lemma skip_zero_ok:
  assumes "limit < length line" and "ind \<le> limit"
  shows "\<exists>i. skip_zero line limit ind = Some i \<and> ind \<le> i \<and> i \<le> limit"
  using assms
proof (induction line limit ind rule: skip_zero.induct)
  case (1 line limit ind)
  then show ?case
    by (cases "line ! ind = 0 \<and> ind < limit") (subst skip_zero.simps, fastforce)+
qed

lemma skip_word_ok:
  assumes "limit < length line" and "ind \<le> limit"
  shows "\<exists>i. skip_word line limit ind = Some i \<and> ind \<le> i \<and> i \<le> limit"
  using assms
proof (induction line limit ind rule: skip_word.induct)
  case (1 line limit ind)
  then show ?case
    by (cases "line ! ind \<noteq> 0 \<and> ind < limit") (subst skip_word.simps, fastforce)+
qed

lemma split_loop_ok:
  assumes "limit < length line" and "ind \<le> limit" and "last line = 0"
    and "\<forall>t\<in>set tkns. t < limit"
  shows "\<exists>n ts line'. split_loop line limit ind tkns = Some (n, ts, line')
    \<and> length line' = length line \<and> last line' = 0 \<and> (\<forall>t\<in>set ts. t < limit)"
  using assms
proof (induction line limit ind tkns rule: split_loop.induct)
  case (1 line limit ind tkns)
  define line1 where "line1 = (if ind < limit \<and> line ! ind = 32 then line[ind := 0] else line)"
  have get: "(if ind < limit
             then do { c \<leftarrow> load line ind; if c = 32 then store line ind 0 else Some line }
             else Some line) = Some line1"
    using "1.prems"(1,2) by (auto simp: line1_def)
  have line1: "length line1 = length line" "last line1 = 0"
    using "1.prems"(1,3) last_list_update [of line ind 0] by (force simp: line1_def)+
  obtain i where i: "skip_zero line1 limit ind = Some i" "i \<le> limit"
    using skip_zero_ok [of limit line1 ind] "1.prems"(1,2) line1 by auto
  obtain j where j: "skip_word line1 limit i = Some j" "j \<le> limit"
    using skip_word_ok [of limit line1 i] "1.prems"(1) i(2) line1 by auto
  show ?case
  proof (cases "i < limit \<and> \<not> length (tkns @ [i]) \<ge> COMMAND_TOKEN_NMB \<and> j < limit")
    case True
    have "\<exists>n ts line'. split_loop line1 limit j (tkns @ [i]) = Some (n, ts, line')
      \<and> length line' = length line1 \<and> last line' = 0 \<and> (\<forall>t\<in>set ts. t < limit)"
      using True "1.prems" line1 j(2) by (intro "1.IH" [OF get i(1) _ refl _ j(1)]) auto
    then show ?thesis
      using True get i j line1 by (subst split_loop.simps) simp
  next
    case False
    then show ?thesis
      using get i j line1 "1.prems"(4) by (subst split_loop.simps) (auto simp: Let_def)
  qed
qed

lemma token_strings_ok:
  assumes "last line = 0" and "\<forall>t\<in>set ts. t < length line"
  shows "\<exists>ss. token_strings line ts = Some ss"
  using assms by (induction ts) (auto dest: cstring_at_total)

lemma refines_clear:
  assumes "rl_refines rl (ed\<lparr>ed_text := t\<rparr>)"
  shows "\<exists>rl'. clear_line rl = Some rl'
    \<and> rl_refines rl' (ed\<lparr>ed_text := [], ed_pos := 0, ed_rec := 0\<rparr>)"
  using assms ring_state_reset [of "ring_hist rl" "ed_lines ed" "ed_rec ed"]
  by (simp add: clear_line_def rl_refines_def buf_holds_def memset_def blit_def COMMAND_LINE_LEN_def)

text \<open>Splitting only writes zeros over spaces of the buffer, so the text may change but not its
  length.\<close>

lemma refines_execute:
  assumes "rl_refines rl ed"
  shows "\<exists>bexit rl' t. execute_line rl = Some (bexit, rl') \<and> rl_refines rl' (ed\<lparr>ed_text := t\<rparr>)"
proof -
  have rl: "cmdlen rl < length (cmdline rl)" "last (cmdline rl) = 0"
    using assms by (simp_all add: rl_refines_def buf_holds_def)
  obtain n ts line' where sp: "split_loop (cmdline rl) (cmdlen rl) 0 [] = Some (n, ts, line')"
    "length line' = length (cmdline rl)" "last line' = 0" "\<forall>t\<in>set ts. t < cmdlen rl"
    using split_loop_ok [of "cmdlen rl" "cmdline rl" 0 "[]"] rl by auto
  obtain ss where ss: "token_strings line' ts = Some ss"
    using token_strings_ok [OF sp(3), of ts] sp(2,4) rl by fastforce
  let ?t = "take (cmdlen rl) line'"
  have "rl_refines (rl\<lparr>cmdline := line'\<rparr>) (ed\<lparr>ed_text := ?t\<rparr>)"
    using assms sp rl by (simp add: rl_refines_def buf_holds_def min_absorb2)
  then show ?thesis
    using sp(1) ss
    by (cases "execute rl") (auto simp: execute_line_def split_def Let_def intro!: exI [of _ ?t])
qed

lemma ed_enter_fields:
  "ed_enter ed = (let ed' = (if ed_text ed = [] then ed
                else ed\<lparr>ed_lines := save_lines (ed_lines ed) (ed_text ed),
                        ed_rec := save_cur (ed_rec ed) (ed_text ed)\<rparr>)
      in if ed_wait ed then ed'\<lparr>ed_wait := False\<rparr> else ed'\<lparr>ed_text := [], ed_pos := 0, ed_rec := 0\<rparr>)"
  by (simp add: ed_enter_def)

lemma refines_save:
  assumes "rl_refines rl ed"
  shows "\<exists>rl'. (if cmdlen rl > 0
           then do {
             h \<leftarrow> hist_save_line (ring_hist rl) (cmdline rl) (cmdlen rl);
             Some (rl\<lparr>ring_hist := h\<rparr>) }
           else Some rl) = Some rl'
    \<and> rl_refines rl' (if ed_text ed = [] then ed
        else ed\<lparr>ed_lines := save_lines (ed_lines ed) (ed_text ed),
                ed_rec := save_cur (ed_rec ed) (ed_text ed)\<rparr>)"
proof (cases "ed_text ed = []")
  case True
  then show ?thesis using assms by (simp add: rl_refines_def)
next
  case False
  have "\<exists>h'. hist_save_line (ring_hist rl) (cmdline rl) (cmdlen rl) = Some h'
    \<and> ring_state h' (save_lines (ed_lines ed) (ed_text ed)) (save_cur (ed_rec ed) (ed_text ed))"
    using ring.save_law [of "ring_hist rl" "ed_lines ed" "ed_rec ed" "cmdlen rl" "cmdline rl"] assms False
    by (simp add: rl_refines_def buf_holds_def)
  then show ?thesis using assms False by (auto simp: rl_refines_def)
qed

lemma refines_enter:
  assumes "rl_refines rl ed"
  shows "\<exists>r rl'. new_line_handler rl = Some (r, rl') \<and> rl_refines rl' (ed_enter ed)"
proof -
  define ed1 where "ed1 = (if ed_text ed = [] then ed
        else ed\<lparr>ed_lines := save_lines (ed_lines ed) (ed_text ed),
                ed_rec := save_cur (ed_rec ed) (ed_text ed)\<rparr>)"
  define rl0 where "rl0 = terminal_newline rl"
  have "rl_refines rl0 ed" using assms by (simp add: rl0_def terminal_defs)
  then obtain rl1 where rl1: "(if cmdlen rl0 > 0
           then do {
             h \<leftarrow> hist_save_line (ring_hist rl0) (cmdline rl0) (cmdlen rl0);
             Some (rl0\<lparr>ring_hist := h\<rparr>) }
           else Some rl0) = Some rl1" "rl_refines rl1 ed1"
    using refines_save [of rl0 ed] unfolding ed1_def by blast
  show ?thesis
  proof (cases "ed_wait ed")
    case True
    then have "wait_newline rl1" using rl1(2) by (simp add: rl_refines_def ed1_def)
    moreover have "rl_refines (rl1\<lparr>wait_newline := False\<rparr>) (ed_enter ed)"
      using rl1(2) True by (simp add: rl_refines_def ed_enter_def ed1_def [symmetric]) (simp add: ed1_def)
    ultimately show ?thesis
      using rl1(1) unfolding new_line_handler_def rl0_def [symmetric] Let_def by auto
  next
    case False
    then have wait: "\<not> wait_newline rl1" using rl1(2) by (simp add: rl_refines_def ed1_def)
    have "cstring_at (cmdline rl1) 0 \<noteq> None"
      using rl1(2) cstring_at_total [of "cmdline rl1" 0]
      by (auto simp: rl_refines_def buf_holds_def)
    then obtain s where s: "cstring_at (cmdline rl1) 0 = Some s" by auto
    obtain bexit rl2 t where rl2: "(case newline rl1 of
           Some f \<Rightarrow> do {
             s \<leftarrow> cstring_at (cmdline rl1) 0;
             Some (f s, emit (Newline_call s) rl1) }
         | None \<Rightarrow> execute_line rl1) = Some (bexit, rl2)" "rl_refines rl2 (ed1\<lparr>ed_text := t\<rparr>)"
    proof (cases "newline rl1")
      case None
      then show ?thesis using refines_execute [OF rl1(2)] that by auto
    next
      case (Some f)
      then show ?thesis using s rl1(2) that [of "f s" "emit (Newline_call s) rl1" "ed_text ed1"] by simp
    qed
    define rl3 where "rl3 = (if \<not> bexit then print_prompt rl2 else rl2)"
    have "rl_refines rl3 (ed1\<lparr>ed_text := t\<rparr>)" using rl2(2) by (simp add: rl3_def terminal_defs)
    then obtain rl4 where "clear_line rl3 = Some rl4"
      "rl_refines rl4 (ed1\<lparr>ed_text := [], ed_pos := 0, ed_rec := 0\<rparr>)"
      using refines_clear by blast
    moreover have "ed_enter ed = ed1\<lparr>ed_text := [], ed_pos := 0, ed_rec := 0\<rparr>"
      using False by (simp add: ed_enter_def ed1_def)
    ultimately show ?thesis
      using rl1(1) rl2(1) wait unfolding new_line_handler_def rl0_def [symmetric] Let_def
      by (auto simp: rl3_def)
  qed
qed

subsection \<open>All keys\<close>

lemma refines_moves:
  assumes "rl_refines rl ed"
  shows "rl_refines (cursor_right rl) (ed_right ed)" "rl_refines (cursor_left rl) (ed_left ed)"
    "rl_refines (cursor_home rl) (ed_home ed)" "rl_refines (cursor_end rl) (ed_end ed)"
  using assms
  by (auto simp add: rl_refines_def cursor_right_def cursor_left_def cursor_home_def cursor_end_def
      ed_right_def ed_left_def ed_home_def ed_end_def terminal_defs min_def)

lemma refines_escape_field:
  "rl_refines rl ed \<Longrightarrow> rl_refines (rl\<lparr>escape := b\<rparr>) (ed\<lparr>ed_escape := b\<rparr>)"
  "rl_refines rl ed \<Longrightarrow> rl_refines (rl\<lparr>escape_seq := q\<rparr>) (ed\<lparr>ed_seq := q\<rparr>)"
  by (simp_all add: rl_refines_def)

lemma refines_escape_key:
  assumes "rl_refines rl ed" and "ed_escape ed"
  shows "\<exists>over rl'. escape_process rl ch = Some (over, rl')
    \<and> rl_refines (if over then rl'\<lparr>escape := False\<rparr> else rl') (ed_escape_key ch ed)"
proof -
  have seq: "escape_seq rl = ed_seq ed" using assms(1) by (simp add: rl_refines_def)
  obtain up down where up: "hist_search rl HIST_UP = Some up" "rl_refines up (ed_recall HIST_UP ed)"
    and down: "hist_search rl HIST_DOWN = Some down" "rl_refines down (ed_recall HIST_DOWN ed)"
    using refines_recall [OF assms(1)] by blast
  note esc = refines_escape_field(1) [where b = False]
  show ?thesis
    using seq up(1) down(1) esc [OF assms(1)] esc [OF up(2)] esc [OF down(2)]
      refines_moves [OF assms(1), THEN esc] refines_escape_field(2) [OF assms(1)]
    unfolding escape_process_def ed_escape_key_def
    by (auto simp: ESC_BRACKET_def ESC_HOME_def ESC_END_def)
qed

lemma refines_eot: "rl_refines rl ed \<Longrightarrow> rl_refines (rl\<lparr>eot := b\<rparr>) (ed\<lparr>ed_eot := b\<rparr>)"
  by (simp add: rl_refines_def)

lemma refines_process_char:
  assumes "rl_refines rl ed" and "\<not> ed_escape ed"
  shows "\<exists>rl'. process_char rl ch = Some rl' \<and> rl_refines rl' (ed_key ch ed)"
proof -
  have len: "cmdlen rl = 0 \<longleftrightarrow> ed_text ed = []" and comp: "get_completion rl = None"
    using assms(1) by (simp_all add: rl_refines_def)
  note rl = assms(1)
  consider "ch = 13" | "ch = 10" | "ch = 9" | "ch = 27" | "ch = 21" | "ch = 11" | "ch = 5" | "ch = 1"
    | "ch = 6" | "ch = 2" | "ch = 16" | "ch = 14" | "ch = 127 \<or> ch = 8" | "ch = 18" | "ch = 3" | "ch = 4"
    | (skip) "ch \<notin> {13, 10, 9, 27, 21, 11, 5, 1, 6, 2, 16, 14, 127, 8, 18, 3, 4}"
        "ch \<le> 31 \<or> ch = 32 \<and> ed_text ed = []"
    | (put) "ch \<notin> {13, 10, 9, 27, 21, 11, 5, 1, 6, 2, 16, 14, 127, 8, 18, 3, 4}"
        "\<not> (ch \<le> 31 \<or> ch = 32 \<and> ed_text ed = [])"
    by blast
  then show ?thesis
  proof cases
    case 2
    then show ?thesis
      using refines_enter [OF rl] assms(2) by (auto simp: process_char_def ed_key_def)
  next
    case 5
    obtain rl1 where rl1: "kill_loop rl = Some rl1"
      "rl_refines rl1 (ed\<lparr>ed_text := drop (ed_pos ed) (ed_text ed), ed_pos := 0\<rparr>)"
      using refines_kill [OF rl] by blast
    then show ?thesis
      using 5 refines_print [OF rl1(2), of 0 "cursor rl1"] assms(2) by (simp add: process_char_def ed_key_def)
  next
    case 6
    have "rl_refines ((emit (Printf [27, 91, 75]) rl)\<lparr>cmdlen := cursor rl\<rparr>) (ed\<lparr>ed_text := take (ed_pos ed) (ed_text ed)\<rparr>)"
      using rl buf_holds_take [of "cmdline rl" "ed_text ed" "ed_pos ed"]
      by (simp add: rl_refines_def min_absorb2)
    then show ?thesis using 6 assms(2) by (simp add: process_char_def ed_key_def)
  next
    case 11
    then show ?thesis
      using refines_recall [OF rl] assms(2) by (simp add: process_char_def ed_key_def)
  next
    case 12
    then show ?thesis
      using refines_recall [OF rl] assms(2) by (simp add: process_char_def ed_key_def)
  next
    case 13
    obtain rl1 where rl1: "microrl_backspace rl = Some rl1" "rl_refines rl1 (ed_backspace ed)"
      using refines_backspace [OF rl] by blast
    then show ?thesis
      using 13 refines_print [OF rl1(2), of "cursor rl1" "cursor rl1"] assms(2)
      by (auto simp: process_char_def ed_key_def)
  next
    case 14
    have "rl_refines (terminal_reset_cursor (print_prompt (terminal_newline rl))) ed"
      using rl by (simp add: terminal_defs)
    from refines_print [OF this, of 0 "cursor rl"] show ?thesis
      using 14 assms(2) by (simp add: process_char_def ed_key_def)
  next
    case 16
    then show ?thesis
      using refines_enter [OF refines_eot [OF rl, of True]] assms(2)
      by (auto simp: process_char_def ed_key_def)
  next
    case skip
    then show ?thesis using rl len assms(2) by (auto simp: process_char_def ed_key_def)
  next
    case put
    obtain rl1 where rl1: "microrl_insert_text rl [of_int ch] 1
        = Some (length (ed_text ed) + 1 < COMMAND_LINE_LEN, rl1)" "rl_refines rl1 (ed_insert (of_int ch) ed)"
      using refines_insert [OF rl, of "of_int ch"] by blast
    then show ?thesis
      using put refines_print [OF rl1(2), of "cursor rl1 - 1" "cursor rl1"] assms(2) len
      by (auto simp: process_char_def ed_key_def)
  qed (use rl assms(2) refines_moves [OF rl] refines_escape_field [OF rl] len comp in
      \<open>simp_all add: process_char_def ed_key_def microrl_get_complite_def\<close>)
qed

lemma refines_key:
  assumes "rl_refines rl ed"
  shows "\<exists>rl'. microrl_insert_char rl ch = Some rl' \<and> rl_refines rl' (ed_key ch ed)"
proof (cases "ed_escape ed")
  case True
  then have "escape rl" using assms by (simp add: rl_refines_def)
  with refines_escape_key [OF assms True, of "of_int ch"] True show ?thesis
    by (force simp: microrl_insert_char_def ed_key_def)
next
  case False
  then have "\<not> escape rl" using assms by (simp add: rl_refines_def)
  with refines_process_char [OF assms False] show ?thesis by (simp add: microrl_insert_char_def)
qed

subsection \<open>Typed text stays terminated\<close>

definition terminated :: "microrl \<Rightarrow> bool" where
  "terminated rl \<longleftrightarrow> cmdline rl ! cmdlen rl = 0"

lemma terminated_cstring:
  assumes "rl_refines rl ed" and "terminated rl" and "is_cstring (ed_text ed)"
  shows "cstring_at (cmdline rl) 0 = Some (ed_text ed)"
proof -
  obtain rest where rest: "cmdline rl = ed_text ed @ rest" "rest \<noteq> []"
    using assms(1) by (auto simp: rl_refines_def elim: buf_holds_split)
  then have "hd rest = 0"
    using assms(1,2) by (cases rest) (simp_all add: terminated_def rl_refines_def)
  with rest have "cmdline rl = [] @ ed_text ed @ 0 # tl rest" by (cases rest) auto
  then show ?thesis using cstring_at_split [OF assms(3), of 0 "[]" "tl rest"] by simp
qed

lemma insert_text_terminated:
  assumes "microrl_insert_text rl text len = Some (ok, rl')" and "terminated rl"
  shows "terminated rl'"
  using assms
  by (auto simp: microrl_insert_text_def terminated_def bind_eq_Some_conv Let_def store_def
      split: if_splits)

lemma print_line_fields:
  assumes "rl_refines rl ed" and "terminal_print_line rl pos c = Some rl'"
  shows "\<exists>evs. rl' = rl\<lparr>events := evs\<rparr>"
  using terminal_print_line_ok [of rl pos c] assms
  by (auto simp: rl_refines_def buf_holds_def)

lemma type_char_terminated:
  assumes "rl_refines rl ed" and "\<not> ed_escape ed" and "terminated rl"
    and "ch > 31" and "ch \<noteq> 127" and "microrl_insert_char rl ch = Some rl'"
  shows "terminated rl'"
proof (cases "ch = 32 \<and> cmdlen rl = 0")
  case True
  then have "rl' = rl"
    using assms by (simp add: microrl_insert_char_def process_char_def rl_refines_def)
  then show ?thesis using assms(3) by simp
next
  case False
  obtain rl1 where rl1: "microrl_insert_text rl [of_int ch] 1
      = Some (length (ed_text ed) + 1 < COMMAND_LINE_LEN, rl1)" "rl_refines rl1 (ed_insert (of_int ch) ed)"
    using refines_insert [OF assms(1), of "of_int ch"] by blast
  have "(if length (ed_text ed) + 1 < COMMAND_LINE_LEN
      then terminal_print_line rl1 (cursor rl1 - 1) (cursor rl1) else Some rl1) = Some rl'"
    using assms False rl1(1) by (auto simp: microrl_insert_char_def process_char_def rl_refines_def)
  then obtain evs where "rl' = rl1 \<or> rl' = rl1\<lparr>events := evs\<rparr>"
    using print_line_fields [OF rl1(2)] by (auto split: if_splits)
  then show ?thesis
    using insert_text_terminated [OF rl1(1) assms(3)] by (auto simp: terminated_def)
qed

text \<open>Printable characters typed at the end of a line.\<close>

definition printable :: "byte \<Rightarrow> bool" where
  "printable c \<longleftrightarrow> 31 < uint c \<and> uint c \<noteq> 127"

lemma ed_key_insert:
  "\<not> ed_escape ed \<Longrightarrow> 31 < ch \<Longrightarrow> ch \<noteq> 127 \<Longrightarrow> (ch = 32 \<longrightarrow> ed_text ed \<noteq> []) \<Longrightarrow>
   ed_key ch ed = ed_insert (of_int ch) ed"
  by (auto simp: ed_key_def)

lemma ed_key_printable:
  assumes "printable c" and "\<not> ed_escape ed" and "ed_pos ed = length (ed_text ed)"
    and "length (ed_text ed) + 1 < COMMAND_LINE_LEN" and "ed_text ed = [] \<longrightarrow> c \<noteq> 32"
  shows "ed_key (uint c) ed = ed\<lparr>ed_text := ed_text ed @ [c], ed_pos := ed_pos ed + 1\<rparr>"
proof -
  have "uint c = 32 \<longleftrightarrow> c = 32" by (simp add: word_uint_eq_iff)
  then have "ed_key (uint c) ed = ed_insert (of_int (uint c)) ed"
    using assms by (intro ed_key_insert) (auto simp: printable_def)
  then show ?thesis using assms(3,4) by (simp add: ed_insert_def)
qed

lemma readline_loop_typed:
  assumes "rl_refines rl ed" and "terminated rl" and "\<not> ed_escape ed" and "ed_wait ed"
    and "ed_pos ed = length (ed_text ed)" and "list_all printable s"
    and "length (ed_text ed) + length s < COMMAND_LINE_LEN"
    and "ed_text ed = [] \<longrightarrow> s \<noteq> [] \<longrightarrow> hd s \<noteq> 32"
  shows "\<exists>rl'. readline_loop rl (map uint s @ input) = readline_loop rl' input
    \<and> rl_refines rl' (ed\<lparr>ed_text := ed_text ed @ s, ed_pos := length (ed_text ed @ s)\<rparr>) \<and> terminated rl'"
  using assms
proof (induction s arbitrary: rl ed)
  case Nil
  then show ?case by (auto intro!: exI [of _ rl] simp: rl_refines_def)
next
  case (Cons c s)
  let ?ed = "ed\<lparr>ed_text := ed_text ed @ [c], ed_pos := ed_pos ed + 1\<rparr>"
  have c: "printable c" "list_all printable s" using Cons.prems(6) by auto
  obtain rl1 where rl1: "microrl_insert_char rl (uint c) = Some rl1" "rl_refines rl1 ?ed"
    using refines_key [OF Cons.prems(1), of "uint c"] Cons.prems c(1)
      ed_key_printable [OF c(1) Cons.prems(3,5)] by auto
  have "terminated rl1"
    using type_char_terminated [OF Cons.prems(1,3,2) _ _ rl1(1)] c(1)
    by (simp add: printable_def)
  then obtain rl2 where "readline_loop rl1 (map uint s @ input) = readline_loop rl2 input"
    "rl_refines rl2 (?ed\<lparr>ed_text := ed_text ?ed @ s, ed_pos := length (ed_text ?ed @ s)\<rparr>)" "terminated rl2"
    using Cons.IH [OF rl1(2)] Cons.prems c(2) by auto
  moreover have "wait_newline rl" using Cons.prems(1,4) by (simp add: rl_refines_def)
  ultimately show ?case
    using rl1(1) by (subst readline_loop.simps) (auto intro!: exI [of _ rl2])
qed

lemma enter_waiting:
  assumes "rl_refines rl ed" and "ed_wait ed" and "new_line_handler rl = Some (r, rl')"
  shows "cmdline rl' = cmdline rl \<and> cmdlen rl' = cmdlen rl"
proof -
  have "wait_newline rl" using assms(1,2) by (simp add: rl_refines_def)
  then show ?thesis
    using assms(3)
    by (auto simp: new_line_handler_def terminal_defs bind_eq_Some_conv split: if_splits)
qed

lemma enter_reading:
  assumes "rl_refines rl ed" and "\<not> ed_escape ed" and "ed_wait ed" and "terminated rl"
    and "is_cstring (ed_text ed)" and "k = 10 \<or> k = 4"
  shows "\<exists>rl'. microrl_insert_char rl k = Some rl' \<and> rl_refines rl' (ed_key k ed)
    \<and> cstring_at (cmdline rl') 0 = Some (ed_text ed)"
proof -
  obtain rl' where rl': "microrl_insert_char rl k = Some rl'" "rl_refines rl' (ed_key k ed)"
    using refines_key [OF assms(1)] by blast
  have "\<not> escape rl" using assms(1,2) by (simp add: rl_refines_def)
  then have "\<exists>b r. new_line_handler (rl\<lparr>eot := b\<rparr>) = Some (r, rl')"
    using rl'(1) assms(6) unfolding microrl_insert_char_def process_char_def
    by (auto simp: bind_eq_Some_conv intro: exI [of _ "eot rl"])
  then have "cmdline rl' = cmdline rl"
    using enter_waiting [OF refines_eot [OF assms(1)]] assms(3) by fastforce
  then show ?thesis
    using rl' terminated_cstring [OF assms(1,4,5)] by simp
qed

lemma ed_key_enter:
  assumes "\<not> ed_escape ed" and "ed_wait ed" and "k = 10 \<or> k = 4"
  shows "\<not> ed_wait (ed_key k ed) \<and> (ed_eot (ed_key k ed) \<longleftrightarrow> ed_eot ed \<or> k = 4)"
proof -
  have *: "\<not> ed_wait (ed_enter e) \<and> ed_eot (ed_enter e) = ed_eot e" if "ed_wait e" for e
    using that by (simp add: ed_enter_def)
  from assms(3) show ?thesis
    using assms(1,2) * [of ed] * [of "ed\<lparr>ed_eot := True\<rparr>"] by (elim disjE) (simp_all add: ed_key_def)
qed

subsection \<open>Splitting and completing\<close>

lemma skip_zero_stop: "ind < length line \<Longrightarrow> line ! ind \<noteq> 0 \<Longrightarrow> skip_zero line limit ind = Some ind"
  by (subst skip_zero.simps) simp

lemma skip_word_all:
  assumes "\<forall>i<limit. line ! i \<noteq> 0" and "limit < length line" and "ind \<le> limit"
  shows "skip_word line limit ind = Some limit"
  using assms(3)
proof (induction "limit - ind" arbitrary: ind)
  case 0
  then show ?case using assms(2) by (subst skip_word.simps) simp
next
  case (Suc n)
  then have "skip_word line limit (Suc ind) = Some limit" by (intro Suc.hyps(1)) linarith+
  then show ?case
    using Suc.hyps(2) Suc.prems assms(1,2) by (subst skip_word.simps) simp
qed

lemma split_loop_single:
  assumes "\<forall>i<limit. line ! i \<noteq> 0" and "limit < length line" and "0 < limit" and "line ! 0 \<noteq> 32"
  shows "split_loop line limit 0 [] = Some (1, [0], line)"
proof -
  have "line ! 0 \<noteq> 0" "0 < length line" using assms(1-3) by auto
  then show ?thesis
    using assms skip_zero_stop [of 0 line limit] skip_word_all [OF assms(1,2), of 0]
    by (subst split_loop.simps) (simp add: COMMAND_TOKEN_NMB_def)
qed

lemma shortest_loop_in: "shortest_loop s as \<in> insert s (set as)"
proof (induction as arbitrary: s)
  case (Cons a as)
  then show ?case using Cons.IH [of a] Cons.IH [of s] by auto
qed simp

lemma shortest_loop_le:
  "length (shortest_loop s as) \<le> length s \<and> (\<forall>a\<in>set as. length (shortest_loop s as) \<le> length a)"
proof (induction as arbitrary: s)
  case (Cons a as)
  then show ?case using Cons.IH [of a] Cons.IH [of s] by (cases "length a < length s") fastforce+
qed simp

text \<open>\<open>common_loop\<close> returns the first position at which some string differs from the shortest one.\<close>

lemma common_loop_first:
  assumes "i \<le> length s" and "\<forall>j<i. \<forall>a\<in>set arr. s ! j = a ! j"
  shows "common_loop s arr i \<le> length s
    \<and> (\<forall>j<common_loop s arr i. \<forall>a\<in>set arr. s ! j = a ! j)
    \<and> (common_loop s arr i < length s \<longrightarrow> (\<exists>a\<in>set arr. s ! common_loop s arr i \<noteq> a ! common_loop s arr i))"
  using assms
proof (induction s arr i rule: common_loop.induct)
  case (1 s arr i)
  show ?case
  proof (cases "i < length s \<and> \<not> (\<exists>a\<in>set arr. s ! i \<noteq> a ! i)")
    case True
    then have "common_loop s arr i = common_loop s arr (Suc i)"
      by (subst common_loop.simps) simp
    moreover have "\<forall>j<Suc i. \<forall>a\<in>set arr. s ! j = a ! j"
      using "1.prems"(2) True less_Suc_eq by auto
    moreover have "Suc i \<le> length s" using True by simp
    ultimately show ?thesis using "1.IH" True by presburger
  next
    case False
    then have "common_loop s arr i = i" by (subst common_loop.simps) auto
    then show ?thesis using 1 False by auto
  qed
qed

subsection \<open>Properties\<close>

fun type_keys :: "int list \<Rightarrow> microrl \<Rightarrow> microrl option" where
  "type_keys [] rl = Some rl"
| "type_keys (ch # chs) rl = do { rl \<leftarrow> microrl_insert_char rl ch; type_keys chs rl }"

lemma type_keys_refines:
  assumes "rl_refines rl ed"
  shows "\<exists>rl'. type_keys chs rl = Some rl' \<and> rl_refines rl' (fold ed_key chs ed)"
  using assms
proof (induction chs arbitrary: rl ed)
  case (Cons ch chs)
  obtain rl1 where "microrl_insert_char rl ch = Some rl1" "rl_refines rl1 (ed_key ch ed)"
    using refines_key [OF Cons.prems] by blast
  with Cons.IH show ?case by simp
qed simp

definition blank_editor :: editor where
  "blank_editor = \<lparr>ed_text = [], ed_pos = 0, ed_lines = [], ed_rec = 0, ed_escape = False, ed_seq = 0,
     ed_wait = False, ed_eot = False\<rparr>"

definition blank_microrl :: microrl where
  "blank_microrl = \<lparr>escape_seq = 0, escape = False, ring_hist = empty_history, prompt_str = [],
     prompt_len = 0, cmdline = [], cmdlen = 0, cursor = 0, execute = None, newline = None, eot = False,
     wait_newline = False, get_completion = None, sigint = False, events = []\<rparr>"

lemma init_refines:
  assumes "\<not> escape rl" and "escape_seq rl = 0" and "\<not> wait_newline rl"
  shows "rl_refines (microrl_init rl) blank_editor \<and> terminated (microrl_init rl)"
  using assms empty_history_state
  by (simp add: rl_refines_def microrl_init_def blank_editor_def buf_holds_def COMMAND_LINE_LEN_def
      empty_history_def terminated_def)

lemma refines_newline_callback:
  "rl_refines rl ed \<Longrightarrow> rl_refines (microrl_set_newline_callback rl f) ed"
  by (simp add: rl_refines_def microrl_set_newline_callback_def)

text \<open>C4. Without a completion callback, every sequence of keys (any characters, control keys and
  escape sequences) is processed without an access outside the line or history buffers, and the
  line, the cursor, the history and the escape state follow the abstract editor.\<close>

theorem editor_refines:
  assumes "rl_refines rl ed"
  shows "\<exists>rl'. type_keys chs rl = Some rl' \<and> rl_refines rl' (fold ed_key chs ed)"
  using assms by (rule type_keys_refines)

theorem editor_refines_witness:
  "\<exists>rl'. type_keys [65, 66, 2, 67, 10, 16] (microrl_init blank_microrl) = Some rl'
    \<and> rl_refines rl' (fold ed_key [65, 66, 2, 67, 10, 16] blank_editor)"
  by (rule editor_refines, rule conjunct1, rule init_refines) (simp_all add: blank_microrl_def)

text \<open>C32. Reading a line: printable characters typed on an empty line and closed by a line feed are
  the string \<open>microrl_readline\<close> returns; closed by Ctrl-D they make it return the null pointer.  The
  characters behind are left in the input.\<close>

theorem readline_returns_line:
  assumes "rl_refines rl ed" and "terminated rl" and "ed_text ed = []" and "\<not> ed_escape ed"
    and "\<not> ed_eot ed" and "list_all printable s" and "length s < COMMAND_LINE_LEN"
    and "s \<noteq> [] \<longrightarrow> hd s \<noteq> 32" and "k = 10 \<or> k = 4"
  shows "\<exists>rl'. microrl_readline rl prompt (map uint s @ k # input)
    = Some (if k = 10 then Some s else None, input, rl')"
proof -
  let ?ed = "ed\<lparr>ed_wait := True\<rparr>"
  let ?typed = "?ed\<lparr>ed_text := ed_text ?ed @ s, ed_pos := length (ed_text ?ed @ s)\<rparr>"
  define rl0 where "rl0 = emit (Printf prompt) (rl\<lparr>wait_newline := True\<rparr>)"
  have rl0: "rl_refines rl0 ?ed" "terminated rl0"
    using assms(1,2) by (simp_all add: rl0_def rl_refines_def terminated_def)
  have pos: "ed_pos ed = 0" using assms(1,3) by (simp add: rl_refines_def)
  obtain rl1 where rl1: "readline_loop rl0 (map uint s @ k # input) = readline_loop rl1 (k # input)"
    "rl_refines rl1 ?typed" "terminated rl1"
    using readline_loop_typed [OF rl0, of s "k # input"] assms pos by auto
  have "is_cstring s"
    using assms(6) by (auto simp: is_cstring_def list_all_iff printable_def)
  then obtain rl2 where rl2: "microrl_insert_char rl1 k = Some rl2" "rl_refines rl2 (ed_key k ?typed)"
    "cstring_at (cmdline rl2) 0 = Some s"
    using enter_reading [OF rl1(2) _ _ rl1(3) _ assms(9)] assms(3,4) by auto
  have w1: "wait_newline rl1" using rl1(2) by (simp add: rl_refines_def)
  have "wait_newline rl2 = ed_wait (ed_key k ?typed)" "eot rl2 = ed_eot (ed_key k ?typed)"
    using rl2(2) by (simp_all add: rl_refines_def)
  then have w2: "\<not> wait_newline rl2" and eot: "eot rl2 \<longleftrightarrow> k = 4"
    using ed_key_enter [of ?typed k] assms(4,5,9) by simp_all
  have "readline_loop rl1 (k # input) = readline_loop rl2 input"
    using rl2(1) w1 by (subst readline_loop.simps) simp
  also have "\<dots> = Some (input, rl2)"
    using w2 by (subst readline_loop.simps) simp
  finally have "readline_loop rl0 (map uint s @ k # input) = Some (input, rl2)"
    using rl1(1) by simp
  then show ?thesis
    using rl2(3) eot assms(9) unfolding microrl_readline_def rl0_def [symmetric] Let_def
    by auto
qed

theorem readline_returns_line_witness:
  "\<exists>rl'. microrl_readline (microrl_init blank_microrl) [62] (map uint [72 :: byte, 105] @ 10 # [33])
    = Some (if (10 :: int) = 10 then Some [72, 105] else None, [33], rl')"
proof (rule readline_returns_line)
  show "rl_refines (microrl_init blank_microrl) blank_editor" "terminated (microrl_init blank_microrl)"
    using init_refines [of blank_microrl] by (simp_all add: blank_microrl_def)
qed (simp_all add: blank_editor_def printable_def COMMAND_LINE_LEN_def)

text \<open>Ctrl-K cuts the line at the cursor in the editor, but not in the buffer: after it, Enter
  hands the text from before the cut to the newline callback.\<close>

theorem kill_line_not_cut:
  assumes "rl_refines rl ed" and "terminated rl" and "is_cstring (ed_text ed)"
    and "\<not> ed_escape ed" and "\<not> ed_wait ed" and "newline rl = Some f"
  shows "\<exists>rla rlb. microrl_insert_char rl 11 = Some rla
    \<and> take (cmdlen rla) (cmdline rla) = take (ed_pos ed) (ed_text ed)
    \<and> microrl_insert_char rla 10 = Some rlb
    \<and> Newline_call (ed_text ed) \<in> set (drop (length (events rla)) (events rlb))"
proof -
  define rla where "rla = (emit (Printf [27, 91, 75]) rl)\<lparr>cmdlen := cursor rl\<rparr>"
  have esc: "\<not> escape rl" "\<not> escape rla" using assms(1,4) by (simp_all add: rl_refines_def rla_def)
  then have k: "microrl_insert_char rl 11 = Some rla"
    by (simp add: microrl_insert_char_def process_char_def rla_def)
  have ref: "rl_refines rla (ed\<lparr>ed_text := take (ed_pos ed) (ed_text ed)\<rparr>)"
    using refines_key [OF assms(1), of 11] k assms(4) by (simp add: ed_key_def)
  have str: "cstring_at (cmdline rla) 0 = Some (ed_text ed)"
    using terminated_cstring [OF assms(1-3)] by (simp add: rla_def)
  define rl0 where "rl0 = terminal_newline rla"
  obtain rl1 where rl1: "(if cmdlen rl0 > 0
           then do {
             h \<leftarrow> hist_save_line (ring_hist rl0) (cmdline rl0) (cmdlen rl0);
             Some (rl0\<lparr>ring_hist := h\<rparr>) }
           else Some rl0) = Some rl1"
    using refines_save [of rl0] ref by (fastforce simp: rl0_def terminal_defs)
  then obtain h where h: "rl1 = rl0\<lparr>ring_hist := h\<rparr>"
    by (auto simp: bind_eq_Some_conv split: if_splits intro: that [of "ring_hist rl0"])
  define rl2 where "rl2 = (if \<not> f (ed_text ed) then print_prompt (emit (Newline_call (ed_text ed)) rl1)
    else emit (Newline_call (ed_text ed)) rl1)"
  have wait: "\<not> wait_newline rl1" "newline rl1 = Some f" "cmdline rl1 = cmdline rla"
    using assms(1,5,6) by (simp_all add: h rl0_def rla_def terminal_defs rl_refines_def emit_def)
  have len: "length (cmdline rl2) = COMMAND_LINE_LEN"
    using ref wait(3) by (simp add: rl2_def rl_refines_def buf_holds_def print_prompt_def)
  have "new_line_handler rla = do { rl \<leftarrow> clear_line rl2; Some (False, rl) }"
    using rl1 wait str unfolding new_line_handler_def rl0_def [symmetric] Let_def
    by (simp add: rl2_def)
  also have "\<dots> = Some (False, rl2\<lparr>cmdlen := 0, cursor := 0, cmdline := replicate COMMAND_LINE_LEN 0,
      ring_hist := (ring_hist rl2)\<lparr>hist_cur := 0\<rparr>\<rparr>)"
    using len by (simp add: clear_line_def memset_def blit_def)
  finally have "\<exists>rlb. microrl_insert_char rla 10 = Some rlb \<and> events rlb = events rl2"
    using esc(2) by (simp add: microrl_insert_char_def process_char_def)
  moreover have "Newline_call (ed_text ed) \<in> set (drop (length (events rla)) (events rl2))"
    by (simp add: rl2_def h rl0_def terminal_defs emit_def)
  moreover have "take (cmdlen rla) (cmdline rla) = take (ed_pos ed) (ed_text ed)"
    using ref by (auto simp: rl_refines_def buf_holds_def min_absorb2)
  ultimately show ?thesis using k by auto
qed

definition typed_ab :: microrl where
  "typed_ab = (microrl_init blank_microrl)\<lparr>newline := Some (\<lambda>s. False), cmdline := [65, 66] @ replicate 99 0,
     cmdlen := 2, cursor := 0\<rparr>"

theorem kill_line_not_cut_witness:
  "\<exists>rla rlb. microrl_insert_char typed_ab 11 = Some rla
    \<and> take (cmdlen rla) (cmdline rla) = []
    \<and> microrl_insert_char rla 10 = Some rlb
    \<and> Newline_call [65, 66] \<in> set (drop (length (events rla)) (events rlb))"
proof -
  have "rl_refines typed_ab (blank_editor\<lparr>ed_text := [65, 66]\<rparr>)" "terminated typed_ab"
    using empty_history_state
    by (simp_all add: rl_refines_def typed_ab_def blank_editor_def microrl_init_def buf_holds_def
        blank_microrl_def COMMAND_LINE_LEN_def terminated_def empty_history_def)
  from kill_line_not_cut [OF this] show ?thesis
    by (simp add: blank_editor_def is_cstring_def typed_ab_def)
qed

text \<open>The command line is not split into tokens: for every line without a zero byte that does
  not start with a space, \<open>split\<close> finds one token, the whole line with its spaces.\<close>

theorem split_single_token:
  assumes "buf_holds (cmdline rl) text" and "is_cstring text" and "text \<noteq> []" and "hd text \<noteq> 32"
  shows "split rl (length text) = Some (1, [0], rl)"
proof -
  have nth: "cmdline rl ! i = text ! i" if "i < length text" for i
    using assms(1) that nth_take [of i "length text" "cmdline rl"] by (simp add: buf_holds_def)
  have "split_loop (cmdline rl) (length text) 0 [] = Some (1, [0], cmdline rl)"
  proof (rule split_loop_single)
    show "\<forall>i<length text. cmdline rl ! i \<noteq> 0"
      using assms(2) nth nth_mem [of _ "text"] by (fastforce simp: is_cstring_def)
    show "cmdline rl ! 0 \<noteq> 32" using nth [of 0] assms(3,4) by (simp add: hd_conv_nth)
  qed (use assms(1,3) in \<open>auto simp: buf_holds_def\<close>)
  then show ?thesis by (simp add: split_def)
qed

theorem split_single_token_witness:
  "split (microrl_init blank_microrl\<lparr>cmdline := [65, 32, 66] @ replicate 98 0, cmdlen := 3\<rparr>)
      (length [65, 32, 66 :: byte])
   = Some (1, [0], microrl_init blank_microrl\<lparr>cmdline := [65, 32, 66] @ replicate 98 0, cmdlen := 3\<rparr>)"
  by (rule split_single_token) (simp_all add: buf_holds_def COMMAND_LINE_LEN_def is_cstring_def)

text \<open>\<open>common_len\<close> is the length of the longest common prefix of the completions.\<close>

theorem common_len_correct:
  assumes "arr \<noteq> []"
  shows "(\<forall>a\<in>set arr. common_len arr \<le> length a \<and> take (common_len arr) a = take (common_len arr) (hd arr))
    \<and> (\<forall>m. (\<forall>a\<in>set arr. m \<le> length a \<and> take m a = take m (hd arr)) \<longrightarrow> m \<le> common_len arr)"
proof -
  define s where "s = shortest_loop (hd arr) arr"
  have s: "s \<in> set arr" "\<forall>a\<in>set arr. length s \<le> length a"
    using shortest_loop_in [of "hd arr" arr] shortest_loop_le [of "hd arr" arr] assms
    by (auto simp: s_def)
  define n where "n = common_len arr"
  have n: "n \<le> length s" "\<forall>j<n. \<forall>a\<in>set arr. s ! j = a ! j"
    "n < length s \<longrightarrow> (\<exists>a\<in>set arr. s ! n \<noteq> a ! n)"
    using common_loop_first [of 0 s arr] by (simp_all add: n_def common_len_def s_def)
  have eq: "take n a = take n s" if "a \<in> set arr" for a
    using n(1,2) s(2) that by (intro nth_equalityI) auto
  have "m \<le> n" if m: "\<forall>a\<in>set arr. m \<le> length a \<and> take m a = take m (hd arr)" for m
  proof (rule ccontr)
    assume "\<not> m \<le> n"
    then have "n < length s" using m s(1) by auto
    then obtain a where a: "a \<in> set arr" "s ! n \<noteq> a ! n" using n(3) by blast
    have "take m s = take m a" using m s(1) a(1) by simp
    then show False using \<open>\<not> m \<le> n\<close> a(2) nth_take [of n m s] nth_take [of n m a] by simp
  qed
  moreover have "n \<le> length a \<and> take n a = take n (hd arr)" if "a \<in> set arr" for a
    using eq [OF that] eq [of "hd arr"] n(1) s(2) that assms by auto
  ultimately show ?thesis unfolding n_def by blast
qed

theorem common_len_correct_witness:
  "common_len [[65, 66, 67], [65, 66], [65, 66, 68]] = 2"
proof (rule antisym)
  have c: "(\<forall>a\<in>set arr. common_len arr \<le> length a \<and> take (common_len arr) a = take (common_len arr) (hd arr))
    \<and> (\<forall>m. (\<forall>a\<in>set arr. m \<le> length a \<and> take m a = take m (hd arr)) \<longrightarrow> m \<le> common_len arr)"
    if "arr = [[65, 66, 67], [65, 66], [65, 66, 68]]" for arr
    using common_len_correct [of arr] that by simp
  show "common_len [[65, 66, 67], [65, 66], [65, 66, 68]] \<le> 2"
    using c [OF refl] by simp
  show "2 \<le> common_len [[65, 66, 67], [65, 66], [65, 66, 68]]"
    using conjunct2 [OF c [OF refl], THEN spec, of 2] by simp
qed

text \<open>The echo of a character typed at the end of a line prints the character as the format
  string of \<open>printf\<close>: typing a percent sign runs \<open>printf\<close> on an incomplete conversion.\<close>

theorem echo_uses_format:
  assumes "rl_refines rl ed" and "\<not> ed_escape ed" and "ed_pos ed = length (ed_text ed)"
    and "length (ed_text ed) + 1 < COMMAND_LINE_LEN" and "printable c" and "c \<noteq> 32"
  shows "\<exists>rl'. microrl_insert_char rl (uint c) = Some rl'
    \<and> Printf [c] \<in> set (drop (length (events rl)) (events rl'))"
proof -
  obtain rl1 where rl1: "microrl_insert_text rl [c] 1 = Some (True, rl1)"
    "rl_refines rl1 (ed_insert c ed)"
    using refines_insert [OF assms(1), of c] assms(4) by auto
  have ev: "events rl1 = events rl"
    using rl1(1) by (auto simp: microrl_insert_text_def bind_eq_Some_conv Let_def split: if_splits)
  have "ed_text (ed_insert c ed) = ed_text ed @ [c]" using assms(3,4) by (simp add: ed_insert_def)
  then have line: "cmdlen rl1 = length (ed_text ed) + 1" "cursor rl1 = length (ed_text ed) + 1"
    "take (length (ed_text ed) + 1) (cmdline rl1) = ed_text ed @ [c]"
    "length (cmdline rl1) = COMMAND_LINE_LEN"
    using rl1(2) assms(3,4) by (simp_all add: rl_refines_def buf_holds_def ed_insert_def)
  have "cmdline rl1 ! length (ed_text ed) = c"
    using nth_take [of "length (ed_text ed)" "length (ed_text ed) + 1" "cmdline rl1"]
    unfolding line(3) by simp
  moreover have "c \<noteq> 0" using assms(5) by (auto simp: printable_def)
  ultimately have "print_loop (emit (Printf [27, 91, 75]) rl1) [length (ed_text ed)..<length (ed_text ed) + 1]
      = Some (emit (Printf [c]) (emit (Printf [27, 91, 75]) rl1))"
    using line(4) assms(4) by simp
  then have "\<exists>rl'. terminal_print_line rl1 (cursor rl1 - 1) (cursor rl1) = Some rl'
      \<and> Printf [c] \<in> set (drop (length (events rl)) (events rl'))"
    using line(1,2) ev by (simp add: terminal_print_line_def terminal_defs emit_def)
  moreover have "microrl_insert_char rl (uint c) = terminal_print_line rl1 (cursor rl1 - 1) (cursor rl1)"
  proof -
    have "\<not> escape rl" "uint c \<noteq> 32"
      using assms(1,2,6) by (simp_all add: rl_refines_def word_uint_eq_iff)
    then show ?thesis
      using rl1(1) assms(5) by (simp add: microrl_insert_char_def process_char_def printable_def)
  qed
  ultimately show ?thesis by simp
qed

theorem echo_uses_format_witness:
  "\<exists>rl'. microrl_insert_char (microrl_init blank_microrl) (uint (37 :: byte)) = Some rl'
    \<and> Printf [37] \<in> set (drop (length (events (microrl_init blank_microrl))) (events rl'))"
proof (rule echo_uses_format)
  show "rl_refines (microrl_init blank_microrl) blank_editor"
    using init_refines [of blank_microrl] by (simp add: blank_microrl_def)
qed (simp_all add: blank_editor_def printable_def COMMAND_LINE_LEN_def)

end
