(* ===== verification/Nr_History.thy ===== *)
theory Nr_History
  imports Prelude
begin

section \<open>nr_micro_shell: the queue of past commands\<close>

text \<open>
  Model of the history queue of \<^verbatim>\<open>src/src/components/shell/nr/src/nr_micro_shell.c\<close>.  The characters of
  the commands stand one after the other in the ring \<^verbatim>\<open>buf\<close> of 254 cells, and \<^verbatim>\<open>queue\<close>, a ring of 4
  cells, has the start of each command and the end of the last one.  The counters are \<^verbatim>\<open>unsigned short\<close>,
  written as natural numbers with the reduction modulo \<^verbatim>\<open>2^16\<close> at every assignment.  The cells of \<^verbatim>\<open>queue\<close>
  are \<^verbatim>\<open>char\<close>, which a compiler may take as signed or unsigned, and the source has the assignment
  \<^verbatim>\<open>queue->rp = queue->rp++\<close>, to which C gives no value; both are parameters of the model.
\<close>

subsection \<open>Data and operations\<close>

text \<open>What the compiler decides: the sign of \<^verbatim>\<open>char\<close> and the value of \<^verbatim>\<open>x = x++\<close>.\<close>

record impl =
  char_signed :: bool
  self_increment :: "nat \<Rightarrow> nat"

definition NR_SHELL_MAX_CMD_HISTORY_NUM :: nat where "NR_SHELL_MAX_CMD_HISTORY_NUM = 3"

definition NR_SHELL_CMD_HISTORY_BUF_LENGTH :: nat where "NR_SHELL_CMD_HISTORY_BUF_LENGTH = 253"

lemmas his_sizes = NR_SHELL_MAX_CMD_HISTORY_NUM_def NR_SHELL_CMD_HISTORY_BUF_LENGTH_def

record shell_his_queue =
  his_fp :: nat
  his_rp :: nat
  his_len :: nat
  his_index :: nat
  store_front :: nat
  store_rear :: nat
  store_num :: nat
  his_queue :: "byte list"
  his_buf :: "byte list"

text \<open>Conversion to \<^verbatim>\<open>unsigned short\<close>, and of a \<^verbatim>\<open>char\<close> to \<^verbatim>\<open>int\<close>.\<close>

definition ushort :: "int \<Rightarrow> nat" where
  "ushort i = nat (i mod 65536)"

definition char_int :: "impl \<Rightarrow> byte \<Rightarrow> int" where
  "char_int I c = (if char_signed I then sint c else uint c)"

text \<open>\<^verbatim>\<open>i = (i > NR_SHELL_MAX_CMD_HISTORY_NUM) ? 0 : i\<close> and the same on the buffer.\<close>

definition wrap_slot :: "nat \<Rightarrow> nat" where
  "wrap_slot i = (if i > NR_SHELL_MAX_CMD_HISTORY_NUM then 0 else i)"

definition wrap_cell :: "nat \<Rightarrow> nat" where
  "wrap_cell i = (if i > NR_SHELL_CMD_HISTORY_BUF_LENGTH then 0 else i)"

definition shell_his_queue_init :: "shell_his_queue \<Rightarrow> shell_his_queue" where
  "shell_his_queue_init q = q\<lparr>his_fp := 0, his_rp := 0, his_len := 0, store_front := 0, store_rear := 0, store_num := 0\<rparr>"

definition drop_oldest :: "impl \<Rightarrow> shell_his_queue \<Rightarrow> shell_his_queue option" where
  "drop_oldest I q = do {
     let fp = wrap_slot (ushort (int (his_fp q) + 1));
     c \<leftarrow> load (his_queue q) fp;
     let next = char_int I c;
     let used = (if int (store_front q) \<le> next then next - int (store_front q)
       else next + int NR_SHELL_CMD_HISTORY_BUF_LENGTH - int (store_front q) + 1);
     Some (q\<lparr>his_fp := fp, his_len := ushort (int (his_len q) - 1),
       store_num := ushort (int (store_num q) - used), store_front := ushort next\<rparr>) }"

fun make_space :: "impl \<Rightarrow> nat \<Rightarrow> nat \<Rightarrow> shell_his_queue \<Rightarrow> shell_his_queue option" where
  "make_space I 0 str_len q = None"
| "make_space I (Suc fuel) str_len q =
     (if int str_len > int NR_SHELL_CMD_HISTORY_BUF_LENGTH - int (store_num q) \<or> his_len q = NR_SHELL_MAX_CMD_HISTORY_NUM
      then do { q \<leftarrow> drop_oldest I q; make_space I fuel str_len q }
      else Some q)"

fun store_chars :: "cstring \<Rightarrow> shell_his_queue \<Rightarrow> shell_his_queue option" where
  "store_chars [] q = Some q"
| "store_chars (c # cs) q = do {
     buf \<leftarrow> store (his_buf q) (store_rear q) c;
     store_chars cs (q\<lparr>his_buf := buf, store_rear := wrap_cell (ushort (int (store_rear q) + 1)),
       store_num := ushort (int (store_num q) + 1)\<rparr>) }"

definition shell_his_queue_add_cmd :: "impl \<Rightarrow> nat \<Rightarrow> cstring \<Rightarrow> shell_his_queue \<Rightarrow> shell_his_queue option" where
  "shell_his_queue_add_cmd I fuel str q =
     (let str_len = ushort (int (length str)) in
      if str_len > NR_SHELL_CMD_HISTORY_BUF_LENGTH then Some q
      else do {
        q \<leftarrow> make_space I fuel str_len q;
        slots \<leftarrow> store (his_queue q) (his_rp q) (of_nat (store_rear q));
        let q = q\<lparr>his_queue := slots, his_rp := wrap_slot (self_increment I (his_rp q)), his_len := ushort (int (his_len q) + 1)\<rparr>;
        q \<leftarrow> store_chars (take str_len str) q;
        slots \<leftarrow> store (his_queue q) (his_rp q) (of_nat (store_rear q));
        Some (q\<lparr>his_queue := slots\<rparr>) })"

text \<open>The inner loop of the search: does the ring have these characters from \<open>buf_index\<close> on?\<close>

fun same_chars :: "byte list \<Rightarrow> nat \<Rightarrow> cstring \<Rightarrow> bool option" where
  "same_chars buf buf_index [] = Some True"
| "same_chars buf buf_index (c # cs) = do {
     x \<leftarrow> load buf buf_index;
     if x \<noteq> c then Some False else same_chars buf (wrap_cell (ushort (int buf_index + 1))) cs }"

text \<open>One iteration of the outer loop: is the command that starts at slot \<open>index_temp\<close> the string?\<close>

definition item_matches :: "impl \<Rightarrow> shell_his_queue \<Rightarrow> cstring \<Rightarrow> nat \<Rightarrow> bool option" where
  "item_matches I q str index_temp = do {
     c \<leftarrow> load (his_queue q) index_temp;
     let start = ushort (char_int I c);
     c \<leftarrow> load (his_queue q) (wrap_slot (ushort (int index_temp + 1)));
     let e = ushort (char_int I c);
     let cmd_len = (if start \<le> e then ushort (int e - int start)
       else ushort (int NR_SHELL_CMD_HISTORY_BUF_LENGTH + 1 - int start + int e));
     let str_len = ushort (int (length str));
     if cmd_len = str_len then same_chars (his_buf q) start (take str_len str) else Some False }"

primrec search_loop :: "impl \<Rightarrow> shell_his_queue \<Rightarrow> cstring \<Rightarrow> nat list \<Rightarrow> nat \<Rightarrow> nat option" where
  "search_loop I q str [] index_temp = Some 0"
| "search_loop I q str (i # is) index_temp = do {
     same \<leftarrow> item_matches I q str index_temp;
     if same then Some (ushort (int i + 1))
     else search_loop I q str is (wrap_slot (ushort (int index_temp + 1))) }"

definition shell_his_queue_search_cmd :: "impl \<Rightarrow> shell_his_queue \<Rightarrow> cstring \<Rightarrow> nat option" where
  "shell_his_queue_search_cmd I q str =
     (if his_len q = 0 then Some 0 else search_loop I q str [0..<his_len q] (his_fp q))"

text \<open>The copies cell by cell, from \<^verbatim>\<open>buf\<close> into another block.\<close>

definition shell_his_copy_queue_item :: "impl \<Rightarrow> shell_his_queue \<Rightarrow> nat \<Rightarrow> byte list \<Rightarrow> byte list option" where
  "shell_his_copy_queue_item I q i str_buf =
     (if i \<le> his_len q then do {
        let index_temp = ushort (int (his_fp q) + int i - 1);
        let index_temp = (if index_temp > NR_SHELL_MAX_CMD_HISTORY_NUM
          then ushort (int index_temp - int NR_SHELL_MAX_CMD_HISTORY_NUM - 1) else index_temp);
        c \<leftarrow> load (his_queue q) index_temp;
        let start = ushort (char_int I c);
        c \<leftarrow> load (his_queue q) (wrap_slot (ushort (int index_temp + 1)));
        let e = ushort (char_int I c);
        if start < e then do {
          str_buf \<leftarrow> memcpy str_buf 0 (his_buf q) start (e - start);
          store str_buf (e - start) 0 }
        else if start > NR_SHELL_CMD_HISTORY_BUF_LENGTH + 1 then None
        else do {
          let n = NR_SHELL_CMD_HISTORY_BUF_LENGTH + 1 - start;
          str_buf \<leftarrow> memcpy str_buf 0 (his_buf q) start n;
          str_buf \<leftarrow> memcpy str_buf n (his_buf q) 0 e;
          store str_buf (e + n) 0 } }
      else Some str_buf)"

subsection \<open>The queue as a list of commands\<close>

text \<open>Where the \<open>i\<close>-th command starts, counted from the oldest, in the ring.\<close>

definition start_of :: "nat \<Rightarrow> cstring list \<Rightarrow> nat \<Rightarrow> nat" where
  "start_of front hs i = (front + length (concat (take i hs))) mod 254"

definition queue_holds :: "shell_his_queue \<Rightarrow> cstring list \<Rightarrow> bool" where
  "queue_holds q hs \<longleftrightarrow>
     length (his_queue q) = 4 \<and> length (his_buf q) = 254 \<and> his_fp q < 4 \<and> store_front q < 254 \<and>
     length hs \<le> 3 \<and> length (concat hs) \<le> 253 \<and> [] \<notin> set hs \<and>
     his_len q = length hs \<and> his_rp q = (his_fp q + length hs) mod 4 \<and>
     store_num q = length (concat hs) \<and> store_rear q = (store_front q + length (concat hs)) mod 254 \<and>
     (hs \<noteq> [] \<longrightarrow> (\<forall>i \<le> length hs. his_queue q ! ((his_fp q + i) mod 4) = of_nat (start_of (store_front q) hs i))) \<and>
     (\<forall>k < length (concat hs). his_buf q ! ((store_front q + k) mod 254) = concat hs ! k)"

text \<open>The list with a new command: the oldest are dropped until at most two are left and the characters fit.\<close>

fun with_space :: "nat \<Rightarrow> cstring list \<Rightarrow> cstring list" where
  "with_space n [] = []"
| "with_space n (h # hs) =
     (if n > 253 - length (concat (h # hs)) \<or> length (h # hs) = 3 then with_space n hs else h # hs)"

definition remember :: "cstring \<Rightarrow> cstring list \<Rightarrow> cstring list" where
  "remember s hs = with_space (length s) hs @ [s]"

lemma ushort_id [simp]: "n < 65536 \<Longrightarrow> ushort (int n) = n"
  by (simp add: ushort_def)

lemma ushort_Suc [simp]: "n < 65535 \<Longrightarrow> ushort (int n + 1) = Suc n" "n < 65535 \<Longrightarrow> ushort (1 + int n) = Suc n"
  by (simp_all add: ushort_def)

lemma ushort_pred [simp]: "0 < n \<Longrightarrow> n < 65536 \<Longrightarrow> ushort (int n - 1) = n - 1"
  by (simp add: ushort_def nat_diff_distrib)

lemma wrap_slot_mod: "i < 4 \<Longrightarrow> wrap_slot (Suc i) = Suc i mod 4"
  by (cases "i = 3") (auto simp: wrap_slot_def his_sizes)

lemma wrap_cell_mod: "i < 254 \<Longrightarrow> wrap_cell (Suc i) = Suc i mod 254"
  by (cases "i = 253") (auto simp: wrap_cell_def his_sizes)

lemma char_int_pos:
  assumes "n < 256" and "char_signed I \<Longrightarrow> n < 128"
  shows "char_int I (of_nat n) = int n"
proof (cases "char_signed I")
  case True
  then show ?thesis using assms(2) by (simp add: char_int_def signed_of_nat signed_take_bit_int_eq_self)
qed (use assms(1) in \<open>simp add: char_int_def uint_nat unat_of_nat_8\<close>)

text \<open>The cells of \<^verbatim>\<open>queue\<close> have positions below 254.  A signed \<^verbatim>\<open>char\<close> reads those below 128, so that the model
  counts the characters that were ever stored.\<close>

definition char_room :: "impl \<Rightarrow> nat \<Rightarrow> bool" where
  "char_room I n \<longleftrightarrow> (char_signed I \<longrightarrow> n < 128)"

definition queue_follows :: "impl \<Rightarrow> nat \<Rightarrow> shell_his_queue \<Rightarrow> cstring list \<Rightarrow> bool" where
  "queue_follows I n q hs \<longleftrightarrow> queue_holds q hs \<and> char_room I n \<and>
     (char_signed I \<longrightarrow> store_front q + length (concat hs) = n)"

lemma queue_follows_holds: "queue_follows I n q hs \<Longrightarrow> queue_holds q hs"
  by (simp add: queue_follows_def)

lemma position_int:
  assumes "queue_follows I n q hs" and "k \<le> length (concat hs)"
  shows "char_int I (of_nat ((store_front q + k) mod 254)) = int ((store_front q + k) mod 254)"
proof (rule char_int_pos)
  have "(store_front q + k) mod 254 < 254" by simp
  then show "(store_front q + k) mod 254 < 256" by linarith
  show "(store_front q + k) mod 254 < 128" if "char_signed I"
    using assms that by (simp add: queue_follows_def char_room_def)
qed

lemma start_of_less: "start_of front hs i < 254"
  by (simp add: start_of_def)

text \<open>Two different offsets below the size of a ring are different positions on it.\<close>

lemma ring_inj:
  fixes a i j m :: nat
  assumes "(a + i) mod m = (a + j) mod m" and "i < m" and "j < m"
  shows "i = j"
proof -
  have less: "\<not> (a + x) mod m = (a + y) mod m" if "x < y" "y < m" for x y
  proof
    assume "(a + x) mod m = (a + y) mod m"
    then have "m dvd (a + y) - (a + x)" using that by (subst mod_eq_dvd_iff_nat [symmetric]) auto
    then show False using that nat_dvd_not_less [of "y - x" m] by simp
  qed
  show ?thesis using less [of i j] less [of j i] assms by (metis linorder_neqE_nat)
qed

text \<open>The distance of two positions on the ring.\<close>

lemma ring_distance:
  assumes "a < 254" and "n \<le> 253"
  shows "(if a \<le> (a + n) mod 254 then int ((a + n) mod 254) - int a
    else int ((a + n) mod 254) + 253 - int a + 1) = int n"
proof (cases "a + n < 254")
  case False
  then have "(a + n) mod 254 = a + n - 254" using assms by (simp add: mod_if)
  then show ?thesis using False assms by auto
qed simp

lemma ring_length:
  assumes "a < 254" and "n \<le> 253"
  shows "(if a \<le> (a + n) mod 254 then ushort (int ((a + n) mod 254) - int a)
    else ushort (int 253 + 1 - int a + int ((a + n) mod 254))) = n"
proof -
  define e where "e = (a + n) mod 254"
  have "(if a \<le> e then int e - int a else int e + 253 - int a + 1) = int n"
    unfolding e_def by (rule ring_distance [OF assms])
  then have "if a \<le> e then int e - int a = int n else int 253 + 1 - int a + int e = int n" by (auto split: if_splits)
  then show ?thesis unfolding e_def [symmetric] using assms(2) by (auto split: if_splits)
qed

lemma drop_oldest_holds:
  assumes follows: "queue_follows I n q (h # hs)"
  shows "\<exists>q'. drop_oldest I q = Some q' \<and> queue_follows I n q' hs"
proof -
  note assms = queue_follows_holds [OF follows]
  let ?fp = "Suc (his_fp q) mod 4" and ?front = "(store_front q + length h) mod 254"
  have q: "length (his_queue q) = 4" "his_fp q < 4" "store_front q < 254" "length h + length (concat hs) \<le> 253"
      "his_len q = Suc (length hs)" "store_num q = length h + length (concat hs)" "length hs \<le> 2"
    using assms(1) by (simp_all add: queue_holds_def)
  have slots: "his_queue q ! ((his_fp q + i) mod 4) = of_nat (start_of (store_front q) (h # hs) i)" if "i \<le> Suc (length hs)" for i
    using assms(1) that by (simp add: queue_holds_def)
  have next_slot: "his_queue q ! ?fp = of_nat ?front" using slots [of 1] by (simp add: start_of_def)
  have used: "(if int (store_front q) \<le> int ?front then int ?front - int (store_front q)
       else int ?front + int 253 - int (store_front q) + 1) = int (length h)"
    using ring_distance [OF q(3), of "length h"] q(4) by (auto split: if_splits)
  let ?q = "q\<lparr>his_fp := ?fp, his_len := length hs, store_num := length (concat hs), store_front := ?front\<rparr>"
  have fp: "wrap_slot (ushort (int (his_fp q) + 1)) = ?fp" using q(2) by (simp add: wrap_slot_mod)
  have cell: "load (his_queue q) ?fp = Some (of_nat ?front)" using next_slot q(1) by (simp add: load_def)
  have front: "char_int I (of_nat ?front) = int ?front"
    by (rule position_int [OF follows]) simp
  have num: "ushort (int (store_num q) - int (length h)) = length (concat hs)"
    unfolding q(6) using q(4) by simp
  have "drop_oldest I q = Some ?q"
    unfolding drop_oldest_def Let_def fp cell bind.bind_lunit front his_sizes used num using q(5,7) by simp
  moreover have "queue_holds ?q hs"
    unfolding queue_holds_def
  proof (intro conjI impI allI)
    fix i assume "i \<le> length hs"
    then show "his_queue ?q ! ((his_fp ?q + i) mod 4) = of_nat (start_of (store_front ?q) hs i)"
      using slots [of "Suc i"] by (simp add: start_of_def mod_simps add.assoc)
  next
    fix k assume "k < length (concat hs)"
    then have "his_buf q ! ((store_front q + (length h + k)) mod 254) = concat (h # hs) ! (length h + k)"
      using assms(1) unfolding queue_holds_def by (metis concat.simps(2) length_append nat_add_left_cancel_less)
    then show "his_buf ?q ! ((store_front ?q + k) mod 254) = concat hs ! k"
      by (simp add: mod_simps add.assoc)
  qed (use assms(1) in \<open>auto simp: queue_holds_def mod_simps add.assoc\<close>)
  moreover have "store_front q + length h < 254" if "char_signed I"
    using follows that by (simp add: queue_follows_def char_room_def)
  ultimately show ?thesis using follows by (auto simp: queue_follows_def add.assoc)
qed

lemma make_space_holds:
  assumes "queue_follows I t q hs" and "n \<le> 253" and "length hs < fuel"
  shows "\<exists>q'. make_space I fuel n q = Some q' \<and> queue_follows I t q' (with_space n hs)"
  using assms(1,3)
proof (induction hs arbitrary: q fuel)
  case Nil
  then show ?case using assms(2) by (cases fuel) (auto simp: queue_follows_def queue_holds_def his_sizes)
next
  case (Cons h hs)
  obtain f where f: "fuel = Suc f" "length hs < f" using Cons.prems(2) by (cases fuel) auto
  obtain q1 where q1: "drop_oldest I q = Some q1" "queue_follows I t q1 hs"
    using drop_oldest_holds [OF Cons.prems(1)] by blast
  have full: "(int n > int NR_SHELL_CMD_HISTORY_BUF_LENGTH - int (store_num q) \<or> his_len q = NR_SHELL_MAX_CMD_HISTORY_NUM) \<longleftrightarrow>
      n > 253 - length (concat (h # hs)) \<or> length (h # hs) = 3"
    using Cons.prems(1) by (auto simp: queue_follows_def queue_holds_def his_sizes)
  show ?case
    using Cons.IH [OF q1(2) f(2)] q1(1) Cons.prems(1) unfolding f(1) make_space.simps full by auto
qed

lemma with_space_fits: "n \<le> 253 \<Longrightarrow> length (concat hs) \<le> 253 \<Longrightarrow> n + length (concat (with_space n hs)) \<le> 253"
  by (induction hs) auto

lemma with_space_length: "length hs \<le> 3 \<Longrightarrow> length (with_space n hs) \<le> 2"
proof (induction hs)
  case (Cons h hs)
  then show ?case by (cases "length (h # hs) = 3") auto
qed simp

lemma store_chars_ring:
  assumes "length (his_buf q) = 254" and "store_rear q < 254" and "store_num q + length cs \<le> 253"
  shows "\<exists>buf. store_chars cs q = Some (q\<lparr>his_buf := buf, store_rear := (store_rear q + length cs) mod 254,
      store_num := store_num q + length cs\<rparr>) \<and> length buf = 254 \<and>
    (\<forall>k < length cs. buf ! ((store_rear q + k) mod 254) = cs ! k) \<and>
    (\<forall>j < 254. (\<forall>k < length cs. j \<noteq> (store_rear q + k) mod 254) \<longrightarrow> buf ! j = his_buf q ! j)"
  using assms
proof (induction cs arbitrary: q)
  case Nil
  then show ?case by (intro exI [of _ "his_buf q"]) simp
next
  case (Cons c cs)
  let ?r = "store_rear q"
  let ?q = "q\<lparr>his_buf := (his_buf q)[?r := c], store_rear := Suc ?r mod 254, store_num := Suc (store_num q)\<rparr>"
  have step: "store_chars (c # cs) q = store_chars cs ?q"
    using Cons.prems by (simp add: wrap_cell_mod)
  obtain buf where buf: "store_chars cs ?q = Some (?q\<lparr>his_buf := buf, store_rear := (Suc ?r mod 254 + length cs) mod 254,
      store_num := Suc (store_num q) + length cs\<rparr>)" "length buf = 254"
      "\<forall>k < length cs. buf ! ((Suc ?r mod 254 + k) mod 254) = cs ! k"
      "\<forall>j < 254. (\<forall>k < length cs. j \<noteq> (Suc ?r mod 254 + k) mod 254) \<longrightarrow> buf ! j = (his_buf q)[?r := c] ! j"
    using Cons.IH [of ?q] Cons.prems by auto
  have shift: "(Suc ?r mod 254 + k) mod 254 = (?r + Suc k) mod 254" for k by (simp add: mod_simps)
  have apart: "?r \<noteq> (?r + Suc k) mod 254" if "k < length cs" for k
    using ring_inj [of ?r 0 254 "Suc k"] that Cons.prems(2,3) by auto
  have first: "buf ! ?r = c"
    using buf(4) Cons.prems(1,2) apart by (auto simp: shift)
  have "buf ! ((?r + k) mod 254) = (c # cs) ! k" if "k < length (c # cs)" for k
    using that first buf(3) Cons.prems(2) by (cases k) (auto simp: shift)
  moreover have "buf ! j = his_buf q ! j" if "j < 254" "\<forall>k < length (c # cs). j \<noteq> (?r + k) mod 254" for j
  proof -
    have "j \<noteq> ?r" using that(2) Cons.prems(2) by force
    moreover have "\<forall>k < length cs. j \<noteq> (?r + Suc k) mod 254" using that(2) by force
    ultimately show ?thesis using buf(4) that(1) by (simp add: shift)
  qed
  ultimately show ?case
    unfolding step buf(1) using buf(2) by (intro exI [of _ buf]) (simp add: shift)
qed

text \<open>The compiler reads \<^verbatim>\<open>rp = rp++\<close> as an increment, whatever the sign of its \<^verbatim>\<open>char\<close>.\<close>

definition increment_impl :: "bool \<Rightarrow> impl" where
  "increment_impl b = \<lparr>char_signed = b, self_increment = Suc\<rparr>"

lemma increment_impl_simps [simp]:
  "char_signed (increment_impl b) = b" "self_increment (increment_impl b) = Suc"
  by (simp_all add: increment_impl_def)

lemma append_holds:
  assumes "queue_holds q hs" and "length hs \<le> 2" and "length (concat hs) + length s \<le> 253" and "s \<noteq> []"
    and "slots = (his_queue q)[his_rp q := of_nat (store_rear q), Suc (his_rp q) mod 4 := of_nat ((store_rear q + length s) mod 254)]"
    and "length buf = 254" and "\<forall>k < length s. buf ! ((store_rear q + k) mod 254) = s ! k"
    and "\<forall>j < 254. (\<forall>k < length s. j \<noteq> (store_rear q + k) mod 254) \<longrightarrow> buf ! j = his_buf q ! j"
  shows "queue_holds (q\<lparr>his_queue := slots, his_rp := Suc (his_rp q) mod 4, his_len := Suc (his_len q), his_buf := buf,
      store_rear := (store_rear q + length s) mod 254, store_num := store_num q + length s\<rparr>) (hs @ [s])"
proof -
  let ?fp = "his_fp q" and ?front = "store_front q" and ?n = "length (concat hs)"
  have q: "length (his_queue q) = 4" "?fp < 4" "?front < 254" "his_rp q = (?fp + length hs) mod 4"
      "store_rear q = (?front + ?n) mod 254" "store_num q = ?n" "his_len q = length hs" "[] \<notin> set hs"
    using assms(1) by (simp_all add: queue_holds_def)
  have slot: "slots ! ((?fp + i) mod 4) = of_nat (start_of ?front (hs @ [s]) i)" if le: "i \<le> Suc (length hs)" for i
  proof -
    consider "i = Suc (length hs)" | "i = length hs" | "i < length hs" using le by linarith
    then show ?thesis
    proof cases
      case 1
      have "slots ! (Suc (his_rp q) mod 4) = of_nat ((store_rear q + length s) mod 254)"
        unfolding assms(5) using q(1) by simp
      then show ?thesis using 1 q(4,5) by (simp add: start_of_def mod_simps add.assoc)
    next
      case 2
      have "Suc (his_rp q) mod 4 \<noteq> his_rp q" "his_rp q < 4"
        using ring_inj [of ?fp "Suc (length hs)" 4 "length hs"] assms(2) q(4) by (auto simp: mod_simps)
      then have "slots ! his_rp q = of_nat (store_rear q)" unfolding assms(5) using q(1) by simp
      then show ?thesis using 2 q(4,5) by (simp add: start_of_def)
    next
      case 3
      have "(?fp + i) mod 4 \<noteq> his_rp q" "(?fp + i) mod 4 \<noteq> Suc (his_rp q) mod 4"
        using ring_inj [of ?fp i 4 "length hs"] ring_inj [of ?fp i 4 "Suc (length hs)"] 3 assms(2) q(4)
        by (auto simp: mod_simps)
      then have "slots ! ((?fp + i) mod 4) = his_queue q ! ((?fp + i) mod 4)" unfolding assms(5) by simp
      also have "\<dots> = of_nat (start_of ?front hs i)" using assms(1) 3 by (auto simp: queue_holds_def)
      finally show ?thesis using 3 by (simp add: start_of_def)
    qed
  qed
  have chars: "buf ! ((?front + k) mod 254) = (concat hs @ s) ! k" if "k < ?n + length s" for k
  proof (cases "k < ?n")
    case True
    have "(?front + k) mod 254 \<noteq> (store_rear q + j) mod 254" if "j < length s" for j
      using ring_inj [of ?front k 254 "?n + j"] that True assms(3) by (auto simp: q(5) mod_simps add.assoc)
    then have "buf ! ((?front + k) mod 254) = his_buf q ! ((?front + k) mod 254)" using assms(8) by simp
    then show ?thesis using assms(1) True by (simp add: queue_holds_def nth_append)
  next
    case False
    then obtain m where m: "k = ?n + m" by (metis le_Suc_ex not_less)
    then have "buf ! ((store_rear q + m) mod 254) = s ! m" using assms(7) that by simp
    then show ?thesis using m by (simp add: q(5) nth_append mod_simps add.assoc)
  qed
  have "length slots = 4" unfolding assms(5) using q(1) by simp
  then show ?thesis
    unfolding queue_holds_def using q assms(2-4,6) slot chars
    by (auto simp: mod_simps add.assoc)
qed

lemma add_cmd_holds:
  assumes follows: "queue_follows I t q hs" and "self_increment I = Suc" and "s \<noteq> []" and "length s \<le> 253" and "length hs < fuel"
    and room: "char_room I (t + length s)"
  shows "\<exists>q'. shell_his_queue_add_cmd I fuel s q = Some q' \<and> queue_follows I (t + length s) q' (remember s hs)"
proof -
  let ?n = "length s" and ?hs = "with_space (length s) hs"
  obtain q1 where q1: "make_space I fuel ?n q = Some q1" "queue_follows I t q1 ?hs"
    using make_space_holds [OF follows assms(4,5)] by blast
  note holds = queue_follows_holds [OF q1(2)]
  have hs: "length ?hs \<le> 2" "length (concat ?hs) + ?n \<le> 253"
    using queue_follows_holds [OF follows] assms(4) with_space_length with_space_fits [of ?n hs] by (auto simp: queue_holds_def)
  have f: "length (his_queue q1) = 4" "his_rp q1 < 4" "store_rear q1 < 254" "length (his_buf q1) = 254"
      "store_num q1 + ?n \<le> 253" "his_len q1 \<le> 2"
    using holds hs by (auto simp: queue_holds_def)
  let ?rp = "Suc (his_rp q1) mod 4"
  let ?q2 = "q1\<lparr>his_queue := (his_queue q1)[his_rp q1 := of_nat (store_rear q1)], his_rp := ?rp, his_len := Suc (his_len q1)\<rparr>"
  obtain buf where buf: "store_chars s ?q2 = Some (?q2\<lparr>his_buf := buf, store_rear := (store_rear q1 + ?n) mod 254,
      store_num := store_num q1 + ?n\<rparr>)" "length buf = 254"
      "\<forall>k < ?n. buf ! ((store_rear q1 + k) mod 254) = s ! k"
      "\<forall>j < 254. (\<forall>k < ?n. j \<noteq> (store_rear q1 + k) mod 254) \<longrightarrow> buf ! j = his_buf q1 ! j"
    using store_chars_ring [of ?q2 s] f by auto
  let ?slots = "(his_queue q1)[his_rp q1 := of_nat (store_rear q1), ?rp := of_nat ((store_rear q1 + ?n) mod 254)]"
  let ?q3 = "q1\<lparr>his_queue := ?slots, his_rp := ?rp, his_len := Suc (his_len q1), his_buf := buf,
      store_rear := (store_rear q1 + ?n) mod 254, store_num := store_num q1 + ?n\<rparr>"
  have "wrap_slot (self_increment I (his_rp q1)) = ?rp"
    using assms(2) f(2) by (simp add: wrap_slot_mod)
  then have "shell_his_queue_add_cmd I fuel s q = Some ?q3"
    using q1(1) f buf(1) assms(4) by (simp add: shell_his_queue_add_cmd_def Let_def his_sizes)
  moreover have "queue_holds ?q3 (?hs @ [s])"
    by (rule append_holds [OF holds hs assms(3) refl buf(2-4)])
  ultimately show ?thesis using q1(2) room by (auto simp: remember_def queue_follows_def)
qed

subsection \<open>Looking up a command\<close>

lemma concat_nth_offset:
  "i < length hs \<Longrightarrow> k < length (hs ! i) \<Longrightarrow>
    length (concat (take i hs)) + k < length (concat hs) \<and> concat hs ! (length (concat (take i hs)) + k) = hs ! i ! k"
proof (induction hs arbitrary: i)
  case (Cons h hs)
  then show ?case by (cases i) (auto simp: nth_append)
qed simp

text \<open>The cells of the \<open>i\<close>-th command.\<close>

lemma queue_item:
  assumes follows: "queue_follows I n q hs" and "i < length hs"
  defines "a \<equiv> start_of (store_front q) hs i" and "h \<equiv> hs ! i"
  shows "load (his_queue q) ((his_fp q + i) mod 4) = Some (of_nat a)"
    and "load (his_queue q) (Suc (his_fp q + i) mod 4) = Some (of_nat ((a + length h) mod 254))"
    and "ushort (char_int I (of_nat a)) = a"
    and "ushort (char_int I (of_nat ((a + length h) mod 254))) = (a + length h) mod 254"
    and "a < 254" and "h \<noteq> []" and "length h \<le> 253"
    and "k < length h \<Longrightarrow> his_buf q ! ((a + k) mod 254) = h ! k"
proof -
  have slots: "\<forall>j \<le> length hs. his_queue q ! ((his_fp q + j) mod 4) = of_nat (start_of (store_front q) hs j)"
    and len: "length (his_queue q) = 4" "[] \<notin> set hs" "length (concat hs) \<le> 253"
    using queue_follows_holds [OF follows] assms(2) by (auto simp: queue_holds_def)
  have le: "length (concat (take i hs)) + length h \<le> length (concat hs)"
    using arg_cong [OF id_take_nth_drop [OF assms(2)], of "\<lambda>xs. length (concat xs)"] by (simp add: h_def)
  have end_pos: "start_of (store_front q) hs (Suc i) = (a + length h) mod 254"
    using assms(2) by (simp add: a_def h_def start_of_def take_Suc_conv_app_nth mod_simps add.assoc)
  show "load (his_queue q) ((his_fp q + i) mod 4) = Some (of_nat a)"
    using slots assms(2) len by (simp add: a_def load_def)
  show "load (his_queue q) (Suc (his_fp q + i) mod 4) = Some (of_nat ((a + length h) mod 254))"
    using slots [rule_format, of "Suc i"] assms(2) len by (simp add: end_pos load_def)
  show "a < 254" by (simp add: a_def start_of_less)
  then show "ushort (char_int I (of_nat a)) = a"
    using position_int [OF follows, of "length (concat (take i hs))"] le by (simp add: a_def start_of_def)
  have "(a + length h) mod 254 < 65536" by (rule less_trans [OF mod_less_divisor]) simp_all
  then show "ushort (char_int I (of_nat ((a + length h) mod 254))) = (a + length h) mod 254"
    using position_int [OF follows le] by (simp add: a_def start_of_def mod_simps add.assoc)
  show "h \<noteq> []" using len(2) assms(2) nth_mem unfolding h_def by metis
  then show "length h \<le> 253"
    using concat_nth_offset [OF assms(2), of "length h - 1"] len(3) by (cases "length h") (auto simp: h_def)
  show "his_buf q ! ((a + k) mod 254) = h ! k" if "k < length h"
    using concat_nth_offset [OF assms(2), of k] that queue_follows_holds [OF follows]
    by (simp add: a_def h_def start_of_def queue_holds_def mod_simps add.assoc)
qed

lemma same_chars_ring:
  "length buf = 254 \<Longrightarrow> a < 254 \<Longrightarrow> same_chars buf a cs = Some (\<forall>k < length cs. buf ! ((a + k) mod 254) = cs ! k)"
proof (induction cs arbitrary: a)
  case (Cons c cs)
  have "(\<forall>k < length (c # cs). buf ! ((a + k) mod 254) = (c # cs) ! k) \<longleftrightarrow>
      buf ! a = c \<and> (\<forall>k < length cs. buf ! ((Suc a mod 254 + k) mod 254) = cs ! k)"
    using Cons.prems by (auto simp: All_less_Suc2 mod_simps)
  then show ?case using Cons by (auto simp: wrap_cell_mod)
qed simp

lemma item_matches_eq:
  assumes follows: "queue_follows I n q hs" and "i < length hs" and "length s < 65536"
  shows "item_matches I q s ((his_fp q + i) mod 4) = Some (hs ! i = s)"
proof -
  note item = queue_item [OF assms(1,2)]
  let ?a = "start_of (store_front q) hs i"
  have slot: "wrap_slot (ushort (int ((his_fp q + i) mod 4) + 1)) = Suc (his_fp q + i) mod 4"
    by (subst ushort_Suc) (simp_all add: wrap_slot_mod mod_simps less_trans [OF mod_less_divisor])
  have len: "(if ?a \<le> (?a + length (hs ! i)) mod 254 then ushort (int ((?a + length (hs ! i)) mod 254) - int ?a)
      else ushort (int 253 + 1 - int ?a + int ((?a + length (hs ! i)) mod 254))) = length (hs ! i)"
    by (rule ring_length [OF item(5,7)])
  have buf: "length (his_buf q) = 254" using queue_follows_holds [OF follows] by (simp add: queue_holds_def)
  have same: "same_chars (his_buf q) ?a s = Some (hs ! i = s)" if len: "length (hs ! i) = length s"
  proof -
    have "(\<forall>k < length s. his_buf q ! ((?a + k) mod 254) = s ! k) \<longleftrightarrow> hs ! i = s"
      unfolding list_eq_iff_nth_eq using item(8) len by metis
    then show ?thesis using same_chars_ring [OF buf item(5), of s] by simp
  qed
  show ?thesis
    unfolding item_matches_def item(1) slot item(2) bind.bind_lunit Let_def item(3,4) his_sizes len
    using same assms(3) by auto
qed

text \<open>The number of the first equal command, counted from 1, or 0.\<close>

definition position :: "cstring \<Rightarrow> cstring list \<Rightarrow> nat" where
  "position s hs = (case List.find (\<lambda>i. hs ! i = s) [0..<length hs] of None \<Rightarrow> 0 | Some i \<Rightarrow> Suc i)"

lemma next_slot: "wrap_slot (ushort (int (n mod 4) + 1)) = Suc n mod 4"
  by (subst ushort_Suc) (simp_all add: wrap_slot_mod mod_simps less_trans [OF mod_less_divisor])

lemma next_slot_Suc: "wrap_slot (Suc (n mod 4)) = Suc n mod 4"
  by (simp add: wrap_slot_mod mod_simps)

lemma search_loop_eq:
  assumes "queue_follows I n q hs" and "length s < 65536" and "i \<le> length hs"
  shows "search_loop I q s [i..<length hs] ((his_fp q + i) mod 4)
    = Some (case List.find (\<lambda>i. hs ! i = s) [i..<length hs] of None \<Rightarrow> 0 | Some i \<Rightarrow> Suc i)"
  using assms(3)
proof (induction i rule: inc_induct)
  case (step i)
  have "ushort (int i + 1) = Suc i" using step.hyps assms(1) by (auto simp: queue_follows_def queue_holds_def)
  then show ?case
    using step item_matches_eq [OF assms(1) _ assms(2), of i] by (simp add: upt_conv_Cons next_slot_Suc)
qed simp

lemma search_cmd_eq:
  assumes "queue_follows I n q hs" and "length s < 65536"
  shows "shell_his_queue_search_cmd I q s = Some (position s hs)"
proof -
  have "his_len q = length hs" "his_fp q mod 4 = his_fp q" using assms(1) by (auto simp: queue_follows_def queue_holds_def)
  then show ?thesis
    using search_loop_eq [OF assms, of 0] by (auto simp: shell_his_queue_search_cmd_def position_def)
qed

lemma take_drop_ring:
  assumes "length buf = 254" and "a < 254" and "length h \<le> 253" and "\<And>k. k < length h \<Longrightarrow> buf ! ((a + k) mod 254) = h ! k"
  shows "a + length h < 254 \<Longrightarrow> take (length h) (drop a buf) = h"
    and "254 \<le> a + length h \<Longrightarrow> take (254 - a) (drop a buf) @ take (a + length h - 254) buf = h"
proof -
  assume fits: "a + length h < 254"
  show "take (length h) (drop a buf) = h"
    using assms(1) fits assms(4) by (auto simp: list_eq_iff_nth_eq)
next
  assume wraps: "254 \<le> a + length h"
  show "take (254 - a) (drop a buf) @ take (a + length h - 254) buf = h"
  proof (rule nth_equalityI)
    fix k assume k: "k < length (take (254 - a) (drop a buf) @ take (a + length h - 254) buf)"
    then have kh: "k < length h" using assms(1-3) wraps by simp
    then have "(a + k) mod 254 = (if a + k < 254 then a + k else a + k - 254)" using assms(2,3) by (simp add: mod_if)
    then show "(take (254 - a) (drop a buf) @ take (a + length h - 254) buf) ! k = h ! k"
      using assms(4) [OF kh] kh assms(1-3) wraps by (auto simp: nth_append add.commute split: if_splits)
  qed (use assms wraps in simp)
qed

lemma blit_prefix: "length xs \<le> length m \<Longrightarrow> blit m 0 xs = Some (xs @ drop (length xs) m)"
  by (simp add: blit_def)

lemma terminate_prefix: "length h < length m \<Longrightarrow> store (h @ drop (length h) m) (length h) 0 = Some (h @ 0 # drop (Suc (length h)) m)"
  by (simp add: store_def list_update_append Cons_nth_drop_Suc [symmetric])

lemma copy_item_eq:
  assumes follows: "queue_follows I n q hs" and "i < length hs" and "length (hs ! i) < length m"
  shows "shell_his_copy_queue_item I q (Suc i) m = Some (hs ! i @ 0 # drop (Suc (length (hs ! i))) m)"
proof -
  note item = queue_item [OF assms(1,2)]
  define a where "a = start_of (store_front q) hs i"
  define h where "h = hs ! i"
  have q: "length (his_buf q) = 254" "his_fp q < 4" "his_len q = length hs" "length hs \<le> 3"
    using queue_follows_holds [OF follows] by (auto simp: queue_holds_def)
  have h: "a < 254" "h \<noteq> []" "length h \<le> 253" "length h < length m"
    using item(5-7) assms(3) by (simp_all add: a_def h_def)
  have chars: "\<And>k. k < length h \<Longrightarrow> his_buf q ! ((a + k) mod 254) = h ! k" using item(8) by (simp add: a_def h_def)
  have index: "(if ushort (int (his_fp q) + int (Suc i) - 1) > 3
      then ushort (int (ushort (int (his_fp q) + int (Suc i) - 1)) - int 3 - 1)
      else ushort (int (his_fp q) + int (Suc i) - 1)) = (his_fp q + i) mod 4"
    using q(2,4) assms(2) by (auto simp: ushort_def mod_if nat_diff_distrib)
  have copy: "shell_his_copy_queue_item I q (Suc i) m =
     (if a < (a + length h) mod 254 then do {
          str_buf \<leftarrow> memcpy m 0 (his_buf q) a ((a + length h) mod 254 - a);
          store str_buf ((a + length h) mod 254 - a) 0 }
      else do {
          str_buf \<leftarrow> memcpy m 0 (his_buf q) a (254 - a);
          str_buf \<leftarrow> memcpy str_buf (254 - a) (his_buf q) 0 ((a + length h) mod 254);
          store str_buf ((a + length h) mod 254 + (254 - a)) 0 })"
    unfolding shell_his_copy_queue_item_def Let_def his_sizes index item(1) next_slot item(2) bind.bind_lunit item(3,4)
    using assms(2) q(3) h(1) by (simp add: a_def h_def)
  show ?thesis
  proof (cases "a + length h < 254")
    case True
    then have "memcpy m 0 (his_buf q) a (length h) = Some (h @ drop (length h) m)"
      using take_drop_ring(1) [OF q(1) h(1,3) chars True] h(4) q(1) by (simp add: memcpy_def blit_prefix)
    moreover have "a < (a + length h) mod 254" "(a + length h) mod 254 - a = length h" using True h(2) by simp_all
    ultimately show ?thesis unfolding copy h_def [symmetric] using terminate_prefix [OF h(4)] h(2) by simp
  next
    case False
    let ?x = "take (254 - a) (drop a (his_buf q))" and ?y = "take (a + length h - 254) (his_buf q)"
    have xy: "?x @ ?y = h" using take_drop_ring(2) [OF q(1) h(1,3) chars] False by simp
    have len: "length ?x = 254 - a" "length ?y = a + length h - 254" using q(1) h(1,3) by auto
    have e: "(a + length h) mod 254 = a + length h - 254" using False h(1,3) by (simp add: mod_if)
    have "memcpy m 0 (his_buf q) a (254 - a) = Some (?x @ drop (254 - a) m)"
      using q(1) h False len by (simp add: memcpy_def blit_prefix)
    moreover have "memcpy (?x @ drop (254 - a) m) (254 - a) (his_buf q) 0 (a + length h - 254) = Some (h @ drop (length h) m)"
      using q(1) h False len xy by (simp add: memcpy_def blit_def)
    moreover have "\<not> a < a + length h - 254" "a + length h - 254 + (254 - a) = length h" using h(3) False h(1) by simp_all
    ultimately show ?thesis
      unfolding copy e h_def [symmetric] using terminate_prefix [OF h(4)] by simp
  qed
qed

subsection \<open>The history the shell relies on\<close>

text \<open>What the shell asks of its history: a command that is not there is remembered, a command is found where it is,
  and a command can be copied into the line.  The number counts the characters ever stored; \<open>room\<close> bounds it.\<close>

locale command_history =
  fixes holds :: "nat \<Rightarrow> 'q \<Rightarrow> cstring list \<Rightarrow> bool"
    and room :: "nat \<Rightarrow> bool"
    and add :: "cstring \<Rightarrow> 'q \<Rightarrow> 'q option"
    and search :: "'q \<Rightarrow> cstring \<Rightarrow> nat option"
    and item :: "'q \<Rightarrow> nat \<Rightarrow> byte list \<Rightarrow> byte list option"
  assumes add_law: "holds n q hs \<Longrightarrow> s \<noteq> [] \<Longrightarrow> length s \<le> 253 \<Longrightarrow> room (n + length s) \<Longrightarrow>
      \<exists>q'. add s q = Some q' \<and> holds (n + length s) q' (remember s hs)"
    and search_law: "holds n q hs \<Longrightarrow> length s \<le> 253 \<Longrightarrow> search q s = Some (position s hs)"
    and item_law: "holds n q hs \<Longrightarrow> i < length hs \<Longrightarrow> length (hs ! i) < length m \<Longrightarrow>
      item q (Suc i) m = Some (hs ! i @ 0 # drop (Suc (length (hs ! i))) m)"
begin

text \<open>What a line that is entered does to the list of commands.\<close>

lemma entered_line:
  assumes "holds n q hs" and "length s \<le> 253" and "s \<notin> set hs \<Longrightarrow> room (n + length s)"
  shows "\<exists>q'. (do { k \<leftarrow> search q s; if k = 0 \<and> s \<noteq> [] then add s q else Some q }) = Some q' \<and>
    (if s = [] \<or> s \<in> set hs then holds n q' hs else holds (n + length s) q' (remember s hs))"
proof -
  have "position s hs = 0 \<longleftrightarrow> s \<notin> set hs"
    by (auto simp: position_def find_None_iff find_Some_iff in_set_conv_nth split: option.splits)
  then show ?thesis
    using search_law [OF assms(1,2)] add_law [OF assms(1) _ assms(2)] assms(1,3) by auto
qed

end

text \<open>With the increment as it is meant the queue is such a history for either sign of \<^verbatim>\<open>char\<close>; four rounds are
  enough for every loop that makes space.\<close>

interpretation nrq: command_history "queue_follows (increment_impl b)" "char_room (increment_impl b)"
  "shell_his_queue_add_cmd (increment_impl b) 4" "shell_his_queue_search_cmd (increment_impl b)"
  "shell_his_copy_queue_item (increment_impl b)" for b
proof
  fix n q hs and s :: cstring
  assume "queue_follows (increment_impl b) n q hs" "s \<noteq> []" "length s \<le> 253" "char_room (increment_impl b) (n + length s)"
  then show "\<exists>q'. shell_his_queue_add_cmd (increment_impl b) 4 s q = Some q' \<and>
      queue_follows (increment_impl b) (n + length s) q' (remember s hs)"
    by (intro add_cmd_holds) (auto simp: queue_follows_def queue_holds_def)
next
  fix n q hs and s :: cstring
  assume "queue_follows (increment_impl b) n q hs" "length s \<le> 253"
  then show "shell_his_queue_search_cmd (increment_impl b) q s = Some (position s hs)"
    by (intro search_cmd_eq) auto
next
  fix n q hs i and m :: "byte list"
  assume "queue_follows (increment_impl b) n q hs" "i < length hs" "length (hs ! i) < length m"
  then show "shell_his_copy_queue_item (increment_impl b) q (Suc i) m = Some (hs ! i @ 0 # drop (Suc (length (hs ! i))) m)"
    by (rule copy_item_eq)
qed

end
