(* ===== verification/Nr_Shell.thy ===== *)
theory Nr_Shell
  imports Nr_History
begin

section \<open>nr_micro_shell: the line editor and the shell\<close>

text \<open>
  Model of \<^verbatim>\<open>ansi.c\<close>, \<^verbatim>\<open>ansi_port.c\<close> and the rest of \<^verbatim>\<open>nr_micro_shell.c\<close> under \<^verbatim>\<open>src/src/components/shell/nr/src\<close>,
  in the configuration of \<^verbatim>\<open>nr_micro_shell_config.h\<close> (a line ends with a line feed, full ANSI codes).  The globals
  \<^verbatim>\<open>nr_ansi\<close> and \<^verbatim>\<open>nr_shell\<close> are one record.  The cursor \<^verbatim>\<open>p\<close> is a \<^verbatim>\<open>short\<close>, the index of the character left of
  the cursor or -1, and \<^verbatim>\<open>counter\<close> is \<^verbatim>\<open>unsigned int\<close>; where the source compares the two, \<^verbatim>\<open>p\<close> is converted to
  unsigned, and the model converts it as well.  What is printed is appended to \<open>shell_out\<close>; the functions behind the
  commands are not in this component, a call is recorded in \<open>called\<close> with its arguments.  The table of commands is a
  parameter, the names before its terminating entry.
\<close>

subsection \<open>State\<close>

definition NR_ANSI_LINE_SIZE :: nat where "NR_ANSI_LINE_SIZE = 100"
definition NR_SHELL_CMD_LINE_MAX_LENGTH :: nat where "NR_SHELL_CMD_LINE_MAX_LENGTH = NR_ANSI_LINE_SIZE"
definition NR_ANSI_CTRL_MAX_LEN :: nat where "NR_ANSI_CTRL_MAX_LEN = 20"
definition NR_SHELL_CMD_PARAS_MAX_NUM :: nat where "NR_SHELL_CMD_PARAS_MAX_NUM = 10"
definition NR_SHELL_USER_NAME :: cstring where "NR_SHELL_USER_NAME = ascii ''$ ''"

lemmas nr_sizes = NR_ANSI_LINE_SIZE_def NR_SHELL_CMD_LINE_MAX_LENGTH_def NR_ANSI_CTRL_MAX_LEN_def
  NR_SHELL_CMD_PARAS_MAX_NUM_def

datatype ansi_state = ANSI_NO_CTRL_CHAR | ANSI_MAYBE_CTRL_CHAR | ANSI_WAIT_CTRL_CHAR_END

record nr_state =
  ansi_p :: int
  counter :: nat
  current_line :: "byte list"
  combine_buf :: "byte list"
  cmd_num :: nat
  combine_state :: ansi_state
  cmd_his :: shell_his_queue
  shell_out :: cstring
  called :: "cstring list list"

text \<open>Conversions to \<^verbatim>\<open>short\<close> and \<^verbatim>\<open>unsigned int\<close>.\<close>

definition short :: "int \<Rightarrow> int" where
  "short i = (i + 32768) mod 65536 - 32768"

definition uint32 :: "int \<Rightarrow> nat" where
  "uint32 i = nat (i mod 4294967296)"

definition shell_printf :: "cstring \<Rightarrow> nr_state \<Rightarrow> nr_state" where
  "shell_printf s st = st\<lparr>shell_out := shell_out st @ s\<rparr>"

definition ansi_show_char :: "byte \<Rightarrow> nr_state \<Rightarrow> nr_state" where
  "ansi_show_char c st = shell_printf [c] st"

definition ansi_show_str :: "nat \<Rightarrow> nr_state \<Rightarrow> nr_state option" where
  "ansi_show_str len st =
     (if len \<le> length (current_line st) then Some (shell_printf (take len (current_line st)) st) else None)"

text \<open>A store at an index of type \<^verbatim>\<open>short\<close>.\<close>

definition store_at :: "byte list \<Rightarrow> int \<Rightarrow> byte \<Rightarrow> byte list option" where
  "store_at m i c = (if i < 0 then None else store m (nat i) c)"

definition esc :: "string \<Rightarrow> cstring" where
  "esc s = 27 # ascii s"

subsection \<open>The editing functions\<close>

definition ansi_init :: "nr_state \<Rightarrow> nr_state option" where
  "ansi_init st = do {
     line \<leftarrow> store (current_line st) 0 0;
     Some (st\<lparr>counter := 0, ansi_p := -1, current_line := line, cmd_num := 0, combine_state := ANSI_NO_CTRL_CHAR\<rparr>) }"

definition ansi_clear_current_line :: "nr_state \<Rightarrow> nr_state option" where
  "ansi_clear_current_line st = do {
     line \<leftarrow> store (current_line st) 0 0;
     Some (st\<lparr>counter := 0, ansi_p := -1, current_line := line\<rparr>) }"

text \<open>\<^verbatim>\<open>for (i = counter; i > p; i--) line[i] = line[i - 1];\<close> and \<^verbatim>\<open>for (; i < counter; i++) line[i] = line[i + 1];\<close>\<close>

fun shift_up :: "nat \<Rightarrow> nat \<Rightarrow> byte list \<Rightarrow> byte list option" where
  "shift_up 0 p line = Some line"
| "shift_up (Suc i) p line = (if Suc i > p then do {
     c \<leftarrow> load line i;
     line \<leftarrow> store line (Suc i) c;
     shift_up i p line } else Some line)"

function shift_down :: "nat \<Rightarrow> nat \<Rightarrow> byte list \<Rightarrow> byte list option" where
  "shift_down i n line = (if i < n then do {
     c \<leftarrow> load line (Suc i);
     line \<leftarrow> store line i c;
     shift_down (Suc i) n line } else Some line)"
  by pat_completeness auto
termination
  by (relation "measure (\<lambda>(i, n, _). n - i)") auto

declare shift_down.simps [simp del]

definition nr_ansi_common_char_slover :: "byte \<Rightarrow> nr_state \<Rightarrow> nr_state option" where
  "nr_ansi_common_char_slover x st =
     (if counter st < NR_ANSI_LINE_SIZE - 2 then do {
        line \<leftarrow> (if uint32 (ansi_p st) < counter st then shift_up (counter st) (uint32 (ansi_p st)) (current_line st)
              else Some (current_line st));
        let p = short (ansi_p st + 1);
        let n = uint32 (int (counter st) + 1);
        line \<leftarrow> store_at line p x;
        line \<leftarrow> store line n 0;
        let st = st\<lparr>ansi_p := p, counter := n, current_line := line\<rparr>;
        Some (ansi_show_char x (if uint32 (p + 1) < n then shell_printf (esc ''[1@'') st else st)) }
      else do {
        let n = NR_ANSI_LINE_SIZE - 3;
        line \<leftarrow> store (current_line st) n 0;
        Some (st\<lparr>counter := n, ansi_p := (if uint32 (ansi_p st) \<ge> n then short (int n - 1) else ansi_p st),
          current_line := line\<rparr>) })"

definition nr_ansi_ctrl_common_slover :: "nr_state \<Rightarrow> nr_state option" where
  "nr_ansi_ctrl_common_slover st =
     (if cmd_num st \<le> length (combine_buf st) then Some (shell_printf (take (cmd_num st) (combine_buf st)) st) else None)"

definition nr_ansi_in_enter :: "nr_state \<Rightarrow> nr_state" where
  "nr_ansi_in_enter st = ansi_show_char 13 st"

definition nr_ansi_in_newline :: "nr_state \<Rightarrow> nr_state" where
  "nr_ansi_in_newline st =
     shell_printf [13, 10] (st\<lparr>ansi_p := -1, counter := 0, cmd_his := (cmd_his st)\<lparr>his_index := his_len (cmd_his st)\<rparr>\<rparr>)"

definition nr_ansi_in_backspace :: "nr_state \<Rightarrow> nr_state option" where
  "nr_ansi_in_backspace st =
     (if ansi_p st \<ge> 0 then do {
        line \<leftarrow> shift_down (uint32 (ansi_p st)) (counter st) (current_line st);
        Some (shell_printf (esc ''[1P'') (ansi_show_char 8 (st\<lparr>current_line := line, ansi_p := short (ansi_p st - 1),
          counter := uint32 (int (counter st) - 1)\<rparr>))) }
      else Some st)"

text \<open>The part that the up and the down key share: the command with the current number replaces the line.\<close>

definition show_command :: "impl \<Rightarrow> nr_state \<Rightarrow> nr_state option" where
  "show_command I st = do {
     let st = shell_printf (esc ''[K'') (shell_printf (esc ''['' @ decimal_int (ansi_p st + 1) @ ascii ''D'') st);
     line \<leftarrow> shell_his_copy_queue_item I (cmd_his st) (his_index (cmd_his st)) (current_line st);
     n \<leftarrow> strlen line 0;
     ansi_show_str n (st\<lparr>current_line := line, counter := n, ansi_p := short (int n - 1)\<rparr>) }"

definition nr_ansi_in_up :: "impl \<Rightarrow> nr_state \<Rightarrow> nr_state option" where
  "nr_ansi_in_up I st =
     (if his_index (cmd_his st) > 0 then do {
        st \<leftarrow> show_command I st;
        let k = ushort (int (his_index (cmd_his st)) - 1);
        Some (st\<lparr>cmd_his := (cmd_his st)\<lparr>his_index := (if k = 0 then his_len (cmd_his st) else k)\<rparr>\<rparr>) }
      else Some st)"

definition nr_ansi_in_down :: "impl \<Rightarrow> nr_state \<Rightarrow> nr_state option" where
  "nr_ansi_in_down I st =
     (if his_index (cmd_his st) > 0 then do {
        st \<leftarrow> show_command I st;
        let k = ushort (int (his_index (cmd_his st)) + 1);
        Some (st\<lparr>cmd_his := (cmd_his st)\<lparr>his_index := (if k > his_len (cmd_his st) then 1 else k)\<rparr>\<rparr>) }
      else Some st)"

definition nr_ansi_in_left :: "nr_state \<Rightarrow> nr_state" where
  "nr_ansi_in_left st =
     (if ansi_p st > -1 then shell_printf (esc ''[1D'') (st\<lparr>ansi_p := short (ansi_p st - 1)\<rparr>) else st)"

text \<open>\<^verbatim>\<open>(int)(counter - 1)\<close>: the subtraction is unsigned, the result is read as signed.\<close>

definition to_int32 :: "nat \<Rightarrow> int" where
  "to_int32 n = (int n + 2147483648) mod 4294967296 - 2147483648"

definition nr_ansi_in_right :: "nr_state \<Rightarrow> nr_state" where
  "nr_ansi_in_right st =
     (if ansi_p st < to_int32 (uint32 (int (counter st) - 1))
      then shell_printf (esc ''[1C'') (st\<lparr>ansi_p := short (ansi_p st + 1)\<rparr>) else st)"

definition nr_ansi_in_delete :: "nr_state \<Rightarrow> nr_state option" where
  "nr_ansi_in_delete st = do {
     c \<leftarrow> load (combine_buf st) 2;
     if c = 51 then do {
       line \<leftarrow> shift_down (uint32 (ansi_p st + 1)) (counter st) (current_line st);
       let st = st\<lparr>current_line := line\<rparr>;
       Some (if short (int (counter st)) > ansi_p st
             then shell_printf (esc ''[1P'') (st\<lparr>counter := uint32 (int (counter st) - 1)\<rparr>) else st) }
     else Some st }"

subsection \<open>Completion\<close>

definition strstr :: "cstring \<Rightarrow> cstring \<Rightarrow> nat option" where
  "strstr s t = List.find (\<lambda>i. take (length t) (drop i s) = t) [0..<Suc (length s)]"

text \<open>The loop over the table with the best match and its position so far; the counter is an \<^verbatim>\<open>unsigned char\<close>, so
  the table has at most 255 commands.\<close>

fun complete_loop :: "cstring list \<Rightarrow> cstring \<Rightarrow> cstring option \<Rightarrow> nat \<Rightarrow> cstring option" where
  "complete_loop [] str best min_position = best"
| "complete_loop (cmd # cmds) str best min_position =
     (case strstr cmd str of
        Some d \<Rightarrow> if d < min_position then (if d mod 256 = 0 then Some cmd else complete_loop cmds str (Some cmd) (d mod 256))
          else complete_loop cmds str best min_position
      | None \<Rightarrow> complete_loop cmds str best min_position)"

definition shell_cmd_complete :: "cstring list \<Rightarrow> cstring \<Rightarrow> cstring option" where
  "shell_cmd_complete static_cmd str = complete_loop static_cmd str None 255"

definition nr_ansi_in_tab :: "cstring list \<Rightarrow> nr_state \<Rightarrow> nr_state option" where
  "nr_ansi_in_tab static_cmd st = do {
     str \<leftarrow> cstring_at (current_line st) 0;
     (case shell_cmd_complete static_cmd str of
        None \<Rightarrow> Some st
      | Some cmd \<Rightarrow>
          if counter st = 0
          then Some (shell_printf NR_SHELL_USER_NAME
            (fold (\<lambda>c. shell_printf (c @ [13, 10])) static_cmd (shell_printf [13, 10] st)))
          else do {
            let st = shell_printf (esc ''[K'') (shell_printf (esc ''['' @ decimal_int (ansi_p st + 1) @ ascii ''D'') st);
            line \<leftarrow> strcpy (current_line st) 0 cmd;
            ansi_show_str (length cmd) (st\<lparr>current_line := line, counter := length cmd,
              ansi_p := short (int (length cmd) - 1)\<rparr>) }) }"

subsection \<open>Characters and control sequences\<close>

definition ansi_search_char :: "byte \<Rightarrow> byte list \<Rightarrow> int" where
  "ansi_search_char x buf = (case List.find (\<lambda>i. buf ! i = x) [0..<length buf] of None \<Rightarrow> -1 | Some i \<Rightarrow> int i)"

definition nr_ansi_in_special_symbol :: "byte list" where
  "nr_ansi_in_special_symbol = [8, 10, 13, 9]"

definition nr_ansi_in_special_symbol_fun :: "cstring list \<Rightarrow> int \<Rightarrow> nr_state \<Rightarrow> nr_state option" where
  "nr_ansi_in_special_symbol_fun static_cmd cmd_id st =
     (if cmd_id = 0 then nr_ansi_in_backspace st
      else if cmd_id = 1 then Some (nr_ansi_in_newline st)
      else if cmd_id = 2 then Some (nr_ansi_in_enter st)
      else nr_ansi_in_tab static_cmd st)"

definition nr_ansi_in_cmd :: "byte list" where
  "nr_ansi_in_cmd = ascii ''mIABCDXKMPJ@LlhnHsu~''"

definition nr_ansi_in_cmd_fun :: "impl \<Rightarrow> int \<Rightarrow> nr_state \<Rightarrow> nr_state option" where
  "nr_ansi_in_cmd_fun I cmd_id st =
     (if cmd_id = 2 then nr_ansi_in_up I st
      else if cmd_id = 3 then nr_ansi_in_down I st
      else if cmd_id = 4 then Some (nr_ansi_in_right st)
      else if cmd_id = 5 then Some (nr_ansi_in_left st)
      else if cmd_id = 19 then nr_ansi_in_delete st
      else nr_ansi_ctrl_common_slover st)"

definition ends_control :: "byte \<Rightarrow> bool" where
  "ends_control x \<longleftrightarrow> (97 \<le> x \<and> x \<le> 122) \<or> (65 \<le> x \<and> x \<le> 90) \<or> x = 126"

definition ansi_get_char :: "impl \<Rightarrow> cstring list \<Rightarrow> byte \<Rightarrow> nr_state \<Rightarrow> nr_state option" where
  "ansi_get_char I static_cmd x st = (case combine_state st of
     ANSI_NO_CTRL_CHAR \<Rightarrow>
       let cmd_id = ansi_search_char x nr_ansi_in_special_symbol in
       if cmd_id \<ge> 0 then nr_ansi_in_special_symbol_fun static_cmd cmd_id st
       else if x = 27 then do {
         buf \<leftarrow> store (combine_buf st) (cmd_num st) x;
         Some (st\<lparr>combine_state := ANSI_WAIT_CTRL_CHAR_END, combine_buf := buf, cmd_num := cmd_num st + 1\<rparr>) }
       else nr_ansi_common_char_slover x st
   | ANSI_WAIT_CTRL_CHAR_END \<Rightarrow> do {
       buf \<leftarrow> store (combine_buf st) (cmd_num st) x;
       let st = st\<lparr>combine_buf := buf\<rparr>;
       if ends_control x then do {
         let cmd_id = ansi_search_char x nr_ansi_in_cmd;
         st \<leftarrow> (if cmd_id \<noteq> -1 then nr_ansi_in_cmd_fun I cmd_id st else Some st);
         Some (st\<lparr>cmd_num := 0, combine_state := ANSI_NO_CTRL_CHAR\<rparr>) }
       else if cmd_num st > 18 then Some (st\<lparr>cmd_num := 0, combine_state := ANSI_NO_CTRL_CHAR\<rparr>)
       else Some (st\<lparr>cmd_num := cmd_num st + 1\<rparr>) }
   | ANSI_MAYBE_CTRL_CHAR \<Rightarrow> Some (st\<lparr>combine_state := ANSI_NO_CTRL_CHAR\<rparr>))"

subsection \<open>Commands\<close>

text \<open>The loop of \<^verbatim>\<open>nr_shell_argcv\<close>: position and start of the current word, and the starts of the words before.\<close>

function argcv_loop :: "byte list \<Rightarrow> nat \<Rightarrow> nat \<Rightarrow> nat list \<Rightarrow> (byte list \<times> nat \<times> nat list) option" where
  "argcv_loop m cmdline start argv =
     (if cmdline < length m then
        let c = m ! cmdline in
        if c \<noteq> 0 \<and> length argv < NR_SHELL_CMD_PARAS_MAX_NUM then
          if c = 32 then argcv_loop (m[cmdline := 0]) (Suc cmdline) (Suc cmdline) (argv @ [start])
          else argcv_loop m (Suc cmdline) start argv
        else Some (m, start, argv)
      else None)"
  by pat_completeness auto
termination
  by (relation "measure (\<lambda>(m, i, _, _). length m - i)") auto

declare argcv_loop.simps [simp del]

text \<open>The last word is stored behind the loop, without a test that the array has room for it.\<close>

definition nr_shell_argcv :: "byte list \<Rightarrow> (byte list \<times> nat list) option" where
  "nr_shell_argcv m = do {
     (m, start, argv) \<leftarrow> argcv_loop m 0 0 [];
     if length argv < NR_SHELL_CMD_PARAS_MAX_NUM then Some (m, argv @ [start]) else None }"

definition shell_search_cmd :: "cstring list \<Rightarrow> cstring \<Rightarrow> cstring option" where
  "shell_search_cmd static_cmd str = List.find (\<lambda>c. c = str) static_cmd"

definition isalpha :: "byte \<Rightarrow> bool" where
  "isalpha c \<longleftrightarrow> (65 \<le> c \<and> c \<le> 90) \<or> (97 \<le> c \<and> c \<le> 122)"

fun strings_at :: "byte list \<Rightarrow> nat list \<Rightarrow> cstring list option" where
  "strings_at m [] = Some []"
| "strings_at m (a # as) = do { s \<leftarrow> cstring_at m a; ss \<leftarrow> strings_at m as; Some (s # ss) }"

definition remember_line :: "impl \<Rightarrow> nat \<Rightarrow> cstring \<Rightarrow> shell_his_queue \<Rightarrow> shell_his_queue option" where
  "remember_line I fuel str q = do {
     k \<leftarrow> shell_his_queue_search_cmd I q str;
     if k = 0 \<and> str \<noteq> [] then shell_his_queue_add_cmd I fuel str q else Some q }"

definition shell_parser :: "impl \<Rightarrow> nat \<Rightarrow> cstring list \<Rightarrow> nr_state \<Rightarrow> nr_state option" where
  "shell_parser I fuel static_cmd st = do {
     str \<leftarrow> cstring_at (current_line st) 0;
     q \<leftarrow> remember_line I fuel str (cmd_his st);
     let st = st\<lparr>cmd_his := q\<rparr>;
     if length str > NR_SHELL_CMD_LINE_MAX_LENGTH
     then Some (shell_printf NR_SHELL_USER_NAME (shell_printf (ascii ''this command is too long.'' @ [10]) st))
     else do {
       (m, argv) \<leftarrow> nr_shell_argcv (current_line st);
       args \<leftarrow> strings_at m argv;
       let st = st\<lparr>current_line := m\<rparr>;
       let st = (case shell_search_cmd static_cmd (hd args) of
           None \<Rightarrow> if isalpha (m ! 0) then shell_printf (ascii ''no command named: '' @ hd args @ [10]) st else st
         | Some _ \<Rightarrow> st\<lparr>called := called st @ [args]\<rparr>);
       Some (shell_printf NR_SHELL_USER_NAME st) } }"

text \<open>The macro \<^verbatim>\<open>shell(c)\<close>, the input of the shell one character after the other, and \<^verbatim>\<open>shell_init()\<close>.\<close>

definition shell :: "impl \<Rightarrow> nat \<Rightarrow> cstring list \<Rightarrow> byte \<Rightarrow> nr_state \<Rightarrow> nr_state option" where
  "shell I fuel static_cmd c st = do {
     st \<leftarrow> ansi_get_char I static_cmd c st;
     if c = 10 then do {
       st \<leftarrow> shell_parser I fuel static_cmd st;
       ansi_clear_current_line st }
     else Some st }"

fun shell_input :: "impl \<Rightarrow> nat \<Rightarrow> cstring list \<Rightarrow> cstring \<Rightarrow> nr_state \<Rightarrow> nr_state option" where
  "shell_input I fuel static_cmd [] st = Some st"
| "shell_input I fuel static_cmd (c # cs) st = do {
     st \<leftarrow> shell I fuel static_cmd c st;
     shell_input I fuel static_cmd cs st }"

text \<open>The banner of \<^verbatim>\<open>_shell_init\<close>; an exclamation mark stands for the backslash, which a string of HOL cannot have.\<close>

definition banner_line :: "string \<Rightarrow> cstring" where
  "banner_line s = map (\<lambda>c. if c = CHR ''!'' then 92 else of_char c) s @ [13, 10]"

definition shell_banner :: cstring where
  "shell_banner = concat (map banner_line
    ['' _   _ ____    __  __ _                  ____  _          _ _ '',
     ''| ! | |  _ !  |  !/  (_) ___ _ __ ___   / ___|| |__   ___| | |'',
     ''|  !| | |_) | | |!/| | |/ __| '__/ _ !  !___ !| '_ ! / _ ! | |'',
     ''| |!  |  _ <  | |  | | | (__| | | (_) |  ___) | | | |  __/ | |'',
     ''|_| !_|_| !_! |_|  |_|_|!___|_|  !___/  |____/|_| |_|!___|_|_|'',
     ''                                                              ''])"

definition shell_init :: "impl \<Rightarrow> nat \<Rightarrow> nr_state \<Rightarrow> nr_state option" where
  "shell_init I fuel st = do {
     st \<leftarrow> ansi_init st;
     let st = shell_printf NR_SHELL_USER_NAME (shell_printf shell_banner st);
     q \<leftarrow> shell_his_queue_add_cmd I fuel (ascii ''ls cmd'') (shell_his_queue_init (cmd_his st));
     Some (st\<lparr>cmd_his := q\<lparr>his_index := 1\<rparr>\<rparr>) }"

end
