(* ===== verification/Nr_Editor.thy ===== *)
theory Nr_Editor
  imports Nr_Shell
begin

section \<open>nr_micro_shell: what the line editor and the shell do\<close>

text \<open>
  The line editor as an editor of the text left and right of the cursor, the words of a line, and what happens to a
  line that is entered.  The abstract editor has no result where the C code leaves it: a character typed in front of a
  line, and Delete at the end of a line.
\<close>

subsection \<open>Small numbers and shifted lines\<close>

lemma short_small [simp]: "- 32768 \<le> i \<Longrightarrow> i < 32768 \<Longrightarrow> short i = i"
  by (simp add: short_def)

lemma uint32_small [simp]: "0 \<le> i \<Longrightarrow> i < 4294967296 \<Longrightarrow> uint32 i = nat i"
  by (simp add: uint32_def)

lemma uint32_minus_one [simp]: "uint32 (- 1) = 4294967295"
  by (simp add: uint32_def)

lemma shift_up_split:
  "b \<noteq> [] \<Longrightarrow> shift_up (length a + length b) (length a) (a @ b @ z # rest) = Some (a @ hd b # b @ rest)"
proof (induction b arbitrary: z rest rule: rev_induct)
  case (snoc y b)
  have "shift_up (length a + length (b @ [y])) (length a) (a @ (b @ [y]) @ z # rest)
      = shift_up (length a + length b) (length a) (a @ b @ y # y # rest)"
    by (simp add: load_def nth_append list_update_append)
  then show ?case using snoc.IH [of y "y # rest"] by (cases "b = []") (cases "length a"; simp)+
qed simp

lemma shift_down_split:
  "shift_down (length a) (length a + length b) (a @ b @ z # rest) = Some (a @ (if b = [] then [] else tl b @ [z]) @ z # rest)"
proof (induction b arbitrary: a)
  case Nil
  then show ?case by (simp add: shift_down.simps)
next
  case (Cons x b)
  define y where "y = hd (b @ [z])"
  have "(b @ z # rest) ! 0 = y" by (cases b) (simp_all add: y_def)
  then have "shift_down (length a) (length a + length (x # b)) (a @ (x # b) @ z # rest)
      = shift_down (length (a @ [y])) (length (a @ [y]) + length b) ((a @ [y]) @ b @ z # rest)"
    by (subst shift_down.simps) (simp add: load_def nth_append list_update_append)
  then show ?case using Cons.IH [of "a @ [y]"] by (cases b) (simp_all add: y_def)
qed

subsection \<open>The editor on the text left and right of the cursor\<close>

definition line_holds :: "nr_state \<Rightarrow> cstring \<Rightarrow> cstring \<Rightarrow> bool" where
  "line_holds st l r \<longleftrightarrow> ansi_p st = int (length l) - 1 \<and> counter st = length l + length r \<and> length l + length r \<le> 98 \<and>
     length (current_line st) = 100 \<and> (\<exists>rest. current_line st = l @ r @ 0 # rest) \<and>
     combine_state st = ANSI_NO_CTRL_CHAR \<and> cmd_num st = 0 \<and> length (combine_buf st) = 20"

datatype key = Char byte | Backspace | Left | Right | Delete

fun key_bytes :: "key \<Rightarrow> cstring" where
  "key_bytes (Char c) = [c]"
| "key_bytes Backspace = [8]"
| "key_bytes Left = [27, 91, 68]"
| "key_bytes Right = [27, 91, 67]"
| "key_bytes Delete = [27, 91, 51, 126]"

definition plain_char :: "byte \<Rightarrow> bool" where
  "plain_char c \<longleftrightarrow> c \<notin> {0, 8, 9, 10, 13, 27}"

text \<open>What a key does to the text.  A character that does not fit replaces nothing: the line of 98 characters is cut
  to 97, and a cursor in front of it goes to its end.  Typing in front of a line that is not full and Delete without a
  character to delete have no result.\<close>

fun edit :: "key \<Rightarrow> cstring \<times> cstring \<Rightarrow> (cstring \<times> cstring) option" where
  "edit (Char c) (l, r) =
     (if \<not> plain_char c \<or> l = [] \<and> r \<noteq> [] \<and> length r < 98 then None
      else if length l + length r < 98 then Some (l @ [c], r)
      else if l = [] then Some (take 97 r, [])
      else Some (take 97 l, take (97 - length l) r))"
| "edit Backspace (l, r) = Some (butlast l, r)"
| "edit Left (l, r) = Some (if l = [] then (l, r) else (butlast l, last l # r))"
| "edit Right (l, r) = Some (case r of [] \<Rightarrow> (l, r) | c # r' \<Rightarrow> (l @ [c], r'))"
| "edit Delete (l, r) = (case r of [] \<Rightarrow> None | _ # r' \<Rightarrow> Some (l, r'))"

fun edits :: "key list \<Rightarrow> cstring \<times> cstring \<Rightarrow> (cstring \<times> cstring) option" where
  "edits [] lr = Some lr"
| "edits (k # ks) lr = do { lr \<leftarrow> edit k lr; edits ks lr }"

lemma shell_char: "c \<noteq> 10 \<Longrightarrow> shell I fuel cmds c st = ansi_get_char I cmds c st"
  by (simp add: shell_def)

lemma shell_input_one: "shell_input I fuel cmds [c] st = shell I fuel cmds c st"
  by (cases "shell I fuel cmds c st") simp_all

lemma common_char:
  "combine_state st = ANSI_NO_CTRL_CHAR \<Longrightarrow> plain_char c \<Longrightarrow> ansi_get_char I cmds c st = nr_ansi_common_char_slover c st"
  by (simp add: ansi_get_char_def ansi_search_char_def nr_ansi_in_special_symbol_def plain_char_def)

lemma insert_char:
  assumes "line_holds st l r" and "length l + length r < 98" and "l = [] \<longrightarrow> r = []"
  shows "\<exists>st'. nr_ansi_common_char_slover c st = Some st' \<and> line_holds st' (l @ [c]) r \<and> cmd_his st' = cmd_his st \<and> called st' = called st"
proof -
  obtain rest where rest: "current_line st = l @ r @ 0 # rest" using assms(1) by (auto simp: line_holds_def)
  have st: "ansi_p st = int (length l) - 1" "counter st = length l + length r" "length (current_line st) = 100"
    using assms(1) by (auto simp: line_holds_def)
  have "\<exists>z rest'. (if uint32 (ansi_p st) < counter st then shift_up (counter st) (uint32 (ansi_p st)) (current_line st)
              else Some (current_line st)) = Some (l @ z # r @ rest') \<and> length (l @ z # r @ rest') = 100"
  proof (cases l rule: rev_cases)
    case Nil
    then show ?thesis using assms(3) st rest by simp
  next
    case (snoc l' x)
    then show ?thesis
      using shift_up_split [of "x # r" l' 0 rest] st rest assms(2) by (auto simp: nat_diff_distrib)
  qed
  then obtain z rest' where line: "(if uint32 (ansi_p st) < counter st then shift_up (counter st) (uint32 (ansi_p st)) (current_line st)
              else Some (current_line st)) = Some (l @ z # r @ rest')" "length l + length r + length rest' = 99" by auto
  have n: "uint32 (int (counter st) + 1) = Suc (length l + length r)" using st assms(2) by (simp add: nat_add_distrib)
  have p: "short (ansi_p st + 1) = int (length l)" using st assms(2) by simp
  obtain y rest2 where rest2: "rest' = y # rest2" using line(2) assms(2) by (cases rest') auto
  have "nr_ansi_common_char_slover c st = Some (st\<lparr>ansi_p := int (length l), counter := Suc (length l + length r),
      current_line := l @ c # r @ 0 # rest2, shell_out := shell_out st @ (if r = [] then [] else esc ''[1@'') @ [c]\<rparr>)"
    unfolding nr_ansi_common_char_slover_def line(1) n p Let_def
    using st(2) line(2) assms(2) rest2
    by (simp add: nr_sizes store_at_def list_update_append ansi_show_char_def shell_printf_def nat_add_distrib)
  then show ?thesis using assms(1,2) line(2) rest2 by (auto simp: line_holds_def)
qed

lemma full_line:
  assumes "line_holds st l r" and "length l + length r = 98"
  defines "l' \<equiv> (if l = [] then take 97 r else take 97 l)" and "r' \<equiv> (if l = [] then [] else take (97 - length l) r)"
  shows "\<exists>st'. nr_ansi_common_char_slover c st = Some st' \<and> line_holds st' l' r' \<and>
    cmd_his st' = cmd_his st \<and> called st' = called st"
proof -
  obtain rest where rest: "current_line st = l @ r @ 0 # rest" using assms(1) by (auto simp: line_holds_def)
  have st: "ansi_p st = int (length l) - 1" "counter st = 98" "length (current_line st) = 100"
      "uint32 (ansi_p st) = (if l = [] then 4294967295 else length l - 1)"
    using assms by (auto simp: line_holds_def nat_diff_distrib Suc_le_eq)
  let ?m = "take 97 (l @ r) @ 0 # 0 # rest"
  have "(l @ r)[97 := 0] = take 97 (l @ r) @ [0]"
    using assms(2) by (simp add: upd_conv_take_nth_drop)
  then have m: "(current_line st)[97 := 0] = ?m"
    unfolding rest append_assoc [symmetric] using assms(2) by (subst list_update_append1) simp_all
  have "nr_ansi_common_char_slover c st = Some (st\<lparr>counter := 97, ansi_p := int (length l') - 1, current_line := ?m\<rparr>)"
    unfolding nr_ansi_common_char_slover_def Let_def st(4) using st m assms(2)
    by (auto simp: nr_sizes l'_def)
  then show ?thesis using assms rest by (auto simp: line_holds_def)
qed

text \<open>The keys that are control sequences: an escape, a bracket and a letter, or an escape, a bracket, a digit and a tilde.\<close>

lemmas get_char_simps = ansi_get_char_def ansi_search_char_def nr_ansi_in_special_symbol_def nr_ansi_in_cmd_def
  ends_control_def ascii_def Let_def

definition sequence_started :: "nr_state \<Rightarrow> nr_state" where
  "sequence_started st = st\<lparr>combine_state := ANSI_WAIT_CTRL_CHAR_END, combine_buf := (combine_buf st)[0 := 27, Suc 0 := 91],
     cmd_num := Suc (Suc 0)\<rparr>"

lemma start_sequence:
  assumes "line_holds st l r"
  shows "shell_input I fuel cmds (27 # 91 # bs) st = shell_input I fuel cmds bs (sequence_started st)"
  using assms by (simp add: line_holds_def shell_char get_char_simps sequence_started_def)

text \<open>What a key leaves alone, and what it is to do.\<close>

definition key_done :: "nr_state \<Rightarrow> cstring \<times> cstring \<Rightarrow> nr_state option \<Rightarrow> bool" where
  "key_done st lr res \<longleftrightarrow> (\<exists>st'. res = Some st' \<and> line_holds st' (fst lr) (snd lr) \<and> cmd_his st' = cmd_his st \<and> called st' = called st)"

lemma key_doneI: "res = Some st' \<Longrightarrow> line_holds st' l r \<Longrightarrow> cmd_his st' = cmd_his st \<Longrightarrow> called st' = called st \<Longrightarrow> key_done st (l, r) res"
  by (auto simp: key_done_def)

lemma left_key:
  assumes "line_holds st l r" and "edit Left (l, r) = Some lr"
  shows "key_done st lr (shell_input I fuel cmds (key_bytes Left) st)"
  using assms
  by (cases l rule: rev_cases)
     (auto simp: start_sequence key_done_def, auto simp: sequence_started_def line_holds_def shell_char get_char_simps
       nr_ansi_in_cmd_fun_def nr_ansi_in_left_def shell_printf_def)

lemma to_int32_small [simp]: "n < 2147483648 \<Longrightarrow> to_int32 n = int n"
  by (simp add: to_int32_def)

lemma to_int32_pred: "n \<le> 98 \<Longrightarrow> to_int32 (uint32 (int n - 1)) = int n - 1"
  by (cases n) (simp_all add: to_int32_def uint32_def)

lemma right_key:
  assumes "line_holds st l r" and "edit Right (l, r) = Some lr"
  shows "key_done st lr (shell_input I fuel cmds (key_bytes Right) st)"
  using assms
  by (cases r)
     (auto simp: start_sequence key_done_def, auto simp: sequence_started_def line_holds_def shell_char get_char_simps
       nr_ansi_in_cmd_fun_def nr_ansi_in_right_def shell_printf_def to_int32_pred)

lemma backspace_key:
  assumes "line_holds st l r" and "edit Backspace (l, r) = Some lr"
  shows "key_done st lr (shell_input I fuel cmds (key_bytes Backspace) st)"
proof (cases l rule: rev_cases)
  case Nil
  then show ?thesis
    using assms by (auto simp: key_done_def line_holds_def shell_char get_char_simps
      nr_ansi_in_special_symbol_fun_def nr_ansi_in_backspace_def)
next
  case (snoc l' x)
  obtain rest where rest: "current_line st = l @ r @ 0 # rest" using assms(1) by (auto simp: line_holds_def)
  have "shift_down (length l') (Suc (length l' + length r)) (l' @ x # r @ 0 # rest) = Some (l' @ r @ 0 # 0 # rest)"
    using shift_down_split [of l' "x # r" 0 rest] by simp
  then show ?thesis
    using assms rest snoc by (auto simp: key_done_def line_holds_def shell_char get_char_simps
      nr_ansi_in_special_symbol_fun_def nr_ansi_in_backspace_def ansi_show_char_def shell_printf_def)
qed

lemma delete_key:
  assumes "line_holds st l r" and "edit Delete (l, r) = Some lr"
  shows "key_done st lr (shell_input I fuel cmds (key_bytes Delete) st)"
proof (cases r)
  case (Cons x r')
  obtain rest where rest: "current_line st = l @ r @ 0 # rest" using assms(1) by (auto simp: line_holds_def)
  have "shift_down (length l) (Suc (length l + length r')) (l @ x # r' @ 0 # rest) = Some (l @ r' @ 0 # 0 # rest)"
    using shift_down_split [of l "x # r'" 0 rest] by simp
  moreover have "(combine_buf st)[0 := 27, Suc 0 := 91, Suc (Suc 0) := 51] ! 2 = 51"
    using assms(1) by (simp add: line_holds_def numeral_2_eq_2)
  ultimately show ?thesis
    unfolding key_bytes.simps start_sequence [OF assms(1)] key_done_def
    using assms rest Cons by (auto simp: sequence_started_def line_holds_def shell_char
      get_char_simps nr_ansi_in_cmd_fun_def nr_ansi_in_delete_def shell_printf_def)
qed (use assms in simp)

lemma char_key:
  assumes "line_holds st l r" and "edit (Char c) (l, r) = Some lr"
  shows "key_done st lr (shell_input I fuel cmds (key_bytes (Char c)) st)"
proof -
  have c: "plain_char c" using assms(2) by (auto split: if_splits)
  have "shell_input I fuel cmds (key_bytes (Char c)) st = nr_ansi_common_char_slover c st"
    unfolding key_bytes.simps shell_input_one using assms(1) c by (auto simp: shell_char common_char line_holds_def plain_char_def)
  moreover have "length l + length r \<le> 98" using assms(1) by (simp add: line_holds_def)
  then consider (room) "length l + length r < 98" "l = [] \<longrightarrow> r = []" "lr = (l @ [c], r)"
    | (full) "length l + length r = 98"
        "lr = (if l = [] then take 97 r else take 97 l, if l = [] then [] else take (97 - length l) r)"
    using assms(2) c by (cases "length l + length r < 98"; cases l) (auto split: if_splits)
  then have "key_done st lr (nr_ansi_common_char_slover c st)"
    by cases (use insert_char [OF assms(1), of c] full_line [OF assms(1), of c] in \<open>simp_all add: key_done_def\<close>)
  ultimately show ?thesis by simp
qed

lemma key_step:
  assumes "line_holds st l r" and "edit k (l, r) = Some lr"
  shows "key_done st lr (shell_input I fuel cmds (key_bytes k) st)"
  using assms by (cases k) (blast intro: char_key backspace_key left_key right_key delete_key)+

lemma shell_input_append:
  "shell_input I fuel cmds (xs @ ys) st = do { st \<leftarrow> shell_input I fuel cmds xs st; shell_input I fuel cmds ys st }"
  by (induction xs arbitrary: st) (simp_all split: bind_split)

lemma edits_step:
  assumes "line_holds st (fst lr) (snd lr)" and "edits ks lr = Some lr'"
  shows "key_done st lr' (shell_input I fuel cmds (concat (map key_bytes ks)) st)"
  using assms
proof (induction ks arbitrary: st lr)
  case Nil
  then show ?case by (simp add: key_done_def)
next
  case (Cons k ks)
  then obtain lr2 where k: "edit k (fst lr, snd lr) = Some lr2" "edits ks lr2 = Some lr'" by (auto simp: bind_eq_Some_conv)
  obtain st2 where st2: "shell_input I fuel cmds (key_bytes k) st = Some st2" "line_holds st2 (fst lr2) (snd lr2)"
      "cmd_his st2 = cmd_his st" "called st2 = called st"
    using key_step [OF Cons.prems(1) k(1), of I fuel cmds] by (auto simp: key_done_def)
  then show ?case using Cons.IH [OF st2(2) k(2)] by (auto simp: shell_input_append key_done_def)
qed

lemma edit_cstring:
  assumes "edit k (l, r) = Some lr" and "is_cstring (l @ r)"
  shows "is_cstring (fst lr @ snd lr)"
  using assms
  by (cases k; cases l rule: rev_cases)
     (auto simp: is_cstring_def plain_char_def dest!: in_set_takeD split: if_splits list.splits)

lemma edits_cstring: "edits ks lr = Some lr' \<Longrightarrow> is_cstring (fst lr @ snd lr) \<Longrightarrow> is_cstring (fst lr' @ snd lr')"
proof (induction ks arbitrary: lr)
  case (Cons k ks)
  then show ?case using edit_cstring [of k "fst lr" "snd lr"] by (auto simp: bind_eq_Some_conv)
qed simp

subsection \<open>The words of a line\<close>

fun words :: "cstring \<Rightarrow> cstring list" where
  "words [] = [[]]"
| "words (c # cs) = (if c = 32 then [] # words cs else (c # hd (words cs)) # tl (words cs))"

lemma words_not_Nil [simp]: "words s \<noteq> []"
  by (cases s) simp_all

lemma words_append: "32 \<notin> set w \<Longrightarrow> words (w @ s) = (w @ hd (words s)) # tl (words s)"
  by (induction w) auto

lemma hd_words_Nil: "32 \<notin> set w \<Longrightarrow> words w = [w]"
  using words_append [of w "[]"] by simp

text \<open>Spaces become the ends of strings.\<close>

definition blank :: "byte \<Rightarrow> byte" where
  "blank c = (if c = 32 then 0 else c)"

lemma blank_simps [simp]: "blank 32 = 0" "c \<noteq> 32 \<Longrightarrow> blank c = c"
  by (simp_all add: blank_def)

lemma argcv_loop_words:
  assumes "is_cstring (w @ s)" and "32 \<notin> set w" and "length argv + count_list s 32 < 10"
  shows "\<exists>as start. argcv_loop (pre @ w @ s @ 0 # rest) (length pre + length w) (length pre) argv =
      Some (pre @ w @ map blank s @ 0 # rest, start, argv @ as) \<and> length as = count_list s 32 \<and>
      strings_at (pre @ w @ map blank s @ 0 # rest) (as @ [start]) = Some (words (w @ s))"
  using assms
proof (induction s arbitrary: pre w argv)
  case Nil
  then show ?case
    by (subst argcv_loop.simps) (auto simp: nth_append hd_words_Nil cstring_at_split NR_SHELL_CMD_PARAS_MAX_NUM_def)
next
  case (Cons c s)
  show ?case
  proof (cases "c = 32")
    case True
    have w: "words (w @ 32 # s) = w # words s" using Cons.prems(2) by (simp add: words_append)
    obtain as start where as: "argcv_loop ((pre @ w @ [0]) @ [] @ s @ 0 # rest) (length (pre @ w @ [0]) + length []) (length (pre @ w @ [0])) (argv @ [length pre]) =
      Some ((pre @ w @ [0]) @ [] @ map blank s @ 0 # rest, start, (argv @ [length pre]) @ as)" "length as = count_list s 32"
      "strings_at ((pre @ w @ [0]) @ [] @ map blank s @ 0 # rest) (as @ [start]) = Some (words s)"
      using Cons.IH [of "[]" "argv @ [length pre]" "pre @ w @ [0]"] Cons.prems True by (auto simp: is_cstring_def)
    have "cstring_at (pre @ w @ 0 # map blank s @ 0 # rest) (length pre) = Some w"
      by (rule cstring_at_split) (use Cons.prems(1) in \<open>auto simp: is_cstring_def\<close>)
    then show ?thesis
      using as w Cons.prems True
      by (subst argcv_loop.simps)
         (simp add: nth_append list_update_append NR_SHELL_CMD_PARAS_MAX_NUM_def exI [of _ "length pre # as"])
  next
    case False
    then show ?thesis
      using Cons.IH [of "w @ [c]" argv pre] Cons.prems
      by (subst argcv_loop.simps) (simp add: nth_append NR_SHELL_CMD_PARAS_MAX_NUM_def is_cstring_def)
  qed
qed

lemma argcv_loop_many:
  assumes "is_cstring s" and "length argv \<le> 10" and "10 \<le> length argv + count_list s 32"
  shows "\<exists>m start as. argcv_loop (pre @ s @ 0 # rest) (length pre) start0 argv = Some (m, start, as) \<and> length as = 10"
  using assms
proof (induction s arbitrary: pre argv start0)
  case Nil
  then show ?case by (subst argcv_loop.simps) (simp add: nth_append)
next
  case (Cons c s)
  show ?case
  proof (cases "length argv = 10")
    case True
    then show ?thesis by (subst argcv_loop.simps) (simp add: nth_append NR_SHELL_CMD_PARAS_MAX_NUM_def)
  next
    case False
    then show ?thesis
      using Cons.IH [of "if c = 32 then argv @ [start0] else argv" "pre @ [blank c]" "if c = 32 then Suc (length pre) else start0"]
        Cons.prems
      by (subst argcv_loop.simps)
         (auto simp: nth_append list_update_append NR_SHELL_CMD_PARAS_MAX_NUM_def is_cstring_def)
  qed
qed

lemma nr_shell_argcv_words:
  assumes "is_cstring s" and "count_list s 32 < 10"
  shows "\<exists>m argv. nr_shell_argcv (s @ 0 # rest) = Some (m, argv) \<and> length m = length (s @ 0 # rest) \<and> strings_at m argv = Some (words s)"
  using argcv_loop_words [of "[]" s "[]" "[]" rest] assms
  by (auto simp: nr_shell_argcv_def NR_SHELL_CMD_PARAS_MAX_NUM_def)

lemma nr_shell_argcv_many:
  assumes "is_cstring s" and "10 \<le> count_list s 32"
  shows "nr_shell_argcv (s @ 0 # rest) = None"
  using argcv_loop_many [of s "[]" "[]" rest 0] assms
  by (auto simp: nr_shell_argcv_def NR_SHELL_CMD_PARAS_MAX_NUM_def)

subsection \<open>A line that is entered\<close>

lemma queue_follows_index [simp]: "queue_follows I n (q\<lparr>his_index := i\<rparr>) hs \<longleftrightarrow> queue_follows I n q hs"
  by (simp add: queue_follows_def queue_holds_def)

text \<open>The number of the command that the keys up and down show next does not change when a command is added.\<close>

lemma make_space_index: "make_space I fuel n q = Some q' \<Longrightarrow> his_index q' = his_index q"
proof (induction fuel arbitrary: q)
  case (Suc fuel)
  then show ?case by (fastforce simp: drop_oldest_def Let_def bind_eq_Some_conv split: if_splits)
qed simp

lemma store_chars_index: "store_chars cs q = Some q' \<Longrightarrow> his_index q' = his_index q"
  by (induction cs arbitrary: q) (fastforce simp: bind_eq_Some_conv)+

lemma remember_line_index:
  assumes "remember_line I fuel s q = Some q'"
  shows "his_index q' = his_index q"
  using assms
  by (auto simp: remember_line_def shell_his_queue_add_cmd_def Let_def bind_eq_Some_conv split: if_splits
      dest!: make_space_index store_chars_index)

lemma newline_char:
  assumes "line_holds st l r"
  shows "shell I fuel cmds 10 st = do { st \<leftarrow> shell_parser I fuel cmds (nr_ansi_in_newline st); ansi_clear_current_line st }"
  using assms by (simp add: shell_def get_char_simps line_holds_def nr_ansi_in_special_symbol_fun_def)

lemma remembered:
  assumes "queue_follows (increment_impl b) n q hs" and "length s \<le> 98"
    and "s \<notin> set hs \<Longrightarrow> char_room (increment_impl b) (n + length s)"
  shows "\<exists>q'. remember_line (increment_impl b) 4 s q = Some q' \<and> his_index q' = his_index q \<and>
    (if s = [] \<or> s \<in> set hs then queue_follows (increment_impl b) n q' hs
     else queue_follows (increment_impl b) (n + length s) q' (remember s hs))"
  using nrq.entered_line [OF assms(1) _ assms(3)] assms(2) remember_line_index [of "increment_impl b" 4 s q]
  by (auto simp: remember_line_def)

lemma search_cmd_eq_set: "shell_search_cmd cmds s = (if s \<in> set cmds then Some s else None)"
  by (induction cmds) (auto simp: shell_search_cmd_def)

lemma line_entered:
  assumes "line_holds st l r" and "is_cstring (l @ r)" and "queue_follows (increment_impl b) n (cmd_his st) hs"
    and "count_list (l @ r) 32 < 10" and "l @ r \<notin> set hs \<Longrightarrow> char_room (increment_impl b) (n + length (l @ r))"
  shows "\<exists>st'. shell (increment_impl b) 4 cmds 10 st = Some st' \<and> line_holds st' [] [] \<and>
    (if l @ r = [] \<or> l @ r \<in> set hs then queue_follows (increment_impl b) n (cmd_his st') hs
     else queue_follows (increment_impl b) (n + length (l @ r)) (cmd_his st') (remember (l @ r) hs)) \<and>
    his_index (cmd_his st') = length hs \<and>
    called st' = called st @ (if hd (words (l @ r)) \<in> set cmds then [words (l @ r)] else [])"
proof -
  let ?s = "l @ r" and ?st = "nr_ansi_in_newline st" and ?I = "increment_impl b"
  obtain rest where rest: "current_line st = l @ r @ 0 # rest" "length (l @ r @ 0 # rest) = 100" using assms(1) by (auto simp: line_holds_def)
  have line: "current_line ?st = ?s @ 0 # rest" using rest(1) by (simp add: nr_ansi_in_newline_def shell_printf_def)
  have str: "cstring_at (?s @ 0 # rest) 0 = Some ?s"
    using cstring_at_split [of ?s 0 "[]" rest] assms(2) by simp
  have len: "length ?s \<le> 98" using assms(1) by (simp add: line_holds_def)
  have "queue_follows ?I n (cmd_his ?st) hs" "his_index (cmd_his ?st) = length hs"
    using assms(3) by (auto simp: nr_ansi_in_newline_def shell_printf_def queue_follows_def queue_holds_def)
  then obtain q where q: "remember_line ?I 4 ?s (cmd_his ?st) = Some q"
      "if ?s = [] \<or> ?s \<in> set hs then queue_follows ?I n q hs else queue_follows ?I (n + length ?s) q (remember ?s hs)"
      "his_index q = length hs"
    using remembered [OF _ len assms(5), of "cmd_his ?st"] by auto
  obtain m argv where m: "nr_shell_argcv (?s @ 0 # rest) = Some (m, argv)" "length m = 100" "strings_at m argv = Some (words ?s)"
    using nr_shell_argcv_words [OF assms(2,4), of rest] rest(2) by auto
  have "\<exists>st2. shell_parser ?I 4 cmds ?st = Some st2 \<and> current_line st2 = m \<and> cmd_his st2 = q \<and>
      called st2 = called st @ (if hd (words ?s) \<in> set cmds then [words ?s] else []) \<and>
      combine_state st2 = combine_state st \<and> cmd_num st2 = cmd_num st \<and> combine_buf st2 = combine_buf st"
    unfolding shell_parser_def line str bind.bind_lunit q(1) Let_def
    using len m by (simp add: line search_cmd_eq_set nr_sizes) (simp add: nr_ansi_in_newline_def shell_printf_def)
  moreover obtain c m' where "m = c # m'" using m(2) by (cases m) auto
  ultimately show ?thesis
    unfolding newline_char [OF assms(1)]
    using m(2) q(2,3) assms(1) by (auto simp: ansi_clear_current_line_def line_holds_def)
qed

text \<open>A line with more words than \<^verbatim>\<open>argv\<close> has room for.\<close>

lemma enter_many_words:
  assumes "line_holds st l r" and "is_cstring (l @ r)" and "10 \<le> count_list (l @ r) 32"
  shows "shell I fuel cmds 10 st = None"
proof -
  let ?s = "l @ r" and ?st = "nr_ansi_in_newline st"
  obtain rest where rest: "current_line st = l @ r @ 0 # rest" using assms(1) by (auto simp: line_holds_def)
  have line: "current_line ?st = ?s @ 0 # rest" using rest by (simp add: nr_ansi_in_newline_def shell_printf_def)
  have str: "cstring_at (?s @ 0 # rest) 0 = Some ?s"
    using cstring_at_split [of ?s 0 "[]" rest] assms(2) by simp
  have len: "length ?s \<le> 98" using assms(1) by (simp add: line_holds_def)
  show ?thesis
    unfolding newline_char [OF assms(1)] shell_parser_def line str bind.bind_lunit Let_def
    using len nr_shell_argcv_many [OF assms(2,3), of rest]
    by (cases "remember_line I fuel ?s (cmd_his ?st)") (simp_all add: line nr_sizes)
qed

end
