(* ===== verification/Nr_Session.thy ===== *)
theory Nr_Session
  imports Nr_Editor
begin

section \<open>nr_micro_shell: sessions\<close>

text \<open>
  What a user sees of the shell, as an abstract session (the commands that can be recalled, the text around the
  cursor, the calls), and the proof that the C functions, fed with the bytes of the keys, implement it, for both signs of
  \<^verbatim>\<open>char\<close> and a compiler that reads \<^verbatim>\<open>rp = rp++\<close> as an increment.  Beside it stands what the code does where the session
  has no next state (a character typed in front of a line, Delete at the end of a line, a line with too many words), and
  what it does with a compiler that reads \<^verbatim>\<open>rp = rp++\<close> as no change.
\<close>

subsection \<open>Sessions\<close>

text \<open>What the user of the shell sees: the commands that can be shown again, the number of the one that is shown next,
  the text left and right of the cursor, and the commands that were called; \<open>stored\<close> counts the characters that ever
  went into the history.\<close>

record session =
  past :: "cstring list"
  shown :: nat
  line_text :: "cstring \<times> cstring"
  calls :: "cstring list list"
  stored :: nat

datatype event = Edit key | Up | Down | Tab | Return | Enter

fun event_bytes :: "event \<Rightarrow> cstring" where
  "event_bytes (Edit k) = key_bytes k"
| "event_bytes Up = [27, 91, 65]"
| "event_bytes Down = [27, 91, 66]"
| "event_bytes Tab = [9]"
| "event_bytes Return = [13]"
| "event_bytes Enter = [10]"

definition whole :: "session \<Rightarrow> cstring" where
  "whole a = fst (line_text a) @ snd (line_text a)"

text \<open>The text with the command that is shown: with a number beyond the list the text stays.\<close>

definition recalled :: "session \<Rightarrow> cstring \<times> cstring" where
  "recalled a = (if shown a \<le> length (past a) then past a ! (shown a - 1) else whole a, [])"

fun happens :: "cstring list \<Rightarrow> event \<Rightarrow> session \<Rightarrow> session option" where
  "happens cmds (Edit k) a = map_option (\<lambda>t. a\<lparr>line_text := t\<rparr>) (edit k (line_text a))"
| "happens cmds Up a = Some (if shown a = 0 then a
     else a\<lparr>line_text := recalled a, shown := (if shown a = 1 then length (past a) else shown a - 1)\<rparr>)"
| "happens cmds Down a = Some (if shown a = 0 then a
     else a\<lparr>line_text := recalled a, shown := (if shown a + 1 > length (past a) then 1 else shown a + 1)\<rparr>)"
| "happens cmds Tab a = Some (case shell_cmd_complete cmds (whole a) of None \<Rightarrow> a
     | Some cmd \<Rightarrow> if whole a = [] then a else a\<lparr>line_text := (cmd, [])\<rparr>)"
| "happens cmds Return a = Some a"
| "happens cmds Enter a = (if count_list (whole a) 32 \<ge> 10 then None
     else Some \<lparr>past = (if whole a = [] \<or> whole a \<in> set (past a) then past a else remember (whole a) (past a)),
       shown = length (past a), line_text = ([], []),
       calls = calls a @ (if hd (words (whole a)) \<in> set cmds then [words (whole a)] else []),
       stored = (if whole a \<in> set (past a) then stored a else stored a + length (whole a))\<rparr>)"

fun happen :: "cstring list \<Rightarrow> event list \<Rightarrow> session \<Rightarrow> session option" where
  "happen cmds [] a = Some a"
| "happen cmds (e # es) a = do { a \<leftarrow> happens cmds e a; happen cmds es a }"

definition line_string :: "cstring \<Rightarrow> bool" where
  "line_string s \<longleftrightarrow> is_cstring s \<and> length s \<le> 98"

definition session_holds :: "bool \<Rightarrow> nr_state \<Rightarrow> session \<Rightarrow> bool" where
  "session_holds b st a \<longleftrightarrow> line_holds st (fst (line_text a)) (snd (line_text a)) \<and>
     queue_follows (increment_impl b) (stored a) (cmd_his st) (past a) \<and>
     his_index (cmd_his st) = shown a \<and> called st = calls a \<and>
     is_cstring (whole a) \<and> (\<forall>h \<in> set (past a). line_string h) \<and> shown a \<le> 3"

lemma remember_subset: "set (remember s hs) \<subseteq> insert s (set hs)"
proof -
  have "set (with_space n hs) \<subseteq> set hs" for n by (induction hs) auto
  then show ?thesis by (auto simp: remember_def)
qed

text \<open>The key up or down: the command with the current number is copied into the line.\<close>

lemma strlen_prefix: "is_cstring s \<Longrightarrow> strlen (s @ 0 # rest) 0 = Some (length s)"
  using strlen_split [of s 0 "[]" rest] by simp

lemma cstring_prefix: "is_cstring s \<Longrightarrow> cstring_at (s @ 0 # rest) 0 = Some s"
  using cstring_at_split [of s 0 "[]" rest] by simp

lemma item_beyond: "his_len q < i \<Longrightarrow> shell_his_copy_queue_item I q i m = Some m"
  by (simp add: shell_his_copy_queue_item_def)

lemma line_shown:
  assumes "is_cstring s" and "length s \<le> 98" and "length (s @ 0 # rest) = 100" and "length (combine_buf st) = 20"
  shows "line_holds (st\<lparr>current_line := s @ 0 # rest, counter := length s, ansi_p := short (int (length s) - 1), shell_out := out,
    cmd_his := q, cmd_num := 0, combine_state := ANSI_NO_CTRL_CHAR\<rparr>) s []"
  using assms by (simp add: line_holds_def)

lemma show_command_recalled:
  assumes "session_holds b st a" and "0 < shown a"
    and st1: "current_line st1 = current_line st" "cmd_his st1 = cmd_his st"
  shows "\<exists>rest out. show_command (increment_impl b) st1 = Some (st1\<lparr>current_line := fst (recalled a) @ 0 # rest, counter := length (fst (recalled a)),
      ansi_p := short (int (length (fst (recalled a))) - 1), shell_out := out\<rparr>) \<and>
    length (fst (recalled a) @ 0 # rest) = 100 \<and> line_string (fst (recalled a))"
proof -
  have q: "queue_follows (increment_impl b) (stored a) (cmd_his st) (past a)" "his_index (cmd_his st) = shown a" "is_cstring (whole a)"
      "line_holds st (fst (line_text a)) (snd (line_text a))"
    using assms(1) by (auto simp: session_holds_def)
  have len: "his_len (cmd_his st) = length (past a)" using q(1) by (simp add: queue_follows_def queue_holds_def)
  obtain rest where rest: "current_line st = whole a @ 0 # rest" "length (current_line st) = 100" "length (whole a) \<le> 98"
    using q(4) by (auto simp: line_holds_def whole_def)
  have "\<exists>rest. shell_his_copy_queue_item (increment_impl b) (cmd_his st) (shown a) (current_line st) = Some (fst (recalled a) @ 0 # rest) \<and>
      length (fst (recalled a) @ 0 # rest) = 100 \<and> line_string (fst (recalled a))"
  proof (cases "shown a \<le> length (past a)")
    case True
    then have h: "line_string (past a ! (shown a - 1))" using assms by (auto simp: session_holds_def)
    then show ?thesis
      using nrq.item_law [OF q(1), of "shown a - 1" "current_line st"] True assms(2) rest
      by (auto simp: recalled_def line_string_def)
  next
    case False
    then show ?thesis using rest q(3) len by (auto simp: recalled_def item_beyond line_string_def)
  qed
  then obtain rest' where item: "shell_his_copy_queue_item (increment_impl b) (cmd_his st) (shown a) (current_line st) = Some (fst (recalled a) @ 0 # rest')"
      "length (fst (recalled a) @ 0 # rest') = 100" "line_string (fst (recalled a))" by blast
  then have "strlen (fst (recalled a) @ 0 # rest') 0 = Some (length (fst (recalled a)))" by (simp add: strlen_prefix line_string_def)
  then have "show_command (increment_impl b) st1 = Some (st1\<lparr>current_line := fst (recalled a) @ 0 # rest', counter := length (fst (recalled a)),
      ansi_p := short (int (length (fst (recalled a))) - 1),
      shell_out := (shell_out st1 @ esc ''['' @ decimal_int (ansi_p st1 + 1) @ ascii ''D'' @ esc ''[K'') @ fst (recalled a)\<rparr>)"
    using item st1 q(2) by (simp add: show_command_def shell_printf_def ansi_show_str_def)
  then show ?thesis using item by blast
qed

text \<open>A control sequence of three characters ends with a call of its function.\<close>

definition in_sequence :: "byte \<Rightarrow> nr_state \<Rightarrow> nr_state" where
  "in_sequence c st = st\<lparr>combine_state := ANSI_WAIT_CTRL_CHAR_END, cmd_num := Suc (Suc 0),
     combine_buf := (combine_buf st)[0 := 27, Suc 0 := 91, Suc (Suc 0) := c]\<rparr>"

lemma control_key:
  assumes "line_holds st l r" and "c \<in> {65, 66}"
  shows "shell_input I fuel cmds [27, 91, c] st = do {
    st \<leftarrow> (if c = 65 then nr_ansi_in_up I (in_sequence c st) else nr_ansi_in_down I (in_sequence c st));
    Some (st\<lparr>cmd_num := 0, combine_state := ANSI_NO_CTRL_CHAR\<rparr>) }"
proof -
  have "length (combine_buf st) = 20" using assms(1) by (simp add: line_holds_def)
  then show ?thesis
    unfolding start_sequence [OF assms(1)] shell_input_one sequence_started_def in_sequence_def
    using assms(2) by (auto simp: shell_char get_char_simps nr_ansi_in_cmd_fun_def)
qed

lemma recall_step:
  assumes "session_holds b st a" and "0 < shown a" and "k \<le> 3"
    and c: "c \<in> {65, 66}" "k = (if c = 65 then if shown a = 1 then length (past a) else shown a - 1
      else if shown a + 1 > length (past a) then 1 else shown a + 1)"
  shows "\<exists>st'. shell_input (increment_impl b) fuel cmds [27, 91, c] st = Some st' \<and> session_holds b st' (a\<lparr>line_text := recalled a, shown := k\<rparr>)"
proof -
  let ?st = "in_sequence c st" and ?s = "fst (recalled a)"
  have lh: "line_holds st (fst (line_text a)) (snd (line_text a))" using assms(1) by (simp add: session_holds_def)
  have st: "his_index (cmd_his st) = shown a" "his_len (cmd_his st) = length (past a)" "shown a \<le> 3" "length (combine_buf st) = 20"
    using assms(1) by (auto simp: session_holds_def queue_follows_def queue_holds_def line_holds_def)
  obtain rest out where shown_eq: "show_command (increment_impl b) ?st = Some (?st\<lparr>current_line := ?s @ 0 # rest, counter := length ?s,
      ansi_p := short (int (length ?s) - 1), shell_out := out\<rparr>)" "length (?s @ 0 # rest) = 100" "line_string ?s"
    using show_command_recalled [OF assms(1,2), of ?st] by (auto simp: in_sequence_def)
  let ?st' = "?st\<lparr>current_line := ?s @ 0 # rest, counter := length ?s, ansi_p := short (int (length ?s) - 1), shell_out := out,
    cmd_his := (cmd_his st)\<lparr>his_index := k\<rparr>, cmd_num := 0, combine_state := ANSI_NO_CTRL_CHAR\<rparr>"
  have "shell_input (increment_impl b) fuel cmds [27, 91, c] st = Some ?st'"
    unfolding control_key [OF lh c(1)] nr_ansi_in_up_def nr_ansi_in_down_def shown_eq(1)
    using st assms(2) c by (auto simp: in_sequence_def Let_def)
  moreover have "line_holds ?st' ?s []"
    using line_shown [of ?s rest ?st] shown_eq(2,3) st(4) by (simp add: line_string_def in_sequence_def)
  then have "session_holds b ?st' (a\<lparr>line_text := recalled a, shown := k\<rparr>)"
    using assms(1,3) shown_eq(3)
    by (simp add: session_holds_def whole_def line_string_def in_sequence_def recalled_def split del: if_split)
  ultimately show ?thesis by blast
qed

text \<open>The tabulator: the best command that has the line in it.\<close>

lemma complete_loop_set: "complete_loop cmds s best n = Some c \<Longrightarrow> c \<in> set cmds \<or> best = Some c"
  by (induction cmds arbitrary: best n) (fastforce split: option.splits if_splits)+

lemma prints_all:
  "fold (\<lambda>c. shell_printf (c @ [13, 10])) cs st = st\<lparr>shell_out := shell_out st @ concat (map (\<lambda>c. c @ [13, 10]) cs)\<rparr>"
  by (induction cs arbitrary: st) (simp_all add: shell_printf_def)

lemma tab_step:
  assumes "session_holds b st a" and "\<forall>c \<in> set cmds. line_string c" and "happens cmds Tab a = Some a'"
  shows "\<exists>st'. shell_input (increment_impl b) fuel cmds [9] st = Some st' \<and> session_holds b st' a'"
proof -
  have lh: "line_holds st (fst (line_text a)) (snd (line_text a))" "is_cstring (whole a)" using assms(1) by (auto simp: session_holds_def)
  obtain rest where rest: "current_line st = whole a @ 0 # rest" "length (current_line st) = 100" "counter st = length (whole a)"
    using lh(1) by (auto simp: line_holds_def whole_def)
  have str: "cstring_at (current_line st) 0 = Some (whole a)" using rest(1) lh(2) by (simp add: cstring_prefix)
  have tab: "shell_input (increment_impl b) fuel cmds [9] st = nr_ansi_in_tab cmds st"
    unfolding shell_input_one using lh(1) by (simp add: shell_char get_char_simps line_holds_def nr_ansi_in_special_symbol_fun_def)
  have same: "session_holds b (st\<lparr>shell_out := out\<rparr>) a" for out
    using assms(1) by (simp add: session_holds_def line_holds_def)
  show ?thesis
  proof (cases "shell_cmd_complete cmds (whole a)")
    case None
    then show ?thesis
      using assms(1,3) unfolding tab nr_ansi_in_tab_def str by simp
  next
    case (Some cmd)
    then have cmd: "is_cstring cmd" "length cmd \<le> 98"
      using complete_loop_set [of cmds "whole a" None 255 cmd] assms(2) by (auto simp: shell_cmd_complete_def line_string_def)
    show ?thesis
    proof (cases "whole a = []")
      case True
      then show ?thesis
        using Some same assms(3) rest(3) unfolding tab nr_ansi_in_tab_def str by (simp add: prints_all shell_printf_def)
    next
      case False
      let ?m = "cmd @ 0 # drop (Suc (length cmd)) (current_line st)"
      have m: "strcpy (current_line st) 0 cmd = Some ?m" "length ?m = 100" using cmd(2) rest(2) by (simp_all add: strcpy_def blit_def)
      have "nr_ansi_in_tab cmds st = ansi_show_str (length cmd) ((shell_printf (esc ''[K'') (shell_printf (esc ''['' @ decimal_int (ansi_p st + 1) @ ascii ''D'') st))
          \<lparr>current_line := ?m, counter := length cmd, ansi_p := short (int (length cmd) - 1)\<rparr>)"
        using Some False m(1) rest(3) unfolding nr_ansi_in_tab_def str by (simp add: Let_def shell_printf_def)
      then show ?thesis
        unfolding tab using assms(1,3) Some False cmd m(2)
        by (auto simp: ansi_show_str_def shell_printf_def session_holds_def line_holds_def whole_def)
    qed
  qed
qed

lemma edit_step:
  assumes "session_holds b st a" and "edit k (line_text a) = Some t"
  shows "\<exists>st'. shell_input (increment_impl b) fuel cmds (key_bytes k) st = Some st' \<and> session_holds b st' (a\<lparr>line_text := t\<rparr>)"
proof -
  have a: "line_holds st (fst (line_text a)) (snd (line_text a))" "is_cstring (whole a)" "edit k (fst (line_text a), snd (line_text a)) = Some t"
    using assms by (auto simp: session_holds_def)
  then have "is_cstring (fst t @ snd t)" using edit_cstring [OF a(3)] by (simp add: whole_def)
  then show ?thesis
    using key_step [OF a(1,3), of "increment_impl b" fuel cmds] assms(1) by (auto simp: key_done_def session_holds_def whole_def)
qed

lemma enter_step:
  assumes "session_holds b st a" and "happens cmds Enter a = Some a'" and "b \<Longrightarrow> stored a' < 128"
  shows "\<exists>st'. shell_input (increment_impl b) 4 cmds [10] st = Some st' \<and> session_holds b st' a'"
proof -
  let ?l = "fst (line_text a)" and ?r = "snd (line_text a)"
  have a: "line_holds st ?l ?r" "is_cstring (?l @ ?r)" "queue_follows (increment_impl b) (stored a) (cmd_his st) (past a)"
      "count_list (?l @ ?r) 32 < 10"
    using assms(1,2) by (auto simp: session_holds_def whole_def split: if_splits)
  have "length (past a) \<le> 3" "length (whole a) \<le> 98"
    using a(1,3) by (auto simp: queue_follows_def queue_holds_def line_holds_def whole_def)
  then have strings: "line_string h" if "h \<in> set (past a')" for h
    using assms(1,2) that remember_subset [of "whole a" "past a"]
    by (auto simp: session_holds_def line_string_def split: if_splits)
  have "?l @ ?r \<notin> set (past a) \<Longrightarrow> char_room (increment_impl b) (stored a + length (?l @ ?r))"
    using assms(2,3) by (auto simp: char_room_def whole_def split: if_splits)
  then obtain st' where "shell (increment_impl b) 4 cmds 10 st = Some st'" "line_holds st' [] []"
      "if ?l @ ?r = [] \<or> ?l @ ?r \<in> set (past a) then queue_follows (increment_impl b) (stored a) (cmd_his st') (past a)
       else queue_follows (increment_impl b) (stored a + length (?l @ ?r)) (cmd_his st') (remember (?l @ ?r) (past a))"
      "his_index (cmd_his st') = length (past a)"
      "called st' = called st @ (if hd (words (?l @ ?r)) \<in> set cmds then [words (?l @ ?r)] else [])"
    using line_entered [OF a, of cmds] by blast
  then show ?thesis
    unfolding shell_input_one using assms(1,2) \<open>length (past a) \<le> 3\<close> strings
    by (auto simp: session_holds_def whole_def is_cstring_def split: if_splits)
qed

lemma return_step:
  assumes "session_holds b st a"
  shows "\<exists>st'. shell_input (increment_impl b) fuel cmds [13] st = Some st' \<and> session_holds b st' a"
  unfolding shell_input_one using assms
  by (auto simp: shell_char get_char_simps session_holds_def line_holds_def nr_ansi_in_special_symbol_fun_def
      nr_ansi_in_enter_def ansi_show_char_def shell_printf_def)

text \<open>A key that recalls a command does nothing while the number is 0, in a session with no command.\<close>

lemma recall_none:
  assumes "session_holds b st a" and "shown a = 0" and "c \<in> {65, 66}"
  shows "\<exists>st'. shell_input (increment_impl b) fuel cmds [27, 91, c] st = Some st' \<and> session_holds b st' a"
proof -
  have lh: "line_holds st (fst (line_text a)) (snd (line_text a))" using assms(1) by (simp add: session_holds_def)
  show ?thesis
    unfolding control_key [OF lh assms(3)]
    using assms by (auto simp: nr_ansi_in_up_def nr_ansi_in_down_def in_sequence_def session_holds_def line_holds_def)
qed

lemma event_step:
  assumes "session_holds b st a" and "\<forall>c \<in> set cmds. line_string c" and "happens cmds e a = Some a'"
    and "b \<Longrightarrow> stored a' < 128"
  shows "\<exists>st'. shell_input (increment_impl b) 4 cmds (event_bytes e) st = Some st' \<and> session_holds b st' a'"
proof -
  have le: "shown a \<le> 3" "length (past a) \<le> 3" using assms(1) by (auto simp: session_holds_def queue_follows_def queue_holds_def)
  show ?thesis
  proof (cases e)
    case (Edit k)
    then show ?thesis using edit_step [OF assms(1), of k] assms(3) by auto
  next
    case Up
    then show ?thesis
      using recall_step [OF assms(1), of _ 65] recall_none [OF assms(1), of 65] le assms(3) by (cases "shown a = 0") auto
  next
    case Down
    then show ?thesis
      using recall_step [OF assms(1), of _ 66] recall_none [OF assms(1), of 66] le assms(3) by (cases "shown a = 0") auto
  next
    case Tab
    then show ?thesis using tab_step [OF assms(1,2)] assms(3) by simp
  next
    case Return
    then show ?thesis using return_step [OF assms(1)] assms(3) by simp
  next
    case Enter
    then show ?thesis using enter_step [OF assms(1) _ assms(4)] assms(3) by simp
  qed
qed

lemma stored_grows: "happen cmds es a = Some a' \<Longrightarrow> stored a \<le> stored a'"
proof (induction es arbitrary: a)
  case (Cons e es)
  then obtain a2 where a2: "happens cmds e a = Some a2" "happen cmds es a2 = Some a'" by (auto simp: bind_eq_Some_conv)
  have "stored a \<le> stored a2" using a2(1) by (cases e) (auto split: if_splits option.splits)
  then show ?case using Cons.IH [OF a2(2)] by simp
qed simp

lemma events_step:
  assumes "session_holds b st a" and "\<forall>c \<in> set cmds. line_string c" and "happen cmds es a = Some a'"
    and "b \<Longrightarrow> stored a' < 128"
  shows "\<exists>st'. shell_input (increment_impl b) 4 cmds (concat (map event_bytes es)) st = Some st' \<and> session_holds b st' a'"
  using assms
proof (induction es arbitrary: st a)
  case (Cons e es)
  then obtain a2 where a2: "happens cmds e a = Some a2" "happen cmds es a2 = Some a'" by (auto simp: bind_eq_Some_conv)
  obtain st2 where "shell_input (increment_impl b) 4 cmds (event_bytes e) st = Some st2" "session_holds b st2 a2"
    using event_step [OF Cons.prems(1,2) a2(1)] Cons.prems(4) stored_grows [OF a2(2)] by fastforce
  then show ?case using Cons.IH [OF _ Cons.prems(2) a2(2) Cons.prems(4)] by (auto simp: shell_input_append)
qed simp

subsection \<open>The start of the shell\<close>

definition fresh_blocks :: "nr_state \<Rightarrow> bool" where
  "fresh_blocks st \<longleftrightarrow> length (current_line st) = 100 \<and> length (combine_buf st) = 20 \<and> length (his_queue (cmd_his st)) = 4 \<and>
     length (his_buf (cmd_his st)) = 254 \<and> called st = []"

definition first_session :: session where
  "first_session = \<lparr>past = [ascii ''ls cmd''], shown = 1, line_text = ([], []), calls = [], stored = 6\<rparr>"

lemma ls_length: "length (ascii s) = length s"
  by (simp add: ascii_def)

lemma ls_cmd: "line_string (ascii ''ls cmd'')" "ascii ''ls cmd'' \<noteq> []" "remember (ascii ''ls cmd'') [] = [ascii ''ls cmd'']"
  by (simp_all add: ascii_def line_string_def is_cstring_def remember_def)

lemma init_holds:
  assumes "fresh_blocks st"
  shows "\<exists>st'. shell_init (increment_impl b) 4 st = Some st' \<and> session_holds b st' first_session"
proof -
  obtain c m where m: "current_line st = c # m" "length m = 99" using assms by (cases "current_line st") (auto simp: fresh_blocks_def)
  have "queue_follows (increment_impl b) 0 (shell_his_queue_init (cmd_his st)) []"
    using assms by (simp add: fresh_blocks_def queue_follows_def char_room_def queue_holds_def shell_his_queue_init_def)
  then obtain q where "shell_his_queue_add_cmd (increment_impl b) 4 (ascii ''ls cmd'') (shell_his_queue_init (cmd_his st)) = Some q"
      "queue_follows (increment_impl b) 6 q [ascii ''ls cmd'']"
    using nrq.add_law [of b 0 _ "[]" "ascii ''ls cmd''"] ls_cmd ls_length [of "''ls cmd''"]
    by (auto simp: line_string_def char_room_def eval_nat_numeral)
  then show ?thesis
    using assms m ls_cmd(1)
    by (auto simp: shell_init_def ansi_init_def Let_def shell_printf_def session_holds_def first_session_def line_holds_def
        fresh_blocks_def whole_def is_cstring_def)
qed

subsection \<open>Single keys\<close>

text \<open>A state as the linker leaves it, with every block zero, for the witnesses.\<close>

definition zero_state :: nr_state where
  "zero_state = \<lparr>ansi_p = 0, counter = 0, current_line = replicate 100 0, combine_buf = replicate 20 0, cmd_num = 0,
     combine_state = ANSI_NO_CTRL_CHAR,
     cmd_his = \<lparr>his_fp = 0, his_rp = 0, his_len = 0, his_index = 0, store_front = 0, store_rear = 0, store_num = 0,
       his_queue = [0, 0, 0, 0], his_buf = replicate 254 0\<rparr>,
     shell_out = [], called = []\<rparr>"

lemma zero_state_fresh: "fresh_blocks zero_state"
  by (simp add: fresh_blocks_def zero_state_def)

lemma happen_append: "happen cmds (es @ es') a = do { a \<leftarrow> happen cmds es a; happen cmds es' a }"
  by (induction es arbitrary: a) (simp_all split: bind_split)

lemma with_space_all: "length (concat hs) + n \<le> 253 \<Longrightarrow> length hs < 3 \<Longrightarrow> with_space n hs = hs"
  by (cases hs) auto

lemma typed:
  assumes "\<forall>c \<in> set s. plain_char c" and "length s \<le> 98"
  shows "happen cmds (map (\<lambda>c. Edit (Char c)) s) first_session = Some (first_session\<lparr>line_text := (s, [])\<rparr>)"
  using assms
proof (induction s rule: rev_induct)
  case Nil
  then show ?case by (simp add: first_session_def)
qed (simp add: happen_append first_session_def)

lemma typed_state:
  assumes "\<forall>c \<in> set s. plain_char c" and "length s \<le> 98"
  shows "\<exists>st. session_holds b st (first_session\<lparr>line_text := (s, [])\<rparr>)"
proof -
  obtain st where "session_holds b st first_session" using init_holds [OF zero_state_fresh] by blast
  then show ?thesis using events_step [OF _ _ typed [OF assms], of b _ "[]"] by (auto simp: first_session_def)
qed

text \<open>With the cursor in front of a line that is not empty, a character that is typed replaces the first character of
  the line, and the counter is one more than the length of the line: -1 as an unsigned number is not less than the counter,
  and nothing is moved.\<close>

theorem nr_insert_front:
  assumes "line_holds st [] (x # r)" and "length r < 97" and "plain_char c" and "is_cstring (x # r)"
  shows "\<exists>st'. shell_input I fuel cmds [c] st = Some st' \<and> cstring_at (current_line st') 0 = Some (c # r) \<and>
    counter st' = length (c # r) + 1 \<and> ansi_p st' = 0"
proof -
  obtain rest where rest: "current_line st = x # r @ 0 # rest" "length (x # r @ 0 # rest) = 100" using assms(1) by (auto simp: line_holds_def)
  have st: "ansi_p st = - 1" "counter st = Suc (length r)" "combine_state st = ANSI_NO_CTRL_CHAR" using assms(1) by (simp_all add: line_holds_def)
  obtain y rest' where y: "rest = y # rest'" using rest(2) assms(2) by (cases rest) auto
  have n: "uint32 (int (Suc (length r)) + 1) = Suc (Suc (length r))" using assms(2) by (simp add: nat_add_distrib)
  have "nr_ansi_common_char_slover c st = Some (st\<lparr>ansi_p := 0, counter := Suc (Suc (length r)), current_line := c # r @ 0 # 0 # rest',
      shell_out := shell_out st @ esc ''[1@'' @ [c]\<rparr>)"
    unfolding nr_ansi_common_char_slover_def st(1,2) n Let_def
    using rest y assms(2) by (simp add: nr_sizes store_at_def list_update_append ansi_show_char_def shell_printf_def)
  moreover have "shell_input I fuel cmds [c] st = nr_ansi_common_char_slover c st"
    unfolding shell_input_one using assms(3) common_char [OF st(3) assms(3)] by (auto simp: shell_char plain_char_def)
  moreover have "is_cstring (c # r)" using assms(3,4) by (auto simp: is_cstring_def plain_char_def)
  ultimately show ?thesis using cstring_prefix [of "c # r" "0 # rest'"] by simp
qed

theorem nr_insert_front_witness:
  "\<exists>st st'. line_holds st [] [97, 98] \<and> shell_input (increment_impl True) 4 [] [99] st = Some st' \<and>
     cstring_at (current_line st') 0 = Some [99, 98] \<and> counter st' = 3 \<and> ansi_p st' = 0"
proof -
  let ?st = "zero_state\<lparr>ansi_p := - 1, counter := 2, current_line := 97 # 98 # 0 # replicate 97 0\<rparr>"
  have "line_holds ?st [] [97, 98]" by (simp add: line_holds_def zero_state_def)
  then show ?thesis
    using nr_insert_front [of ?st 97 "[98]" 99 "increment_impl True" 4 "[]"] by (auto simp: plain_char_def is_cstring_def)
qed

lemma delete_at_end:
  assumes "line_holds st l []"
  shows "shell_input I fuel cmds (27 # 91 # 51 # 126 # bs) st = shell_input I fuel cmds bs (st\<lparr>
    combine_buf := (combine_buf st)[0 := 27, 1 := 91, 2 := 51, 3 := 126], counter := uint32 (int (length l) - 1),
    shell_out := shell_out st @ esc ''[1P'', cmd_num := 0, combine_state := ANSI_NO_CTRL_CHAR\<rparr>)"
proof -
  have st: "ansi_p st = int (length l) - 1" "counter st = length l" "length l \<le> 98" "length (combine_buf st) = 20"
      "combine_state st = ANSI_NO_CTRL_CHAR" "cmd_num st = 0"
    using assms by (simp_all add: line_holds_def)
  let ?buf = "(combine_buf st)[0 := 27, Suc 0 := 91, Suc (Suc 0) := 51, Suc (Suc (Suc 0)) := 126]"
  have "?buf ! 2 = 51" using st(4) by (simp add: numeral_2_eq_2)
  moreover have "?buf = (combine_buf st)[0 := 27, 1 := 91, 2 := 51, 3 := 126]" by (simp add: numeral_eq_Suc)
  moreover have "shift_down (length l) (length l) m = Some m" for m by (simp add: shift_down.simps)
  ultimately show ?thesis
    unfolding start_sequence [OF assms]
    using st by (simp add: sequence_started_def shell_char get_char_simps nr_ansi_in_cmd_fun_def nr_ansi_in_delete_def shell_printf_def)
qed

text \<open>Delete with no character to delete still counts one down: the line stays and the counter is one less than its
  length; on an empty line the counter wraps around, and the character typed next is lost, with the cursor behind a line
  of 97 characters that is empty.\<close>

theorem nr_delete_at_end:
  assumes "line_holds st l []" and "plain_char c"
  shows "if l = [] then
      \<exists>st1 st2. shell_input I fuel cmds (key_bytes Delete) st = Some st1 \<and> counter st1 = 4294967295 \<and>
        shell_input I fuel cmds (key_bytes Delete @ [c]) st = Some st2 \<and> counter st2 = 97 \<and> ansi_p st2 = 96 \<and>
        cstring_at (current_line st2) 0 = Some []
    else \<exists>st1. shell_input I fuel cmds (key_bytes Delete) st = Some st1 \<and> current_line st1 = current_line st \<and>
        counter st1 = length l - 1 \<and> ansi_p st1 = ansi_p st"
proof (cases "l = []")
  case True
  obtain rest where rest: "current_line st = 0 # rest" "length rest = 99" using assms(1) True by (auto simp: line_holds_def)
  have p: "ansi_p st = - 1" using assms(1) True by (simp add: line_holds_def)
  let ?st = "st\<lparr>combine_buf := (combine_buf st)[0 := 27, 1 := 91, 2 := 51, 3 := 126], counter := 4294967295,
    shell_out := shell_out st @ esc ''[1P'', cmd_num := 0, combine_state := ANSI_NO_CTRL_CHAR\<rparr>"
  have "shell_input I fuel cmds (27 # 91 # 51 # 126 # bs) st = shell_input I fuel cmds bs ?st" for bs
    using delete_at_end [OF assms(1), of I fuel cmds bs] True by simp
  moreover have "shell_input I fuel cmds [c] ?st = nr_ansi_common_char_slover c ?st"
    unfolding shell_input_one using assms(2) common_char [of ?st c] by (auto simp: shell_char plain_char_def)
  moreover have "nr_ansi_common_char_slover c ?st = Some (?st\<lparr>counter := 97, ansi_p := 96, current_line := (0 # rest)[97 := 0]\<rparr>)"
    using rest p by (simp add: nr_ansi_common_char_slover_def nr_sizes Let_def)
  moreover have "cstring_at ((0 # rest)[97 := 0]) 0 = Some []"
    using cstring_prefix [of "[]" "rest[96 := 0]"] by (simp add: is_cstring_def)
  ultimately show ?thesis using True by simp
next
  case False
  then show ?thesis
    using delete_at_end [OF assms(1), of I fuel cmds "[]"] assms(1) by (simp add: line_holds_def nat_diff_distrib Suc_le_eq)
qed

theorem nr_delete_at_end_witness:
  "\<exists>st st1 st2. line_holds st [] [] \<and> shell_input (increment_impl True) 4 [] (key_bytes Delete) st = Some st1 \<and> counter st1 = 4294967295 \<and>
     shell_input (increment_impl True) 4 [] (key_bytes Delete @ [97]) st = Some st2 \<and> counter st2 = 97 \<and> ansi_p st2 = 96 \<and>
     cstring_at (current_line st2) 0 = Some []"
proof -
  let ?st = "zero_state\<lparr>ansi_p := - 1, current_line := 0 # replicate 99 0\<rparr>"
  have "line_holds ?st [] []" by (simp add: line_holds_def zero_state_def)
  then show ?thesis
    using nr_delete_at_end [of ?st "[]" 97 "increment_impl True" 4 "[]"] unfolding if_P [OF refl] by (fastforce simp: plain_char_def)
qed

lemma store_chars_plain:
  assumes "store_rear q + length cs \<le> 253" and "length (his_buf q) = 254"
  shows "\<exists>q'. store_chars cs q = Some q' \<and> store_rear q' = store_rear q + length cs \<and> length (his_buf q') = 254 \<and>
    his_queue q' = his_queue q \<and> his_len q' = his_len q \<and> his_fp q' = his_fp q \<and> his_rp q' = his_rp q"
  using assms
proof (induction cs arbitrary: q)
  case (Cons c cs)
  let ?q = "q\<lparr>his_buf := (his_buf q)[store_rear q := c], store_rear := Suc (store_rear q), store_num := ushort (int (store_num q) + 1)\<rparr>"
  have "store_chars (c # cs) q = store_chars cs ?q" using Cons.prems by (simp add: wrap_cell_def his_sizes)
  then show ?case using Cons.IH [of ?q] Cons.prems by auto
qed simp

text \<open>With a compiler that reads \<^verbatim>\<open>rp = rp++\<close> as no change, the command that the shell remembers at its start has its
  end in the slot of its start, and the first Up copies 248 characters into the line of 100: it writes past the line.\<close>

theorem nr_self_increment:
  assumes "fresh_blocks st" and "his_queue (cmd_his st) = [0, 0, 0, 0]" and "self_increment I 0 = 0"
  shows "\<exists>st1. shell_init I 4 st = Some st1 \<and> shell_input I 4 cmds (event_bytes Up) st1 = None"
proof -
  obtain c m where m: "current_line st = c # m" "length m = 99" using assms by (cases "current_line st") (auto simp: fresh_blocks_def)
  have buf: "length (his_buf (cmd_his st)) = 254" "length (combine_buf st) = 20" using assms(1) by (simp_all add: fresh_blocks_def)
  define q0 where "q0 = shell_his_queue_init (cmd_his st)"
  have q0: "his_queue q0 = [0, 0, 0, 0]" "his_rp q0 = 0" "his_fp q0 = 0" "his_len q0 = 0" "store_rear q0 = 0" "store_num q0 = 0"
      "length (his_buf q0) = 254" using buf assms(2) by (simp_all add: q0_def shell_his_queue_init_def)
  have space: "make_space I 4 6 q0 = Some q0"
    using make_space.simps(2) [of I 3 6 q0] q0 by (simp add: his_sizes)
  obtain q' where q': "store_chars (ascii ''ls cmd'') (q0\<lparr>his_queue := [0, 0, 0, 0], his_rp := 0, his_len := Suc 0\<rparr>) = Some q'"
      "store_rear q' = 6" "length (his_buf q') = 254" "his_queue q' = [0, 0, 0, 0]" "his_len q' = 1" "his_fp q' = 0" "his_rp q' = 0"
    using store_chars_plain [of "q0\<lparr>his_queue := [0, 0, 0, 0], his_rp := 0, his_len := Suc 0\<rparr>" "ascii ''ls cmd''"] q0
    by (auto simp: ls_length)
  have six: "ushort 6 = 6" "ushort 1 = 1" by (simp_all add: ushort_def)
  have add: "shell_his_queue_add_cmd I 4 (ascii ''ls cmd'') (shell_his_queue_init (cmd_his st)) = Some (q'\<lparr>his_queue := [6, 0, 0, 0]\<rparr>)"
    unfolding shell_his_queue_add_cmd_def q0_def [symmetric]
    using assms(3) q0 space q' by (simp add: his_sizes ls_length Let_def six wrap_slot_def)
  define q where "q = q'\<lparr>his_queue := [6, 0, 0, 0]\<rparr>"
  have q: "his_queue q = [6, 0, 0, 0]" "his_len q = 1" "his_fp q = 0" "length (his_buf q) = 254" using q' by (simp_all add: q_def)
  note add = add [folded q_def]
  let ?st = "st\<lparr>counter := 0, ansi_p := - 1, current_line := 0 # m, cmd_num := 0, combine_state := ANSI_NO_CTRL_CHAR,
    shell_out := shell_out st @ shell_banner @ NR_SHELL_USER_NAME, cmd_his := q\<lparr>his_index := 1\<rparr>\<rparr>"
  have init: "shell_init I 4 st = Some ?st" using m add by (simp add: shell_init_def ansi_init_def shell_printf_def)
  have lh: "line_holds ?st [] []" using m buf by (simp add: line_holds_def)
  have ints: "char_int I 6 = 6" "char_int I 0 = 0" "ushort 6 = 6" "ushort 0 = 0" "ushort 1 = 1" by (simp_all add: char_int_def ushort_def)
  have "shell_his_copy_queue_item I (q\<lparr>his_index := 1\<rparr>) 1 (0 # m) = None"
    using q m by (simp add: shell_his_copy_queue_item_def Let_def ints wrap_slot_def his_sizes memcpy_def blit_def)
  then have "nr_ansi_in_up I (in_sequence 65 ?st) = None"
    by (simp add: nr_ansi_in_up_def show_command_def in_sequence_def shell_printf_def Let_def)
  then have "shell_input I 4 cmds [27, 91, 65] ?st = None" using control_key [OF lh, of 65 I 4 cmds] by simp
  then show ?thesis using init by simp
qed

theorem nr_self_increment_witness:
  "\<exists>st1. shell_init \<lparr>char_signed = True, self_increment = (\<lambda>n. n)\<rparr> 4 zero_state = Some st1 \<and>
     shell_input \<lparr>char_signed = True, self_increment = (\<lambda>n. n)\<rparr> 4 [] (event_bytes Up) st1 = None"
  by (rule nr_self_increment) (simp_all add: zero_state_fresh, simp_all add: zero_state_def)

subsection \<open>A key that the session does not follow\<close>

text \<open>What the code does with the first key for which the session has no result: a character in front of a line replaces
  its first character and counts as one more, Delete at the end of a line counts one less and deletes nothing, and a line
  with ten spaces or more is written behind the ten entries of \<^verbatim>\<open>argv\<close>.\<close>

fun departs :: "event \<Rightarrow> session \<Rightarrow> nr_state \<Rightarrow> nr_state option \<Rightarrow> bool" where
  "departs (Edit (Char c)) a st res \<longleftrightarrow> (\<exists>st'. res = Some st' \<and> cstring_at (current_line st') 0 = Some (c # tl (whole a)) \<and>
     counter st' = length (whole a) + 1 \<and> ansi_p st' = 0)"
| "departs (Edit Delete) a st res \<longleftrightarrow> (\<exists>st'. res = Some st' \<and> current_line st' = current_line st \<and>
     counter st' = uint32 (int (length (whole a)) - 1) \<and> ansi_p st' = ansi_p st)"
| "departs Enter a st res \<longleftrightarrow> res = None"
| "departs e a st res \<longleftrightarrow> False"

definition typed_key :: "event \<Rightarrow> bool" where
  "typed_key e \<longleftrightarrow> (case e of Edit (Char c) \<Rightarrow> plain_char c | _ \<Rightarrow> True)"

lemma key_departs:
  assumes "session_holds b st a" and "happens cmds e a = None" and "typed_key e"
  shows "departs e a st (shell_input (increment_impl b) 4 cmds (event_bytes e) st)"
proof -
  obtain l r where lr: "line_text a = (l, r)" by (cases "line_text a")
  have st: "line_holds st l r" "is_cstring (l @ r)" "whole a = l @ r"
    using assms(1) lr by (auto simp: session_holds_def whole_def)
  consider (char) c where "e = Edit (Char c)" | (delete) "e = Edit Delete" "r = []" | (enter) "e = Enter" "10 \<le> count_list (l @ r) 32"
    using assms(2) lr st(3) by (cases e; cases "line_text a"; (cases "case e of Edit k \<Rightarrow> k")?) (auto split: if_splits list.splits option.splits)
  then show ?thesis
  proof cases
    case char
    then obtain x r' where r: "l = []" "r = x # r'" "length r' < 97" "plain_char c"
      using assms(2,3) lr by (cases r) (auto simp: typed_key_def split: if_splits)
    then show ?thesis using nr_insert_front [of st x r' c] st char by auto
  next
    case delete
    then show ?thesis using delete_at_end [of st l "increment_impl b" 4 cmds "[]"] st by auto
  next
    case enter
    then show ?thesis using enter_many_words [OF st(1,2)] by (simp add: shell_input_one)
  qed
qed

subsection \<open>The properties\<close>

text \<open>C5. From its start the shell implements sessions.  The compiler reads \<^verbatim>\<open>rp = rp++\<close> as an increment and takes
  \<^verbatim>\<open>char\<close> as unsigned, or as signed as long as fewer than 128 characters ever went into the history.  After the bytes of
  any sequence of keys that the session follows, the line buffer holds the text around the cursor, the ring holds the
  commands that can be recalled, and the commands were called with the words of the lines entered.  A key that the session
  does not follow from there is a character in front of a line, which replaces its first character, Delete at the end of a
  line, which only counts down, or the end of a line with ten spaces or more, which is written behind \<^verbatim>\<open>argv\<close>.  With a
  compiler that reads \<^verbatim>\<open>rp = rp++\<close> as no change, the first key Up after the start writes behind the line buffer.\<close>

theorem nr_session_refines:
  assumes "fresh_blocks st" and "\<forall>c \<in> set cmds. line_string c" and "happen cmds es first_session = Some a"
    and "b \<Longrightarrow> stored a < 128"
  shows "(\<exists>st1 st2. shell_init (increment_impl b) 4 st = Some st1 \<and>
      shell_input (increment_impl b) 4 cmds (concat (map event_bytes es)) st1 = Some st2 \<and> session_holds b st2 a \<and>
      (\<forall>e. typed_key e \<and> happens cmds e a = None \<longrightarrow>
        departs e a st2 (shell_input (increment_impl b) 4 cmds (event_bytes e) st2))) \<and>
    (\<forall>I. self_increment I 0 = 0 \<and> his_queue (cmd_his st) = [0, 0, 0, 0] \<longrightarrow>
      (\<exists>st1. shell_init I 4 st = Some st1 \<and> shell_input I 4 cmds (event_bytes Up) st1 = None))"
proof -
  obtain st1 where "shell_init (increment_impl b) 4 st = Some st1" "session_holds b st1 first_session"
    using init_holds [OF assms(1)] by blast
  then show ?thesis
    using events_step [OF _ assms(2-4)] key_departs nr_self_increment [OF assms(1)] by blast
qed

theorem nr_session_refines_witness:
  "\<exists>a st1 st2. happen [ascii ''ls''] [Edit (Char 108), Edit (Char 120), Edit Backspace, Edit (Char 115), Enter, Up] first_session = Some a \<and>
     shell_init (increment_impl True) 4 zero_state = Some st1 \<and>
     shell_input (increment_impl True) 4 [ascii ''ls''] [108, 120, 8, 115, 10, 27, 91, 65] st1 = Some st2 \<and>
     session_holds True st2 a \<and> calls a = [[ascii ''ls'']] \<and> line_text a = (ascii ''ls cmd'', []) \<and> stored a = 8"
proof -
  let ?es = "[Edit (Char 108), Edit (Char 120), Edit Backspace, Edit (Char 115), Enter, Up]"
  let ?a = "\<lparr>past = [ascii ''ls cmd'', ascii ''ls''], shown = 2, line_text = (ascii ''ls cmd'', []), calls = [[ascii ''ls'']], stored = 8\<rparr>"
  have run: "happen [ascii ''ls''] ?es first_session = Some ?a"
    by (simp add: first_session_def plain_char_def whole_def recalled_def ascii_def remember_def)
  have cmds: "\<forall>c \<in> set [ascii ''ls'']. line_string c" by (simp add: line_string_def is_cstring_def ascii_def)
  show ?thesis using nr_session_refines [OF zero_state_fresh cmds run, of True] run by auto
qed

text \<open>C33. A line with ten spaces or more writes behind the ten entries of argv.\<close>

theorem nr_argv_bounds:
  assumes "session_holds b st a" and "10 \<le> count_list (whole a) 32"
  shows "shell_input (increment_impl b) 4 cmds (event_bytes Enter) st = None"
  using enter_many_words [of st "fst (line_text a)" "snd (line_text a)"] assms
  by (simp add: session_holds_def whole_def shell_input_one)

theorem nr_argv_bounds_witness:
  "\<exists>st. session_holds True st (first_session\<lparr>line_text := (replicate 10 32, [])\<rparr>) \<and>
     shell_input (increment_impl True) 4 [] (event_bytes Enter) st = None"
proof -
  obtain st where st: "session_holds True st (first_session\<lparr>line_text := (replicate 10 32, [])\<rparr>)"
    using typed_state [of "replicate 10 32"] by (auto simp: plain_char_def)
  have "count_list (replicate n (32 :: byte)) 32 = n" for n by (induction n) simp_all
  then have "10 \<le> count_list (whole (first_session\<lparr>line_text := (replicate 10 32, [])\<rparr>)) 32"
    by (simp add: whole_def)
  then show ?thesis using nr_argv_bounds [OF st] st by blast
qed

text \<open>The number of the command that Up shows is set before a line that is entered is added to the history: while the
  history has room, Up right after a new line brings back the command before it.\<close>

theorem nr_stale_recall:
  assumes "session_holds b st a" and "past a \<noteq> []" and "length (past a) < 3" and "whole a \<noteq> []" and "whole a \<notin> set (past a)"
    and "length (concat (past a)) + length (whole a) \<le> 253" and "b \<Longrightarrow> stored a + length (whole a) < 128" and "count_list (whole a) 32 < 10" and "\<forall>c \<in> set cmds. line_string c"
  shows "\<exists>st'. shell_input (increment_impl b) 4 cmds (event_bytes Enter @ event_bytes Up) st = Some st' \<and> line_holds st' (last (past a)) []"
proof -
  obtain a' where a': "happen cmds [Enter, Up] a = Some a'" "line_text a' = (last (past a), [])" "stored a' = stored a + length (whole a)"
    using assms(2-6,8) with_space_all [OF assms(6,3)]
    by (auto simp: remember_def recalled_def nth_append last_conv_nth)
  then show ?thesis using events_step [OF assms(1,9) a'(1)] a'(3) assms(7) by (auto simp: session_holds_def)
qed

theorem nr_stale_recall_witness:
  "\<exists>st st'. session_holds True st (first_session\<lparr>line_text := (ascii ''ls'', [])\<rparr>) \<and>
     shell_input (increment_impl True) 4 [] (event_bytes Enter @ event_bytes Up) st = Some st' \<and> line_holds st' (ascii ''ls cmd'') []"
proof -
  obtain st where st: "session_holds True st (first_session\<lparr>line_text := (ascii ''ls'', [])\<rparr>)"
    using typed_state [of "ascii ''ls''"] by (auto simp: ascii_def plain_char_def)
  then show ?thesis
    using nr_stale_recall [OF st, of "[]"] by (auto simp: first_session_def whole_def ascii_def)
qed

end
