(* ===== verification/Kernel_List.thy ===== *)
theory Kernel_List
  imports Prelude
begin

section \<open>The kernel's intrusive lists\<close>

text \<open>
  Model of \<^verbatim>\<open>src/include/sdk/chino/intrusive_list.h\<close>.  A list is a ring of nodes closed by the node \<^verbatim>\<open>dummy_\<close> of the
  list object; the nodes are members of the elements, so an element is in at most one list per node.  Nodes are cells of
  a heap indexed by 64-bit pointers, the pointer 0 is \<^verbatim>\<open>nullptr\<close>, and a read or write through it, which C++ leaves
  undefined, is \<open>None\<close>.  The lemmas show that a ring holds a list of pointers and that every operation is the operation
  on lists that the scheduler, the directories and the device queues are modelled with.
\<close>

subsection \<open>Nodes and operations\<close>

type_synonym ptr = u64

record intrusive_list_node =
  prev_ptr :: ptr
  next_ptr :: ptr

type_synonym node_heap = "ptr \<Rightarrow> intrusive_list_node"

record intrusive_list =
  dummy_node :: ptr
  list_size :: u64

definition node_at :: "node_heap \<Rightarrow> ptr \<Rightarrow> intrusive_list_node option" where
  "node_at h p = (if p = 0 then None else Some (h p))"

definition set_prev :: "ptr \<Rightarrow> ptr \<Rightarrow> node_heap \<Rightarrow> node_heap option" where
  "set_prev p v h = (if p = 0 then None else Some (h(p := (h p)\<lparr>prev_ptr := v\<rparr>)))"

definition set_next :: "ptr \<Rightarrow> ptr \<Rightarrow> node_heap \<Rightarrow> node_heap option" where
  "set_next p v h = (if p = 0 then None else Some (h(p := (h p)\<lparr>next_ptr := v\<rparr>)))"

definition list_create :: "ptr \<Rightarrow> node_heap \<Rightarrow> intrusive_list \<times> node_heap" where
  "list_create d h = (\<lparr>dummy_node = d, list_size = 0\<rparr>, h(d := \<lparr>prev_ptr = d, next_ptr = d\<rparr>))"

definition in_list :: "node_heap \<Rightarrow> ptr \<Rightarrow> bool" where
  "in_list h p \<longleftrightarrow> prev_ptr (h p) \<noteq> 0"

definition list_prev :: "intrusive_list \<Rightarrow> node_heap \<Rightarrow> ptr \<Rightarrow> ptr option" where
  "list_prev s h pivot = do { n \<leftarrow> node_at h pivot; Some (if prev_ptr n \<noteq> dummy_node s then prev_ptr n else 0) }"

definition list_next :: "intrusive_list \<Rightarrow> node_heap \<Rightarrow> ptr \<Rightarrow> ptr option" where
  "list_next s h pivot = do { n \<leftarrow> node_at h pivot; Some (if next_ptr n \<noteq> dummy_node s then next_ptr n else 0) }"

definition list_empty :: "intrusive_list \<Rightarrow> bool" where
  "list_empty s \<longleftrightarrow> list_size s = 0"

definition list_front :: "intrusive_list \<Rightarrow> node_heap \<Rightarrow> ptr" where
  "list_front s h = (if next_ptr (h (dummy_node s)) \<noteq> dummy_node s then next_ptr (h (dummy_node s)) else 0)"

definition list_back :: "intrusive_list \<Rightarrow> node_heap \<Rightarrow> ptr" where
  "list_back s h = (if prev_ptr (h (dummy_node s)) \<noteq> dummy_node s then prev_ptr (h (dummy_node s)) else 0)"

definition insert_after :: "ptr \<Rightarrow> ptr \<Rightarrow> intrusive_list \<times> node_heap \<Rightarrow> (intrusive_list \<times> node_heap) option" where
  "insert_after pivot node sh = do {
     let (s, h) = sh;
     n \<leftarrow> node_at h pivot;
     h \<leftarrow> set_next node (next_ptr n) h;
     h \<leftarrow> set_prev node pivot h;
     n \<leftarrow> node_at h pivot;
     h \<leftarrow> set_prev (next_ptr n) node h;
     h \<leftarrow> set_next pivot node h;
     Some (s\<lparr>list_size := list_size s + 1\<rparr>, h) }"

definition insert_before :: "ptr \<Rightarrow> ptr \<Rightarrow> intrusive_list \<times> node_heap \<Rightarrow> (intrusive_list \<times> node_heap) option" where
  "insert_before pivot node sh = do {
     let (s, h) = sh;
     n \<leftarrow> node_at h pivot;
     h \<leftarrow> set_prev node (prev_ptr n) h;
     h \<leftarrow> set_next node pivot h;
     n \<leftarrow> node_at h pivot;
     h \<leftarrow> set_next (prev_ptr n) node h;
     h \<leftarrow> set_prev pivot node h;
     Some (s\<lparr>list_size := list_size s + 1\<rparr>, h) }"

definition push_front :: "ptr \<Rightarrow> intrusive_list \<times> node_heap \<Rightarrow> (intrusive_list \<times> node_heap) option" where
  "push_front node sh = insert_after (dummy_node (fst sh)) node sh"

definition push_back :: "ptr \<Rightarrow> intrusive_list \<times> node_heap \<Rightarrow> (intrusive_list \<times> node_heap) option" where
  "push_back node sh = insert_before (dummy_node (fst sh)) node sh"

definition list_remove :: "ptr \<Rightarrow> intrusive_list \<times> node_heap \<Rightarrow> (intrusive_list \<times> node_heap) option" where
  "list_remove node sh = do {
     let (s, h) = sh;
     n \<leftarrow> node_at h node;
     h \<leftarrow> set_prev (next_ptr n) (prev_ptr n) h;
     n \<leftarrow> node_at h node;
     h \<leftarrow> set_next (prev_ptr n) (next_ptr n) h;
     h \<leftarrow> set_next node 0 h;
     h \<leftarrow> set_prev node 0 h;
     Some (s\<lparr>list_size := list_size s - 1\<rparr>, h) }"

lemmas node_ops = node_at_def set_prev_def set_next_def

subsection \<open>The list a ring holds\<close>

fun linked :: "node_heap \<Rightarrow> ptr list \<Rightarrow> bool" where
  "linked h (p # q # ps) \<longleftrightarrow> next_ptr (h p) = q \<and> prev_ptr (h q) = p \<and> linked h (q # ps)"
| "linked h ps \<longleftrightarrow> True"

definition list_holds :: "intrusive_list \<times> node_heap \<Rightarrow> ptr list \<Rightarrow> bool" where
  "list_holds sh xs \<longleftrightarrow> distinct (dummy_node (fst sh) # xs) \<and> 0 \<notin> set (dummy_node (fst sh) # xs) \<and>
     linked (snd sh) (dummy_node (fst sh) # xs @ [dummy_node (fst sh)]) \<and> list_size (fst sh) = of_nat (length xs)"

lemma linked_append: "linked h (ps @ q # qs) \<longleftrightarrow> linked h (ps @ [q]) \<and> linked h (q # qs)"
proof (induction ps)
  case (Cons p ps)
  then show ?case by (cases ps) auto
qed simp

text \<open>A change that spares the forward links of all nodes but the last and the backward links of all but the first.\<close>

lemma linked_cong:
  assumes "\<And>p. p \<in> set (butlast ps) \<Longrightarrow> next_ptr (h' p) = next_ptr (h p)" and "\<And>p. p \<in> set (tl ps) \<Longrightarrow> prev_ptr (h' p) = prev_ptr (h p)"
  shows "linked h' ps = linked h ps"
  using assms
proof (induction ps rule: induct_list012)
  case (3 p q ps)
  then have "linked h' (q # ps) = linked h (q # ps)" by (metis butlast.simps(2) list.distinct(1) list.sel(3) list.set_intros(2))
  then show ?case using 3(3) [of p] 3(4) [of q] by simp
qed simp_all

text \<open>Two pieces of a ring that a change around them spares.\<close>

lemma relink:
  assumes "linked h (as @ [p])" and "linked h (q # bs)"
    and "\<And>x. x \<in> set as \<Longrightarrow> next_ptr (h' x) = next_ptr (h x)" and "\<And>x. x \<in> set (tl (as @ [p])) \<Longrightarrow> prev_ptr (h' x) = prev_ptr (h x)"
    and "\<And>x. x \<in> set (butlast (q # bs)) \<Longrightarrow> next_ptr (h' x) = next_ptr (h x)" and "\<And>x. x \<in> set bs \<Longrightarrow> prev_ptr (h' x) = prev_ptr (h x)"
  shows "linked h' (as @ [p]) \<and> linked h' (q # bs)"
  using assms linked_cong [of "as @ [p]" h' h] linked_cong [of "q # bs" h' h] by simp

text \<open>A ring is the list behind its dummy.  A node is inserted between a node and its successor, or taken out from between
  two others.\<close>

lemma list_holds_ring:
  "list_holds sh xs \<longleftrightarrow> distinct (dummy_node (fst sh) # xs) \<and> 0 \<notin> set (dummy_node (fst sh) # xs) \<and>
     linked (snd sh) ((dummy_node (fst sh) # xs) @ [dummy_node (fst sh)]) \<and> list_size (fst sh) = of_nat (length xs)"
  by (simp add: list_holds_def)

text \<open>The ring split at a node: the node behind it, the rest, and what they are not.\<close>

lemma ring_split:
  assumes "linked h ((as @ p # bs) @ [d])" and "distinct (as @ p # bs)" and "d = hd (as @ p # bs)"
  obtains q cs where "bs @ [d] = q # cs" "linked h (as @ [p])" "linked h (q # cs)" "next_ptr (h p) = q" "prev_ptr (h q) = p"
    "q \<notin> set cs" "q \<notin> set (tl (as @ [p]))" "p \<notin> set as" "butlast (q # cs) = bs" "q \<in> set bs \<or> q = d" "set cs \<subseteq> insert d (set bs)"
proof -
  obtain q cs where q: "bs @ [d] = q # cs" by (cases bs) auto
  have d: "d \<notin> set (tl (as @ [p]))" "p \<notin> set bs" "p \<notin> set as" "d \<notin> set bs" using assms(2,3) by (cases as; auto)+
  have b: "butlast (q # cs) = bs" using q by (metis butlast_snoc)
  have qs: "q \<in> set bs \<or> q = d" "set cs \<subseteq> insert d (set bs)" "q \<notin> set cs"
    using q assms(2) d(4) by (cases bs; auto)+
  have "q \<notin> set (tl (as @ [p]))" using qs(1) d assms(2) by (cases as) auto
  then show ?thesis
    using that [OF q] assms(1) linked_append [of h as p "q # cs"] q d b qs by simp
qed

lemma insert_ring:
  assumes "linked h ((as @ p # bs) @ [d])" and "distinct (as @ p # bs)" and "d = hd (as @ p # bs)" and "n \<notin> set (as @ p # bs)"
    and "\<And>x. next_ptr (h' x) = (if x = p then n else if x = n then next_ptr (h p) else next_ptr (h x))"
    and "\<And>x. prev_ptr (h' x) = (if x = next_ptr (h p) then n else if x = n then p else prev_ptr (h x))"
  shows "linked h' ((as @ p # n # bs) @ [d])"
proof -
  obtain q cs where q: "bs @ [d] = q # cs" "linked h (as @ [p])" "linked h (q # cs)" "next_ptr (h p) = q" "prev_ptr (h q) = p"
      "q \<notin> set cs" "q \<notin> set (tl (as @ [p]))" "p \<notin> set as" "butlast (q # cs) = bs" "q \<in> set bs \<or> q = d" "set cs \<subseteq> insert d (set bs)"
    by (rule ring_split [OF assms(1-3)])
  have d: "d \<in> set (as @ p # bs)" using assms(3) by (cases as) simp_all
  then have n: "n \<noteq> q" "n \<noteq> p" "n \<notin> set cs" "n \<notin> set as" "n \<notin> set (tl (as @ [p]))" "n \<notin> set bs" "p \<notin> set bs"
    using assms(2,4) q(10,11) by (auto simp: tl_append split: list.splits)
  have "linked h' (as @ [p]) \<and> linked h' (q # cs)"
    by (rule relink [OF q(2,3)]) (use assms(5,6) q n in \<open>auto simp del: butlast.simps\<close>)
  then show ?thesis using q(1,4) assms(5,6) n linked_append [of h' as p "n # q # cs"] by simp
qed

lemma remove_ring:
  assumes "linked h ((as @ p # n # bs) @ [d])" and "distinct (as @ p # n # bs)" and "d = hd (as @ p # n # bs)"
    and "\<And>x. next_ptr (h' x) = (if x = n then 0 else if x = p then next_ptr (h n) else next_ptr (h x))"
    and "\<And>x. prev_ptr (h' x) = (if x = n then 0 else if x = next_ptr (h n) then p else prev_ptr (h x))"
  shows "linked h' ((as @ p # bs) @ [d])"
proof -
  obtain q cs where q: "bs @ [d] = q # cs" "linked h ((as @ [p]) @ [n])" "linked h (q # cs)" "next_ptr (h n) = q" "prev_ptr (h q) = n"
      "q \<notin> set cs" "q \<notin> set (tl ((as @ [p]) @ [n]))" "n \<notin> set (as @ [p])" "butlast (q # cs) = bs" "q \<in> set bs \<or> q = d" "set cs \<subseteq> insert d (set bs)"
    by (rule ring_split [of h "as @ [p]" n bs d]) (use assms(1-3) in simp_all)
  have d: "d \<in> set (as @ [p])" "d \<notin> set bs" using assms(2,3) by (cases as; auto)+
  then have p: "n \<noteq> q" "p \<notin> set as" "p \<notin> set bs" "n \<notin> set bs" "n \<notin> set cs" "q \<notin> set (tl (as @ [p]))"
    using assms(2) q(7,8,10,11) by (auto simp: tl_append split: list.splits)
  have "linked h (as @ [p])" using q(2) linked_append [of h as p "[n]"] by simp
  then have "linked h' (as @ [p]) \<and> linked h' (q # cs)"
    by (rule relink [OF _ q(3)]) (use assms(4,5) q p in \<open>auto simp del: butlast.simps simp: tl_append split: list.splits\<close>)
  moreover have "next_ptr (h' p) = q" "prev_ptr (h' q) = p" using assms(4,5) q p by auto
  ultimately show ?thesis using q(1) linked_append [of h' as p "q # cs"] by simp
qed

subsection \<open>The operations on the list\<close>

lemma ring_head: "d # xs = as @ p # bs \<Longrightarrow> d = hd (as @ p # bs)"
  by (metis list.sel(1))

lemma length_ring: "d # xs = as @ p # bs \<Longrightarrow> d # xs' = as @ p # n # bs \<Longrightarrow> length xs' = Suc (length xs)"
  by (drule arg_cong [where f = length])+ simp

lemma set_ring: "d # xs = as @ p # bs \<Longrightarrow> insert d (set xs) = set (as @ p # bs)"
  by (metis list.simps(15))

lemma distinct_ring: "d # xs' = as @ p # n # bs \<Longrightarrow> d # xs = as @ p # bs \<Longrightarrow> distinct (d # xs') \<longleftrightarrow> distinct (d # xs) \<and> n \<notin> set (d # xs)"
  by auto

lemma node_filled [simp]:
  "(r :: intrusive_list_node)\<lparr>next_ptr := q, prev_ptr := p\<rparr> = \<lparr>prev_ptr = p, next_ptr = q\<rparr>"
  "(r :: intrusive_list_node)\<lparr>prev_ptr := p, next_ptr := q\<rparr> = \<lparr>prev_ptr = p, next_ptr = q\<rparr>"
  by (cases r; simp)+

lemma holds_inserted:
  assumes "list_holds (s, h) xs" and "n \<notin> set (dummy_node s # xs)" and "n \<noteq> 0"
    and r: "dummy_node s # xs = as @ p # bs" "dummy_node s # xs' = as @ p # n # bs"
    and "linked h' ((as @ p # n # bs) @ [dummy_node s])"
  shows "list_holds (s\<lparr>list_size := list_size s + 1\<rparr>, h') xs'"
proof -
  have "distinct (dummy_node s # xs')" using distinct_ring [OF r(2,1)] assms(1,2) by (simp add: list_holds_ring)
  moreover have "insert (dummy_node s) (set xs') = insert n (insert (dummy_node s) (set xs))"
    using set_ring [OF r(1)] set_ring [OF r(2)] by auto
  then have "0 \<notin> set (dummy_node s # xs')" using assms(1,3) by (auto simp: list_holds_ring)
  ultimately show ?thesis using assms(1,6) r length_ring [OF r] by (simp add: list_holds_ring)
qed

lemma insert_after_holds:
  assumes "list_holds (s, h) xs" and "n \<notin> set (dummy_node s # xs)" and "n \<noteq> 0"
    and r: "dummy_node s # xs = as @ p # bs" "dummy_node s # xs' = as @ p # n # bs"
  shows "\<exists>h'. insert_after p n (s, h) = Some (s\<lparr>list_size := list_size s + 1\<rparr>, h') \<and>
    list_holds (s\<lparr>list_size := list_size s + 1\<rparr>, h') xs' \<and> (\<forall>x. x \<notin> set (n # dummy_node s # xs) \<longrightarrow> h' x = h x)"
proof -
  have l: "linked h ((as @ p # bs) @ [dummy_node s])" "distinct (as @ p # bs)" "0 \<notin> set (as @ p # bs)" "n \<notin> set (as @ p # bs)"
    using assms(1,2) unfolding list_holds_ring by (simp_all flip: r(1))
  note d = ring_head [OF r(1)]
  have dm: "dummy_node s \<in> set (as @ p # bs)" using d by (metis append_is_Nil_conv hd_in_set list.distinct(1))
  obtain q where q: "next_ptr (h p) = q" "q \<in> set bs \<or> q = dummy_node s" by (rule ring_split [OF l(1,2) d])
  have ne: "p \<noteq> 0" "q \<noteq> 0" "n \<noteq> p" "n \<noteq> q" using l(3,4) q(2) dm by auto
  define h' where "h' = (h(n := \<lparr>prev_ptr = p, next_ptr = q\<rparr>))(q := ((h(n := \<lparr>prev_ptr = p, next_ptr = q\<rparr>)) q)\<lparr>prev_ptr := n\<rparr>)"
  let ?h = "h'(p := (h' p)\<lparr>next_ptr := n\<rparr>)"
  have "insert_after p n (s, h) = Some (s\<lparr>list_size := list_size s + 1\<rparr>, ?h)"
    using ne assms(3) q(1) by (simp add: insert_after_def node_ops h'_def)
  moreover have "linked ?h ((as @ p # n # bs) @ [dummy_node s])"
    by (rule insert_ring [OF l(1,2) d l(4)]) (use ne q(1) in \<open>auto simp: h'_def\<close>)
  then have "list_holds (s\<lparr>list_size := list_size s + 1\<rparr>, ?h) xs'" by (rule holds_inserted [OF assms])
  moreover have "?h x = h x" if "x \<notin> set (n # dummy_node s # xs)" for x
    using that q(2) set_ring [OF r(1)] by (auto simp: h'_def)
  ultimately show ?thesis by blast
qed

lemma insert_before_holds:
  assumes "list_holds (s, h) xs" and "n \<notin> set (dummy_node s # xs)" and "n \<noteq> 0"
    and r: "dummy_node s # xs = as @ p # bs" "dummy_node s # xs' = as @ p # n # bs" and "q = hd (bs @ [dummy_node s])"
  shows "\<exists>h'. insert_before q n (s, h) = Some (s\<lparr>list_size := list_size s + 1\<rparr>, h') \<and>
    list_holds (s\<lparr>list_size := list_size s + 1\<rparr>, h') xs' \<and> (\<forall>x. x \<notin> set (n # dummy_node s # xs) \<longrightarrow> h' x = h x)"
proof -
  have l: "linked h ((as @ p # bs) @ [dummy_node s])" "distinct (as @ p # bs)" "0 \<notin> set (as @ p # bs)" "n \<notin> set (as @ p # bs)"
    using assms(1,2) unfolding list_holds_ring by (simp_all flip: r(1))
  note d = ring_head [OF r(1)]
  have dm: "dummy_node s \<in> set (as @ p # bs)" using d by (metis append_is_Nil_conv hd_in_set list.distinct(1))
  obtain q' cs where q': "bs @ [dummy_node s] = q' # cs" "next_ptr (h p) = q'" "prev_ptr (h q') = p" "q' \<in> set bs \<or> q' = dummy_node s"
    by (rule ring_split [OF l(1,2) d])
  then have q: "next_ptr (h p) = q" "prev_ptr (h q) = p" "q \<in> set bs \<or> q = dummy_node s" using assms(6) by simp_all
  have ne: "p \<noteq> 0" "q \<noteq> 0" "n \<noteq> p" "n \<noteq> q" using l(3,4) q(3) dm by auto
  define h' where "h' = (h(n := \<lparr>prev_ptr = p, next_ptr = q\<rparr>))(p := ((h(n := \<lparr>prev_ptr = p, next_ptr = q\<rparr>)) p)\<lparr>next_ptr := n\<rparr>)"
  let ?h = "h'(q := (h' q)\<lparr>prev_ptr := n\<rparr>)"
  have "insert_before q n (s, h) = Some (s\<lparr>list_size := list_size s + 1\<rparr>, ?h)"
    using ne assms(3) q(2) by (simp add: insert_before_def node_ops h'_def)
  moreover have "linked ?h ((as @ p # n # bs) @ [dummy_node s])"
    by (rule insert_ring [OF l(1,2) d l(4)]) (use ne q(1) in \<open>auto simp: h'_def\<close>)
  then have "list_holds (s\<lparr>list_size := list_size s + 1\<rparr>, ?h) xs'" by (rule holds_inserted [OF assms(1-5)])
  moreover have "?h x = h x" if "x \<notin> set (n # dummy_node s # xs)" for x
    using that q(3) set_ring [OF r(1)] by (auto simp: h'_def)
  ultimately show ?thesis by blast
qed

lemma remove_holds:
  assumes "list_holds (s, h) xs" and r: "dummy_node s # xs = as @ p # n # bs" "dummy_node s # xs' = as @ p # bs"
  shows "\<exists>h'. list_remove n (s, h) = Some (s\<lparr>list_size := list_size s - 1\<rparr>, h') \<and>
    list_holds (s\<lparr>list_size := list_size s - 1\<rparr>, h') xs' \<and> h' n = \<lparr>prev_ptr = 0, next_ptr = 0\<rparr> \<and>
    (\<forall>x. x \<notin> set (dummy_node s # xs) \<longrightarrow> h' x = h x)"
proof -
  have l: "linked h ((as @ p # n # bs) @ [dummy_node s])" "distinct (as @ p # n # bs)" "0 \<notin> set (as @ p # n # bs)"
    using assms(1) unfolding list_holds_ring by (simp_all flip: r(1))
  note d = ring_head [OF r(1)]
  have dm: "dummy_node s \<in> set (as @ [p])" using d by (cases as) auto
  obtain q where q: "next_ptr (h n) = q" "q \<in> set bs \<or> q = dummy_node s"
    by (rule ring_split [of h "as @ [p]" n bs "dummy_node s"]) (use l d in simp_all)
  have p: "prev_ptr (h n) = p" using l(1) linked_append [of h as p "n # bs @ [dummy_node s]"] by simp
  have ne: "p \<noteq> 0" "q \<noteq> 0" "n \<noteq> 0" "n \<noteq> p" "n \<noteq> q" using l(2,3) q(2) dm by auto
  define h1 where "h1 = h(q := (h q)\<lparr>prev_ptr := p\<rparr>)"
  define h2 where "h2 = h1(p := (h1 p)\<lparr>next_ptr := q\<rparr>)"
  let ?h = "h2(n := \<lparr>prev_ptr = 0, next_ptr = 0\<rparr>)"
  have "list_remove n (s, h) = Some (s\<lparr>list_size := list_size s - 1\<rparr>, ?h)"
    using ne q(1) p by (simp add: list_remove_def node_ops h1_def h2_def)
  moreover have "linked ?h ((as @ p # bs) @ [dummy_node s])"
    by (rule remove_ring [OF l(1,2) d]) (use ne q(1) p in \<open>auto simp: h1_def h2_def\<close>)
  then have "list_holds (s\<lparr>list_size := list_size s - 1\<rparr>, ?h) xs'"
    using assms(1) r set_ring [OF r(1)] set_ring [OF r(2)] distinct_ring [OF r] length_ring [OF r(2,1)]
    unfolding list_holds_ring by auto
  moreover have "?h x = h x" if "x \<notin> set (dummy_node s # xs)" for x
    using that q(2) set_ring [OF r(1)] by (auto simp: h1_def h2_def)
  ultimately show ?thesis by auto
qed

lemma create_holds: "d \<noteq> 0 \<Longrightarrow> list_holds (list_create d h) []"
  by (simp add: list_create_def list_holds_def)

lemma front_holds: "list_holds (s, h) xs \<Longrightarrow> list_front s h = (if xs = [] then 0 else hd xs)"
  by (cases xs) (auto simp: list_holds_def list_front_def)

lemma back_holds: "list_holds (s, h) xs \<Longrightarrow> list_back s h = (if xs = [] then 0 else last xs)"
proof (cases xs rule: rev_cases)
  case (snoc ys y)
  moreover assume "list_holds (s, h) xs"
  ultimately have "prev_ptr (h (dummy_node s)) = y" "y \<noteq> dummy_node s"
    using linked_append [of h "dummy_node s # ys" y "[dummy_node s]"] by (auto simp: list_holds_def)
  then show ?thesis using snoc by (simp add: list_back_def)
qed (simp add: list_holds_def list_back_def)

lemma next_holds: "list_holds (s, h) (as @ x # bs) \<Longrightarrow> list_next s h x = Some (if bs = [] then 0 else hd bs)"
  using linked_append [of h "dummy_node s # as" x "bs @ [dummy_node s]"]
  by (cases bs) (auto simp: list_holds_def list_next_def node_at_def)

lemma prev_holds: "list_holds (s, h) (as @ x # bs) \<Longrightarrow> list_prev s h x = Some (if as = [] then 0 else last as)"
proof (cases as rule: rev_cases)
  case Nil
  moreover assume "list_holds (s, h) (as @ x # bs)"
  ultimately show ?thesis by (auto simp: list_holds_def list_prev_def node_at_def)
next
  case (snoc ys y)
  moreover assume "list_holds (s, h) (as @ x # bs)"
  ultimately show ?thesis
    using linked_append [of h "dummy_node s # ys" y "x # bs @ [dummy_node s]"]
    by (auto simp: list_holds_def list_prev_def node_at_def)
qed

lemma neighbours_holds:
  assumes "list_holds (s, h) xs" and "i < length xs"
  shows "list_next s h (xs ! i) = Some (if Suc i = length xs then 0 else xs ! Suc i)" (is ?next)
    and "list_prev s h (xs ! i) = Some (if i = 0 then 0 else xs ! (i - 1))" (is ?prev)
proof -
  have xs: "list_holds (s, h) (take i xs @ xs ! i # drop (Suc i) xs)" using assms by (simp flip: id_take_nth_drop)
  show ?next using next_holds [OF xs] assms(2) by (simp add: hd_drop_conv_nth)
  show ?prev using prev_holds [OF xs] assms(2) by (auto simp: last_conv_nth)
qed

text \<open>A list of different pointers is shorter than the range of the counter.\<close>

lemma holds_length: "list_holds (s, h) xs \<Longrightarrow> length xs < 2 ^ 64"
proof -
  assume "list_holds (s, h) xs"
  then have "distinct xs" "0 \<notin> set xs" by (auto simp: list_holds_def)
  then have "length xs = card (set xs)" "set xs \<subset> UNIV" by (auto simp: distinct_card)
  then show ?thesis using psubset_card_mono [of "UNIV :: ptr set" "set xs"] by (simp add: card_word)
qed

lemma empty_holds: "list_holds (s, h) xs \<Longrightarrow> list_empty s \<longleftrightarrow> xs = []"
proof -
  assume "list_holds (s, h) xs"
  then have "unat (list_size s) = length xs" using holds_length [of s h xs] by (simp add: list_holds_def unat_of_nat)
  then show ?thesis by (auto simp: list_empty_def unat_eq_zero)
qed

lemma push_front_holds:
  assumes "list_holds (s, h) xs" and "n \<notin> set (dummy_node s # xs)" and "n \<noteq> 0"
  shows "\<exists>h'. push_front n (s, h) = Some (s\<lparr>list_size := list_size s + 1\<rparr>, h') \<and>
    list_holds (s\<lparr>list_size := list_size s + 1\<rparr>, h') (n # xs) \<and> (\<forall>x. x \<notin> set (n # dummy_node s # xs) \<longrightarrow> h' x = h x)"
  using insert_after_holds [OF assms, of "[]" "dummy_node s" xs "n # xs"] by (simp add: push_front_def)

lemma push_back_holds:
  assumes "list_holds (s, h) xs" and "n \<notin> set (dummy_node s # xs)" and "n \<noteq> 0"
  shows "\<exists>h'. push_back n (s, h) = Some (s\<lparr>list_size := list_size s + 1\<rparr>, h') \<and>
    list_holds (s\<lparr>list_size := list_size s + 1\<rparr>, h') (xs @ [n]) \<and> (\<forall>x. x \<notin> set (n # dummy_node s # xs) \<longrightarrow> h' x = h x)"
proof -
  obtain as p where "dummy_node s # xs = as @ [p]" by (metis list.distinct(1) rev_exhaust)
  then show ?thesis
    using insert_before_holds [OF assms, of as p "[]" "xs @ [n]"] by (simp add: push_back_def flip: append_Cons)
qed

lemma insert_after_element:
  assumes "list_holds (s, h) (as @ p # bs)" and "n \<notin> set (dummy_node s # as @ p # bs)" and "n \<noteq> 0"
  shows "\<exists>h'. insert_after p n (s, h) = Some (s\<lparr>list_size := list_size s + 1\<rparr>, h') \<and>
    list_holds (s\<lparr>list_size := list_size s + 1\<rparr>, h') (as @ p # n # bs)"
  using insert_after_holds [OF assms, of "dummy_node s # as" p bs "as @ p # n # bs"] by auto

lemma insert_before_element:
  assumes "list_holds (s, h) (as @ p # bs)" and "n \<notin> set (dummy_node s # as @ p # bs)" and "n \<noteq> 0"
  shows "\<exists>h'. insert_before p n (s, h) = Some (s\<lparr>list_size := list_size s + 1\<rparr>, h') \<and>
    list_holds (s\<lparr>list_size := list_size s + 1\<rparr>, h') (as @ n # p # bs)"
proof -
  obtain cs q where "dummy_node s # as = cs @ [q]" by (metis list.distinct(1) rev_exhaust)
  then have "dummy_node s # as @ p # bs = cs @ q # p # bs" "dummy_node s # as @ n # p # bs = cs @ q # n # p # bs"
    by (metis append.assoc append_Cons append_Nil)+
  then show ?thesis using insert_before_holds [OF assms, of cs q "p # bs" "as @ n # p # bs" p] by auto
qed

lemma remove_element:
  assumes "list_holds (s, h) (as @ n # bs)"
  shows "\<exists>h'. list_remove n (s, h) = Some (s\<lparr>list_size := list_size s - 1\<rparr>, h') \<and>
    list_holds (s\<lparr>list_size := list_size s - 1\<rparr>, h') (as @ bs) \<and> h' n = \<lparr>prev_ptr = 0, next_ptr = 0\<rparr> \<and>
    (\<forall>x. x \<notin> set (dummy_node s # as @ n # bs) \<longrightarrow> h' x = h x)"
proof -
  obtain cs q where "dummy_node s # as = cs @ [q]" by (metis list.distinct(1) rev_exhaust)
  then have "dummy_node s # as @ n # bs = cs @ q # n # bs" "dummy_node s # as @ bs = cs @ q # bs"
    by (metis append.assoc append_Cons append_Nil)+
  then show ?thesis by (rule remove_holds [OF assms])
qed

subsection \<open>What the kernel asks of a list\<close>

text \<open>The interface the scheduler, the directories and the queues use: a first element, the element behind another one,
  a new last element, and an element taken out, with a value for no element.  A loop over the list that starts at the
  front and goes from element to element sees the elements in their order.\<close>

locale element_list =
  fixes holds :: "'l \<Rightarrow> 'a list \<Rightarrow> bool"
    and none :: 'a
    and new :: "'l \<Rightarrow> 'a \<Rightarrow> bool"
    and front :: "'l \<Rightarrow> 'a"
    and following :: "'l \<Rightarrow> 'a \<Rightarrow> 'a option"
    and add :: "'a \<Rightarrow> 'l \<Rightarrow> 'l option"
    and take_out :: "'a \<Rightarrow> 'l \<Rightarrow> 'l option"
  assumes none_law: "holds l xs \<Longrightarrow> none \<notin> set xs"
    and front_law: "holds l xs \<Longrightarrow> front l = (if xs = [] then none else hd xs)"
    and following_law: "holds l (as @ x # bs) \<Longrightarrow> following l x = Some (if bs = [] then none else hd bs)"
    and add_law: "holds l xs \<Longrightarrow> new l x \<Longrightarrow> x \<notin> set xs \<Longrightarrow> \<exists>l'. add x l = Some l' \<and> holds l' (xs @ [x])"
    and take_out_law: "holds l (as @ x # bs) \<Longrightarrow> \<exists>l'. take_out x l = Some l' \<and> holds l' (as @ bs)"
begin

text \<open>\<^verbatim>\<open>while (x && !P(x)) x = next(x)\<close>, with a bound on the rounds.\<close>

fun seek :: "('a \<Rightarrow> bool) \<Rightarrow> nat \<Rightarrow> 'l \<Rightarrow> 'a \<Rightarrow> 'a option" where
  "seek P 0 l x = None"
| "seek P (Suc fuel) l x = (if x = none \<or> P x then Some x else do { y \<leftarrow> following l x; seek P fuel l y })"

lemma seek_from:
  assumes "holds l (as @ bs)" and "length bs < fuel"
  shows "seek P fuel l (if bs = [] then none else hd bs) = Some (case find P bs of None \<Rightarrow> none | Some x \<Rightarrow> x)"
  using assms
proof (induction bs arbitrary: as fuel)
  case Nil
  then show ?case by (cases fuel) simp_all
next
  case (Cons b bs)
  then obtain k where k: "fuel = Suc k" by (cases fuel) auto
  have "b \<noteq> none" using none_law [OF Cons.prems(1)] by auto
  moreover have "following l b = Some (if bs = [] then none else hd bs)" using following_law Cons.prems(1) by blast
  moreover have "seek P k l (if bs = [] then none else hd bs) = Some (case find P bs of None \<Rightarrow> none | Some x \<Rightarrow> x)"
    using Cons.IH [of "as @ [b]" k] Cons.prems k by simp
  ultimately show ?case using k by simp
qed

lemma seek_finds: "holds l xs \<Longrightarrow> seek P (Suc (length xs)) l (front l) = Some (case find P xs of None \<Rightarrow> none | Some x \<Rightarrow> x)"
  using seek_from [of l "[]" xs "Suc (length xs)" P] front_law [of l xs] by (simp del: seek.simps)

text \<open>First in, first out.\<close>

lemma take_front:
  assumes "holds l (x # xs)"
  shows "front l = x \<and> (\<exists>l'. take_out (front l) l = Some l' \<and> holds l' xs)"
  using front_law [OF assms] take_out_law [of l "[]" x xs] assms by simp

end

definition new_node :: "intrusive_list \<times> node_heap \<Rightarrow> ptr \<Rightarrow> bool" where
  "new_node sh n \<longleftrightarrow> n \<noteq> 0 \<and> n \<noteq> dummy_node (fst sh)"

definition front_of :: "intrusive_list \<times> node_heap \<Rightarrow> ptr" where
  "front_of sh = list_front (fst sh) (snd sh)"

definition next_of :: "intrusive_list \<times> node_heap \<Rightarrow> ptr \<Rightarrow> ptr option" where
  "next_of sh = list_next (fst sh) (snd sh)"

interpretation il: element_list list_holds 0 new_node front_of next_of push_back list_remove
proof
  fix l xs assume "list_holds l xs"
  then show "0 \<notin> set xs" by (simp add: list_holds_def)
next
  fix l xs assume "list_holds l xs"
  then show "front_of l = (if xs = [] then 0 else hd xs)" using front_holds [of "fst l" "snd l"] by (simp add: front_of_def)
next
  fix l as x bs assume "list_holds l (as @ x # bs)"
  then show "next_of l x = Some (if bs = [] then 0 else hd bs)" using next_holds [of "fst l" "snd l"] by (simp add: next_of_def)
next
  fix l xs x assume "list_holds l xs" "new_node l x" "x \<notin> set xs"
  then show "\<exists>l'. push_back x l = Some l' \<and> list_holds l' (xs @ [x])"
    using push_back_holds [of "fst l" "snd l" xs x] by (auto simp: new_node_def)
next
  fix l as x bs assume "list_holds l (as @ x # bs)"
  then show "\<exists>l'. list_remove x l = Some l' \<and> list_holds l' (as @ bs)"
    using remove_element [of "fst l" "snd l" as x bs] by auto
qed

subsection \<open>Properties\<close>

text \<open>Sequences of operations on one list, on the nodes and on the list of pointers.\<close>

datatype list_command = Push_Front ptr | Push_Back ptr | Insert_After ptr ptr | Insert_Before ptr ptr | Remove ptr

fun run_command :: "list_command \<Rightarrow> intrusive_list \<times> node_heap \<Rightarrow> (intrusive_list \<times> node_heap) option" where
  "run_command (Push_Front n) sh = push_front n sh"
| "run_command (Push_Back n) sh = push_back n sh"
| "run_command (Insert_After p n) sh = insert_after p n sh"
| "run_command (Insert_Before p n) sh = insert_before p n sh"
| "run_command (Remove n) sh = list_remove n sh"

fun run_commands :: "list_command list \<Rightarrow> intrusive_list \<times> node_heap \<Rightarrow> (intrusive_list \<times> node_heap) option" where
  "run_commands [] sh = Some sh"
| "run_commands (c # cs) sh = do { sh \<leftarrow> run_command c sh; run_commands cs sh }"

definition before :: "ptr \<Rightarrow> ptr list \<Rightarrow> ptr list" where
  "before p xs = takeWhile (\<lambda>x. x \<noteq> p) xs"

definition behind :: "ptr \<Rightarrow> ptr list \<Rightarrow> ptr list" where
  "behind p xs = tl (dropWhile (\<lambda>x. x \<noteq> p) xs)"

text \<open>The nodes inserted are new, the pivots and the nodes removed are in the list; everything else is a mistake of the
  caller.\<close>

fun obey :: "ptr \<Rightarrow> list_command \<Rightarrow> ptr list \<Rightarrow> ptr list option" where
  "obey d (Push_Front n) xs = (if n \<in> set (0 # d # xs) then None else Some (n # xs))"
| "obey d (Push_Back n) xs = (if n \<in> set (0 # d # xs) then None else Some (xs @ [n]))"
| "obey d (Insert_After p n) xs =
     (if n \<in> set (0 # d # xs) \<or> p \<notin> set xs then None else Some (before p xs @ p # n # behind p xs))"
| "obey d (Insert_Before p n) xs =
     (if n \<in> set (0 # d # xs) \<or> p \<notin> set xs then None else Some (before p xs @ n # p # behind p xs))"
| "obey d (Remove n) xs = (if n \<notin> set xs then None else Some (before n xs @ behind n xs))"

fun obey_all :: "ptr \<Rightarrow> list_command list \<Rightarrow> ptr list \<Rightarrow> ptr list option" where
  "obey_all d [] xs = Some xs"
| "obey_all d (c # cs) xs = do { xs \<leftarrow> obey d c xs; obey_all d cs xs }"

lemma split_at: "p \<in> set xs \<Longrightarrow> xs = before p xs @ p # behind p xs"
  by (induction xs) (auto simp: before_def behind_def)

lemma command_refines:
  assumes "list_holds (s, h) xs" and "obey (dummy_node s) c xs = Some xs'"
  shows "\<exists>s' h'. run_command c (s, h) = Some (s', h') \<and> list_holds (s', h') xs' \<and> dummy_node s' = dummy_node s"
proof (cases c)
  case (Push_Front n)
  then show ?thesis using push_front_holds [OF assms(1), of n] assms(2) by (auto split: if_splits)
next
  case (Push_Back n)
  then show ?thesis using push_back_holds [OF assms(1), of n] assms(2) by (auto split: if_splits)
next
  case (Insert_After p n)
  then have p: "p \<in> set xs" "n \<notin> set (0 # dummy_node s # xs)" "xs' = before p xs @ p # n # behind p xs"
    using assms(2) by (auto split: if_splits)
  then show ?thesis
    using insert_after_element [of s h "before p xs" p "behind p xs" n] assms(1) split_at [OF p(1)] Insert_After by auto
next
  case (Insert_Before p n)
  then have p: "p \<in> set xs" "n \<notin> set (0 # dummy_node s # xs)" "xs' = before p xs @ n # p # behind p xs"
    using assms(2) by (auto split: if_splits)
  then show ?thesis
    using insert_before_element [of s h "before p xs" p "behind p xs" n] assms(1) split_at [OF p(1)] Insert_Before by auto
next
  case (Remove n)
  then have p: "n \<in> set xs" "xs' = before n xs @ behind n xs" using assms(2) by (auto split: if_splits)
  then show ?thesis
    using remove_element [of s h "before n xs" n "behind n xs"] assms(1) split_at [OF p(1)] Remove by auto
qed

lemma commands_refine:
  assumes "list_holds (s, h) xs" and "obey_all (dummy_node s) cs xs = Some xs'"
  shows "\<exists>s' h'. run_commands cs (s, h) = Some (s', h') \<and> list_holds (s', h') xs' \<and> dummy_node s' = dummy_node s"
  using assms
proof (induction cs arbitrary: s h xs)
  case (Cons c cs)
  then obtain xs2 where xs2: "obey (dummy_node s) c xs = Some xs2" "obey_all (dummy_node s) cs xs2 = Some xs'"
    by (auto simp: bind_eq_Some_conv)
  then obtain s2 h2 where "run_command c (s, h) = Some (s2, h2)" "list_holds (s2, h2) xs2" "dummy_node s2 = dummy_node s"
    using command_refines [OF Cons.prems(1)] by blast
  then show ?case using Cons.IH [of s2 h2 xs2] xs2(2) by auto
qed simp

text \<open>C6. From an empty list, every sequence of insertions and removals on the nodes follows the list of pointers, and
  the queries agree with it: the first and the last element, whether the list is empty, the neighbours of every element,
  and the end of a walk from the front, which comes to the first element with a property or to the null pointer.\<close>

theorem list_refines:
  assumes "d \<noteq> 0" and "obey_all d cs [] = Some xs"
  shows "\<exists>s h. run_commands cs (list_create d h0) = Some (s, h) \<and>
    list_front s h = (if xs = [] then 0 else hd xs) \<and> list_back s h = (if xs = [] then 0 else last xs) \<and>
    (list_empty s \<longleftrightarrow> xs = []) \<and>
    (\<forall>i < length xs. list_next s h (xs ! i) = Some (if Suc i = length xs then 0 else xs ! Suc i) \<and>
      list_prev s h (xs ! i) = Some (if i = 0 then 0 else xs ! (i - 1))) \<and>
    (\<forall>P. il.seek P (Suc (length xs)) (s, h) (front_of (s, h)) = Some (case find P xs of None \<Rightarrow> 0 | Some x \<Rightarrow> x))"
proof -
  obtain s h where sh: "run_commands cs (list_create d h0) = Some (s, h)" "list_holds (s, h) xs"
    using commands_refine [of "fst (list_create d h0)" "snd (list_create d h0)" "[]" cs xs] create_holds [OF assms(1), of h0] assms(2)
    by (auto simp: list_create_def)
  show ?thesis
    using sh(1) front_holds [OF sh(2)] back_holds [OF sh(2)] empty_holds [OF sh(2)] neighbours_holds [OF sh(2)] il.seek_finds [OF sh(2)]
    by blast
qed

theorem list_refines_witness:
  "\<exists>s h. run_commands [Push_Back 2, Push_Front 3, Insert_After 3 4, Insert_Before 2 5, Remove 2] (list_create 1 (\<lambda>_. \<lparr>prev_ptr = 0, next_ptr = 0\<rparr>)) = Some (s, h) \<and>
     list_front s h = 3 \<and> list_back s h = 5 \<and> \<not> list_empty s \<and> list_next s h 3 = Some 4 \<and> list_prev s h 3 = Some 0"
proof -
  let ?cs = "[Push_Back 2, Push_Front 3, Insert_After 3 4, Insert_Before 2 5, Remove 2]"
  have "obey_all 1 ?cs [] = Some [3, 4, 5]" by (simp add: before_def behind_def)
  then show ?thesis
    using list_refines [of 1 ?cs "[3, 4, 5]" "\<lambda>_. \<lparr>prev_ptr = 0, next_ptr = 0\<rparr>"] by (fastforce simp del: run_commands.simps)
qed

end
