(* ===== verification/Kernel_Base.thy ===== *)
theory Kernel_Base
  imports Prelude
begin

section \<open>Errors and results of the kernel\<close>

text \<open>
  The error codes of \<^verbatim>\<open>src/include/sdk/chino/error.h\<close>, results as sums (\<open>Inl\<close> an error, \<open>Inr\<close> a value, as
  \<^verbatim>\<open>result.h\<close> has them), the error numbers a system call reports (\<^verbatim>\<open>to_errno\<close> and \<^verbatim>\<open>wrap_posix\<close> of the kernel
  services), and the arithmetic of \<^verbatim>\<open>units.h\<close>.  A step that C++ leaves undefined, a failed assertion and a call of
  \<^verbatim>\<open>fail_fast\<close> are \<open>None\<close> of an option around the result, in this and in the other kernel theories.
\<close>

datatype error_code = success | fail | argument_null | invalid_argument | out_of_memory | not_found | unavailable
  | key_already_exists | not_implemented | not_supported | invalid_path | insufficient_buffer | io_error | bad_cast
  | timeout | again | slow_io | io_pending | message_too_long | no_such_device

type_synonym 'a result = "error_code + 'a"

abbreviation err :: "error_code \<Rightarrow> 'a result" where "err \<equiv> Inl"

abbreviation ok :: "'a \<Rightarrow> 'a result" where "ok \<equiv> Inr"

text \<open>Error numbers of POSIX, by name.\<close>

datatype errno = E_OK | EINVAL | ENOMEM | ENOENT | EBUSY | EEXIST | ENOTSUP | EIO | EBADF | ETIMEDOUT | EMSGSIZE | ENODEV | EFAULT

definition to_errno :: "error_code \<Rightarrow> errno" where
  "to_errno code = (case code of success \<Rightarrow> E_OK | argument_null \<Rightarrow> EINVAL | invalid_argument \<Rightarrow> EINVAL
     | out_of_memory \<Rightarrow> ENOMEM | not_found \<Rightarrow> ENOENT | unavailable \<Rightarrow> EBUSY | key_already_exists \<Rightarrow> EEXIST
     | not_implemented \<Rightarrow> ENOTSUP | not_supported \<Rightarrow> ENOTSUP | invalid_path \<Rightarrow> ENOENT | insufficient_buffer \<Rightarrow> ENOMEM
     | io_error \<Rightarrow> EIO | bad_cast \<Rightarrow> EBADF | timeout \<Rightarrow> ETIMEDOUT | message_too_long \<Rightarrow> EMSGSIZE
     | no_such_device \<Rightarrow> ENODEV | _ \<Rightarrow> EFAULT)"

text \<open>The value a system call returns, and the error number it stores in case of an error.\<close>

definition wrap_posix :: "int result \<Rightarrow> int \<times> errno option" where
  "wrap_posix r = (case r of Inr v \<Rightarrow> (v, None) | Inl e \<Rightarrow> (-1, Some (to_errno e)))"

definition ceil_div :: "nat \<Rightarrow> nat \<Rightarrow> nat" where
  "ceil_div divisor dividend = (let quotient = divisor div dividend in
     if quotient * dividend < divisor then quotient + 1 else quotient)"

lemma ceil_div_ge:
  assumes "0 < n"
  shows "m \<le> ceil_div m n * n"
proof -
  have "m < Suc (m div n) * n" using assms by (rule dividend_less_div_times [THEN order_less_le_trans]) simp
  then show ?thesis by (simp add: ceil_div_def Let_def)
qed

text \<open>Counting the elements of a list with a property, when one element changes.\<close>

lemma length_filter_update:
  "i < length xs \<Longrightarrow> length (filter P (xs[i := y])) + (if P (xs ! i) then 1 else 0) = length (filter P xs) + (if P y then 1 else 0)"
proof (induction xs arbitrary: i)
  case (Cons x xs)
  then show ?case by (cases i) auto
qed simp

end
