(* ===== verification/Kernel_Scheduler.thy ===== *)
theory Kernel_Scheduler
  imports Kernel_List Kernel_Base
begin

section \<open>Threads and the scheduler\<close>

text \<open>
  Model of \<^verbatim>\<open>src/src/os/kernel/ps\<close>: threads (\<^verbatim>\<open>task/thread.h\<close> and \<^verbatim>\<open>.cpp\<close>), the scheduler of a CPU
  (\<^verbatim>\<open>sched/scheduler.cpp\<close>) and waiting on an atomic variable (\<^verbatim>\<open>sched/synchronizers.cpp\<close>), with the interrupts that
  reach the scheduler (\<^verbatim>\<open>io/irq_handler.cpp\<close>).  There is one CPU, and interrupts are disabled while the scheduler works on its lists, so
  each operation is one change of the state.  The lists are those that the rings of \<open>Kernel_List\<close> hold.
  A call of \<^verbatim>\<open>yield\<close> is the change of threads; what the calling thread does when it runs again is a separate operation.
  A failed assertion, a call of \<^verbatim>\<open>fail_fast\<close> and an access through a null pointer are \<open>None\<close>.
\<close>

subsection \<open>State\<close>

datatype thread_status = Ready | Running | Blocked | Delayed | Terminated

definition idle_priority :: nat where "idle_priority = 0"
definition max_priority :: nat where "max_priority = 5"

record thread =
  priority :: nat
  status :: thread_status
  wait_address :: "nat option"
  wakeup_time :: int
  on_scheduler :: bool

text \<open>Threads and atomic variables are named by numbers; \<open>memory\<close> has the values of the variables and \<open>yield_posted\<close>
  a system call that waits for its interrupt.\<close>

record scheduler =
  started :: bool
  lock_depth :: u32
  max_ready_priority :: nat
  ready_threads :: "nat list list"
  blocked_threads :: "nat list"
  delayed_threads :: "nat list"
  thread_of :: "nat \<Rightarrow> thread"
  current_thread :: "nat option"
  cpu_time :: int
  memory :: "nat \<Rightarrow> u32"
  yield_posted :: bool

definition set_thread :: "nat \<Rightarrow> thread \<Rightarrow> scheduler \<Rightarrow> scheduler" where
  "set_thread t th s = s\<lparr>thread_of := (thread_of s)(t := th)\<rparr>"

definition set_status :: "nat \<Rightarrow> thread_status \<Rightarrow> scheduler \<Rightarrow> scheduler" where
  "set_status t st s = set_thread t ((thread_of s t)\<lparr>status := st\<rparr>) s"

subsection \<open>Lists\<close>

datatype list_name = Ready_list nat | Blocked_list | Delayed_list

definition list_of :: "thread \<Rightarrow> list_name option" where
  "list_of th = (case status th of
     Ready \<Rightarrow> Some (Ready_list (priority th))
   | Running \<Rightarrow> Some (Ready_list (priority th))
   | Blocked \<Rightarrow> Some Blocked_list
   | Delayed \<Rightarrow> Some Delayed_list
   | Terminated \<Rightarrow> None)"

fun get_list :: "list_name \<Rightarrow> scheduler \<Rightarrow> nat list" where
  "get_list (Ready_list p) s = ready_threads s ! p"
| "get_list Blocked_list s = blocked_threads s"
| "get_list Delayed_list s = delayed_threads s"

fun put_list :: "list_name \<Rightarrow> nat list \<Rightarrow> scheduler \<Rightarrow> scheduler" where
  "put_list (Ready_list p) xs s = s\<lparr>ready_threads := (ready_threads s)[p := xs]\<rparr>"
| "put_list Blocked_list xs s = s\<lparr>blocked_threads := xs\<rparr>"
| "put_list Delayed_list xs s = s\<lparr>delayed_threads := xs\<rparr>"

text \<open>\<^verbatim>\<open>list_of(thread).push_back(&thread)\<close> and \<^verbatim>\<open>list_of(thread).remove(&thread)\<close>; the element has to be in the list.\<close>

definition push_own :: "nat \<Rightarrow> scheduler \<Rightarrow> scheduler option" where
  "push_own t s = do { l \<leftarrow> list_of (thread_of s t); Some (put_list l (get_list l s @ [t]) s) }"

definition remove_own :: "nat \<Rightarrow> scheduler \<Rightarrow> scheduler option" where
  "remove_own t s = do {
     l \<leftarrow> list_of (thread_of s t);
     if t \<in> set (get_list l s) then Some (put_list l (remove1 t (get_list l s)) s) else None }"

text \<open>The element behind another; there is none behind the last element, nor behind one that was removed.\<close>

definition next_in :: "nat list \<Rightarrow> nat \<Rightarrow> nat option" where
  "next_in xs t = (case dropWhile (\<lambda>x. x \<noteq> t) xs of _ # y # _ \<Rightarrow> Some y | _ \<Rightarrow> None)"

subsection \<open>Changing threads\<close>

definition update_max_ready_priority :: "nat \<Rightarrow> scheduler \<Rightarrow> scheduler" where
  "update_max_ready_priority p s = (if max_ready_priority s < p then s\<lparr>max_ready_priority := p\<rparr> else s)"

text \<open>The search from a priority down to another.  Below it there is no thread, and below 0 the index wraps around.\<close>

fun search_ready :: "nat list list \<Rightarrow> nat \<Rightarrow> nat \<Rightarrow> nat option" where
  "search_ready ready low 0 = (if low = 0 \<and> ready ! 0 \<noteq> [] then Some (hd (ready ! 0)) else None)"
| "search_ready ready low (Suc i) = (if Suc i < low then None
     else if ready ! Suc i \<noteq> [] then Some (hd (ready ! Suc i)) else search_ready ready low i)"

definition select_next_thread :: "scheduler \<Rightarrow> nat option" where
  "select_next_thread s = do {
     c \<leftarrow> current_thread s;
     let cnt = thread_of s c;
     if max_ready_priority s > priority cnt \<or> status cnt \<noteq> Running then
       search_ready (ready_threads s) (if status cnt \<noteq> Running then 0 else priority cnt) (max_ready_priority s)
     else do {
       l \<leftarrow> list_of cnt;
       let threads = get_list l s;
       (case next_in threads c of
          Some n \<Rightarrow> Some n
        | None \<Rightarrow> (case threads of [] \<Rightarrow> None | t # _ \<Rightarrow> Some t)) } }"

definition set_current_thread :: "nat \<Rightarrow> scheduler \<Rightarrow> scheduler option" where
  "set_current_thread t s = do {
     c \<leftarrow> current_thread s;
     Some (if c \<noteq> t then
       let s = (if status (thread_of s c) = Running then set_status c Ready s else s);
           s = set_status t Running s in
       s\<lparr>max_ready_priority := priority (thread_of s t), current_thread := Some t\<rparr>
     else s) }"

definition switch_task :: "scheduler \<Rightarrow> scheduler option" where
  "switch_task s = (if lock_depth s = 0 then do {
       c \<leftarrow> current_thread s;
       n \<leftarrow> select_next_thread s;
       if n \<noteq> c then set_current_thread n s else Some s }
     else Some s)"

text \<open>In an interrupt and outside of it, \<^verbatim>\<open>yield\<close> changes threads.\<close>

definition yield :: "scheduler \<Rightarrow> scheduler option" where
  "yield s = switch_task s"

definition scheduler_lock :: "scheduler \<Rightarrow> scheduler" where
  "scheduler_lock s = s\<lparr>lock_depth := lock_depth s + 1\<rparr>"

definition scheduler_unlock :: "scheduler \<Rightarrow> scheduler" where
  "scheduler_unlock s = s\<lparr>lock_depth := lock_depth s - 1\<rparr>"

subsection \<open>Starting and ending threads\<close>

text \<open>Threads are not counted objects: \<^verbatim>\<open>add_ref\<close> and \<^verbatim>\<open>dec_ref\<close> of the class do nothing.\<close>

definition initial_scheduler :: "(nat \<Rightarrow> thread) \<Rightarrow> int \<Rightarrow> (nat \<Rightarrow> u32) \<Rightarrow> scheduler" where
  "initial_scheduler threads now mem = \<lparr>started = False, lock_depth = 0, max_ready_priority = idle_priority,
     ready_threads = replicate (max_priority + 1) [], blocked_threads = [], delayed_threads = [], thread_of = threads,
     current_thread = None, cpu_time = now, memory = mem, yield_posted = False\<rparr>"

definition attach_thread :: "nat \<Rightarrow> scheduler \<Rightarrow> scheduler option" where
  "attach_thread t s = do {
     s \<leftarrow> push_own t s;
     let s = update_max_ready_priority (priority (thread_of s t)) s;
     let s = set_thread t ((thread_of s t)\<lparr>on_scheduler := True\<rparr>) s;
     let s = set_status t Ready s;
     if started s then yield s else Some s }"

text \<open>The constructor of a thread: the flags are those of the options, so the status is 0, which is \<open>Ready\<close>; the
  address it waits for and the time of its wake-up are whatever the memory has.\<close>

definition create_thread :: "nat \<Rightarrow> nat \<Rightarrow> nat option \<Rightarrow> int \<Rightarrow> scheduler \<Rightarrow> scheduler option" where
  "create_thread t p address time s = attach_thread t (set_thread t
     \<lparr>priority = p, status = Ready, wait_address = address, wakeup_time = time, on_scheduler = False\<rparr> s)"

definition detach_thread :: "nat \<Rightarrow> scheduler \<Rightarrow> scheduler option" where
  "detach_thread t s = do {
     s \<leftarrow> remove_own t s;
     let s = set_thread t ((thread_of s t)\<lparr>on_scheduler := False\<rparr>) s;
     Some (if priority (thread_of s t) = max_ready_priority s then s\<lparr>max_ready_priority := idle_priority\<rparr> else s) }"

text \<open>The end of \<^verbatim>\<open>thread_main_thunk\<close>.\<close>

definition exit_thread :: "scheduler \<Rightarrow> scheduler option" where
  "exit_thread s = do { c \<leftarrow> current_thread s; s \<leftarrow> detach_thread c s; yield s }"

definition start_schedule :: "nat \<Rightarrow> scheduler \<Rightarrow> scheduler" where
  "start_schedule t s = (set_status t Running (s\<lparr>current_thread := Some t\<rparr>))\<lparr>started := True\<rparr>"

subsection \<open>Time\<close>

text \<open>The position behind the last thread, from the second on, that wakes up no later.\<close>

fun insert_behind :: "(nat \<Rightarrow> int) \<Rightarrow> int \<Rightarrow> nat \<Rightarrow> nat list \<Rightarrow> nat list" where
  "insert_behind wakeup time t [] = [t]"
| "insert_behind wakeup time t (next # xs) =
     (if wakeup next \<le> time then next # insert_behind wakeup time t xs else t # next # xs)"

definition add_to_delay_list :: "nat \<Rightarrow> int \<Rightarrow> scheduler \<Rightarrow> scheduler" where
  "add_to_delay_list t duration s =
     (let time = cpu_time s + duration;
          s = s\<lparr>delayed_threads := (case delayed_threads s of
             pivot # xs \<Rightarrow> pivot # insert_behind (\<lambda>t. wakeup_time (thread_of s t)) time t xs
           | [] \<Rightarrow> [t])\<rparr>;
          s = set_thread t ((thread_of s t)\<lparr>wakeup_time := time\<rparr>) s in
      set_status t Delayed s)"

text \<open>Make a thread ready that was taken from another list.\<close>

definition make_ready :: "nat \<Rightarrow> scheduler \<Rightarrow> scheduler option" where
  "make_ready t s = do {
     s \<leftarrow> push_own t (set_status t Ready s);
     Some (update_max_ready_priority (priority (thread_of s t)) s) }"

fun wakeup_loop :: "int \<Rightarrow> nat list \<Rightarrow> scheduler \<Rightarrow> scheduler option" where
  "wakeup_loop now [] s = Some s"
| "wakeup_loop now (t # ts) s =
     (if wakeup_time (thread_of s t) \<le> now then do {
        s \<leftarrow> make_ready t (s\<lparr>delayed_threads := remove1 t (delayed_threads s)\<rparr>);
        wakeup_loop now ts s }
      else Some s)"

definition wakeup_delayed_threads :: "scheduler \<Rightarrow> scheduler option" where
  "wakeup_delayed_threads s = wakeup_loop (cpu_time s) (delayed_threads s) s"

definition on_system_tick :: "scheduler \<Rightarrow> scheduler option" where
  "on_system_tick s = wakeup_delayed_threads s \<bind> switch_task"

definition delay_current_thread :: "int \<Rightarrow> scheduler \<Rightarrow> scheduler option" where
  "delay_current_thread duration s = do {
     c \<leftarrow> current_thread s;
     s \<leftarrow> remove_own c s;
     yield (add_to_delay_list c duration s) }"

subsection \<open>Waiting\<close>

text \<open>The first part of \<^verbatim>\<open>block_current_thread\<close> up to its first \<^verbatim>\<open>yield\<close>: there is a result, or the thread waits.\<close>

definition block_current_thread :: "nat \<Rightarrow> u32 \<Rightarrow> int option \<Rightarrow> scheduler \<Rightarrow> (unit result option \<times> scheduler) option" where
  "block_current_thread address old duration s = do {
     c \<leftarrow> current_thread s;
     if memory s address = old then do {
       let s = set_thread c ((thread_of s c)\<lparr>wait_address := Some address\<rparr>) s;
       s \<leftarrow> remove_own c s;
       let s = (case duration of
          None \<Rightarrow> set_status c Blocked (s\<lparr>blocked_threads := blocked_threads s @ [c]\<rparr>)
        | Some d \<Rightarrow> add_to_delay_list c d s);
       s \<leftarrow> yield s;
       Some (None, s) }
     else Some (Some (ok ()), s) }"

text \<open>What the thread does when a \<^verbatim>\<open>yield\<close> of the loop returns; \<open>since\<close> is the time at which it began to wait.\<close>

definition block_resume :: "nat \<Rightarrow> u32 \<Rightarrow> int option \<Rightarrow> int \<Rightarrow> scheduler \<Rightarrow> (unit result option \<times> scheduler) option" where
  "block_resume address old duration since s =
     (if memory s address \<noteq> old then Some (Some (ok ()), s)
      else case duration of
        Some d \<Rightarrow> if cpu_time s \<ge> since + d then Some (Some (err timeout), s) else map_option (Pair None) (yield s)
      | None \<Rightarrow> map_option (Pair None) (yield s))"

text \<open>\<^verbatim>\<open>atomic_wait\<close> takes milliseconds.\<close>

definition atomic_wait :: "nat \<Rightarrow> u32 \<Rightarrow> int option \<Rightarrow> scheduler \<Rightarrow> (unit result option \<times> scheduler) option" where
  "atomic_wait address old milliseconds s =
     (if memory s address \<noteq> old then Some (Some (ok ()), s)
      else block_current_thread address old (map_option (\<lambda>ms. ms * 1000000) milliseconds) s)"

fun unblock_loop :: "nat \<Rightarrow> bool \<Rightarrow> nat list \<Rightarrow> bool \<Rightarrow> scheduler \<Rightarrow> (bool \<times> scheduler) option" where
  "unblock_loop address unblock_all [] unblocked s = Some (unblocked, s)"
| "unblock_loop address unblock_all (t # ts) unblocked s =
     (if wait_address (thread_of s t) = Some address then do {
        let s = set_thread t ((thread_of s t)\<lparr>wait_address := None\<rparr>) s;
        s \<leftarrow> make_ready t (s\<lparr>blocked_threads := remove1 t (blocked_threads s)\<rparr>);
        if unblock_all then unblock_loop address unblock_all ts True s else Some (True, s) }
      else unblock_loop address unblock_all ts unblocked s)"

definition unblock_local_threads :: "nat \<Rightarrow> bool \<Rightarrow> scheduler \<Rightarrow> (bool \<times> scheduler) option" where
  "unblock_local_threads address unblock_all s = do {
     (unblocked, s) \<leftarrow> unblock_loop address unblock_all (blocked_threads s) False s;
     Some (unblocked, if unblocked then s\<lparr>yield_posted := True\<rparr> else s) }"

definition unblock_threads :: "nat \<Rightarrow> bool \<Rightarrow> scheduler \<Rightarrow> scheduler option" where
  "unblock_threads address unblock_all s = map_option snd (unblock_local_threads address unblock_all s)"

definition atomic_notify_one :: "nat \<Rightarrow> scheduler \<Rightarrow> scheduler option" where
  "atomic_notify_one address s = unblock_threads address False s"

definition atomic_notify_all :: "nat \<Rightarrow> scheduler \<Rightarrow> scheduler option" where
  "atomic_notify_all address s = unblock_threads address True s"

subsection \<open>Interrupts\<close>

text \<open>The interrupt of a posted system call, and of the timer.\<close>

datatype irq = System_tick | Syscall_yield

definition io_handle_irq :: "irq \<Rightarrow> scheduler \<Rightarrow> scheduler option" where
  "io_handle_irq i s = (case i of
     System_tick \<Rightarrow> on_system_tick s
   | Syscall_yield \<Rightarrow> switch_task (s\<lparr>yield_posted := False\<rparr>))"

subsection \<open>Lists and statuses that agree\<close>

definition active :: "thread_status \<Rightarrow> bool" where
  "active st \<longleftrightarrow> st = Ready \<or> st = Running"

definition lists_ok :: "scheduler \<Rightarrow> bool" where
  "lists_ok s \<longleftrightarrow> length (ready_threads s) = 6 \<and>
     (\<forall>p < 6. distinct (ready_threads s ! p) \<and> (\<forall>t \<in> set (ready_threads s ! p). priority (thread_of s t) = p \<and> active (status (thread_of s t)))) \<and>
     distinct (blocked_threads s) \<and> (\<forall>t \<in> set (blocked_threads s). status (thread_of s t) = Blocked \<and> priority (thread_of s t) < 6) \<and>
     distinct (delayed_threads s) \<and> (\<forall>t \<in> set (delayed_threads s). status (thread_of s t) = Delayed \<and> priority (thread_of s t) < 6)"

definition in_ready :: "scheduler \<Rightarrow> nat \<Rightarrow> bool" where
  "in_ready s t \<longleftrightarrow> (\<exists>p < 6. t \<in> set (ready_threads s ! p))"

definition in_lists :: "scheduler \<Rightarrow> nat \<Rightarrow> bool" where
  "in_lists s t \<longleftrightarrow> in_ready s t \<or> t \<in> set (blocked_threads s) \<or> t \<in> set (delayed_threads s)"

text \<open>No thread but the current one is marked as running; no ready thread has a higher priority than the recorded one;
  the idle thread is ready.\<close>

definition core_inv :: "nat \<Rightarrow> scheduler \<Rightarrow> bool" where
  "core_inv idle s \<longleftrightarrow> lists_ok s \<and> max_ready_priority s < 6 \<and> (\<forall>p < 6. ready_threads s ! p \<noteq> [] \<longrightarrow> p \<le> max_ready_priority s) \<and>
     (\<forall>t. in_ready s t \<longrightarrow> current_thread s \<noteq> Some t \<longrightarrow> status (thread_of s t) = Ready) \<and> idle \<in> set (ready_threads s ! 0)"

text \<open>The current thread is in a list; as long as it runs there is a thread with the recorded priority.\<close>

definition current_ok :: "scheduler \<Rightarrow> bool" where
  "current_ok s \<longleftrightarrow> (\<exists>c. current_thread s = Some c \<and> in_lists s c \<and>
     (status (thread_of s c) = Running \<longrightarrow> ready_threads s ! max_ready_priority s \<noteq> []))"

definition sched_inv :: "nat \<Rightarrow> scheduler \<Rightarrow> bool" where
  "sched_inv idle s \<longleftrightarrow> core_inv idle s \<and> started s \<and> current_ok s"

lemma lists_okD:
  assumes "lists_ok s"
  shows "length (ready_threads s) = 6" "p < 6 \<Longrightarrow> distinct (ready_threads s ! p)" "distinct (blocked_threads s)" "distinct (delayed_threads s)"
    "p < 6 \<Longrightarrow> t \<in> set (ready_threads s ! p) \<Longrightarrow> priority (thread_of s t) = p"
    "p < 6 \<Longrightarrow> t \<in> set (ready_threads s ! p) \<Longrightarrow> active (status (thread_of s t))"
    "t \<in> set (blocked_threads s) \<Longrightarrow> status (thread_of s t) = Blocked" "t \<in> set (blocked_threads s) \<Longrightarrow> priority (thread_of s t) < 6"
    "t \<in> set (delayed_threads s) \<Longrightarrow> status (thread_of s t) = Delayed" "t \<in> set (delayed_threads s) \<Longrightarrow> priority (thread_of s t) < 6"
  using assms by (simp_all add: lists_ok_def)

text \<open>The status of a thread tells in which list it is.\<close>

lemma placed:
  assumes "lists_ok s" and "in_lists s t"
  shows "active (status (thread_of s t)) \<and> t \<in> set (ready_threads s ! priority (thread_of s t)) \<and> t \<notin> set (blocked_threads s) \<and> t \<notin> set (delayed_threads s) \<or>
      status (thread_of s t) = Blocked \<and> t \<in> set (blocked_threads s) \<and> \<not> in_ready s t \<and> t \<notin> set (delayed_threads s) \<or>
      status (thread_of s t) = Delayed \<and> t \<in> set (delayed_threads s) \<and> \<not> in_ready s t \<and> t \<notin> set (blocked_threads s)"
    and "priority (thread_of s t) < 6"
proof -
  note d = lists_okD [OF assms(1)]
  consider p where "p < 6" "t \<in> set (ready_threads s ! p)" | "t \<in> set (blocked_threads s)" | "t \<in> set (delayed_threads s)"
    using assms(2) by (auto simp: in_lists_def in_ready_def)
  then have "(active (status (thread_of s t)) \<and> t \<in> set (ready_threads s ! priority (thread_of s t)) \<and> t \<notin> set (blocked_threads s) \<and> t \<notin> set (delayed_threads s) \<or>
      status (thread_of s t) = Blocked \<and> t \<in> set (blocked_threads s) \<and> \<not> in_ready s t \<and> t \<notin> set (delayed_threads s) \<or>
      status (thread_of s t) = Delayed \<and> t \<in> set (delayed_threads s) \<and> \<not> in_ready s t \<and> t \<notin> set (blocked_threads s)) \<and> priority (thread_of s t) < 6"
  proof cases
    case 1
    then have "priority (thread_of s t) = p" "active (status (thread_of s t))" using d(5,6) by simp_all
    then show ?thesis using 1 d(7) [of t] d(9) [of t] by (auto simp: active_def)
  next
    case 2
    then show ?thesis using d(6) [of _ t] d(7-10) [of t] by (auto simp: active_def in_ready_def)
  next
    case 3
    then show ?thesis using d(6) [of _ t] d(7-10) [of t] by (auto simp: active_def in_ready_def)
  qed
  then show "active (status (thread_of s t)) \<and> t \<in> set (ready_threads s ! priority (thread_of s t)) \<and> t \<notin> set (blocked_threads s) \<and> t \<notin> set (delayed_threads s) \<or>
      status (thread_of s t) = Blocked \<and> t \<in> set (blocked_threads s) \<and> \<not> in_ready s t \<and> t \<notin> set (delayed_threads s) \<or>
      status (thread_of s t) = Delayed \<and> t \<in> set (delayed_threads s) \<and> \<not> in_ready s t \<and> t \<notin> set (blocked_threads s)"
    and "priority (thread_of s t) < 6" by blast+
qed

subsection \<open>Taking a thread out of its list\<close>

definition drop_thread :: "nat \<Rightarrow> scheduler \<Rightarrow> scheduler" where
  "drop_thread t s = s\<lparr>ready_threads := map (remove1 t) (ready_threads s), blocked_threads := remove1 t (blocked_threads s),
     delayed_threads := remove1 t (delayed_threads s)\<rparr>"

lemma drop_lists:
  assumes "lists_ok s"
  shows "lists_ok (drop_thread t s)" and "\<not> in_lists (drop_thread t s) t"
    and "u \<noteq> t \<Longrightarrow> in_lists (drop_thread t s) u = in_lists s u" and "u \<noteq> t \<Longrightarrow> in_ready (drop_thread t s) u = in_ready s u"
    and "p < 6 \<Longrightarrow> ready_threads (drop_thread t s) ! p = remove1 t (ready_threads s ! p)"
  using assms by (auto simp: lists_ok_def drop_thread_def in_lists_def in_ready_def dest: notin_set_remove1)

lemma map_remove_other: "length (ready_threads s) = 6 \<Longrightarrow> \<not> in_ready s t \<Longrightarrow> map (remove1 t) (ready_threads s) = ready_threads s"
  by (rule nth_equalityI) (auto simp: in_ready_def remove1_idem)

lemma remove_ready:
  assumes "lists_ok s" and "p < 6" and "t \<in> set (ready_threads s ! p)"
  shows "map (remove1 t) (ready_threads s) = (ready_threads s)[p := remove1 t (ready_threads s ! p)]"
proof (rule nth_equalityI)
  fix i assume "i < length (map (remove1 t) (ready_threads s))"
  then have i: "i < 6" "i < length (ready_threads s)" using lists_okD(1) [OF assms(1)] by simp_all
  have "t \<notin> set (ready_threads s ! i)" if "i \<noteq> p" using that lists_okD(5) [OF assms(1)] assms(2,3) i(1) by metis
  then show "map (remove1 t) (ready_threads s) ! i = (ready_threads s)[p := remove1 t (ready_threads s ! p)] ! i"
    using i by (cases "i = p") (simp_all add: remove1_idem)
qed simp

lemma remove_own_drop:
  assumes "lists_ok s" and "in_lists s t"
  shows "remove_own t s = Some (drop_thread t s)"
  using placed(1) [OF assms]
proof (elim disjE conjE)
  assume "active (status (thread_of s t))" "t \<in> set (ready_threads s ! priority (thread_of s t))" "t \<notin> set (blocked_threads s)" "t \<notin> set (delayed_threads s)"
  then show ?thesis
    using remove_ready [OF assms(1) placed(2) [OF assms]]
    by (auto simp: remove_own_def list_of_def drop_thread_def active_def remove1_idem split: thread_status.splits)
qed (use map_remove_other [OF lists_okD(1) [OF assms(1)], of t] in \<open>simp_all add: remove_own_def list_of_def drop_thread_def remove1_idem\<close>)

lemma drop_delayed:
  assumes "lists_ok s" and "t \<in> set (delayed_threads s)"
  shows "s\<lparr>delayed_threads := remove1 t (delayed_threads s)\<rparr> = drop_thread t s"
proof -
  have "in_lists s t" using assms(2) by (simp add: in_lists_def)
  then have "\<not> in_ready s t" "t \<notin> set (blocked_threads s)" using placed(1) [OF assms(1), of t] lists_okD(9) [OF assms] by (auto simp: active_def)
  then show ?thesis using map_remove_other [OF lists_okD(1) [OF assms(1)]] by (simp add: drop_thread_def remove1_idem)
qed

lemma drop_blocked:
  assumes "lists_ok s" and "t \<in> set (blocked_threads s)"
  shows "s\<lparr>blocked_threads := remove1 t (blocked_threads s)\<rparr> = drop_thread t s"
proof -
  have "in_lists s t" using assms(2) by (simp add: in_lists_def)
  then have "\<not> in_ready s t" "t \<notin> set (delayed_threads s)" using placed(1) [OF assms(1), of t] lists_okD(7) [OF assms] by (auto simp: active_def)
  then show ?thesis using map_remove_other [OF lists_okD(1) [OF assms(1)]] by (simp add: drop_thread_def remove1_idem)
qed

lemma drop_core:
  assumes "core_inv idle s" and "t \<noteq> idle"
  shows "core_inv idle (drop_thread t s)"
proof -
  have l: "lists_ok s" using assms(1) by (simp add: core_inv_def)
  have "ready_threads s ! p \<noteq> []" if "p < 6" "ready_threads (drop_thread t s) ! p \<noteq> []" for p
    using that drop_lists(5) [OF l] by auto
  moreover have "in_ready s u" if "in_ready (drop_thread t s) u" for u
    using that drop_lists(2,4) [OF l] by (cases "u = t") (auto simp: in_lists_def)
  ultimately show ?thesis
    using assms drop_lists(1) [OF l, of t] drop_lists(5) [OF l, of 0 t] by (auto simp: core_inv_def drop_thread_def)
qed

subsection \<open>Changing a thread that is in no list, and putting it back\<close>

lemma set_thread_free:
  assumes "core_inv idle s" and "\<not> in_lists s t"
  shows "core_inv idle (set_thread t th s)" and "in_lists (set_thread t th s) = in_lists s"
  using assms by (auto simp: core_inv_def lists_ok_def set_thread_def in_lists_def in_ready_def)

lemma push_own_ready:
  assumes "core_inv idle s" and "\<not> in_lists s t" and "status (thread_of s t) = Ready" and "priority (thread_of s t) < 6"
  defines "p \<equiv> priority (thread_of s t)"
  defines "s' \<equiv> update_max_ready_priority p (s\<lparr>ready_threads := (ready_threads s)[p := ready_threads s ! p @ [t]]\<rparr>)"
  shows "push_own t s = Some (s\<lparr>ready_threads := (ready_threads s)[p := ready_threads s ! p @ [t]]\<rparr>)"
    and "core_inv idle s'" and "in_lists s' u \<longleftrightarrow> in_lists s u \<or> u = t"
proof -
  show "push_own t s = Some (s\<lparr>ready_threads := (ready_threads s)[p := ready_threads s ! p @ [t]]\<rparr>)"
    using assms(3) by (simp add: push_own_def list_of_def p_def)
  have l: "lists_ok s" using assms(1) by (simp add: core_inv_def)
  have len: "length (ready_threads s) = 6" "p < 6" using lists_okD(1) [OF l] assms(4) by (simp_all add: p_def)
  have nth: "ready_threads s' ! q = (if q = p then ready_threads s ! p @ [t] else ready_threads s ! q)" if "q < 6" for q
    using len that by (simp add: s'_def update_max_ready_priority_def)
  have other: "thread_of s' = thread_of s" "blocked_threads s' = blocked_threads s" "delayed_threads s' = delayed_threads s"
      "length (ready_threads s') = 6" "max_ready_priority s' = max p (max_ready_priority s)" "current_thread s' = current_thread s"
    using len by (auto simp: s'_def update_max_ready_priority_def)
  have ready: "in_ready s' u \<longleftrightarrow> in_ready s u \<or> u = t" for u using len nth by (auto simp: in_ready_def split: if_splits)
  then show "in_lists s' u \<longleftrightarrow> in_lists s u \<or> u = t" by (auto simp: in_lists_def other)
  have "t \<notin> set (ready_threads s ! p)" using assms(2) len by (auto simp: in_lists_def in_ready_def)
  then have "lists_ok s'" using l assms(3) by (auto simp: lists_ok_def nth other p_def active_def)
  then show "core_inv idle s'"
    using assms(1,3) ready len nth by (auto simp: core_inv_def other max_def)
qed

lemma set_status_thread [simp]: "thread_of (set_status t st s) = (thread_of s)(t := (thread_of s t)\<lparr>status := st\<rparr>)"
  by (simp add: set_status_def set_thread_def)

text \<open>The state after a thread was made ready.\<close>

definition ready_state :: "nat \<Rightarrow> scheduler \<Rightarrow> scheduler" where
  "ready_state t s = (let p = priority (thread_of s t) in
     update_max_ready_priority p ((set_status t Ready s)\<lparr>ready_threads := (ready_threads s)[p := ready_threads s ! p @ [t]]\<rparr>))"

lemma make_ready_eq: "make_ready t s = Some (ready_state t s)"
  by (simp add: make_ready_def push_own_def list_of_def ready_state_def Let_def update_max_ready_priority_def set_status_def set_thread_def)

lemma ready_state_core:
  assumes "core_inv idle s" and "\<not> in_lists s t" and "priority (thread_of s t) < 6"
  shows "core_inv idle (ready_state t s)" and "in_lists (ready_state t s) u \<longleftrightarrow> in_lists s u \<or> u = t"
proof -
  have free: "core_inv idle (set_status t Ready s)" "\<not> in_lists (set_status t Ready s) t"
    using set_thread_free [OF assms(1,2)] assms(2) by (simp_all add: set_status_def)
  note r = push_own_ready [OF free]
  have eq: "ready_state t s = update_max_ready_priority (priority (thread_of (set_status t Ready s) t))
      ((set_status t Ready s)\<lparr>ready_threads := (ready_threads (set_status t Ready s))[priority (thread_of (set_status t Ready s) t) :=
         ready_threads (set_status t Ready s) ! priority (thread_of (set_status t Ready s) t) @ [t]]\<rparr>)"
    by (simp add: ready_state_def Let_def set_status_def set_thread_def)
  show "core_inv idle (ready_state t s)" unfolding eq by (rule r(2)) (use assms(3) in simp_all)
  have "in_lists (ready_state t s) u \<longleftrightarrow> in_lists (set_status t Ready s) u \<or> u = t" unfolding eq by (rule r(3)) (use assms(3) in simp_all)
  then show "in_lists (ready_state t s) u \<longleftrightarrow> in_lists s u \<or> u = t" using set_thread_free(2) [OF assms(1,2)] by (simp add: set_status_def)
qed

lemma ready_state_frame [simp]:
  "current_thread (ready_state t s) = current_thread s" "memory (ready_state t s) = memory s" "cpu_time (ready_state t s) = cpu_time s"
  "started (ready_state t s) = started s" "lock_depth (ready_state t s) = lock_depth s" "blocked_threads (ready_state t s) = blocked_threads s"
  "delayed_threads (ready_state t s) = delayed_threads s" "thread_of (ready_state t s) = (thread_of s)(t := (thread_of s t)\<lparr>status := Ready\<rparr>)"
  "ready_threads (ready_state t s) = (ready_threads s)[priority (thread_of s t) := ready_threads s ! priority (thread_of s t) @ [t]]"
  "yield_posted (ready_state t s) = yield_posted s"
  by (simp_all add: ready_state_def Let_def update_max_ready_priority_def set_status_def set_thread_def)

lemma drop_frame [simp]:
  "current_thread (drop_thread t s) = current_thread s" "memory (drop_thread t s) = memory s" "cpu_time (drop_thread t s) = cpu_time s"
  "started (drop_thread t s) = started s" "lock_depth (drop_thread t s) = lock_depth s" "blocked_threads (drop_thread t s) = remove1 t (blocked_threads s)"
  "delayed_threads (drop_thread t s) = remove1 t (delayed_threads s)" "thread_of (drop_thread t s) = thread_of s"
  "max_ready_priority (drop_thread t s) = max_ready_priority s" "yield_posted (drop_thread t s) = yield_posted s"
  by (simp_all add: drop_thread_def)

text \<open>A thread in no list goes to the blocked or to the delayed threads.\<close>

lemma hold_core:
  assumes "core_inv idle s" and "\<not> in_lists s t"
    and same: "ready_threads s' = ready_threads s" "max_ready_priority s' = max_ready_priority s" "current_thread s' = current_thread s"
      "thread_of s' = (thread_of s)(t := th)" and "priority th < 6"
    and hold: "set (blocked_threads s') = insert t (set (blocked_threads s)) \<and> distinct (blocked_threads s') \<and> delayed_threads s' = delayed_threads s \<and> status th = Blocked \<or>
      set (delayed_threads s') = insert t (set (delayed_threads s)) \<and> distinct (delayed_threads s') \<and> blocked_threads s' = blocked_threads s \<and> status th = Delayed"
  shows "core_inv idle s'" and "in_lists s' u \<longleftrightarrow> in_lists s u \<or> u = t"
proof -
  let ?s = "set_thread t th s"
  have c: "core_inv idle ?s" using set_thread_free [OF assms(1,2)] by simp
  have eq: "thread_of s' = thread_of ?s" "ready_threads s' = ready_threads ?s" "max_ready_priority s' = max_ready_priority ?s"
      "current_thread s' = current_thread ?s" "blocked_threads ?s = blocked_threads s" "delayed_threads ?s = delayed_threads s"
    by (simp_all add: same set_thread_def)
  have t: "thread_of ?s t = th" by (simp add: set_thread_def)
  have l: "lists_ok ?s" using c by (simp add: core_inv_def)
  have "lists_ok s'"
    using hold
  proof (elim disjE conjE)
    assume "set (blocked_threads s') = insert t (set (blocked_threads s))" "distinct (blocked_threads s')"
      "delayed_threads s' = delayed_threads s" "status th = Blocked"
    then show ?thesis using l t assms(7) unfolding lists_ok_def eq by simp
  next
    assume "set (delayed_threads s') = insert t (set (delayed_threads s))" "distinct (delayed_threads s')"
      "blocked_threads s' = blocked_threads s" "status th = Delayed"
    then show ?thesis using l t assms(7) unfolding lists_ok_def eq by simp
  qed
  moreover have "in_ready s' = in_ready ?s" by (simp add: in_ready_def eq fun_eq_iff)
  ultimately show "core_inv idle s'" using c unfolding core_inv_def eq by simp
  have "in_ready s' u = in_ready s u" by (simp add: in_ready_def same)
  then show "in_lists s' u \<longleftrightarrow> in_lists s u \<or> u = t" using hold unfolding in_lists_def by (elim disjE conjE) (simp, blast)+
qed

lemma block_core:
  assumes "core_inv idle s" and "\<not> in_lists s t" and "priority (thread_of s t) < 6"
  defines "s' \<equiv> set_status t Blocked (s\<lparr>blocked_threads := blocked_threads s @ [t]\<rparr>)"
  shows "core_inv idle s'" and "in_lists s' u \<longleftrightarrow> in_lists s u \<or> u = t"
proof -
  have "distinct (blocked_threads s)" "t \<notin> set (blocked_threads s)" using assms(1,2) by (simp_all add: core_inv_def lists_ok_def in_lists_def)
  then have "set (blocked_threads s') = insert t (set (blocked_threads s))" "distinct (blocked_threads s')" "delayed_threads s' = delayed_threads s"
      "ready_threads s' = ready_threads s" "max_ready_priority s' = max_ready_priority s" "current_thread s' = current_thread s"
      "thread_of s' = (thread_of s)(t := (thread_of s t)\<lparr>status := Blocked\<rparr>)"
    by (simp_all add: s'_def set_status_def set_thread_def)
  then show "core_inv idle s'" "in_lists s' u \<longleftrightarrow> in_lists s u \<or> u = t"
    using hold_core [OF assms(1,2), of s' "(thread_of s t)\<lparr>status := Blocked\<rparr>"] assms(3) by simp_all
qed

lemma insert_behind_set: "set (insert_behind w time t xs) = insert t (set xs)"
  by (induction xs) auto

lemma insert_behind_distinct: "t \<notin> set xs \<Longrightarrow> distinct xs \<Longrightarrow> distinct (insert_behind w time t xs)"
  by (induction xs) (auto simp: insert_behind_set)

definition delay_insert :: "(nat \<Rightarrow> int) \<Rightarrow> int \<Rightarrow> nat \<Rightarrow> nat list \<Rightarrow> nat list" where
  "delay_insert w time t xs = (case xs of pivot # ys \<Rightarrow> pivot # insert_behind w time t ys | [] \<Rightarrow> [t])"

lemma delay_insert_set: "set (delay_insert w time t xs) = insert t (set xs)"
  by (cases xs) (auto simp: delay_insert_def insert_behind_set)

lemma delay_insert_distinct: "t \<notin> set xs \<Longrightarrow> distinct xs \<Longrightarrow> distinct (delay_insert w time t xs)"
  by (cases xs) (auto simp: delay_insert_def insert_behind_set insert_behind_distinct)

lemma add_to_delay_eq: "add_to_delay_list t d s = s\<lparr>delayed_threads := delay_insert (\<lambda>t. wakeup_time (thread_of s t)) (cpu_time s + d) t (delayed_threads s),
    thread_of := (thread_of s)(t := (thread_of s t)\<lparr>wakeup_time := cpu_time s + d, status := Delayed\<rparr>)\<rparr>"
  by (simp add: add_to_delay_list_def Let_def delay_insert_def set_status_def set_thread_def)

lemma delay_core:
  assumes "core_inv idle s" and "\<not> in_lists s t" and "priority (thread_of s t) < 6"
  shows "core_inv idle (add_to_delay_list t d s)" and "in_lists (add_to_delay_list t d s) u \<longleftrightarrow> in_lists s u \<or> u = t"
proof -
  have "distinct (delayed_threads s)" "t \<notin> set (delayed_threads s)" using assms(1,2) by (simp_all add: core_inv_def lists_ok_def in_lists_def)
  then show "core_inv idle (add_to_delay_list t d s)" "in_lists (add_to_delay_list t d s) u \<longleftrightarrow> in_lists s u \<or> u = t"
    using hold_core [OF assms(1,2), of "add_to_delay_list t d s" "(thread_of s t)\<lparr>wakeup_time := cpu_time s + d, status := Delayed\<rparr>"] assms(3)
    by (simp_all add: add_to_delay_eq delay_insert_set delay_insert_distinct)
qed

subsection \<open>The choice of the next thread\<close>

lemma search_finds:
  assumes "low \<le> p" and "p \<le> i" and "ready ! p \<noteq> []" and "\<And>q. p < q \<Longrightarrow> q \<le> i \<Longrightarrow> ready ! q = []"
  shows "search_ready ready low i = Some (hd (ready ! p))"
  using assms
proof (induction i)
  case (Suc i)
  then show ?case by (cases "p = Suc i") auto
qed simp

lemma search_fails:
  assumes "\<And>q. low \<le> q \<Longrightarrow> q \<le> i \<Longrightarrow> ready ! q = []"
  shows "search_ready ready low i = None"
  using assms by (induction i) (auto simp: not_less)

lemma next_in_split: "distinct (as @ t # bs) \<Longrightarrow> next_in (as @ t # bs) t = (case bs of [] \<Rightarrow> None | b # _ \<Rightarrow> Some b)"
proof -
  assume "distinct (as @ t # bs)"
  then have "dropWhile (\<lambda>x. x \<noteq> t) (as @ t # bs) = t # bs" by (subst dropWhile_append2) auto
  then show ?thesis by (simp add: next_in_def split: list.splits)
qed

text \<open>The thread behind another in its list, and the first behind the last.\<close>

lemma next_or_front:
  assumes "distinct xs" and "j < length xs"
  shows "(case next_in xs (xs ! j) of Some n \<Rightarrow> Some n | None \<Rightarrow> (case xs of [] \<Rightarrow> None | t # _ \<Rightarrow> Some t)) = Some (xs ! (Suc j mod length xs))"
proof -
  have xs: "xs = take j xs @ xs ! j # drop (Suc j) xs" using assms(2) by (simp add: id_take_nth_drop)
  then have n: "next_in xs (xs ! j) = (case drop (Suc j) xs of [] \<Rightarrow> None | b # _ \<Rightarrow> Some b)"
    using assms(1) next_in_split [of "take j xs" "xs ! j" "drop (Suc j) xs"] by simp
  show ?thesis
  proof (cases "Suc j < length xs")
    case True
    then have "drop (Suc j) xs = xs ! Suc j # drop (Suc (Suc j)) xs" by (simp add: Cons_nth_drop_Suc)
    then show ?thesis using n True by simp
  next
    case False
    then have "Suc j = length xs" using assms(2) by simp
    then show ?thesis using n assms(2) by (cases xs) auto
  qed
qed

text \<open>The highest priority with a ready thread.\<close>

definition top_priority :: "scheduler \<Rightarrow> nat" where
  "top_priority s = Max {p. p < 6 \<and> ready_threads s ! p \<noteq> []}"

lemma top_priority:
  assumes "core_inv idle s"
  shows "top_priority s < 6" "ready_threads s ! top_priority s \<noteq> []" "p < 6 \<Longrightarrow> ready_threads s ! p \<noteq> [] \<Longrightarrow> p \<le> top_priority s"
    "top_priority s \<le> max_ready_priority s"
proof -
  let ?P = "{p. p < 6 \<and> ready_threads s ! p \<noteq> []}"
  have "0 \<in> ?P" "finite ?P" using assms by (auto simp: core_inv_def)
  then have "?P \<noteq> {}" by blast
  with \<open>finite ?P\<close> have "Max ?P \<in> ?P" by (rule Max_in)
  moreover have "p \<le> Max ?P" if "p \<in> ?P" for p using \<open>finite ?P\<close> that by (rule Max_ge)
  ultimately show *: "top_priority s < 6" "ready_threads s ! top_priority s \<noteq> []" "p < 6 \<Longrightarrow> ready_threads s ! p \<noteq> [] \<Longrightarrow> p \<le> top_priority s"
    by (auto simp: top_priority_def)
  then show "top_priority s \<le> max_ready_priority s" using assms by (simp add: core_inv_def)
qed

lemma select_search:
  assumes core: "core_inv idle s" and c: "current_thread s = Some c" "in_lists s c"
    and "status (thread_of s c) \<noteq> Running \<or> max_ready_priority s > priority (thread_of s c)"
  shows "select_next_thread s = Some (hd (ready_threads s ! top_priority s))"
proof -
  note top = top_priority [OF core]
  have l: "lists_ok s" and max: "max_ready_priority s < 6" using core by (simp_all add: core_inv_def)
  have none: "ready_threads s ! q = []" if "top_priority s < q" "q \<le> max_ready_priority s" for q
    using top(3) [of q] that max by (cases "ready_threads s ! q = []") auto
  have "priority (thread_of s c) \<le> top_priority s" if "status (thread_of s c) = Running"
  proof -
    have "c \<in> set (ready_threads s ! priority (thread_of s c))" "priority (thread_of s c) < 6"
      using placed [OF l c(2)] that by (auto simp: active_def)
    then show ?thesis by (intro top(3)) auto
  qed
  then have "search_ready (ready_threads s) (if status (thread_of s c) \<noteq> Running then 0 else priority (thread_of s c)) (max_ready_priority s) =
      Some (hd (ready_threads s ! top_priority s))"
    using search_finds [OF _ top(4,2)] none by simp
  then show ?thesis using assms(4) c(1) unfolding select_next_thread_def by (auto simp: Let_def)
qed

lemma select_round_robin:
  assumes core: "core_inv idle s" and c: "current_thread s = Some c" "in_lists s c"
    and "status (thread_of s c) = Running" and "max_ready_priority s \<le> priority (thread_of s c)"
  shows "top_priority s = priority (thread_of s c)" and "max_ready_priority s = priority (thread_of s c)"
    and "j < length (ready_threads s ! top_priority s) \<Longrightarrow> ready_threads s ! top_priority s ! j = c \<Longrightarrow>
      select_next_thread s = Some (ready_threads s ! top_priority s ! (Suc j mod length (ready_threads s ! top_priority s)))"
proof -
  note top = top_priority [OF core]
  have l: "lists_ok s" using core by (simp add: core_inv_def)
  have mem: "c \<in> set (ready_threads s ! priority (thread_of s c))" "priority (thread_of s c) < 6"
    using placed [OF l c(2)] assms(4) by (auto simp: active_def)
  then have "ready_threads s ! priority (thread_of s c) \<noteq> []" by auto
  then show eq: "top_priority s = priority (thread_of s c)" "max_ready_priority s = priority (thread_of s c)"
    using top(3) [OF mem(2)] top(4) assms(5) by simp_all
  assume j: "j < length (ready_threads s ! top_priority s)" "ready_threads s ! top_priority s ! j = c"
  have "distinct (ready_threads s ! top_priority s)" using lists_okD(2) [OF l] top(1) by simp
  note next_or_front [OF this j(1)]
  then show "select_next_thread s = Some (ready_threads s ! top_priority s ! (Suc j mod length (ready_threads s ! top_priority s)))"
    using assms(4,5) c(1) j(2) by (simp add: select_next_thread_def Let_def list_of_def eq(1) cong: option.case_cong)
qed

lemma select_top:
  assumes core: "core_inv idle s" and c: "current_thread s = Some c" "in_lists s c"
  shows "\<exists>n. select_next_thread s = Some n \<and> n \<in> set (ready_threads s ! top_priority s)"
proof (cases "status (thread_of s c) \<noteq> Running \<or> max_ready_priority s > priority (thread_of s c)")
  case True
  then show ?thesis using select_search [OF assms] top_priority(2) [OF core] by auto
next
  case False
  then have f: "status (thread_of s c) = Running" "max_ready_priority s \<le> priority (thread_of s c)" by auto
  note rr = select_round_robin [OF assms f]
  have "c \<in> set (ready_threads s ! top_priority s)"
    using placed [OF _ c(2)] core f(1) rr(1) by (auto simp: active_def core_inv_def)
  then obtain j where j: "j < length (ready_threads s ! top_priority s)" "ready_threads s ! top_priority s ! j = c" by (auto simp: in_set_conv_nth)
  then have "Suc j mod length (ready_threads s ! top_priority s) < length (ready_threads s ! top_priority s)" by (intro mod_less_divisor) auto
  then show ?thesis using rr(3) [OF j] by simp
qed

subsection \<open>Changing the current thread\<close>

text \<open>Statuses of ready threads that change between ready and running.\<close>

lemma set_current_eq:
  assumes "current_thread s = Some c" and "c \<noteq> n"
  shows "set_current_thread n s = Some (s\<lparr>max_ready_priority := priority (thread_of s n), current_thread := Some n,
    thread_of := (thread_of s)(c := (if status (thread_of s c) = Running then (thread_of s c)\<lparr>status := Ready\<rparr> else thread_of s c),
      n := (thread_of s n)\<lparr>status := Running\<rparr>)\<rparr>)"
  using assms by (auto simp: set_current_thread_def Let_def set_status_def set_thread_def intro!: scheduler.equality)

lemma switch_to:
  assumes core: "core_inv idle s" and c: "current_thread s = Some c" and n: "n \<in> set (ready_threads s ! top_priority s)" "c \<noteq> n"
  shows "\<exists>s'. set_current_thread n s = Some s' \<and> sched_inv idle (s'\<lparr>started := True\<rparr>) \<and> current_thread s' = Some n \<and>
    ready_threads s' = ready_threads s \<and> max_ready_priority s' = top_priority s \<and> status (thread_of s' n) = Running \<and> lock_depth s' = lock_depth s \<and>
    started s' = started s \<and> (\<forall>t. priority (thread_of s' t) = priority (thread_of s t))"
proof -
  note top = top_priority [OF core]
  have l: "lists_ok s" using core by (simp add: core_inv_def)
  have pn: "priority (thread_of s n) = top_priority s" using lists_okD(5) [OF l top(1) n(1)] .
  define f where "f = (thread_of s)(c := (if status (thread_of s c) = Running then (thread_of s c)\<lparr>status := Ready\<rparr> else thread_of s c),
      n := (thread_of s n)\<lparr>status := Running\<rparr>)"
  let ?s' = "s\<lparr>max_ready_priority := top_priority s, current_thread := Some n, thread_of := f\<rparr>"
  have pr: "priority (f t) = priority (thread_of s t)" for t by (simp add: f_def)
  have act: "active (status (f t)) = active (status (thread_of s t))" "status (f t) = Blocked \<longleftrightarrow> status (thread_of s t) = Blocked"
      "status (f t) = Delayed \<longleftrightarrow> status (thread_of s t) = Delayed" for t
    using lists_okD(6) [OF l top(1) n(1)] by (auto simp: f_def active_def)
  have ready: "status (f t) = Ready" if "in_ready s t" "t \<noteq> n" for t
  proof (cases "t = c")
    case True
    moreover have "active (status (thread_of s t))" using that(1) lists_okD(6) [OF l] by (auto simp: in_ready_def)
    ultimately show ?thesis using that(2) by (auto simp: f_def active_def)
  next
    case False
    then show ?thesis using core c that by (auto simp: core_inv_def f_def)
  qed
  have "lists_ok ?s'" using l by (simp add: lists_ok_def pr act)
  moreover have "in_ready ?s' = in_ready s" by (simp add: in_ready_def fun_eq_iff)
  ultimately have "core_inv idle ?s'" using core top(1,3) ready by (simp add: core_inv_def)
  moreover have "in_lists ?s' n" using n(1) top(1) by (auto simp: in_lists_def in_ready_def)
  ultimately have "sched_inv idle (?s'\<lparr>started := True\<rparr>)"
    using top(2) by (auto simp: sched_inv_def core_inv_def lists_ok_def current_ok_def in_lists_def in_ready_def)
  moreover have "status (f n) = Running" by (simp add: f_def)
  ultimately show ?thesis
    using set_current_eq [OF c n(2)] pn pr by (simp add: f_def [symmetric])
qed

lemma switch_inv:
  assumes "core_inv idle s" and "started s" and "current_thread s = Some c" and "in_lists s c"
    and "status (thread_of s c) = Running \<longrightarrow> ready_threads s ! max_ready_priority s \<noteq> []"
  shows "\<exists>s'. switch_task s = Some s' \<and> sched_inv idle s'"
proof (cases "lock_depth s = 0")
  case True
  obtain n where n: "select_next_thread s = Some n" "n \<in> set (ready_threads s ! top_priority s)" using select_top [OF assms(1,3,4)] by auto
  show ?thesis
  proof (cases "n = c")
    case True
    then show ?thesis using n assms \<open>lock_depth s = 0\<close> by (auto simp: switch_task_def sched_inv_def current_ok_def)
  next
    case False
    then obtain s' where "set_current_thread n s = Some s'" "sched_inv idle (s'\<lparr>started := True\<rparr>)" "started s' = started s"
      using switch_to [OF assms(1,3) n(2)] by auto
    moreover have "s'\<lparr>started := True\<rparr> = s'" using calculation(3) assms(2) by (cases s') simp
    ultimately show ?thesis using n False assms(3) \<open>lock_depth s = 0\<close> by (simp add: switch_task_def)
  qed
next
  case False
  then show ?thesis using assms by (auto simp: switch_task_def sched_inv_def current_ok_def)
qed

subsection \<open>Every operation keeps the invariant\<close>

text \<open>What the invariant does not depend on.\<close>

lemma core_cong:
  assumes "ready_threads s' = ready_threads s" and "blocked_threads s' = blocked_threads s" and "delayed_threads s' = delayed_threads s"
    and "max_ready_priority s' = max_ready_priority s" and "current_thread s' = current_thread s"
    and "\<And>t. priority (thread_of s' t) = priority (thread_of s t) \<and> status (thread_of s' t) = status (thread_of s t)"
  shows "core_inv idle s' = core_inv idle s" and "in_lists s' = in_lists s" and "current_ok s' = current_ok s"
  using assms by (simp_all add: core_inv_def lists_ok_def in_lists_def in_ready_def fun_eq_iff current_ok_def)

lemma inv_cong:
  assumes "ready_threads s' = ready_threads s" and "blocked_threads s' = blocked_threads s" and "delayed_threads s' = delayed_threads s"
    and "max_ready_priority s' = max_ready_priority s" and "current_thread s' = current_thread s" and "started s' = started s"
    and "\<And>t. priority (thread_of s' t) = priority (thread_of s t) \<and> status (thread_of s' t) = status (thread_of s t)"
  shows "sched_inv idle s' = sched_inv idle s"
  using core_cong [OF assms(1-5,7)] assms(6) by (simp add: sched_inv_def)

lemma yield_inv: "sched_inv idle s \<Longrightarrow> \<exists>s'. yield s = Some s' \<and> sched_inv idle s'"
  using switch_inv by (auto simp: yield_def sched_inv_def current_ok_def)

lemma waiting_not_idle: "core_inv idle s \<Longrightarrow> t \<in> set (blocked_threads s) \<or> t \<in> set (delayed_threads s) \<Longrightarrow> t \<noteq> idle"
proof
  assume core: "core_inv idle s" and t: "t \<in> set (blocked_threads s) \<or> t \<in> set (delayed_threads s)" and "t = idle"
  then have "lists_ok s" "idle \<in> set (ready_threads s ! 0)" by (simp_all add: core_inv_def)
  then show False using t \<open>t = idle\<close> lists_okD(6) [of s 0 t] lists_okD(7,9) [of s t] by (auto simp: active_def)
qed

text \<open>A thread that becomes ready keeps a thread with the recorded priority.\<close>

lemma ready_state_max:
  assumes "core_inv idle s" and "priority (thread_of s t) < 6" and "ready_threads s ! max_ready_priority s \<noteq> []"
  shows "ready_threads (ready_state t s) ! max_ready_priority (ready_state t s) \<noteq> []"
proof -
  have "length (ready_threads s) = 6" "max_ready_priority s < 6" using assms(1) by (simp_all add: core_inv_def lists_ok_def)
  then show ?thesis
    using assms(2,3) by (simp add: ready_state_def Let_def update_max_ready_priority_def set_status_def set_thread_def nth_list_update)
qed

lemma ready_state_inv:
  assumes "core_inv idle s" and "started s" and "\<not> in_lists s t" and "priority (thread_of s t) < 6"
    and c: "current_thread s = Some c" "in_lists s c \<or> c = t" "c \<noteq> t \<Longrightarrow> status (thread_of s c) = Running \<longrightarrow> ready_threads s ! max_ready_priority s \<noteq> []"
  shows "sched_inv idle (ready_state t s)"
  using ready_state_core [OF assms(1,3,4)] ready_state_max [OF assms(1,4)] assms(2) c by (auto simp: sched_inv_def current_ok_def)

lemma move_ready_inv:
  assumes inv: "sched_inv idle s" and t: "t \<in> set (blocked_threads s) \<or> t \<in> set (delayed_threads s)"
  shows "sched_inv idle (ready_state t (drop_thread t s))"
proof -
  have core: "core_inv idle s" "lists_ok s" using inv by (simp_all add: sched_inv_def core_inv_def)
  obtain c where c: "current_thread s = Some c" "in_lists s c" "status (thread_of s c) = Running \<longrightarrow> ready_threads s ! max_ready_priority s \<noteq> []"
    using inv by (auto simp: sched_inv_def current_ok_def)
  have in_t: "in_lists s t" "\<not> in_ready s t" using t placed(1) [OF core(2), of t] lists_okD(7,9) [OF core(2), of t] by (auto simp: in_lists_def active_def)
  have max: "max_ready_priority s < 6" using core(1) by (simp add: core_inv_def)
  then have "ready_threads (drop_thread t s) ! max_ready_priority s = ready_threads s ! max_ready_priority s"
    using drop_lists(5) [OF core(2) max] in_t(2) by (auto simp: in_ready_def remove1_idem)
  then show ?thesis
    using drop_core [OF core(1) waiting_not_idle [OF core(1) t]] drop_lists [OF core(2)] placed(2) [OF core(2) in_t(1)] inv c
    by (intro ready_state_inv [of idle _ t c]) (auto simp: sched_inv_def)
qed

lemma wakeup_loop_inv:
  assumes "sched_inv idle s" and "set ts \<subseteq> set (delayed_threads s)" and "distinct ts"
  shows "\<exists>s'. wakeup_loop now ts s = Some s' \<and> sched_inv idle s' \<and> lock_depth s' = lock_depth s"
  using assms
proof (induction ts arbitrary: s)
  case (Cons t ts)
  let ?s = "ready_state t (drop_thread t s)"
  have l: "lists_ok s" using Cons.prems(1) by (simp add: sched_inv_def core_inv_def)
  have "sched_inv idle ?s" using move_ready_inv [OF Cons.prems(1), of t] Cons.prems(2) by simp
  moreover have "set ts \<subseteq> set (delayed_threads ?s)" using Cons.prems(2,3) lists_okD(4) [OF l] by auto
  ultimately show ?case
    using Cons.IH [of ?s] Cons.prems drop_delayed [OF l, of t] by (simp add: make_ready_eq)
qed auto

lemma unblock_loop_inv:
  assumes "sched_inv idle s" and "set ts \<subseteq> set (blocked_threads s)" and "distinct ts"
  shows "\<exists>b' s'. unblock_loop address all ts b s = Some (b', s') \<and> sched_inv idle s'"
  using assms
proof (induction ts arbitrary: s b)
  case (Cons t ts)
  let ?w = "set_thread t ((thread_of s t)\<lparr>wait_address := None\<rparr>) s"
  let ?s = "ready_state t (drop_thread t ?w)"
  have w: "sched_inv idle ?w" using Cons.prems(1) inv_cong [of ?w s] by (simp add: set_thread_def)
  then have l: "lists_ok ?w" by (simp add: sched_inv_def core_inv_def)
  have bl: "blocked_threads ?w = blocked_threads s" by (simp add: set_thread_def)
  have "sched_inv idle ?s" using move_ready_inv [OF w, of t] Cons.prems(2) bl by simp
  moreover have "set ts \<subseteq> set (blocked_threads ?s)" using Cons.prems(2,3) lists_okD(3) [OF l] bl by auto
  ultimately show ?case
    using Cons.IH [of ?s] Cons.IH [of s] Cons.prems drop_blocked [OF l, of t] bl by (cases all) (auto simp: make_ready_eq Let_def)
qed auto

text \<open>The current thread goes to another list; then another thread runs.\<close>

lemma park_inv:
  assumes inv: "sched_inv idle s" and c: "current_thread s = Some c" "c \<noteq> idle"
    and s1: "core_inv idle s1" "in_lists s1 c" "started s1" "current_thread s1 = Some c" "status (thread_of s1 c) \<noteq> Running"
  shows "\<exists>s'. yield s1 = Some s' \<and> sched_inv idle s'"
  using switch_inv [OF s1(1,3,4,2)] s1(5) by (simp add: yield_def)

lemma dropped:
  assumes inv: "sched_inv idle s" and c: "current_thread s = Some c" "c \<noteq> idle"
  shows "remove_own c s = Some (drop_thread c s)" and "core_inv idle (drop_thread c s)" and "\<not> in_lists (drop_thread c s) c"
    and "priority (thread_of s c) < 6"
proof -
  have core: "core_inv idle s" "lists_ok s" "in_lists s c" using inv c by (auto simp: sched_inv_def core_inv_def current_ok_def)
  show "remove_own c s = Some (drop_thread c s)" using remove_own_drop [OF core(2,3)] .
  show "core_inv idle (drop_thread c s)" using drop_core [OF core(1) c(2)] .
  show "\<not> in_lists (drop_thread c s) c" using drop_lists(2) [OF core(2)] .
  show "priority (thread_of s c) < 6" using placed(2) [OF core(2,3)] .
qed

lemma delay_inv:
  assumes inv: "sched_inv idle s" and c: "current_thread s = Some c" "c \<noteq> idle"
  shows "\<exists>s'. delay_current_thread d s = Some s' \<and> sched_inv idle s'"
proof -
  note d = dropped [OF assms]
  have "started s" using inv by (simp add: sched_inv_def)
  then show ?thesis
    using park_inv [OF assms, of "add_to_delay_list c d (drop_thread c s)"] delay_core [OF d(2,3)] d c
    by (simp add: delay_current_thread_def add_to_delay_eq)
qed

lemma block_inv:
  assumes inv: "sched_inv idle s" and c: "current_thread s = Some c" "c \<noteq> idle"
  shows "\<exists>r s'. block_current_thread address old duration s = Some (r, s') \<and> sched_inv idle s'"
proof (cases "memory s address = old")
  case True
  let ?w = "set_thread c ((thread_of s c)\<lparr>wait_address := Some address\<rparr>) s"
  have w: "sched_inv idle ?w" "current_thread ?w = Some c" "started s" using inv inv_cong [of ?w s] c by (auto simp: set_thread_def sched_inv_def)
  note d = dropped [OF w(1,2) c(2)]
  let ?s1 = "case duration of None \<Rightarrow> set_status c Blocked (drop_thread c ?w\<lparr>blocked_threads := blocked_threads (drop_thread c ?w) @ [c]\<rparr>)
    | Some d \<Rightarrow> add_to_delay_list c d (drop_thread c ?w)"
  have "core_inv idle ?s1 \<and> in_lists ?s1 c \<and> started ?s1 \<and> current_thread ?s1 = Some c \<and> status (thread_of ?s1 c) \<noteq> Running"
  proof (cases duration)
    case None
    then show ?thesis using block_core [OF d(2,3)] d(4) w by (simp add: set_status_def set_thread_def)
  next
    case (Some x)
    then show ?thesis using delay_core [OF d(2,3)] d(4) w by (simp add: add_to_delay_eq set_thread_def)
  qed
  then obtain s' where "yield ?s1 = Some s'" "sched_inv idle s'" using park_inv [OF w(1,2) c(2), of ?s1] by auto
  then show ?thesis using True c(1) d(1) by (simp add: block_current_thread_def Let_def)
next
  case False
  then show ?thesis using assms by (simp add: block_current_thread_def)
qed

lemma create_inv:
  assumes inv: "sched_inv idle s" and t: "\<not> in_lists s t" "p \<le> max_priority"
  shows "\<exists>s'. create_thread t p a w s = Some s' \<and> sched_inv idle s'"
proof -
  let ?th = "\<lparr>priority = p, status = Ready, wait_address = a, wakeup_time = w, on_scheduler = True\<rparr>"
  let ?s = "set_thread t ?th s"
  have core: "core_inv idle s" "started s" using inv by (simp_all add: sched_inv_def)
  obtain c where c: "current_thread s = Some c" "in_lists s c" "status (thread_of s c) = Running \<longrightarrow> ready_threads s ! max_ready_priority s \<noteq> []"
    using inv by (auto simp: sched_inv_def current_ok_def)
  have "c \<noteq> t" using c(2) t(1) by auto
  note free = set_thread_free [OF core(1) t(1), of ?th]
  have "sched_inv idle (ready_state t ?s)"
    using free core(2) c t \<open>c \<noteq> t\<close> by (intro ready_state_inv [of idle ?s t c]) (auto simp: set_thread_def max_priority_def)
  moreover have "create_thread t p a w s = yield (ready_state t ?s)"
    using core(2) by (auto simp: create_thread_def attach_thread_def push_own_def list_of_def ready_state_def Let_def
        update_max_ready_priority_def set_status_def set_thread_def intro!: arg_cong [of _ _ yield] scheduler.equality)
  ultimately show ?thesis using yield_inv by auto
qed

subsection \<open>The end of a thread\<close>

lemma detach_eq:
  assumes "sched_inv idle s" and "current_thread s = Some c" and "c \<noteq> idle"
  shows "detach_thread c s = Some (set_thread c ((thread_of s c)\<lparr>on_scheduler := False\<rparr>)
    ((drop_thread c s)\<lparr>max_ready_priority := (if priority (thread_of s c) = max_ready_priority s then idle_priority else max_ready_priority s)\<rparr>))"
  using dropped(1) [OF assms] by (auto simp: detach_thread_def Let_def set_thread_def intro!: scheduler.equality)

lemma next_in_absent: "t \<notin> set xs \<Longrightarrow> next_in xs t = None"
  by (induction xs) (simp_all add: next_in_def)

lemma other_ready:
  assumes "lists_ok s" and "p < 6" and "c \<noteq> t" and "t \<in> set (ready_threads s ! p)"
  shows "remove1 c (ready_threads s ! p) \<noteq> []"
  using assms(3,4) by (metis empty_iff in_set_remove1 list.set(1))

text \<open>The state in which the current thread has left the lists; the recorded priority is that of the code when \<open>m\<close> is.\<close>

definition ended :: "nat \<Rightarrow> nat \<Rightarrow> scheduler \<Rightarrow> scheduler" where
  "ended c m s = set_thread c ((thread_of s c)\<lparr>on_scheduler := False\<rparr>)
     ((drop_thread c s)\<lparr>max_ready_priority := m\<rparr>)"

lemma ended_frame [simp]:
  "ready_threads (ended c m s) = ready_threads (drop_thread c s)" "max_ready_priority (ended c m s) = m" "lock_depth (ended c m s) = lock_depth s"
  "current_thread (ended c m s) = current_thread s" "started (ended c m s) = started s" "priority (thread_of (ended c m s) t) = priority (thread_of s t)"
  "status (thread_of (ended c m s) t) = status (thread_of s t)" "blocked_threads (ended c m s) = blocked_threads (drop_thread c s)"
  "delayed_threads (ended c m s) = delayed_threads (drop_thread c s)"
  by (simp_all add: ended_def set_thread_def)

lemma ended_core:
  assumes "sched_inv idle s" and "current_thread s = Some c" and "c \<noteq> idle"
  shows "core_inv idle (ended c (max_ready_priority s) s)" and "\<not> in_lists (ended c m s) c"
proof -
  note d = dropped [OF assms]
  have "ended c (max_ready_priority s) s = set_thread c ((thread_of s c)\<lparr>on_scheduler := False\<rparr>) (drop_thread c s)"
    by (simp add: ended_def set_thread_def drop_thread_def)
  then show "core_inv idle (ended c (max_ready_priority s) s)" using set_thread_free(1) [OF d(2,3)] by simp
  show "\<not> in_lists (ended c m s) c" using d(3) by (simp add: in_lists_def in_ready_def)
qed

lemma exit_eq:
  assumes "sched_inv idle s" and "current_thread s = Some c" and "c \<noteq> idle"
  shows "exit_thread s = switch_task (ended c (if priority (thread_of s c) = max_ready_priority s then 0 else max_ready_priority s) s)"
  using detach_eq [OF assms] assms(2) by (simp add: exit_thread_def yield_def ended_def idle_priority_def)

text \<open>Once a thread of the highest priority is found, it runs.\<close>

lemma ended_switch:
  assumes inv: "sched_inv idle s" and c: "current_thread s = Some c" "c \<noteq> idle" and unlocked: "lock_depth s = 0"
    and n: "select_next_thread (ended c m s) = Some n" "n \<in> set (remove1 c (ready_threads s ! q))" "top_priority (ended c (max_ready_priority s) s) = q"
  shows "\<exists>s'. switch_task (ended c m s) = Some s' \<and> sched_inv idle s' \<and> \<not> in_lists s' c \<and> current_thread s' \<noteq> Some c"
proof -
  let ?d = "ended c (max_ready_priority s) s"
  note core = ended_core [OF inv c]
  have l: "lists_ok s" and st: "started s" using inv by (simp_all add: sched_inv_def core_inv_def)
  have q: "q < 6" using top_priority(1) [OF core(1)] n(3) by simp
  have mem: "n \<in> set (ready_threads ?d ! top_priority ?d)" using n drop_lists(5) [OF l q] by simp
  then have "n \<noteq> c" using core(2) [of "max_ready_priority s"] q n(3) by (auto simp: in_lists_def in_ready_def)
  then obtain s' where s': "set_current_thread n ?d = Some s'" "sched_inv idle (s'\<lparr>started := True\<rparr>)" "started s' = started ?d" "current_thread s' = Some n"
    using switch_to [OF core(1) _ mem, of c] c(1) by auto
  have "s'\<lparr>started := True\<rparr> = s'" using s'(3) st by (cases s') simp
  moreover have "set_current_thread n (ended c m s) = set_current_thread n ?d"
    using set_current_eq [of ?d c n] set_current_eq [of "ended c m s" c n] c(1) \<open>n \<noteq> c\<close> by (simp add: ended_def set_thread_def)
  moreover have "\<not> in_lists s' c"
    using s'(1) core(2) [of "max_ready_priority s"] set_current_eq [of ?d c n] c(1) \<open>n \<noteq> c\<close> by (auto simp: in_lists_def in_ready_def)
  ultimately show ?thesis using s' n(1) c(1) \<open>n \<noteq> c\<close> unlocked by (simp add: switch_task_def)
qed

definition other_at_least :: "nat \<Rightarrow> nat \<Rightarrow> scheduler \<Rightarrow> bool" where
  "other_at_least c p s \<longleftrightarrow> (\<exists>t. in_ready s t \<and> t \<noteq> c \<and> priority (thread_of s t) \<ge> p)"

lemma ready_code [code]:
  "in_ready s t \<longleftrightarrow> list_ex (\<lambda>p. t \<in> set (ready_threads s ! p)) [0..<6]"
  "other_at_least c p s \<longleftrightarrow> list_ex (\<lambda>q. list_ex (\<lambda>t. t \<noteq> c \<and> priority (thread_of s t) \<ge> p) (ready_threads s ! q)) [0..<6]"
  by (auto simp: in_ready_def other_at_least_def list_ex_iff Bex_def)

lemma other_at_least_I:
  assumes "lists_ok s" and "q < 6" and "p \<le> q" and "remove1 c (ready_threads s ! q) \<noteq> []"
  shows "other_at_least c p s"
proof -
  obtain t where "t \<in> set (remove1 c (ready_threads s ! q))" using assms(4) by (metis list.set_intros(1) neq_Nil_conv)
  moreover have "distinct (ready_threads s ! q)" using lists_okD(2) [OF assms(1,2)] .
  ultimately have "t \<in> set (ready_threads s ! q)" "t \<noteq> c" by auto
  then show ?thesis using lists_okD(5) [OF assms(1,2)] assms(2,3) by (auto simp: in_ready_def other_at_least_def)
qed

text \<open>The current thread ends: the next thread is found among those of its own or a higher priority only.\<close>

lemma exit_cases:
  assumes inv: "sched_inv idle s" and c: "current_thread s = Some c" "c \<noteq> idle" "status (thread_of s c) = Running" and unlocked: "lock_depth s = 0"
  shows "(\<exists>s'. exit_thread s = Some s' \<and> sched_inv idle s' \<and> \<not> in_lists s' c \<and> current_thread s' \<noteq> Some c) \<and> other_at_least c (priority (thread_of s c)) s \<or>
    exit_thread s = None \<and> \<not> other_at_least c (priority (thread_of s c)) s"
proof -
  let ?p = "priority (thread_of s c)" and ?m = "max_ready_priority s"
  let ?d = "ended c ?m s"
  note core = ended_core [OF inv c(1,2)] and p = dropped(4) [OF inv c(1,2)]
  note top = top_priority [OF core(1)]
  have l: "lists_ok s" and max: "?m < 6" "\<And>p. p < 6 \<Longrightarrow> ready_threads s ! p \<noteq> [] \<Longrightarrow> p \<le> ?m" and st: "ready_threads s ! ?m \<noteq> []" "in_lists s c"
    using inv c(1,3) by (auto simp: sched_inv_def core_inv_def current_ok_def)
  have nth: "ready_threads ?d ! q = remove1 c (ready_threads s ! q)" if "q < 6" for q using drop_lists(5) [OF l that] by simp
  have "c \<in> set (ready_threads s ! ?p)" using placed [OF l st(2)] c(3) by (auto simp: active_def)
  then have "ready_threads s ! ?p \<noteq> []" by auto
  then have cp: "?p \<le> ?m" by (rule max(2) [OF p])
  show ?thesis
  proof (cases "?p = ?m")
    case True
    have "c \<notin> set (remove1 c (ready_threads s ! ?p))" using lists_okD(2) [OF l p] by simp
    then have sel: "select_next_thread (ended c 0 s) = (case remove1 c (ready_threads s ! ?p) of [] \<Rightarrow> None | t # _ \<Rightarrow> Some t)"
      using c(1,3) nth [OF p] by (simp add: select_next_thread_def Let_def list_of_def next_in_absent)
    show ?thesis
    proof (cases "remove1 c (ready_threads s ! ?p)")
      case Nil
      have "q < ?p" if "q < 6" "t \<in> set (ready_threads s ! q)" "t \<noteq> c" for q t
      proof -
        have "ready_threads s ! q \<noteq> []" using that(2) by auto
        then have "q \<le> ?p" using max(2) [OF that(1)] True by simp
        moreover have "q \<noteq> ?p" using Nil other_ready [OF l p, of c t] that by auto
        ultimately show ?thesis by simp
      qed
      then have "\<not> other_at_least c ?p s" using lists_okD(5) [OF l] by (fastforce simp: other_at_least_def in_ready_def)
      then show ?thesis using exit_eq [OF inv c(1,2)] sel Nil True c(1) unlocked by (simp add: switch_task_def)
    next
      case (Cons n ns)
      have "ready_threads s ! top_priority ?d \<noteq> []" using top(1,2) nth [of "top_priority ?d"] by auto
      then have "top_priority ?d = ?p" using top(3) [OF p] nth [OF p] Cons max(2) [OF top(1)] True by simp
      then show ?thesis
        using ended_switch [OF inv c(1,2) unlocked, of 0 n ?p] sel Cons exit_eq [OF inv c(1,2)] True other_at_least_I [OF l p, of ?p c] by simp
    qed
  next
    case False
    have "c \<notin> set (ready_threads s ! ?m)" using lists_okD(5) [OF l max(1), of c] False by auto
    then have m: "remove1 c (ready_threads s ! ?m) = ready_threads s ! ?m" by (simp add: remove1_idem)
    have tm: "top_priority ?d = ?m" using top(3) [OF max(1)] top(4) nth [OF max(1)] m st(1) by simp
    have "search_ready (ready_threads ?d) ?p ?m = Some (hd (ready_threads s ! ?m))"
      using search_finds [of ?p ?m ?m "ready_threads ?d"] cp nth [OF max(1)] m st(1) by simp
    then have "select_next_thread ?d = Some (hd (ready_threads s ! ?m))" using False cp c(1,3) by (simp add: select_next_thread_def Let_def)
    then show ?thesis
      using ended_switch [OF inv c(1,2) unlocked _ _ tm] exit_eq [OF inv c(1,2)] False m st(1) other_at_least_I [OF l max(1) cp, of c] by simp
  qed
qed

subsection \<open>Taking turns\<close>

definition running :: "scheduler \<Rightarrow> nat \<Rightarrow> bool" where
  "running s c \<longleftrightarrow> current_thread s = Some c \<and> status (thread_of s c) = Running"

lemma top_eq: "ready_threads s' = ready_threads s \<Longrightarrow> top_priority s' = top_priority s"
  by (simp add: top_priority_def)

lemma switch_round_robin:
  assumes inv: "sched_inv idle s" and "lock_depth s = 0" and "max_ready_priority s = top_priority s"
    and j: "j < length (ready_threads s ! top_priority s)" and run: "running s (ready_threads s ! top_priority s ! j)"
  shows "\<exists>s'. switch_task s = Some s' \<and> sched_inv idle s' \<and> lock_depth s' = 0 \<and> ready_threads s' = ready_threads s \<and>
    max_ready_priority s' = top_priority s \<and> running s' (ready_threads s ! top_priority s ! (Suc j mod length (ready_threads s ! top_priority s)))"
proof -
  let ?xs = "ready_threads s ! top_priority s"
  let ?c = "?xs ! j" and ?n = "?xs ! (Suc j mod length ?xs)"
  have core: "core_inv idle s" "lists_ok s" "started s" using inv by (simp_all add: sched_inv_def core_inv_def)
  have c: "current_thread s = Some ?c" "status (thread_of s ?c) = Running" using run by (simp_all add: running_def)
  have top: "top_priority s < 6" using top_priority(1) [OF core(1)] .
  have mem: "?c \<in> set ?xs" "in_lists s ?c" using j top by (auto simp: in_lists_def in_ready_def)
  have "priority (thread_of s ?c) = top_priority s" using lists_okD(5) [OF core(2) top mem(1)] .
  then have sel: "select_next_thread s = Some ?n" using select_round_robin(3) [OF core(1) c(1) mem(2) c(2) _ j] assms(3) by simp
  have "Suc j mod length ?xs < length ?xs" using j by (intro mod_less_divisor) auto
  then have n: "?n \<in> set ?xs" by simp
  show ?thesis
  proof (cases "?n = ?c")
    case True
    then show ?thesis using sel c(1) inv run assms(2,3) by (simp add: switch_task_def)
  next
    case False
    then obtain s' where "set_current_thread ?n s = Some s'" "sched_inv idle (s'\<lparr>started := True\<rparr>)" "current_thread s' = Some ?n"
        "ready_threads s' = ready_threads s" "max_ready_priority s' = top_priority s" "status (thread_of s' ?n) = Running"
        "lock_depth s' = lock_depth s" "started s' = started s"
      using switch_to [OF core(1) c(1) n] by auto
    moreover have "s'\<lparr>started := True\<rparr> = s'" using calculation(8) core(3) by (cases s') simp
    ultimately show ?thesis using sel c(1) False assms(2) by (simp add: switch_task_def running_def)
  qed
qed

fun switches :: "nat \<Rightarrow> scheduler \<Rightarrow> scheduler option" where
  "switches 0 s = Some s"
| "switches (Suc n) s = switch_task s \<bind> switches n"

lemma switches_round_robin:
  assumes "sched_inv idle s" and "lock_depth s = 0" and "max_ready_priority s = top_priority s"
    and "j < length (ready_threads s ! top_priority s)" and "running s (ready_threads s ! top_priority s ! j)"
  shows "\<exists>s'. switches n s = Some s' \<and> running s' (ready_threads s ! top_priority s ! ((j + n) mod length (ready_threads s ! top_priority s))) \<and>
    ready_threads s' = ready_threads s"
  using assms
proof (induction n arbitrary: s j)
  case (Suc n)
  obtain s1 where s1: "switch_task s = Some s1" "sched_inv idle s1" "lock_depth s1 = 0" "ready_threads s1 = ready_threads s"
      "max_ready_priority s1 = top_priority s" "running s1 (ready_threads s ! top_priority s ! (Suc j mod length (ready_threads s ! top_priority s)))"
    using switch_round_robin [OF Suc.prems] by auto
  have "Suc j mod length (ready_threads s ! top_priority s) < length (ready_threads s ! top_priority s)" using Suc.prems(4) by (intro mod_less_divisor) auto
  then obtain s' where "switches n s1 = Some s'" "ready_threads s' = ready_threads s1"
      "running s' (ready_threads s ! top_priority s ! ((Suc j mod length (ready_threads s ! top_priority s) + n) mod length (ready_threads s ! top_priority s)))"
    using Suc.IH [of s1 "Suc j mod length (ready_threads s ! top_priority s)"] s1 top_eq [OF s1(4)] by auto
  then show ?case using s1(1,4) by (simp add: mod_add_left_eq)
qed simp

subsection \<open>Runs\<close>

text \<open>The calls of the kernel and its interrupts.\<close>

datatype call = Create nat nat "nat option" int | Tick int | Syscall_irq | Yield | Delay int | Wait nat u32 "int option"
  | Resume nat u32 "int option" int | Notify nat bool | Store nat u32 | Lock | Unlock | Exit

fun perform :: "call \<Rightarrow> scheduler \<Rightarrow> scheduler option" where
  "perform (Create t p a w) s = create_thread t p a w s"
| "perform (Tick now) s = io_handle_irq System_tick (s\<lparr>cpu_time := now\<rparr>)"
| "perform Syscall_irq s = io_handle_irq Syscall_yield s"
| "perform Yield s = yield s"
| "perform (Delay d) s = delay_current_thread d s"
| "perform (Wait a old ms) s = map_option snd (atomic_wait a old ms s)"
| "perform (Resume a old d since) s = map_option snd (block_resume a old d since s)"
| "perform (Notify a unblock_all) s = (if unblock_all then atomic_notify_all a s else atomic_notify_one a s)"
| "perform (Store a v) s = Some (s\<lparr>memory := (memory s)(a := v)\<rparr>)"
| "perform Lock s = Some (scheduler_lock s)"
| "perform Unlock s = Some (scheduler_unlock s)"
| "perform Exit s = exit_thread s"

text \<open>What the kernel does not do: start a thread twice or with no priority of the enumeration, let the idle thread wait or
  end, or end a thread while the scheduler is locked; and a thread only ends when another one of at least its priority
  is ready.\<close>

fun allowed :: "nat \<Rightarrow> call \<Rightarrow> scheduler \<Rightarrow> bool" where
  "allowed idle (Create t p a w) s \<longleftrightarrow> \<not> in_lists s t \<and> p \<le> max_priority"
| "allowed idle (Delay d) s \<longleftrightarrow> current_thread s \<noteq> Some idle"
| "allowed idle (Wait a old ms) s \<longleftrightarrow> current_thread s \<noteq> Some idle"
| "allowed idle Exit s \<longleftrightarrow> lock_depth s = 0 \<and> (case current_thread s of None \<Rightarrow> False
     | Some c \<Rightarrow> running s c \<and> c \<noteq> idle \<and> other_at_least c (priority (thread_of s c)) s)"
| "allowed idle _ s \<longleftrightarrow> True"

lemma perform_inv:
  assumes inv: "sched_inv idle s" and al: "allowed idle call s"
  shows "\<exists>s'. perform call s = Some s' \<and> sched_inv idle s'"
proof -
  obtain c where c: "current_thread s = Some c" using inv by (auto simp: sched_inv_def current_ok_def)
  show ?thesis
  proof (cases call)
    case (Create t p a w)
    then show ?thesis using create_inv [OF inv] al by simp
  next
    case (Tick now)
    let ?s = "s\<lparr>cpu_time := now\<rparr>"
    have t: "sched_inv idle ?s" using inv inv_cong [of ?s s] by simp
    then have "distinct (delayed_threads ?s)" by (simp add: sched_inv_def core_inv_def lists_ok_def)
    then obtain s1 where "wakeup_delayed_threads ?s = Some s1" "sched_inv idle s1"
      using wakeup_loop_inv [OF t order_refl, of now] by (auto simp: wakeup_delayed_threads_def)
    then show ?thesis using yield_inv [of idle s1] Tick by (simp add: io_handle_irq_def on_system_tick_def yield_def)
  next
    case Syscall_irq
    have "sched_inv idle (s\<lparr>yield_posted := False\<rparr>)" using inv inv_cong [of "s\<lparr>yield_posted := False\<rparr>" s] by simp
    then show ?thesis using yield_inv Syscall_irq by (simp add: io_handle_irq_def yield_def)
  next
    case (Delay d)
    then show ?thesis using delay_inv [OF inv c] al c by simp
  next
    case (Wait a old ms)
    then show ?thesis using block_inv [OF inv c, of a old "map_option (\<lambda>ms. ms * 1000000) ms"] al c inv by (auto simp: atomic_wait_def)
  next
    case (Resume a old d since)
    then show ?thesis using yield_inv [OF inv] inv by (auto simp: block_resume_def split: option.splits)
  next
    case (Notify a unblock_all)
    have "distinct (blocked_threads s)" using inv by (simp add: sched_inv_def core_inv_def lists_ok_def)
    then obtain b s1 where s1: "unblock_loop a unblock_all (blocked_threads s) False s = Some (b, s1)" "sched_inv idle s1"
      using unblock_loop_inv [OF inv order_refl] by blast
    moreover have "sched_inv idle (s1\<lparr>yield_posted := True\<rparr>)" using s1(2) inv_cong [of "s1\<lparr>yield_posted := True\<rparr>" s1] by simp
    ultimately show ?thesis
      using Notify by (cases unblock_all) (auto simp: atomic_notify_all_def atomic_notify_one_def unblock_threads_def unblock_local_threads_def)
  next
    case (Store a v)
    then show ?thesis using inv inv_cong [of "s\<lparr>memory := (memory s)(a := v)\<rparr>" s] by simp
  next
    case Lock
    then show ?thesis using inv inv_cong [of "scheduler_lock s" s] by (simp add: scheduler_lock_def)
  next
    case Unlock
    then show ?thesis using inv inv_cong [of "scheduler_unlock s" s] by (simp add: scheduler_unlock_def)
  next
    case Exit
    then show ?thesis using exit_cases [OF inv, of c] al c by (auto simp: running_def)
  qed (use yield_inv [OF inv] in simp)
qed

fun perform_all :: "call list \<Rightarrow> scheduler \<Rightarrow> scheduler option" where
  "perform_all [] s = Some s"
| "perform_all (c # cs) s = perform c s \<bind> perform_all cs"

fun allowed_all :: "nat \<Rightarrow> call list \<Rightarrow> scheduler \<Rightarrow> bool" where
  "allowed_all idle [] s \<longleftrightarrow> True"
| "allowed_all idle (c # cs) s \<longleftrightarrow> allowed idle c s \<and> (case perform c s of None \<Rightarrow> True | Some s' \<Rightarrow> allowed_all idle cs s')"

lemma perform_all_inv: "sched_inv idle s \<Longrightarrow> allowed_all idle cs s \<Longrightarrow> \<exists>s'. perform_all cs s = Some s' \<and> sched_inv idle s'"
proof (induction cs arbitrary: s)
  case (Cons c cs)
  then obtain s1 where "perform c s = Some s1" "sched_inv idle s1" using perform_inv [of idle s c] by (auto simp del: perform.simps allowed.simps)
  then show ?case using Cons by (simp del: perform.simps allowed.simps)
qed simp

subsection \<open>The start of the system\<close>

text \<open>\<^verbatim>\<open>ke_startup\<close>: the idle thread, the first thread, and the first schedule.\<close>

definition ke_startup :: "nat \<Rightarrow> nat \<Rightarrow> scheduler \<Rightarrow> scheduler option" where
  "ke_startup idle init s = do {
     s \<leftarrow> create_thread idle idle_priority None 0 s;
     s \<leftarrow> create_thread init max_priority None 0 s;
     Some (start_schedule init s) }"

lemma below_6:
  "(\<forall>p < 6. P (p :: nat)) \<longleftrightarrow> P 0 \<and> P 1 \<and> P 2 \<and> P 3 \<and> P 4 \<and> P 5"
  "(\<exists>p < 6. P (p :: nat)) \<longleftrightarrow> P 0 \<or> P 1 \<or> P 2 \<or> P 3 \<or> P 4 \<or> P 5"
proof -
  have p: "p < 6 \<longleftrightarrow> p = 0 \<or> p = 1 \<or> p = 2 \<or> p = 3 \<or> p = 4 \<or> p = 5" for p :: nat by arith
  show "(\<forall>p < 6. P (p :: nat)) \<longleftrightarrow> P 0 \<and> P 1 \<and> P 2 \<and> P 3 \<and> P 4 \<and> P 5"
    "(\<exists>p < 6. P (p :: nat)) \<longleftrightarrow> P 0 \<or> P 1 \<or> P 2 \<or> P 3 \<or> P 4 \<or> P 5"
    unfolding p by blast+
qed

lemma startup_eq:
  assumes "idle \<noteq> init"
  shows "\<exists>f. ke_startup idle init (initial_scheduler threads now mem) = Some \<lparr>started = True, lock_depth = 0, max_ready_priority = 5,
      ready_threads = [[idle], [], [], [], [], [init]], blocked_threads = [], delayed_threads = [], thread_of = f, current_thread = Some init,
      cpu_time = now, memory = mem, yield_posted = False\<rparr> \<and>
    status (f idle) = Ready \<and> status (f init) = Running \<and> priority (f idle) = 0 \<and> priority (f init) = 5"
  using assms by (simp add: ke_startup_def create_thread_def attach_thread_def push_own_def list_of_def initial_scheduler_def set_thread_def
      set_status_def update_max_ready_priority_def start_schedule_def idle_priority_def max_priority_def numeral_eq_Suc)

lemma startup_inv:
  assumes "idle \<noteq> init" and "ke_startup idle init (initial_scheduler threads now mem) = Some s"
  shows "sched_inv idle s"
proof -
  obtain f where s: "s = \<lparr>started = True, lock_depth = 0, max_ready_priority = 5, ready_threads = [[idle], [], [], [], [], [init]],
      blocked_threads = [], delayed_threads = [], thread_of = f, current_thread = Some init, cpu_time = now, memory = mem, yield_posted = False\<rparr>"
      and f: "status (f idle) = Ready" "status (f init) = Running" "priority (f idle) = 0" "priority (f init) = 5"
    using startup_eq [OF assms(1), of threads now mem] assms(2) by auto
  have ready: "in_ready s t \<longleftrightarrow> t = idle \<or> t = init" for t
    by (auto simp: in_ready_def s below_6)
  have "lists_ok s" by (simp add: lists_ok_def s f below_6(1) active_def)
  then have "core_inv idle s" using ready f by (simp add: core_inv_def below_6(1)) (simp add: s f)
  then show ?thesis using ready by (simp add: sched_inv_def current_ok_def in_lists_def) (simp add: s)
qed

subsection \<open>The properties\<close>

text \<open>
  C7. The system never gets stuck, whatever threads are started and end, wait, are notified, sleep and yield, and
  however the timer and the posted system calls interrupt them, as long as a thread that ends leaves another ready one of at least
  its priority: every call succeeds and leaves each thread in the one list its status and priority name, at most the current
  thread marked as running, and no ready thread above the recorded priority.
\<close>

theorem scheduler_runs:
  assumes "idle \<noteq> init" and "ke_startup idle init (initial_scheduler threads now mem) = Some s" and "allowed_all idle calls s"
  shows "\<exists>s'. perform_all calls s = Some s' \<and> sched_inv idle s'"
  using perform_all_inv [OF startup_inv [OF assms(1,2)] assms(3)] .

definition demo_start :: scheduler where
  "demo_start = the (ke_startup 0 1 (initial_scheduler (\<lambda>_. \<lparr>priority = 0, status = Ready, wait_address = None, wakeup_time = 0, on_scheduler = False\<rparr>) 0 (\<lambda>_. 0)))"

definition demo_calls :: "call list" where
  "demo_calls = [Create 2 3 None 0, Create 3 3 None 0, Wait 7 0 None, Tick 1, Delay 5, Store 7 1, Notify 7 False, Syscall_irq, Delay 1, Tick 9, Delay 100, Exit]"

theorem scheduler_runs_witness:
  "\<exists>s s'. ke_startup 0 1 (initial_scheduler (\<lambda>_. \<lparr>priority = 0, status = Ready, wait_address = None, wakeup_time = 0, on_scheduler = False\<rparr>) 0 (\<lambda>_. 0)) = Some s \<and>
     allowed_all 0 demo_calls s \<and> perform_all demo_calls s = Some s' \<and> sched_inv 0 s'"
proof -
  let ?boot = "ke_startup 0 1 (initial_scheduler (\<lambda>_. \<lparr>priority = 0, status = Ready, wait_address = None, wakeup_time = 0, on_scheduler = False\<rparr>) 0 (\<lambda>_. 0))"
  have "\<not> Option.is_none ?boot" by code_simp
  then have b: "?boot = Some demo_start" unfolding demo_start_def by (cases ?boot) simp_all
  have a: "allowed_all 0 demo_calls demo_start" by code_simp
  show ?thesis using scheduler_runs [OF _ b a] a b by (auto simp del: allowed_all.simps perform_all.simps)
qed

text \<open>
  Unless the scheduler is locked, a change of threads gives the CPU to a ready thread of the highest priority.
\<close>

theorem highest_priority_runs:
  assumes "sched_inv idle s" and "lock_depth s = 0"
  shows "\<exists>s' n. switch_task s = Some s' \<and> current_thread s' = Some n \<and> in_ready s n \<and> (\<forall>t. in_ready s t \<longrightarrow> priority (thread_of s t) \<le> priority (thread_of s n))"
proof -
  obtain c where c: "current_thread s = Some c" "in_lists s c" using assms(1) by (auto simp: sched_inv_def current_ok_def)
  have core: "core_inv idle s" "lists_ok s" using assms(1) by (simp_all add: sched_inv_def core_inv_def)
  note top = top_priority [OF core(1)]
  obtain n where n: "select_next_thread s = Some n" "n \<in> set (ready_threads s ! top_priority s)" using select_top [OF core(1) c] by auto
  have "priority (thread_of s t) \<le> priority (thread_of s n)" if t: "in_ready s t" for t
  proof -
    obtain p where p: "p < 6" "t \<in> set (ready_threads s ! p)" using t by (auto simp: in_ready_def)
    then have "ready_threads s ! p \<noteq> []" by auto
    then show ?thesis using top(3) [OF p(1)] lists_okD(5) [OF core(2) p] lists_okD(5) [OF core(2) top(1) n(2)] by simp
  qed
  moreover have "in_ready s n" using n(2) top(1) by (auto simp: in_ready_def)
  moreover have "\<exists>s'. switch_task s = Some s' \<and> current_thread s' = Some n"
    using switch_to [OF core(1) c(1) n(2)] n(1) c(1) assms(2) by (cases "n = c") (auto simp: switch_task_def)
  ultimately show ?thesis by blast
qed

text \<open>
  C12. Threads of the highest priority take turns: when the current one is number \<open>j\<close> of \<open>k\<close> ready threads of that priority,
  then after \<open>n\<close> changes of threads number \<open>(j + n) mod k\<close> runs, so that none of them waits for more than \<open>k\<close> changes.
\<close>

theorem threads_take_turns:
  assumes "sched_inv idle s" and "lock_depth s = 0" and "max_ready_priority s = top_priority s"
    and "j < length (ready_threads s ! top_priority s)" and "running s (ready_threads s ! top_priority s ! j)"
  shows "\<exists>s'. switches n s = Some s' \<and> running s' (ready_threads s ! top_priority s ! ((j + n) mod length (ready_threads s ! top_priority s)))"
  using switches_round_robin [OF assms, of n] by auto

text \<open>
  C36. When the current thread ends, the next one is looked for among the ready threads of its own and of higher priorities only:
  the assertion that one was found fails exactly when there are none, although the idle thread is ready.
\<close>

theorem thread_end:
  assumes "sched_inv idle s" and "running s c" and "c \<noteq> idle" and "lock_depth s = 0"
  shows "exit_thread s = None \<longleftrightarrow> (\<forall>t. in_ready s t \<longrightarrow> t \<noteq> c \<longrightarrow> priority (thread_of s t) < priority (thread_of s c))"
  using exit_cases [OF assms(1) _ assms(3) _ assms(4)] assms(2) by (auto simp: running_def other_at_least_def not_le)

text \<open>Three threads of normal priority while the first thread waits.\<close>

definition demo_calls3 :: "call list" where
  "demo_calls3 = [Create 2 3 None 0, Create 3 3 None 0, Create 4 3 None 0, Wait 7 0 None]"

definition demo_turns :: scheduler where
  "demo_turns = the (perform_all demo_calls3 demo_start)"

lemma demo_start_inv: "sched_inv 0 demo_start"
proof -
  let ?boot = "ke_startup 0 1 (initial_scheduler (\<lambda>_. \<lparr>priority = 0, status = Ready, wait_address = None, wakeup_time = 0, on_scheduler = False\<rparr>) 0 (\<lambda>_. 0))"
  have "\<not> Option.is_none ?boot" by code_simp
  then have "?boot = Some demo_start" unfolding demo_start_def by (cases ?boot) simp_all
  then show ?thesis by (rule startup_inv [rotated]) simp
qed

lemma demo_turns_inv: "sched_inv 0 demo_turns"
proof -
  have "allowed_all 0 demo_calls3 demo_start" by code_simp
  then obtain s' where "perform_all demo_calls3 demo_start = Some s'" "sched_inv 0 s'" using perform_all_inv [OF demo_start_inv] by blast
  then show ?thesis by (simp add: demo_turns_def)
qed

lemma demo_turns_lists: "ready_threads demo_turns = [[0], [], [], [2, 3, 4], [], []]" "lock_depth demo_turns = 0" "max_ready_priority demo_turns = 3"
    "current_thread demo_turns = Some 2" "status (thread_of demo_turns 2) = Running" "blocked_threads demo_turns = [1]"
    "wait_address (thread_of demo_turns 1) = Some 7" "delayed_threads demo_turns = []" "cpu_time demo_turns = 0" "priority (thread_of demo_turns 2) = 3"
    "memory demo_turns 8 = 0"
  by code_simp+

lemma demo_turns_top: "top_priority demo_turns = 3"
proof -
  have "{p. p < 6 \<and> ready_threads demo_turns ! p \<noteq> []} = {0, 3}"
    by (rule set_eqI) (use below_6(2) [of "\<lambda>p. p = x \<and> ready_threads demo_turns ! p \<noteq> []" for x] in \<open>auto simp: demo_turns_lists\<close>)
  then show ?thesis by (simp add: top_priority_def)
qed

theorem highest_priority_runs_witness:
  "\<exists>s' n. switch_task demo_turns = Some s' \<and> current_thread s' = Some n \<and> in_ready demo_turns n \<and>
     (\<forall>t. in_ready demo_turns t \<longrightarrow> priority (thread_of demo_turns t) \<le> priority (thread_of demo_turns n))"
  using highest_priority_runs [OF demo_turns_inv demo_turns_lists(2)] .

theorem threads_take_turns_witness: "\<exists>s'. switches 5 demo_turns = Some s' \<and> running s' 4"
  using threads_take_turns [OF demo_turns_inv demo_turns_lists(2), of 0 5]
  by (simp add: demo_turns_top demo_turns_lists running_def)

theorem thread_end_witness: "exit_thread demo_start = None \<and> running demo_start 1 \<and> in_ready demo_start 0"
proof -
  have d: "running demo_start 1" "lock_depth demo_start = 0" "in_ready demo_start 0" "\<not> other_at_least 1 5 demo_start" "priority (thread_of demo_start 1) = 5"
    unfolding running_def by code_simp+
  then show ?thesis using thread_end [OF demo_start_inv d(1) _ d(2)] by (auto simp: other_at_least_def not_le)
qed

subsection \<open>Waking up\<close>

text \<open>The state after a thread that waits was notified.\<close>

definition notified :: "nat \<Rightarrow> scheduler \<Rightarrow> scheduler" where
  "notified t s = ready_state t (drop_thread t (set_thread t ((thread_of s t)\<lparr>wait_address := None\<rparr>) s))"

lemma notified_frame [simp]:
  "thread_of (notified t s) = (thread_of s)(t := (thread_of s t)\<lparr>wait_address := None, status := Ready\<rparr>)"
  "blocked_threads (notified t s) = remove1 t (blocked_threads s)" "delayed_threads (notified t s) = remove1 t (delayed_threads s)"
  by (simp_all add: notified_def set_thread_def)

lemma notified_inv:
  assumes "sched_inv idle s" and "t \<in> set (blocked_threads s)"
  shows "sched_inv idle (notified t s)"
proof -
  let ?w = "set_thread t ((thread_of s t)\<lparr>wait_address := None\<rparr>) s"
  have "sched_inv idle ?w" using assms(1) inv_cong [of ?w s] by (simp add: set_thread_def)
  then show ?thesis using move_ready_inv [of idle ?w t] assms(2) by (simp add: notified_def set_thread_def)
qed

lemma unblock_step:
  assumes "sched_inv idle s" and "t \<in> set (blocked_threads s)"
  shows "unblock_loop address all (t # ts) b s = (if wait_address (thread_of s t) = Some address then
    if all then unblock_loop address all ts True (notified t s) else Some (True, notified t s)
    else unblock_loop address all ts b s)"
proof -
  let ?w = "set_thread t ((thread_of s t)\<lparr>wait_address := None\<rparr>) s"
  have "sched_inv idle ?w" using assms(1) inv_cong [of ?w s] by (simp add: set_thread_def)
  then have "?w\<lparr>blocked_threads := remove1 t (blocked_threads ?w)\<rparr> = drop_thread t ?w"
    using assms(2) by (intro drop_blocked) (simp_all add: sched_inv_def core_inv_def set_thread_def)
  then show ?thesis by (simp add: Let_def make_ready_eq notified_def)
qed

lemma unblock_first:
  assumes "sched_inv idle s" and "set ts \<subseteq> set (blocked_threads s)"
  shows "unblock_loop address False ts b s = Some (case find (\<lambda>t. wait_address (thread_of s t) = Some address) ts of
    None \<Rightarrow> (b, s) | Some t \<Rightarrow> (True, notified t s))"
  using assms by (induction ts) (simp_all add: unblock_step del: unblock_loop.simps(2))

lemma unblock_all:
  fixes address :: nat
  assumes "sched_inv idle s" and "set ts \<subseteq> set (blocked_threads s)" and "distinct ts"
  defines "us \<equiv> filter (\<lambda>t. wait_address (thread_of s t) = Some address) ts"
  shows "unblock_loop address True ts b s = Some (b \<or> us \<noteq> [], fold notified us s)"
  using assms(1-3) unfolding us_def
proof (induction ts arbitrary: s b)
  case (Cons t ts)
  have "distinct (blocked_threads s)" using Cons.prems(1) by (simp add: sched_inv_def core_inv_def lists_ok_def)
  then have sub: "set ts \<subseteq> set (blocked_threads (notified t s))" using Cons.prems(2,3) by auto
  have "filter (\<lambda>u. wait_address (thread_of (notified t s) u) = Some address) ts = filter (\<lambda>u. wait_address (thread_of s u) = Some address) ts"
    using Cons.prems(3) by (intro filter_cong) auto
  then show ?case
    using Cons.IH [of "notified t s"] Cons.IH [of s] notified_inv [OF Cons.prems(1), of t] sub Cons.prems
    by (simp add: unblock_step del: unblock_loop.simps(2) notified_frame)
qed simp

lemma unblock_threads_eq:
  fixes address :: nat
  assumes "sched_inv idle s"
  defines "waiters \<equiv> filter (\<lambda>t. wait_address (thread_of s t) = Some address) (blocked_threads s)"
  shows "unblock_threads address unblock_all s =
    Some (if waiters = [] then s else (fold notified (if unblock_all then waiters else [hd waiters]) s)\<lparr>yield_posted := True\<rparr>)"
proof (cases unblock_all)
  case True
  have "distinct (blocked_threads s)" using assms(1) by (simp add: sched_inv_def core_inv_def lists_ok_def)
  then show ?thesis
    using unblock_all [OF assms(1) order_refl, of address False] True
    by (simp add: unblock_threads_def unblock_local_threads_def waiters_def)
next
  case False
  have "find P xs = (case filter P xs of [] \<Rightarrow> None | t # _ \<Rightarrow> Some t)" for P :: "nat \<Rightarrow> bool" and xs by (induction xs) simp_all
  then show ?thesis
    using unblock_first [OF assms(1) order_refl, of address False] False
    by (auto simp: unblock_threads_def unblock_local_threads_def waiters_def split: list.splits)
qed

text \<open>
  A notification makes ready the first of the threads that wait for the variable without a time limit, or all of them in the order in
  which they began to wait, each at the end of the list of its priority, and posts a change of threads if there was one; when
  there is none it does nothing.
\<close>

theorem notify_wakes:
  fixes address :: nat
  assumes "sched_inv idle s"
  defines "waiters \<equiv> filter (\<lambda>t. wait_address (thread_of s t) = Some address) (blocked_threads s)"
  shows "unblock_threads address unblock_all s =
    Some (if waiters = [] then s else (fold notified (if unblock_all then waiters else [hd waiters]) s)\<lparr>yield_posted := True\<rparr>)"
  using unblock_threads_eq [OF assms(1)] unfolding waiters_def .

theorem notify_wakes_witness:
  "unblock_threads 7 True demo_turns = Some ((fold notified [1] demo_turns)\<lparr>yield_posted := True\<rparr>)"
proof -
  have "filter (\<lambda>t. wait_address (thread_of demo_turns t) = Some 7) (blocked_threads demo_turns) = [1]" by code_simp
  then show ?thesis using notify_wakes [OF demo_turns_inv, of 7 True] by simp
qed

lemma fold_notified_frame:
  assumes "c \<notin> set us"
  shows "thread_of (fold notified us s) c = thread_of s c" and "c \<in> set (delayed_threads (fold notified us s)) \<longleftrightarrow> c \<in> set (delayed_threads s)"
  using assms by (induction us arbitrary: s) auto

text \<open>What a change of threads does to a thread that is delayed.\<close>

lemma switch_delayed:
  assumes "switch_task s = Some s'" and "status (thread_of s c) = Delayed" and "sched_inv idle s \<or> core_inv idle s \<and> in_lists s c \<and> current_thread s = Some c"
  shows "status (thread_of s' c) = Delayed" and "delayed_threads s' = delayed_threads s" and "wakeup_time (thread_of s' c) = wakeup_time (thread_of s c)"
proof -
  have "status (thread_of s' c) = Delayed \<and> delayed_threads s' = delayed_threads s \<and> wakeup_time (thread_of s' c) = wakeup_time (thread_of s c)"
  proof (cases "lock_depth s = 0 \<and> select_next_thread s \<noteq> current_thread s")
    case True
    obtain d where d: "current_thread s = Some d" "in_lists s d" and core: "core_inv idle s"
      using assms(3) by (auto simp: sched_inv_def current_ok_def)
    obtain n where n: "select_next_thread s = Some n" "n \<in> set (ready_threads s ! top_priority s)" using select_top [OF core d] by auto
    have "active (status (thread_of s n))" using lists_okD(6) [OF _ top_priority(1) [OF core] n(2)] core by (simp add: core_inv_def)
    then have "n \<noteq> c" using assms(2) by (auto simp: active_def)
    then show ?thesis using assms(1,2) True n(1) d(1) set_current_eq [OF d(1), of n] by (auto simp: switch_task_def split: if_splits)
  next
    case False
    then show ?thesis using assms(1,2) by (auto simp: switch_task_def bind_eq_Some_conv split: if_splits)
  qed
  then show "status (thread_of s' c) = Delayed" "delayed_threads s' = delayed_threads s" "wakeup_time (thread_of s' c) = wakeup_time (thread_of s c)" by simp_all
qed

lemma current_in_lists: "sched_inv idle s \<Longrightarrow> current_thread s = Some c \<Longrightarrow> in_lists s c"
  by (auto simp: sched_inv_def current_ok_def)

text \<open>The current thread goes to sleep.\<close>

lemma delay_current:
  assumes inv: "sched_inv idle s" and c: "current_thread s = Some c" "c \<noteq> idle" and "delay_current_thread d s = Some s1"
  shows "sched_inv idle s1" and "status (thread_of s1 c) = Delayed" and "wakeup_time (thread_of s1 c) = cpu_time s + d"
    and "delayed_threads s1 = delay_insert (\<lambda>t. wakeup_time (thread_of s t)) (cpu_time s + d) c (remove1 c (delayed_threads s))"
proof -
  note drop = dropped [OF assms(1-3)]
  let ?s = "add_to_delay_list c d (drop_thread c s)"
  have sw: "switch_task ?s = Some s1" using assms(4) c drop(1) by (simp add: delay_current_thread_def yield_def)
  have core: "core_inv idle ?s" "in_lists ?s c" "current_thread ?s = Some c" using delay_core [OF drop(2,3)] drop(4) c(1) by (simp_all add: add_to_delay_eq)
  have st: "status (thread_of ?s c) = Delayed" "wakeup_time (thread_of ?s c) = cpu_time s + d" by (simp_all add: add_to_delay_eq)
  note sd = switch_delayed [OF sw st(1)]
  show "status (thread_of s1 c) = Delayed" "wakeup_time (thread_of s1 c) = cpu_time s + d" using sd core st(2) by auto
  show "delayed_threads s1 = delay_insert (\<lambda>t. wakeup_time (thread_of s t)) (cpu_time s + d) c (remove1 c (delayed_threads s))"
    using sd(2) core by (auto simp: add_to_delay_eq)
  show "sched_inv idle s1" using delay_inv [OF inv c, of d] assms(4) by simp
qed

text \<open>
  C37. A thread that goes to sleep while the first of the sleeping threads has to sleep longer is put behind it all the same, and the
  timer, which stops at the first thread whose time has not come, leaves it asleep after its time.
\<close>

theorem late_wakeup:
  assumes "sched_inv idle s" and "running s c" and "c \<noteq> idle" and "delayed_threads s = f # fs"
    and "delay_current_thread d s = Some s1" and "cpu_time s + d \<le> now" and "now < wakeup_time (thread_of s1 f)"
    and "on_system_tick (s1\<lparr>cpu_time := now\<rparr>) = Some s2"
  shows "wakeup_time (thread_of s2 c) \<le> now \<and> status (thread_of s2 c) = Delayed \<and> c \<in> set (delayed_threads s2)"
proof -
  have c: "current_thread s = Some c" "status (thread_of s c) = Running" using assms(2) by (simp_all add: running_def)
  have "lists_ok s" using assms(1) by (simp add: sched_inv_def core_inv_def)
  then have "c \<notin> set (delayed_threads s)" using placed(1) [OF _ current_in_lists [OF assms(1) c(1)]] c(2) by (auto simp: active_def)
  note d = delay_current [OF assms(1) c(1) assms(3,5)]
  obtain gs where gs: "delayed_threads s1 = f # gs" "c \<in> set gs"
    using d(4) assms(4) \<open>c \<notin> set (delayed_threads s)\<close> by (simp add: delay_insert_def remove1_idem insert_behind_set)
  let ?s = "s1\<lparr>cpu_time := now\<rparr>"
  have "wakeup_delayed_threads ?s = Some ?s" using gs(1) assms(7) by (simp add: wakeup_delayed_threads_def)
  then have sw: "switch_task ?s = Some s2" using assms(8) by (simp add: on_system_tick_def)
  have "sched_inv idle ?s" using d(1) inv_cong [of ?s s1] by simp
  then show ?thesis using switch_delayed [OF sw, of c idle] d(2,3) gs assms(6) by auto
qed

text \<open>
  A thread that waits for a variable with a time limit sleeps, and no notification wakes it: it is still asleep afterwards,
  and will be until its time has come.
\<close>

theorem timed_wait_is_deaf:
  assumes "sched_inv idle s" and "running s c" and "c \<noteq> idle" and "memory s address = old"
    and "atomic_wait address old (Some ms) s = Some (r, s1)" and "unblock_threads address unblock_all s1 = Some s2"
  shows "r = None \<and> status (thread_of s2 c) = Delayed \<and> c \<in> set (delayed_threads s2)"
proof -
  have c: "current_thread s = Some c" using assms(2) by (simp add: running_def)
  let ?w = "set_thread c ((thread_of s c)\<lparr>wait_address := Some address\<rparr>) s"
  have w: "sched_inv idle ?w" "current_thread ?w = Some c" using assms(1) inv_cong [of ?w s] c by (simp_all add: set_thread_def)
  have "map_option snd (block_current_thread address old (Some (ms * 1000000)) s) = delay_current_thread (ms * 1000000) ?w"
    using c assms(4) dropped(1) [OF w assms(3)] by (simp add: block_current_thread_def delay_current_thread_def Let_def set_thread_def option.map_comp comp_def)
      (cases "yield (add_to_delay_list c (ms * 1000000) (drop_thread c ?w))"; simp add: set_thread_def)
  moreover have "block_current_thread address old (Some (ms * 1000000)) s = Some (r, s1)" using assms(4,5) by (simp add: atomic_wait_def)
  ultimately have "delay_current_thread (ms * 1000000) ?w = Some s1" by (metis option.simps(9) snd_conv)
  note d = delay_current [OF w assms(3) this]
  have mem: "c \<in> set (delayed_threads s1)" using d(4) by (simp add: delay_insert_set)
  have "lists_ok s1" using d(1) by (simp add: sched_inv_def core_inv_def)
  then have "c \<notin> set (blocked_threads s1)" using lists_okD(7) [of s1 c] d(2) by auto
  let ?us = "filter (\<lambda>t. wait_address (thread_of s1 t) = Some address) (blocked_threads s1)"
  define us where "us = (if unblock_all then ?us else [hd ?us])"
  have s2: "s2 = (if ?us = [] then s1 else (fold notified us s1)\<lparr>yield_posted := True\<rparr>)"
    using unblock_threads_eq [OF d(1), of address unblock_all] assms(6) by (simp add: us_def)
  moreover have "c \<notin> set us" if "?us \<noteq> []"
    using \<open>c \<notin> set (blocked_threads s1)\<close> hd_in_set [OF that] by (auto simp: us_def)
  ultimately have "thread_of s2 c = thread_of s1 c \<and> c \<in> set (delayed_threads s2)"
    using fold_notified_frame [of c us s1] mem by (cases "?us = []") simp_all
  moreover have "r = None" using assms(5,4) by (auto simp: atomic_wait_def block_current_thread_def bind_eq_Some_conv)
  ultimately show ?thesis using d(2) by simp
qed

definition demo_sleep :: scheduler where
  "demo_sleep = the (perform (Delay 100) demo_turns)"

lemma demo_sleep: "sched_inv 0 demo_sleep" "running demo_sleep 3" "delayed_threads demo_sleep = [2]"
proof -
  have "allowed 0 (Delay 100) demo_turns" by code_simp
  then obtain s where "perform (Delay 100) demo_turns = Some s" "sched_inv 0 s" using perform_inv [OF demo_turns_inv] by blast
  then show "sched_inv 0 demo_sleep" by (simp add: demo_sleep_def)
  show "running demo_sleep 3" "delayed_threads demo_sleep = [2]" unfolding running_def by code_simp+
qed

theorem late_wakeup_witness:
  "\<exists>s1 s2. delay_current_thread 5 demo_sleep = Some s1 \<and> on_system_tick (s1\<lparr>cpu_time := 10\<rparr>) = Some s2 \<and>
     wakeup_time (thread_of s2 3) \<le> 10 \<and> status (thread_of s2 3) = Delayed \<and> 3 \<in> set (delayed_threads s2)"
proof -
  define s1 where "s1 = the (delay_current_thread 5 demo_sleep)"
  define s2 where "s2 = the (on_system_tick (s1\<lparr>cpu_time := 10\<rparr>))"
  have n: "\<not> Option.is_none (delay_current_thread 5 demo_sleep)" "cpu_time demo_sleep + 5 \<le> 10" by code_simp+
  then have s1: "delay_current_thread 5 demo_sleep = Some s1" by (cases "delay_current_thread 5 demo_sleep") (simp_all add: s1_def)
  have m: "\<not> Option.is_none (on_system_tick (s1\<lparr>cpu_time := 10\<rparr>))" "10 < wakeup_time (thread_of s1 2)" unfolding s1_def by code_simp+
  then have s2: "on_system_tick (s1\<lparr>cpu_time := 10\<rparr>) = Some s2" by (cases "on_system_tick (s1\<lparr>cpu_time := 10\<rparr>)") (simp_all add: s2_def)
  show ?thesis using late_wakeup [OF demo_sleep(1,2) _ demo_sleep(3) s1 n(2) m(2) s2] s1 s2 by simp
qed

theorem timed_wait_is_deaf_witness:
  "\<exists>r s1 s2. atomic_wait 8 0 (Some 1) demo_sleep = Some (r, s1) \<and> unblock_threads 8 True s1 = Some s2 \<and>
     r = None \<and> status (thread_of s2 3) = Delayed \<and> 3 \<in> set (delayed_threads s2)"
proof -
  have n: "\<not> Option.is_none (atomic_wait 8 0 (Some 1) demo_sleep)" "memory demo_sleep 8 = 0"
      "\<not> Option.is_none (unblock_threads 8 True (snd (the (atomic_wait 8 0 (Some 1) demo_sleep))))" by code_simp+
  then obtain r s1 where s1: "atomic_wait 8 0 (Some 1) demo_sleep = Some (r, s1)" by (cases "atomic_wait 8 0 (Some 1) demo_sleep") auto
  then obtain s2 where s2: "unblock_threads 8 True s1 = Some s2" using n(3) by (cases "unblock_threads 8 True s1") auto
  show ?thesis using timed_wait_is_deaf [OF demo_sleep(1,2) _ n(2) s1 s2] s1 s2 by simp
qed

subsection \<open>The timer\<close>

definition awakened :: "nat \<Rightarrow> scheduler \<Rightarrow> scheduler" where
  "awakened t s = ready_state t (drop_thread t s)"

lemma wakeup_loop_eq:
  assumes "sched_inv idle s" and "set ts \<subseteq> set (delayed_threads s)" and "distinct ts"
  shows "wakeup_loop now ts s = Some (fold awakened (takeWhile (\<lambda>t. wakeup_time (thread_of s t) \<le> now) ts) s)"
  using assms
proof (induction ts arbitrary: s)
  case (Cons t ts)
  have l: "lists_ok s" using Cons.prems(1) by (simp add: sched_inv_def core_inv_def)
  have inv: "sched_inv idle (awakened t s)" using move_ready_inv [OF Cons.prems(1), of t] Cons.prems(2) by (simp add: awakened_def)
  have sub: "set ts \<subseteq> set (delayed_threads (awakened t s))" using Cons.prems(2,3) lists_okD(4) [OF l] by (auto simp: awakened_def)
  have "takeWhile (\<lambda>u. wakeup_time (thread_of (awakened t s) u) \<le> now) ts = takeWhile (\<lambda>u. wakeup_time (thread_of s u) \<le> now) ts"
    using Cons.prems(3) by (intro takeWhile_cong) (auto simp: awakened_def)
  then show ?case
    using Cons.IH [OF inv sub] Cons.prems drop_delayed [OF l, of t] by (simp add: make_ready_eq awakened_def)
qed simp

lemma fold_awakened:
  assumes "sched_inv idle s" and "set ts \<subseteq> set (delayed_threads s)" and "distinct ts"
  shows "sched_inv idle (fold awakened ts s) \<and> delayed_threads (fold awakened ts s) = filter (\<lambda>t. t \<notin> set ts) (delayed_threads s) \<and>
    (\<forall>t. thread_of (fold awakened ts s) t = (if t \<in> set ts then (thread_of s t)\<lparr>status := Ready\<rparr> else thread_of s t)) \<and>
    (\<forall>t. in_lists (fold awakened ts s) t = in_lists s t)"
  using assms
proof (induction ts arbitrary: s)
  case (Cons t ts)
  have core: "core_inv idle s" "lists_ok s" using Cons.prems(1) by (simp_all add: sched_inv_def core_inv_def)
  have t: "t \<in> set (delayed_threads s)" "in_lists s t" using Cons.prems(2) by (auto simp: in_lists_def)
  have inv: "sched_inv idle (awakened t s)" using move_ready_inv [OF Cons.prems(1), of t] t by (simp add: awakened_def)
  have del: "delayed_threads (awakened t s) = filter (\<lambda>u. u \<noteq> t) (delayed_threads s)"
    using lists_okD(4) [OF core(2)] by (simp add: awakened_def distinct_remove1_removeAll removeAll_filter_not_eq neq_commute)
  then have sub: "set ts \<subseteq> set (delayed_threads (awakened t s))" using Cons.prems(2,3) by auto
  have "in_lists (awakened t s) u = in_lists s u" for u
    using ready_state_core(2) [OF drop_core [OF core(1)], of t t u] drop_lists(2,3) [OF core(2)] placed(2) [OF core(2) t(2)] waiting_not_idle [OF core(1), of t] t
    by (cases "u = t") (auto simp: awakened_def)
  then show ?case
    using Cons.IH [OF inv sub] Cons.prems(3) del by (auto simp: awakened_def)
qed auto

text \<open>
  As long as the sleeping threads are in the order of their times, the timer makes ready exactly those whose time has come, and the others
  stay asleep.
\<close>

theorem timer_wakes_the_due:
  assumes "sched_inv idle s" and "sorted (map (\<lambda>t. wakeup_time (thread_of s t)) (delayed_threads s))"
  shows "\<exists>s'. wakeup_delayed_threads s = Some s' \<and> sched_inv idle s' \<and>
    delayed_threads s' = filter (\<lambda>t. wakeup_time (thread_of s t) > cpu_time s) (delayed_threads s) \<and>
    (\<forall>t \<in> set (delayed_threads s). wakeup_time (thread_of s t) \<le> cpu_time s \<longrightarrow> in_ready s' t \<and> status (thread_of s' t) = Ready)"
proof -
  let ?due = "\<lambda>t. wakeup_time (thread_of s t) \<le> cpu_time s"
  let ?ts = "filter ?due (delayed_threads s)"
  let ?s' = "fold awakened ?ts s"
  have d: "distinct (delayed_threads s)" using assms(1) by (simp add: sched_inv_def core_inv_def lists_ok_def)
  have "takeWhile ?due xs = filter ?due xs" if "sorted (map (\<lambda>t. wakeup_time (thread_of s t)) xs)" for xs
    using that by (induction xs) (auto intro!: filter_False [symmetric])
  then have w: "wakeup_delayed_threads s = Some ?s'"
    using wakeup_loop_eq [OF assms(1) order_refl d, of "cpu_time s"] assms(2) by (simp add: wakeup_delayed_threads_def)
  have f: "sched_inv idle ?s'" "delayed_threads ?s' = filter (\<lambda>t. t \<notin> set ?ts) (delayed_threads s)"
      "\<And>t. thread_of ?s' t = (if t \<in> set ?ts then (thread_of s t)\<lparr>status := Ready\<rparr> else thread_of s t)" "\<And>t. in_lists ?s' t = in_lists s t"
    using fold_awakened [OF assms(1), of ?ts] d by auto
  have "in_ready ?s' t \<and> status (thread_of ?s' t) = Ready" if t: "t \<in> set (delayed_threads s)" "?due t" for t
  proof -
    have "in_lists ?s' t" "status (thread_of ?s' t) = Ready" using f(3,4) t by (auto simp: in_lists_def)
    moreover have "lists_ok ?s'" using f(1) by (simp add: sched_inv_def core_inv_def)
    ultimately show ?thesis using lists_okD(7,9) [of ?s' t] by (auto simp: in_lists_def)
  qed
  moreover have "filter (\<lambda>t. t \<notin> set ?ts) (delayed_threads s) = filter (\<lambda>t. wakeup_time (thread_of s t) > cpu_time s) (delayed_threads s)"
    by (rule filter_cong) auto
  ultimately show ?thesis using w f by auto
qed

definition demo_tick :: scheduler where
  "demo_tick = demo_sleep\<lparr>cpu_time := 100\<rparr>"

theorem timer_wakes_the_due_witness:
  "\<exists>s'. wakeup_delayed_threads demo_tick = Some s' \<and> sched_inv 0 s' \<and> delayed_threads s' = [] \<and> in_ready s' 2 \<and> status (thread_of s' 2) = Ready"
proof -
  have i: "sched_inv 0 demo_tick" using demo_sleep(1) inv_cong [of demo_tick demo_sleep] by (simp add: demo_tick_def)
  have d: "delayed_threads demo_tick = [2]" "wakeup_time (thread_of demo_tick 2) \<le> cpu_time demo_tick" by code_simp+
  show ?thesis using timer_wakes_the_due [OF i] d by auto
qed

end
