(* ===== verification/Kernel_Pages.thy ===== *)
theory Kernel_Pages
  imports Kernel_Base
begin

unbundle bit_operations_syntax

section \<open>The physical page allocator\<close>

text \<open>
  Model of \<^verbatim>\<open>src/src/os/kernel/mm/physical\<close>: bitmaps of 512 pages (\<^verbatim>\<open>page_table_2.h\<close>), their counters
  (\<^verbatim>\<open>page_table_1.h\<close>), the reservation of 32 bitmaps by a CPU (\<^verbatim>\<open>page_table_0.h\<close>), memory segments
  (\<^verbatim>\<open>physical_segment.h\<close> and \<^verbatim>\<open>.cpp\<close>) and the allocator of a CPU (\<^verbatim>\<open>cpu_physical_allocator.cpp\<close>).  The functions are
  those of one CPU that is not interrupted, so a compare-and-exchange succeeds; the theory \<open>Kernel_Pages_Race\<close> has the
  interleavings on a bitmap.  The parameter \<open>assume_free\<close> says that \<^verbatim>\<open>CHINO_ASSUME\<close> means nothing to the compiler, as with
  \<^verbatim>\<open>_MSC_VER\<close>; otherwise an assumption that does not hold is undefined.
\<close>

subsection \<open>Level 2: bitmaps\<close>

definition pt2_max_pages :: nat where "pt2_max_pages = 512"
definition row_digits :: nat where "row_digits = 64"
definition atomics_count :: nat where "atomics_count = pt2_max_pages div row_digits"

definition page_table_2 :: "u64 list" where
  "page_table_2 = replicate atomics_count 0"

text \<open>\<^verbatim>\<open>std::countr_one\<close>: the number of ones before the first zero, from bit 0 on.\<close>

definition countr_one :: "u64 \<Rightarrow> nat" where
  "countr_one w = length (takeWhile (bit w) [0..<64])"

text \<open>The loop over the rows; a mask that is set already would be a race, which there is not here.\<close>

fun untaken_loop :: "bool \<Rightarrow> nat \<Rightarrow> u64 list \<Rightarrow> (nat result \<times> u64 list) option" where
  "untaken_loop assume_free row_index [] = Some (err out_of_memory, [])"
| "untaken_loop assume_free row_index (row # rows) =
     (if row \<noteq> - 1 then
        let first_zero_index = countr_one row;
            mask = push_bit first_zero_index 1 in
        if \<not> assume_free \<and> \<not> (first_zero_index > 0 \<and> first_zero_index < row_digits) then None
        else if row AND mask = 0 then Some (ok (row_index * row_digits + first_zero_index), (row OR mask) # rows)
        else None
      else do {
        (r, rows) \<leftarrow> untaken_loop assume_free (row_index + 1) rows;
        Some (r, row # rows) })"

definition set_first_untaken :: "bool \<Rightarrow> u64 list \<Rightarrow> (nat result \<times> u64 list) option" where
  "set_first_untaken assume_free rows = untaken_loop assume_free 0 rows"

definition taken :: "u64 list \<Rightarrow> nat \<Rightarrow> bool" where
  "taken rows index = bit (rows ! (index div row_digits)) (index mod row_digits)"

subsection \<open>Level 1: counters\<close>

definition pt1_max_entries :: nat where "pt1_max_entries = 32"

definition pt1_initial_value :: u16 where "pt1_initial_value = push_bit 1 (of_nat pt2_max_pages)"

definition page_table_1 :: "u16 list" where
  "page_table_1 = replicate pt1_max_entries pt1_initial_value"

text \<open>Reserve a page in the counter, then find it in the bitmap number \<open>j\<close>; that it is not there is a mistake the code
  does not handle.\<close>

definition entry_take :: "bool \<Rightarrow> u16 \<Rightarrow> nat \<Rightarrow> u64 list list \<Rightarrow> (nat result \<times> u16 \<times> u64 list list) option" where
  "entry_take assume_free value j pt2s =
     (if value = 0 \<or> value AND 1 \<noteq> 0 then Some (err out_of_memory, value, pt2s)
      else if j < length pt2s then do {
        (r, rows) \<leftarrow> set_first_untaken assume_free (pt2s ! j);
        (case r of Inl _ \<Rightarrow> None | Inr k \<Rightarrow> Some (ok k, value - push_bit 1 1, pt2s[j := rows])) }
      else None)"

definition entry_take_huge :: "u16 \<Rightarrow> unit result \<times> u16" where
  "entry_take_huge value = (if value = pt1_initial_value then (ok (), 1) else (err out_of_memory, value))"

definition entry_free_pages :: "u16 \<Rightarrow> nat" where
  "entry_free_pages value = (if value AND 1 \<noteq> 0 then 0 else unat (drop_bit 1 value))"

fun pt1_take_loop :: "bool \<Rightarrow> nat \<Rightarrow> nat list \<Rightarrow> u16 list \<Rightarrow> u64 list list \<Rightarrow> (nat result \<times> u16 list \<times> u64 list list) option" where
  "pt1_take_loop assume_free base [] entries pt2s = Some (err out_of_memory, entries, pt2s)"
| "pt1_take_loop assume_free base (i # is) entries pt2s = do {
     (r, value, pt2s) \<leftarrow> entry_take assume_free (entries ! i) (base + i) pt2s;
     let entries = entries[i := value];
     (case r of
        Inr k \<Rightarrow> Some (ok (i * pt2_max_pages + k), entries, pt2s)
      | Inl _ \<Rightarrow> pt1_take_loop assume_free base is entries pt2s) }"

definition pt1_take :: "bool \<Rightarrow> nat \<Rightarrow> u16 list \<Rightarrow> u64 list list \<Rightarrow> (nat result \<times> u16 list \<times> u64 list list) option" where
  "pt1_take assume_free pt2_bucket_base entries pt2s =
     pt1_take_loop assume_free pt2_bucket_base [0..<length entries] entries pt2s"

fun pt1_take_huge_loop :: "nat \<Rightarrow> u16 list \<Rightarrow> nat result \<times> u16 list" where
  "pt1_take_huge_loop i [] = (err out_of_memory, [])"
| "pt1_take_huge_loop i (e # es) = (case entry_take_huge e of
     (Inr _, v) \<Rightarrow> (ok (i * pt2_max_pages), v # es)
   | (Inl _, v) \<Rightarrow> (let (r, es) = pt1_take_huge_loop (i + 1) es in (r, v # es)))"

definition pt1_take_huge :: "u16 list \<Rightarrow> nat result \<times> u16 list" where
  "pt1_take_huge entries = pt1_take_huge_loop 0 entries"

subsection \<open>Level 0: reservations\<close>

definition pt0_max_pages :: nat where "pt0_max_pages = pt2_max_pages * pt1_max_entries"

definition pt0_initial_value :: u16 where "pt0_initial_value = push_bit 1 (of_nat pt0_max_pages)"

definition pt0_rent :: "u16 \<Rightarrow> u16 result \<times> u16" where
  "pt0_rent value = (if value AND 1 \<noteq> 0 then (err out_of_memory, value) else (ok (drop_bit 1 value), 1))"

definition pt0_return :: "u16 \<Rightarrow> u16 \<Rightarrow> u16" where
  "pt0_return free_pages value = value + (push_bit 1 free_pages - 1)"

definition pt0_free_pages :: "u16 \<Rightarrow> nat" where
  "pt0_free_pages value = unat (drop_bit 1 value)"

subsection \<open>Segments\<close>

definition min_page_size :: nat where "min_page_size = 4096"

record physical_segment =
  physical_address_base :: u64
  total_pages :: nat
  pt0s :: "u16 list"
  pt1s :: "u16 list list"
  pt2s :: "u64 list list"

definition inline_physical_segment :: "nat \<Rightarrow> physical_segment" where
  "inline_physical_segment max_size_bytes =
     (let max_pages = max_size_bytes div min_page_size;
          max_pt2_count = ceil_div max_pages pt2_max_pages;
          max_pt01_count = ceil_div max_pt2_count pt1_max_entries in
      \<lparr>physical_address_base = 0, total_pages = 0, pt0s = replicate max_pt01_count pt0_initial_value,
        pt1s = replicate max_pt01_count page_table_1, pt2s = replicate max_pt2_count page_table_2\<rparr>)"

definition segment_initialize :: "u64 \<Rightarrow> nat \<Rightarrow> physical_segment \<Rightarrow> physical_segment" where
  "segment_initialize physical_address size_bytes s =
     s\<lparr>physical_address_base := physical_address, total_pages := size_bytes div min_page_size\<rparr>"

definition pt2_count :: "physical_segment \<Rightarrow> nat" where
  "pt2_count s = ceil_div (total_pages s) pt2_max_pages"

definition pt01_count :: "physical_segment \<Rightarrow> nat" where
  "pt01_count s = ceil_div (pt2_count s) pt1_max_entries"

definition pfn_to_paddr :: "physical_segment \<Rightarrow> nat \<Rightarrow> u64" where
  "pfn_to_paddr s pfn = physical_address_base s + of_nat (pfn * min_page_size)"

fun rent_loop :: "nat list \<Rightarrow> physical_segment \<Rightarrow> ((nat \<times> u16) result \<times> physical_segment) option" where
  "rent_loop [] s = Some (err out_of_memory, s)"
| "rent_loop (i # is) s =
     (if i < length (pt0s s) then case pt0_rent (pt0s s ! i) of
        (Inr pages, v) \<Rightarrow> Some (ok (i, pages), s\<lparr>pt0s := (pt0s s)[i := v]\<rparr>)
      | (Inl _, v) \<Rightarrow> rent_loop is s
      else None)"

definition segment_rent :: "physical_segment \<Rightarrow> ((nat \<times> u16) result \<times> physical_segment) option" where
  "segment_rent s = rent_loop [0..<pt01_count s] s"

definition segment_return :: "nat \<times> u16 \<Rightarrow> physical_segment \<Rightarrow> physical_segment option" where
  "segment_return rent s = (case rent of (pt01_index, free_pages) \<Rightarrow>
     if pt01_index < length (pt0s s)
     then Some (s\<lparr>pt0s := (pt0s s)[pt01_index := pt0_return free_pages (pt0s s ! pt01_index)]\<rparr>) else None)"

subsection \<open>The allocator of a CPU\<close>

record cpu_physical_allocator =
  segment_index :: nat
  pt01_index :: nat
  cpu_free_pages :: u16
  segments :: "physical_segment list"

fun rent_new_loop :: "nat list \<Rightarrow> cpu_physical_allocator \<Rightarrow> (unit result \<times> cpu_physical_allocator) option" where
  "rent_new_loop [] a = Some (err out_of_memory, a)"
| "rent_new_loop (i # is) a = do {
     (r, s) \<leftarrow> segment_rent (segments a ! i);
     let a = a\<lparr>segments := (segments a)[i := s]\<rparr>;
     (case r of
        Inr (pt01, pages) \<Rightarrow> Some (ok (), a\<lparr>segment_index := i, pt01_index := pt01, cpu_free_pages := pages\<rparr>)
      | Inl _ \<Rightarrow> rent_new_loop is a) }"

definition rent_new_pt0 :: "cpu_physical_allocator \<Rightarrow> (unit result \<times> cpu_physical_allocator) option" where
  "rent_new_pt0 a = rent_new_loop [0..<length (segments a)] a"

definition return_current_pt0 :: "cpu_physical_allocator \<Rightarrow> cpu_physical_allocator option" where
  "return_current_pt0 a = do {
     s \<leftarrow> segment_return (pt01_index a, cpu_free_pages a) (segments a ! segment_index a);
     Some (a\<lparr>segments := (segments a)[segment_index a := s]\<rparr>) }"

text \<open>A page of the rented bucket: \<^verbatim>\<open>take\<close> counts from the start of the bucket, and so does the address.\<close>

definition take_page :: "bool \<Rightarrow> cpu_physical_allocator \<Rightarrow> (u64 result \<times> cpu_physical_allocator) option" where
  "take_page assume_free a =
     (let s = segments a ! segment_index a; j = pt01_index a in
      if j < length (pt1s s) then do {
        (r, entries, tables) \<leftarrow> pt1_take assume_free (j * pt1_max_entries) (pt1s s ! j) (pt2s s);
        let s = s\<lparr>pt1s := (pt1s s)[j := entries], pt2s := tables\<rparr>;
        (case r of
           Inl _ \<Rightarrow> None
         | Inr pfn \<Rightarrow> Some (ok (pfn_to_paddr s pfn), a\<lparr>segments := (segments a)[segment_index a := s]\<rparr>)) }
      else None)"

fun allocate_page :: "bool \<Rightarrow> nat \<Rightarrow> cpu_physical_allocator \<Rightarrow> (u64 result \<times> cpu_physical_allocator) option" where
  "allocate_page assume_free 0 a = None"
| "allocate_page assume_free (Suc fuel) a =
     (if cpu_free_pages a > 0 then take_page assume_free (a\<lparr>cpu_free_pages := cpu_free_pages a - 1\<rparr>)
      else do {
        (r, a) \<leftarrow> rent_new_pt0 a;
        (case r of Inl e \<Rightarrow> Some (err e, a) | Inr _ \<Rightarrow> allocate_page assume_free fuel a) })"

text \<open>The start of the kernel: one descriptor of memory for each segment; no bucket is rented yet.\<close>

definition initialize_phase0 :: "nat list \<Rightarrow> (u64 \<times> nat) list \<Rightarrow> cpu_physical_allocator option" where
  "initialize_phase0 max_sizes descs = (if length descs > length max_sizes then None else Some \<lparr>segment_index = 0, pt01_index = 0, cpu_free_pages = 0,
     segments = map2 (\<lambda>m (address, size). segment_initialize address size (inline_physical_segment m)) max_sizes descs\<rparr>)"

fun allocate_pages :: "bool \<Rightarrow> nat \<Rightarrow> nat \<Rightarrow> cpu_physical_allocator \<Rightarrow> (u64 result list \<times> cpu_physical_allocator) option" where
  "allocate_pages assume_free fuel 0 a = Some ([], a)"
| "allocate_pages assume_free fuel (Suc n) a = do {
     (r, a) \<leftarrow> allocate_page assume_free fuel a;
     (rs, a) \<leftarrow> allocate_pages assume_free fuel n a;
     Some (r # rs, a) }"

lemmas page_sizes = pt2_max_pages_def row_digits_def atomics_count_def pt1_max_entries_def pt0_max_pages_def min_page_size_def

subsection \<open>Bitmaps filled from the start\<close>

lemma countr_one_mask: "k \<le> 64 \<Longrightarrow> countr_one (mask k) = k"
proof -
  assume k: "k \<le> 64"
  have "takeWhile (bit (mask k :: u64)) [0..<64] = takeWhile (\<lambda>i. i < k) [0..<64]"
    by (rule takeWhile_cong) (auto simp: bit_mask_iff)
  also have "... = [0..<k]"
  proof (cases "k = 64")
    case False
    then have "[0..<64] = [0..<k] @ k # [Suc k..<64]" using k False upt_add_eq_append [of 0 k "64 - k"] by (simp add: upt_conv_Cons)
    then show ?thesis using takeWhile_append2 [of "[0..<k]" "\<lambda>i. i < k" "k # [Suc k..<64]"] by simp
  qed simp
  finally show ?thesis by (simp add: countr_one_def)
qed

lemma mask_64: "(mask 64 :: u64) = - 1"
  by (simp add: mask_eq_exp_minus_1)

lemma mask_row: "k < 64 \<Longrightarrow> (mask k :: u64) \<noteq> - 1" "k < 64 \<Longrightarrow> (mask k :: u64) AND push_bit k 1 = 0"
    "(mask k :: u64) OR push_bit k 1 = mask (Suc k)"
proof -
  show "(mask k :: u64) \<noteq> - 1" if "k < 64"
  proof
    assume "(mask k :: u64) = - 1"
    then have "bit (mask k :: u64) k = bit (- 1 :: u64) k" by simp
    then show False using that by (simp add: bit_simps)
  qed
  show "(mask k :: u64) AND push_bit k 1 = 0" if "k < 64"
    by (rule bit_eqI) (auto simp: bit_simps)
  show "(mask k :: u64) OR push_bit k 1 = mask (Suc k)"
    by (simp add: mask_Suc_exp push_bit_eq_mult or.commute)
qed

definition filled :: "nat \<Rightarrow> u64 list" where
  "filled n = map (\<lambda>r. mask (min 64 (n - 64 * r))) [0..<8]"

lemma untaken_loop_filled:
  assumes "64 * r \<le> n" and "n < 64 * m"
  shows "untaken_loop True r (map (\<lambda>r. mask (min 64 (n - 64 * r))) [r..<m]) =
    Some (ok n, map (\<lambda>r. mask (min 64 (Suc n - 64 * r))) [r..<m])"
  using assms
proof (induction "m - r" arbitrary: r)
  case (Suc d)
  then have upt: "[r..<m] = r # [Suc r..<m]" by (simp add: upt_conv_Cons)
  show ?case
  proof (cases "n < 64 * Suc r")
    case True
    then have "mask (min 64 (n - 64 * r')) = (mask (min 64 (Suc n - 64 * r')) :: u64)" if "r' \<in> set [Suc r..<m]" for r'
      using that by (simp add: min_def)
    moreover have "min 64 (n - 64 * r) = n - 64 * r" "n - 64 * r < 64" "min 64 (Suc n - 64 * r) = Suc (n - 64 * r)"
      using True Suc.prems by auto
    ultimately show ?thesis
      using Suc.prems mask_row [of "n - 64 * r"] countr_one_mask [of "n - 64 * r"]
      by (simp add: upt row_digits_def Let_def cong: map_cong)
  next
    case False
    then have "min 64 (n - 64 * r) = 64" "min 64 (Suc n - 64 * r) = 64" by auto
    then show ?thesis using Suc.hyps(1) [of "Suc r"] Suc.hyps(2) Suc.prems False by (simp add: upt mask_64)
  qed
qed simp

lemma set_first_untaken_filled: "n < 512 \<Longrightarrow> set_first_untaken True (filled n) = Some (ok n, filled (Suc n))"
  using untaken_loop_filled [of 0 n 8] by (simp add: set_first_untaken_def filled_def)

lemma page_table_2_filled: "page_table_2 = filled 0"
  by (simp add: page_table_2_def filled_def page_sizes map_replicate_trivial [symmetric])

subsection \<open>Counters and buckets filled from the start\<close>

definition entry_at :: "nat \<Rightarrow> nat \<Rightarrow> nat" where
  "entry_at n i = min 512 (n - 512 * i)"

lemma entry_at_Suc: "entry_at (Suc n) i = (if i = n div 512 then Suc (n mod 512) else entry_at n i)"
proof -
  define q t where "q = n div 512" and "t = n mod 512"
  have n: "n = 512 * q + t" "t < 512" by (simp_all add: q_def t_def)
  show ?thesis
    unfolding q_def [symmetric] t_def [symmetric] using n
    by (cases i q rule: linorder_cases) (auto simp: entry_at_def min_def)
qed

text \<open>The counter with a number of free pages.\<close>

definition counter_of :: "nat \<Rightarrow> u16" where
  "counter_of m = of_nat (2 * m)"

definition counters :: "nat \<Rightarrow> u16 list" where
  "counters n = map (\<lambda>i. counter_of (512 - entry_at n i)) [0..<32]"

lemma counter_of_0 [simp]: "counter_of 0 = 0"
  by (simp add: counter_of_def)

lemma counter_of_Suc:
  assumes "m < 512"
  shows "counter_of (Suc m) \<noteq> 0" "counter_of (Suc m) AND 1 = 0" "counter_of (Suc m) - 2 = counter_of m"
proof -
  have "unat (counter_of (Suc m)) = 2 * Suc m" using assms by (simp add: counter_of_def unat_of_nat_16 del: of_nat_Suc of_nat_mult of_nat_add)
  then show "counter_of (Suc m) \<noteq> 0" by auto
  have "even (counter_of (Suc m))" unfolding counter_of_def of_nat_mult by simp
  then show "counter_of (Suc m) AND 1 = 0" by (simp add: and_one_eq mod2_eq_if)
  show "counter_of (Suc m) - 2 = counter_of m" by (simp add: counter_of_def)
qed

lemma entry_take_full: "entry_take b 0 j tabs = Some (err out_of_memory, 0, tabs)"
  by (simp add: entry_take_def)

lemma entry_take_filled:
  assumes "t < 512" and "j < length tabs" and "tabs ! j = filled t"
  shows "entry_take True (counter_of (512 - t)) j tabs = Some (ok t, counter_of (512 - Suc t), tabs[j := filled (Suc t)])"
proof -
  have "512 - t = Suc (512 - Suc t)" "512 - Suc t < 512" using assms(1) by simp_all
  then show ?thesis
    using counter_of_Suc [of "512 - Suc t"] set_first_untaken_filled [OF assms(1)] assms(2,3) by (simp add: entry_take_def)
qed

lemma pt1_take_loop_filled:
  assumes "n < 16384" and "i \<le> n div 512" and "base + n div 512 < length tabs" and "tabs ! (base + n div 512) = filled (n mod 512)"
  shows "pt1_take_loop True base [i..<32] (counters n) tabs =
    Some (ok n, counters (Suc n), tabs[base + n div 512 := filled (Suc (n mod 512))])"
  using assms
proof (induction "32 - i" arbitrary: i)
  case 0
  then show ?case by (simp add: div_le_mono less_mult_imp_div_less)
next
  case (Suc d)
  have n: "n div 512 < 32" using Suc.prems(1) by (simp add: less_mult_imp_div_less)
  then have upt: "[i..<32] = i # [Suc i..<32]" using Suc.prems(2) by (simp add: upt_conv_Cons)
  have nth: "counters n ! i = counter_of (512 - entry_at n i)" using Suc.prems(2) n by (simp add: counters_def)
  show ?case
  proof (cases "i = n div 512")
    case True
    then have t: "entry_at n i = n mod 512" "512 * i + n mod 512 = n"
      by (simp_all add: entry_at_def minus_mult_div_eq_mod min_def)
    have "(counters n)[i := counter_of (512 - Suc (n mod 512))] = counters (Suc n)"
      using True by (intro nth_equalityI) (auto simp: counters_def nth_list_update entry_at_Suc)
    then show ?thesis
      unfolding upt pt1_take_loop.simps nth t(1)
      using entry_take_filled [of "n mod 512" "base + i" tabs] Suc.prems True t(2) by (simp add: page_sizes mult.commute)
  next
    case False
    then have "entry_at n i = 512" using Suc.prems(2) by (simp add: entry_at_def) 
    then have "counters n ! i = 0" "(counters n)[i := 0] = counters n" using nth by (simp_all, metis list_update_id)
    then show ?thesis using Suc.hyps(1) [of "Suc i"] Suc.hyps(2) Suc.prems False by (simp add: upt entry_take_full)
  qed
qed

definition bucket_holds :: "physical_segment \<Rightarrow> nat \<Rightarrow> nat \<Rightarrow> bool" where
  "bucket_holds s j n \<longleftrightarrow> j < length (pt1s s) \<and> pt1s s ! j = counters n \<and>
     (\<forall>i < 32. j * 32 + i < length (pt2s s) \<and> pt2s s ! (j * 32 + i) = filled (entry_at n i))"

lemma bucket_index: "i < 32 \<Longrightarrow> i' < 32 \<Longrightarrow> j * 32 + i = j' * 32 + (i' :: nat) \<longleftrightarrow> j = j' \<and> i = i'"
  by (metis add.commute div_mult_self3 div_less add_right_cancel add.left_neutral zero_neq_numeral)

lemma take_bucket:
  assumes "bucket_holds s j n" and "n < 16384"
  defines "k \<equiv> j * 32 + n div 512"
  shows "pt1_take True (j * 32) (pt1s s ! j) (pt2s s) = Some (ok n, counters (Suc n), (pt2s s)[k := filled (Suc (n mod 512))])"
    and "bucket_holds (s\<lparr>pt1s := (pt1s s)[j := counters (Suc n)], pt2s := (pt2s s)[k := filled (Suc (n mod 512))]\<rparr>) j (Suc n)"
    and "j' \<noteq> j \<Longrightarrow> bucket_holds s j' m \<Longrightarrow>
      bucket_holds (s\<lparr>pt1s := (pt1s s)[j := counters (Suc n)], pt2s := (pt2s s)[k := filled (Suc (n mod 512))]\<rparr>) j' m"
proof -
  have n: "n div 512 < 32" using assms(2) by (simp add: less_mult_imp_div_less)
  have t: "entry_at n (n div 512) = n mod 512" by (simp add: entry_at_def minus_mult_div_eq_mod min_def)
  show "pt1_take True (j * 32) (pt1s s ! j) (pt2s s) = Some (ok n, counters (Suc n), (pt2s s)[k := filled (Suc (n mod 512))])"
    using pt1_take_loop_filled [OF assms(2), of 0 "j * 32" "pt2s s"] assms(1) n t
    by (simp add: pt1_take_def bucket_holds_def k_def counters_def)
  show "bucket_holds (s\<lparr>pt1s := (pt1s s)[j := counters (Suc n)], pt2s := (pt2s s)[k := filled (Suc (n mod 512))]\<rparr>) j (Suc n)"
    using assms(1) n by (auto simp: bucket_holds_def k_def entry_at_Suc nth_list_update)
  show "bucket_holds (s\<lparr>pt1s := (pt1s s)[j := counters (Suc n)], pt2s := (pt2s s)[k := filled (Suc (n mod 512))]\<rparr>) j' m"
    if "j' \<noteq> j" "bucket_holds s j' m"
    using that n bucket_index [of _ "n div 512" j' j] by (auto simp: bucket_holds_def k_def nth_list_update)
qed

text \<open>What a page taken from a bucket leaves of the segment.\<close>

definition same_segment :: "physical_segment \<Rightarrow> physical_segment \<Rightarrow> nat \<Rightarrow> bool" where
  "same_segment s s' j \<longleftrightarrow> physical_address_base s' = physical_address_base s \<and> total_pages s' = total_pages s \<and> pt0s s' = pt0s s \<and>
     (\<forall>j' m. j' \<noteq> j \<longrightarrow> bucket_holds s j' m \<longrightarrow> bucket_holds s' j' m)"

lemma take_page_bucket:
  assumes "bucket_holds (segments a ! segment_index a) (pt01_index a) n" and "n < 16384"
  shows "\<exists>s'. take_page True a = Some (ok (pfn_to_paddr (segments a ! segment_index a) n), a\<lparr>segments := (segments a)[segment_index a := s']\<rparr>) \<and>
    bucket_holds s' (pt01_index a) (Suc n) \<and> same_segment (segments a ! segment_index a) s' (pt01_index a)"
proof -
  let ?s = "segments a ! segment_index a" and ?j = "pt01_index a"
  let ?s' = "?s\<lparr>pt1s := (pt1s ?s)[?j := counters (Suc n)], pt2s := (pt2s ?s)[?j * 32 + n div 512 := filled (Suc (n mod 512))]\<rparr>"
  note take_bucket = take_bucket [OF assms]
  have "take_page True a = Some (ok (pfn_to_paddr ?s n), a\<lparr>segments := (segments a)[segment_index a := ?s']\<rparr>)"
    using take_bucket(1) assms(1) by (simp add: take_page_def Let_def pt1_max_entries_def bucket_holds_def pfn_to_paddr_def)
  then show ?thesis using take_bucket(2,3) by (fastforce simp: same_segment_def)
qed

lemma allocate_bucket:
  assumes "bucket_holds (segments a ! segment_index a) (pt01_index a) n" and "n + m \<le> 16384" and "segment_index a < length (segments a)"
    and "cpu_free_pages a = of_nat (16384 - n)"
  shows "\<exists>s' a'. allocate_pages True (Suc fuel) m a = Some (map (\<lambda>k. ok (pfn_to_paddr (segments a ! segment_index a) (n + k))) [0..<m], a') \<and>
    a' = a\<lparr>segments := (segments a)[segment_index a := s'], cpu_free_pages := of_nat (16384 - (n + m))\<rparr> \<and>
    bucket_holds s' (pt01_index a) (n + m) \<and> same_segment (segments a ! segment_index a) s' (pt01_index a)"
  using assms
proof (induction m arbitrary: a n)
  case 0
  then show ?case by (auto simp: same_segment_def intro!: exI [of _ "segments a ! segment_index a"])
next
  case (Suc m)
  let ?s = "segments a ! segment_index a" and ?j = "pt01_index a"
  have pos: "16384 - n = Suc (16384 - Suc n)" using Suc.prems(2) by simp
  have "unat (cpu_free_pages a) = 16384 - n" using Suc.prems(4) by (simp add: unat_of_nat_16)
  then have free: "cpu_free_pages a > 0" "cpu_free_pages a - 1 = of_nat (16384 - Suc n)"
    using pos Suc.prems(4) by (auto simp: word_greater_zero_iff)
  let ?a = "a\<lparr>cpu_free_pages := of_nat (16384 - Suc n)\<rparr>"
  obtain s1 where s1: "take_page True ?a = Some (ok (pfn_to_paddr ?s n), ?a\<lparr>segments := (segments a)[segment_index a := s1]\<rparr>)"
      "bucket_holds s1 ?j (Suc n)" "same_segment ?s s1 ?j"
    using take_page_bucket [of ?a n] Suc.prems(1,2) by auto
  let ?a1 = "?a\<lparr>segments := (segments a)[segment_index a := s1]\<rparr>"
  obtain s' where s': "allocate_pages True (Suc fuel) m ?a1 = Some (map (\<lambda>k. ok (pfn_to_paddr s1 (Suc n + k))) [0..<m],
      ?a1\<lparr>segments := (segments ?a1)[segment_index a := s'], cpu_free_pages := of_nat (16384 - (Suc n + m))\<rparr>)"
      "bucket_holds s' ?j (Suc n + m)" "same_segment s1 s' ?j"
    using Suc.IH [of ?a1 "Suc n"] Suc.prems(2,3) s1(2) by auto
  have addr: "pfn_to_paddr s1 k = pfn_to_paddr ?s k" for k using s1(3) by (simp add: same_segment_def pfn_to_paddr_def)
  have upt: "map (\<lambda>k. ok (pfn_to_paddr ?s (n + k))) [0..<Suc m] = ok (pfn_to_paddr ?s n) # map (\<lambda>k. ok (pfn_to_paddr ?s (Suc n + k))) [0..<m]"
    by (simp add: upt_conv_Cons map_Suc_upt [symmetric] comp_def del: upt_Suc)
  have "allocate_page True (Suc fuel) a = Some (ok (pfn_to_paddr ?s n), ?a1)" using free s1(1) by simp
  then show ?case
    unfolding allocate_pages.simps upt
    using s' s1 by (auto simp: addr same_segment_def intro!: exI [of _ s'])
qed

subsection \<open>The first bucket of a segment\<close>

text \<open>A segment with room in its tables for \<open>b\<close> whole buckets, as the boot code initialises it.\<close>

lemma fresh_segment:
  assumes "b * 67108864 \<le> max_size" and "j < b"
  shows "bucket_holds (segment_initialize address sz (inline_physical_segment max_size)) j 0"
    and "j < length (pt0s (segment_initialize address sz (inline_physical_segment max_size)))"
    and "pt0s (segment_initialize address sz (inline_physical_segment max_size)) ! j = 32768"
proof -
  let ?pages = "max_size div 4096"
  have p: "b * 16384 \<le> ?pages" using div_le_mono [OF assms(1), of 4096] by simp
  have c2: "b * 32 \<le> ceil_div ?pages 512" using ceil_div_ge [of 512 ?pages] p by linarith
  have c1: "b \<le> ceil_div (ceil_div ?pages 512) 32" using ceil_div_ge [of 32 "ceil_div ?pages 512"] c2 by linarith
  have idx: "j * 32 + i < ceil_div ?pages 512" if "i < 32" for i
  proof -
    have "(j + 1) * 32 \<le> b * 32" using assms(2) by (intro mult_le_mono1) simp
    then show ?thesis using that c2 by simp
  qed
  show "bucket_holds (segment_initialize address sz (inline_physical_segment max_size)) j 0"
    using c1 assms(2) idx
    by (auto simp: bucket_holds_def segment_initialize_def inline_physical_segment_def Let_def page_sizes page_table_2_filled
        page_table_1_def pt1_initial_value_def counters_def counter_of_def entry_at_def map_replicate_trivial)
  show "j < length (pt0s (segment_initialize address sz (inline_physical_segment max_size)))"
    "pt0s (segment_initialize address sz (inline_physical_segment max_size)) ! j = 32768"
    using c1 assms(2) by (simp_all add: segment_initialize_def inline_physical_segment_def Let_def page_sizes pt0_initial_value_def)
qed

subsection \<open>Renting the buckets of a segment\<close>

lemma rent_loop_skip:
  assumes "i \<le> k" and "k < n" and "n \<le> length (pt0s s)" and "\<And>j. i \<le> j \<Longrightarrow> j < k \<Longrightarrow> pt0s s ! j = 1" and "pt0s s ! k AND 1 = 0"
  shows "rent_loop [i..<n] s = Some (ok (k, drop_bit 1 (pt0s s ! k)), s\<lparr>pt0s := (pt0s s)[k := 1]\<rparr>)"
  using assms
proof (induction "k - i" arbitrary: i)
  case (Suc d)
  then have "[i..<n] = i # [Suc i..<n]" "pt0s s ! i = 1" by (simp_all add: upt_conv_Cons)
  then show ?case using Suc by (simp add: pt0_rent_def)
qed (simp add: upt_conv_Cons pt0_rent_def)

lemma rent_loop_all_rented:
  assumes "n \<le> length (pt0s s)" and "\<And>j. i \<le> j \<Longrightarrow> j < n \<Longrightarrow> pt0s s ! j = 1"
  shows "rent_loop [i..<n] s = Some (err out_of_memory, s)"
  using assms
proof (induction "n - i" arbitrary: i)
  case (Suc d)
  then have "[i..<n] = i # [Suc i..<n]" "pt0s s ! i = 1" by (simp_all add: upt_conv_Cons)
  then show ?case using Suc by (simp add: pt0_rent_def)
qed simp

lemma allocate_pages_rent:
  assumes "cpu_free_pages a = 0" and "rent_new_pt0 a = Some (ok (), a')" and "cpu_free_pages a' > 0"
  shows "allocate_pages b (Suc (Suc f)) (Suc m) a = allocate_pages b (Suc (Suc f)) (Suc m) a'"
  using assms by simp

lemma allocate_pages_add:
  "allocate_pages b f (m + n) a = do { (rs, a) \<leftarrow> allocate_pages b f m a; (rs', a) \<leftarrow> allocate_pages b f n a; Some (rs @ rs', a) }"
  by (induction m arbitrary: a) (auto split: prod.splits Option.bind_splits)

text \<open>One segment whose first \<open>q\<close> buckets have been handed out and whose other buckets are fresh.\<close>

definition buckets_used :: "u64 \<Rightarrow> nat \<Rightarrow> nat \<Rightarrow> cpu_physical_allocator \<Rightarrow> bool" where
  "buckets_used address b q a \<longleftrightarrow> cpu_free_pages a = 0 \<and> (\<exists>s. segments a = [s] \<and> physical_address_base s = address \<and>
     pt01_count s = b \<and> b \<le> length (pt0s s) \<and> (\<forall>j < q. pt0s s ! j = 1) \<and>
     (\<forall>j. q \<le> j \<longrightarrow> j < b \<longrightarrow> pt0s s ! j = pt0_initial_value \<and> bucket_holds s j 0))"

definition bucket_pages :: "u64 \<Rightarrow> u64 result list" where
  "bucket_pages address = map (\<lambda>k. ok (address + of_nat (k * min_page_size))) [0..<pt0_max_pages]"

lemma rent_next:
  assumes "buckets_used address b q a" and "q < b"
  shows "\<exists>s. rent_new_pt0 a = Some (ok (), a\<lparr>segments := [s], segment_index := 0, pt01_index := q, cpu_free_pages := of_nat 16384\<rparr>) \<and>
    physical_address_base s = address \<and> pt01_count s = b \<and> b \<le> length (pt0s s) \<and> (\<forall>j \<le> q. pt0s s ! j = 1) \<and>
     (\<forall>j > q. j < b \<longrightarrow> pt0s s ! j = pt0_initial_value) \<and> (\<forall>j \<ge> q. j < b \<longrightarrow> bucket_holds s j 0)"
proof -
  obtain s where s: "segments a = [s]" "physical_address_base s = address" "pt01_count s = b" "b \<le> length (pt0s s)"
      "\<And>j. j < q \<Longrightarrow> pt0s s ! j = 1" "\<And>j. q \<le> j \<Longrightarrow> j < b \<Longrightarrow> pt0s s ! j = pt0_initial_value \<and> bucket_holds s j 0"
    using assms(1) by (auto simp: buckets_used_def)
  have iv: "pt0_initial_value AND 1 = 0" "drop_bit 1 pt0_initial_value = (of_nat 16384 :: u16)"
    by (simp_all add: pt0_initial_value_def page_sizes)
  have "segment_rent s = Some (ok (q, of_nat 16384), s\<lparr>pt0s := (pt0s s)[q := 1]\<rparr>)"
    unfolding segment_rent_def s(3) using rent_loop_skip [of 0 q b s] s assms(2) iv by simp
  then have "rent_new_pt0 a = Some (ok (), a\<lparr>segments := [s\<lparr>pt0s := (pt0s s)[q := 1]\<rparr>], segment_index := 0, pt01_index := q, cpu_free_pages := of_nat 16384\<rparr>)"
    using s(1) by (simp add: rent_new_pt0_def)
  then show ?thesis
    using s assms(2) by (intro exI [of _ "s\<lparr>pt0s := (pt0s s)[q := 1]\<rparr>"]) (auto simp: bucket_holds_def pt01_count_def pt2_count_def nth_list_update)
qed

lemma allocate_next_bucket:
  assumes "buckets_used address b q a" and "q < b"
  shows "\<exists>a'. allocate_pages True (Suc (Suc f)) pt0_max_pages a = Some (bucket_pages address, a') \<and> buckets_used address b (Suc q) a'"
proof -
  obtain s where rent: "rent_new_pt0 a = Some (ok (), a\<lparr>segments := [s], segment_index := 0, pt01_index := q, cpu_free_pages := of_nat 16384\<rparr>)"
      and s: "physical_address_base s = address" "pt01_count s = b" "b \<le> length (pt0s s)" "\<And>j. j \<le> q \<Longrightarrow> pt0s s ! j = 1"
      "\<And>j. q < j \<Longrightarrow> j < b \<Longrightarrow> pt0s s ! j = pt0_initial_value" "\<And>j. q \<le> j \<Longrightarrow> j < b \<Longrightarrow> bucket_holds s j 0"
    using rent_next [OF assms] by blast
  let ?a = "a\<lparr>segments := [s], segment_index := 0, pt01_index := q, cpu_free_pages := of_nat 16384\<rparr>"
  obtain p where p: "pt0_max_pages = Suc p" using not0_implies_Suc [of pt0_max_pages] by (auto simp: page_sizes)
  have "pt0_max_pages = 16384" by (simp add: page_sizes)
  then obtain s' where s': "allocate_pages True (Suc (Suc f)) pt0_max_pages ?a =
        Some (map (\<lambda>k. ok (pfn_to_paddr s k)) [0..<pt0_max_pages], ?a\<lparr>segments := [s'], cpu_free_pages := 0\<rparr>)"
      "bucket_holds s' q pt0_max_pages" "same_segment s s' q"
    using allocate_bucket [of ?a 0 pt0_max_pages "Suc f"] s(6) [of q] assms(2) by auto
  have "cpu_free_pages a = 0" using assms(1) by (simp add: buckets_used_def)
  then have "allocate_pages True (Suc (Suc f)) pt0_max_pages a = allocate_pages True (Suc (Suc f)) pt0_max_pages ?a"
    unfolding p by (intro allocate_pages_rent [OF _ rent]) simp_all
  moreover have "buckets_used address b (Suc q) (?a\<lparr>segments := [s'], cpu_free_pages := 0\<rparr>)"
    using s s'(3) by (auto simp: buckets_used_def same_segment_def pt01_count_def pt2_count_def)
  moreover have "map (\<lambda>k. ok (pfn_to_paddr s k)) [0..<pt0_max_pages] = bucket_pages address"
    by (simp add: bucket_pages_def pfn_to_paddr_def s(1))
  ultimately show ?thesis using s'(1) by metis
qed

lemma allocate_buckets:
  assumes "buckets_used address b q a" and "q + n \<le> b"
  shows "\<exists>a'. allocate_pages True (Suc (Suc f)) (n * pt0_max_pages) a = Some (concat (replicate n (bucket_pages address)), a') \<and>
    buckets_used address b (q + n) a'"
  using assms
proof (induction n arbitrary: a q)
  case (Suc n)
  then obtain a1 where a1: "allocate_pages True (Suc (Suc f)) pt0_max_pages a = Some (bucket_pages address, a1)"
      "buckets_used address b (Suc q) a1"
    using allocate_next_bucket [of address b q a f] by auto
  obtain a2 where "allocate_pages True (Suc (Suc f)) (n * pt0_max_pages) a1 = Some (concat (replicate n (bucket_pages address)), a2)"
      "buckets_used address b (Suc q + n) a2"
    using Suc.IH [OF a1(2)] Suc.prems(2) by auto
  then show ?case using a1 by (simp add: allocate_pages_add)
qed auto

lemma allocate_exhausted:
  assumes "buckets_used address b b a"
  shows "allocate_pages c (Suc f) n a = Some (replicate n (err out_of_memory), a)"
proof -
  obtain s where s: "cpu_free_pages a = 0" "segments a = [s]" "pt01_count s = b" "b \<le> length (pt0s s)" "\<And>j. j < b \<Longrightarrow> pt0s s ! j = 1"
    using assms by (auto simp: buckets_used_def)
  then have "segment_rent s = Some (err out_of_memory, s)"
    using rent_loop_all_rented [of b s 0] by (simp add: segment_rent_def)
  then have "rent_new_pt0 a = Some (err out_of_memory, a)" using s(2) by (simp add: rent_new_pt0_def)
  then show ?thesis using s(1) by (induction n) simp_all
qed

definition segment_buckets :: "nat \<Rightarrow> nat" where
  "segment_buckets size_bytes = ceil_div (ceil_div (size_bytes div min_page_size) pt2_max_pages) pt1_max_entries"

lemma initialize_buckets:
  assumes "initialize_phase0 [max_size] [(address, sz)] = Some a" and "segment_buckets sz * 67108864 \<le> max_size"
  shows "buckets_used address (segment_buckets sz) 0 a"
proof -
  let ?s = "segment_initialize address sz (inline_physical_segment max_size)"
  have a: "a = \<lparr>segment_index = 0, pt01_index = 0, cpu_free_pages = 0, segments = [?s]\<rparr>"
    using assms(1) by (simp add: initialize_phase0_def)
  have "segment_buckets sz \<le> length (pt0s ?s)"
    using fresh_segment(2) [OF assms(2), of "segment_buckets sz - 1" address sz] by (cases "segment_buckets sz") auto
  then show ?thesis
    using fresh_segment [OF assms(2)] unfolding a
    by (auto simp: buckets_used_def segment_initialize_def inline_physical_segment_def pt01_count_def pt2_count_def
        segment_buckets_def pt0_initial_value_def page_sizes Let_def)
qed

text \<open>
  C11. A segment of memory has one bucket of 16384 pages for every 64 MiB that it has in part or whole.  When its tables are
  large enough, allocating pages after the start of the kernel hands out, for each of its \<open>b\<close> buckets, the addresses of the
  first 16384 pages of the segment in ascending order, and reports that there is no memory left from then on.
  The addresses do not depend on the bucket, so a segment with more than one bucket hands out every page of the first
  64 MiB several times and no other; and the number of pages does not depend on the size of the segment, so one that does not
  fill its last bucket hands out addresses beyond its end.
\<close>

theorem page_allocation:
  assumes "initialize_phase0 [max_size] [(address, size_bytes)] = Some a" and "segment_buckets size_bytes * 67108864 \<le> max_size"
  shows "\<exists>a'. allocate_pages True (Suc (Suc fuel)) (segment_buckets size_bytes * pt0_max_pages + extra) a =
    Some (concat (replicate (segment_buckets size_bytes) (map (\<lambda>k. ok (address + of_nat (k * min_page_size))) [0..<pt0_max_pages])) @
      replicate extra (err out_of_memory), a')"
proof -
  obtain a1 where "allocate_pages True (Suc (Suc fuel)) (segment_buckets size_bytes * pt0_max_pages) a =
      Some (concat (replicate (segment_buckets size_bytes) (bucket_pages address)), a1)"
      "buckets_used address (segment_buckets size_bytes) (segment_buckets size_bytes) a1"
    using allocate_buckets [OF initialize_buckets [OF assms], of "segment_buckets size_bytes"] by auto
  then show ?thesis
    using allocate_exhausted [of address "segment_buckets size_bytes" a1] by (simp add: allocate_pages_add bucket_pages_def)
qed

theorem page_allocation_witness:
  "\<exists>a a'. initialize_phase0 [67108864] [(65536, 8192)] = Some a \<and>
     allocate_pages True (Suc (Suc 0)) (segment_buckets 8192 * pt0_max_pages + 1) a =
     Some (concat (replicate (segment_buckets 8192) (map (\<lambda>k. ok (65536 + of_nat (k * min_page_size))) [0..<pt0_max_pages])) @
       replicate 1 (err out_of_memory), a')"
proof -
  have "segment_buckets 8192 * 67108864 \<le> 67108864" by (simp add: segment_buckets_def ceil_div_def page_sizes)
  moreover obtain a where a: "initialize_phase0 [67108864] [(65536, 8192)] = Some a" by (simp add: initialize_phase0_def)
  ultimately show ?thesis using page_allocation [OF a, of 0 1] by blast
qed

lemma page_address:
  assumes "unat (address :: u64) + 67108864 \<le> 2 ^ 64" and "k < pt0_max_pages"
  shows "unat (address + of_nat (k * min_page_size)) = unat address + k * 4096"
proof -
  have "k * 4096 < 67108864" using assms(2) by (simp add: page_sizes)
  then show ?thesis using assms(1) by (simp add: page_sizes unat_word_ariths unat_of_nat del: of_nat_mult)
qed

text \<open>
  C34. A segment of exactly 64 MiB, as that of the emulator, that does not wrap around the address space: the first 16384
  allocations after the start succeed, their pages are distinct, start on page boundaries of the segment and lie inside it,
  and there is memory for no more.
\<close>

theorem pages_distinct:
  assumes "initialize_phase0 [max_size] [(address, 67108864)] = Some a" and "67108864 \<le> max_size"
    and "unat address + 67108864 \<le> 2 ^ 64"
  shows "\<exists>pages a'. allocate_pages True (Suc (Suc fuel)) (pt0_max_pages + extra) a = Some (map ok pages @ replicate extra (err out_of_memory), a') \<and>
    length pages = pt0_max_pages \<and> distinct pages \<and>
    (\<forall>p \<in> set pages. unat address \<le> unat p \<and> unat p + min_page_size \<le> unat address + 67108864 \<and> min_page_size dvd unat p - unat address)"
proof -
  let ?pages = "map (\<lambda>k. address + of_nat (k * min_page_size)) [0..<pt0_max_pages]"
  have b: "segment_buckets 67108864 = 1" by (simp add: segment_buckets_def ceil_div_def page_sizes)
  obtain a1 where "allocate_pages True (Suc (Suc fuel)) (1 * pt0_max_pages) a = Some (concat (replicate 1 (bucket_pages address)), a1)"
      "buckets_used address 1 1 a1"
    using allocate_buckets [of address 1 0 a 1 fuel] initialize_buckets [OF assms(1)] assms(2) b by auto
  then have "allocate_pages True (Suc (Suc fuel)) (pt0_max_pages + extra) a = Some (map ok ?pages @ replicate extra (err out_of_memory), a1)"
    using allocate_exhausted [of address 1 a1] by (simp add: allocate_pages_add bucket_pages_def)
  moreover have "distinct ?pages"
    unfolding distinct_map using page_address [OF assms(3)] by (auto simp: inj_on_def) (metis add_left_cancel mult_cancel2 zero_neq_numeral)
  moreover have "unat address \<le> unat p \<and> unat p + min_page_size \<le> unat address + 67108864 \<and> min_page_size dvd unat p - unat address"
    if "p \<in> set ?pages" for p
    using that page_address [OF assms(3)] by (auto simp: page_sizes)
  ultimately show ?thesis by (intro exI [of _ ?pages] exI [of _ a1]) simp
qed

theorem pages_distinct_witness:
  "\<exists>a pages a'. initialize_phase0 [67108864] [(4096, 67108864)] = Some a \<and>
    allocate_pages True (Suc (Suc 0)) (pt0_max_pages + 1) a = Some (map ok pages @ replicate 1 (err out_of_memory), a') \<and>
    length pages = pt0_max_pages \<and> distinct pages"
proof -
  obtain a where a: "initialize_phase0 [67108864] [(4096, 67108864)] = Some a" by (simp add: initialize_phase0_def)
  have "unat (4096 :: u64) = 4096" "unat (4096 :: u64) + 67108864 = 67112960" "(67108864 :: nat) \<le> 67108864"
    "unat (4096 :: u64) + 67108864 \<le> 2 ^ 64" by simp_all
  then show ?thesis using pages_distinct [OF a, of 0 1] a by metis
qed

subsection \<open>The assumption on the first free page\<close>

text \<open>
  \<^verbatim>\<open>CHINO_ASSUME(first_zero_index > 0 ...)\<close> does not hold when the first row that is not full has its first page free: with a compiler
  that relies on it, the first page of every row, and so the first page of a fresh segment, is undefined.
\<close>

lemma assumed_away: "row \<noteq> - 1 \<Longrightarrow> \<not> bit row 0 \<Longrightarrow> untaken_loop False row_index (row # rows) = None"
proof -
  assume "\<not> bit row 0"
  then have "countr_one row = 0" by (simp add: countr_one_def upt_conv_Cons)
  moreover assume "row \<noteq> - 1"
  ultimately show ?thesis by (simp add: Let_def)
qed

lemma first_page_undefined: "set_first_untaken False page_table_2 = None"
proof -
  have "page_table_2 = 0 # replicate 7 0" by (simp add: page_table_2_def page_sizes replicate_Suc [symmetric] del: replicate_Suc)
  then show ?thesis using assumed_away [of 0 0 "replicate 7 0"] unfolding set_first_untaken_def by (simp only:) simp
qed

end
