(* ===== verification/Kernel_Pages_Race.thy ===== *)
theory Kernel_Pages_Race
  imports Kernel_Pages
begin

unbundle bit_operations_syntax

section \<open>Threads that take pages at the same time\<close>

text \<open>
  \<^verbatim>\<open>page_table_1_entry::take\<close>, \<^verbatim>\<open>take_huge\<close> and \<^verbatim>\<open>page_table_2::set_first_untaken\<close> run by any number of threads on one counter
  and its bitmap.  A move of a thread is one access to an atomic variable, with the computation on local variables that follows;
  a step of the system is a move of any thread.  The assumption \<^verbatim>\<open>CHINO_ASSUME\<close> is taken to mean nothing here.
\<close>

subsection \<open>Threads\<close>

text \<open>Where a thread is: before reading the counter, before the compare-and-exchange that expects a value, before
  reading a row, before setting a bit of a row, finished with a page, without one, with all pages of the entry, or stopped by
  \<^verbatim>\<open>unwrap\<close> of an error.\<close>

datatype thread_pc = Take | Reserve u16 | Scan nat | Found nat nat | Take_huge | Page nat | No_page | All_pages | Unwrap_failed

text \<open>One access: the counter is at most decremented, a row gets at most one more bit.\<close>

fun thread_move :: "thread_pc \<Rightarrow> u16 \<Rightarrow> u64 list \<Rightarrow> (thread_pc \<times> u16 \<times> u64 list) option" where
  "thread_move Take value rows = Some (if value = 0 \<or> value AND 1 \<noteq> 0 then No_page else Reserve value, value, rows)"
| "thread_move (Reserve v) value rows = Some (if value = v then (Scan 0, v - push_bit 1 1, rows) else (Take, value, rows))"
| "thread_move (Scan r) value rows = Some (
     if r < length rows then
       if rows ! r \<noteq> - 1 then (Found r (countr_one (rows ! r)), value, rows) else (Scan (r + 1), value, rows)
     else (Unwrap_failed, value, rows))"
| "thread_move (Found r b) value rows = Some (
     let m = push_bit b 1 in
     (if rows ! r AND m = 0 then Page (r * row_digits + b) else Scan r, value, rows[r := rows ! r OR m]))"
| "thread_move Take_huge value rows = Some (
     if value = pt1_initial_value then (All_pages, 1, rows) else (No_page, value, rows))"
| "thread_move _ value rows = None"

record race =
  race_counter :: u16
  race_rows :: "u64 list"
  race_threads :: "thread_pc list"

text \<open>Thread number \<open>i\<close> makes its next move.\<close>

definition race_move :: "nat \<Rightarrow> race \<Rightarrow> race option" where
  "race_move i s = (if i < length (race_threads s) then do {
     (pc, value, rows) \<leftarrow> thread_move (race_threads s ! i) (race_counter s) (race_rows s);
     Some \<lparr>race_counter = value, race_rows = rows, race_threads = (race_threads s)[i := pc]\<rparr> } else None)"

inductive race_step :: "race \<Rightarrow> race \<Rightarrow> bool" where
  "race_move i s = Some s' \<Longrightarrow> race_step s s'"

subsection \<open>Free pages of a bitmap\<close>

definition free_set :: "u64 list \<Rightarrow> nat set" where
  "free_set rows = {k. k < 64 * length rows \<and> \<not> taken rows k}"

lemma free_set_finite [simp]: "finite (free_set rows)" "card (free_set rows) \<le> 64 * length rows"
proof -
  have sub: "free_set rows \<subseteq> {..<64 * length rows}" by (auto simp: free_set_def)
  then show "finite (free_set rows)" by (rule finite_subset) simp
  show "card (free_set rows) \<le> 64 * length rows" using card_mono [OF _ sub] by simp
qed

lemma countr_one_free:
  assumes "w \<noteq> - 1"
  shows "countr_one w < 64" and "\<not> bit w (countr_one w)"
proof -
  obtain k where k: "k < 64" "\<not> bit w k"
    using assms bit_word_eqI [of w "- 1"] by auto
  let ?n = "countr_one w"
  have "\<exists>x \<in> set [0..<64]. \<not> bit w x" using k by auto
  then have "takeWhile (bit w) [0..<64] \<noteq> [0..<64]" by (metis takeWhile_eq_all_conv)
  then have "length (takeWhile (bit w) [0..<64]) \<noteq> length [0..<64]" by (metis takeWhile_eq_take take_all le_refl)
  then show n: "?n < 64" using length_takeWhile_le [of "bit w" "[0..<64]"] by (simp add: countr_one_def)
  then have "\<not> bit w ([0..<64] ! ?n)"
    using nth_length_takeWhile [of "bit w" "[0..<64]"] by (simp add: countr_one_def)
  then show "\<not> bit w ?n" using n by simp
qed

lemma mask_free: "b < 64 \<Longrightarrow> (w :: u64) AND push_bit b 1 = 0 \<longleftrightarrow> \<not> bit w b"
proof
  assume b: "b < 64" and "w AND push_bit b 1 = 0"
  then have "\<not> bit (w AND push_bit b 1) b" by simp
  then show "\<not> bit w b" using b by (simp add: bit_simps)
next
  assume "b < 64" and "\<not> bit w b"
  then show "w AND push_bit b 1 = 0" by (intro bit_word_eqI) (auto simp: bit_simps)
qed

lemma taken_set_bit:
  assumes "r < length rows" and "b < 64"
  shows "taken (rows[r := rows ! r OR push_bit b 1]) k \<longleftrightarrow> taken rows k \<or> k = r * 64 + b"
proof -
  have "k = r * 64 + b \<longleftrightarrow> k div 64 = r \<and> k mod 64 = b" using assms(2) by auto
  then show ?thesis
    using assms by (auto simp: taken_def row_digits_def nth_list_update bit_simps)
qed

lemma free_set_full: "(\<And>q. q < length rows \<Longrightarrow> rows ! q = - 1) \<Longrightarrow> free_set rows = {}"
  by (auto simp: free_set_def taken_def row_digits_def div_less_iff_less_mult mult.commute)

subsection \<open>The invariant\<close>

fun reserved :: "thread_pc \<Rightarrow> bool" where
  "reserved (Scan r) = True"
| "reserved (Found r b) = True"
| "reserved _ = False"

definition pending :: "race \<Rightarrow> nat" where
  "pending s = length (filter reserved (race_threads s))"

text \<open>What holds of one thread; \<open>start\<close> is the bitmap at the start.\<close>

fun thread_ok :: "u64 list \<Rightarrow> race \<Rightarrow> thread_pc \<Rightarrow> bool" where
  "thread_ok start s (Reserve v) \<longleftrightarrow> v \<noteq> 0 \<and> v AND 1 = 0"
| "thread_ok start s (Scan r) \<longleftrightarrow> r \<le> length (race_rows s) \<and> (\<forall>q < r. race_rows s ! q = - 1)"
| "thread_ok start s (Found r b) \<longleftrightarrow> r < length (race_rows s) \<and> b < 64 \<and> (\<forall>q < r. race_rows s ! q = - 1)"
| "thread_ok start s (Page k) \<longleftrightarrow> k \<in> free_set start \<and> k \<notin> free_set (race_rows s)"
| "thread_ok start s All_pages \<longleftrightarrow> race_counter s = 1"
| "thread_ok start s Unwrap_failed \<longleftrightarrow> False"
| "thread_ok start s _ \<longleftrightarrow> True"

text \<open>The counter has the free pages that no thread has reserved, or the mark of the whole entry.\<close>

definition counter_ok :: "race \<Rightarrow> bool" where
  "counter_ok s \<longleftrightarrow> (if race_counter s = 1 then pending s = 0 \<and> card (free_set (race_rows s)) = 512
     else unat (race_counter s) + 2 * pending s = 2 * card (free_set (race_rows s)))"

text \<open>No two threads are given the same page, or all pages.\<close>

fun granted :: "thread_pc \<Rightarrow> bool" where
  "granted (Page k) = True"
| "granted All_pages = True"
| "granted _ = False"

definition exclusive :: "thread_pc list \<Rightarrow> bool" where
  "exclusive ts \<longleftrightarrow> (\<forall>i j. i < length ts \<longrightarrow> j < length ts \<longrightarrow> granted (ts ! i) \<longrightarrow> ts ! i = ts ! j \<longrightarrow> i = j)"

definition race_inv :: "u64 list \<Rightarrow> race \<Rightarrow> bool" where
  "race_inv start s \<longleftrightarrow> length (race_rows s) = atomics_count \<and> length start = atomics_count \<and> free_set (race_rows s) \<subseteq> free_set start \<and>
     (\<forall>pc \<in> set (race_threads s). thread_ok start s pc) \<and> counter_ok s \<and> exclusive (race_threads s)"

lemma exclusive_update:
  assumes "exclusive ts" and "granted pc \<Longrightarrow> pc \<notin> set ts"
  shows "exclusive (ts[i := pc])"
  unfolding exclusive_def
proof (intro allI impI)
  fix j k
  assume a: "j < length (ts[i := pc])" "k < length (ts[i := pc])" "granted (ts[i := pc] ! j)" "ts[i := pc] ! j = ts[i := pc] ! k"
  show "j = k"
  proof (cases "j = i \<or> k = i")
    case True
    then show ?thesis using a assms(2) by (metis length_list_update nth_list_update nth_mem)
  next
    case False
    then show ?thesis using a assms(1) by (auto simp: exclusive_def)
  qed
qed

text \<open>Rows that only gain bits, and a counter that keeps the mark of the whole entry.\<close>

definition grows :: "race \<Rightarrow> race \<Rightarrow> bool" where
  "grows s s' \<longleftrightarrow> length (race_rows s') = length (race_rows s) \<and> free_set (race_rows s') \<subseteq> free_set (race_rows s) \<and>
     (\<forall>q < length (race_rows s). race_rows s ! q = - 1 \<longrightarrow> race_rows s' ! q = - 1) \<and> (race_counter s = 1 \<longrightarrow> race_counter s' = 1)"

lemma thread_ok_grows: "thread_ok start s pc \<Longrightarrow> grows s s' \<Longrightarrow> thread_ok start s' pc"
  by (cases pc) (auto simp: grows_def)

lemma race_inv_update:
  assumes "race_inv start s" and "i < length (race_threads s)" and s': "race_threads s' = (race_threads s)[i := pc]"
    and "grows s s'" and "thread_ok start s' pc" and "counter_ok s'"
    and "\<And>k. pc = Page k \<Longrightarrow> k \<in> free_set (race_rows s)" and "pc = All_pages \<Longrightarrow> race_counter s \<noteq> 1"
  shows "race_inv start s'"
proof -
  have ok: "thread_ok start s' q" if "q \<in> set (race_threads s')" for q
    using that assms(1,5) set_update_subset_insert [of "race_threads s" i pc] thread_ok_grows [OF _ assms(4)]
    by (auto simp: s' race_inv_def)
  have "pc \<notin> set (race_threads s)" if "granted pc"
  proof
    assume "pc \<in> set (race_threads s)"
    then have "thread_ok start s pc" using assms(1) by (simp add: race_inv_def)
    then show False using that assms(7,8) by (cases pc) auto
  qed
  then have "exclusive (race_threads s')" using assms(1) by (simp add: s' race_inv_def exclusive_update)
  then show ?thesis
    using assms(1,4,6) ok unfolding race_inv_def grows_def by auto
qed

lemma pending_update:
  assumes "i < length (race_threads s)" and "race_threads s' = (race_threads s)[i := pc]"
  shows "pending s' + (if reserved (race_threads s ! i) then 1 else 0) = pending s + (if reserved pc then 1 else 0)"
  using length_filter_update [OF assms(1), of reserved pc] by (simp add: pending_def assms(2))

lemma free_set_bit:
  assumes "r < length rows" and "b < 64"
  shows "free_set (rows[r := rows ! r OR push_bit b 1]) = free_set rows - {r * 64 + b}"
  using taken_set_bit [OF assms] by (auto simp: free_set_def)

lemma free_set_mem: "r < length rows \<Longrightarrow> b < 64 \<Longrightarrow> r * 64 + b \<in> free_set rows \<longleftrightarrow> rows ! r AND push_bit b 1 = 0"
proof -
  assume r: "r < length rows" and b: "b < 64"
  have "r * 64 + b < 64 * length rows" using r b by linarith
  then show ?thesis using r b mask_free [OF b, of "rows ! r"] by (simp add: free_set_def taken_def row_digits_def)
qed

text \<open>A thread with a reservation finds a free page, for there is one.\<close>

lemma scan_not_at_end:
  assumes "race_inv start s" and "i < length (race_threads s)" and "race_threads s ! i = Scan r"
  shows "r < length (race_rows s)"
proof (rule ccontr)
  assume "\<not> r < length (race_rows s)"
  moreover have "thread_ok start s (Scan r)" using assms by (metis nth_mem race_inv_def)
  ultimately have "free_set (race_rows s) = {}" by (intro free_set_full) simp
  moreover have "pending s > 0" using assms(2,3) by (auto simp: pending_def filter_empty_conv intro!: bexI [of _ "Scan r"] simp: in_set_conv_nth)
  ultimately show False using assms(1) by (auto simp: race_inv_def counter_ok_def split: if_splits)
qed

lemma counter_reserved:
  assumes "v \<noteq> 0" and "(v :: u16) AND 1 = 0"
  shows "unat (v - 2) = unat v - 2" "unat v \<ge> 2" "v - 2 \<noteq> 1" "v \<noteq> 1"
proof -
  have "even v" using assms(2) by (simp add: and_one_eq mod_2_eq_odd)
  then have "even (unat v)" by transfer (simp add: even_nat_iff)
  moreover have "unat v \<noteq> 0" using assms(1) by (simp add: unat_eq_0)
  ultimately show *: "unat v \<ge> 2" by (metis One_nat_def less_2_cases_iff linorder_not_less odd_one)
  then have "2 \<le> v" by (simp add: word_le_nat_alt)
  then show sub: "unat (v - 2) = unat v - 2" by (simp add: unat_sub)
  show "v \<noteq> 1" using \<open>even v\<close> by auto
  show "v - 2 \<noteq> 1"
  proof
    assume "v - 2 = 1"
    then have "v = 3" by (simp add: diff_eq_eq)
    then show False using \<open>even v\<close> by simp
  qed
qed

lemma counter_ok_same:
  "counter_ok s \<Longrightarrow> race_counter s' = race_counter s \<Longrightarrow> pending s' = pending s \<Longrightarrow>
    card (free_set (race_rows s')) = card (free_set (race_rows s)) \<Longrightarrow> counter_ok s'"
  by (simp only: counter_ok_def)

lemma counter_ok_granted:
  "counter_ok s \<Longrightarrow> race_counter s' = race_counter s \<Longrightarrow> Suc (pending s') = pending s \<Longrightarrow>
    Suc (card (free_set (race_rows s'))) = card (free_set (race_rows s)) \<Longrightarrow> counter_ok s'"
  by (auto simp: counter_ok_def split: if_splits)

lemma move_reserve:
  assumes inv: "race_inv start s" and i: "i < length (race_threads s)" "race_threads s ! i = Reserve (race_counter s)"
  defines "s' \<equiv> \<lparr>race_counter = race_counter s - 2, race_rows = race_rows s, race_threads = (race_threads s)[i := Scan 0]\<rparr>"
  shows "race_inv start s'"
proof -
  have "thread_ok start s (Reserve (race_counter s))" using inv i by (metis nth_mem race_inv_def)
  then have v: "race_counter s \<noteq> 0" "race_counter s AND 1 = 0" by auto
  note c = counter_reserved [OF v]
  have "pending s' = Suc (pending s)" using pending_update [OF i(1), of s' "Scan 0"] i(2) by (simp add: s'_def)
  then have "counter_ok s'" using inv c by (auto simp: race_inv_def counter_ok_def s'_def)
  then show ?thesis using c by (intro race_inv_update [OF inv i(1)]) (auto simp: s'_def grows_def)
qed

lemma move_found:
  assumes inv: "race_inv start s" and i: "i < length (race_threads s)" "race_threads s ! i = Found r b"
  shows "race_inv start \<lparr>race_counter = race_counter s, race_rows = (race_rows s)[r := race_rows s ! r OR push_bit b 1],
    race_threads = (race_threads s)[i := if race_rows s ! r AND push_bit b 1 = 0 then Page (r * 64 + b) else Scan r]\<rparr>"
    (is "race_inv start ?s'")
proof -
  let ?pc = "if race_rows s ! r AND push_bit b 1 = 0 then Page (r * 64 + b) else Scan r"
  have "thread_ok start s (Found r b)" using inv i by (metis nth_mem race_inv_def)
  then have rb: "r < length (race_rows s)" "b < 64" "\<And>q. q < r \<Longrightarrow> race_rows s ! q = - 1" by auto
  note fs = free_set_bit [OF rb(1,2)] and mem = free_set_mem [OF rb(1,2)]
  have sub: "free_set (race_rows s) \<subseteq> free_set start" using inv by (simp add: race_inv_def)
  have p: "pending ?s' + 1 = pending s + (if reserved ?pc then 1 else 0)"
    using pending_update [OF i(1), of ?s' ?pc] i(2) by simp
  have "counter_ok ?s'"
  proof (cases "race_rows s ! r AND push_bit b 1 = 0")
    case True
    then have "Suc (card (free_set (race_rows ?s'))) = card (free_set (race_rows s))"
      using fs mem card_Suc_Diff1 [of "free_set (race_rows s)" "r * 64 + b"] by simp
    moreover have "counter_ok s" using inv by (simp add: race_inv_def)
    moreover have "Suc (pending ?s') = pending s" using p True by simp
    ultimately show ?thesis using counter_ok_granted [of s ?s'] by simp
  next
    case False
    then have "pending ?s' = pending s" "free_set (race_rows ?s') = free_set (race_rows s)" using p fs mem by simp_all
    moreover have "counter_ok s" using inv by (simp add: race_inv_def)
    ultimately show ?thesis using counter_ok_same [of s ?s'] by simp
  qed
  moreover have "race_rows ?s' ! q = - 1" if "race_rows s ! q = - 1" for q
    using that by (cases "q = r") (simp_all add: rb(1))
  then have "grows s ?s'" unfolding grows_def using fs by simp
  ultimately show ?thesis
    using rb fs mem sub by (intro race_inv_update [OF inv i(1)]) (auto split: if_splits)
qed

lemma move_huge:
  assumes inv: "race_inv start s" and i: "i < length (race_threads s)" "race_threads s ! i = Take_huge"
    and full: "race_counter s = pt1_initial_value"
  shows "race_inv start \<lparr>race_counter = 1, race_rows = race_rows s, race_threads = (race_threads s)[i := All_pages]\<rparr>" (is "race_inv start ?s'")
proof -
  have c: "race_counter s \<noteq> 1" "unat (race_counter s) = 1024" using full by (simp_all add: pt1_initial_value_def page_sizes)
  have "card (free_set (race_rows s)) \<le> 512" using inv free_set_finite(2) [of "race_rows s"] by (simp add: race_inv_def page_sizes)
  then have "pending s = 0" "card (free_set (race_rows s)) = 512" using inv c by (auto simp: race_inv_def counter_ok_def)
  moreover have "pending ?s' = pending s" using pending_update [OF i(1), of ?s' All_pages] i(2) by simp
  ultimately show ?thesis
    using c by (intro race_inv_update [OF inv i(1)]) (auto simp: grows_def counter_ok_def)
qed

text \<open>A move that changes nothing but the thread, and its reservation neither.\<close>

lemma move_local:
  assumes inv: "race_inv start s" and i: "i < length (race_threads s)" and "reserved pc = reserved (race_threads s ! i)"
    and "thread_ok start s pc" and "\<not> granted pc"
  shows "race_inv start \<lparr>race_counter = race_counter s, race_rows = race_rows s, race_threads = (race_threads s)[i := pc]\<rparr>"
    (is "race_inv start ?s'")
proof -
  have p: "pending ?s' = pending s" using pending_update [OF i, of ?s' pc] assms(3) by simp
  have g: "grows s ?s'" by (simp add: grows_def)
  have "counter_ok s" using inv by (simp add: race_inv_def)
  then have "counter_ok ?s'" by (rule counter_ok_same [OF _ _ p]) simp_all
  then show ?thesis
    using assms(5) thread_ok_grows [OF assms(4) g] g by (intro race_inv_update [OF inv i]) auto
qed

lemma race_move_inv:
  assumes inv: "race_inv start s" and "race_move i s = Some s'"
  shows "race_inv start s'"
proof -
  have i: "i < length (race_threads s)" using assms(2) by (auto simp: race_move_def split: if_splits)
  then have pc: "thread_ok start s (race_threads s ! i)" using inv by (simp add: race_inv_def)
  show ?thesis
  proof (cases "race_threads s ! i")
    case Take
    then show ?thesis using assms(2) i move_local [OF inv i] by (auto simp: race_move_def split: if_splits)
  next
    case (Reserve v)
    then show ?thesis
      using assms(2) i move_reserve [OF inv i] move_local [OF inv i, of Take] by (auto simp: race_move_def split: if_splits)
  next
    case (Scan r)
    then have r: "r < length (race_rows s)" using scan_not_at_end [OF inv i] by simp
    show ?thesis
    proof (cases "race_rows s ! r = - 1")
      case True
      then have "thread_ok start s (Scan (Suc r))" using r pc Scan by (auto simp: less_Suc_eq)
      then show ?thesis using move_local [OF inv i, of "Scan (Suc r)"] assms(2) i r Scan True by (simp add: race_move_def)
    next
      case False
      then have "thread_ok start s (Found r (countr_one (race_rows s ! r)))" using r pc Scan countr_one_free(1) [OF False] by simp
      then show ?thesis
        using move_local [OF inv i, of "Found r (countr_one (race_rows s ! r))"] assms(2) i r Scan False by (simp add: race_move_def)
    qed
  next
    case (Found r b)
    then show ?thesis using assms(2) i move_found [OF inv i Found] by (simp add: race_move_def Let_def row_digits_def cong: if_cong)
  next
    case Take_huge
    then show ?thesis
      using assms(2) i move_huge [OF inv i] move_local [OF inv i, of No_page] by (auto simp: race_move_def split: if_splits)
  qed (use assms(2) i in \<open>simp_all add: race_move_def\<close>)
qed

text \<open>A system in which every thread is about to take a page or all pages, and the counter has the number of free pages.\<close>

definition race_start :: "race \<Rightarrow> bool" where
  "race_start s \<longleftrightarrow> length (race_rows s) = atomics_count \<and> (\<forall>pc \<in> set (race_threads s). pc = Take \<or> pc = Take_huge) \<and>
     unat (race_counter s) = 2 * length (filter (\<lambda>k. \<not> taken (race_rows s) k) [0..<pt2_max_pages])"

lemma race_start_inv: "race_start s \<Longrightarrow> race_inv (race_rows s) s"
proof -
  assume s: "race_start s"
  have "free_set (race_rows s) = set (filter (\<lambda>k. \<not> taken (race_rows s) k) [0..<pt2_max_pages])"
    using s by (auto simp: race_start_def free_set_def page_sizes)
  then have card: "card (free_set (race_rows s)) = length (filter (\<lambda>k. \<not> taken (race_rows s) k) [0..<pt2_max_pages])"
    by (metis distinct_card distinct_filter distinct_upt)
  have none: "\<not> reserved pc" "\<not> granted pc" "thread_ok (race_rows s) s pc" if "pc \<in> set (race_threads s)" for pc
    using s that by (auto simp: race_start_def)
  then have "pending s = 0" "exclusive (race_threads s)" by (auto simp: pending_def filter_empty_conv exclusive_def)
  moreover have "race_counter s \<noteq> 1"
    using s by (metis race_start_def odd_one dvd_triv_left unat_1)
  ultimately show ?thesis
    using s card none(3) by (simp add: race_inv_def race_start_def counter_ok_def)
qed

lemma race_steps_inv:
  assumes "race_step\<^sup>*\<^sup>* s0 s" and "race_inv start s0"
  shows "race_inv start s"
  using assms by induction (auto elim!: race_step.cases intro: race_move_inv)

subsection \<open>Every run ends\<close>

text \<open>How far a thread is from its end as long as no other thread changes the counter or a row it has looked at.\<close>

fun distance :: "race \<Rightarrow> thread_pc \<Rightarrow> nat" where
  "distance s Take = 2"
| "distance s (Reserve v) = (if v = race_counter s then 1 else 3)"
| "distance s (Scan r) = 3 * (8 - r) + 2"
| "distance s (Found r b) = 3 * (8 - r) + (if race_rows s ! r AND push_bit b 1 = 0 then 1 else 3)"
| "distance s Take_huge = 1"
| "distance s _ = 0"

definition left_to_take :: "race \<Rightarrow> nat" where
  "left_to_take s = unat (race_counter s) + card (free_set (race_rows s))"

definition moves_bound :: "race \<Rightarrow> nat" where
  "moves_bound s = (30 * length (race_threads s) + 1) * left_to_take s + sum_list (map (distance s) (race_threads s))"

lemma distance_le: "distance s pc \<le> 30"
  by (cases pc) auto

lemma distances_le: "sum_list (map (distance s) ts) \<le> 30 * length ts"
proof (induction ts)
  case (Cons t ts)
  then show ?case using distance_le [of s t] by simp
qed simp

lemma moves_bound_taken:
  assumes "length (race_threads s') = length (race_threads s)" and "left_to_take s' < left_to_take s"
  shows "moves_bound s' < moves_bound s"
proof -
  let ?n = "length (race_threads s)"
  have "sum_list (map (distance s') (race_threads s')) \<le> 30 * ?n" using distances_le [of s' "race_threads s'"] assms(1) by simp
  moreover have "(30 * ?n + 1) * (left_to_take s' + 1) \<le> (30 * ?n + 1) * left_to_take s" using assms(2) by (intro mult_le_mono2) simp
  ultimately show ?thesis using assms(1) by (simp add: moves_bound_def)
qed

lemma moves_bound_local:
  assumes "i < length (race_threads s)" and "race_threads s' = (race_threads s)[i := pc]"
    and "race_counter s' = race_counter s" and "race_rows s' = race_rows s" and "distance s pc < distance s (race_threads s ! i)"
  shows "moves_bound s' < moves_bound s"
proof -
  have same: "distance s' = distance s"
  proof
    show "distance s' q = distance s q" for q by (cases q) (simp_all add: assms(3,4))
  qed
  have "map (distance s) (race_threads s') = (map (distance s) (race_threads s))[i := distance s pc]" by (simp add: assms(2) map_update)
  then have "sum_list (map (distance s) (race_threads s')) + distance s (race_threads s ! i) =
      sum_list (map (distance s) (race_threads s)) + distance s pc"
    using assms(1) member_le_sum_list [of "distance s (race_threads s ! i)" "map (distance s) (race_threads s)"]
    by (simp add: sum_list_update)
  then show ?thesis using assms(5) by (simp add: moves_bound_def left_to_take_def same assms(2-4))
qed

lemma race_move_bound:
  assumes inv: "race_inv start s" and move: "race_move i s = Some s'"
  shows "moves_bound s' < moves_bound s"
proof -
  have i: "i < length (race_threads s)" using move by (auto simp: race_move_def split: if_splits)
  then have pc: "thread_ok start s (race_threads s ! i)" using inv by (simp add: race_inv_def)
  show ?thesis
  proof (cases "race_threads s ! i")
    case Take
    then show ?thesis using move i by (intro moves_bound_local [OF i]) (auto simp: race_move_def)
  next
    case (Reserve v)
    then have v: "unat (v - 2) < unat v" using pc counter_reserved [of v] by auto
    show ?thesis
    proof (cases "race_counter s = v")
      case True
      then show ?thesis using move i Reserve v by (intro moves_bound_taken) (auto simp: race_move_def left_to_take_def)
    next
      case False
      then show ?thesis using move i Reserve by (intro moves_bound_local [OF i, of s' Take]) (auto simp: race_move_def)
    qed
  next
    case (Scan r)
    then have r: "r < length (race_rows s)" "length (race_rows s) = 8" using scan_not_at_end [OF inv i] inv by (simp_all add: race_inv_def page_sizes)
    let ?pc = "if race_rows s ! r \<noteq> - 1 then Found r (countr_one (race_rows s ! r)) else Scan (r + 1)"
    have "race_rows s ! r AND push_bit (countr_one (race_rows s ! r)) 1 = 0" if "race_rows s ! r \<noteq> - 1"
      using countr_one_free [OF that] mask_free by simp
    then have "distance s ?pc < distance s (race_threads s ! i)" using r Scan by auto
    then show ?thesis using move i Scan r by (intro moves_bound_local [OF i, of s' ?pc]) (auto simp: race_move_def split: if_splits)
  next
    case (Found r b)
    then have rb: "r < length (race_rows s)" "b < 64" using pc by auto
    show ?thesis
    proof (cases "race_rows s ! r AND push_bit b 1 = 0")
      case True
      then have "free_set (race_rows s') = free_set (race_rows s) - {r * 64 + b}"
        using move i Found free_set_bit [OF rb] by (simp add: race_move_def Let_def) (metis race.select_convs(2))
      then have "card (free_set (race_rows s')) < card (free_set (race_rows s))"
        using True free_set_mem [OF rb] by (metis card_Diff1_less free_set_finite(1))
      then show ?thesis using move i Found by (intro moves_bound_taken) (auto simp: race_move_def left_to_take_def Let_def)
    next
      case False
      then have "race_rows s ! r OR push_bit b 1 = race_rows s ! r"
        using mask_free [OF rb(2), of "race_rows s ! r"] by (intro bit_word_eqI) (auto simp: bit_simps)
      then show ?thesis
        using move i Found False by (intro moves_bound_local [OF i, of s' "Scan r"]) (auto simp: race_move_def Let_def)
    qed
  next
    case Take_huge
    show ?thesis
    proof (cases "race_counter s = pt1_initial_value")
      case True
      then have "left_to_take s' < left_to_take s"
        using move i Take_huge by (auto simp: race_move_def left_to_take_def pt1_initial_value_def page_sizes)
      then show ?thesis using move i Take_huge by (intro moves_bound_taken) (auto simp: race_move_def split: if_splits)
    next
      case False
      then show ?thesis using move i Take_huge by (intro moves_bound_local [OF i, of s' No_page]) (auto simp: race_move_def)
    qed
  qed (use move i in \<open>simp_all add: race_move_def\<close>)
qed

lemma race_steps_bound:
  assumes "(race_step ^^ n) s0 s" and "race_inv start s0"
  shows "race_inv start s \<and> n + moves_bound s \<le> moves_bound s0 \<and> length (race_threads s) = length (race_threads s0)"
  using assms
proof (induction n arbitrary: s)
  case (Suc n)
  then obtain s1 where s1: "(race_step ^^ n) s0 s1" "race_step s1 s" by auto
  then obtain i where i: "race_move i s1 = Some s" by (auto elim: race_step.cases)
  have IH: "race_inv start s1" "n + moves_bound s1 \<le> moves_bound s0" "length (race_threads s1) = length (race_threads s0)"
    using Suc.IH [OF s1(1) Suc.prems(2)] by auto
  moreover have "length (race_threads s) = length (race_threads s1)" using i by (auto simp: race_move_def bind_eq_Some_conv split: if_splits prod.splits)
  ultimately show ?case using race_move_inv [OF IH(1) i] race_move_bound [OF IH(1) i] by simp
qed simp

fun finished :: "thread_pc \<Rightarrow> bool" where
  "finished (Page k) = True"
| "finished No_page = True"
| "finished All_pages = True"
| "finished _ = False"

lemma move_not_finished: "\<not> finished pc \<Longrightarrow> pc \<noteq> Unwrap_failed \<Longrightarrow> \<exists>r. thread_move pc value rows = Some r"
  by (cases pc) (auto simp: Let_def)

subsection \<open>The properties\<close>

text \<open>
  C10. Threads that take pages, or all pages, of one entry at the same time, in any interleaving of their atomic accesses,
  when at the start the counter has the number of free pages: the search for a page that follows a reservation never fails;
  a page a thread is given was free at the start and is marked as taken; no two threads are given the same page; and if one
  thread is given all pages then no other is given all pages or any of them.
\<close>

theorem race_safe:
  assumes "race_start s0" and "race_step\<^sup>*\<^sup>* s0 s"
  shows "Unwrap_failed \<notin> set (race_threads s) \<and>
    (\<forall>i < length (race_threads s). \<forall>k. race_threads s ! i = Page k \<longrightarrow>
       k < pt2_max_pages \<and> \<not> taken (race_rows s0) k \<and> taken (race_rows s) k \<and> (\<forall>j < length (race_threads s). race_threads s ! j = Page k \<longrightarrow> j = i)) \<and>
    (\<forall>i < length (race_threads s). race_threads s ! i = All_pages \<longrightarrow>
       (\<forall>j < length (race_threads s). granted (race_threads s ! j) \<longrightarrow> j = i))"
proof -
  let ?ts = "race_threads s"
  have inv: "race_inv (race_rows s0) s" using race_steps_inv [OF assms(2) race_start_inv [OF assms(1)]] .
  have len: "length (race_rows s) = 8" "length (race_rows s0) = 8" using inv by (simp_all add: race_inv_def page_sizes)
  have ok: "thread_ok (race_rows s0) s pc" if "pc \<in> set ?ts" for pc using inv that by (simp add: race_inv_def)
  have ex: "i = j" if "i < length ?ts" "j < length ?ts" "granted (?ts ! i)" "?ts ! i = ?ts ! j" for i j
    using inv that by (simp add: race_inv_def exclusive_def)
  have page: "k < pt2_max_pages \<and> \<not> taken (race_rows s0) k \<and> taken (race_rows s) k" if "Page k \<in> set ?ts" for k
    using ok [OF that] len by (auto simp: free_set_def page_sizes)
  have all: "j = i" if i: "i < length ?ts" "?ts ! i = All_pages" and j: "j < length ?ts" "granted (?ts ! j)" for i j
  proof (cases "?ts ! j")
    case (Page k)
    have "race_counter s = 1" using ok [of All_pages] i nth_mem by fastforce
    then have "card (free_set (race_rows s)) = 512" using inv by (simp add: race_inv_def counter_ok_def)
    moreover have "free_set (race_rows s) \<subseteq> {..<512}" using len by (auto simp: free_set_def)
    ultimately have "free_set (race_rows s) = {..<512}" by (intro card_subset_eq) simp_all
    then show ?thesis using page [of k] Page j(1) by (metis free_set_def lessThan_iff mem_Collect_eq nth_mem pt2_max_pages_def)
  next
    case All_pages
    then show ?thesis using ex [of i j] i j by simp
  qed (use j in simp_all)
  have "Unwrap_failed \<notin> set ?ts" using ok by force
  then show ?thesis using page all ex by (metis granted.simps(1) nth_mem)
qed

text \<open>
  C35. In the same situation every run ends: the threads make at most the given number of moves together, however they retry,
  and when no thread can move any more, each has a page, all pages or the answer that there is no page.
\<close>

theorem race_ends:
  assumes "race_start s0" and "(race_step ^^ n) s0 s"
  shows "n \<le> (30 * length (race_threads s0) + 1) * 1536 + 30 * length (race_threads s0) \<and>
    ((\<nexists>s'. race_step s s') \<longrightarrow> (\<forall>pc \<in> set (race_threads s). finished pc))"
proof -
  let ?n = "length (race_threads s0)"
  have inv0: "race_inv (race_rows s0) s0" by (rule race_start_inv) fact
  have inv: "race_inv (race_rows s0) s" "n \<le> moves_bound s0" using race_steps_bound [OF assms(2) inv0] by auto
  have len: "length (race_rows s0) = 8" using assms(1) by (simp add: race_start_def page_sizes)
  have "card (free_set (race_rows s0)) \<le> 512" using free_set_finite(2) [of "race_rows s0"] unfolding len by simp
  moreover have "unat (race_counter s0) \<le> 1024"
    using assms(1) length_filter_le [of "\<lambda>k. \<not> taken (race_rows s0) k" "[0..<pt2_max_pages]"] by (simp add: race_start_def page_sizes)
  ultimately have "(30 * ?n + 1) * left_to_take s0 \<le> (30 * ?n + 1) * 1536" by (intro mult_le_mono2) (simp add: left_to_take_def)
  then have "n \<le> (30 * ?n + 1) * 1536 + 30 * ?n"
    using inv(2) distances_le [of s0 "race_threads s0"] by (simp add: moves_bound_def)
  moreover have "finished pc" if stuck: "\<nexists>s'. race_step s s'" and mem: "pc \<in> set (race_threads s)" for pc
  proof (rule ccontr)
    assume "\<not> finished pc"
    obtain i where i: "i < length (race_threads s)" "race_threads s ! i = pc" using mem by (auto simp: in_set_conv_nth)
    have "pc \<noteq> Unwrap_failed" using inv(1) mem by (auto simp: race_inv_def)
    then obtain r where "thread_move pc (race_counter s) (race_rows s) = Some r" using move_not_finished \<open>\<not> finished pc\<close> by blast
    then have "\<exists>s'. race_move i s = Some s'" using i by (cases r) (simp add: race_move_def)
    then show False using stuck by (auto intro: race_step.intros)
  qed
  ultimately show ?thesis by blast
qed

text \<open>Two threads on a fresh entry, in an order in which both exchanges and both searches collide.\<close>

fun race_run :: "nat list \<Rightarrow> race \<Rightarrow> race option" where
  "race_run [] s = Some s"
| "race_run (i # is) s = race_move i s \<bind> race_run is"

lemma race_run_steps: "race_run is s = Some s' \<Longrightarrow> (race_step ^^ length is) s s'"
proof (induction "is" arbitrary: s)
  case (Cons i "is")
  then obtain s1 where "race_move i s = Some s1" "race_run is s1 = Some s'" by (auto simp: bind_eq_Some_conv)
  then show ?case using Cons.IH relpowp_Suc_I2 [of race_step s s1 "length is" s'] by (auto intro: race_step.intros)
qed simp

definition two_threads :: race where
  "two_threads = \<lparr>race_counter = pt1_initial_value, race_rows = page_table_2, race_threads = [Take, Take]\<rparr>"

definition two_pages :: race where
  "two_pages = \<lparr>race_counter = 1020, race_rows = 3 # replicate 7 0, race_threads = [Page 0, Page 1]\<rparr>"

lemma two_threads_start: "race_start two_threads"
proof -
  have "\<not> taken page_table_2 k" if "k < 512" for k using that by (simp add: taken_def page_table_2_def page_sizes)
  then have "filter (\<lambda>k. \<not> taken page_table_2 k) [0..<pt2_max_pages] = [0..<pt2_max_pages]" by (simp add: page_sizes)
  then show ?thesis by (simp add: race_start_def two_threads_def page_table_2_def pt1_initial_value_def page_sizes)
qed

lemma two_threads_run: "race_run [0, 1, 0, 1, 1, 1, 0, 1, 0, 1, 1, 1] two_threads = Some two_pages"
  by code_simp

theorem race_safe_witness:
  "race_start two_threads \<and> race_step\<^sup>*\<^sup>* two_threads two_pages \<and> race_threads two_pages = [Page 0, Page 1] \<and>
    \<not> taken (race_rows two_threads) 0 \<and> taken (race_rows two_pages) 0 \<and> taken (race_rows two_pages) 1"
proof -
  have steps: "race_step\<^sup>*\<^sup>* two_threads two_pages"
    using race_run_steps [OF two_threads_run] relpowp_imp_rtranclp by fastforce
  show ?thesis
    using race_safe [OF two_threads_start steps] two_threads_start steps by (auto simp: two_pages_def dest: spec [of _ 0] spec [of _ 1])
qed

theorem race_ends_witness:
  "race_start two_threads \<and> (race_step ^^ 12) two_threads two_pages \<and> 12 \<le> (30 * length (race_threads two_threads) + 1) * 1536 + 30 * length (race_threads two_threads)"
proof -
  have "(race_step ^^ 12) two_threads two_pages" using race_run_steps [OF two_threads_run] by (simp add: numeral_eq_Suc)
  then show ?thesis using race_ends [OF two_threads_start, of 12 two_pages] two_threads_start by blast
qed

end
