(* ===== verification/Kernel_Objects.thy ===== *)
theory Kernel_Objects
  imports Kernel_Base
begin

section \<open>Object pools and handle tables\<close>

text \<open>
  Model of the pools of objects (\<^verbatim>\<open>src/include/ddk/chino/os/kernel/object_pool.h\<close>), of the handle table
  (\<^verbatim>\<open>src/src/os/kernel/ob/handle_table.h\<close> and \<^verbatim>\<open>.cpp\<close>) and of its entries (\<^verbatim>\<open>handle.h\<close>).  A segment is a page
  of memory with a header of 32 bytes and elements that are entries or links of the list of free elements; a link is the
  index of an element, and no link is the null pointer.  The functions are those a thread runs under the lock of the segment.
  The locale has what a client may rely on; the handle table is the client, and the first segment of the pool the provider.
\<close>

subsection \<open>Segments\<close>

datatype 'e slot = Free_slot "nat option" | Used_slot 'e

record 'e object_segment =
  seg_frees :: u64
  free_head :: "nat option"
  elements :: "'e slot list"

definition segment_size :: nat where "segment_size = 4096"
definition segment_header_size :: nat where "segment_header_size = 32"

text \<open>An element has room for an entry, which for a handle is a pointer and the access mask, and for a link.\<close>

definition elements_count :: "nat \<Rightarrow> nat" where
  "elements_count element_size = (segment_size - segment_header_size) div element_size"

definition object_segment :: "nat \<Rightarrow> 'e object_segment" where
  "object_segment n = \<lparr>seg_frees = of_nat n, free_head = Some 0,
     elements = map (\<lambda>i. Free_slot (if i < n - 1 then Some (i + 1) else None)) [0..<n]\<rparr>"

text \<open>Take the first free element; what is there afterwards is the object that the pool constructs in it.\<close>

definition segment_allocate :: "'e \<Rightarrow> 'e object_segment \<Rightarrow> (nat result \<times> 'e object_segment) option" where
  "segment_allocate e s = (case free_head s of
     None \<Rightarrow> Some (err out_of_memory, s)
   | Some i \<Rightarrow> (if i < length (elements s) then
       (case elements s ! i of
          Free_slot next \<Rightarrow> Some (ok i, s\<lparr>free_head := next, seg_frees := seg_frees s - 1, elements := (elements s)[i := Used_slot e]\<rparr>)
        | Used_slot _ \<Rightarrow> None)
       else None))"

definition segment_free :: "nat \<Rightarrow> 'e object_segment \<Rightarrow> 'e object_segment" where
  "segment_free i s = s\<lparr>elements := (elements s)[i := Free_slot (free_head s)], free_head := Some i, seg_frees := seg_frees s + 1\<rparr>"

definition segment_at :: "nat \<Rightarrow> 'e object_segment \<Rightarrow> 'e result" where
  "segment_at i s = (case elements s ! i of Free_slot _ \<Rightarrow> err invalid_argument | Used_slot e \<Rightarrow> ok e)"

subsection \<open>Pools\<close>

text \<open>A pool is the list of its segments; \<open>n\<close> is the number of elements of each.\<close>

fun pool_allocate_from :: "nat \<Rightarrow> nat \<Rightarrow> 'e \<Rightarrow> 'e object_segment list \<Rightarrow> (nat result \<times> 'e object_segment list) option" where
  "pool_allocate_from n index e [] = Some (err out_of_memory, [])"
| "pool_allocate_from n index e (s # ss) = do {
     (r, s) \<leftarrow> segment_allocate e s;
     (case r of
        Inr i \<Rightarrow> Some (ok (index + i), s # ss)
      | Inl _ \<Rightarrow> do {
          (r, ss) \<leftarrow> pool_allocate_from n (index + n) e ss;
          Some (r, s # ss) }) }"

definition pool_allocate :: "nat \<Rightarrow> 'e \<Rightarrow> 'e object_segment list \<Rightarrow> (nat result \<times> 'e object_segment list) option" where
  "pool_allocate n e ss = pool_allocate_from n 0 e ss"

text \<open>The number of the segment and the index in it, with the entry that is there.\<close>

fun at_with_segment :: "nat \<Rightarrow> nat \<Rightarrow> nat \<Rightarrow> 'e object_segment list \<Rightarrow> (nat \<times> nat \<times> 'e) result" where
  "at_with_segment n k index [] = err not_found"
| "at_with_segment n k index (s # ss) =
     (if index \<ge> n then at_with_segment n (k + 1) (index - n) ss
      else case segment_at index s of Inl e \<Rightarrow> err e | Inr e \<Rightarrow> ok (k, index, e))"

definition pool_at :: "nat \<Rightarrow> nat \<Rightarrow> 'e object_segment list \<Rightarrow> 'e result" where
  "pool_at n index ss = map_sum id (snd \<circ> snd) (at_with_segment n 0 index ss)"

text \<open>The result is the entry that the destructor was called for.\<close>

definition pool_free :: "nat \<Rightarrow> nat \<Rightarrow> 'e object_segment list \<Rightarrow> 'e result \<times> 'e object_segment list" where
  "pool_free n index ss = (case at_with_segment n 0 index ss of
     Inl e \<Rightarrow> (err e, ss)
   | Inr (k, i, e) \<Rightarrow> (ok e, ss[k := segment_free i (ss ! k)]))"

subsection \<open>Handle tables\<close>

record 'o handle_entry =
  handle_object :: 'o
  granted_access :: u32

definition fd_base :: int where "fd_base = 2 + 1"

definition handle_size :: nat where "handle_size = 16"

type_synonym 'o handle_table = "'o handle_entry object_segment list"

definition handle_table :: "'o handle_table" where
  "handle_table = [object_segment (elements_count handle_size)]"

definition handle_allocate :: "'o \<Rightarrow> u32 \<Rightarrow> 'o handle_table \<Rightarrow> (int result \<times> 'o handle_table) option" where
  "handle_allocate object access t = do {
     (r, t) \<leftarrow> pool_allocate (elements_count handle_size) \<lparr>handle_object = object, granted_access = access\<rparr> t;
     Some (map_sum id (\<lambda>i. int i + fd_base) r, t) }"

definition handle_free :: "int \<Rightarrow> 'o handle_table \<Rightarrow> 'o handle_entry result \<times> 'o handle_table" where
  "handle_free fd t = (if fd < fd_base then (err invalid_argument, t)
     else pool_free (elements_count handle_size) (nat (fd - fd_base)) t)"

definition handle_at :: "int \<Rightarrow> 'o handle_table \<Rightarrow> 'o handle_entry result" where
  "handle_at fd t = (if fd < fd_base then err invalid_argument else pool_at (elements_count handle_size) (nat (fd - fd_base)) t)"

text \<open>\<^verbatim>\<open>reference_object\<close>: the object of a handle, if it is of the kind that \<open>is_kind\<close> accepts.\<close>

definition reference_object :: "('o \<Rightarrow> bool) \<Rightarrow> int \<Rightarrow> 'o handle_table \<Rightarrow> 'o result" where
  "reference_object is_kind fd t = (case handle_at fd t of
     Inl e \<Rightarrow> err e
   | Inr entry \<Rightarrow> if is_kind (handle_object entry) then ok (handle_object entry) else err bad_cast)"

subsection \<open>What a client of a pool may rely on\<close>

locale slot_store =
  fixes holds :: "'s \<Rightarrow> (nat \<Rightarrow> 'e option) \<Rightarrow> bool" and capacity :: nat
    and allocate :: "'e \<Rightarrow> 's \<Rightarrow> (nat result \<times> 's) option" and lookup :: "nat \<Rightarrow> 's \<Rightarrow> 'e result" and release :: "nat \<Rightarrow> 's \<Rightarrow> 'e result \<times> 's"
  assumes within: "holds s m \<Longrightarrow> dom m \<subseteq> {..<capacity}"
    and allocates: "holds s m \<Longrightarrow> dom m \<noteq> {..<capacity} \<Longrightarrow> \<exists>i s'. allocate e s = Some (ok i, s') \<and> i < capacity \<and> m i = None \<and> holds s' (m(i \<mapsto> e))"
    and full: "holds s m \<Longrightarrow> dom m = {..<capacity} \<Longrightarrow> allocate e s = Some (err out_of_memory, s)"
    and finds: "holds s m \<Longrightarrow> m i = Some e \<Longrightarrow> lookup i s = ok e"
    and misses: "holds s m \<Longrightarrow> m i = None \<Longrightarrow> lookup i s = err (if i < capacity then invalid_argument else not_found)"
    and releases: "holds s m \<Longrightarrow> m i = Some e \<Longrightarrow> \<exists>s'. release i s = (ok e, s') \<and> holds s' (m(i := None))"
    and keeps: "holds s m \<Longrightarrow> m i = None \<Longrightarrow> release i s = (err (if i < capacity then invalid_argument else not_found), s)"
begin

lemma lookup_eq: "holds s m \<Longrightarrow> lookup i s = (case m i of Some e \<Rightarrow> ok e | None \<Rightarrow> err (if i < capacity then invalid_argument else not_found))"
  using finds misses by (cases "m i") auto

text \<open>A new entry is found under its index, which was not in use, and the other entries stay.\<close>

lemma allocate_cases:
  assumes "holds s m"
  obtains (room) i s' where "allocate e s = Some (ok i, s')" "i < capacity" "m i = None" "holds s' (m(i \<mapsto> e))" "card (dom m) < capacity"
  | (no_room) "allocate e s = Some (err out_of_memory, s)" "card (dom m) = capacity"
proof (cases "dom m = {..<capacity}")
  case True
  then show ?thesis using full [OF assms] no_room by simp
next
  case False
  then have "dom m \<subset> {..<capacity}" using within [OF assms] by blast
  then have "card (dom m) < capacity" using psubset_card_mono [of "{..<capacity}" "dom m"] by simp
  then show ?thesis using allocates [OF assms False] room by blast
qed

lemma release_cases:
  assumes "holds s m"
  obtains (used) e s' where "m i = Some e" "release i s = (ok e, s')" "holds s' (m(i := None))"
  | (unused) "m i = None" "release i s = (err (if i < capacity then invalid_argument else not_found), s)"
  using releases [OF assms] keeps [OF assms] by (cases "m i") blast+

end

subsection \<open>A segment is such a store\<close>

text \<open>The free elements are chained from the head, each once.\<close>

fun chain :: "'e slot list \<Rightarrow> nat option \<Rightarrow> nat list \<Rightarrow> bool" where
  "chain els head [] \<longleftrightarrow> head = None"
| "chain els head (i # fl) \<longleftrightarrow> head = Some i \<and> i < length els \<and> (case els ! i of Free_slot next \<Rightarrow> chain els next fl | Used_slot _ \<Rightarrow> False)"

definition seg_inv :: "'e object_segment \<Rightarrow> nat list \<Rightarrow> (nat \<Rightarrow> 'e option) \<Rightarrow> bool" where
  "seg_inv s fl m \<longleftrightarrow> length (elements s) = 254 \<and> chain (elements s) (free_head s) fl \<and> distinct fl \<and> seg_frees s = of_nat (length fl) \<and>
     (\<forall>i. m i = None \<longleftrightarrow> i \<ge> 254 \<or> i \<in> set fl) \<and> (\<forall>i e. m i = Some e \<longrightarrow> elements s ! i = Used_slot e)"

definition segment_holds :: "'e object_segment list \<Rightarrow> (nat \<Rightarrow> 'e option) \<Rightarrow> bool" where
  "segment_holds ss m \<longleftrightarrow> (\<exists>s fl. ss = [s] \<and> seg_inv s fl m)"

lemma handle_capacity: "elements_count handle_size = 254"
  by (simp add: elements_count_def segment_size_def segment_header_size_def handle_size_def)

lemma chain_update: "i \<notin> set fl \<Longrightarrow> chain (els[i := x]) head fl = chain els head fl"
  by (induction fl arbitrary: head) (auto split: slot.splits)

lemma chain_member: "chain els head fl \<Longrightarrow> i \<in> set fl \<Longrightarrow> i < length els \<and> (\<exists>next. els ! i = Free_slot next)"
  by (induction fl arbitrary: head) (auto split: slot.splits)

lemma chain_up: "k \<le> n \<Longrightarrow> chain (map (\<lambda>i. Free_slot (if i < n - 1 then Some (i + 1) else None)) [0..<n]) (if k < n then Some k else None) [k..<n]"
proof (induction "n - k" arbitrary: k)
  case (Suc d)
  then have "[k..<n] = k # [Suc k..<n]" by (simp add: upt_conv_Cons)
  then show ?case using Suc.hyps(1) [of "Suc k"] Suc.hyps(2) Suc.prems by (cases "Suc k < n") auto
qed simp

lemma fresh_segment_holds: "segment_holds [object_segment (elements_count handle_size)] Map.empty"
proof -
  have "chain (elements (object_segment 254)) (free_head (object_segment 254)) [0..<254]"
    using chain_up [of 0 254] by (simp add: object_segment_def del: upt_rec_numeral)
  then show ?thesis
    by (auto simp: segment_holds_def seg_inv_def handle_capacity object_segment_def simp del: upt_rec_numeral intro!: exI [of _ "[0..<254]"])
qed

lemma seg_invD:
  assumes "seg_inv s fl m"
  shows "length (elements s) = 254" "chain (elements s) (free_head s) fl" "distinct fl" "seg_frees s = of_nat (length fl)"
    "m i = None \<longleftrightarrow> i \<ge> 254 \<or> i \<in> set fl" "m i = Some e \<Longrightarrow> elements s ! i = Used_slot e"
  using assms by (simp_all add: seg_inv_def)

lemma holds_at:
  assumes "segment_holds ss m"
  shows "at_with_segment 254 0 i ss = (case m i of Some e \<Rightarrow> ok (0, i, e) | None \<Rightarrow> err (if i < 254 then invalid_argument else not_found))"
proof -
  obtain s fl where ss: "ss = [s]" and inv: "seg_inv s fl m" using assms by (auto simp: segment_holds_def)
  note s = seg_invD [OF inv]
  show ?thesis
  proof (cases "m i")
    case None
    then have "i \<ge> 254 \<or> i \<in> set fl" using s(5) by simp
    then show ?thesis using None ss chain_member [OF s(2), of i] by (auto simp: segment_at_def)
  next
    case (Some e)
    then have "i < 254" using s(5) [of i] by auto
    then show ?thesis using Some ss s(6) by (simp add: segment_at_def)
  qed
qed

lemma holds_allocate:
  assumes "segment_holds ss m" and "dom m \<noteq> {..<254}"
  shows "\<exists>i s'. pool_allocate 254 e ss = Some (ok i, s') \<and> i < 254 \<and> m i = None \<and> segment_holds s' (m(i \<mapsto> e))"
proof -
  obtain s fl where ss: "ss = [s]" and inv: "seg_inv s fl m" using assms by (auto simp: segment_holds_def)
  note s = seg_invD [OF inv]
  have "fl \<noteq> []"
  proof
    assume "fl = []"
    then have "m i \<noteq> None \<longleftrightarrow> i < 254" for i using s(5) [of i] by auto
    then show False using assms(2) by (auto simp: dom_def)
  qed
  then obtain i gl where fl: "fl = i # gl" by (cases fl) auto
  then obtain nx where i: "free_head s = Some i" "i < 254" "elements s ! i = Free_slot nx" "chain (elements s) nx gl" "i \<notin> set gl"
    using s(1-3) by (auto split: slot.splits)
  let ?s = "s\<lparr>free_head := nx, seg_frees := seg_frees s - 1, elements := (elements s)[i := Used_slot e]\<rparr>"
  have "seg_inv ?s gl (m(i \<mapsto> e))"
    using inv i fl by (auto simp: seg_inv_def chain_update nth_list_update)
  moreover have "pool_allocate 254 e ss = Some (ok i, [?s])" using ss s(1) i by (simp add: pool_allocate_def segment_allocate_def)
  ultimately show ?thesis using i(2) s(5) [of i] fl by (auto simp: segment_holds_def)
qed

lemma holds_full:
  assumes "segment_holds ss m" and "dom m = {..<254}"
  shows "pool_allocate 254 e ss = Some (err out_of_memory, ss)"
proof -
  obtain s fl where ss: "ss = [s]" and inv: "seg_inv s fl m" using assms by (auto simp: segment_holds_def)
  note s = seg_invD [OF inv]
  have "i \<notin> set fl" for i using chain_member [OF s(2), of i] s(1,5) assms(2) by (metis domIff lessThan_iff)
  then have "fl = []" by (cases fl) auto
  then show ?thesis using ss s(2) by (simp add: pool_allocate_def segment_allocate_def)
qed

lemma holds_release:
  assumes "segment_holds ss m" and "m i = Some e"
  shows "\<exists>s'. pool_free 254 i ss = (ok e, s') \<and> segment_holds s' (m(i := None))"
proof -
  obtain s fl where ss: "ss = [s]" and inv: "seg_inv s fl m" using assms by (auto simp: segment_holds_def)
  note s = seg_invD [OF inv]
  have i: "i < 254" "i \<notin> set fl" using s(5) [of i] assms(2) by auto
  have "seg_inv (segment_free i s) (i # fl) (m(i := None))"
    using inv i by (auto simp: seg_inv_def segment_free_def chain_update nth_list_update)
  then show ?thesis using holds_at [OF assms(1), of i] assms(2) ss by (auto simp: pool_free_def segment_holds_def)
qed

interpretation hs: slot_store segment_holds 254 "pool_allocate 254" "pool_at 254" "pool_free 254"
proof unfold_locales
  fix s :: "'e object_segment list" and m i e
  assume h: "segment_holds s m"
  show "dom m \<subseteq> {..<254}" using h unfolding segment_holds_def seg_inv_def by (metis domIff lessThan_iff linorder_not_less subsetI)
  show "dom m \<noteq> {..<254} \<Longrightarrow> \<exists>i s'. pool_allocate 254 e s = Some (ok i, s') \<and> i < 254 \<and> m i = None \<and> segment_holds s' (m(i \<mapsto> e))"
    by (rule holds_allocate [OF h])
  show "dom m = {..<254} \<Longrightarrow> pool_allocate 254 e s = Some (err out_of_memory, s)" by (rule holds_full [OF h])
  show "m i = Some e \<Longrightarrow> pool_at 254 i s = ok e" by (simp add: pool_at_def holds_at [OF h])
  show "m i = None \<Longrightarrow> pool_at 254 i s = err (if i < 254 then invalid_argument else not_found)" by (simp add: pool_at_def holds_at [OF h])
  show "m i = Some e \<Longrightarrow> \<exists>s'. pool_free 254 i s = (ok e, s') \<and> segment_holds s' (m(i := None))" by (rule holds_release [OF h])
  show "m i = None \<Longrightarrow> pool_free 254 i s = (err (if i < 254 then invalid_argument else not_found), s)" by (simp add: pool_free_def holds_at [OF h])
qed

subsection \<open>Handle tables answer like a map\<close>

datatype 'o handle_command = Open 'o u32 | Reference int | Close int

datatype 'o handle_answer = Handle int | Entry "'o handle_entry" | Closed "'o handle_entry" | Failed error_code

fun serve_handle :: "'o handle_command \<Rightarrow> 'o handle_table \<Rightarrow> ('o handle_answer \<times> 'o handle_table) option" where
  "serve_handle (Open object access) t = do {
     (r, t) \<leftarrow> handle_allocate object access t;
     Some (case r of Inl e \<Rightarrow> Failed e | Inr fd \<Rightarrow> Handle fd, t) }"
| "serve_handle (Reference fd) t = Some (case handle_at fd t of Inl e \<Rightarrow> Failed e | Inr entry \<Rightarrow> Entry entry, t)"
| "serve_handle (Close fd) t = (case handle_free fd t of
     (Inl e, t) \<Rightarrow> Some (Failed e, t)
   | (Inr entry, t) \<Rightarrow> Some (Closed entry, t))"

fun serve_handles :: "'o handle_command list \<Rightarrow> 'o handle_table \<Rightarrow> ('o handle_answer list \<times> 'o handle_table) option" where
  "serve_handles [] t = Some ([], t)"
| "serve_handles (c # cs) t = do {
     (a, t) \<leftarrow> serve_handle c t;
     (as, t) \<leftarrow> serve_handles cs t;
     Some (a # as, t) }"

text \<open>The answers a process may see, given the handles that are open.\<close>

definition no_handle :: "int \<Rightarrow> error_code" where
  "no_handle fd = (if fd < 257 then invalid_argument else not_found)"

fun answers :: "(int \<Rightarrow> 'o handle_entry option) \<Rightarrow> 'o handle_command list \<Rightarrow> 'o handle_answer list \<Rightarrow> bool" where
  "answers m [] [] = True"
| "answers m (Open object access # cs) (a # as) = (case a of
     Handle fd \<Rightarrow> 3 \<le> fd \<and> fd < 257 \<and> m fd = None \<and> answers (m(fd \<mapsto> \<lparr>handle_object = object, granted_access = access\<rparr>)) cs as
   | Failed e \<Rightarrow> e = out_of_memory \<and> card (dom m) = 254 \<and> answers m cs as
   | _ \<Rightarrow> False)"
| "answers m (Reference fd # cs) (a # as) = (a = (case m fd of None \<Rightarrow> Failed (no_handle fd) | Some e \<Rightarrow> Entry e) \<and> answers m cs as)"
| "answers m (Close fd # cs) (a # as) = (a = (case m fd of None \<Rightarrow> Failed (no_handle fd) | Some e \<Rightarrow> Closed e) \<and> answers (m(fd := None)) cs as)"
| "answers m _ _ = False"

text \<open>The open handles of a table.\<close>

definition by_handle :: "(nat \<Rightarrow> 'e option) \<Rightarrow> int \<Rightarrow> 'e option" where
  "by_handle m fd = (if fd < 3 then None else m (nat (fd - 3)))"

lemma by_handle_update: "by_handle (m(i := x)) = (by_handle m)(int i + 3 := x)"
  by (auto simp: by_handle_def fun_eq_iff)

lemma by_handle_card: "card (dom (by_handle m)) = card (dom m)"
proof -
  have "dom (by_handle m) = (\<lambda>i. int i + 3) ` dom m"
  proof (rule set_eqI)
    fix fd
    show "fd \<in> dom (by_handle m) \<longleftrightarrow> fd \<in> (\<lambda>i. int i + 3) ` dom m"
    proof (cases "fd < 3")
      case True
      then show ?thesis by (simp add: by_handle_def image_iff domIff)
    next
      case False
      then have "fd = int (nat (fd - 3)) + 3" by simp
      moreover have "nat (fd - 3) = i" if "fd = int i + 3" for i using that by simp
      ultimately show ?thesis using False by (auto simp: by_handle_def domIff intro!: image_eqI [of _ _ "nat (fd - 3)"])
    qed
  qed
  then show ?thesis by (simp add: card_image inj_on_def)
qed

lemma handle_at_holds: "segment_holds t m \<Longrightarrow> handle_at fd t = (case by_handle m fd of None \<Rightarrow> err (no_handle fd) | Some e \<Rightarrow> ok e)"
  using hs.lookup_eq [of t m "nat (fd - 3)"] by (auto simp: handle_at_def fd_base_def handle_capacity by_handle_def no_handle_def split: option.splits)

lemma handle_free_holds:
  assumes "segment_holds t m"
  shows "\<exists>m' t'. handle_free fd t = (case by_handle m fd of None \<Rightarrow> err (no_handle fd) | Some e \<Rightarrow> ok e, t') \<and> segment_holds t' m' \<and> by_handle m' = (by_handle m)(fd := None)"
proof (cases "fd < 3")
  case True
  then have "by_handle m fd = None" by (simp add: by_handle_def)
  then show ?thesis using True assms by (auto simp: handle_free_def fd_base_def no_handle_def fun_upd_idem)
next
  case False
  then have fd: "int (nat (fd - 3)) + 3 = fd" "by_handle m fd = m (nat (fd - 3))" by (simp_all add: by_handle_def)
  show ?thesis
  proof (cases rule: hs.release_cases [OF assms, of "nat (fd - 3)"])
    case (1 e t')
    then show ?thesis using fd False by (auto simp: handle_free_def fd_base_def handle_capacity by_handle_update intro!: exI [of _ "m(nat (fd - 3) := None)"])
  next
    case 2
    then show ?thesis using fd False assms by (auto simp: handle_free_def fd_base_def handle_capacity no_handle_def fun_upd_idem)
  qed
qed

lemma serve_handles_answers:
  assumes "segment_holds t m"
  shows "\<exists>as t'. serve_handles cs t = Some (as, t') \<and> answers (by_handle m) cs as"
  using assms
proof (induction cs arbitrary: t m)
  case (Cons c cs)
  show ?case
  proof (cases c)
    case (Open object access)
    let ?e = "\<lparr>handle_object = object, granted_access = access\<rparr>"
    show ?thesis
    proof (cases rule: hs.allocate_cases [OF Cons.prems, of ?e])
      case (1 i t1)
      obtain as t' where "serve_handles cs t1 = Some (as, t')" "answers (by_handle (m(i \<mapsto> ?e))) cs as" using Cons.IH [OF 1(4)] by blast
      then show ?thesis
        using Open 1 by (simp add: handle_allocate_def handle_capacity fd_base_def by_handle_update by_handle_def [of m "int i + 3"])
    next
      case 2
      obtain as t' where "serve_handles cs t = Some (as, t')" "answers (by_handle m) cs as" using Cons.IH [OF Cons.prems] by blast
      then show ?thesis using Open 2 by (simp add: handle_allocate_def handle_capacity by_handle_card)
    qed
  next
    case (Reference fd)
    obtain as t' where "serve_handles cs t = Some (as, t')" "answers (by_handle m) cs as" using Cons.IH [OF Cons.prems] by blast
    then show ?thesis using Reference handle_at_holds [OF Cons.prems, of fd] by (simp split: option.splits)
  next
    case (Close fd)
    obtain m' t1 where t1: "handle_free fd t = (case by_handle m fd of None \<Rightarrow> err (no_handle fd) | Some e \<Rightarrow> ok e, t1)" "segment_holds t1 m'"
        "by_handle m' = (by_handle m)(fd := None)"
      using handle_free_holds [OF Cons.prems, of fd] by blast
    obtain as t' where "serve_handles cs t1 = Some (as, t')" "answers (by_handle m') cs as" using Cons.IH [OF t1(2)] by blast
    then show ?thesis using Close t1 by (simp split: option.splits)
  qed
qed simp

text \<open>
  C16. Whatever a process opens, uses and closes, its handle table answers like a finite map: a new handle is a number from 3 to 256 that is
  not open, and is refused exactly when 254 handles are open; a handle finds the entry it was made for as long as it is open; closing
  it destroys that entry; and a number that is not open is an error, in closing twice as in any other use.
\<close>

theorem handle_table_is_map:
  fixes commands :: "'o handle_command list"
  shows "\<exists>as t. serve_handles commands handle_table = Some (as, t) \<and> answers Map.empty commands as"
proof -
  have "by_handle (Map.empty :: nat \<Rightarrow> 'o handle_entry option) = Map.empty" by (simp add: by_handle_def fun_eq_iff)
  then show ?thesis using serve_handles_answers [OF fresh_segment_holds, of commands] by (simp add: handle_table_def)
qed

end
