(* ===== verification/Kernel_Directory.thy ===== *)
theory Kernel_Directory
  imports Kernel_Base
begin

section \<open>Directories of named objects\<close>

text \<open>
  Model of the object manager of the kernel: directories (\<^verbatim>\<open>src/src/os/kernel/ob/directory.cpp\<close>), the root directory
  (\<^verbatim>\<open>object_manager.cpp\<close>) and the search for the device of a path (\<^verbatim>\<open>find_device\<close> of \<^verbatim>\<open>io/io_manager.cpp\<close>).
  An object has a name and an identity; a directory has its items, in the order of the list \<^verbatim>\<open>items_\<close>, which is kept
  sorted by name.  An object is in one list at most, so the directories form a tree.  The mutex of a directory is held while its
  items are searched and changed.  An operation on a directory returns its items after it.
\<close>

subsection \<open>Names\<close>

definition directory_separator :: char where "directory_separator = CHR ''/''"

text \<open>\<^verbatim>\<open>std::string_view::compare\<close>: by characters as unsigned numbers, then by length.\<close>

fun compare_names :: "string \<Rightarrow> string \<Rightarrow> int" where
  "compare_names [] [] = 0"
| "compare_names [] (b # bs) = - 1"
| "compare_names (a # as) [] = 1"
| "compare_names (a # as) (b # bs) = (if a = b then compare_names as bs else if (of_char a :: nat) < of_char b then - 1 else 1)"

subsection \<open>Objects\<close>

datatype named_object = Object (object_name: string) (object_id: nat)
  | Directory (object_name: string) (object_id: nat) "named_object list"

text \<open>The search for an item: its position, or that of the first item behind it, or of the end.\<close>

fun find_item :: "string \<Rightarrow> named_object list \<Rightarrow> nat \<Rightarrow> nat \<times> error_code" where
  "find_item component [] i = (i, not_found)"
| "find_item component (x # xs) i = (let cmp = compare_names (object_name x) component in
     if cmp = 0 then (i, key_already_exists) else if cmp > 0 then (i, not_found) else find_item component xs (i + 1))"

function insert_or_lookup :: "named_object option \<Rightarrow> string \<Rightarrow> named_object \<times> named_object list \<Rightarrow> (named_object \<times> string) result \<times> named_object list" where
  "insert_or_lookup insert_object path dir = (case dir of (self, items) \<Rightarrow>
     if path = [] then (if insert_object = None then ok (self, []) else err invalid_path, items)
     else if hd path = directory_separator then (err invalid_path, items)
     else let component = takeWhile (\<lambda>c. c \<noteq> directory_separator) path;
              remaining = drop (Suc (length component)) path;
              (pivot, found) = find_item component items 0 in
       if component = [] then (if remaining = [] \<and> insert_object = None then ok (self, []) else err invalid_path, items)
       else if remaining = [] then (case insert_object of
           Some object \<Rightarrow> if found = not_found then (ok (object, []), take pivot items @ object # drop pivot items) else (err found, items)
         | None \<Rightarrow> (if found = key_already_exists then ok (items ! pivot, []) else err found, items))
       else if found = key_already_exists \<and> pivot < length items then (case items ! pivot of
           Directory name ident subs \<Rightarrow> (let (r, subs) = insert_or_lookup insert_object remaining (Directory name ident subs, subs) in
             (r, items[pivot := Directory name ident subs]))
         | Object _ _ \<Rightarrow> (if insert_object \<noteq> None then err not_supported else ok (items ! pivot, remaining), items))
       else (err found, items))"
  by pat_completeness auto

termination by (relation "measure (\<lambda>(insert_object, path, dir). length path)") (auto simp: Suc_le_eq)

declare insert_or_lookup.simps [simp del]

definition directory_insert :: "named_object \<Rightarrow> string \<Rightarrow> named_object \<times> named_object list \<Rightarrow> unit result \<times> named_object list" where
  "directory_insert object path dir = (case insert_or_lookup (Some object) path dir of (r, items) \<Rightarrow> (map_sum id (\<lambda>_. ()) r, items))"

definition directory_lookup_partial :: "string \<Rightarrow> named_object \<times> named_object list \<Rightarrow> (named_object \<times> string) result" where
  "directory_lookup_partial path dir = fst (insert_or_lookup None path dir)"

definition directory_lookup :: "string \<Rightarrow> named_object \<times> named_object list \<Rightarrow> named_object result" where
  "directory_lookup path dir = (case fst (insert_or_lookup None path dir) of
     Inl e \<Rightarrow> err e
   | Inr (object, remaining) \<Rightarrow> if remaining = [] then ok object else err not_found)"

text \<open>The object has to be in the directory.\<close>

definition directory_remove :: "named_object \<Rightarrow> named_object list \<Rightarrow> named_object list option" where
  "directory_remove object items = (if object \<in> set items then Some (remove1 object items) else None)"

subsection \<open>The root directory\<close>

definition root_directory :: "named_object list \<Rightarrow> named_object \<times> named_object list" where
  "root_directory items = (Directory [] 0 items, items)"

definition insert_object :: "named_object \<Rightarrow> string \<Rightarrow> named_object list \<Rightarrow> unit result \<times> named_object list" where
  "insert_object object path root = (if path = [] \<or> hd path \<noteq> directory_separator then (err invalid_path, root)
     else directory_insert object (tl path) (root_directory root))"

definition lookup_object :: "string \<Rightarrow> named_object list \<Rightarrow> named_object result" where
  "lookup_object path root = (if path = [] \<or> hd path \<noteq> directory_separator then err invalid_path
     else directory_lookup (tl path) (root_directory root))"

definition lookup_object_partial :: "string \<Rightarrow> named_object list \<Rightarrow> (named_object \<times> string) result" where
  "lookup_object_partial path root = (if path = [] \<or> hd path \<noteq> directory_separator then err invalid_path
     else directory_lookup_partial (tl path) (root_directory root))"

text \<open>The device of a path and the rest of the path; \<open>is_device\<close> are the objects of the class of devices.\<close>

definition find_device :: "(named_object \<Rightarrow> bool) \<Rightarrow> string \<Rightarrow> named_object list \<Rightarrow> (named_object \<times> string) result" where
  "find_device is_device path root =
     (let r = (case lookup_object_partial path root of Inl e \<Rightarrow> err e
                 | Inr (object, remaining) \<Rightarrow> if is_device object then ok (object, remaining) else err bad_cast) in
      case r of
        Inr result \<Rightarrow> ok result
      | Inl e \<Rightarrow>
          if e = not_found \<and> path \<noteq> [] \<and> hd path = directory_separator then
            (case lookup_object ''/dev/fs0'' root of
               Inl e \<Rightarrow> err e
             | Inr fs0 \<Rightarrow> if is_device fs0 then ok (fs0, tl path) else err bad_cast)
          else err e)"

subsection \<open>The order of names\<close>

lemma compare_eq_0: "compare_names as bs = 0 \<longleftrightarrow> as = bs"
  by (induction as bs rule: compare_names.induct) auto

lemma compare_swap: "compare_names bs as = - compare_names as bs"
  by (induction as bs rule: compare_names.induct) (auto simp: not_less order_le_less)

lemma compare_trans: "compare_names as bs < 0 \<Longrightarrow> compare_names bs cs < 0 \<Longrightarrow> compare_names as cs < 0"
proof (induction as bs arbitrary: cs rule: compare_names.induct)
  case (4 a as b bs)
  then show ?case by (cases cs) (auto split: if_splits)
next
  case (2 b bs)
  then show ?case by (cases cs) auto
qed auto

definition before_name :: "named_object \<Rightarrow> named_object \<Rightarrow> bool" where
  "before_name x y \<longleftrightarrow> compare_names (object_name x) (object_name y) < 0"

fun sorted_object :: "named_object \<Rightarrow> bool" where
  "sorted_object (Object name ident) = True"
| "sorted_object (Directory name ident items) \<longleftrightarrow> sorted_wrt before_name items \<and> (\<forall>x \<in> set items. sorted_object x)"

definition sorted_items :: "named_object list \<Rightarrow> bool" where
  "sorted_items items \<longleftrightarrow> sorted_wrt before_name items \<and> (\<forall>x \<in> set items. sorted_object x)"

text \<open>The item of a name, wherever it is.\<close>

definition item_named :: "string \<Rightarrow> named_object list \<Rightarrow> named_object option" where
  "item_named c items = find (\<lambda>x. object_name x = c) items"

lemma find_item_found:
  assumes "sorted_wrt before_name items"
  shows "case find_item c items i of (pivot, found) \<Rightarrow> i \<le> pivot \<and> pivot \<le> i + length items \<and>
    (case item_named c items of
       Some x \<Rightarrow> found = key_already_exists \<and> pivot < i + length items \<and> items ! (pivot - i) = x
     | None \<Rightarrow> found = not_found \<and> (\<forall>x \<in> set (take (pivot - i) items). compare_names (object_name x) c < 0) \<and>
         (\<forall>x \<in> set (drop (pivot - i) items). compare_names c (object_name x) < 0))"
  using assms
proof (induction items arbitrary: i)
  case Nil
  then show ?case by (simp add: item_named_def)
next
  case (Cons x xs)
  let ?cmp = "compare_names (object_name x) c"
  consider "?cmp = 0" | "?cmp > 0" | "?cmp < 0" by linarith
  then show ?case
  proof cases
    case 1
    then show ?thesis by (simp add: item_named_def compare_eq_0)
  next
    case 2
    then have cx: "compare_names c (object_name x) < 0" using compare_swap [of "object_name x" c] by simp
    then have "compare_names c (object_name y) < 0" if "y \<in> set xs" for y
      using Cons.prems that compare_trans [OF cx, of "object_name y"] by (simp add: before_name_def)
    then have "\<forall>y \<in> set (x # xs). compare_names c (object_name y) < 0" using cx by simp
    moreover from this have "item_named c (x # xs) = None"
      using compare_eq_0 [of c c] by (auto simp: item_named_def find_None_iff)
    ultimately show ?thesis using 2 by simp
  next
    case 3
    then have "object_name x \<noteq> c" using compare_eq_0 [of c c] by auto
    then have item: "item_named c (x # xs) = item_named c xs" by (simp add: item_named_def)
    obtain p f where pf: "find_item c xs (Suc i) = (p, f)" by force
    have IH: "case find_item c xs (Suc i) of (pivot, found) \<Rightarrow> Suc i \<le> pivot \<and> pivot \<le> Suc i + length xs \<and>
      (case item_named c xs of
         Some x \<Rightarrow> found = key_already_exists \<and> pivot < Suc i + length xs \<and> xs ! (pivot - Suc i) = x
       | None \<Rightarrow> found = not_found \<and> (\<forall>x \<in> set (take (pivot - Suc i) xs). compare_names (object_name x) c < 0) \<and>
           (\<forall>x \<in> set (drop (pivot - Suc i) xs). compare_names c (object_name x) < 0))"
      by (rule Cons.IH) (use Cons.prems in simp)
    then have "Suc i \<le> p" using pf by simp
    then have "p - i = Suc (p - Suc i)" by simp
    then show ?thesis using IH pf 3 item by (auto split: option.splits)
  qed
qed

subsection \<open>Paths\<close>

fun join_path :: "string list \<Rightarrow> string" where
  "join_path [] = []"
| "join_path [c] = c"
| "join_path (c # cs) = c @ directory_separator # join_path cs"

definition valid_path :: "string list \<Rightarrow> bool" where
  "valid_path cs \<longleftrightarrow> cs \<noteq> [] \<and> (\<forall>c \<in> set cs. c \<noteq> [] \<and> directory_separator \<notin> set c)"

text \<open>Where a path leads, and what of it is left when it leads through an object that is no directory.\<close>

fun walk :: "string list \<Rightarrow> named_object list \<Rightarrow> (named_object \<times> string list) option" where
  "walk [] items = None"
| "walk [c] items = map_option (\<lambda>x. (x, [])) (item_named c items)"
| "walk (c # cs) items = (case item_named c items of
     None \<Rightarrow> None
   | Some (Directory name ident subs) \<Rightarrow> walk cs subs
   | Some (Object name ident) \<Rightarrow> Some (Object name ident, cs))"

text \<open>The object at a path.\<close>

definition at_path :: "string list \<Rightarrow> named_object list \<Rightarrow> named_object option" where
  "at_path cs items = (case walk cs items of Some (x, []) \<Rightarrow> Some x | _ \<Rightarrow> None)"

text \<open>The components of a path as it is written, whatever it is: a separator at the end is passed over, an empty name is not.\<close>

function components :: "string \<Rightarrow> string list" where
  "components path = (if path = [] then [] else
     let c = takeWhile (\<lambda>x. x \<noteq> directory_separator) path in c # components (drop (Suc (length c)) path))"
  by pat_completeness auto

termination by (relation "measure length") auto

declare components.simps [simp del]

text \<open>Why an object cannot be inserted under a path, in the order in which the path is walked.\<close>

fun insert_error :: "string list \<Rightarrow> named_object list \<Rightarrow> error_code option" where
  "insert_error [] items = Some invalid_path"
| "insert_error [c] items = (if c = [] then Some invalid_path else if item_named c items = None then None else Some key_already_exists)"
| "insert_error (c # cs) items = (if c = [] then Some invalid_path else case item_named c items of
     None \<Rightarrow> Some not_found
   | Some (Directory name ident subs) \<Rightarrow> insert_error cs subs
   | Some (Object name ident) \<Rightarrow> Some not_supported)"

text \<open>The first component of a path and the rest behind its separator.\<close>

definition first_component :: "string \<Rightarrow> string \<Rightarrow> string \<Rightarrow> bool" where
  "first_component path c rest \<longleftrightarrow> path \<noteq> [] \<and> hd path \<noteq> directory_separator \<and> c \<noteq> [] \<and>
     takeWhile (\<lambda>x. x \<noteq> directory_separator) path = c \<and> drop (Suc (length c)) path = rest"

lemma components_cons:
  assumes "components path = c # cs" and "c \<noteq> []"
  obtains rest where "first_component path c rest" and "components rest = cs" and "rest = [] \<longleftrightarrow> cs = []"
proof -
  have path: "path \<noteq> []" and c: "takeWhile (\<lambda>x. x \<noteq> directory_separator) path = c" and cs: "components (drop (Suc (length c)) path) = cs"
    using assms(1) by (auto simp: components.simps [of path] Let_def split: if_splits)
  have "hd path \<noteq> directory_separator" using c assms(2) path by (cases path) auto
  moreover have "rest = [] \<longleftrightarrow> components rest = []" for rest by (simp add: components.simps [of rest] Let_def)
  ultimately show ?thesis using that path c cs assms(2) by (simp add: first_component_def)
qed

lemma components_empty_name:
  assumes "components path = [] # cs"
  shows "insert_or_lookup (Some object) path (self, items) = (err invalid_path, items)"
proof -
  have "path \<noteq> []" and "takeWhile (\<lambda>x. x \<noteq> directory_separator) path = []"
    using assms by (simp_all add: components.simps [of path] Let_def split: if_splits)
  then have "hd path = directory_separator" by (cases path) (auto split: if_splits)
  then show ?thesis using \<open>path \<noteq> []\<close> by (simp add: insert_or_lookup.simps [of "Some object" path])
qed

lemma join_component:
  assumes "valid_path (c # cs)"
  shows "join_path (c # cs) \<noteq> []" "hd (join_path (c # cs)) \<noteq> directory_separator" "takeWhile (\<lambda>x. x \<noteq> directory_separator) (join_path (c # cs)) = c"
    "drop (Suc (length c)) (join_path (c # cs)) = join_path cs"
proof -
  have c: "c \<noteq> []" "directory_separator \<notin> set c" using assms by (simp_all add: valid_path_def)
  then have all: "takeWhile (\<lambda>x. x \<noteq> directory_separator) c = c" by (auto simp: takeWhile_eq_all_conv)
  have hd: "hd c \<noteq> directory_separator" using c hd_in_set [OF c(1)] by metis
  have "join_path (c # cs) \<noteq> [] \<and> hd (join_path (c # cs)) \<noteq> directory_separator \<and> takeWhile (\<lambda>x. x \<noteq> directory_separator) (join_path (c # cs)) = c \<and>
    drop (Suc (length c)) (join_path (c # cs)) = join_path cs"
  proof (cases cs)
    case Nil
    then show ?thesis using c(1) all hd by simp
  next
    case (Cons d ds)
    then have j: "join_path (c # cs) = c @ directory_separator # join_path cs" by simp
    show ?thesis unfolding j using c all hd by (simp add: takeWhile_append)
  qed
  then show "join_path (c # cs) \<noteq> []" "hd (join_path (c # cs)) \<noteq> directory_separator" "takeWhile (\<lambda>x. x \<noteq> directory_separator) (join_path (c # cs)) = c"
    "drop (Suc (length c)) (join_path (c # cs)) = join_path cs" by simp_all
qed

lemma join_first: "valid_path (c # cs) \<Longrightarrow> first_component (join_path (c # cs)) c (join_path cs)"
  using join_component [of c cs] by (simp add: first_component_def valid_path_def)

lemma join_path_empty: "valid_path cs \<Longrightarrow> join_path cs \<noteq> []"
  using join_component(1) by (cases cs) (auto simp: valid_path_def)

lemma valid_tail: "valid_path (c # d # cs) \<Longrightarrow> valid_path (d # cs)"
  by (simp add: valid_path_def)

text \<open>One component of a path.\<close>

lemma step:
  assumes "first_component path c rest" and pg: "find_item c items 0 = (p, g)"
  shows "insert_or_lookup obj path (self, items) =
    (if rest = [] then (case obj of
         Some object \<Rightarrow> if g = not_found then (ok (object, []), take p items @ object # drop p items) else (err g, items)
       | None \<Rightarrow> (if g = key_already_exists then ok (items ! p, []) else err g, items))
     else if g = key_already_exists \<and> p < length items then (case items ! p of
         Directory name ident subs \<Rightarrow> (let (r, subs) = insert_or_lookup obj rest (Directory name ident subs, subs) in
           (r, items[p := Directory name ident subs]))
       | Object _ _ \<Rightarrow> (if obj \<noteq> None then err not_supported else ok (items ! p, rest), items))
     else (err g, items))"
proof -
  have j: "path \<noteq> []" "hd path \<noteq> directory_separator" "takeWhile (\<lambda>x. x \<noteq> directory_separator) path = c" "drop (Suc (length c)) path = rest" "c \<noteq> []"
    using assms(1) by (simp_all add: first_component_def)
  show ?thesis by (subst insert_or_lookup.simps) (simp only: prod.case Let_def j pg if_False simp_thms)
qed

lemma find_item_cases:
  assumes "sorted_items items"
  obtains (found) p x where "find_item c items 0 = (p, key_already_exists)" "item_named c items = Some x" "p < length items" "items ! p = x"
  | (missing) p where "find_item c items 0 = (p, not_found)" "item_named c items = None" "p \<le> length items"
    "\<forall>x \<in> set (take p items). compare_names (object_name x) c < 0" "\<forall>x \<in> set (drop p items). compare_names c (object_name x) < 0"
proof -
  have "sorted_wrt before_name items" using assms by (simp add: sorted_items_def)
  note f = find_item_found [OF this, where c = c and i = 0]
  obtain p g where pg: "find_item c items 0 = (p, g)" by force
  show ?thesis
  proof (cases "item_named c items")
    case None
    then show ?thesis using f pg missing [of p] by simp
  next
    case (Some x)
    then show ?thesis using f pg found [of p x] by simp
  qed
qed

lemma step_last:
  assumes "first_component path c []" and "sorted_items items"
  shows "insert_or_lookup obj path (self, items) = (case (obj, item_named c items) of
    (None, Some x) \<Rightarrow> (ok (x, []), items)
  | (None, None) \<Rightarrow> (err not_found, items)
  | (Some x, None) \<Rightarrow> (let (pivot, found) = find_item c items 0 in (ok (x, []), take pivot items @ x # drop pivot items))
  | (Some _, Some _) \<Rightarrow> (err key_already_exists, items))"
  by (cases rule: find_item_cases [OF assms(2), of c]) (use step [OF assms(1)] in \<open>auto split: option.splits\<close>)

lemma step_through:
  assumes "first_component path c rest" and "rest \<noteq> []" and "sorted_items items"
  shows "insert_or_lookup obj path (self, items) = (case item_named c items of
    None \<Rightarrow> (err not_found, items)
  | Some (Object name ident) \<Rightarrow> (if obj = None then ok (Object name ident, rest) else err not_supported, items)
  | Some (Directory name ident subs) \<Rightarrow>
      (let (r, subs') = insert_or_lookup obj rest (Directory name ident subs, subs) in
       (r, items[fst (find_item c items 0) := Directory name ident subs'])))"
proof -
  note step = step [OF assms(1), unfolded if_not_P [OF assms(2)]]
  show ?thesis
    by (cases rule: find_item_cases [OF assms(3), of c]) (auto simp: step split: named_object.splits)
qed

lemma item_named_mem: "item_named c items = Some x \<Longrightarrow> x \<in> set items \<and> object_name x = c"
  by (auto simp: item_named_def find_Some_iff)

lemma sorted_subs: "sorted_items items \<Longrightarrow> item_named c items = Some (Directory name ident subs) \<Longrightarrow> sorted_items subs"
  using item_named_mem [of c items] by (fastforce simp: sorted_items_def)

lemma lookup_walks:
  assumes "valid_path cs" and "sorted_items items"
  shows "insert_or_lookup None (join_path cs) (self, items) = (case walk cs items of None \<Rightarrow> err not_found | Some (x, rest) \<Rightarrow> ok (x, join_path rest), items)"
  using assms
proof (induction cs items arbitrary: self rule: walk.induct)
  case (2 c items)
  have "first_component c c []" using join_first [OF 2(1)] by simp
  then show ?case using step_last [OF _ 2(2)] by (simp split: option.splits)
next
  case (3 c d cs items)
  note step = step_through [OF join_first [OF 3(2)] join_path_empty [OF valid_tail [OF 3(2)]] 3(3)]
  show ?case
  proof (cases "item_named c items")
    case (Some x)
    obtain p where p: "find_item c items 0 = (p, key_already_exists)" "items ! p = x"
      using Some by (cases rule: find_item_cases [OF 3(3), of c]) auto
    show ?thesis
    proof (cases x)
      case (Directory name ident subs)
      have "insert_or_lookup None (join_path (d # cs)) (Directory name ident subs, subs) =
          (case walk (d # cs) subs of None \<Rightarrow> err not_found | Some (x, rest) \<Rightarrow> ok (x, join_path rest), subs)"
        using 3(1) [OF _ refl valid_tail [OF 3(2)]] sorted_subs [OF 3(3), of c name ident subs] Some Directory by simp
      moreover have "items[p := Directory name ident subs] = items" using p(2) Directory by (metis list_update_id)
      ultimately show ?thesis using Some Directory p(1) by (simp add: step del: join_path.simps)
    qed (use Some in \<open>simp add: step del: join_path.simps\<close>)
  qed (simp add: step del: join_path.simps)
qed (simp add: valid_path_def)

subsection \<open>Insertion\<close>

definition id_at :: "string list \<Rightarrow> named_object list \<Rightarrow> nat option" where
  "id_at cs items = map_option object_id (at_path cs items)"

fun children :: "named_object \<Rightarrow> named_object list" where
  "children (Object name ident) = []"
| "children (Directory name ident items) = items"

lemma sorted_names_distinct: "sorted_wrt before_name items \<Longrightarrow> distinct (map object_name items)"
proof (induction items)
  case (Cons x xs)
  then show ?case using compare_eq_0 [of "object_name x" "object_name x"] by (auto simp: before_name_def)
qed simp

lemma item_named_update:
  assumes "distinct (map object_name items)" and "p < length items" and "object_name y = object_name (items ! p)"
  shows "item_named q (items[p := y]) = (if q = object_name y then Some y else item_named q items)"
  using assms
proof (induction items arbitrary: p)
  case (Cons x xs)
  then show ?case
  proof (cases p)
    case (Suc n)
    then have "xs ! n \<in> set xs" using Cons.prems(2) Suc by simp
    then have "object_name (xs ! n) \<in> object_name ` set xs" by (rule imageI)
    then have "object_name y \<noteq> object_name x" using Cons.prems(1,3) Suc by auto
    then show ?thesis using Suc Cons by (auto simp: item_named_def)
  qed (auto simp: item_named_def)
qed simp

lemma item_named_insert:
  assumes "item_named (object_name y) items = None"
  shows "item_named q (take p items @ y # drop p items) = (if q = object_name y then Some y else item_named q items)"
proof -
  have "find P (as @ bs) = (case find P as of None \<Rightarrow> find P bs | Some x \<Rightarrow> Some x)" for P :: "named_object \<Rightarrow> bool" and as bs
    by (induction as) auto
  note app = this [of _ "take p items" "drop p items", simplified] this
  have "object_name y \<noteq> object_name x" if "x \<in> set items" for x using assms that by (auto simp: item_named_def find_None_iff)
  moreover have "set (take p items) \<subseteq> set items" by (rule set_take_subset)
  ultimately have "object_name x \<noteq> object_name y" if "x \<in> set (take p items)" for x using that by (metis subsetD)
  then have "find (\<lambda>x. object_name x = object_name y) (take p items) = None" by (simp add: find_None_iff)
  then show ?thesis unfolding item_named_def app(2) by (auto simp: app(1) split: option.splits)
qed

lemma sorted_insert:
  assumes "sorted_items items" and "sorted_object y"
    and "\<forall>x \<in> set (take p items). compare_names (object_name x) (object_name y) < 0" and "\<forall>x \<in> set (drop p items). compare_names (object_name y) (object_name x) < 0"
  shows "sorted_items (take p items @ y # drop p items)"
proof -
  have "sorted_wrt before_name (take p items @ drop p items)" using assms(1) by (simp add: sorted_items_def)
  then have "sorted_wrt before_name (take p items @ y # drop p items)"
    using assms(3,4) unfolding sorted_wrt_append by (simp add: before_name_def)
  then show ?thesis using assms(1,2) by (auto simp: sorted_items_def dest: in_set_takeD in_set_dropD)
qed

lemma sorted_update:
  assumes "sorted_items items" and "p < length items" and "object_name y = object_name (items ! p)" and "sorted_object y"
  shows "sorted_items (items[p := y])"
proof -
  have "sorted_wrt (\<lambda>a b. compare_names a b < 0) (map object_name items)" using assms(1) by (simp add: sorted_items_def sorted_wrt_map before_name_def [abs_def])
  moreover have "map object_name (items[p := y]) = map object_name items" using assms(2,3) by (simp add: map_update list_update_same_conv)
  ultimately have "sorted_wrt before_name (items[p := y])" by (metis (mono_tags, lifting) before_name_def sorted_wrt_map sorted_wrt_mono_rel)
  then show ?thesis using assms(1,4) by (auto simp: sorted_items_def dest: set_update_subset_insert [THEN subsetD])
qed

lemma id_at_simps:
  "id_at [] items = None"
  "id_at [c] items = map_option object_id (item_named c items)"
  "id_at (c # d # cs) items = (case item_named c items of Some (Directory name ident subs) \<Rightarrow> id_at (d # cs) subs | _ \<Rightarrow> None)"
  by (auto simp: id_at_def at_path_def split: option.splits named_object.splits)

lemma id_at_nothing: "id_at cs [] = None"
proof -
  consider "cs = []" | q where "cs = [q]" | q d ds where "cs = q # d # ds" by (metis list.exhaust)
  then show ?thesis by cases (auto simp: id_at_simps item_named_def)
qed

text \<open>What is at the paths once \<open>y\<close>, with what is under it, is at \<open>cs\<close>.\<close>

definition id_after :: "string list \<Rightarrow> named_object \<Rightarrow> named_object list \<Rightarrow> string list \<Rightarrow> nat option" where
  "id_after cs y items qs = (if take (length cs) qs = cs
     then (case drop (length cs) qs of [] \<Rightarrow> Some (object_id y) | r # rs \<Rightarrow> id_at (r # rs) (children y)) else id_at qs items)"

text \<open>The effect of replacing one item, or adding one, on the paths.\<close>

lemma id_at_update:
  assumes "\<And>q. item_named q items' = (if q = c then Some (Directory name ident subs') else item_named q items)"
    and "item_named c items = Some (Directory name ident subs)" and "\<And>qs. id_at qs subs' = id_after cs y subs qs" and "cs \<noteq> []"
  shows "id_at qs items' = id_after (c # cs) y items qs"
proof -
  consider "qs = []" | q where "qs = [q]" | q d ds where "qs = q # d # ds" by (metis list.exhaust)
  then show ?thesis
  proof cases
    case 3
    then show ?thesis using assms(1,2) by (auto simp: id_at_simps assms(3) id_after_def)
  qed (use assms in \<open>auto simp: id_at_simps id_after_def\<close>)
qed

lemma id_at_add:
  assumes "\<And>q. item_named q items' = (if q = c then Some y else item_named q items)" and "item_named c items = None"
  shows "id_at qs items' = id_after [c] y items qs"
proof -
  consider "qs = []" | q where "qs = [q]" | q d ds where "qs = q # d # ds" by (metis list.exhaust)
  then show ?thesis
  proof cases
    case 3
    then show ?thesis using assms by (cases y) (auto simp: id_at_simps id_after_def id_at_nothing)
  qed (use assms in \<open>auto simp: id_at_simps id_after_def\<close>)
qed

lemma insert_walks:
  assumes "components path = cs" and "sorted_items items" and "sorted_object obj"
  shows "case insert_or_lookup (Some obj) path (self, items) of (r, items') \<Rightarrow> (case insert_error cs items of
      Some e \<Rightarrow> r = err e \<and> items' = items
    | None \<Rightarrow> r = ok (obj, []) \<and> (object_name obj = last cs \<longrightarrow> sorted_items items' \<and> (\<forall>qs. id_at qs items' = id_after cs obj items qs)))"
  using assms
proof (induction cs items arbitrary: path self rule: insert_error.induct)
  case (1 items)
  then show ?case by (simp add: components.simps [of path] insert_or_lookup.simps [of _ path] Let_def split: if_splits)
next
  case (2 c items)
  show ?case
  proof (cases "c = []")
    case False
    then obtain rest where rest: "first_component path c rest" "rest = []" using components_cons [OF 2(1)] by metis
    note last = step_last [OF rest(1) [unfolded rest(2)] 2(2), of "Some obj" self]
    show ?thesis
    proof (cases rule: find_item_cases [OF 2(2), of c])
      case (1 p x)
      then show ?thesis using last False by simp
    next
      case (2 p)
      let ?items = "take p items @ obj # drop p items"
      have "sorted_items ?items" if "object_name obj = c"
        using sorted_insert [OF \<open>sorted_items items\<close> \<open>sorted_object obj\<close>] 2 that by simp
      moreover have "id_at qs ?items = id_after [c] obj items qs" if "object_name obj = c" for qs
        using item_named_insert [of obj items] 2(2) that by (intro id_at_add) auto
      ultimately show ?thesis using last 2 False by simp
    qed
  qed (use 2 in \<open>simp add: components_empty_name\<close>)
next
  case (3 c d cs items)
  show ?case
  proof (cases "c = []")
    case False
    then obtain rest where rest: "first_component path c rest" "components rest = d # cs" "rest \<noteq> []" using components_cons [OF 3(2)] by blast
    note step = step_through [OF rest(1,3) 3(3), of "Some obj" self]
    show ?thesis
    proof (cases rule: find_item_cases [OF 3(3), of c])
      case (1 p x)
      show ?thesis
      proof (cases x)
        case (Directory name ident subs)
        obtain r subs' where r: "insert_or_lookup (Some obj) rest (Directory name ident subs, subs) = (r, subs')" by force
        have sub: "sorted_items subs" using sorted_subs [OF 3(3)] 1(2) Directory by simp
        have name: "c = name" "object_name (items ! p) = name" using item_named_mem [OF 1(2)] 1(4) Directory by auto
        have IH: "case insert_error (d # cs) subs of Some e \<Rightarrow> r = err e \<and> subs' = subs
          | None \<Rightarrow> r = ok (obj, []) \<and> (object_name obj = last (d # cs) \<longrightarrow> sorted_items subs' \<and> (\<forall>qs. id_at qs subs' = id_after (d # cs) obj subs qs))"
          using 3(1) [OF False _ _ rest(2) sub 3(4), where self = "Directory name ident subs"] 1(2) Directory r by simp
        let ?items = "items[p := Directory name ident subs']"
        have same: "?items = items" if "subs' = subs" using 1(4) Directory that by (metis list_update_id)
        have "item_named q ?items = (if q = c then Some (Directory name ident subs') else item_named q items)" for q
          using item_named_update [of items p "Directory name ident subs'" q] sorted_names_distinct [of items] 3(3) 1(3) name by (simp add: sorted_items_def)
        then have ids: "id_at qs ?items = id_after (c # d # cs) obj items qs" if "\<And>qs. id_at qs subs' = id_after (d # cs) obj subs qs" for qs
          using id_at_update [where items' = ?items and c = c and items = items, OF _ _ that] 1(2) Directory by simp
        have "sorted_items ?items" if "sorted_items subs'"
          using that sorted_update [OF 3(3) 1(3), of "Directory name ident subs'"] name by (simp add: sorted_items_def)
        moreover have "insert_error (c # d # cs) items = insert_error (d # cs) subs" using 1(2) Directory False by simp
        ultimately show ?thesis using IH step 1 Directory r ids same False by (simp add: last_ConsR del: insert_error.simps last.simps split: option.splits)
      qed (use step 1 False in simp)
    qed (use step False in simp)
  qed (use 3 in \<open>simp add: components_empty_name\<close>)
qed

subsection \<open>The operations on paths from the root\<close>

abbreviation full_path :: "string list \<Rightarrow> string" where
  "full_path cs \<equiv> directory_separator # join_path cs"

lemma walk_rest: "valid_path cs \<Longrightarrow> walk cs items = Some (x, rest) \<Longrightarrow> rest = [] \<or> valid_path rest"
proof (induction cs items rule: walk.induct)
  case (3 c d cs items)
  then show ?case using valid_tail [OF 3(2)] by (auto split: option.splits named_object.splits)
qed (auto simp: valid_path_def)

lemma rest_empty:
  assumes "valid_path cs" and "walk cs items = Some (x, rest)"
  shows "join_path rest = [] \<longleftrightarrow> rest = []"
  using walk_rest [OF assms] join_path_empty by auto

lemma lookup_at_path:
  assumes "valid_path cs" and "sorted_items items"
  shows "directory_lookup (join_path cs) (self, items) = (case at_path cs items of None \<Rightarrow> err not_found | Some x \<Rightarrow> ok x)"
proof (cases "walk cs items")
  case None
  then show ?thesis by (simp add: directory_lookup_def lookup_walks [OF assms] at_path_def)
next
  case (Some w)
  then obtain x rest where w: "walk cs items = Some (x, rest)" by (cases w) simp
  show ?thesis using rest_empty [OF assms(1) w] w by (simp add: directory_lookup_def lookup_walks [OF assms] at_path_def split: list.splits)
qed

text \<open>
  C38. The object found under a path from the root is the one at the end of the path, by the names of the items whatever their
  order; with no object there the error is \<^verbatim>\<open>not_found\<close>.  A partial search ends at the first object that is no directory,
  with the rest of the path.  The search for a device takes the device so found, or, when a part of the path is in no directory,
  the file system with the path less its first separator.
\<close>

theorem directory_lookup_walks:
  assumes "valid_path cs" and "sorted_items root"
  shows "lookup_object (full_path cs) root = (case at_path cs root of None \<Rightarrow> err not_found | Some x \<Rightarrow> ok x)
    \<and> lookup_object_partial (full_path cs) root = (case walk cs root of None \<Rightarrow> err not_found | Some (x, rest) \<Rightarrow> ok (x, join_path rest))
    \<and> find_device is_device (full_path cs) root = (case walk cs root of
        Some (x, rest) \<Rightarrow> if is_device x then ok (x, join_path rest) else err bad_cast
      | None \<Rightarrow> (case at_path [''dev'', ''fs0''] root of
          None \<Rightarrow> err not_found
        | Some fs0 \<Rightarrow> if is_device fs0 then ok (fs0, join_path cs) else err bad_cast))"
proof -
  have lookup: "lookup_object (full_path ds) root = (case at_path ds root of None \<Rightarrow> err not_found | Some x \<Rightarrow> ok x)" if "valid_path ds" for ds
    using lookup_at_path [OF that assms(2)] by (simp add: lookup_object_def root_directory_def)
  have "lookup_object (full_path [''dev'', ''fs0'']) root = (case at_path [''dev'', ''fs0''] root of None \<Rightarrow> err not_found | Some x \<Rightarrow> ok x)"
    by (rule lookup) (simp add: valid_path_def directory_separator_def)
  then have fs0: "lookup_object ''/dev/fs0'' root = (case at_path [''dev'', ''fs0''] root of None \<Rightarrow> err not_found | Some x \<Rightarrow> ok x)"
    by (simp add: directory_separator_def)
  have partial: "lookup_object_partial (full_path cs) root = (case walk cs root of None \<Rightarrow> err not_found | Some (x, rest) \<Rightarrow> ok (x, join_path rest))"
    by (simp add: lookup_object_partial_def directory_lookup_partial_def root_directory_def lookup_walks [OF assms])
  show ?thesis by (simp add: lookup [OF assms(1)] partial find_device_def fs0 split: option.splits)
qed

definition two_devices :: "named_object list" where
  "two_devices = [Directory ''dev'' 1 [Object ''fs0'' 2, Object ''uart0'' 3]]"

lemma sorted_two_devices: "sorted_items two_devices"
  by (simp add: two_devices_def sorted_items_def before_name_def)

lemma directory_lookup_walks_witness:
  "lookup_object ''/dev/uart0'' two_devices = ok (Object ''uart0'' 3) \<and> lookup_object_partial ''/dev/fs0/x'' two_devices = ok (Object ''fs0'' 2, ''x'')
    \<and> find_device (\<lambda>_. True) ''/home/x'' two_devices = ok (Object ''fs0'' 2, ''home/x'')"
  using directory_lookup_walks [of "[''dev'', ''uart0'']" two_devices "\<lambda>_. True"] directory_lookup_walks [of "[''dev'', ''fs0'', ''x'']" two_devices "\<lambda>_. True"]
    directory_lookup_walks [of "[''home'', ''x'']" two_devices "\<lambda>_. True"] sorted_two_devices
  by (simp add: valid_path_def directory_separator_def two_devices_def at_path_def item_named_def)

text \<open>
  C20. An insertion of an object, whose own items are sorted if it is a directory, under any path fails for four reasons, with the tree as it was: \<^verbatim>\<open>invalid_path\<close>, when the path does not
  begin with a separator, names nothing, or has an empty name where the walk gets to; \<^verbatim>\<open>not_found\<close>, when a directory of the path
  is missing; \<^verbatim>\<open>not_supported\<close>, when the path leads through an object that is no directory; \<^verbatim>\<open>key_already_exists\<close>, when the name
  is taken.  The first of them on the way is the one answered.  Otherwise the insertion succeeds; if the object has the name that the path ends with,
  which the code does not check, then the object, with what is under it, is at the path, whatever was at the other paths is there, and every directory
  is still sorted.
\<close>

theorem directory_insert_correct:
  assumes "sorted_items root" and "sorted_object obj"
  shows "case insert_object obj path root of (r, root') \<Rightarrow>
    let cs = (if path = [] \<or> hd path \<noteq> directory_separator then [] else components (tl path)) in
    (case insert_error cs root of
      Some e \<Rightarrow> r = err e \<and> root' = root
    | None \<Rightarrow> r = ok () \<and> (object_name obj = last cs \<longrightarrow> sorted_items root' \<and> (\<forall>qs. id_at qs root' = id_after cs obj root qs)))"
proof (cases "path = [] \<or> hd path \<noteq> directory_separator")
  case False
  then have eq: "insert_object obj path root = directory_insert obj (tl path) (Directory [] 0 root, root)"
    by (simp add: insert_object_def root_directory_def)
  show ?thesis using insert_walks [OF refl assms, of "tl path" "Directory [] 0 root"] False
    unfolding eq directory_insert_def by (auto split: option.splits)
qed (simp add: insert_object_def)

lemma directory_insert_correct_witness:
  "id_at [''dev'', ''i2c0''] (snd (insert_object (Object ''i2c0'' 7) ''/dev/i2c0'' two_devices)) = Some 7
    \<and> id_at [''dev'', ''uart0''] (snd (insert_object (Object ''i2c0'' 7) ''/dev/i2c0'' two_devices)) = Some 3
    \<and> insert_object (Object ''fs0'' 7) ''/dev/fs0'' two_devices = (err key_already_exists, two_devices)
    \<and> insert_object (Object ''fs0'' 7) ''/dev//fs0'' two_devices = (err invalid_path, two_devices)
    \<and> insert_object (Object ''fs0'' 7) ''dev/fs0'' two_devices = (err invalid_path, two_devices)"
proof -
  have cs: "components ''dev/i2c0'' = [''dev'', ''i2c0'']" "components ''dev/fs0'' = [''dev'', ''fs0'']" "components ''dev//fs0'' = [''dev'', [], ''fs0'']"
    by (simp_all add: components.simps directory_separator_def)
  have ids: "insert_error [''dev'', ''i2c0''] two_devices = None" "insert_error [''dev'', ''fs0''] two_devices = Some key_already_exists"
    "insert_error [''dev'', [], ''fs0''] two_devices = Some invalid_path" "insert_error [] two_devices = Some invalid_path" "id_at [''dev'', ''uart0''] two_devices = Some 3"
    by (simp_all add: two_devices_def item_named_def id_at_def at_path_def)
  note insert = directory_insert_correct [OF sorted_two_devices]
  show ?thesis
    using insert [of "Object ''i2c0'' 7" "''/dev/i2c0''"] insert [of "Object ''fs0'' 7" "''/dev/fs0''"]
      insert [of "Object ''fs0'' 7" "''/dev//fs0''"] insert [of "Object ''fs0'' 7" "''dev/fs0''"] ids cs
    by (auto simp: directory_separator_def id_after_def Let_def split: prod.splits)
qed

end
