(* ===== verification/Kernel_Sync.thy ===== *)
theory Kernel_Sync
  imports Kernel_Base
begin

section \<open>Mutexes, events and semaphores\<close>

text \<open>
  Model of the synchronisation primitives of \<^verbatim>\<open>src/include/sdk/chino/os/processapi.h\<close> over the system calls
  \<^verbatim>\<open>atomic_wait\<close> and \<^verbatim>\<open>atomic_notify_one\<close> (\<^verbatim>\<open>src/src/os/kernel/ps/sched/synchronizers.cpp\<close> with
  \<^verbatim>\<open>block_current_thread\<close> and \<^verbatim>\<open>unblock_local_threads\<close> of \<^verbatim>\<open>scheduler.cpp\<close>), run by any number of threads in any
  interleaving.  A move of a thread is one access to an atomic variable with the computation on local variables around it; what
  the scheduler does with interrupts disabled is one move.  Waiting is without a time limit.  The scheduler appears only as
  the list of the threads that are blocked on the variable: a thread in that list does not move, every other thread may.
\<close>

subsection \<open>Three primitives\<close>

text \<open>
  A mutex, an event that resets itself and a semaphore have a value, a number of waiters and the same loops.  They differ in the
  value a waiter sleeps on, in the first access of an attempt (a compare-and-exchange that expects a fixed value, or a load), in
  the value an attempt stores and in the value a release stores.
\<close>

record waitable =
  wait_old :: u32
  fixed_expected :: "u32 option"
  taken_value :: "u32 \<Rightarrow> u32"
  released_value :: "u32 \<Rightarrow> u32"

definition mutex :: waitable where
  "mutex = \<lparr>wait_old = 1, fixed_expected = Some 0, taken_value = (\<lambda>_. 1), released_value = (\<lambda>_. 0)\<rparr>"

definition auto_reset_event :: waitable where
  "auto_reset_event = \<lparr>wait_old = 0, fixed_expected = Some 1, taken_value = (\<lambda>_. 0), released_value = (\<lambda>_. 1)\<rparr>"

definition semaphore :: waitable where
  "semaphore = \<lparr>wait_old = 0, fixed_expected = None, taken_value = (\<lambda>res. res - 1), released_value = (\<lambda>res. res + 1)\<rparr>"

subsection \<open>Threads\<close>

datatype sync_command = Acquire | Release

text \<open>Where a thread is.  The flag of an attempt tells whether it is one of the loop of the waiters.\<close>

datatype sync_pc =
    Rest                       \<comment> \<open>between two commands\<close>
  | Try bool                   \<comment> \<open>before the first access of an attempt\<close>
  | Swap bool u32              \<comment> \<open>before the compare-and-exchange with a value that was read\<close>
  | Count_waiter               \<comment> \<open>before adding itself to the waiters\<close>
  | Test                       \<comment> \<open>before the load of \<^verbatim>\<open>atomic_wait\<close>\<close>
  | Block                      \<comment> \<open>before \<^verbatim>\<open>block_current_thread\<close>\<close>
  | Asleep                     \<comment> \<open>blocked\<close>
  | Resume                     \<comment> \<open>made ready, before the load behind \<^verbatim>\<open>yield\<close>\<close>
  | Uncount_waiter             \<comment> \<open>before taking itself off the waiters\<close>
  | Look                       \<comment> \<open>released, before the load of the number of waiters\<close>
  | Notify                     \<comment> \<open>before \<^verbatim>\<open>atomic_notify_one\<close>\<close>

type_synonym sync_thread = "sync_pc \<times> sync_command list"

record sync =
  sync_value :: u32
  sync_waiters :: u32
  blocked_queue :: "nat list"
  sync_threads :: "sync_thread list"

definition try_fails :: "bool \<Rightarrow> sync_pc" where "try_fails waiting = (if waiting then Test else Count_waiter)"
definition try_succeeds :: "bool \<Rightarrow> sync_pc" where "try_succeeds waiting = (if waiting then Uncount_waiter else Rest)"

text \<open>A load or a failed exchange returned \<open>res\<close>: an attempt of the semaphore goes on as long as it is not zero.\<close>

definition try_loop :: "bool \<Rightarrow> u32 \<Rightarrow> sync_pc" where
  "try_loop waiting res = (if res \<noteq> 0 then Swap waiting res else try_fails waiting)"

text \<open>One move of a thread that does not put it into the blocked list or wake another one: the new place, value and waiters.\<close>

fun local_move :: "waitable \<Rightarrow> sync_pc \<Rightarrow> u32 \<Rightarrow> u32 \<Rightarrow> (sync_pc \<times> u32 \<times> u32) option" where
  "local_move w (Try b) v n = Some (case fixed_expected w of
     Some e \<Rightarrow> if v = e then (try_succeeds b, taken_value w e, n) else (try_fails b, v, n)
   | None \<Rightarrow> (try_loop b v, v, n))"
| "local_move w (Swap b e) v n = Some (if v = e then (try_succeeds b, taken_value w e, n) else (try_loop b v, v, n))"
| "local_move w Count_waiter v n = Some (Try True, v, n + 1)"
| "local_move w Test v n = Some (if v \<noteq> wait_old w then Try True else Block, v, n)"
| "local_move w Block v n = (if v \<noteq> wait_old w then Some (Try True, v, n) else None)"
| "local_move w Resume v n = Some (if v \<noteq> wait_old w then Try True else Resume, v, n)"
| "local_move w Uncount_waiter v n = Some (Rest, v, n - 1)"
| "local_move w Look v n = Some (if n \<noteq> 0 then Notify else Rest, v, n)"
| "local_move w _ v n = None"

text \<open>\<^verbatim>\<open>atomic_notify_one\<close>: the first thread of the list becomes ready.\<close>

definition wake_one :: "sync \<Rightarrow> sync" where
  "wake_one s = (case blocked_queue s of
     [] \<Rightarrow> s
   | t # ts \<Rightarrow> s\<lparr>blocked_queue := ts, sync_threads := (sync_threads s)[t := (Resume, snd (sync_threads s ! t))]\<rparr>)"

definition at_pc :: "nat \<Rightarrow> sync_pc \<Rightarrow> sync_command list \<Rightarrow> sync \<Rightarrow> sync" where
  "at_pc i pc cs s = s\<lparr>sync_threads := (sync_threads s)[i := (pc, cs)]\<rparr>"

definition sync_move :: "waitable \<Rightarrow> nat \<Rightarrow> sync \<Rightarrow> sync option" where
  "sync_move w i s = (if i < length (sync_threads s) then (case sync_threads s ! i of
       (Rest, []) \<Rightarrow> None
     | (Rest, Acquire # cs) \<Rightarrow> Some (at_pc i (Try False) cs s)
     | (Rest, Release # cs) \<Rightarrow> Some (at_pc i Look cs (s\<lparr>sync_value := released_value w (sync_value s)\<rparr>))
     | (Notify, cs) \<Rightarrow> Some (at_pc i Rest cs (wake_one s))
     | (pc, cs) \<Rightarrow> (case local_move w pc (sync_value s) (sync_waiters s) of
          Some (pc', v, n) \<Rightarrow> Some (at_pc i pc' cs (s\<lparr>sync_value := v, sync_waiters := n\<rparr>))
        | None \<Rightarrow> if pc = Block then Some (at_pc i Asleep cs (s\<lparr>blocked_queue := blocked_queue s @ [i]\<rparr>)) else None))
     else None)"

inductive sync_step :: "waitable \<Rightarrow> sync \<Rightarrow> sync \<Rightarrow> bool" for w where
  "sync_move w i s = Some s' \<Longrightarrow> sync_step w s s'"

definition sync_start :: "u32 \<Rightarrow> sync_command list list \<Rightarrow> sync" where
  "sync_start v programs = \<lparr>sync_value = v, sync_waiters = 0, blocked_queue = [], sync_threads = map (Pair Rest) programs\<rparr>"

lemma sync_move_cases:
  assumes "sync_move w i s = Some s'"
  obtains (acquire) cs where "i < length (sync_threads s)" "sync_threads s ! i = (Rest, Acquire # cs)" "s' = at_pc i (Try False) cs s"
  | (release) cs where "i < length (sync_threads s)" "sync_threads s ! i = (Rest, Release # cs)"
      "s' = at_pc i Look cs (s\<lparr>sync_value := released_value w (sync_value s)\<rparr>)"
  | (notify) cs where "i < length (sync_threads s)" "sync_threads s ! i = (Notify, cs)" "s' = at_pc i Rest cs (wake_one s)"
  | (local) pc cs pc' v n where "i < length (sync_threads s)" "sync_threads s ! i = (pc, cs)"
      "local_move w pc (sync_value s) (sync_waiters s) = Some (pc', v, n)" "s' = at_pc i pc' cs (s\<lparr>sync_value := v, sync_waiters := n\<rparr>)"
  | (sleep) cs where "i < length (sync_threads s)" "sync_threads s ! i = (Block, cs)" "sync_value s = wait_old w"
      "s' = at_pc i Asleep cs (s\<lparr>blocked_queue := blocked_queue s @ [i]\<rparr>)"
proof -
  have i: "i < length (sync_threads s)" using assms by (simp add: sync_move_def split: if_splits)
  obtain pc cs where pc: "sync_threads s ! i = (pc, cs)" by force
  note m = assms [unfolded sync_move_def if_P [OF i] pc]
  show ?thesis
  proof (cases "local_move w pc (sync_value s) (sync_waiters s)")
    case (Some r)
    then obtain pc' v n where r: "local_move w pc (sync_value s) (sync_waiters s) = Some (pc', v, n)" by (cases r) auto
    have "s' = at_pc i pc' cs (s\<lparr>sync_value := v, sync_waiters := n\<rparr>)" using m r by (cases pc) auto
    then show ?thesis by (rule local [OF i pc r])
  next
    case None
    then consider "pc = Rest" | "pc = Notify" | "pc = Block" "sync_value s = wait_old w" | "pc = Asleep" by (cases pc) (auto split: if_splits)
    then show ?thesis
    proof cases
      case 1
      then show ?thesis using m acquire [OF i] release [OF i] pc by (cases cs; cases "hd cs") auto
    next
      case 2
      then show ?thesis using m notify [OF i] pc by auto
    next
      case 3
      then show ?thesis using m sleep [OF i] pc by auto
    next
      case 4
      then show ?thesis using m by simp
    qed
  qed
qed

subsection \<open>What the three have in common\<close>

text \<open>Threads by where they are: counted as a waiter, and on the way to an attempt or to a notification.\<close>

fun counted :: "sync_pc \<Rightarrow> bool" where
  "counted (Try b) = b"
| "counted (Swap b e) = b"
| "counted pc \<longleftrightarrow> pc \<in> {Test, Block, Asleep, Resume, Uncount_waiter}"

fun on_way :: "sync_pc \<Rightarrow> bool" where
  "on_way (Try b) = b"
| "on_way (Swap b e) = b"
| "on_way pc \<longleftrightarrow> pc \<in> {Test, Block, Resume, Look, Notify}"

definition number :: "(sync_thread \<Rightarrow> bool) \<Rightarrow> sync \<Rightarrow> nat" where
  "number P s = length (filter P (sync_threads s))"

definition one_if :: "bool \<Rightarrow> nat" where "one_if b = (if b then 1 else 0)"

lemma one_if_simps [simp]: "one_if True = 1" "one_if False = 0"
  by (simp_all add: one_if_def)

lemma number_at_pc:
  "i < length (sync_threads s) \<Longrightarrow> number P (at_pc i pc cs s) + one_if (P (sync_threads s ! i)) = number P s + one_if (P (pc, cs))"
  using length_filter_update [of i "sync_threads s" P "(pc, cs)"] by (simp add: number_def at_pc_def one_if_def)

lemma number_simps [simp]:
  "number P (s\<lparr>sync_value := v\<rparr>) = number P s" "number P (s\<lparr>sync_waiters := n\<rparr>) = number P s" "number P (s\<lparr>blocked_queue := q\<rparr>) = number P s"
  by (simp_all add: number_def)

lemma at_pc_simps [simp]:
  "sync_value (at_pc i pc cs s) = sync_value s" "sync_waiters (at_pc i pc cs s) = sync_waiters s" "blocked_queue (at_pc i pc cs s) = blocked_queue s"
  "sync_threads (at_pc i pc cs s) = (sync_threads s)[i := (pc, cs)]"
  by (simp_all add: at_pc_def)

text \<open>Threads that acquire and release in turns; such a thread is inside from its attempt that took to its release.\<close>

fun alternates :: "bool \<Rightarrow> sync_command list \<Rightarrow> bool" where
  "alternates holding [] \<longleftrightarrow> \<not> holding"
| "alternates holding (Acquire # cs) \<longleftrightarrow> \<not> holding \<and> alternates True cs"
| "alternates holding (Release # cs) \<longleftrightarrow> holding \<and> alternates False cs"

definition inside :: "sync_thread \<Rightarrow> bool" where
  "inside th \<longleftrightarrow> fst th = Uncount_waiter \<or> fst th = Rest \<and> (case snd th of Release # cs \<Rightarrow> True | _ \<Rightarrow> False)"

definition disciplined :: "sync_thread \<Rightarrow> bool" where
  "disciplined th \<longleftrightarrow> alternates (if fst th = Rest then inside th else fst th \<notin> {Look, Notify}) (snd th)"

lemma alternates_inside: "alternates holding cs \<Longrightarrow> inside (Rest, cs) = holding"
  by (cases "(holding, cs)" rule: alternates.cases) (auto simp: inside_def)

lemma inside_elsewhere: "pc \<noteq> Rest \<Longrightarrow> inside (pc, cs) = (pc = Uncount_waiter)"
  by (simp add: inside_def)

lemma disciplined_simps:
  "disciplined (Rest, cs) = alternates (inside (Rest, cs)) cs"
  "pc \<noteq> Rest \<Longrightarrow> disciplined (pc, cs) = alternates (pc \<notin> {Look, Notify}) cs"
  by (simp_all add: disciplined_def)

locale token_variable =
  fixes w :: waitable and tokens :: "u32 \<Rightarrow> nat" and valid :: "u32 \<Rightarrow> bool"
  assumes waits_for_tokens: "valid v \<Longrightarrow> v = wait_old w \<longleftrightarrow> tokens v = 0"
    and exchange_takes: "valid v \<Longrightarrow> fixed_expected w = Some e \<Longrightarrow> v = e \<longleftrightarrow> tokens v \<noteq> 0"
    and load_tells: "valid v \<Longrightarrow> fixed_expected w = None \<Longrightarrow> v = 0 \<longleftrightarrow> tokens v = 0"
    and taking: "valid v \<Longrightarrow> tokens v \<noteq> 0 \<Longrightarrow> valid (taken_value w v) \<and> Suc (tokens (taken_value w v)) = tokens v"
    and releasing: "valid v \<Longrightarrow> valid (released_value w v) \<and> tokens (released_value w v) \<le> Suc (tokens v)"
begin

fun pc_ok :: "sync_pc \<Rightarrow> bool" where
  "pc_ok (Swap b e) \<longleftrightarrow> fixed_expected w = None \<and> e \<noteq> 0"
| "pc_ok pc = True"

text \<open>A local move: an attempt takes a token or finds none, and everything else leaves the value.\<close>

lemma local_move_cases:
  assumes "local_move w pc v n = Some (pc', v', n')" and "valid v" and "pc_ok pc"
  obtains (took) b where "pc = Try b \<or> (\<exists>e. pc = Swap b e)" "pc' = try_succeeds b" "valid v'" "Suc (tokens v') = tokens v" "n' = n"
  | (missed) b where "pc = Try b \<or> (\<exists>e. pc = Swap b e)" "pc' = try_fails b" "v' = v" "tokens v = 0" "n' = n"
  | (again) b where "pc = Try b \<or> (\<exists>e. pc = Swap b e)" "pc' = Swap b v" "v' = v" "v \<noteq> 0" "fixed_expected w = None" "n' = n"
  | (other) "v' = v" "pc' = Try True \<and> pc \<in> {Test, Block, Resume} \<and> n' = n \<or> pc = Test \<and> pc' = Block \<and> n' = n \<or> pc = Resume \<and> pc' = Resume \<and> n' = n
      \<or> pc = Count_waiter \<and> pc' = Try True \<and> n' = n + 1 \<or> pc = Uncount_waiter \<and> pc' = Rest \<and> n' = n - 1
      \<or> pc = Look \<and> pc' = (if n \<noteq> 0 then Notify else Rest) \<and> n' = n"
proof -
  consider (attempt) b where "pc = Try b" | (swap) b e where "pc = Swap b e" | "\<nexists>b. pc = Try b" "\<nexists>b e. pc = Swap b e" by blast
  then show ?thesis
  proof cases
    case (attempt b)
    show ?thesis
    proof (cases "fixed_expected w")
      case None
      then have m: "pc' = try_loop b v" "v' = v" "n' = n" using assms(1) attempt None by auto
      show ?thesis
      proof (cases "v = 0")
        case True
        then show ?thesis using m attempt load_tells [OF assms(2) None] by (intro missed [of b]) (simp_all add: try_loop_def)
      next
        case False
        then show ?thesis using m attempt None by (intro again [of b]) (simp_all add: try_loop_def)
      qed
    next
      case (Some e)
      show ?thesis
      proof (cases "v = e")
        case True
        then have "pc' = try_succeeds b" "v' = taken_value w v" "n' = n" using assms(1) attempt Some by auto
        then show ?thesis using attempt taking [OF assms(2)] exchange_takes [OF assms(2) Some] True by (intro took [of b]) simp_all
      next
        case False
        then have "pc' = try_fails b" "v' = v" "n' = n" using assms(1) attempt Some by auto
        then show ?thesis using attempt exchange_takes [OF assms(2) Some] False by (intro missed [of b]) simp_all
      qed
    qed
  next
    case (swap b e)
    then have f: "fixed_expected w = None" "e \<noteq> 0" using assms(3) by simp_all
    note loaded = load_tells [OF assms(2) f(1)]
    consider (same) "v = e" | (zero) "v \<noteq> e" "v = 0" | (changed) "v \<noteq> e" "v \<noteq> 0" by blast
    then show ?thesis
    proof cases
      case same
      then have "pc' = try_succeeds b" "v' = taken_value w v" "n' = n" using assms(1) swap by auto
      then show ?thesis using swap taking [OF assms(2)] loaded f(2) same by (intro took [of b]) simp_all
    next
      case zero
      then have "pc' = try_fails b" "v' = v" "n' = n" using assms(1) swap by (auto simp: try_loop_def)
      then show ?thesis using swap loaded zero by (intro missed [of b]) simp_all
    next
      case changed
      then have "pc' = Swap b v" "v' = v" "n' = n" using assms(1) swap by (auto simp: try_loop_def)
      then show ?thesis using swap f(1) changed by (intro again [of b]) simp_all
    qed
  next
    case 3
    then show ?thesis using assms(1) by (intro other; cases pc) (auto split: if_splits)
  qed
qed

text \<open>The invariant: the count of the waiters is right, the list has the sleeping threads.\<close>

definition queue_ok :: "sync \<Rightarrow> bool" where
  "queue_ok s \<longleftrightarrow> distinct (blocked_queue s) \<and> (\<forall>t. t \<in> set (blocked_queue s) \<longleftrightarrow> t < length (sync_threads s) \<and> fst (sync_threads s ! t) = Asleep)"

definition waiters_ok :: "sync \<Rightarrow> bool" where
  "waiters_ok s \<longleftrightarrow> sync_waiters s = of_nat (number (counted \<circ> fst) s)"

definition sync_inv :: "sync \<Rightarrow> bool" where
  "sync_inv s \<longleftrightarrow> valid (sync_value s) \<and> waiters_ok s \<and> queue_ok s \<and> (\<forall>th \<in> set (sync_threads s). pc_ok (fst th)) \<and> length (sync_threads s) < 2 ^ 32"

text \<open>While threads sleep, there are no more tokens than threads that will take one or wake a sleeper.\<close>

definition covered :: "sync \<Rightarrow> bool" where
  "covered s \<longleftrightarrow> (blocked_queue s \<noteq> [] \<longrightarrow> tokens (sync_value s) \<le> number (on_way \<circ> fst) s)"

lemma queue_at_pc:
  "queue_ok s \<Longrightarrow> i < length (sync_threads s) \<Longrightarrow> fst (sync_threads s ! i) \<noteq> Asleep \<Longrightarrow> pc \<noteq> Asleep \<Longrightarrow> queue_ok (at_pc i pc cs s)"
  by (auto simp: queue_ok_def nth_list_update)

lemma inv_at_pc:
  assumes "sync_inv s" and i: "i < length (sync_threads s)" and th: "sync_threads s ! i = (pc, cs)" and pcs: "pc \<noteq> Asleep" "pc' \<noteq> Asleep" "pc_ok pc'" and v: "valid v"
    and n: "n + of_nat (one_if (counted pc)) = sync_waiters s + of_nat (one_if (counted pc'))"
  shows "sync_inv (at_pc i pc' cs' (s\<lparr>sync_value := v, sync_waiters := n\<rparr>))"
proof -
  let ?s = "s\<lparr>sync_value := v, sync_waiters := n\<rparr>"
  have "number (counted \<circ> fst) (at_pc i pc' cs' ?s) + one_if (counted pc) = number (counted \<circ> fst) s + one_if (counted pc')"
    using number_at_pc [of i ?s "counted \<circ> fst" pc' cs'] i th by simp
  then have "(of_nat (number (counted \<circ> fst) (at_pc i pc' cs' ?s)) :: u32) + of_nat (one_if (counted pc)) = of_nat (number (counted \<circ> fst) s) + of_nat (one_if (counted pc'))"
    by (metis of_nat_add)
  then have "waiters_ok (at_pc i pc' cs' ?s)" using n assms(1) by (simp add: waiters_ok_def sync_inv_def) (metis add_right_cancel)
  moreover have "queue_ok ?s" using assms(1) by (simp add: sync_inv_def queue_ok_def)
  then have "queue_ok (at_pc i pc' cs' ?s)" by (rule queue_at_pc) (simp_all add: i th pcs)
  moreover have "\<forall>th \<in> set ((sync_threads s)[i := (pc', cs')]). pc_ok (fst th)"
    using assms(1) pcs(3) set_update_subset_insert [of "sync_threads s" i "(pc', cs')"] by (fastforce simp: sync_inv_def)
  ultimately show ?thesis using assms(1) v by (simp add: sync_inv_def)
qed

lemma covered_at_pc:
  assumes "covered s" and i: "i < length (sync_threads s)" and th: "sync_threads s ! i = (pc, cs)"
    and "blocked_queue s \<noteq> [] \<Longrightarrow> tokens v = 0 \<or> tokens v + one_if (on_way pc) \<le> tokens (sync_value s) + one_if (on_way pc')"
  shows "covered (at_pc i pc' cs' (s\<lparr>sync_value := v, sync_waiters := n\<rparr>))"
  unfolding covered_def
proof (intro impI)
  let ?s = "s\<lparr>sync_value := v, sync_waiters := n\<rparr>"
  assume "blocked_queue (at_pc i pc' cs' ?s) \<noteq> []"
  then have b: "blocked_queue s \<noteq> []" by simp
  have "number (on_way \<circ> fst) (at_pc i pc' cs' ?s) + one_if (on_way pc) = number (on_way \<circ> fst) s + one_if (on_way pc')"
    using number_at_pc [of i ?s "on_way \<circ> fst" pc' cs'] i th by simp
  then show "tokens (sync_value (at_pc i pc' cs' ?s)) \<le> number (on_way \<circ> fst) (at_pc i pc' cs' ?s)"
    using assms(1) assms(4) [OF b] b by (auto simp: covered_def)
qed

text \<open>A thread that sleeps is counted, so a release sees that there is somebody to wake.\<close>

lemma sleeper_counted:
  assumes "sync_inv s" and "blocked_queue s \<noteq> []"
  shows "sync_waiters s \<noteq> 0"
proof -
  obtain t where t: "t < length (sync_threads s)" "fst (sync_threads s ! t) = Asleep"
    using assms by (cases "blocked_queue s") (auto simp: sync_inv_def queue_ok_def)
  then have "sync_threads s ! t \<in> set (filter (counted \<circ> fst) (sync_threads s))" by simp
  then have "0 < number (counted \<circ> fst) s" unfolding number_def by (rule length_pos_if_in_set)
  moreover have "number (counted \<circ> fst) s < 2 ^ 32"
    using assms(1) length_filter_le [of "counted \<circ> fst" "sync_threads s"] unfolding number_def sync_inv_def by linarith
  ultimately have "unat (of_nat (number (counted \<circ> fst) s) :: u32) \<noteq> 0" by (simp add: unat_of_nat)
  then show ?thesis using assms(1) by (auto simp: sync_inv_def waiters_ok_def)
qed

lemma wake_one_inv:
  assumes "sync_inv s" and "blocked_queue s = t # ts"
  shows "sync_inv (wake_one s)" and "number (on_way \<circ> fst) (wake_one s) = Suc (number (on_way \<circ> fst) s)"
    and "t < length (sync_threads s)" and "fst (sync_threads s ! t) = Asleep" and "wake_one s = at_pc t Resume (snd (sync_threads s ! t)) (s\<lparr>blocked_queue := ts\<rparr>)"
proof -
  show t: "t < length (sync_threads s)" "fst (sync_threads s ! t) = Asleep" using assms by (auto simp: sync_inv_def queue_ok_def)
  let ?s = "s\<lparr>blocked_queue := ts\<rparr>"
  show w: "wake_one s = at_pc t Resume (snd (sync_threads s ! t)) ?s" using assms(2) by (simp add: wake_one_def at_pc_def)
  have num: "number (P \<circ> fst) (wake_one s) + one_if (P Asleep) = number (P \<circ> fst) s + one_if (P Resume)" for P
    using number_at_pc [of t ?s "P \<circ> fst" Resume] t unfolding w by simp
  show "number (on_way \<circ> fst) (wake_one s) = Suc (number (on_way \<circ> fst) s)" using num [of on_way] by simp
  have "waiters_ok (wake_one s)" using num [of counted] assms(1) unfolding waiters_ok_def sync_inv_def by (simp add: w)
  moreover have "queue_ok (wake_one s)"
    using assms t unfolding w by (auto simp: sync_inv_def queue_ok_def nth_list_update)
  moreover have "\<forall>th \<in> set (sync_threads (wake_one s)). pc_ok (fst th)"
    using assms(1) set_update_subset_insert [of "sync_threads s" t "(Resume, snd (sync_threads s ! t))"] unfolding w by (fastforce simp: sync_inv_def)
  ultimately show "sync_inv (wake_one s)" using assms(1) unfolding w by (simp add: sync_inv_def)
qed

lemma local_move_keeps:
  assumes "sync_inv s" and i: "i < length (sync_threads s)" and th: "sync_threads s ! i = (pc, cs)"
    and m: "local_move w pc (sync_value s) (sync_waiters s) = Some (pc', v, n)"
  shows "sync_inv (at_pc i pc' cs (s\<lparr>sync_value := v, sync_waiters := n\<rparr>))"
    and "covered s \<Longrightarrow> covered (at_pc i pc' cs (s\<lparr>sync_value := v, sync_waiters := n\<rparr>))"
proof -
  have "(pc, cs) \<in> set (sync_threads s)" using i th by (metis nth_mem)
  then have ok: "valid (sync_value s)" "pc_ok pc" using assms(1) by (force simp: sync_inv_def)+
  have "pc \<noteq> Asleep \<and> pc' \<noteq> Asleep \<and> pc_ok pc' \<and> valid v \<and> n + of_nat (one_if (counted pc)) = sync_waiters s + of_nat (one_if (counted pc')) \<and>
    (blocked_queue s \<noteq> [] \<longrightarrow> tokens v = 0 \<or> tokens v + one_if (on_way pc) \<le> tokens (sync_value s) + one_if (on_way pc'))"
  proof (cases rule: local_move_cases [OF m ok])
    case (1 b)
    then show ?thesis by (cases b) (auto simp: try_succeeds_def)
  next
    case (2 b)
    then show ?thesis using ok by (cases b) (auto simp: try_fails_def)
  next
    case (3 b)
    then show ?thesis using ok by (cases b) auto
  next
    case 4
    then show ?thesis using ok sleeper_counted [OF assms(1)] by (auto split: if_splits)
  qed
  then show "sync_inv (at_pc i pc' cs (s\<lparr>sync_value := v, sync_waiters := n\<rparr>))"
    and "covered s \<Longrightarrow> covered (at_pc i pc' cs (s\<lparr>sync_value := v, sync_waiters := n\<rparr>))"
    using inv_at_pc [OF assms(1) i th] covered_at_pc [OF _ i th] by blast+
qed

lemma sync_move_inv:
  assumes "sync_move w i s = Some s'" and inv: "sync_inv s"
  shows "sync_inv s'"
  using assms(1)
proof (cases rule: sync_move_cases)
  case (acquire cs)
  have "valid (sync_value s)" using inv by (simp add: sync_inv_def)
  then show ?thesis using inv_at_pc [OF inv acquire(1,2), of "Try False" "sync_value s" "sync_waiters s" cs] acquire(3) by simp
next
  case (release cs)
  have "valid (sync_value s)" using inv by (simp add: sync_inv_def)
  then show ?thesis
    using inv_at_pc [OF inv release(1,2), of Look "released_value w (sync_value s)" "sync_waiters s" cs] releasing [of "sync_value s"] release(3) by simp
next
  case (notify cs)
  show ?thesis
  proof (cases "blocked_queue s")
    case Nil
    have "valid (sync_value s)" using inv by (simp add: sync_inv_def)
    then show ?thesis using inv_at_pc [OF inv notify(1,2), of Rest "sync_value s" "sync_waiters s" cs] notify(3) Nil by (simp add: wake_one_def)
  next
    case (Cons t ts)
    note wake = wake_one_inv [OF inv Cons]
    have neq: "t \<noteq> i" using notify(2) wake(4) by auto
    have "i < length (sync_threads (wake_one s))" "sync_threads (wake_one s) ! i = (Notify, cs)"
      using notify(1,2) neq unfolding wake(5) by simp_all
    moreover have "valid (sync_value (wake_one s))" using wake(1) by (simp add: sync_inv_def)
    ultimately show ?thesis
      using inv_at_pc [OF wake(1), of i Notify cs Rest "sync_value (wake_one s)" "sync_waiters (wake_one s)" cs] notify(3) by simp
  qed
next
  case (local pc cs pc' v n)
  then show ?thesis using local_move_keeps(1) [OF inv] by blast
next
  case (sleep cs)
  let ?s = "s\<lparr>blocked_queue := blocked_queue s @ [i]\<rparr>"
  have "number (counted \<circ> fst) s' = number (counted \<circ> fst) s"
    using number_at_pc [of i ?s "counted \<circ> fst" Asleep cs] sleep by simp
  then have "waiters_ok s'" using inv sleep(4) by (simp add: sync_inv_def waiters_ok_def)
  moreover have "queue_ok s'" using inv sleep by (auto simp: sync_inv_def queue_ok_def nth_list_update)
  moreover have "\<forall>th \<in> set (sync_threads s'). pc_ok (fst th)"
    using inv set_update_subset_insert [of "sync_threads s" i "(Asleep, cs)"] unfolding sleep(4) by (fastforce simp: sync_inv_def)
  ultimately show ?thesis using inv unfolding sleep(4) by (simp add: sync_inv_def)
qed

lemma sync_move_covered:
  assumes "sync_move w i s = Some s'" and inv: "sync_inv s" and "covered s"
  shows "covered s'"
  using assms(1)
proof (cases rule: sync_move_cases)
  case (acquire cs)
  then show ?thesis using covered_at_pc [OF \<open>covered s\<close> acquire(1,2), of "sync_value s" "Try False" cs "sync_waiters s"] by simp
next
  case (release cs)
  have "valid (sync_value s)" using inv by (simp add: sync_inv_def)
  then show ?thesis
    using covered_at_pc [OF \<open>covered s\<close> release(1,2), of "released_value w (sync_value s)" Look cs "sync_waiters s"] releasing [of "sync_value s"] release(3) by simp
next
  case (notify cs)
  show ?thesis
  proof (cases "blocked_queue s")
    case Nil
    then show ?thesis using notify(3) by (simp add: wake_one_def covered_def)
  next
    case (Cons t ts)
    note wake = wake_one_inv [OF inv Cons]
    have neq: "t \<noteq> i" using notify(2) wake(4) by auto
    have "i < length (sync_threads (wake_one s))" "sync_threads (wake_one s) ! i = (Notify, cs)"
      using notify(1,2) neq unfolding wake(5) by simp_all
    then have "number (on_way \<circ> fst) s' = number (on_way \<circ> fst) s"
      using number_at_pc [of i "wake_one s" "on_way \<circ> fst" Rest cs] wake(2) notify(3) by simp
    then show ?thesis using \<open>covered s\<close> Cons notify(3) wake(5) by (simp add: covered_def)
  qed
next
  case (local pc cs pc' v n)
  then show ?thesis using local_move_keeps(2) [OF inv _ _ _ \<open>covered s\<close>] by blast
next
  case (sleep cs)
  have "tokens (sync_value s) = 0" using inv sleep(3) waits_for_tokens [of "sync_value s"] by (simp add: sync_inv_def)
  then show ?thesis using sleep(4) by (simp add: covered_def)
qed

lemma sync_start_inv:
  assumes "valid v" and "length programs < 2 ^ 32"
  shows "sync_inv (sync_start v programs)" and "covered (sync_start v programs)"
  using assms by (auto simp: sync_start_def sync_inv_def covered_def waiters_ok_def queue_ok_def number_def filter_empty_conv)

lemma reachable_inv:
  assumes "(sync_step w)\<^sup>*\<^sup>* (sync_start v programs) s" and "valid v" and "length programs < 2 ^ 32"
  shows "sync_inv s \<and> covered s"
  using assms(1)
proof induction
  case base
  then show ?case using sync_start_inv [OF assms(2,3)] by simp
next
  case (step s s')
  then show ?case using sync_move_inv sync_move_covered by (auto elim: sync_step.cases)
qed

text \<open>With disciplined threads a token is in the variable or with the thread that took it.\<close>

definition tokens_kept :: "nat \<Rightarrow> sync \<Rightarrow> bool" where
  "tokens_kept m s \<longleftrightarrow> (\<forall>th \<in> set (sync_threads s). disciplined th) \<and> tokens (sync_value s) + number inside s \<le> m"

lemma kept_at_pc:
  assumes "tokens_kept m s" and i: "i < length (sync_threads s)" and th: "sync_threads s ! i = (pc, cs)"
    and "disciplined (pc', cs')" and "tokens v + one_if (inside (pc', cs')) \<le> tokens (sync_value s) + one_if (inside (pc, cs))"
  shows "tokens_kept m (at_pc i pc' cs' (s\<lparr>sync_value := v, sync_waiters := n, blocked_queue := q\<rparr>))"
proof -
  let ?s = "s\<lparr>sync_value := v, sync_waiters := n, blocked_queue := q\<rparr>"
  have "number inside (at_pc i pc' cs' ?s) + one_if (inside (pc, cs)) = number inside s + one_if (inside (pc', cs'))"
    using number_at_pc [of i ?s inside pc' cs'] i th by simp
  moreover have "\<forall>th \<in> set ((sync_threads s)[i := (pc', cs')]). disciplined th"
    using assms(1,4) set_update_subset_insert [of "sync_threads s" i "(pc', cs')"] by (fastforce simp: tokens_kept_def)
  ultimately show ?thesis using assms(1,5) by (simp add: tokens_kept_def)
qed

lemma thread_disciplined: "tokens_kept m s \<Longrightarrow> i < length (sync_threads s) \<Longrightarrow> disciplined (sync_threads s ! i)"
  by (simp add: tokens_kept_def)

lemma wake_one_kept:
  assumes "tokens_kept m s" and inv: "sync_inv s"
  shows "tokens_kept m (wake_one s)"
proof (cases "blocked_queue s")
  case Nil
  then show ?thesis using assms(1) by (simp add: wake_one_def)
next
  case (Cons t ts)
  note wake = wake_one_inv [OF inv Cons]
  obtain cs where th: "sync_threads s ! t = (Asleep, cs)" using wake(4) by (cases "sync_threads s ! t") simp
  have "disciplined (Resume, cs)" using thread_disciplined [OF assms(1) wake(3)] th by (simp add: disciplined_simps)
  then show ?thesis
    using kept_at_pc [OF assms(1) wake(3) th, of Resume cs "sync_value s" ts "sync_waiters s"] th unfolding wake(5) by (simp add: inside_elsewhere)
qed

lemma local_move_kept:
  assumes "tokens_kept m s" and inv: "sync_inv s" and i: "i < length (sync_threads s)" and th: "sync_threads s ! i = (pc, cs)"
    and move: "local_move w pc (sync_value s) (sync_waiters s) = Some (pc', v, n)"
  shows "tokens_kept m (at_pc i pc' cs (s\<lparr>sync_value := v, sync_waiters := n\<rparr>))"
proof -
  have "(pc, cs) \<in> set (sync_threads s)" using i th by (metis nth_mem)
  then have ok: "valid (sync_value s)" "pc_ok pc" using inv by (force simp: sync_inv_def)+
  have d: "disciplined (pc, cs)" using thread_disciplined [OF assms(1) i] th by simp
  have "disciplined (pc', cs) \<and> tokens v + one_if (inside (pc', cs)) \<le> tokens (sync_value s) + one_if (inside (pc, cs))"
  proof (cases rule: local_move_cases [OF move ok])
    case (1 b)
    then have "alternates True cs" using d by (auto simp: disciplined_simps)
    then show ?thesis using 1 by (auto simp: try_succeeds_def disciplined_simps alternates_inside inside_elsewhere)
  next
    case (2 b)
    then show ?thesis using d by (auto simp: try_fails_def disciplined_simps inside_elsewhere)
  next
    case (3 b)
    then show ?thesis using d by (auto simp: disciplined_simps inside_elsewhere)
  next
    case 4
    then show ?thesis using d by (auto simp: disciplined_simps inside_elsewhere alternates_inside split: if_splits)
  qed
  then show ?thesis using kept_at_pc [OF assms(1) i th, of pc' cs v "blocked_queue s" n] by simp
qed

lemma sync_move_kept:
  assumes "sync_move w i s = Some s'" and inv: "sync_inv s" and kept: "tokens_kept m s"
  shows "tokens_kept m s'"
  using assms(1)
proof (cases rule: sync_move_cases)
  case (acquire cs)
  have "disciplined (Rest, Acquire # cs)" using thread_disciplined [OF kept acquire(1)] acquire(2) by simp
  then have "disciplined (Try False, cs)" by (simp add: disciplined_simps)
  then show ?thesis
    using kept_at_pc [OF kept acquire(1,2), of "Try False" cs "sync_value s" "blocked_queue s" "sync_waiters s"] acquire(3) by (simp add: inside_elsewhere)
next
  case (release cs)
  have "disciplined (Rest, Release # cs)" using thread_disciplined [OF kept release(1)] release(2) by simp
  then have d: "inside (Rest, Release # cs)" "disciplined (Look, cs)" by (simp_all add: disciplined_simps inside_def)
  have "valid (sync_value s)" using inv by (simp add: sync_inv_def)
  then show ?thesis
    using kept_at_pc [OF kept release(1,2), of Look cs "released_value w (sync_value s)" "blocked_queue s" "sync_waiters s"] d
      releasing [of "sync_value s"] release(3) by (simp add: inside_elsewhere)
next
  case (notify cs)
  have d: "disciplined (Notify, cs)" using thread_disciplined [OF kept notify(1)] notify(2) by simp
  then have "disciplined (Rest, cs)" "\<not> inside (Rest, cs)" by (simp_all add: disciplined_simps alternates_inside)
  moreover have "i < length (sync_threads (wake_one s))" using notify(1) by (simp add: wake_one_def split: list.splits)
  moreover have "sync_threads (wake_one s) ! i = (Notify, cs)"
  proof (cases "blocked_queue s")
    case (Cons t ts)
    note wake = wake_one_inv [OF inv Cons]
    have "t \<noteq> i" using notify(2) wake(4) by auto
    then show ?thesis using notify(2) unfolding wake(5) by simp
  qed (use notify in \<open>simp add: wake_one_def\<close>)
  ultimately show ?thesis
    using kept_at_pc [OF wake_one_kept [OF kept inv], of i Notify cs Rest cs "sync_value (wake_one s)" "blocked_queue (wake_one s)" "sync_waiters (wake_one s)"] notify(3)
    by simp
next
  case (local pc cs pc' v n)
  then show ?thesis using local_move_kept [OF kept inv] by blast
next
  case (sleep cs)
  have "disciplined (Block, cs)" using thread_disciplined [OF kept sleep(1)] sleep(2) by simp
  then have "disciplined (Asleep, cs)" by (simp add: disciplined_simps)
  then show ?thesis
    using kept_at_pc [OF kept sleep(1,2), of Asleep cs "sync_value s" "blocked_queue s @ [i]" "sync_waiters s"] sleep(4) by (simp add: inside_elsewhere)
qed

lemma reachable_kept:
  assumes "(sync_step w)\<^sup>*\<^sup>* (sync_start v programs) s" and "valid v" and "length programs < 2 ^ 32" and "\<forall>p \<in> set programs. alternates False p"
  shows "tokens_kept (tokens v) s"
  using assms(1)
proof induction
  case base
  have "disciplined (Rest, p) \<and> \<not> inside (Rest, p)" if "p \<in> set programs" for p
    using assms(4) that by (auto simp: disciplined_simps alternates_inside)
  then show ?case by (auto simp: tokens_kept_def sync_start_def number_def filter_empty_conv)
next
  case (step s s')
  then show ?case using sync_move_kept reachable_inv [OF step(1) assms(2,3)] by (auto elim: sync_step.cases)
qed

text \<open>When nobody can move, each thread is done or sleeps; whoever sleeps has nothing to take or somebody on the way.\<close>

lemma sleeper_covered:
  assumes "sync_inv s" and "covered s" and "sync_value s \<noteq> wait_old w" and "blocked_queue s \<noteq> []"
  shows "\<exists>th \<in> set (sync_threads s). on_way (fst th)"
proof -
  have "tokens (sync_value s) \<noteq> 0" using assms(1,3) waits_for_tokens [of "sync_value s"] by (auto simp: sync_inv_def)
  then have "number (on_way \<circ> fst) s \<noteq> 0" using assms(2,4) by (auto simp: covered_def)
  then show ?thesis by (auto simp: number_def filter_empty_conv)
qed

lemma stuck_done:
  assumes "\<forall>i. sync_move w i s = None" and "th \<in> set (sync_threads s)"
  shows "th = (Rest, []) \<or> fst th = Asleep"
proof -
  obtain i where i: "i < length (sync_threads s)" "sync_threads s ! i = th" using assms(2) by (auto simp: in_set_conv_nth)
  obtain pc cs where th: "th = (pc, cs)" by force
  have m: "sync_move w i s = None" using assms(1) by simp
  show ?thesis
  proof (cases pc)
    case Rest
    then show ?thesis using m i by (cases cs; cases "hd cs") (auto simp: sync_move_def th)
  qed (use m i in \<open>auto simp: sync_move_def th split: option.splits prod.splits\<close>)
qed

lemma reachable_no_lost_wakeup:
  assumes "(sync_step w)\<^sup>*\<^sup>* (sync_start v programs) s" and "valid v" and "length programs < 2 ^ 32"
  shows "(sync_value s \<noteq> wait_old w \<longrightarrow> blocked_queue s \<noteq> [] \<longrightarrow> (\<exists>th \<in> set (sync_threads s). on_way (fst th)))
    \<and> ((\<forall>i. sync_move w i s = None) \<longrightarrow> (\<forall>th \<in> set (sync_threads s). th = (Rest, []) \<or> fst th = Asleep \<and> sync_value s = wait_old w))"
proof -
  have inv: "sync_inv s" "covered s" using reachable_inv [OF assms] by simp_all
  have "th = (Rest, []) \<or> fst th = Asleep \<and> sync_value s = wait_old w" if stuck: "\<forall>i. sync_move w i s = None" and th: "th \<in> set (sync_threads s)" for th
  proof (rule ccontr)
    assume not: "\<not> ?thesis"
    then have "fst th = Asleep" "sync_value s \<noteq> wait_old w" using stuck_done [OF stuck th] by auto
    moreover have "blocked_queue s \<noteq> []"
      using \<open>fst th = Asleep\<close> th inv(1) by (force simp: sync_inv_def queue_ok_def in_set_conv_nth)
    ultimately obtain th' where "th' \<in> set (sync_threads s)" "on_way (fst th')" using sleeper_covered [OF inv] by blast
    then show False using stuck_done [OF stuck, of th'] by auto
  qed
  then show ?thesis using sleeper_covered [OF inv] by blast
qed

end



subsection \<open>The three primitives\<close>

interpretation mx: token_variable mutex "\<lambda>v. one_if (v = 0)" "\<lambda>v. v = 0 \<or> v = 1"
  by unfold_locales (auto simp: mutex_def)

interpretation ar: token_variable auto_reset_event "\<lambda>v. one_if (v = 1)" "\<lambda>v. v = 0 \<or> v = 1"
  by unfold_locales (auto simp: auto_reset_event_def)

lemma unat_pred: "v \<noteq> 0 \<Longrightarrow> Suc (unat (v - 1)) = unat (v :: u32)"
  by (metis Suc_pred' unat_gt_0 unat_minus_one)

lemma unat_succ_le: "unat (v + 1) \<le> Suc (unat (v :: u32))"
  by (simp add: unat_word_ariths mod_less_eq_dividend [THEN order_trans])

interpretation sm: token_variable semaphore unat "\<lambda>v. True"
  by unfold_locales (auto simp: semaphore_def unat_pred unat_succ_le unat_eq_0)

text \<open>The values a primitive starts with, and how many threads it lets in.\<close>

definition starts :: "waitable \<Rightarrow> u32 \<Rightarrow> nat \<Rightarrow> bool" where
  "starts w v n \<longleftrightarrow> (w = mutex \<and> v = 0 \<and> n = 1) \<or> (w = auto_reset_event \<and> (v = 0 \<and> n = 0 \<or> v = 1 \<and> n = 1)) \<or> (w = semaphore \<and> n = unat v)"

text \<open>
  C14. However threads that acquire and release in turns are interleaved, at most one of them is between its acquisition and its
  release of a mutex, and no more than \<open>res\<close> of a semaphore made with \<open>res\<close>; with an event that resets itself, used in
  this way, one if it was made signalled.
\<close>

theorem locks_exclude:
  assumes "starts w v n" and "(sync_step w)\<^sup>*\<^sup>* (sync_start v programs) s" and "length programs < 2 ^ 32" and "\<forall>p \<in> set programs. alternates False p"
  shows "number inside s \<le> n"
proof -
  consider "w = mutex" "v = 0" "n = 1" | "w = auto_reset_event" "v = 0 \<or> v = 1" "n = one_if (v = 1)" | "w = semaphore" "n = unat v"
    using assms(1) by (auto simp: starts_def)
  then show ?thesis
  proof cases
    case 1
    then show ?thesis using mx.reachable_kept [of v programs s] assms(2-) by (simp add: mx.tokens_kept_def)
  next
    case 2
    then show ?thesis using ar.reachable_kept [of v programs s] assms(2-) by (simp add: ar.tokens_kept_def)
  next
    case 3
    then show ?thesis using sm.reachable_kept [of v programs s] assms(2-) by (simp add: sm.tokens_kept_def)
  qed
qed

text \<open>
  C15. No wakeup is lost, whatever the threads do: when no thread can move, each has run all its commands or sleeps, and if some
  sleep, there is nothing to take; and while threads sleep although there is something to take, another thread is on its way to
  take it or to wake one of them.
\<close>

theorem no_lost_wakeup:
  assumes "starts w v n" and "(sync_step w)\<^sup>*\<^sup>* (sync_start v programs) s" and "length programs < 2 ^ 32"
  shows "(sync_value s \<noteq> wait_old w \<longrightarrow> blocked_queue s \<noteq> [] \<longrightarrow> (\<exists>th \<in> set (sync_threads s). on_way (fst th)))
    \<and> ((\<forall>i. sync_move w i s = None) \<longrightarrow> (\<forall>th \<in> set (sync_threads s). th = (Rest, []) \<or> fst th = Asleep \<and> sync_value s = wait_old w))"
proof -
  consider "w = mutex" "v = 0" | "w = auto_reset_event" "v = 0 \<or> v = 1" | "w = semaphore" using assms(1) by (auto simp: starts_def)
  then show ?thesis
  proof cases
    case 1
    then show ?thesis using mx.reachable_no_lost_wakeup [of v programs s] assms(2,3) by simp
  next
    case 2
    then show ?thesis using ar.reachable_no_lost_wakeup [of v programs s] assms(2,3) by simp
  next
    case 3
    then show ?thesis using sm.reachable_no_lost_wakeup [of v programs s] assms(2,3) by simp
  qed
qed

subsection \<open>Runs with a given order of moves\<close>

fun sync_run :: "waitable \<Rightarrow> nat list \<Rightarrow> sync \<Rightarrow> sync option" where
  "sync_run w [] s = Some s"
| "sync_run w (i # is) s = do { s \<leftarrow> sync_move w i s; sync_run w is s }"

lemma sync_run_steps: "sync_run w is s = Some s' \<Longrightarrow> (sync_step w)\<^sup>*\<^sup>* s s'"
proof (induction "is" arbitrary: s)
  case (Cons i "is")
  then obtain s1 where "sync_move w i s = Some s1" "sync_run w is s1 = Some s'" by (auto split: bind_splits)
  then show ?case using Cons.IH [of s1] by (auto intro: converse_rtranclp_into_rtranclp sync_step.intros)
qed simp

definition three_lockers :: sync where
  "three_lockers = sync_start 0 [[Acquire, Release], [Acquire, Release], [Acquire, Release]]"

text \<open>Thread 0 has the mutex and thread 1 sleeps; then thread 2 takes the mutex between the store and the notification of thread 0.\<close>

definition one_asleep :: sync where
  "one_asleep = the (sync_run mutex [0, 0, 1, 1, 1, 1, 1, 1] three_lockers)"

definition overtaken :: sync where
  "overtaken = the (sync_run mutex [0, 0, 1, 1, 1, 1, 1, 1, 0, 2, 2, 0, 0] three_lockers)"

lemma runs_of_three:
  "sync_run mutex [0, 0, 1, 1, 1, 1, 1, 1] three_lockers = Some \<lparr>sync_value = 1, sync_waiters = 1, blocked_queue = [1],
     sync_threads = [(Rest, [Release]), (Asleep, [Release]), (Rest, [Acquire, Release])]\<rparr>"
  "sync_run mutex [0, 0, 1, 1, 1, 1, 1, 1, 0, 2, 2, 0, 0] three_lockers = Some \<lparr>sync_value = 1, sync_waiters = 1, blocked_queue = [],
     sync_threads = [(Rest, []), (Resume, [Release]), (Rest, [Release])]\<rparr>"
  by code_simp+

lemma locks_exclude_witness: "number inside one_asleep = 1 \<and> number inside overtaken \<le> 1"
proof -
  have "number inside s \<le> 1" if "sync_run mutex is three_lockers = Some s" for "is" s
    using locks_exclude [of mutex 0 1 "[[Acquire, Release], [Acquire, Release], [Acquire, Release]]" s] sync_run_steps [OF that]
    by (simp add: starts_def three_lockers_def)
  then have "number inside overtaken \<le> 1" unfolding overtaken_def runs_of_three(2) using runs_of_three(2) by (simp only: option.sel)
  moreover have "number inside one_asleep = 1" unfolding one_asleep_def runs_of_three(1) by code_simp
  ultimately show ?thesis by simp
qed

lemma no_lost_wakeup_witness:
  "\<exists>s. sync_run mutex [0, 0, 1, 1, 1, 1, 1, 1, 0] three_lockers = Some s \<and> blocked_queue s = [1] \<and> (\<exists>th. th \<in> set (sync_threads s) \<and> on_way (fst th))"
proof -
  let ?s = "\<lparr>sync_value = 0, sync_waiters = 1, blocked_queue = [1], sync_threads = [(Look, []), (Asleep, [Release]), (Rest, [Acquire, Release])]\<rparr> :: sync"
  have run: "sync_run mutex [0, 0, 1, 1, 1, 1, 1, 1, 0] three_lockers = Some ?s" by code_simp
  show ?thesis
    using no_lost_wakeup [of mutex 0 1 "[[Acquire, Release], [Acquire, Release], [Acquire, Release]]" ?s] sync_run_steps [OF run] run
    by (auto simp: starts_def three_lockers_def mutex_def)
qed

subsection \<open>A waiter that was woken too late\<close>

context token_variable begin

text \<open>A move of one thread changes another one only by waking it.\<close>

lemma move_others:
  assumes "sync_move w i s = Some s'" and inv: "sync_inv s" and "j \<noteq> i" and "fst (sync_threads s ! j) \<noteq> Asleep"
  shows "sync_threads s' ! j = sync_threads s ! j"
  using assms(1)
proof (cases rule: sync_move_cases)
  case (notify cs)
  then show ?thesis
  proof (cases "blocked_queue s")
    case (Cons t ts)
    then have "t \<noteq> j" using inv assms(4) by (auto simp: sync_inv_def queue_ok_def)
    then show ?thesis using notify assms(3) wake_one_inv(5) [OF inv Cons] by simp
  qed (use notify assms(3) in \<open>auto simp: wake_one_def\<close>)
qed (use assms(3) in simp_all)

lemma move_length: "sync_move w i s = Some s' \<Longrightarrow> length (sync_threads s') = length (sync_threads s)"
  by (erule sync_move_cases) (auto simp: wake_one_def split: list.splits)

text \<open>All tokens are held by the threads of \<open>H\<close>.\<close>

definition held_by :: "nat set \<Rightarrow> sync \<Rightarrow> bool" where
  "held_by H s \<longleftrightarrow> sync_inv s \<and> tokens_kept (card H) s \<and> (\<forall>i \<in> H. i < length (sync_threads s) \<and> inside (sync_threads s ! i))"

lemma held_value:
  assumes "held_by H s"
  shows "sync_value s = wait_old w"
proof -
  have "H \<subseteq> {i. i < length (sync_threads s) \<and> inside (sync_threads s ! i)}" using assms by (auto simp: held_by_def)
  then have "card H \<le> number inside s" unfolding number_def length_filter_conv_card by (intro card_mono) auto
  then have "tokens (sync_value s) = 0" using assms by (auto simp: held_by_def tokens_kept_def)
  then show ?thesis using assms waits_for_tokens by (auto simp: held_by_def sync_inv_def)
qed

lemma held_move:
  assumes "held_by H s" and "sync_move w i s = Some s'" and "i \<notin> H"
  shows "held_by H s'"
proof -
  have inv: "sync_inv s" and kept: "tokens_kept (card H) s" using assms(1) by (simp_all add: held_by_def)
  have "sync_inv s'" using sync_move_inv [OF assms(2) inv] by simp
  moreover have "tokens_kept (card H) s'" by (rule sync_move_kept [OF assms(2) inv kept])
  moreover have "sync_threads s' ! j = sync_threads s ! j" if "j \<in> H" for j
  proof (rule move_others [OF assms(2) inv])
    have "inside (sync_threads s ! j)" using assms(1) that by (simp add: held_by_def)
    then show "fst (sync_threads s ! j) \<noteq> Asleep" by (auto simp: inside_def)
  qed (use assms(3) that in auto)
  ultimately show ?thesis using assms(1) move_length [OF assms(2)] by (simp add: held_by_def)
qed

lemma resume_move:
  assumes "held_by H s" and "t < length (sync_threads s)" and "fst (sync_threads s ! t) = Resume"
  shows "sync_move w t s = Some s"
proof -
  obtain cs where cs: "sync_threads s ! t = (Resume, cs)" using assms(3) by (cases "sync_threads s ! t") simp
  then have "(sync_threads s)[t := (Resume, cs)] = sync_threads s" using list_update_id [of "sync_threads s" t] by simp
  then show ?thesis using assms(2) cs held_value [OF assms(1)] by (simp add: sync_move_def at_pc_def)
qed

lemma spin_run:
  assumes "held_by H s" and "t < length (sync_threads s)" and "fst (sync_threads s ! t) = Resume"
    and "sync_run w is s = Some s'" and "set is \<inter> H = {}"
  shows "held_by H s' \<and> t < length (sync_threads s') \<and> fst (sync_threads s' ! t) = Resume"
  using assms
proof (induction "is" arbitrary: s)
  case (Cons i "is")
  then obtain s1 where s1: "sync_move w i s = Some s1" "sync_run w is s1 = Some s'" by (auto split: bind_splits)
  have held: "held_by H s1" using held_move [OF Cons.prems(1) s1(1)] Cons.prems(5) by simp
  have "fst (sync_threads s1 ! t) = Resume"
  proof (cases "i = t")
    case True
    then show ?thesis using resume_move [OF Cons.prems(1-3)] s1(1) Cons.prems(3) by simp
  next
    case False
    then have "sync_threads s1 ! t = sync_threads s ! t"
      using move_others [OF s1(1), of t] Cons.prems(1,3) by (simp add: held_by_def)
    then show ?thesis using Cons.prems(3) by simp
  qed
  then show ?case using Cons.IH [OF held _ _ s1(2)] Cons.prems(2,5) move_length [OF s1(1)] by simp
qed simp

lemma spins:
  assumes "(sync_step w)\<^sup>*\<^sup>* (sync_start v programs) s" and "valid v" and "length programs < 2 ^ 32" and "\<forall>p \<in> set programs. alternates False p"
    and "number inside s = tokens v" and "t < length (sync_threads s)" and "fst (sync_threads s ! t) = Resume"
    and "sync_run w is s = Some s'" and "\<forall>i \<in> set is. \<not> inside (sync_threads s ! i)"
  shows "fst (sync_threads s' ! t) = Resume \<and> t \<notin> set (blocked_queue s') \<and> (\<forall>k. sync_run w (replicate k t) s' = Some s')"
proof -
  let ?H = "{i. i < length (sync_threads s) \<and> inside (sync_threads s ! i)}"
  have "card ?H = tokens v" using assms(5) by (simp add: number_def length_filter_conv_card)
  then have "held_by ?H s"
    using reachable_inv [OF assms(1-3)] reachable_kept [OF assms(1-4)] by (simp add: held_by_def)
  from spin_run [OF this assms(6-8)]
  have s': "held_by ?H s'" "t < length (sync_threads s')" "fst (sync_threads s' ! t) = Resume" using assms(9) by auto
  have "sync_run w (replicate k t) s' = Some s'" for k
    using resume_move [OF s'] by (induction k) simp_all
  moreover have "t \<notin> set (blocked_queue s')" using s' by (auto simp: held_by_def sync_inv_def queue_ok_def)
  ultimately show ?thesis using s'(3) by blast
qed

end

text \<open>
  C39. A waiter that was woken and finds everything taken again does not go back to sleep.  In every reachable state of threads that
  acquire and release in turns, of a mutex, an event or a semaphore: while the threads that hold all there is make no move, a
  thread \<open>t\<close> behind its \<^verbatim>\<open>yield\<close> stays there, whatever the other threads do and however long; it is ready all the time,
  in no list of blocked threads, and any number of its moves in a row leave everything as it is.  So it keeps a processor
  busy, and where only one thread runs, the holders may never come to release.
\<close>

theorem woken_waiter_spins:
  assumes "starts w v n" and "(sync_step w)\<^sup>*\<^sup>* (sync_start v programs) s" and "length programs < 2 ^ 32" and "\<forall>p \<in> set programs. alternates False p"
    and "number inside s = n" and "t < length (sync_threads s)" and "fst (sync_threads s ! t) = Resume"
    and "sync_run w is s = Some s'" and "\<forall>i \<in> set is. \<not> inside (sync_threads s ! i)"
  shows "fst (sync_threads s' ! t) = Resume \<and> t \<notin> set (blocked_queue s') \<and> (\<forall>k. sync_run w (replicate k t) s' = Some s')"
proof -
  consider "w = mutex" "v = 0" "n = 1" | "w = auto_reset_event" "v = 0 \<or> v = 1" "n = one_if (v = 1)" | "w = semaphore" "n = unat v"
    using assms(1) by (auto simp: starts_def)
  then show ?thesis
  proof cases
    case 1
    then show ?thesis using mx.spins [of v programs s t "is" s'] assms(2-) by simp
  next
    case 2
    then show ?thesis using ar.spins [of v programs s t "is" s'] assms(2-) by simp
  next
    case 3
    then show ?thesis using sm.spins [of v programs s t "is" s'] assms(2-) by simp
  qed
qed

lemma woken_waiter_spins_witness:
  "sync_run mutex [0, 0, 1, 1, 1, 1, 1, 1, 0, 2, 2, 0, 0] three_lockers = Some overtaken \<and> inside (sync_threads overtaken ! 2) \<and>
    fst (sync_threads overtaken ! 1) = Resume \<and> sync_run mutex (replicate 1000 1) overtaken = Some overtaken"
proof -
  let ?s = "\<lparr>sync_value = 1, sync_waiters = 1, blocked_queue = [], sync_threads = [(Rest, []), (Resume, [Release]), (Rest, [Release])]\<rparr> :: sync"
  have s: "overtaken = ?s" unfolding overtaken_def runs_of_three(2) by (rule option.sel)
  have facts: "number inside ?s = 1" "inside (sync_threads ?s ! 2)" "1 < length (sync_threads ?s)" "fst (sync_threads ?s ! 1) = Resume" by code_simp+
  have "(sync_step mutex)\<^sup>*\<^sup>* (sync_start 0 [[Acquire, Release], [Acquire, Release], [Acquire, Release]]) ?s"
    using sync_run_steps [OF runs_of_three(2)] by (simp add: three_lockers_def)
  from woken_waiter_spins [of mutex 0 1, OF _ this _ _ facts(1,3,4), of "[]" ?s]
  show ?thesis using facts s runs_of_three(2) by (simp add: starts_def del: replicate.simps)
qed

end
