(* ===== verification/Kernel_Io.thy ===== *)
theory Kernel_Io
  imports Kernel_Base
begin

section \<open>Requests to devices\<close>

text \<open>
  Model of the requests of the I/O manager (\<^verbatim>\<open>src/src/os/kernel/io/io_manager.cpp\<close>, \<^verbatim>\<open>io_request.cpp\<close>,
  \<^verbatim>\<open>device.cpp\<close>, \<^verbatim>\<open>iocp.cpp\<close> with \<^verbatim>\<open>irp.h\<close>) and of two devices that take part in them: the console, whose reads wait for
  an interrupt (\<^verbatim>\<open>drivers/serial/host_console/host_console.cpp\<close>), and the standard input and output, which pass a request on to the
  device below (\<^verbatim>\<open>drivers/stdio/stream_stdio/stream_stdio.cpp\<close>).  Programs submit requests and wait for them, one
  worker serves the queues of the devices, interrupts bring waiting requests back; a step is one of these actions as far as a
  lock makes it atomic.  The hardware is a value of any type; \<open>fast_io\<close>, a parameter, is the attempt of a device to
  serve a call at once, which reads and changes it.  A step of which an assertion fails or which uses a null reference is
  \<open>None\<close>.
\<close>

subsection \<open>Requests, devices and files\<close>

datatype io_kind = Open | Read | Write | Control

record 'p io_frame =
  frame_kind :: io_kind
  frame_file :: nat
  frame_params :: 'p

text \<open>Where the program is that submitted a request: before \<^verbatim>\<open>wait\<close>, waiting for the event of a file, gone on; or it never waits.\<close>

datatype caller = To_wait | Waits nat | Returned | Asynchronous

text \<open>The frames up to the current one, the first one first; a completed request has none.\<close>

record 'p io_request =
  frames :: "'p io_frame list"
  irp_code :: error_code
  irp_bytes :: nat
  irp_refs :: nat
  irp_caller :: caller

datatype device_class = Plain | Console | Stream nat

record ('p, 'h) board =
  device_of :: "nat \<Rightarrow> nat"
  class_of :: "nat \<Rightarrow> device_class"
  fast_io :: "nat \<Rightarrow> io_kind \<Rightarrow> nat \<Rightarrow> 'p \<Rightarrow> 'h \<Rightarrow> nat result \<times> 'h"

text \<open>The worker: about to take a device off the work list, waiting for the event, serving a device, and about to put a request
  into the list of the waiting ones of a device.\<close>

datatype worker_pc = Pick | Sleep | Serve nat | Hold nat nat

record ('p, 'h) io_state =
  requests :: "'p io_request list"
  irps :: "nat \<Rightarrow> nat list"
  pending_irps :: "nat \<Rightarrow> nat list"
  work_list :: "nat list"
  work_avail :: bool
  file_event :: "nat \<Rightarrow> bool"
  ready_blocks :: "nat list"
  armed :: "nat \<Rightarrow> bool"
  worker :: worker_pc
  hardware :: 'h

definition io_initial :: "'h \<Rightarrow> ('p, 'h) io_state" where
  "io_initial h = \<lparr>requests = [], irps = (\<lambda>_. []), pending_irps = (\<lambda>_. []), work_list = [], work_avail = False,
     file_event = (\<lambda>_. False), ready_blocks = [], armed = (\<lambda>_. False), worker = Pick, hardware = h\<rparr>"

subsection \<open>Queues\<close>

definition register_device_process_io :: "nat \<Rightarrow> ('p, 'h) io_state \<Rightarrow> ('p, 'h) io_state" where
  "register_device_process_io d s = (if d \<in> set (work_list s) then s else s\<lparr>work_list := work_list s @ [d], work_avail := True\<rparr>)"

definition queue_io :: "nat \<Rightarrow> nat \<Rightarrow> ('p, 'h) io_state \<Rightarrow> ('p, 'h) io_state" where
  "queue_io d r s = register_device_process_io d (s\<lparr>irps := (irps s)(d := irps s d @ [r])\<rparr>)"

definition queue_pending_io :: "nat \<Rightarrow> nat \<Rightarrow> ('p, 'h) io_state \<Rightarrow> ('p, 'h) io_state" where
  "queue_pending_io d r s = s\<lparr>pending_irps := (pending_irps s)(d := pending_irps s d @ [r])\<rparr>"

definition update_request :: "nat \<Rightarrow> ('p io_request \<Rightarrow> 'p io_request) \<Rightarrow> ('p, 'h) io_state \<Rightarrow> ('p, 'h) io_state" where
  "update_request r f s = s\<lparr>requests := (requests s)[r := f (requests s ! r)]\<rparr>"

text \<open>The first waiting request of a kind is queued again; the assertion says that there is one.\<close>

definition requeue_pending_io :: "io_kind \<Rightarrow> nat \<Rightarrow> ('p, 'h) io_state \<Rightarrow> ('p, 'h) io_state option" where
  "requeue_pending_io kind d s = (case find (\<lambda>r. frame_kind (last (frames (requests s ! r))) = kind) (pending_irps s d) of
     None \<Rightarrow> None
   | Some r \<Rightarrow> Some (queue_io d r (s\<lparr>pending_irps := (pending_irps s)(d := remove1 r (pending_irps s d))\<rparr>)))"

subsection \<open>Requests\<close>

definition irp_queue :: "('p, 'h) board \<Rightarrow> nat \<Rightarrow> ('p, 'h) io_state \<Rightarrow> ('p, 'h) io_state option" where
  "irp_queue b r s = (let fs = frames (requests s ! r) in
     if fs = [] then None
     else let s = (if length fs = 1 then update_request r (\<lambda>q. q\<lparr>irp_refs := irp_refs q + 1\<rparr>) s else s) in
       Some (queue_io (device_of b (frame_file (last fs))) r s))"

text \<open>The frames are completed from the current one to the first, each with the event of its file; no device does more in \<^verbatim>\<open>on_io_completion\<close>.\<close>

fun notify_frames :: "'p io_frame list \<Rightarrow> (nat \<Rightarrow> bool) \<Rightarrow> nat \<Rightarrow> bool" where
  "notify_frames [] ev = ev"
| "notify_frames (f # fs) ev = notify_frames fs (ev(frame_file f := True))"

definition irp_complete :: "nat \<Rightarrow> ('p, 'h) io_state \<Rightarrow> ('p, 'h) io_state option" where
  "irp_complete r s = (let q = requests s ! r in
     if frames q = [] \<or> irp_code q = io_pending then None
     else let s = update_request r (\<lambda>q. q\<lparr>frames := []\<rparr>) (s\<lparr>file_event := notify_frames (rev (frames q)) (file_event s)\<rparr>) in
       Some (if irp_caller q = Asynchronous then s\<lparr>ready_blocks := ready_blocks s @ [r]\<rparr> else s))"

definition complete_with :: "nat \<Rightarrow> nat result \<Rightarrow> ('p, 'h) io_state \<Rightarrow> ('p, 'h) io_state option" where
  "complete_with r result s = irp_complete r (update_request r (\<lambda>q. case result of
     Inl e \<Rightarrow> q\<lparr>irp_code := e\<rparr> | Inr n \<Rightarrow> q\<lparr>irp_code := success, irp_bytes := n\<rparr>) s)"

definition max_frames :: nat where "max_frames = 3"

definition move_next_frame :: "nat \<Rightarrow> 'p io_frame \<Rightarrow> ('p, 'h) io_state \<Rightarrow> unit result \<times> ('p, 'h) io_state" where
  "move_next_frame r f s = (if length (frames (requests s ! r)) \<noteq> max_frames
     then (ok (), update_request r (\<lambda>q. q\<lparr>frames := frames q @ [f]\<rparr>) s) else (err out_of_memory, s))"

subsection \<open>Devices\<close>

text \<open>Reading and writing of the standard input and output is that of the file below it.\<close>

definition fast_call :: "('p, 'h) board \<Rightarrow> nat \<Rightarrow> io_kind \<Rightarrow> nat \<Rightarrow> 'p \<Rightarrow> 'h \<Rightarrow> nat result \<times> 'h" where
  "fast_call b d kind file params h = (case class_of b d of
     Stream f \<Rightarrow> if kind = Read \<or> kind = Write then fast_io b (device_of b f) kind f params h else fast_io b d kind file params h
   | _ \<Rightarrow> fast_io b d kind file params h)"

text \<open>\<^verbatim>\<open>device::process_io\<close>; the result of an open request has no number of bytes.\<close>

definition device_process_io :: "('p, 'h) board \<Rightarrow> nat \<Rightarrow> nat \<Rightarrow> ('p, 'h) io_state \<Rightarrow> (unit result \<times> ('p, 'h) io_state) option" where
  "device_process_io b d r s = (let q = requests s ! r in
     if frames q = [] then Some (err unavailable, s)
     else let f = last (frames q); (result, h) = fast_call b d (frame_kind f) (frame_file f) (frame_params f) (hardware s); s = s\<lparr>hardware := h\<rparr> in
       (case result of
          Inl e \<Rightarrow> Some (err e, s)
        | Inr n \<Rightarrow> do { s \<leftarrow> complete_with r (ok (if frame_kind f = Open then irp_bytes q else n)) s; Some (ok (), s) }))"

text \<open>A read of the console that finds nothing, or fails, makes the hardware interrupt when there is input.\<close>

definition console_process_io :: "('p, 'h) board \<Rightarrow> nat \<Rightarrow> nat \<Rightarrow> ('p, 'h) io_state \<Rightarrow> (unit result \<times> ('p, 'h) io_state) option" where
  "console_process_io b d r s = (let q = requests s ! r in
     if frames q = [] then Some (err unavailable, s)
     else let f = last (frames q) in
       if frame_kind f = Read then
         let (result, h) = fast_call b d Read (frame_file f) (frame_params f) (hardware s); s = s\<lparr>armed := (armed s)(d := False), hardware := h\<rparr> in
         (case result of
            Inr n \<Rightarrow> do { s \<leftarrow> complete_with r (ok n) s; Some (ok (), s) }
          | Inl e \<Rightarrow> Some (ok (), s\<lparr>armed := (armed s)(d := True)\<rparr>))
       else device_process_io b d r s)"

definition stream_process_io :: "('p, 'h) board \<Rightarrow> nat \<Rightarrow> nat \<Rightarrow> ('p, 'h) io_state \<Rightarrow> (unit result \<times> ('p, 'h) io_state) option" where
  "stream_process_io b stream_file r s = (let q = requests s ! r in
     if frames q = [] then Some (err unavailable, s)
     else let f = last (frames q) in
       if frame_kind f = Read \<or> frame_kind f = Write then
         (case move_next_frame r (f\<lparr>frame_file := stream_file\<rparr>) s of
            (Inl e, s) \<Rightarrow> Some (err e, s)
          | (Inr _, s) \<Rightarrow> do { s \<leftarrow> irp_queue b r s; Some (ok (), s) })
       else Some (err not_supported, s))"

definition process_io :: "('p, 'h) board \<Rightarrow> nat \<Rightarrow> nat \<Rightarrow> ('p, 'h) io_state \<Rightarrow> (unit result \<times> ('p, 'h) io_state) option" where
  "process_io b d r s = (case class_of b d of
     Plain \<Rightarrow> device_process_io b d r s | Console \<Rightarrow> console_process_io b d r s | Stream f \<Rightarrow> stream_process_io b f r s)"

subsection \<open>The worker\<close>

text \<open>A device off the work list, or the event is reset.\<close>

definition pick_device :: "('p, 'h) io_state \<Rightarrow> ('p, 'h) io_state" where
  "pick_device s = (case work_list s of
     d # ds \<Rightarrow> s\<lparr>work_list := ds, worker := Serve d\<rparr>
   | [] \<Rightarrow> s\<lparr>work_avail := False, worker := Sleep\<rparr>)"

text \<open>One turn of the loop of \<^verbatim>\<open>device::process_queued_ios\<close>, up to \<^verbatim>\<open>queue_pending_io\<close>.\<close>

definition serve_device :: "('p, 'h) board \<Rightarrow> nat \<Rightarrow> ('p, 'h) io_state \<Rightarrow> ('p, 'h) io_state option" where
  "serve_device b d s = (case irps s d of
     [] \<Rightarrow> Some (s\<lparr>worker := Pick\<rparr>)
   | r # rs \<Rightarrow>
       let last_frame = length (frames (requests s ! r)) in
       if last_frame = 0 then None
       else do {
         (result, s) \<leftarrow> process_io b d r (s\<lparr>irps := (irps s)(d := rs)\<rparr>);
         s \<leftarrow> (case result of Inl e \<Rightarrow> complete_with r (err e) s | Inr _ \<Rightarrow> Some s);
         let new_frame = length (frames (requests s ! r)) in
         Some (if new_frame \<noteq> last_frame
           then if new_frame = 0 then update_request r (\<lambda>q. q\<lparr>irp_refs := irp_refs q - 1\<rparr>) s else s
           else s\<lparr>worker := Hold d r\<rparr>) })"

definition work :: "('p, 'h) board \<Rightarrow> ('p, 'h) io_state \<Rightarrow> ('p, 'h) io_state option" where
  "work b s = (case worker s of
     Pick \<Rightarrow> Some (pick_device s)
   | Sleep \<Rightarrow> Some (s\<lparr>worker := Pick\<rparr>)
   | Serve d \<Rightarrow> serve_device b d s
   | Hold d r \<Rightarrow> Some ((queue_pending_io d r s)\<lparr>worker := Serve d\<rparr>))"

subsection \<open>Programs\<close>

datatype submitted = Answer "nat result" | Queued nat

text \<open>\<^verbatim>\<open>dispatch_io_fast_slow\<close> up to the wait; \<open>room\<close> tells whether the pools have room for a request.\<close>

definition submit :: "('p, 'h) board \<Rightarrow> bool \<Rightarrow> bool \<Rightarrow> nat \<Rightarrow> io_kind \<Rightarrow> 'p \<Rightarrow> ('p, 'h) io_state \<Rightarrow> (submitted \<times> ('p, 'h) io_state) option" where
  "submit b async room file kind params s =
     (let (result, h) = fast_call b (device_of b file) kind file params (hardware s);
          s = s\<lparr>file_event := (file_event s)(file := False), hardware := h\<rparr> in
      case result of
        Inr n \<Rightarrow> Some (Answer (ok n), s)
      | Inl e \<Rightarrow>
          if e \<noteq> slow_io then Some (Answer (err e), s)
          else if \<not> room then Some (Answer (err out_of_memory), s)
          else let r = length (requests s);
                   q = \<lparr>frames = [\<lparr>frame_kind = kind, frame_file = file, frame_params = params\<rparr>], irp_code = io_pending, irp_bytes = 0,
                     irp_refs = 1, irp_caller = (if async then Asynchronous else To_wait)\<rparr> in
            do { s \<leftarrow> irp_queue b r (s\<lparr>requests := requests s @ [q]\<rparr>);
                 Some (if async then (Answer (err io_pending), update_request r (\<lambda>q. q\<lparr>irp_refs := irp_refs q - 1\<rparr>) s) else (Queued r, s)) })"

text \<open>\<^verbatim>\<open>internal_wait\<close> takes the file of the first frame; later, when its event is signalled, \<^verbatim>\<open>wait\<close> returns.\<close>

definition begin_wait :: "nat \<Rightarrow> ('p, 'h) io_state \<Rightarrow> ('p, 'h) io_state option" where
  "begin_wait r s = (case frames (requests s ! r) of
     [] \<Rightarrow> None
   | f # fs \<Rightarrow> Some (update_request r (\<lambda>q. q\<lparr>irp_caller := Waits (frame_file f)\<rparr>) s))"

definition wait_result :: "nat \<Rightarrow> ('p, 'h) io_state \<Rightarrow> nat result" where
  "wait_result r s = (let q = requests s ! r in if irp_code q = success then ok (irp_bytes q) else err (irp_code q))"

definition end_wait :: "nat \<Rightarrow> ('p, 'h) io_state \<Rightarrow> ('p, 'h) io_state" where
  "end_wait r s = update_request r (\<lambda>q. q\<lparr>irp_caller := Returned, irp_refs := irp_refs q - 1\<rparr>) s"

text \<open>\<^verbatim>\<open>io_wait_queued_io\<close> with a completed block in the list.\<close>

definition dequeue_completed_io :: "('p, 'h) io_state \<Rightarrow> ('p, 'h) io_state" where
  "dequeue_completed_io s = s\<lparr>ready_blocks := tl (ready_blocks s)\<rparr>"

subsection \<open>Steps of the system\<close>

definition stdin_irq_handler :: "nat \<Rightarrow> ('p, 'h) io_state \<Rightarrow> ('p, 'h) io_state option" where
  "stdin_irq_handler d s = requeue_pending_io Read d (s\<lparr>armed := (armed s)(d := False)\<rparr>)"

datatype ('p, 'h) io_event = Submit bool bool nat io_kind 'p | Work | Interrupt nat | Begin_wait nat | End_wait nat | Collect | Hardware 'h

fun io_enabled :: "('p, 'h) io_event \<Rightarrow> ('p, 'h) io_state \<Rightarrow> bool" where
  "io_enabled Work s \<longleftrightarrow> (worker s = Sleep \<longrightarrow> work_avail s)"
| "io_enabled (Interrupt d) s \<longleftrightarrow> armed s d"
| "io_enabled (Begin_wait r) s \<longleftrightarrow> r < length (requests s) \<and> irp_caller (requests s ! r) = To_wait"
| "io_enabled (End_wait r) s \<longleftrightarrow> r < length (requests s) \<and> (case irp_caller (requests s ! r) of Waits f \<Rightarrow> file_event s f | _ \<Rightarrow> False)"
| "io_enabled Collect s \<longleftrightarrow> ready_blocks s \<noteq> []"
| "io_enabled _ s \<longleftrightarrow> True"

fun io_do :: "('p, 'h) board \<Rightarrow> ('p, 'h) io_event \<Rightarrow> ('p, 'h) io_state \<Rightarrow> ('p, 'h) io_state option" where
  "io_do b (Submit async room file kind params) s = map_option snd (submit b async room file kind params s)"
| "io_do b Work s = work b s"
| "io_do b (Interrupt d) s = stdin_irq_handler d s"
| "io_do b (Begin_wait r) s = begin_wait r s"
| "io_do b (End_wait r) s = Some (end_wait r s)"
| "io_do b Collect s = Some (dequeue_completed_io s)"
| "io_do b (Hardware h) s = Some (s\<lparr>hardware := h\<rparr>)"

inductive io_step :: "('p, 'h) board \<Rightarrow> ('p, 'h) io_state \<Rightarrow> ('p, 'h) io_state \<Rightarrow> bool" for b where
  "io_enabled ev s \<Longrightarrow> io_do b ev s = Some s' \<Longrightarrow> io_step b s s'"

subsection \<open>The invariant\<close>

definition live :: "('p, 'h) io_state \<Rightarrow> nat \<Rightarrow> bool" where
  "live s r \<longleftrightarrow> r < length (requests s) \<and> frames (requests s ! r) \<noteq> []"

definition device_at :: "('p, 'h) board \<Rightarrow> ('p, 'h) io_state \<Rightarrow> nat \<Rightarrow> nat" where
  "device_at b s r = device_of b (frame_file (last (frames (requests s ! r))))"

definition kind_at :: "('p, 'h) io_state \<Rightarrow> nat \<Rightarrow> io_kind" where
  "kind_at s r = frame_kind (last (frames (requests s ! r)))"

definition held :: "worker_pc \<Rightarrow> nat \<Rightarrow> nat list" where
  "held w d = (case w of Hold d' r \<Rightarrow> if d' = d then [r] else [] | _ \<Rightarrow> [])"

text \<open>The requests at a device: queued, waiting, and in the hands of the worker.\<close>

definition all_at :: "('p, 'h) io_state \<Rightarrow> nat \<Rightarrow> nat list" where
  "all_at s d = irps s d @ pending_irps s d @ held (worker s) d"

text \<open>Every request that is not completed is in one place, at the device of its current frame; \<open>X\<close> is one that is being processed.\<close>

definition placed :: "('p, 'h) board \<Rightarrow> nat option \<Rightarrow> ('p, 'h) io_state \<Rightarrow> bool" where
  "placed b X s \<longleftrightarrow> (\<forall>d. distinct (all_at s d) \<and> set (all_at s d) = {r. live s r \<and> device_at b s r = d \<and> X \<noteq> Some r})"

definition refs_of :: "'p io_request \<Rightarrow> nat" where
  "refs_of q = (case irp_caller q of To_wait \<Rightarrow> 1 | Waits f \<Rightarrow> 1 | _ \<Rightarrow> 0) + (if frames q \<noteq> [] then 1 else 0)"

text \<open>\<open>Y\<close> is a request that the worker has completed and not yet released.\<close>

definition request_ok :: "bool \<Rightarrow> 'p io_request \<Rightarrow> bool" where
  "request_ok extra q \<longleftrightarrow> length (frames q) \<le> max_frames \<and> (frames q \<noteq> [] \<longleftrightarrow> irp_code q = io_pending) \<and> irp_refs q = refs_of q + (if extra then 1 else 0)"

definition requests_ok :: "nat option \<Rightarrow> ('p, 'h) io_state \<Rightarrow> bool" where
  "requests_ok Y s \<longleftrightarrow> (\<forall>r < length (requests s). request_ok (Y = Some r) (requests s ! r))"

text \<open>A device with queued requests is on the work list or being served, and the worker is not asleep over a work list.\<close>

definition work_ok :: "('p, 'h) io_state \<Rightarrow> bool" where
  "work_ok s \<longleftrightarrow> distinct (work_list s) \<and> (\<forall>d. irps s d \<noteq> [] \<longrightarrow> d \<in> set (work_list s) \<or> worker s = Serve d \<or> (\<exists>r. worker s = Hold d r)) \<and>
     (worker s = Sleep \<longrightarrow> work_list s = [] \<or> work_avail s)"

text \<open>Where an interrupt may come, a read waits for it or is about to; \<open>e\<close> is a device that is just being served.\<close>

definition armed_ok :: "nat option \<Rightarrow> ('p, 'h) io_state \<Rightarrow> bool" where
  "armed_ok e s \<longleftrightarrow> (\<forall>d. armed s d \<longrightarrow> e \<noteq> Some d \<longrightarrow> (\<exists>r \<in> set (pending_irps s d @ held (worker s) d). kind_at s r = Read))"

definition io_inv :: "('p, 'h) board \<Rightarrow> ('p, 'h) io_state \<Rightarrow> bool" where
  "io_inv b s \<longleftrightarrow> placed b None s \<and> requests_ok None s \<and> work_ok s \<and> armed_ok None s"

subsection \<open>Queues keep the invariant\<close>

lemma queue_io_simps [simp]:
  "requests (queue_io d r s) = requests s" "pending_irps (queue_io d r s) = pending_irps s" "worker (queue_io d r s) = worker s"
  "armed (queue_io d r s) = armed s" "hardware (queue_io d r s) = hardware s" "file_event (queue_io d r s) = file_event s"
  "irps (queue_io d r s) = (irps s)(d := irps s d @ [r])"
  by (simp_all add: queue_io_def register_device_process_io_def)

lemma update_request_simps [simp]:
  "requests (update_request r f s) = (requests s)[r := f (requests s ! r)]" "irps (update_request r f s) = irps s" "pending_irps (update_request r f s) = pending_irps s"
  "worker (update_request r f s) = worker s" "armed (update_request r f s) = armed s" "work_list (update_request r f s) = work_list s"
  "work_avail (update_request r f s) = work_avail s" "hardware (update_request r f s) = hardware s" "ready_blocks (update_request r f s) = ready_blocks s"
  by (simp_all add: update_request_def)

text \<open>What the invariant depends on.\<close>

lemma live_cong: "requests s' = requests s \<Longrightarrow> live s' = live s \<and> device_at b s' = device_at b s \<and> kind_at s' = kind_at s"
  by (simp add: live_def device_at_def kind_at_def fun_eq_iff)

lemma placed_cong: "requests s' = requests s \<Longrightarrow> (\<And>d. all_at s' d = all_at s d) \<Longrightarrow> placed b X s' = placed b X s"
  by (simp add: placed_def live_cong [of s' s b])

lemma work_ok_cong: "irps s' = irps s \<Longrightarrow> work_list s' = work_list s \<Longrightarrow> work_avail s' = work_avail s \<Longrightarrow> worker s' = worker s \<Longrightarrow> work_ok s' = work_ok s"
  by (simp add: work_ok_def)

lemma armed_ok_cong: "requests s' = requests (s :: ('p, 'h) io_state) \<Longrightarrow> pending_irps s' = pending_irps s \<Longrightarrow> worker s' = worker s \<Longrightarrow> armed s' = armed s \<Longrightarrow> armed_ok e s' = armed_ok e s"
  by (simp add: armed_ok_def kind_at_def)

lemma placed_queue:
  assumes "placed b (Some r) s" and "live s r" and "device_at b s r = d"
  shows "placed b None (queue_io d r s)"
proof -
  have all: "distinct (all_at (queue_io d r s) d') \<and> set (all_at (queue_io d r s) d') = (if d' = d then insert r (set (all_at s d')) else set (all_at s d'))"
    for d'
  proof -
    have "distinct (all_at s d')" "r \<notin> set (all_at s d')" using assms(1) by (auto simp: placed_def)
    then show ?thesis by (auto simp: all_at_def)
  qed
  show ?thesis unfolding placed_def
  proof (intro allI conjI)
    fix d'
    show "distinct (all_at (queue_io d r s) d')" using all [of d'] by blast
    have "set (all_at s d') = {r'. live s r' \<and> device_at b s r' = d' \<and> Some r \<noteq> Some r'}" using assms(1) unfolding placed_def by blast
    then show "set (all_at (queue_io d r s) d') = {r'. live (queue_io d r s) r' \<and> device_at b (queue_io d r s) r' = d' \<and> None \<noteq> Some r'}"
      using all [of d'] assms(2,3) live_cong [of "queue_io d r s" s b] by auto
  qed
qed

lemma work_queue: "work_ok s \<Longrightarrow> work_ok (queue_io d r s)"
  by (auto simp: work_ok_def queue_io_def register_device_process_io_def)

lemma armed_queue: "armed_ok e s \<Longrightarrow> armed_ok e (queue_io d r s)"
  by (simp add: armed_ok_def live_cong [of "queue_io d r s" s])

lemma requests_queue: "requests_ok Y (queue_io d r s) = requests_ok Y s"
  by (simp add: requests_ok_def)

lemma placed_live:
  assumes "placed b X s" and "r \<in> set (all_at s d)"
  shows "live s r" "device_at b s r = d" "X \<noteq> Some r"
  using assms by (auto simp: placed_def)

lemma placed_pop:
  assumes "placed b None s" and "irps s d = r # rs"
  shows "placed b (Some r) (s\<lparr>irps := (irps s)(d := rs)\<rparr>)"
proof -
  let ?s = "s\<lparr>irps := (irps s)(d := rs)\<rparr>"
  have r: "r \<in> set (all_at s d)" using assms(2) by (simp add: all_at_def)
  have "distinct (all_at ?s d') \<and> set (all_at ?s d') = set (all_at s d') - {r}" for d'
  proof (cases "d' = d")
    case True
    have "distinct (all_at s d)" using assms(1) by (simp add: placed_def)
    then show ?thesis using assms(2) True by (auto simp: all_at_def)
  next
    case False
    then have "r \<notin> set (all_at s d')" using placed_live(2) [OF assms(1)] r by blast
    moreover have "distinct (all_at s d')" using assms(1) by (simp add: placed_def)
    ultimately show ?thesis using False by (simp add: all_at_def)
  qed
  then show ?thesis using assms(1) live_cong [of ?s s b] by (auto simp: placed_def)
qed

lemma nth_update_if: "xs[i := x] ! j = (if i = j \<and> j < length xs then x else xs ! j)"
  by (induction xs arbitrary: i j) (auto simp: nth_Cons split: nat.splits)

text \<open>The request in the hands of the worker is no longer there when it is completed.\<close>

lemma placed_complete:
  assumes "placed b (Some r) s" and "requests s' = (requests s)[r := q]" and "frames q = []" and "\<And>d. all_at s' d = all_at s d"
  shows "placed b None s'"
proof -
  have "live s' r' \<longleftrightarrow> live s r' \<and> r' \<noteq> r" for r' using assms(2,3) by (auto simp: live_def nth_update_if)
  moreover have "device_at b s' r' = device_at b s r'" if "r' \<noteq> r" for r' using assms(2) that by (simp add: device_at_def)
  ultimately show ?thesis using assms(1,4) by (auto simp: placed_def)
qed

lemma placed_update_other:
  assumes "placed b X s" and "requests s' = (requests s)[r := q]" and "r < length (requests s)" and "frames q = frames (requests s ! r)" and "\<And>d. all_at s' d = all_at s d"
  shows "placed b X s'"
proof -
  have "live s' r' = live s r'" "device_at b s' r' = device_at b s r'" for r'
    using assms(2,3,4) by (auto simp: live_def device_at_def nth_list_update)
  then show ?thesis using assms(1,5) by (simp add: placed_def)
qed

text \<open>A request may change in the hands of the worker, at another place than where interrupts look for it.\<close>

lemma armed_update:
  assumes "armed_ok e s" and "requests s' = (requests s)[r := q]" and "pending_irps s' = pending_irps s" and "worker s' = worker s" and "armed s' = armed s"
    and "frames q = frames (requests s ! r) \<or> (\<forall>d. r \<notin> set (pending_irps s d @ held (worker s) d))"
  shows "armed_ok e s'"
  unfolding armed_ok_def
proof (intro allI impI)
  fix d assume "armed s' d" "e \<noteq> Some d"
  then obtain x where x: "x \<in> set (pending_irps s d @ held (worker s) d)" "kind_at s x = Read" using assms(1,5) by (auto simp: armed_ok_def)
  moreover have "kind_at s' x = kind_at s x" using x(1) assms(2,6) by (auto simp: kind_at_def nth_update_if)
  ultimately show "\<exists>r \<in> set (pending_irps s' d @ held (worker s') d). kind_at s' r = Read" using assms(3,4) by auto
qed

lemma requests_ok_update:
  assumes "requests_ok Y s" and "requests s' = (requests s)[r := q]" and "request_ok (Y' = Some r) q" and "\<And>r'. r' \<noteq> r \<Longrightarrow> (Y = Some r') = (Y' = Some r')"
  shows "requests_ok Y' s'"
  unfolding requests_ok_def assms(2) using assms(1,3,4) by (auto simp: requests_ok_def nth_update_if)

subsection \<open>Processing a request\<close>

text \<open>The invariant while request \<open>X\<close> is being processed, \<open>Y\<close> is completed and not released, and device \<open>e\<close> may be armed already.\<close>

definition served :: "('p, 'h) board \<Rightarrow> nat option \<Rightarrow> nat option \<Rightarrow> nat option \<Rightarrow> ('p, 'h) io_state \<Rightarrow> bool" where
  "served b X Y e s \<longleftrightarrow> placed b X s \<and> requests_ok Y s \<and> work_ok s \<and> armed_ok e s"

lemma served_cong:
  assumes "requests s' = requests s" "irps s' = irps s" "pending_irps s' = pending_irps s" "worker s' = worker s" "work_list s' = work_list s" "work_avail s' = work_avail s"
    and "\<And>d. armed s' d \<Longrightarrow> e \<noteq> Some d \<Longrightarrow> armed s d"
  shows "served b X Y e s \<Longrightarrow> served b X Y e s'"
proof -
  assume s: "served b X Y e s"
  have "armed_ok e s'" using s assms(3,4,7) by (simp add: served_def armed_ok_def kind_at_def assms(1))
  moreover have "placed b X s'" using s placed_cong [of s' s b X] assms(1-4) by (simp add: served_def all_at_def)
  ultimately show ?thesis using s assms work_ok_cong [of s' s] by (simp add: served_def requests_ok_def)
qed

lemma served_weaken: "served b X Y None s \<Longrightarrow> served b X Y e s"
  by (simp add: served_def armed_ok_def)

lemma in_hand_elsewhere:
  assumes "placed b (Some r) s"
  shows "r \<notin> set (pending_irps s d @ held (worker s) d)"
  using assms by (auto simp: placed_def all_at_def)

lemma completes:
  assumes s: "served b (Some r) None e s" and r: "live s r" and "result \<noteq> Inl io_pending"
  obtains s' where "complete_with r result s = Some s'" "served b None (Some r) e s'" "frames (requests s' ! r) = []" "worker s' = worker s \<and> length (requests s') = length (requests s)"
proof -
  define f :: "'a io_request \<Rightarrow> 'a io_request" where "f q = (case result of Inl e \<Rightarrow> q\<lparr>irp_code := e\<rparr> | Inr n \<Rightarrow> q\<lparr>irp_code := success, irp_bytes := n\<rparr>)" for q
  let ?q = "f (requests s ! r)" and ?q' = "f (requests s ! r)\<lparr>frames := []\<rparr>"
  have len: "r < length (requests s)" and fs: "frames (requests s ! r) \<noteq> []" using r by (simp_all add: live_def)
  have q: "frames ?q = frames (requests s ! r)" "irp_code ?q \<noteq> io_pending" "irp_refs ?q = irp_refs (requests s ! r)" "irp_caller ?q = irp_caller (requests s ! r)"
    using assms(3) by (auto simp: f_def split: sum.splits)
  obtain s' where c: "complete_with r result s = Some s'" and s': "requests s' = (requests s)[r := ?q']" "irps s' = irps s" "pending_irps s' = pending_irps s"
    "worker s' = worker s" "work_list s' = work_list s" "work_avail s' = work_avail s" "armed s' = armed s"
    using len fs q(1,2) by (simp add: complete_with_def irp_complete_def Let_def f_def [symmetric])
  have "placed b None s'" using s placed_complete [of b r s s' ?q'] s' by (simp add: served_def all_at_def)
  moreover have "requests_ok (Some r) s'"
  proof (rule requests_ok_update [of None s])
    have "request_ok False (requests s ! r)" using s len by (simp add: served_def requests_ok_def)
    then show "request_ok (Some r = Some r) ?q'" using q fs by (simp add: request_ok_def refs_of_def)
  qed (use s s' in \<open>simp_all add: served_def\<close>)
  moreover have "armed_ok e s'"
    using s in_hand_elsewhere [of b r s] s' by (intro armed_update [of e s s' r ?q']) (auto simp: served_def)
  moreover have "work_ok s'" using s work_ok_cong [of s' s] s' by (simp add: served_def)
  ultimately have "served b None (Some r) e s'" by (simp add: served_def)
  then show ?thesis using that [OF c] s' len by simp
qed

definition fast_sane :: "('p, 'h) board \<Rightarrow> bool" where
  "fast_sane b \<longleftrightarrow> (\<forall>d kind file params h. fst (fast_io b d kind file params h) \<noteq> Inl io_pending)"

lemma fast_call_sane: "fast_sane b \<Longrightarrow> fst (fast_call b d kind file params h) \<noteq> Inl io_pending"
  by (simp add: fast_sane_def fast_call_def split: device_class.splits)

text \<open>How processing a request may end.\<close>

definition process_ends :: "('p, 'h) board \<Rightarrow> nat \<Rightarrow> nat \<Rightarrow> ('p, 'h) io_state \<Rightarrow> (unit result \<times> ('p, 'h) io_state) option \<Rightarrow> bool" where
  "process_ends b d r s out \<longleftrightarrow> (\<exists>res s'. out = Some (res, s') \<and> worker s' = worker s \<and> length (requests s') = length (requests s) \<and> (
     res = ok () \<and> frames (requests s' ! r) = [] \<and> served b None (Some r) None s'
   \<or> res = ok () \<and> length (frames (requests s' ! r)) = Suc (length (frames (requests s ! r))) \<and> served b None None None s'
   \<or> res = ok () \<and> requests s' = requests s \<and> kind_at s r = Read \<and> served b (Some r) None (Some d) s'
   \<or> (\<exists>e. res = err e \<and> e \<noteq> io_pending \<and> requests s' = requests s \<and> served b (Some r) None None s')))"

lemma device_process_ends:
  assumes s: "served b (Some r) None None s" and r: "live s r" and sane: "fast_sane b"
  shows "process_ends b d r s (device_process_io b d r s)"
proof -
  let ?f = "last (frames (requests s ! r))"
  obtain result h where fast: "fast_call b d (frame_kind ?f) (frame_file ?f) (frame_params ?f) (hardware s) = (result, h)" by force
  have pend: "result \<noteq> Inl io_pending" using fast_call_sane [OF sane, of d "frame_kind ?f" "frame_file ?f" "frame_params ?f" "hardware s"] fast by simp
  let ?s = "s\<lparr>hardware := h\<rparr>"
  have s1: "served b (Some r) None None ?s" by (rule served_cong [OF _ _ _ _ _ _ _ s]) simp_all
  have live1: "live ?s r" using r by (simp add: live_def)
  have fs: "frames (requests s ! r) \<noteq> []" using r by (simp add: live_def)
  show ?thesis
  proof (cases result)
    case (Inl e)
    then have "device_process_io b d r s = Some (err e, ?s)" using fs fast by (simp add: device_process_io_def Let_def)
    then show ?thesis using s1 pend Inl by (simp add: process_ends_def)
  next
    case (Inr n)
    let ?n = "if frame_kind ?f = Open then irp_bytes (requests s ! r) else n"
    obtain s' where s': "complete_with r (ok ?n) ?s = Some s'" "served b None (Some r) None s'" "frames (requests s' ! r) = []" "worker s' = worker ?s \<and> length (requests s') = length (requests ?s)"
      by (rule completes [OF s1 live1]) auto
    have "device_process_io b d r s = Some (ok (), s')" using fs fast Inr s'(1) by (simp add: device_process_io_def Let_def)
    then show ?thesis using s'(2-) by (simp add: process_ends_def)
  qed
qed

lemma console_process_ends:
  assumes s: "served b (Some r) None None s" and r: "live s r" and sane: "fast_sane b"
  shows "process_ends b d r s (console_process_io b d r s)"
proof (cases "kind_at s r = Read")
  case False
  then have "console_process_io b d r s = device_process_io b d r s"
    using r by (simp add: console_process_io_def kind_at_def live_def Let_def)
  then show ?thesis using device_process_ends [OF assms] by simp
next
  case True
  let ?f = "last (frames (requests s ! r))"
  obtain result h where fast: "fast_call b d Read (frame_file ?f) (frame_params ?f) (hardware s) = (result, h)" by force
  let ?s = "s\<lparr>armed := (armed s)(d := False), hardware := h\<rparr>"
  have s1: "served b (Some r) None None ?s" by (rule served_cong [OF _ _ _ _ _ _ _ s]) (auto split: if_splits)
  have live1: "live ?s r" using r by (simp add: live_def)
  have fs: "frames (requests s ! r) \<noteq> []" using r by (simp add: live_def)
  have kind: "frame_kind ?f = Read" using True by (simp add: kind_at_def)
  show ?thesis
  proof (cases result)
    case (Inl e)
    let ?s2 = "?s\<lparr>armed := (armed ?s)(d := True)\<rparr>"
    have "console_process_io b d r s = Some (ok (), ?s2)" using fs fast Inl kind by (simp add: console_process_io_def Let_def)
    moreover have "served b (Some r) None (Some d) ?s2"
      by (rule served_cong [OF _ _ _ _ _ _ _ served_weaken [OF s1]]) (auto split: if_splits)
    ultimately show ?thesis using True by (simp add: process_ends_def)
  next
    case (Inr n)
    obtain s' where s': "complete_with r (ok n) ?s = Some s'" "served b None (Some r) None s'" "frames (requests s' ! r) = []" "worker s' = worker ?s \<and> length (requests s') = length (requests ?s)"
      by (rule completes [OF s1 live1, of "ok n"]) auto
    have "console_process_io b d r s = Some (ok (), s')" using fs fast Inr s'(1) kind by (simp add: console_process_io_def Let_def)
    then show ?thesis using s'(2-) by (simp add: process_ends_def)
  qed
qed

lemma stream_process_ends:
  assumes s: "served b (Some r) None None s" and r: "live s r"
  shows "process_ends b d r s (stream_process_io b stream_file r s)"
proof -
  let ?q = "requests s ! r"
  let ?f = "last (frames ?q)" and ?q' = "?q\<lparr>frames := frames ?q @ [last (frames ?q)\<lparr>frame_file := stream_file\<rparr>]\<rparr>"
  have len: "r < length (requests s)" and fs: "frames ?q \<noteq> []" using r by (simp_all add: live_def)
  have q: "request_ok False ?q" using s len by (simp add: served_def requests_ok_def)
  consider (unsupported) "frame_kind ?f \<noteq> Read \<and> frame_kind ?f \<noteq> Write" | (full) "frame_kind ?f = Read \<or> frame_kind ?f = Write" "length (frames ?q) = max_frames"
    | (moves) "frame_kind ?f = Read \<or> frame_kind ?f = Write" "length (frames ?q) \<noteq> max_frames" by blast
  then show ?thesis
  proof cases
    case unsupported
    then have "stream_process_io b stream_file r s = Some (err not_supported, s)" using fs by (simp add: stream_process_io_def Let_def)
    then show ?thesis using s by (simp add: process_ends_def)
  next
    case full
    then have "stream_process_io b stream_file r s = Some (err out_of_memory, s)" using fs by (simp add: stream_process_io_def Let_def move_next_frame_def)
    then show ?thesis using s by (simp add: process_ends_def)
  next
    case moves
    define s1 where "s1 = update_request r (\<lambda>q. q\<lparr>frames := frames q @ [last (frames ?q)\<lparr>frame_file := stream_file\<rparr>]\<rparr>) s"
    have s1: "requests s1 = (requests s)[r := ?q']" "irps s1 = irps s" "pending_irps s1 = pending_irps s" "worker s1 = worker s" "work_list s1 = work_list s"
      "work_avail s1 = work_avail s" "armed s1 = armed s" by (simp_all add: s1_def)
    have "placed b (Some r) s1"
    proof -
      have "(live s1 r' \<and> device_at b s1 r' = d' \<and> Some r \<noteq> Some r') = (live s r' \<and> device_at b s r' = d' \<and> Some r \<noteq> Some r')" for r' d'
        using s1(1) by (auto simp: live_def device_at_def)
      then show ?thesis using s s1 by (simp add: served_def placed_def all_at_def)
    qed
    moreover have "requests_ok None s1"
    proof (rule requests_ok_update [of None s])
      show "request_ok (None = Some r) ?q'" using q moves(2) fs by (simp add: request_ok_def refs_of_def)
    qed (use s s1 in \<open>simp_all add: served_def\<close>)
    moreover have "armed_ok None s1"
      using s in_hand_elsewhere [of b r s] s1 by (intro armed_update [of None s s1 r ?q']) (auto simp: served_def)
    moreover have "work_ok s1" using s work_ok_cong [of s1 s] s1 by (simp add: served_def)
    moreover have "live s1 r" using len s1(1) by (simp add: live_def)
    ultimately have "served b None None None (queue_io (device_at b s1 r) r s1)"
      using placed_queue [of b r s1] by (auto simp: served_def requests_queue intro: work_queue armed_queue)
    moreover have "stream_process_io b stream_file r s = Some (ok (), queue_io (device_at b s1 r) r s1)"
      using moves fs len by (simp add: stream_process_io_def move_next_frame_def irp_queue_def Let_def s1_def device_at_def)
    ultimately show ?thesis using s1 len by (simp add: process_ends_def)
  qed
qed

lemma process_io_ends:
  assumes "served b (Some r) None None s" and "live s r" and "fast_sane b"
  shows "process_ends b d r s (process_io b d r s)"
  using device_process_ends [OF assms] console_process_ends [OF assms] stream_process_ends [OF assms(1,2)]
  by (simp add: process_io_def split: device_class.splits)

subsection \<open>The steps keep the invariant\<close>

lemma inv_served: "io_inv b s = served b None None None s"
  by (simp add: io_inv_def served_def)

lemma release_inv:
  assumes "served b None (Some r) None s" and "r < length (requests s)" and "frames (requests s ! r) = []"
  shows "io_inv b (update_request r (\<lambda>q. q\<lparr>irp_refs := irp_refs q - 1\<rparr>) s)"
proof -
  let ?q = "requests s ! r" and ?s = "update_request r (\<lambda>q. q\<lparr>irp_refs := irp_refs q - 1\<rparr>) s"
  have "placed b None ?s" by (rule placed_update_other [of b None s ?s r "?q\<lparr>irp_refs := irp_refs ?q - 1\<rparr>"]) (use assms in \<open>simp_all add: served_def all_at_def\<close>)
  moreover have "requests_ok None ?s"
  proof (rule requests_ok_update [of "Some r" s])
    show "request_ok (None = Some r) (?q\<lparr>irp_refs := irp_refs ?q - 1\<rparr>)"
      using assms by (auto simp: served_def requests_ok_def request_ok_def refs_of_def)
  qed (use assms in \<open>auto simp: served_def\<close>)
  moreover have "armed_ok None ?s"
    by (rule armed_update [of None s ?s r "?q\<lparr>irp_refs := irp_refs ?q - 1\<rparr>"]) (use assms in \<open>simp_all add: served_def\<close>)
  moreover have "work_ok ?s" using assms(1) work_ok_cong [of ?s s] by (simp add: served_def)
  ultimately show ?thesis by (simp add: io_inv_def)
qed

lemma work_serving:
  assumes "work_ok s" and "worker s = Serve d"
  shows "work_ok (s\<lparr>irps := (irps s)(d := rs)\<rparr>)" "work_ok (s\<lparr>worker := Hold d r\<rparr>)"
  using assms by (auto simp: work_ok_def)

lemma placed_hold:
  assumes "placed b (Some r) s" and "live s r" and "device_at b s r = d" and "worker s = Serve d"
  shows "placed b None (s\<lparr>worker := Hold d r\<rparr>)"
proof -
  let ?s = "s\<lparr>worker := Hold d r\<rparr>"
  have "distinct (all_at ?s d') \<and> set (all_at ?s d') = (if d' = d then insert r (set (all_at s d')) else set (all_at s d'))" for d'
  proof -
    have "distinct (all_at s d')" "r \<notin> set (all_at s d')" using assms(1) by (auto simp: placed_def)
    then show ?thesis using assms(4) by (auto simp: all_at_def held_def)
  qed
  then show ?thesis using assms live_cong [of ?s s b] by (auto simp: placed_def)
qed

lemma serve_device_inv:
  assumes inv: "io_inv b s" and w: "worker s = Serve d" and sane: "fast_sane b"
  obtains s' where "serve_device b d s = Some s'" "io_inv b s'"
proof (cases "irps s d")
  case Nil
  have "work_ok (s\<lparr>worker := Pick\<rparr>)" using inv w Nil by (force simp: io_inv_def work_ok_def)
  then have "io_inv b (s\<lparr>worker := Pick\<rparr>)"
    using inv w placed_cong [of "s\<lparr>worker := Pick\<rparr>" s b None] by (simp add: io_inv_def requests_ok_def armed_ok_def all_at_def held_def kind_at_def)
  then show ?thesis using that Nil by (simp add: serve_device_def)
next
  case (Cons r rs)
  let ?s = "s\<lparr>irps := (irps s)(d := rs)\<rparr>"
  have r: "live s r" "device_at b s r = d" using placed_live [of b None s r d] inv Cons by (simp_all add: io_inv_def all_at_def)
  then have live: "live ?s r" and len: "r < length (requests s)" and fs: "frames (requests s ! r) \<noteq> []" by (simp_all add: live_def)
  have "served b (Some r) None None ?s"
    using inv placed_pop [OF _ Cons, of b] work_serving(1) [OF _ w] by (simp add: io_inv_def served_def requests_ok_def armed_ok_def kind_at_def)
  from process_io_ends [OF this live sane, of d]
  obtain res s1 where p: "process_io b d r ?s = Some (res, s1)" "worker s1 = Serve d" "length (requests s1) = length (requests s)" and
    ends: "res = ok () \<and> frames (requests s1 ! r) = [] \<and> served b None (Some r) None s1
     \<or> res = ok () \<and> length (frames (requests s1 ! r)) = Suc (length (frames (requests s ! r))) \<and> served b None None None s1
     \<or> res = ok () \<and> requests s1 = requests s \<and> kind_at s r = Read \<and> served b (Some r) None (Some d) s1
     \<or> (\<exists>e. res = err e \<and> e \<noteq> io_pending \<and> requests s1 = requests s \<and> served b (Some r) None None s1)"
    using w by (auto simp: process_ends_def kind_at_def)
  note conclude = that
  have released: ?thesis if c: "(case res of Inl e \<Rightarrow> complete_with r (err e) s1 | Inr _ \<Rightarrow> Some s1) = Some s2"
      "served b None (Some r) None s2" "frames (requests s2 ! r) = []" "length (requests s2) = length (requests s)" for s2
    using conclude release_inv [OF c(2) _ c(3)] fs len p(1) c Cons by (simp add: serve_device_def Let_def)
  consider (finished) "res = ok ()" "frames (requests s1 ! r) = []" "served b None (Some r) None s1"
    | (moved) "res = ok ()" "length (frames (requests s1 ! r)) = Suc (length (frames (requests s ! r)))" "served b None None None s1"
    | (waits) "res = ok ()" "requests s1 = requests s" "kind_at s r = Read" "served b (Some r) None (Some d) s1"
    | (failed) e where "res = err e" "e \<noteq> io_pending" "requests s1 = requests s" "served b (Some r) None None s1"
    using ends by blast
  then show ?thesis
  proof cases
    case finished
    then show ?thesis using p(3) by (intro released [of s1]) simp_all
  next
    case moved
    then have "serve_device b d s = Some s1" using Cons fs p(1) by (simp add: serve_device_def Let_def)
    then show ?thesis using that moved(3) by (simp add: inv_served)
  next
    case waits
    let ?s1 = "s1\<lparr>worker := Hold d r\<rparr>"
    have "serve_device b d s = Some ?s1" using Cons fs p(1) waits by (simp add: serve_device_def Let_def)
    moreover have "live s1 r" "device_at b s1 r = d" "kind_at s1 r = Read" using r waits(2,3) by (simp_all add: live_def device_at_def kind_at_def)
    then have "placed b None ?s1" "armed_ok None ?s1"
      using waits(4) placed_hold [of b r s1 d] p(2) by (auto simp: served_def armed_ok_def held_def kind_at_def)
    then have "io_inv b ?s1" using waits(4) work_serving(2) [OF _ p(2)] by (simp add: io_inv_def served_def requests_ok_def)
    ultimately show ?thesis using that by simp
  next
    case failed
    have live1: "live s1 r" using r(1) failed(3) by (simp add: live_def)
    obtain s2 where s2: "complete_with r (err e) s1 = Some s2" "served b None (Some r) None s2" "frames (requests s2 ! r) = []" "worker s2 = worker s1 \<and> length (requests s2) = length (requests s1)"
      by (rule completes [OF failed(4) live1, of "err e"]) (use failed(2) in auto)
    then show ?thesis using failed(1) p(3) by (intro released [of s2]) simp_all
  qed
qed

lemma io_inv_cong:
  assumes "requests s' = requests s" "irps s' = irps s" "pending_irps s' = pending_irps s" "worker s' = worker s" "work_list s' = work_list s" "work_avail s' = work_avail s" "armed s' = armed s"
  shows "io_inv b s \<Longrightarrow> io_inv b s'"
  unfolding inv_served by (rule served_cong) (simp_all add: assms)

lemma inv_worker:
  assumes inv: "io_inv b s" and "requests s' = requests s" "irps s' = irps s" "pending_irps s' = pending_irps s" "armed s' = armed s"
    and "\<And>d. held (worker s') d = held (worker s) d" and "work_ok s'"
  shows "io_inv b s'"
proof -
  have "placed b None s'" using inv assms(2-6) placed_cong [of s' s b None] by (simp add: io_inv_def all_at_def)
  then show ?thesis using inv assms by (simp add: io_inv_def requests_ok_def armed_ok_def kind_at_def)
qed

lemma pick_device_inv:
  assumes inv: "io_inv b s" and "worker s = Pick"
  shows "io_inv b (pick_device s)"
proof (rule inv_worker [OF inv])
  show "work_ok (pick_device s)"
    using inv assms(2) by (auto simp: io_inv_def work_ok_def pick_device_def split: list.splits)
qed (use assms(2) in \<open>auto simp: pick_device_def held_def split: list.splits\<close>)

lemma wake_worker_inv:
  assumes inv: "io_inv b s" and "worker s = Sleep"
  shows "io_inv b (s\<lparr>worker := Pick\<rparr>)"
  by (rule inv_worker [OF inv]) (use assms in \<open>auto simp: held_def io_inv_def work_ok_def\<close>)

lemma pend_inv:
  assumes inv: "io_inv b s" and w: "worker s = Hold d r"
  shows "io_inv b ((queue_pending_io d r s)\<lparr>worker := Serve d\<rparr>)" (is "io_inv b ?s")
proof -
  have all: "distinct (all_at ?s d') = distinct (all_at s d') \<and> set (all_at ?s d') = set (all_at s d')" for d'
    using w by (auto simp: all_at_def queue_pending_io_def held_def)
  have "placed b None ?s" using inv all live_cong [of ?s s b] by (simp add: io_inv_def placed_def queue_pending_io_def)
  moreover have "armed_ok None ?s" using inv w by (auto simp: io_inv_def armed_ok_def queue_pending_io_def held_def kind_at_def)
  moreover have "work_ok ?s" using inv w by (auto simp: io_inv_def work_ok_def queue_pending_io_def)
  moreover have "requests_ok None ?s" using inv by (simp add: io_inv_def requests_ok_def queue_pending_io_def)
  ultimately show ?thesis by (simp add: io_inv_def)
qed

lemma work_inv:
  assumes "io_inv b s" and "fast_sane b"
  obtains s' where "work b s = Some s'" "io_inv b s'"
proof (cases "worker s")
  case Pick
  then show ?thesis using that pick_device_inv [OF assms(1)] by (simp add: work_def)
next
  case Sleep
  then show ?thesis using that wake_worker_inv [OF assms(1)] by (simp add: work_def)
next
  case (Serve d)
  then show ?thesis using that serve_device_inv [OF assms(1) Serve assms(2)] by (auto simp: work_def)
next
  case (Hold d r)
  then show ?thesis using that pend_inv [OF assms(1)] by (simp add: work_def)
qed

text \<open>An interrupt: a read that waits goes back into the queue.\<close>

lemma placed_unpend:
  assumes "placed b None s" and "r \<in> set (pending_irps s d)"
  shows "placed b (Some r) (s\<lparr>pending_irps := (pending_irps s)(d := remove1 r (pending_irps s d))\<rparr>)"
proof -
  let ?s = "s\<lparr>pending_irps := (pending_irps s)(d := remove1 r (pending_irps s d))\<rparr>"
  have r: "r \<in> set (all_at s d)" using assms(2) by (simp add: all_at_def)
  have "distinct (all_at ?s d') \<and> set (all_at ?s d') = set (all_at s d') - {r}" for d'
  proof (cases "d' = d")
    case True
    have "distinct (all_at s d)" using assms(1) by (simp add: placed_def)
    then show ?thesis using assms(2) True by (auto simp: all_at_def)
  next
    case False
    then have "r \<notin> set (all_at s d')" using placed_live(2) [OF assms(1)] r by blast
    moreover have "distinct (all_at s d')" using assms(1) by (simp add: placed_def)
    ultimately show ?thesis using False by (simp add: all_at_def)
  qed
  then show ?thesis using assms(1) live_cong [of ?s s b] by (auto simp: placed_def)
qed

lemma find_Some_mem: "find P xs = Some x \<Longrightarrow> x \<in> set xs \<and> P x"
  by (auto simp: find_Some_iff)

lemma interrupt_finds:
  "stdin_irq_handler d s = None \<longleftrightarrow> (\<forall>r \<in> set (pending_irps s d). kind_at s r \<noteq> Read)"
  by (auto simp: stdin_irq_handler_def requeue_pending_io_def kind_at_def find_None_iff split: option.splits dest: find_Some_mem)

lemma interrupt_inv:
  assumes inv: "io_inv b s" and "stdin_irq_handler d s = Some s'"
  shows "io_inv b s'"
proof -
  let ?s = "s\<lparr>armed := (armed s)(d := False)\<rparr>"
  obtain r where r: "r \<in> set (pending_irps s d)" "kind_at s r = Read"
    and s': "s' = queue_io d r (?s\<lparr>pending_irps := (pending_irps s)(d := remove1 r (pending_irps s d))\<rparr>)"
    using assms(2) by (auto simp: stdin_irq_handler_def requeue_pending_io_def kind_at_def split: option.splits dest: find_Some_mem)
  let ?s1 = "?s\<lparr>pending_irps := (pending_irps s)(d := remove1 r (pending_irps s d))\<rparr>"
  have placed: "placed b None s" using inv by (simp add: io_inv_def)
  have at: "live s r" "device_at b s r = d" using placed_live [OF placed, of r d] r(1) by (simp_all add: all_at_def)
  have "placed b None ?s" using placed placed_cong [of ?s s b None] by (simp add: all_at_def)
  then have "placed b (Some r) ?s1" using placed_unpend [of b ?s r d] r(1) by simp
  moreover have "live ?s1 r" "device_at b ?s1 r = d" using at by (simp_all add: live_def device_at_def)
  ultimately have "placed b None s'" unfolding s' by (rule placed_queue)
  moreover have "armed_ok None s'"
  proof -
    have "armed_ok None ?s1" using inv by (auto simp: io_inv_def armed_ok_def kind_at_def split: if_splits)
    then show ?thesis unfolding s' by (rule armed_queue)
  qed
  moreover have "work_ok s'"
  proof -
    have "work_ok ?s1" using inv work_ok_cong [of ?s1 s] by (simp add: io_inv_def)
    then show ?thesis unfolding s' by (rule work_queue)
  qed
  moreover have "requests_ok None s'" using inv by (simp add: s' requests_queue io_inv_def requests_ok_def)
  ultimately show ?thesis by (simp add: io_inv_def)
qed

text \<open>A program changes what it knows of a request, never the frames.\<close>

lemma inv_caller:
  assumes inv: "io_inv b s" and r: "r < length (requests s)" and "frames (f (requests s ! r)) = frames (requests s ! r)" and "request_ok False (f (requests s ! r))"
  shows "io_inv b (update_request r f s)"
proof -
  let ?s = "update_request r f s" and ?q = "f (requests s ! r)"
  have "placed b None ?s" using inv r assms(3) by (intro placed_update_other [of b None s ?s r ?q]) (simp_all add: io_inv_def all_at_def)
  moreover have "requests_ok None ?s"
    using inv assms(4) by (intro requests_ok_update [of None s ?s r ?q]) (simp_all add: io_inv_def)
  moreover have "armed_ok None ?s" using inv assms(3) by (intro armed_update [of None s ?s r ?q]) (simp_all add: io_inv_def)
  moreover have "work_ok ?s" using inv work_ok_cong [of ?s s] by (simp add: io_inv_def)
  ultimately show ?thesis by (simp add: io_inv_def)
qed

lemma request_ok_at: "io_inv b s \<Longrightarrow> r < length (requests s) \<Longrightarrow> request_ok False (requests s ! r)"
  by (simp add: io_inv_def requests_ok_def)

lemma begin_wait_inv:
  assumes inv: "io_inv b s" and r: "r < length (requests s)" and caller: "irp_caller (requests s ! r) = To_wait" and "begin_wait r s = Some s'"
  shows "io_inv b s'"
proof -
  obtain f fs where "frames (requests s ! r) = f # fs" "s' = update_request r (\<lambda>q. q\<lparr>irp_caller := Waits (frame_file f)\<rparr>) s"
    using assms(4) by (auto simp: begin_wait_def split: list.splits)
  then show ?thesis
    using inv_caller [OF inv r] request_ok_at [OF inv r] caller by (simp add: request_ok_def refs_of_def)
qed

lemma end_wait_inv:
  assumes inv: "io_inv b s" and r: "r < length (requests s)" and "irp_caller (requests s ! r) = Waits f"
  shows "io_inv b (end_wait r s)"
  unfolding end_wait_def
  using inv_caller [OF inv r] request_ok_at [OF inv r] assms(3) by (simp add: request_ok_def refs_of_def)

text \<open>A new request is queued at the device of its file, with one reference of the program and one of the queue.\<close>

lemma append_inv:
  assumes inv: "io_inv b s" and q: "frames q = [f]" "request_ok False q"
  shows "io_inv b (queue_io (device_of b (frame_file f)) (length (requests s)) (s\<lparr>requests := requests s @ [q]\<rparr>))"
proof -
  let ?n = "length (requests s)" and ?s = "s\<lparr>requests := requests s @ [q]\<rparr>"
  have placed: "placed b None s" using inv by (simp add: io_inv_def)
  have live: "(live ?s r \<and> device_at b ?s r = d \<and> Some ?n \<noteq> Some r) = (live s r \<and> device_at b s r = d \<and> None \<noteq> Some r)" for r d
    by (auto simp: live_def device_at_def nth_append)
  have "placed b (Some ?n) ?s"
    unfolding placed_def live using placed by (simp add: placed_def all_at_def)
  moreover have "live ?s ?n" "device_at b ?s ?n = device_of b (frame_file f)" using q(1) by (simp_all add: live_def device_at_def)
  ultimately have "placed b None (queue_io (device_of b (frame_file f)) ?n ?s)" by (rule placed_queue)
  moreover have "armed_ok None ?s"
    unfolding armed_ok_def
  proof (intro allI impI)
    fix d assume "armed ?s d"
    then obtain r where r: "r \<in> set (pending_irps s d @ held (worker s) d)" "kind_at s r = Read" using inv by (auto simp: io_inv_def armed_ok_def)
    then have "r < ?n" using placed_live(1) [OF placed, of r d] by (auto simp: all_at_def live_def)
    then show "\<exists>r \<in> set (pending_irps ?s d @ held (worker ?s) d). kind_at ?s r = Read" using r by (auto simp: kind_at_def nth_append)
  qed
  moreover have "work_ok ?s" using inv work_ok_cong [of ?s s] by (simp add: io_inv_def)
  moreover have "requests_ok None ?s" using inv q(2) by (auto simp: io_inv_def requests_ok_def nth_append less_Suc_eq)
  ultimately show ?thesis by (simp add: io_inv_def requests_queue armed_queue work_queue)
qed

lemma update_appended: "update_request (length (requests s)) f (s\<lparr>requests := requests s @ [q]\<rparr>) = s\<lparr>requests := requests s @ [f q]\<rparr>"
  by (simp add: update_request_def nth_append)

lemma update_queue: "update_request r f (queue_io d r' s) = queue_io d r' (update_request r f s)"
  by (simp add: update_request_def queue_io_def register_device_process_io_def)

lemma submit_inv:
  assumes inv: "io_inv b s"
  obtains res s' where "submit b async room file kind params s = Some (res, s')" "io_inv b s'"
proof -
  obtain result h where fast: "fast_call b (device_of b file) kind file params (hardware s) = (result, h)" by force
  let ?s = "s\<lparr>file_event := (file_event s)(file := False), hardware := h\<rparr>"
  have inv1: "io_inv b ?s" by (rule io_inv_cong [OF _ _ _ _ _ _ _ inv]) simp_all
  show ?thesis
  proof (cases "result = Inl slow_io \<and> room")
    case False
    then have "\<exists>res. submit b async room file kind params s = Some (res, ?s)" using fast by (auto simp: submit_def Let_def split: sum.splits)
    then show ?thesis using that inv1 by blast
  next
    case True
    let ?f = "\<lparr>frame_kind = kind, frame_file = file, frame_params = params\<rparr>"
    let ?q = "\<lambda>n. \<lparr>frames = [?f], irp_code = io_pending, irp_bytes = 0, irp_refs = n, irp_caller = (if async then Asynchronous else To_wait)\<rparr>"
    let ?d = "device_of b file" and ?r = "length (requests s)"
    define s1 where "s1 = queue_io ?d ?r (?s\<lparr>requests := requests ?s @ [?q 2]\<rparr>)"
    have q: "irp_queue b ?r (?s\<lparr>requests := requests ?s @ [?q 1]\<rparr>) = Some s1"
      using update_appended [of ?s "\<lambda>q. q\<lparr>irp_refs := irp_refs q + 1\<rparr>" "?q 1"] by (simp add: irp_queue_def Let_def s1_def numeral_2_eq_2)
    show ?thesis
    proof (cases async)
      case True
      let ?s' = "update_request ?r (\<lambda>q. q\<lparr>irp_refs := irp_refs q - 1\<rparr>) s1"
      have "?s' = queue_io ?d ?r (?s\<lparr>requests := requests ?s @ [?q 1]\<rparr>)"
        using update_appended [of ?s "\<lambda>q. q\<lparr>irp_refs := irp_refs q - 1\<rparr>" "?q 2"] by (simp add: s1_def update_queue)
      moreover have "io_inv b (queue_io ?d ?r (?s\<lparr>requests := requests ?s @ [?q 1]\<rparr>))"
        using append_inv [OF inv1, of "?q 1" ?f] True by (simp add: request_ok_def refs_of_def max_frames_def)
      ultimately have "io_inv b ?s'" by simp
      moreover have "submit b async room file kind params s = Some (Answer (err io_pending), ?s')"
        using \<open>result = Inl slow_io \<and> room\<close> fast q True by (simp add: submit_def Let_def)
      ultimately show ?thesis using that by blast
    next
      case False
      have "io_inv b s1" using append_inv [OF inv1, of "?q 2" ?f] False by (simp add: s1_def request_ok_def refs_of_def max_frames_def)
      moreover have "submit b async room file kind params s = Some (Queued ?r, s1)"
        using \<open>result = Inl slow_io \<and> room\<close> fast q False by (simp add: submit_def Let_def)
      ultimately show ?thesis using that by blast
    qed
  qed
qed

text \<open>Which steps fail, and that the others keep the invariant.\<close>

lemma io_do_fails:
  assumes inv: "io_inv b s" and sane: "fast_sane b" and "io_enabled ev s" and "io_do b ev s = None"
  shows "(\<exists>d r. ev = Interrupt d \<and> worker s = Hold d r) \<or> (\<exists>r. ev = Begin_wait r \<and> frames (requests s ! r) = [])"
proof (cases ev)
  case (Submit async room f kind params)
  obtain res s1 where "submit b async room f kind params s = Some (res, s1)" using submit_inv [OF inv] .
  then show ?thesis using assms(4) Submit by simp
next
  case Work
  obtain s1 where "work b s = Some s1" using work_inv [OF inv sane] .
  then show ?thesis using assms(4) Work by simp
next
  case (Interrupt d)
  then have "armed s d" "\<forall>r \<in> set (pending_irps s d). kind_at s r \<noteq> Read" using assms(3,4) interrupt_finds [of d s] by auto
  then have "\<exists>r. r \<in> set (held (worker s) d)" using inv by (auto simp: io_inv_def armed_ok_def)
  then show ?thesis using Interrupt by (cases "worker s") (auto simp: held_def split: if_splits)
next
  case (Begin_wait r)
  then show ?thesis using assms(4) by (auto simp: begin_wait_def split: list.splits)
qed (use assms(4) in auto)

lemma io_do_inv:
  assumes inv: "io_inv b s" and sane: "fast_sane b" and "io_enabled ev s" and "io_do b ev s = Some s'"
  shows "io_inv b s'"
proof (cases ev)
  case (Submit async room f kind params)
  obtain res s1 where "submit b async room f kind params s = Some (res, s1)" "io_inv b s1" using submit_inv [OF inv] .
  then show ?thesis using assms(4) Submit by simp
next
  case Work
  obtain s1 where "work b s = Some s1" "io_inv b s1" using work_inv [OF inv sane] .
  then show ?thesis using assms(4) Work by simp
next
  case (Interrupt d)
  then show ?thesis using interrupt_inv [OF inv] assms(4) by simp
next
  case (Begin_wait r)
  then show ?thesis using begin_wait_inv [OF inv, of r] assms(3,4) by simp
next
  case (End_wait r)
  then show ?thesis using end_wait_inv [OF inv, of r] assms(3,4) by (auto split: caller.splits)
next
  case Collect
  then have "s' = s\<lparr>ready_blocks := tl (ready_blocks s)\<rparr>" using assms(4) by (simp add: dequeue_completed_io_def)
  then show ?thesis by (intro io_inv_cong [OF _ _ _ _ _ _ _ inv]) simp_all
next
  case (Hardware h)
  then have "s' = s\<lparr>hardware := h\<rparr>" using assms(4) by simp
  then show ?thesis by (intro io_inv_cong [OF _ _ _ _ _ _ _ inv]) simp_all
qed

lemma io_initial_inv: "io_inv b (io_initial h)"
  by (simp add: io_inv_def io_initial_def placed_def all_at_def held_def live_def requests_ok_def work_ok_def armed_ok_def)

lemma io_reachable_inv:
  assumes "fast_sane b" and "(io_step b)\<^sup>*\<^sup>* (io_initial h) s"
  shows "io_inv b s"
  using assms(2)
proof induction
  case base
  show ?case by (rule io_initial_inv)
next
  case (step s s')
  then show ?case using io_do_inv assms(1) by (auto elim!: io_step.cases)
qed

text \<open>
  C13. Whatever programs, the worker and the hardware do, every request that is not completed is at one place, at the device of
  its current frame: in the queue, among those that wait, or in the hands of the worker.  A request has as many references as there
  are parties that use it, the program and the queue, so it is released after the last one and no sooner.  When the worker
  sleeps with nothing to do, every open request waits for an interrupt: none is forgotten in a queue.
\<close>

theorem io_requests_accounted:
  assumes "fast_sane b" and "(io_step b)\<^sup>*\<^sup>* (io_initial h) s"
  shows "(\<forall>d. distinct (all_at s d) \<and> set (all_at s d) = {r. live s r \<and> device_at b s r = d})
    \<and> (\<forall>r < length (requests s). irp_refs (requests s ! r) = refs_of (requests s ! r) \<and> length (frames (requests s ! r)) \<le> max_frames)
    \<and> (worker s = Sleep \<and> \<not> work_avail s \<longrightarrow> (\<forall>r. live s r \<longrightarrow> r \<in> set (pending_irps s (device_at b s r))))"
proof -
  have inv: "io_inv b s" by (rule io_reachable_inv [OF assms])
  then have at: "\<forall>d. distinct (all_at s d) \<and> set (all_at s d) = {r. live s r \<and> device_at b s r = d}" by (simp add: io_inv_def placed_def)
  have "r \<in> set (pending_irps s (device_at b s r))" if "worker s = Sleep" "\<not> work_avail s" "live s r" for r
  proof -
    have "irps s d = []" for d using inv that(1,2) by (auto simp: io_inv_def work_ok_def)
    moreover have "r \<in> set (all_at s (device_at b s r))" using at that(3) by blast
    ultimately show ?thesis using that(1) by (simp add: all_at_def held_def)
  qed
  then show ?thesis using at inv by (simp add: io_inv_def requests_ok_def request_ok_def)
qed

text \<open>
  C21. Only two steps can fail.  An interrupt that comes before the worker has put the request that waits for it into the list
  fails the assertion of \<^verbatim>\<open>requeue_pending_io\<close>; and a program that starts to wait for a request that is completed uses the file of
  a frame that is destroyed.
\<close>

theorem io_failures:
  assumes "fast_sane b" and "(io_step b)\<^sup>*\<^sup>* (io_initial h) s" and "io_enabled ev s" and "io_do b ev s = None"
  shows "(\<exists>d r. ev = Interrupt d \<and> worker s = Hold d r) \<or> (\<exists>r. ev = Begin_wait r \<and> frames (requests s ! r) = [])"
  using io_do_fails [OF io_reachable_inv [OF assms(1,2)] assms(1,3,4)] .

subsection \<open>The standard input over the console\<close>

text \<open>File 0 is the standard input, on device 0; below it is file 1 on device 1, the console, which has a number of characters.\<close>

fun characters :: "nat \<Rightarrow> io_kind \<Rightarrow> nat \<Rightarrow> nat \<Rightarrow> nat \<Rightarrow> nat result \<times> nat" where
  "characters d Read f n h = (if h = 0 then (err slow_io, h) else (ok (min n h), h - min n h))"
| "characters d kind f n h = (ok n, h)"

definition console_board :: "(nat, nat) board" where
  "console_board = \<lparr>device_of = (\<lambda>f. if f = 0 then 0 else 1), class_of = (\<lambda>d. if d = 0 then Stream 1 else Console), fast_io = characters\<rparr>"

fun io_run :: "('p, 'h) board \<Rightarrow> ('p, 'h) io_event list \<Rightarrow> ('p, 'h) io_state \<Rightarrow> ('p, 'h) io_state option" where
  "io_run b [] s = Some s"
| "io_run b (e # es) s = (if io_enabled e s then do { s \<leftarrow> io_do b e s; io_run b es s } else None)"

lemma io_run_steps: "io_run b es s = Some s' \<Longrightarrow> (io_step b)\<^sup>*\<^sup>* s s'"
proof (induction es arbitrary: s)
  case (Cons e es)
  then obtain s1 where "io_enabled e s" "io_do b e s = Some s1" "io_run b es s1 = Some s'" by (auto split: if_splits bind_splits)
  then show ?case using Cons.IH [of s1] by (auto intro: converse_rtranclp_into_rtranclp io_step.intros)
qed simp

lemma console_sane: "fast_sane console_board"
proof -
  have "fst (characters d kind f n h) \<noteq> Inl io_pending" for d kind f n h by (cases kind) auto
  then show ?thesis by (simp add: fast_sane_def console_board_def)
qed

definition read_char :: "(nat, nat) io_event" where "read_char = Submit False True 0 Read 1"

text \<open>A read goes down to the console and waits; a character may come at once.\<close>

definition waiting_read :: "(nat, nat) io_event list" where "waiting_read = read_char # replicate 5 Work"
definition quick_read :: "(nat, nat) io_event list" where "quick_read = [read_char, Hardware 3] @ replicate 5 Work"

lemma run_obtains:
  assumes "case io_run b es s of Some s' \<Rightarrow> P s' | None \<Rightarrow> False"
  obtains s' where "(io_step b)\<^sup>*\<^sup>* s s'" "P s'"
proof (cases "io_run b es s")
  case (Some s')
  then show ?thesis using assms that [OF io_run_steps [OF Some]] by simp
qed (use assms in simp)

lemma io_requests_accounted_witness:
  "\<exists>s. (io_step console_board)\<^sup>*\<^sup>* (io_initial 0) s \<and> live s 0 \<and> distinct (all_at s 1) \<and> 0 \<in> set (all_at s 1) \<and> irp_refs (requests s ! 0) = 2"
proof -
  have "case io_run console_board waiting_read (io_initial 0) of
      Some s \<Rightarrow> live s 0 \<and> device_at console_board s 0 = 1 \<and> length (requests s) = 1 \<and> refs_of (requests s ! 0) = 2 | None \<Rightarrow> False" by code_simp
  then obtain s where s: "(io_step console_board)\<^sup>*\<^sup>* (io_initial 0) s" "live s 0" "device_at console_board s 0 = 1" "length (requests s) = 1" "refs_of (requests s ! 0) = 2"
    by (rule run_obtains) blast
  then show ?thesis using io_requests_accounted [OF console_sane s(1)] by force
qed

lemma io_failures_witness:
  "(\<exists>s. (io_step console_board)\<^sup>*\<^sup>* (io_initial 0) s \<and> io_enabled (Interrupt 1) s \<and> io_do console_board (Interrupt 1) s = None \<and> (\<exists>r. worker s = Hold 1 r))
    \<and> (\<exists>s. (io_step console_board)\<^sup>*\<^sup>* (io_initial 0) s \<and> io_enabled (Begin_wait 0) s \<and> io_do console_board (Begin_wait 0) s = None \<and> frames (requests s ! 0) = [])"
proof -
  have "case io_run console_board waiting_read (io_initial 0) of
      Some s \<Rightarrow> io_enabled (Interrupt 1) s \<and> Option.is_none (io_do console_board (Interrupt 1) s) | None \<Rightarrow> False" by code_simp
  then obtain s where s: "(io_step console_board)\<^sup>*\<^sup>* (io_initial 0) s" "io_enabled (Interrupt 1) s" "io_do console_board (Interrupt 1) s = None"
    by (rule run_obtains) (auto simp: Option.is_none_def)
  have "case io_run console_board quick_read (io_initial 0) of
      Some s \<Rightarrow> io_enabled (Begin_wait 0) s \<and> Option.is_none (io_do console_board (Begin_wait 0) s) | None \<Rightarrow> False" by code_simp
  then obtain s' where s': "(io_step console_board)\<^sup>*\<^sup>* (io_initial 0) s'" "io_enabled (Begin_wait 0) s'" "io_do console_board (Begin_wait 0) s' = None"
    by (rule run_obtains) (auto simp: Option.is_none_def)
  show ?thesis using io_failures [OF console_sane s] io_failures [OF console_sane s'] s s' by auto
qed

subsection \<open>A read that is never looked at again\<close>

text \<open>
  What a step leaves alone at the devices of \<open>D\<close> and of the requests of \<open>R\<close>.  \<open>D\<close> is closed under the standard inputs and outputs
  that pass requests on to a device of \<open>D\<close>.
\<close>

definition closed_devices :: "('p, 'h) board \<Rightarrow> nat set \<Rightarrow> bool" where
  "closed_devices b D \<longleftrightarrow> (\<forall>x f. class_of b x = Stream f \<and> device_of b f \<in> D \<longrightarrow> x \<in> D)"

definition same_at :: "nat set \<Rightarrow> nat set \<Rightarrow> ('p, 'h) io_state \<Rightarrow> ('p, 'h) io_state \<Rightarrow> bool" where
  "same_at D R s s' \<longleftrightarrow> worker s' = worker s \<and>
     (\<forall>x \<in> D. irps s' x = irps s x \<and> pending_irps s' x = pending_irps s x \<and> armed s' x = armed s x \<and> (x \<in> set (work_list s') \<longrightarrow> x \<in> set (work_list s))) \<and>
     (\<forall>r \<in> R. frames (requests s' ! r) = frames (requests s ! r) \<and> irp_code (requests s' ! r) = irp_code (requests s ! r))"

lemma same_refl [simp]: "same_at D R s s"
  by (simp add: same_at_def)

lemma same_trans: "same_at D R s s1 \<Longrightarrow> same_at D R s1 s2 \<Longrightarrow> same_at D R s s2"
  by (simp add: same_at_def)

lemma same_update: "r \<notin> R \<Longrightarrow> same_at D R s (update_request r f s)"
  by (auto simp: same_at_def nth_update_if)

lemma same_queue: "d \<notin> D \<Longrightarrow> same_at D R s (queue_io d r s)"
  by (auto simp: same_at_def queue_io_def register_device_process_io_def)

lemma same_complete:
  assumes "complete_with r result s = Some s'" and "r \<notin> R"
  shows "same_at D R s s'"
  using assms by (auto simp: complete_with_def irp_complete_def same_at_def nth_update_if Let_def split: if_splits)

lemma same_irp_queue:
  assumes "irp_queue b r s = Some s'" and "r \<notin> R" and "device_of b (frame_file (last (frames (requests s ! r)))) \<notin> D"
  shows "same_at D R s s'"
  using assms same_trans [OF same_update [OF assms(2)] same_queue] same_queue
  by (auto simp: irp_queue_def Let_def split: if_splits)

lemma same_device_process:
  assumes "device_process_io b d r s = Some (res, s')" and "r \<notin> R"
  shows "same_at D R s s'"
proof -
  have "same_at D R s (s\<lparr>hardware := h\<rparr>)" for h by (simp add: same_at_def)
  then show ?thesis using assms same_complete [OF _ assms(2)] same_trans
    by (fastforce simp: device_process_io_def Let_def split: if_splits prod.splits sum.splits bind_splits)
qed

lemma same_console_process:
  assumes "console_process_io b d r s = Some (res, s')" and "r \<notin> R" and "d \<notin> D"
  shows "same_at D R s s'"
proof (cases "frames (requests s ! r) = [] \<or> frame_kind (last (frames (requests s ! r))) \<noteq> Read")
  case True
  then show ?thesis using assms(1) same_device_process [OF _ assms(2), of b d s res s'] by (auto simp: console_process_io_def Let_def split: if_splits)
next
  case False
  have off: "same_at D R s (s\<lparr>armed := (armed s)(d := False), hardware := h\<rparr>)" for h using assms(3) by (auto simp: same_at_def)
  have on: "same_at D R s (s\<lparr>hardware := h, armed := (armed s)(d := True)\<rparr>)" for h using assms(3) by (auto simp: same_at_def)
  show ?thesis using assms(1) False off on same_trans [OF off same_complete [OF _ assms(2)]]
    by (auto simp: console_process_io_def Let_def split: prod.splits sum.splits bind_splits)
qed

lemma same_stream_process:
  assumes "stream_process_io b f r s = Some (res, s')" and "r \<notin> R" and "r < length (requests s)" and "device_of b f \<notin> D"
  shows "same_at D R s s'"
proof -
  let ?g = "\<lambda>q. q\<lparr>frames := frames q @ [last (frames (requests s ! r))\<lparr>frame_file := f\<rparr>]\<rparr>"
  have "s' = s \<or> irp_queue b r (update_request r ?g s) = Some s'"
    using assms(1) by (auto simp: stream_process_io_def move_next_frame_def Let_def split: if_splits bind_splits)
  moreover have "same_at D R s s'" if "irp_queue b r (update_request r ?g s) = Some s'"
    using same_trans [OF same_update [OF assms(2)] same_irp_queue [OF that assms(2)]] assms(3,4) by simp
  ultimately show ?thesis by auto
qed

lemma same_process:
  assumes "process_io b d r s = Some (res, s')" and "r \<notin> R" and "r < length (requests s)" and "d \<notin> D" and "closed_devices b D"
  shows "same_at D R s s'"
proof (cases "class_of b d")
  case Plain
  then show ?thesis using assms(1) same_device_process [OF _ assms(2)] by (simp add: process_io_def)
next
  case Console
  then show ?thesis using assms(1) same_console_process [OF _ assms(2,4)] by (simp add: process_io_def)
next
  case (Stream f)
  then have "device_of b f \<notin> D" using assms(4,5) by (auto simp: closed_devices_def)
  then show ?thesis using assms(1) Stream same_stream_process [OF _ assms(2,3)] by (simp add: process_io_def)
qed

lemma same_serve:
  assumes "serve_device b d s = Some s'" and "irps s d = r # rs" and "r \<notin> R" and "r < length (requests s)" and "d \<notin> D" and "closed_devices b D"
  obtains s1 where "same_at D R s s1" and "s' = s1 \<or> s' = s1\<lparr>worker := Hold d r\<rparr>"
proof -
  let ?s = "s\<lparr>irps := (irps s)(d := rs)\<rparr>"
  have start: "same_at D R s ?s" using assms(5) by (auto simp: same_at_def)
  obtain res s2 where s2: "process_io b d r ?s = Some (res, s2)"
    using assms(1,2) by (auto simp: serve_device_def Let_def split: if_splits bind_splits)
  have "same_at D R ?s s2" by (rule same_process [OF s2 assms(3) _ assms(5,6)]) (simp add: assms(4))
  then have proc: "same_at D R s s2" by (rule same_trans [OF start])
  obtain s3 where s3: "(case res of Inl e \<Rightarrow> complete_with r (err e) s2 | Inr _ \<Rightarrow> Some s2) = Some s3"
    using assms(1,2) s2 by (auto simp: serve_device_def Let_def split: if_splits bind_splits)
  have "same_at D R s2 s3" using s3 same_complete [OF _ assms(3)] by (auto split: sum.splits)
  then have fin: "same_at D R s s3" by (rule same_trans [OF proc])
  have "s' = s3 \<or> s' = update_request r (\<lambda>q. q\<lparr>irp_refs := irp_refs q - 1\<rparr>) s3 \<or> s' = s3\<lparr>worker := Hold d r\<rparr>"
    using assms(1,2) s2 s3 by (auto simp: serve_device_def Let_def split: if_splits)
  then show thesis using that fin same_trans [OF fin same_update [OF assms(3)]] by blast
qed

text \<open>A device at which nothing is going on: no request to be served, no interrupt, no place on the work list.\<close>

definition quiet_at :: "nat \<Rightarrow> ('p, 'h) io_state \<Rightarrow> bool" where
  "quiet_at x s \<longleftrightarrow> irps s x = [] \<and> \<not> armed s x \<and> x \<notin> set (work_list s) \<and> (\<forall>r. worker s \<noteq> Hold x r)"

definition quiet :: "nat set \<Rightarrow> ('p, 'h) io_state \<Rightarrow> bool" where
  "quiet D s \<longleftrightarrow> (\<forall>x \<in> D. quiet_at x s)"

text \<open>The requests that wait at the devices of \<open>D\<close> stay as they are.\<close>

definition keeps_waiting :: "nat set \<Rightarrow> ('p, 'h) io_state \<Rightarrow> ('p, 'h) io_state \<Rightarrow> bool" where
  "keeps_waiting D s s' \<longleftrightarrow> (\<forall>x \<in> D. pending_irps s' x = pending_irps s x \<and>
     (\<forall>r \<in> set (pending_irps s x). frames (requests s' ! r) = frames (requests s ! r) \<and> irp_code (requests s' ! r) = irp_code (requests s ! r)))"

lemma same_keeps:
  assumes "same_at D {r. \<exists>x \<in> D. r \<in> set (pending_irps s x)} s s'"
  shows "keeps_waiting D s s'" and "quiet D s \<Longrightarrow> quiet D s'"
  using assms by (auto simp: same_at_def keeps_waiting_def quiet_def quiet_at_def)

lemma keeps_trans: "keeps_waiting D s s1 \<Longrightarrow> keeps_waiting D s1 s2 \<Longrightarrow> keeps_waiting D s s2"
  by (simp add: keeps_waiting_def)

fun submits_to :: "('p, 'h) board \<Rightarrow> nat set \<Rightarrow> ('p, 'h) io_event \<Rightarrow> bool" where
  "submits_to b D (Submit async room f kind params) \<longleftrightarrow> device_of b f \<in> D"
| "submits_to b D ev \<longleftrightarrow> False"

lemma quiet_step:
  assumes inv: "io_inv b s" and quiet: "quiet D s" and closed: "closed_devices b D" and "io_enabled ev s" and "io_do b ev s = Some s'" and "\<not> submits_to b D ev"
  shows "quiet D s' \<and> keeps_waiting D s s'"
proof -
  let ?R = "{r. \<exists>x \<in> D. r \<in> set (pending_irps s x)}"
  have live: "live s r" "device_at b s r \<in> D" if "r \<in> ?R" for r
    using that placed_live [of b None s r] inv by (auto simp: io_inv_def all_at_def)
  have same: ?thesis if "same_at D ?R s s'" using same_keeps [OF that] quiet by simp
  show ?thesis
  proof (cases ev)
    case (Submit async room f kind params)
    let ?n = "length (requests s)"
    have new: "?n \<notin> ?R" using live by (auto simp: live_def)
    have dev: "device_of b f \<notin> D" using assms(6) Submit by simp
    obtain res where sub: "submit b async room f kind params s = Some (res, s')" using assms(5) Submit by auto
    obtain result h where fast: "fast_call b (device_of b f) kind f params (hardware s) = (result, h)" by force
    define s1 where "s1 = s\<lparr>file_event := (file_event s)(f := False), hardware := h\<rparr>"
    have s1: "same_at D ?R s s1" by (simp add: same_at_def s1_def)
    show ?thesis
    proof (cases "s' = s1")
      case False
      define q where "q = \<lparr>frames = [\<lparr>frame_kind = kind, frame_file = f, frame_params = params\<rparr>], irp_code = io_pending, irp_bytes = 0,
        irp_refs = 1, irp_caller = (if async then Asynchronous else To_wait)\<rparr>"
      let ?s2 = "s1\<lparr>requests := requests s1 @ [q]\<rparr>"
      have len: "length (requests s1) = ?n" by (simp add: s1_def)
      have "same_at D ?R s1 ?s2" using live by (auto simp: same_at_def nth_append s1_def live_def)
      then have s2: "same_at D ?R s ?s2" by (rule same_trans [OF s1])
      obtain s3 where s3: "irp_queue b ?n ?s2 = Some s3" "s' = s3 \<or> s' = update_request ?n (\<lambda>q. q\<lparr>irp_refs := irp_refs q - 1\<rparr>) s3"
        using sub fast False len by (auto simp: submit_def s1_def q_def Let_def split: sum.splits if_splits bind_splits)
      have "same_at D ?R ?s2 s3" by (rule same_irp_queue [OF s3(1) new]) (simp add: dev q_def len nth_append)
      then have "same_at D ?R s s3" by (rule same_trans [OF s2])
      then have "same_at D ?R s s'" using s3(2) same_trans [OF _ same_update [OF new]] by blast
      then show ?thesis by (rule same)
    qed (use s1 same in simp)
  next
    case Work
    then have w: "work b s = Some s'" using assms(5) by simp
    show ?thesis
    proof (cases "worker s")
      case Pick
      then show ?thesis using w quiet by (auto simp: work_def pick_device_def quiet_def quiet_at_def keeps_waiting_def split: list.splits)
    next
      case Sleep
      then show ?thesis using w quiet by (auto simp: work_def quiet_def quiet_at_def keeps_waiting_def)
    next
      case (Hold x r)
      then have "x \<notin> D" using quiet by (auto simp: quiet_def quiet_at_def)
      then show ?thesis using w Hold quiet by (auto simp: work_def queue_pending_io_def quiet_def quiet_at_def keeps_waiting_def)
    next
      case (Serve x)
      show ?thesis
      proof (cases "irps s x")
        case Nil
        then show ?thesis using w Serve quiet by (auto simp: work_def serve_device_def quiet_def quiet_at_def keeps_waiting_def)
      next
        case (Cons r rs)
        then have x: "x \<notin> D" using quiet by (auto simp: quiet_def quiet_at_def)
        have at: "live s r" "device_at b s r = x" using placed_live [of b None s r x] inv Cons by (auto simp: io_inv_def all_at_def)
        have r: "r \<notin> ?R" using live(2) at(2) x by blast
        obtain s1 where s1: "same_at D ?R s s1" "s' = s1 \<or> s' = s1\<lparr>worker := Hold x r\<rparr>"
          using same_serve [OF _ Cons r _ x closed] w Serve at(1) by (auto simp: work_def live_def)
        then show ?thesis using same_keeps [OF s1(1)] quiet x by (auto simp: quiet_def quiet_at_def keeps_waiting_def)
      qed
    qed
  next
    case (Interrupt x)
    then have "x \<notin> D" using assms(4) quiet by (auto simp: quiet_def quiet_at_def)
    obtain r where r: "s' = queue_io x r (s\<lparr>armed := (armed s)(x := False), pending_irps := (pending_irps s)(x := remove1 r (pending_irps s x))\<rparr>)"
      using assms(5) Interrupt by (auto simp: stdin_irq_handler_def requeue_pending_io_def split: option.splits)
    have "same_at D ?R s (s\<lparr>armed := (armed s)(x := False), pending_irps := (pending_irps s)(x := remove1 r (pending_irps s x))\<rparr>)"
      using \<open>x \<notin> D\<close> by (auto simp: same_at_def)
    from same_trans [OF this same_queue [OF \<open>x \<notin> D\<close>]] have "same_at D ?R s s'" by (simp only: r)
    then show ?thesis by (rule same)
  next
    case (Begin_wait r)
    then have "same_at D ?R s s'" using assms(5) by (auto simp: begin_wait_def same_at_def nth_update_if split: list.splits)
    then show ?thesis by (rule same)
  next
    case (End_wait r)
    then have "same_at D ?R s s'" using assms(5) by (auto simp: end_wait_def same_at_def nth_update_if)
    then show ?thesis by (rule same)
  qed (use assms(5) quiet in \<open>auto simp: dequeue_completed_io_def quiet_def quiet_at_def keeps_waiting_def\<close>)
qed

lemma quiet_run:
  assumes "fast_sane b" and "closed_devices b D"
  shows "io_run b es s = Some s' \<Longrightarrow> io_inv b s \<Longrightarrow> quiet D s \<Longrightarrow> \<forall>ev \<in> set es. \<not> submits_to b D ev \<Longrightarrow> quiet D s' \<and> keeps_waiting D s s'"
proof (induction es arbitrary: s)
  case Nil
  then show ?case by (simp add: keeps_waiting_def)
next
  case (Cons e es)
  then obtain s1 where s1: "io_enabled e s" "io_do b e s = Some s1" "io_run b es s1 = Some s'" by (auto split: if_splits bind_splits)
  have one: "quiet D s1 \<and> keeps_waiting D s s1" by (rule quiet_step [OF Cons.prems(2,3) assms(2) s1(1,2)]) (use Cons.prems(4) in simp)
  have "io_inv b s1" by (rule io_do_inv [OF Cons.prems(2) assms(1) s1(1,2)])
  then show ?case using Cons.IH [OF s1(3)] one Cons.prems(4) keeps_trans by auto
qed

text \<open>A read of the console that the worker serves with success turns the interrupt off.\<close>

lemma served_read_quiet:
  assumes inv: "io_inv b s" and "d \<in> D" and "\<forall>x \<in> D - {d}. quiet_at x s"
    and "class_of b d = Console" and "worker s = Serve d" and "d \<notin> set (work_list s)" and q: "irps s d = [r0]"
    and read: "last (frames (requests s ! r0)) = \<lparr>frame_kind = Read, frame_file = f, frame_params = params\<rparr>"
    and fast: "fast_call b d Read f params (hardware s) = (ok n, h)" and "work b s = Some s'"
  shows "quiet D s' \<and> keeps_waiting D s s'"
proof -
  let ?R = "{r. \<exists>x \<in> D. r \<in> set (pending_irps s x)}"
  define s0 where "s0 = s\<lparr>irps := (irps s)(d := []), armed := (armed s)(d := False), hardware := h\<rparr>"
  have place: "placed b None s" using inv by (simp add: io_inv_def)
  have r0: "live s r0" "device_at b s r0 = d" using placed_live [OF place, of r0 d] q by (simp_all add: all_at_def)
  have "distinct (all_at s d)" using place by (simp add: placed_def)
  then have "r0 \<notin> set (pending_irps s d)" using q by (simp add: all_at_def)
  moreover have "x = d" if "r0 \<in> set (pending_irps s x)" for x
    using placed_live(2) [OF place, of r0 x] that r0(2) by (simp add: all_at_def)
  ultimately have notin: "r0 \<notin> ?R" by blast
  have fs: "frames (requests s ! r0) \<noteq> []" using r0 by (simp add: live_def)
  obtain s1 where s1: "complete_with r0 (ok n) s0 = Some s1" and s': "s' = (if length (frames (requests s1 ! r0)) \<noteq> length (frames (requests s ! r0))
      then if frames (requests s1 ! r0) = [] then update_request r0 (\<lambda>q. q\<lparr>irp_refs := irp_refs q - 1\<rparr>) s1 else s1 else s1\<lparr>worker := Hold d r0\<rparr>)"
    using assms(4,5,10) q fs read fast
    by (auto simp: work_def serve_device_def process_io_def console_process_io_def s0_def Let_def split: bind_splits)
  have "frames (requests s1 ! r0) = []"
    using s1 r0(1) by (auto simp: complete_with_def irp_complete_def Let_def s0_def live_def split: if_splits)
  then have s': "s' = update_request r0 (\<lambda>q. q\<lparr>irp_refs := irp_refs q - 1\<rparr>) s1" using s' fs by simp
  have "same_at D ?R s0 s'" unfolding s' by (rule same_trans [OF same_complete [OF s1 notin] same_update [OF notin]])
  moreover have "?R = {r. \<exists>x \<in> D. r \<in> set (pending_irps s0 x)}" by (simp add: s0_def)
  ultimately have "keeps_waiting D s0 s'" "quiet D s0 \<Longrightarrow> quiet D s'" using same_keeps [of D s0 s'] by simp_all
  moreover have "quiet D s0" using assms(2,3,5,6) by (auto simp: quiet_def quiet_at_def s0_def)
  moreover have "keeps_waiting D s s0" by (simp add: keeps_waiting_def s0_def)
  ultimately show ?thesis using keeps_trans by blast
qed

text \<open>
  C40. A read that waits for the console is never looked at again once another one was served.  In every reachable state: when the
  worker serves the only queued request of a console \<open>d\<close>, a read, with success, then every request that waits at \<open>d\<close>
  stays in the list of the waiting ones and is not completed, whatever the worker, the hardware, the interrupts and the programs do
  afterwards and however many characters there are, as long as no program submits a further request to \<open>d\<close> or to a standard input over it.  For
  the read turned the interrupt off, and an interrupt brings back one read only.  \<open>D\<close> has \<open>d\<close> and the devices that pass requests on to it, at which nothing
  is going on.
\<close>

theorem second_reader_stranded:
  assumes "fast_sane b" and "(io_step b)\<^sup>*\<^sup>* (io_initial h0) s" and "closed_devices b D" and "d \<in> D" and "\<forall>x \<in> D - {d}. quiet_at x s"
    and "class_of b d = Console" and "worker s = Serve d" and "d \<notin> set (work_list s)" and "irps s d = [r0]"
    and "last (frames (requests s ! r0)) = \<lparr>frame_kind = Read, frame_file = f, frame_params = params\<rparr>"
    and "fast_call b d Read f params (hardware s) = (ok n, h)"
    and "r \<in> set (pending_irps s d)" and "\<forall>ev \<in> set es. \<not> submits_to b D ev" and "io_run b (Work # es) s = Some s'"
  shows "r \<in> set (pending_irps s' d) \<and> frames (requests s' ! r) = frames (requests s ! r) \<and> irp_code (requests s' ! r) = io_pending \<and> \<not> io_enabled (Interrupt d) s'"
proof -
  have inv: "io_inv b s" by (rule io_reachable_inv [OF assms(1,2)])
  obtain s1 where s1: "io_enabled Work s" "io_do b Work s = Some s1" "io_run b es s1 = Some s'" using assms(14) by (auto split: if_splits bind_splits)
  have "work b s = Some s1" using s1(2) by simp
  note one = served_read_quiet [OF inv assms(4-11) this]
  have "io_inv b s1" by (rule io_do_inv [OF inv assms(1) s1(1,2)])
  then have rest: "quiet D s' \<and> keeps_waiting D s1 s'" using quiet_run [OF assms(1,3) s1(3)] one assms(13) by blast
  then have "keeps_waiting D s s'" using one keeps_trans by blast
  moreover have "irp_code (requests s ! r) = io_pending"
  proof -
    have "live s r" using placed_live(1) [of b None s r d] inv assms(12) by (simp add: io_inv_def all_at_def)
    then show ?thesis using inv by (auto simp: io_inv_def requests_ok_def request_ok_def live_def)
  qed
  moreover have "\<not> armed s' d" using rest assms(4) by (simp add: quiet_def quiet_at_def)
  ultimately show ?thesis using assms(4,12) by (simp add: keeps_waiting_def)
qed

text \<open>Two reads wait, three characters come; the second read still waits after any number of further characters.\<close>

definition two_reads :: "(nat, nat) io_event list" where
  "two_reads = [read_char, read_char] @ replicate 11 Work @ [Hardware 3, Interrupt 1, Work, Work]"

lemma second_reader_stranded_witness:
  "\<exists>s s'. (io_step console_board)\<^sup>*\<^sup>* (io_initial 0) s \<and> io_run console_board [Work, Work, Work, Hardware 90] s = Some s' \<and>
    1 \<in> set (pending_irps s' 1) \<and> irp_code (requests s' ! 1) = io_pending \<and> hardware s' = 90"
proof -
  have "case io_run console_board two_reads (io_initial 0) of Some s \<Rightarrow>
      worker s = Serve 1 \<and> work_list s = [] \<and> irps s 0 = [] \<and> irps s 1 = [0] \<and> \<not> armed s 0 \<and> pending_irps s 1 = [1] \<and>
      last (frames (requests s ! 0)) = \<lparr>frame_kind = Read, frame_file = 1, frame_params = 1\<rparr> \<and> hardware s = 3 \<and>
      (case io_run console_board [Work, Work, Work, Hardware 90] s of Some s' \<Rightarrow> hardware s' = 90 | None \<Rightarrow> False) | None \<Rightarrow> False"
    by code_simp
  then obtain s where s: "(io_step console_board)\<^sup>*\<^sup>* (io_initial 0) s" "worker s = Serve 1" "work_list s = []" "irps s 0 = []" "irps s 1 = [0]" "\<not> armed s 0"
      "pending_irps s 1 = [1]" "last (frames (requests s ! 0)) = \<lparr>frame_kind = Read, frame_file = 1, frame_params = 1\<rparr>" "hardware s = 3"
      "case io_run console_board [Work, Work, Work, Hardware 90] s of Some s' \<Rightarrow> hardware s' = 90 | None \<Rightarrow> False"
    by (rule run_obtains) blast
  obtain s' where s': "io_run console_board [Work, Work, Work, Hardware 90] s = Some s'" "hardware s' = 90"
    using s(10) by (auto split: option.splits)
  have closed: "closed_devices console_board {0, 1}" by (auto simp: closed_devices_def console_board_def split: if_splits)
  have quiet: "\<forall>x \<in> {0, 1} - {1}. quiet_at x s" using s(2-4,6) by (auto simp: quiet_at_def)
  have fast: "fast_call console_board 1 Read 1 1 (hardware s) = (ok 1, 2)" unfolding s(9) by code_simp
  have "1 \<in> set (pending_irps s' 1) \<and> frames (requests s' ! 1) = frames (requests s ! 1) \<and> irp_code (requests s' ! 1) = io_pending \<and> \<not> io_enabled (Interrupt 1) s'"
    by (rule second_reader_stranded [OF console_sane s(1) closed _ quiet _ s(2) _ s(5,8) fast _ _ s'(1)])
      (use s(3,7) in \<open>simp_all add: console_board_def\<close>)
  then show ?thesis using s(1) s' by blast
qed

end
