(* ===== verification/Kernel_Files.thy ===== *)
theory Kernel_Files
  imports Kernel_Objects Kernel_Directory
begin

section \<open>System calls on files and sockets\<close>

text \<open>
  Model of the calls \<^verbatim>\<open>open\<close>, \<^verbatim>\<open>close\<close>, \<^verbatim>\<open>read\<close>, \<^verbatim>\<open>write\<close>, \<^verbatim>\<open>ioctl\<close>, \<^verbatim>\<open>socket\<close> and those on sockets of the kernel services
  (\<^verbatim>\<open>src/src/os/kernel/io/io_manager.cpp\<close>, \<^verbatim>\<open>file.cpp\<close>, \<^verbatim>\<open>net/socket_manager.cpp\<close>), which tie together the directories, the handle table of the process and the
  files of the devices.  A file is a number; it has its device, the references to it and the data of the driver.  The answers of the
  drivers, at once or by a request (\<^verbatim>\<open>dispatch_io_fast_slow\<close>, see \<^verbatim>\<open>Kernel_Io\<close>), and whether the pool of files has room, are parameters.  The
  process opens files only, and its calls come one after the other.  A failed assertion and a reference to a file that is gone are \<open>None\<close>.
\<close>

subsection \<open>Files\<close>

record 'f file_object =
  file_device :: "named_object option"
  file_refs :: nat
  file_data :: 'f

text \<open>What the drivers answer to a call, with the data of the file and the state of the hardware after it.  The requests to sockets and
  what they store are those of the driver (\<^verbatim>\<open>Kernel_Sockets\<close> has the one of the repository).\<close>

record ('f, 'h, 'q, 'p) drivers =
  is_device :: "named_object \<Rightarrow> bool"
  no_data :: 'f
  drv_open :: "named_object \<Rightarrow> string \<Rightarrow> 'f \<Rightarrow> 'h \<Rightarrow> unit result \<times> 'f \<times> 'h"
  drv_close :: "named_object \<Rightarrow> 'f \<Rightarrow> 'h \<Rightarrow> unit result \<times> 'h"
  drv_read :: "named_object \<Rightarrow> nat \<Rightarrow> 'f \<Rightarrow> 'h \<Rightarrow> byte list result \<times> 'f \<times> 'h"
  drv_write :: "named_object \<Rightarrow> byte list \<Rightarrow> 'f \<Rightarrow> 'h \<Rightarrow> nat result \<times> 'f \<times> 'h"
  drv_control :: "named_object \<Rightarrow> nat \<Rightarrow> 'f \<Rightarrow> 'h \<Rightarrow> int result \<times> 'f \<times> 'h"
  debug_print :: "byte list \<Rightarrow> 'h \<Rightarrow> 'h"
  default_socket_device :: "named_object option"
  is_socket_device :: "named_object \<Rightarrow> bool"
  drv_socket :: "named_object \<Rightarrow> int \<Rightarrow> int \<Rightarrow> int \<Rightarrow> 'f \<Rightarrow> 'h \<Rightarrow> unit result \<times> 'f \<times> 'h"
  drv_request :: "named_object \<Rightarrow> 'q \<Rightarrow> 'f \<Rightarrow> 'h \<Rightarrow> (int \<times> 'p) result \<times> 'f \<times> 'h"

record ('f, 'h) kernel =
  kernel_root :: "named_object list"
  kernel_handles :: "nat handle_table"
  kernel_files :: "nat \<Rightarrow> 'f file_object option"
  next_file :: nat
  kernel_hardware :: 'h

definition kernel_start :: "named_object list \<Rightarrow> 'h \<Rightarrow> ('f, 'h) kernel" where
  "kernel_start root h = \<lparr>kernel_root = root, kernel_handles = handle_table, kernel_files = (\<lambda>_. None), next_file = 0, kernel_hardware = h\<rparr>"

definition put_file :: "nat \<Rightarrow> 'f file_object option \<Rightarrow> ('f, 'h) kernel \<Rightarrow> ('f, 'h) kernel" where
  "put_file f q s = s\<lparr>kernel_files := (kernel_files s)(f := q)\<rparr>"

definition add_ref :: "nat \<Rightarrow> ('f, 'h) kernel \<Rightarrow> ('f, 'h) kernel option" where
  "add_ref f s = do { q \<leftarrow> kernel_files s f; Some (put_file f (Some (q\<lparr>file_refs := file_refs q + 1\<rparr>)) s) }"

text \<open>\<^verbatim>\<open>~file\<close>: a file that has a device is closed there; then its place in the pool is free.\<close>

definition destroy_file :: "('f, 'h, 'q, 'p) drivers \<Rightarrow> nat \<Rightarrow> 'f file_object \<Rightarrow> ('f, 'h) kernel \<Rightarrow> ('f, 'h) kernel" where
  "destroy_file b f q s = put_file f None (case file_device q of
     None \<Rightarrow> s
   | Some d \<Rightarrow> s\<lparr>kernel_hardware := snd (drv_close b d (file_data q) (kernel_hardware s))\<rparr>)"

definition dec_ref :: "('f, 'h, 'q, 'p) drivers \<Rightarrow> nat \<Rightarrow> ('f, 'h) kernel \<Rightarrow> ('f, 'h) kernel option" where
  "dec_ref b f s = do {
     q \<leftarrow> kernel_files s f;
     Some (if file_refs q = 1 then destroy_file b f q s else put_file f (Some (q\<lparr>file_refs := file_refs q - 1\<rparr>)) s) }"

definition prepare_to_open :: "named_object \<Rightarrow> nat \<Rightarrow> ('f, 'h) kernel \<Rightarrow> ('f, 'h) kernel option" where
  "prepare_to_open d f s = do {
     q \<leftarrow> kernel_files s f;
     if file_device q = None then Some (put_file f (Some (q\<lparr>file_device := Some d\<rparr>)) s) else None }"

definition failed_to_open :: "nat \<Rightarrow> ('f, 'h) kernel \<Rightarrow> ('f, 'h) kernel option" where
  "failed_to_open f s = do { q \<leftarrow> kernel_files s f; Some (put_file f (Some (q\<lparr>file_device := None\<rparr>)) s) }"

text \<open>A call of the driver of a file.\<close>

definition call_driver :: "(named_object \<Rightarrow> 'f \<Rightarrow> 'h \<Rightarrow> 'a result \<times> 'f \<times> 'h) \<Rightarrow> nat \<Rightarrow> ('f, 'h) kernel \<Rightarrow> ('a result \<times> ('f, 'h) kernel) option" where
  "call_driver call f s = do {
     q \<leftarrow> kernel_files s f;
     d \<leftarrow> file_device q;
     let (r, data, h) = call d (file_data q) (kernel_hardware s);
     Some (r, (put_file f (Some (q\<lparr>file_data := data\<rparr>)) s)\<lparr>kernel_hardware := h\<rparr>) }"

text \<open>\<^verbatim>\<open>open_file\<close> with a device and the rest of a path; \<open>room\<close> tells whether the pool of files has room.  The result has one reference.\<close>

definition open_on :: "('f, 'h, 'q, 'p) drivers \<Rightarrow> bool \<Rightarrow> named_object \<Rightarrow> string \<Rightarrow> ('f, 'h) kernel \<Rightarrow> (nat result \<times> ('f, 'h) kernel) option" where
  "open_on b room d rest s = (if \<not> room then Some (err out_of_memory, s)
     else do {
       let f = next_file s;
       s \<leftarrow> prepare_to_open d f ((put_file f (Some \<lparr>file_device = None, file_refs = 1, file_data = no_data b\<rparr>) s)\<lparr>next_file := f + 1\<rparr>);
       (r, s) \<leftarrow> call_driver (\<lambda>d. drv_open b d rest) f s;
       (case r of
          Inr _ \<Rightarrow> Some (ok f, s)
        | Inl e \<Rightarrow> do { s \<leftarrow> failed_to_open f s; s \<leftarrow> dec_ref b f s; Some (err e, s) }) })"

definition open_file :: "('f, 'h, 'q, 'p) drivers \<Rightarrow> bool \<Rightarrow> string \<Rightarrow> ('f, 'h) kernel \<Rightarrow> (nat result \<times> ('f, 'h) kernel) option" where
  "open_file b room path s = (case find_device (is_device b) path (kernel_root s) of
     Inl e \<Rightarrow> Some (err e, s)
   | Inr (d, rest) \<Rightarrow> open_on b room d rest s)"

subsection \<open>The calls\<close>

definition generic_all :: u32 where "generic_all = 1"

text \<open>A handle for a new file, whose first reference ends with the call.\<close>

definition give_handle :: "('f, 'h, 'q, 'p) drivers \<Rightarrow> nat \<Rightarrow> ('f, 'h) kernel \<Rightarrow> (int result \<times> ('f, 'h) kernel) option" where
  "give_handle b f s = do {
     (r, t) \<leftarrow> handle_allocate f generic_all (kernel_handles s);
     s \<leftarrow> (case r of Inr fd \<Rightarrow> add_ref f (s\<lparr>kernel_handles := t\<rparr>) | Inl e \<Rightarrow> Some (s\<lparr>kernel_handles := t\<rparr>));
     s \<leftarrow> dec_ref b f s;
     Some (r, s) }"

definition sys_open :: "('f, 'h, 'q, 'p) drivers \<Rightarrow> bool \<Rightarrow> string \<Rightarrow> ('f, 'h) kernel \<Rightarrow> (int result \<times> ('f, 'h) kernel) option" where
  "sys_open b room path s = do {
     (r, s) \<leftarrow> open_file b room path s;
     (case r of Inl e \<Rightarrow> Some (err e, s) | Inr f \<Rightarrow> give_handle b f s) }"

definition sys_close :: "('f, 'h, 'q, 'p) drivers \<Rightarrow> int \<Rightarrow> ('f, 'h) kernel \<Rightarrow> (int result \<times> ('f, 'h) kernel) option" where
  "sys_close b fd s = (case handle_free fd (kernel_handles s) of
     (Inl e, t) \<Rightarrow> Some (err e, s\<lparr>kernel_handles := t\<rparr>)
   | (Inr entry, t) \<Rightarrow> do { s \<leftarrow> dec_ref b (handle_object entry) (s\<lparr>kernel_handles := t\<rparr>); Some (ok 0, s) })"

text \<open>The file of a descriptor has one more reference during the call; every object with a handle is a file.\<close>

definition on_file :: "('f, 'h, 'q, 'p) drivers \<Rightarrow> (named_object \<Rightarrow> 'f \<Rightarrow> 'h \<Rightarrow> 'a result \<times> 'f \<times> 'h) \<Rightarrow> int \<Rightarrow> ('f, 'h) kernel \<Rightarrow> ('a result \<times> ('f, 'h) kernel) option" where
  "on_file b call fd s = (case reference_object (\<lambda>_. True) fd (kernel_handles s) of
     Inl e \<Rightarrow> Some (err e, s)
   | Inr f \<Rightarrow> do {
       s \<leftarrow> add_ref f s;
       (r, s) \<leftarrow> call_driver call f s;
       s \<leftarrow> dec_ref b f s;
       Some (r, s) })"

definition sys_read :: "('f, 'h, 'q, 'p) drivers \<Rightarrow> int \<Rightarrow> nat \<Rightarrow> ('f, 'h) kernel \<Rightarrow> (byte list result \<times> ('f, 'h) kernel) option" where
  "sys_read b fd n s = (if fd = 0 then Some (err not_supported, s)
     else if fd = 1 \<or> fd = 2 then Some (err bad_cast, s)
     else on_file b (\<lambda>d. drv_read b d n) fd s)"

text \<open>\<open>memory\<close> is what is found from the address of the buffer on; the debug output gets the address only.\<close>

definition sys_write :: "('f, 'h, 'q, 'p) drivers \<Rightarrow> int \<Rightarrow> byte list \<Rightarrow> nat \<Rightarrow> ('f, 'h) kernel \<Rightarrow> (nat result \<times> ('f, 'h) kernel) option" where
  "sys_write b fd memory n s = (if fd = 0 then Some (err bad_cast, s)
     else if fd = 1 \<or> fd = 2 then Some (ok n, s\<lparr>kernel_hardware := debug_print b memory (kernel_hardware s)\<rparr>)
     else on_file b (\<lambda>d. drv_write b d (take n memory)) fd s)"

definition sys_ioctl :: "('f, 'h, 'q, 'p) drivers \<Rightarrow> int \<Rightarrow> nat \<Rightarrow> ('f, 'h) kernel \<Rightarrow> (int result \<times> ('f, 'h) kernel) option" where
  "sys_ioctl b fd req s = (if fd = 0 \<or> fd = 1 \<or> fd = 2 then Some (err bad_cast, s)
     else on_file b (\<lambda>d. drv_control b d req) fd s)"

text \<open>\<^verbatim>\<open>GET_SOCK_DEV\<close> and the call of the device.\<close>

definition sys_socket :: "('f, 'h, 'q, 'p) drivers \<Rightarrow> bool \<Rightarrow> int \<Rightarrow> int \<Rightarrow> int \<Rightarrow> ('f, 'h) kernel \<Rightarrow> (int result \<times> ('f, 'h) kernel) option" where
  "sys_socket b room domain kind protocol s = (case default_socket_device b of
     None \<Rightarrow> Some (err no_such_device, s)
   | Some d \<Rightarrow> do {
       (r, s) \<leftarrow> open_on b room d [] s;
       (case r of
          Inl e \<Rightarrow> Some (err e, s)
        | Inr f \<Rightarrow> do {
            (r, s) \<leftarrow> call_driver (\<lambda>d. drv_socket b d domain kind protocol) f s;
            (case r of
               Inl e \<Rightarrow> do { s \<leftarrow> dec_ref b f s; Some (err e, s) }
             | Inr _ \<Rightarrow> give_handle b f s) }) })"

definition on_socket :: "('f, 'h, 'q, 'p) drivers \<Rightarrow> 'q \<Rightarrow> named_object \<Rightarrow> 'f \<Rightarrow> 'h \<Rightarrow> (int \<times> 'p) result \<times> 'f \<times> 'h" where
  "on_socket b q d x h = (if is_socket_device b d then drv_request b d q x h else (err bad_cast, x, h))"

definition sys_request :: "('f, 'h, 'q, 'p) drivers \<Rightarrow> int \<Rightarrow> 'q \<Rightarrow> ('f, 'h) kernel \<Rightarrow> ((int \<times> 'p) result \<times> ('f, 'h) kernel) option" where
  "sys_request b fd q s = on_file b (on_socket b q) fd s"

text \<open>A call with its answer: the value of the function, the error number it stores, and what it stores for the process.\<close>

datatype 'q posix_call = Open_call string bool | Close_call int | Read_call int nat | Write_call int "byte list" nat | Ioctl_call int nat
  | Socket_call int int int bool | Request_call int 'q

datatype 'p stored = No_bytes | Bytes "byte list" | Stored 'p

type_synonym 'p answer = "(int \<times> errno option) \<times> 'p stored"

fun serve_call :: "('f, 'h, 'q, 'p) drivers \<Rightarrow> 'q posix_call \<Rightarrow> ('f, 'h) kernel \<Rightarrow> ('p answer \<times> ('f, 'h) kernel) option" where
  "serve_call b (Open_call path room) s = do { (r, s) \<leftarrow> sys_open b room path s; Some ((wrap_posix r, No_bytes), s) }"
| "serve_call b (Close_call fd) s = do { (r, s) \<leftarrow> sys_close b fd s; Some ((wrap_posix r, No_bytes), s) }"
| "serve_call b (Read_call fd n) s = do {
     (r, s) \<leftarrow> sys_read b fd n s;
     Some ((wrap_posix (map_sum id (\<lambda>bs. int (length bs)) r), (case r of Inl _ \<Rightarrow> No_bytes | Inr bs \<Rightarrow> Bytes bs)), s) }"
| "serve_call b (Write_call fd memory n) s = do { (r, s) \<leftarrow> sys_write b fd memory n s; Some ((wrap_posix (map_sum id int r), No_bytes), s) }"
| "serve_call b (Ioctl_call fd req) s = do { (r, s) \<leftarrow> sys_ioctl b fd req s; Some ((wrap_posix r, No_bytes), s) }"
| "serve_call b (Socket_call domain kind protocol room) s = do { (r, s) \<leftarrow> sys_socket b room domain kind protocol s; Some ((wrap_posix r, No_bytes), s) }"
| "serve_call b (Request_call fd q) s = do {
     (r, s) \<leftarrow> sys_request b fd q s;
     Some ((wrap_posix (map_sum id fst r), (case r of Inl _ \<Rightarrow> No_bytes | Inr v \<Rightarrow> Stored (snd v))), s) }"

fun serve_calls :: "('f, 'h, 'q, 'p) drivers \<Rightarrow> 'q posix_call list \<Rightarrow> ('f, 'h) kernel \<Rightarrow> ('p answer list \<times> ('f, 'h) kernel) option" where
  "serve_calls b [] s = Some ([], s)"
| "serve_calls b (c # cs) s = do {
     (a, s) \<leftarrow> serve_call b c s;
     (as, s) \<leftarrow> serve_calls b cs s;
     Some (a # as, s) }"

subsection \<open>What a process sees\<close>

text \<open>The specification has no handles, files or references: a map of the descriptors that are open to the device and the data of the
  driver, and the state of the hardware.\<close>

type_synonym 'f descriptors = "int \<Rightarrow> (named_object \<times> 'f) option"

definition device_call :: "(named_object \<Rightarrow> 'f \<Rightarrow> 'h \<Rightarrow> 'a result \<times> 'f \<times> 'h) \<Rightarrow> int \<Rightarrow> 'f descriptors \<Rightarrow> 'h \<Rightarrow> 'a result \<times> 'f descriptors \<times> 'h" where
  "device_call call fd m h = (case m fd of
     None \<Rightarrow> (err (no_handle fd), m, h)
   | Some (d, x) \<Rightarrow> (case call d x h of (r, x', h') \<Rightarrow> (r, m(fd \<mapsto> (d, x')), h')))"

text \<open>A new descriptor for a device, unless 254 are open, and the opening of a device.\<close>

fun new_descriptor :: "('f, 'h, 'q, 'p) drivers \<Rightarrow> named_object \<Rightarrow> 'f \<Rightarrow> 'f descriptors \<times> 'h \<Rightarrow> 'p answer \<Rightarrow> 'f descriptors \<times> 'h \<Rightarrow> bool" where
  "new_descriptor b d x (m, h) a w =
     (if card (dom m) = 254 then a = (wrap_posix (err out_of_memory), No_bytes) \<and> w = (m, snd (drv_close b d x h))
      else \<exists>fd. 3 \<le> fd \<and> fd < 257 \<and> m fd = None \<and> a = ((fd, None), No_bytes) \<and> w = (m(fd \<mapsto> (d, x)), h))"

fun opens_device :: "('f, 'h, 'q, 'p) drivers \<Rightarrow> bool \<Rightarrow> named_object \<Rightarrow> string \<Rightarrow> ('f \<Rightarrow> 'f descriptors \<times> 'h \<Rightarrow> 'p answer \<Rightarrow> 'f descriptors \<times> 'h \<Rightarrow> bool)
  \<Rightarrow> 'f descriptors \<times> 'h \<Rightarrow> 'p answer \<Rightarrow> 'f descriptors \<times> 'h \<Rightarrow> bool" where
  "opens_device b room d rest continue (m, h) a w =
     (if \<not> room then a = (wrap_posix (err out_of_memory), No_bytes) \<and> w = (m, h)
      else (case drv_open b d rest (no_data b) h of
        (Inl e, x, h1) \<Rightarrow> a = (wrap_posix (err e), No_bytes) \<and> w = (m, h1)
      | (Inr _, x, h1) \<Rightarrow> continue x (m, h1) a w))"

text \<open>Whether an answer to a call is allowed, and what is open after it.\<close>

fun allowed :: "('f, 'h, 'q, 'p) drivers \<Rightarrow> named_object list \<Rightarrow> 'q posix_call \<Rightarrow> 'f descriptors \<times> 'h \<Rightarrow> 'p answer \<Rightarrow> 'f descriptors \<times> 'h \<Rightarrow> bool" where
  "allowed b root (Open_call path room) (m, h) a w = (case find_device (is_device b) path root of
     Inl e \<Rightarrow> a = (wrap_posix (err e), No_bytes) \<and> w = (m, h)
   | Inr (d, rest) \<Rightarrow> opens_device b room d rest (new_descriptor b d) (m, h) a w)"
| "allowed b root (Close_call fd) (m, h) a w = (case m fd of
     None \<Rightarrow> a = (wrap_posix (err (no_handle fd)), No_bytes) \<and> w = (m, h)
   | Some (d, x) \<Rightarrow> a = ((0, None), No_bytes) \<and> w = (m(fd := None), snd (drv_close b d x h)))"
| "allowed b root (Read_call fd n) (m, h) a w =
     (if fd = 0 then a = (wrap_posix (err not_supported), No_bytes) \<and> w = (m, h)
      else if fd = 1 \<or> fd = 2 then a = (wrap_posix (err bad_cast), No_bytes) \<and> w = (m, h)
      else (case device_call (\<lambda>d. drv_read b d n) fd m h of
        (Inl e, s) \<Rightarrow> a = (wrap_posix (err e), No_bytes) \<and> w = s
      | (Inr bs, s) \<Rightarrow> a = ((int (length bs), None), Bytes bs) \<and> w = s))"
| "allowed b root (Write_call fd memory n) (m, h) a w =
     (if fd = 0 then a = (wrap_posix (err bad_cast), No_bytes) \<and> w = (m, h)
      else if fd = 1 \<or> fd = 2 then a = ((int n, None), No_bytes) \<and> w = (m, debug_print b memory h)
      else (case device_call (\<lambda>d. drv_write b d (take n memory)) fd m h of (r, s) \<Rightarrow> a = (wrap_posix (map_sum id int r), No_bytes) \<and> w = s))"
| "allowed b root (Ioctl_call fd req) (m, h) a w =
     (if fd = 0 \<or> fd = 1 \<or> fd = 2 then a = (wrap_posix (err bad_cast), No_bytes) \<and> w = (m, h)
      else (case device_call (\<lambda>d. drv_control b d req) fd m h of (r, s) \<Rightarrow> a = (wrap_posix r, No_bytes) \<and> w = s))"
| "allowed b root (Socket_call domain kind protocol room) (m, h) a w = (case default_socket_device b of
     None \<Rightarrow> a = (wrap_posix (err no_such_device), No_bytes) \<and> w = (m, h)
   | Some d \<Rightarrow> opens_device b room d [] (\<lambda>x (m, h) a w. case drv_socket b d domain kind protocol x h of
       (Inl e, x', h') \<Rightarrow> a = (wrap_posix (err e), No_bytes) \<and> w = (m, snd (drv_close b d x' h'))
     | (Inr _, x', h') \<Rightarrow> new_descriptor b d x' (m, h') a w) (m, h) a w)"
| "allowed b root (Request_call fd q) (m, h) a w = (case device_call (on_socket b q) fd m h of
     (Inl e, s) \<Rightarrow> a = (wrap_posix (err e), No_bytes) \<and> w = s
   | (Inr (v, out), s) \<Rightarrow> a = ((v, None), Stored out) \<and> w = s)"

fun all_allowed :: "('f, 'h, 'q, 'p) drivers \<Rightarrow> named_object list \<Rightarrow> 'q posix_call list \<Rightarrow> 'f descriptors \<times> 'h \<Rightarrow> 'p answer list \<Rightarrow> 'f descriptors \<times> 'h \<Rightarrow> bool" where
  "all_allowed b root [] w [] w' \<longleftrightarrow> w' = w"
| "all_allowed b root (c # cs) w (a # as) w' \<longleftrightarrow> (\<exists>v. allowed b root c w a v \<and> all_allowed b root cs v as w')"
| "all_allowed b root _ _ _ _ \<longleftrightarrow> False"

subsection \<open>The files of a state\<close>

text \<open>\<open>g\<close> tells the file of each descriptor.  Every open descriptor has a file of its own, which is open at its device and has
  one reference, and there are no other files.\<close>

definition simulates :: "named_object list \<Rightarrow> (int \<Rightarrow> nat option) \<Rightarrow> ('f, 'h) kernel \<Rightarrow> 'f descriptors \<times> 'h \<Rightarrow> bool" where
  "simulates root g s w \<longleftrightarrow> kernel_root s = root \<and> kernel_hardware s = snd w
     \<and> (\<exists>hm. segment_holds (kernel_handles s) hm \<and> by_handle hm = map_option (\<lambda>f. \<lparr>handle_object = f, granted_access = generic_all\<rparr>) \<circ> g)
     \<and> (\<forall>fd fd' f. g fd = Some f \<longrightarrow> g fd' = Some f \<longrightarrow> fd = fd') \<and> dom g = dom (fst w)
     \<and> (\<forall>fd f. g fd = Some f \<longrightarrow> f < next_file s)
     \<and> (\<forall>fd f d x. g fd = Some f \<longrightarrow> fst w fd = Some (d, x) \<longrightarrow> kernel_files s f = Some \<lparr>file_device = Some d, file_refs = 1, file_data = x\<rparr>)
     \<and> (\<forall>f. kernel_files s f \<noteq> None \<longrightarrow> (\<exists>fd. g fd = Some f))"

lemma simulatesD:
  assumes "simulates root g s w"
  shows "kernel_root s = root" "kernel_hardware s = snd w" "g fd = Some f \<Longrightarrow> g fd' = Some f \<Longrightarrow> fd = fd'" "dom g = dom (fst w)"
    "g fd = Some f \<Longrightarrow> f < next_file s"
    "g fd = Some f \<Longrightarrow> fst w fd = Some (d, x) \<Longrightarrow> kernel_files s f = Some \<lparr>file_device = Some d, file_refs = 1, file_data = x\<rparr>"
    "kernel_files s f = Some q \<Longrightarrow> \<exists>fd. g fd = Some f"
    "\<exists>hm. segment_holds (kernel_handles s) hm \<and> by_handle hm = map_option (\<lambda>f. \<lparr>handle_object = f, granted_access = generic_all\<rparr>) \<circ> g"
  using assms unfolding simulates_def by blast+

lemma simulates_handle_at:
  assumes "simulates root g s w"
  shows "handle_at fd (kernel_handles s) = (case g fd of None \<Rightarrow> err (no_handle fd) | Some f \<Rightarrow> ok \<lparr>handle_object = f, granted_access = generic_all\<rparr>)"
proof -
  obtain hm where "segment_holds (kernel_handles s) hm" "by_handle hm = map_option (\<lambda>f. \<lparr>handle_object = f, granted_access = generic_all\<rparr>) \<circ> g"
    using simulatesD(8) [OF assms] by blast
  then show ?thesis by (simp add: handle_at_holds split: option.splits)
qed

lemma simulates_fd:
  assumes "simulates root g s (m, h)"
  obtains (closed) "g fd = None" "m fd = None"
  | (opened) f d x where "g fd = Some f" "m fd = Some (d, x)" "kernel_files s f = Some \<lparr>file_device = Some d, file_refs = 1, file_data = x\<rparr>"
proof (cases "m fd")
  case None
  then show ?thesis using closed simulatesD(4) [OF assms] by (metis domIff fst_conv)
next
  case (Some v)
  then show ?thesis using opened simulatesD(4,6) [OF assms] by (cases v) (metis domD domI fst_conv)
qed

text \<open>A call on an open descriptor leaves the file with its one reference and the data the driver left.\<close>

lemma on_file_simulates:
  assumes "simulates root g s (m, h)" and "device_call call fd m h = (r, m', h')"
  shows "\<exists>s'. on_file b call fd s = Some (r, s') \<and> simulates root g s' (m', h')"
proof (cases rule: simulates_fd [OF assms(1), of fd])
  case 1
  then show ?thesis using assms by (simp add: on_file_def reference_object_def simulates_handle_at [OF assms(1)] device_call_def)
next
  case (2 f d x)
  obtain x' where c: "call d x h = (r, x', h')" "m' = m(fd \<mapsto> (d, x'))" using assms(2) 2 by (auto simp: device_call_def split: prod.splits)
  let ?s = "put_file f (Some \<lparr>file_device = Some d, file_refs = 1, file_data = x'\<rparr>) (s\<lparr>kernel_hardware := h'\<rparr>)"
  have "on_file b call fd s = Some (r, ?s)"
    using 2 c simulatesD(2) [OF assms(1)]
    by (simp add: on_file_def reference_object_def simulates_handle_at [OF assms(1)] add_ref_def call_driver_def dec_ref_def destroy_file_def put_file_def Let_def)
  moreover have "simulates root g ?s (m', h')"
    using assms(1) 2 c simulatesD(3) [OF assms(1), of _ f fd] by (auto simp: simulates_def put_file_def)
  ultimately show ?thesis by blast
qed

lemma close_simulates:
  assumes "simulates root g s (m, h)" and "m fd = Some (d, x)"
  shows "\<exists>s'. sys_close b fd s = Some (ok 0, s') \<and> simulates root (g(fd := None)) s' (m(fd := None), snd (drv_close b d x h))"
proof -
  obtain f where f: "g fd = Some f" "kernel_files s f = Some \<lparr>file_device = Some d, file_refs = 1, file_data = x\<rparr>"
    using assms(2) simulates_fd [OF assms(1), of fd] by force
  obtain hm where hm: "segment_holds (kernel_handles s) hm" "by_handle hm = map_option (\<lambda>f. \<lparr>handle_object = f, granted_access = generic_all\<rparr>) \<circ> g"
    using simulatesD(8) [OF assms(1)] by blast
  obtain hm' t where t: "handle_free fd (kernel_handles s) = (ok \<lparr>handle_object = f, granted_access = generic_all\<rparr>, t)" "segment_holds t hm'"
      "by_handle hm' = (by_handle hm)(fd := None)"
    using handle_free_holds [OF hm(1), of fd] hm(2) f(1) by auto
  let ?s = "put_file f None (s\<lparr>kernel_handles := t, kernel_hardware := snd (drv_close b d x h)\<rparr>)"
  have "sys_close b fd s = Some (ok 0, ?s)"
    using t f simulatesD(2) [OF assms(1)] by (simp add: sys_close_def dec_ref_def destroy_file_def put_file_def)
  moreover have "by_handle hm' = map_option (\<lambda>f. \<lparr>handle_object = f, granted_access = generic_all\<rparr>) \<circ> g(fd := None)"
    using t(3) hm(2) by (auto simp: fun_eq_iff)
  then have "simulates root (g(fd := None)) ?s (m(fd := None), snd (drv_close b d x h))"
    using assms(1) f t(2) simulatesD(3) [OF assms(1), of _ f fd] by (auto simp: simulates_def put_file_def) (metis option.inject)
  ultimately show ?thesis by blast
qed

lemma simulates_card:
  assumes "simulates root g s (m, h)" and "segment_holds (kernel_handles s) hm"
    and "by_handle hm = map_option (\<lambda>f. \<lparr>handle_object = f, granted_access = generic_all\<rparr>) \<circ> g"
  shows "card (dom hm) = card (dom m)"
proof -
  have "dom (by_handle hm) = dom g" unfolding assms(3) by auto
  then show ?thesis using by_handle_card [of hm] simulatesD(4) [OF assms(1)] by simp
qed

text \<open>A change of the hardware alone, and a file that comes and goes before anything has a handle of it.\<close>

lemma simulates_hardware: "simulates root g s (m, h) \<Longrightarrow> simulates root g (s\<lparr>kernel_hardware := h'\<rparr>) (m, h')"
  by (simp add: simulates_def)

lemma fresh_file: "simulates root g s w \<Longrightarrow> g fd \<noteq> Some (next_file s) \<and> kernel_files s (next_file s) = None"
  using simulatesD(5,7) [of root g s w] by (metis less_irrefl not_Some_eq)

lemma simulates_lost_file:
  assumes "simulates root g s (m, h)"
  shows "simulates root g (put_file (next_file s) None (s\<lparr>next_file := next_file s + 1, kernel_hardware := h'\<rparr>)) (m, h')"
  using assms fresh_file [OF assms] by (auto simp: simulates_def put_file_def less_Suc_eq)

text \<open>A file that is open at its device and has no descriptor yet.\<close>

definition with_file :: "named_object \<Rightarrow> 'f \<Rightarrow> 'h \<Rightarrow> ('f, 'h) kernel \<Rightarrow> ('f, 'h) kernel" where
  "with_file d x h s = put_file (next_file s) (Some \<lparr>file_device = Some d, file_refs = 1, file_data = x\<rparr>) (s\<lparr>next_file := next_file s + 1, kernel_hardware := h\<rparr>)"

lemma open_on_cases:
  assumes "simulates root g s (m, h)"
  obtains (no_room) "\<not> room" "open_on b room d rest s = Some (err out_of_memory, s)"
  | (refused) e x h1 s' where "room" "drv_open b d rest (no_data b) h = (err e, x, h1)" "open_on b room d rest s = Some (err e, s')" "simulates root g s' (m, h1)"
  | (accepted) x h1 where "room" "drv_open b d rest (no_data b) h = (ok (), x, h1)" "open_on b room d rest s = Some (ok (next_file s), with_file d x h1 s)"
proof (cases room)
  case False
  then show ?thesis using no_room by (simp add: open_on_def)
next
  case True
  note s = simulatesD(1,2) [OF assms]
  obtain r x h1 where o: "drv_open b d rest (no_data b) h = (r, x, h1)" by (rule prod_cases3)
  show ?thesis
  proof (cases r)
    case (Inl e)
    then have "open_on b room d rest s = Some (err e, put_file (next_file s) None (s\<lparr>next_file := next_file s + 1, kernel_hardware := h1\<rparr>))"
      using True o s by (simp add: open_on_def prepare_to_open_def failed_to_open_def call_driver_def dec_ref_def destroy_file_def put_file_def Let_def)
    then show ?thesis using refused True o Inl simulates_lost_file [OF assms] by blast
  next
    case (Inr u)
    then have "open_on b room d rest s = Some (ok (next_file s), with_file d x h1 s)"
      using True o s by (simp add: open_on_def prepare_to_open_def call_driver_def put_file_def Let_def with_file_def)
    then show ?thesis using accepted True o Inr by simp
  qed
qed

lemma with_file_closed:
  assumes "simulates root g s (m, h0)"
  shows "\<exists>s'. dec_ref b (next_file s) (with_file d x h s) = Some s' \<and> simulates root g s' (m, snd (drv_close b d x h))"
  using simulates_lost_file [OF assms, of "snd (drv_close b d x h)"] by (simp add: with_file_def dec_ref_def destroy_file_def put_file_def)

lemma give_handle_simulates:
  assumes "simulates root g s (m, h0)"
  shows "\<exists>r s' w g'. give_handle b (next_file s) (with_file d x h s) = Some (r, s') \<and> simulates root g' s' w \<and> new_descriptor b d x (m, h) (wrap_posix r, No_bytes) w"
proof -
  note s = simulatesD [OF assms] and new = fresh_file [OF assms]
  define f where "f = next_file s"
  obtain hm where hm: "segment_holds (kernel_handles s) hm" "by_handle hm = map_option (\<lambda>f. \<lparr>handle_object = f, granted_access = generic_all\<rparr>) \<circ> g"
    using s(8) by blast
  have card: "card (dom hm) = card (dom m)" by (rule simulates_card [OF assms hm])
  let ?e = "\<lparr>handle_object = f, granted_access = generic_all\<rparr>"
  show ?thesis
  proof (cases rule: hs.allocate_cases [OF hm(1), of ?e])
    case (1 i t)
    let ?fd = "int i + 3"
    have "by_handle hm ?fd = None" using 1(3) by (simp add: by_handle_def)
    then have unused: "g ?fd = None" using hm(2) by simp
    then have free: "m ?fd = None" using s(4) by (metis domIff fst_conv)
    have "give_handle b (next_file s) (with_file d x h s) = Some (ok ?fd, (with_file d x h s)\<lparr>kernel_handles := t\<rparr>)"
      using 1(1) by (simp add: give_handle_def handle_allocate_def handle_capacity fd_base_def add_ref_def dec_ref_def put_file_def with_file_def f_def)
    moreover have "by_handle (hm(i \<mapsto> ?e)) = map_option (\<lambda>f. \<lparr>handle_object = f, granted_access = generic_all\<rparr>) \<circ> g(?fd \<mapsto> f)"
      using hm(2) by (auto simp: by_handle_update fun_eq_iff)
    then have "simulates root (g(?fd \<mapsto> f)) ((with_file d x h s)\<lparr>kernel_handles := t\<rparr>) (m(?fd \<mapsto> (d, x)), h)"
      using assms 1(4) new by (auto simp: simulates_def put_file_def with_file_def f_def less_Suc_eq) (metis unused option.distinct(1))
    moreover have "new_descriptor b d x (m, h) (wrap_posix (ok ?fd), No_bytes) (m(?fd \<mapsto> (d, x)), h)"
      using card 1(2,5) free by (simp add: wrap_posix_def)
    ultimately show ?thesis by blast
  next
    case 2
    obtain s' where s': "dec_ref b (next_file s) (with_file d x h s) = Some s'" "simulates root g s' (m, snd (drv_close b d x h))"
      using with_file_closed [OF assms] by blast
    have "(with_file d x h s)\<lparr>kernel_handles := kernel_handles s\<rparr> = with_file d x h s" by (simp add: with_file_def put_file_def)
    then have "give_handle b (next_file s) (with_file d x h s) = Some (err out_of_memory, s')"
      using 2(1) s'(1) by (simp add: give_handle_def handle_allocate_def handle_capacity f_def) (simp add: with_file_def put_file_def)
    then show ?thesis using s'(2) card 2(2) by force
  qed
qed

lemma open_simulates:
  assumes "simulates root g s (m, h)"
  shows "\<exists>r s' w g'. sys_open b room path s = Some (r, s') \<and> simulates root g' s' w \<and> allowed b root (Open_call path room) (m, h) (wrap_posix r, No_bytes) w"
proof (cases "find_device (is_device b) path root")
  case (Inl e)
  then show ?thesis using assms simulatesD(1) [OF assms] by (auto simp: sys_open_def open_file_def)
next
  case (Inr q)
  obtain d rest where q: "q = (d, rest)" by (rule prod.exhaust)
  have opened: "open_file b room path s = open_on b room d rest s" using Inr q simulatesD(1) [OF assms] by (simp add: open_file_def)
  show ?thesis
  proof (cases rule: open_on_cases [OF assms, of room b d rest])
    case 1
    then show ?thesis using assms Inr q opened by (auto simp: sys_open_def)
  next
    case (2 e x h1 s')
    then show ?thesis using Inr q opened by (auto simp: sys_open_def)
  next
    case (3 x h1)
    then show ?thesis using Inr q opened give_handle_simulates [OF assms, of b d x h1] by (auto simp: sys_open_def)
  qed
qed

lemma socket_simulates:
  assumes "simulates root g s (m, h)"
  shows "\<exists>r s' w g'. sys_socket b room domain kind protocol s = Some (r, s') \<and> simulates root g' s' w
    \<and> allowed b root (Socket_call domain kind protocol room) (m, h) (wrap_posix r, No_bytes) w"
proof (cases "default_socket_device b")
  case None
  then show ?thesis using assms by (auto simp: sys_socket_def)
next
  case (Some d)
  show ?thesis
  proof (cases rule: open_on_cases [OF assms, of room b d "[]"])
    case 1
    then show ?thesis using assms Some by (auto simp: sys_socket_def)
  next
    case (2 e x h1 s')
    then show ?thesis using Some by (auto simp: sys_socket_def)
  next
    case (3 x h1)
    obtain r x' h' where k: "drv_socket b d domain kind protocol x h1 = (r, x', h')" by (rule prod_cases3)
    then have c: "call_driver (\<lambda>d. drv_socket b d domain kind protocol) (next_file s) (with_file d x h1 s) = Some (r, with_file d x' h' s)"
      by (simp add: call_driver_def with_file_def put_file_def)
    show ?thesis
    proof (cases r)
      case (Inl e)
      then show ?thesis using 3 Some k c with_file_closed [OF assms, of b d x' h'] by (auto simp: sys_socket_def)
    next
      case (Inr u)
      then show ?thesis using 3 Some k c give_handle_simulates [OF assms, of b d x' h'] by (auto simp: sys_socket_def)
    qed
  qed
qed

lemma serve_call_simulates:
  assumes "simulates root g s (m, h)"
  shows "\<exists>a s' w g'. serve_call b c s = Some (a, s') \<and> simulates root g' s' w \<and> allowed b root c (m, h) a w"
proof (cases c)
  case (Open_call path room)
  then show ?thesis using open_simulates [OF assms, of b room path] by (auto simp del: allowed.simps split_paired_Ex) blast
next
  case (Socket_call domain kind protocol room)
  then show ?thesis using socket_simulates [OF assms, of b room domain kind protocol] by (auto simp del: allowed.simps split_paired_Ex) blast
next
  case (Close_call fd)
  show ?thesis
  proof (cases rule: simulates_fd [OF assms, of fd])
    case 1
    obtain hm where "segment_holds (kernel_handles s) hm" "by_handle hm = map_option (\<lambda>f. \<lparr>handle_object = f, granted_access = generic_all\<rparr>) \<circ> g"
      using simulatesD(8) [OF assms] by blast
    moreover obtain hm' t where "handle_free fd (kernel_handles s) = (err (no_handle fd), t)" "segment_holds t hm'" "by_handle hm' = (by_handle hm)(fd := None)"
      using calculation handle_free_holds [of "kernel_handles s" hm fd] 1 by auto
    ultimately have "simulates root g (s\<lparr>kernel_handles := t\<rparr>) (m, h)"
      using assms 1 unfolding simulates_def by (auto simp: fun_upd_idem)
    then show ?thesis using Close_call 1 \<open>handle_free fd (kernel_handles s) = (err (no_handle fd), t)\<close>
      by (auto simp: sys_close_def)
  next
    case (2 f d x)
    then show ?thesis using Close_call close_simulates [OF assms 2(2), of b] by (auto simp: wrap_posix_def)
  qed
next
  case (Read_call fd n)
  obtain r m' h' where c: "device_call (\<lambda>d. drv_read b d n) fd m h = (r, m', h')" by (rule prod_cases3)
  show ?thesis using Read_call assms c on_file_simulates [OF assms c, of b]
    by (cases r) (auto simp: sys_read_def wrap_posix_def)
next
  case (Write_call fd memory n)
  obtain r m' h' where c: "device_call (\<lambda>d. drv_write b d (take n memory)) fd m h = (r, m', h')" by (rule prod_cases3)
  show ?thesis using Write_call assms c on_file_simulates [OF assms c, of b] simulates_hardware [OF assms] simulatesD(2) [OF assms]
    by (cases r) (auto simp: sys_write_def wrap_posix_def)
next
  case (Ioctl_call fd req)
  obtain r m' h' where c: "device_call (\<lambda>d. drv_control b d req) fd m h = (r, m', h')" by (rule prod_cases3)
  show ?thesis using Ioctl_call assms c on_file_simulates [OF assms c, of b]
    by (cases r) (auto simp: sys_ioctl_def wrap_posix_def)
next
  case (Request_call fd q)
  obtain r m' h' where c: "device_call (on_socket b q) fd m h = (r, m', h')" by (rule prod_cases3)
  show ?thesis using Request_call on_file_simulates [OF assms c, of b] c
    by (cases r) (auto simp: sys_request_def wrap_posix_def split: prod.splits)
qed

lemma serve_calls_simulates:
  "simulates root g s w \<Longrightarrow> \<exists>as s' w' g'. serve_calls b cs s = Some (as, s') \<and> all_allowed b root cs w as w' \<and> simulates root g' s' w'"
proof (induction cs arbitrary: g s w)
  case (Cons c cs)
  obtain a s1 w1 g1 where 1: "serve_call b c s = Some (a, s1)" "simulates root g1 s1 w1" "allowed b root c w a w1"
    using serve_call_simulates [of root g s "fst w" "snd w"] Cons.prems by (metis prod.collapse)
  obtain as s' w' g' where "serve_calls b cs s1 = Some (as, s')" "all_allowed b root cs w1 as w'" "simulates root g' s' w'"
    using Cons.IH [OF 1(2)] by blast
  then show ?case using 1(1,3)
    by (intro exI [of _ "a # as"] exI [of _ s'] exI [of _ w'] exI [of _ g']) (auto simp del: split_paired_Ex)
qed (auto simp del: split_paired_Ex)

lemma simulates_no_leak:
  assumes "simulates root g s w"
  shows "dom (kernel_files s) = {f. \<exists>fd e. handle_at fd (kernel_handles s) = ok e \<and> handle_object e = f}" "card (dom (kernel_files s)) = card (dom (fst w))"
proof -
  note s = simulatesD [OF assms]
  have "kernel_files s f \<noteq> None \<longleftrightarrow> (\<exists>fd. g fd = Some f)" for f
  proof
    assume "kernel_files s f \<noteq> None"
    then show "\<exists>fd. g fd = Some f" using s(7) by blast
  next
    assume "\<exists>fd. g fd = Some f"
    then obtain fd where fd: "g fd = Some f" by blast
    then have "fd \<in> dom (fst w)" using s(4) by blast
    then obtain v where "fst w fd = Some v" by blast
    then show "kernel_files s f \<noteq> None" using s(6) [OF fd, of "fst v" "snd v"] by simp
  qed
  then have ran: "dom (kernel_files s) = ran g" by (auto simp: ran_def)
  show "dom (kernel_files s) = {f. \<exists>fd e. handle_at fd (kernel_handles s) = ok e \<and> handle_object e = f}"
    by (auto simp: ran ran_def simulates_handle_at [OF assms] split: option.splits)
  have "inj_on (the \<circ> g) (dom g)" using s(3) by (auto simp: inj_on_def)
  moreover have "ran g = (the \<circ> g) ` dom g" by (force simp: ran_def)
  ultimately show "card (dom (kernel_files s)) = card (dom (fst w))" using s(4) ran by (metis card_image)
qed

lemma start_simulates: "simulates root Map.empty (kernel_start root h) (Map.empty, h)"
proof -
  have "by_handle (Map.empty :: nat \<Rightarrow> nat handle_entry option) = Map.empty" by (simp add: by_handle_def fun_eq_iff)
  then show ?thesis using fresh_segment_holds by (auto simp: simulates_def kernel_start_def handle_table_def fun_eq_iff)
qed

text \<open>
  C17. Whatever sequence of system calls a process makes from the start on, no assertion fails and no file is used after it is gone, and
  the answers are those of the specification: a path that names no device, a full pool of files, a device that refuses and the 255th open
  file are errors that leave the descriptors as they were, the file that gets no handle being closed at its device; a new descriptor, of a file or a
  socket, is a number from 3 to 256 that is not open; reading, writing, control and the requests to sockets reach the device of the
  descriptor with its data, the last only when it is a socket device; closing closes at the device exactly once.  Afterwards the files that
  exist are those of the open descriptors, one for each.
\<close>

theorem system_calls_refine:
  "\<exists>as s w. serve_calls b calls (kernel_start root h) = Some (as, s) \<and> all_allowed b root calls (Map.empty, h) as w \<and> kernel_hardware s = snd w
     \<and> dom (kernel_files s) = {f. \<exists>fd e. handle_at fd (kernel_handles s) = ok e \<and> handle_object e = f} \<and> card (dom (kernel_files s)) = card (dom (fst w))"
proof -
  obtain as s w g where "serve_calls b calls (kernel_start root h) = Some (as, s)" "all_allowed b root calls (Map.empty, h) as w" "simulates root g s w"
    using serve_calls_simulates [OF start_simulates [of root h], of b calls] by metis
  then show ?thesis using simulates_no_leak simulatesD(2) by blast
qed

end
