(* ===== verification/Kernel_Sockets.thy ===== *)
theory Kernel_Sockets
  imports Kernel_Files
begin

unbundle bit_operations_syntax

section \<open>The socket device\<close>

text \<open>
  Model of the socket device of the repository (\<^verbatim>\<open>src/src/os/drivers/socket/lwip_socket/lwip_socket.cpp\<close>, \<^verbatim>\<open>lwip_socket_def.h\<close>) as a driver below the
  system calls.  The network stack lwIP is not part of the sources: its connections, its buffers and its macros on addresses are the parameter
  \<open>lwip\<close>.  A connection is a number, 0 the null pointer; addresses of sockets are values, with the sizes of their structures as parameters.
\<close>

subsection \<open>Addresses\<close>

text \<open>An IPv6 address has its bytes and a zone; \<open>Any_type\<close> is the address of lwIP that stands for both families.\<close>

datatype ip_addr = V4 u32 | V6 "byte list" byte | Any_type "byte list" byte

text \<open>The port is kept in network byte order.  \<open>Other_sockaddr\<close> has another family.\<close>

datatype sockaddr = Sockaddr_in "byte \<times> byte" u32 | Sockaddr_in6 "byte \<times> byte" u32 "byte list" u32 | Other_sockaddr int "byte \<times> byte" u32

datatype netconn_type = Netconn_tcp | Netconn_udp | Netconn_raw

record netbuf =
  payload :: "byte list"
  from_addr :: ip_addr
  from_port :: u16

record 'n lwip =
  new_conn :: "netconn_type \<Rightarrow> nat \<Rightarrow> 'n \<Rightarrow> nat \<times> 'n"
  conn_is_v6 :: "nat \<Rightarrow> bool"
  recv_netbuf :: "nat \<Rightarrow> bool \<Rightarrow> 'n \<Rightarrow> netbuf option \<times> 'n"
  ref_data :: "byte list \<Rightarrow> 'n \<Rightarrow> bool \<times> 'n"
  send_netbuf :: "nat \<Rightarrow> ip_addr \<Rightarrow> u16 \<Rightarrow> byte list \<Rightarrow> 'n \<Rightarrow> bool \<times> 'n"
  set_recv_timeout :: "nat \<Rightarrow> u32 \<Rightarrow> 'n \<Rightarrow> 'n"
  any_addr :: "bool \<Rightarrow> ip_addr"
  has_scope :: "byte list \<Rightarrow> bool"
  map_v4 :: "u32 \<Rightarrow> byte list \<times> byte"
  unmap_v4 :: "byte list \<Rightarrow> u32 option"
  sizeof_sockaddr_in :: nat
  sizeof_sockaddr_in6 :: nat
  sizeof_timeval :: nat

definition lwip_htons :: "u16 \<Rightarrow> byte \<times> byte" where "lwip_htons p = (ucast (drop_bit 8 p), ucast p)"
definition lwip_ntohs :: "byte \<times> byte \<Rightarrow> u16" where "lwip_ntohs q = push_bit 8 (ucast (fst q)) + ucast (snd q)"

text \<open>A zone is taken from the address of the socket only if the address has a scope.\<close>

fun sockaddr_to_ipaddr_port :: "'n lwip \<Rightarrow> sockaddr \<Rightarrow> ip_addr \<times> u16" where
  "sockaddr_to_ipaddr_port N (Sockaddr_in6 p flow a scope) = (V6 a (if has_scope N a then ucast scope else 0), lwip_ntohs p)"
| "sockaddr_to_ipaddr_port N (Sockaddr_in p a) = (V4 a, lwip_ntohs p)"
| "sockaddr_to_ipaddr_port N (Other_sockaddr family p a) = (V4 a, lwip_ntohs p)"

fun ipaddr_port_to_sockaddr :: "ip_addr \<Rightarrow> u16 \<Rightarrow> sockaddr" where
  "ipaddr_port_to_sockaddr (Any_type a zone) p = Sockaddr_in6 (lwip_htons p) 0 a (ucast zone)"
| "ipaddr_port_to_sockaddr (V6 a zone) p = Sockaddr_in6 (lwip_htons p) 0 a (ucast zone)"
| "ipaddr_port_to_sockaddr (V4 a) p = Sockaddr_in (lwip_htons p) a"

fun sockaddr_len :: "'n lwip \<Rightarrow> sockaddr \<Rightarrow> nat" where
  "sockaddr_len N (Sockaddr_in6 _ _ _ _) = sizeof_sockaddr_in6 N"
| "sockaddr_len N _ = sizeof_sockaddr_in N"

text \<open>The address of the buffer afterwards, the address of the socket, and the number of its bytes that are stored.\<close>

definition lwip_sock_make_addr :: "'n lwip \<Rightarrow> nat \<Rightarrow> ip_addr \<Rightarrow> u16 \<Rightarrow> nat \<Rightarrow> ip_addr \<times> sockaddr \<times> nat" where
  "lwip_sock_make_addr N conn fromaddr port fromlen = (
     let fromaddr = (case fromaddr of V4 a \<Rightarrow> if conn_is_v6 N conn then V6 (fst (map_v4 N a)) (snd (map_v4 N a)) else fromaddr | _ \<Rightarrow> fromaddr);
         saddr = ipaddr_port_to_sockaddr fromaddr port
     in (fromaddr, saddr, if fromlen > sockaddr_len N saddr then sockaddr_len N saddr else fromlen))"

subsection \<open>Sockets\<close>

record lwip_sock =
  sock_conn :: nat
  lastdata :: "netbuf option"

text \<open>The data of a new file: zero bytes.\<close>

definition zero_sock :: lwip_sock where "zero_sock = \<lparr>sock_conn = 0, lastdata = None\<rparr>"

definition af_inet :: int where "af_inet = 2"
definition af_inet6 :: int where "af_inet6 = 10"
definition sock_stream :: int where "sock_stream = 1"
definition sock_dgram :: int where "sock_dgram = 2"
definition sock_raw :: int where "sock_raw = 3"
definition ipproto_icmp :: int where "ipproto_icmp = 1"
definition sol_socket :: int where "sol_socket = 0xfff"
definition so_rcvtimeo :: int where "so_rcvtimeo = 0x1006"
definition msg_peek :: u32 where "msg_peek = 2"
definition msg_dontwait :: u32 where "msg_dontwait = 0x40"
definition ssize_max :: nat where "ssize_max = 2 ^ 31 - 1"

definition netconn_kind :: "int \<Rightarrow> int \<Rightarrow> (netconn_type \<times> nat) result" where
  "netconn_kind kind protocol =
     (if kind = sock_stream then ok (Netconn_tcp, 0)
      else if kind = sock_dgram then ok (Netconn_udp, 0)
      else if kind = sock_raw then (if protocol = ipproto_icmp then ok (Netconn_raw, 1) else err invalid_argument)
      else err invalid_argument)"

definition lwip_socket :: "'n lwip \<Rightarrow> int \<Rightarrow> int \<Rightarrow> int \<Rightarrow> lwip_sock \<Rightarrow> 'n \<Rightarrow> unit result \<times> lwip_sock \<times> 'n" where
  "lwip_socket N domain kind protocol x net = (if domain \<noteq> af_inet then (err invalid_argument, x, net)
     else (case netconn_kind kind protocol of
       Inl e \<Rightarrow> (err e, x, net)
     | Inr (netc_type, netc_proto) \<Rightarrow> (case new_conn N netc_type netc_proto net of (netc, net) \<Rightarrow>
         if netc = 0 then (err out_of_memory, x, net) else (ok (), \<lparr>sock_conn = netc, lastdata = None\<rparr>, net))))"

text \<open>The value of the option is a \<^verbatim>\<open>timeval\<close>, the milliseconds a \<^verbatim>\<open>long\<close> of 32 bits.\<close>

definition timeout_ms :: "int \<times> int \<Rightarrow> int" where
  "timeout_ms v = signed_take_bit 31 (fst v * 1000 + (if snd v < 0 then - ((- snd v) div 1000) else snd v div 1000))"

definition lwip_setsockopt :: "'n lwip \<Rightarrow> int \<Rightarrow> int \<Rightarrow> int \<times> int \<Rightarrow> nat \<Rightarrow> lwip_sock \<Rightarrow> 'n \<Rightarrow> unit result \<times> lwip_sock \<times> 'n" where
  "lwip_setsockopt N level optname optval optlen x net =
     (if level = sol_socket \<and> optname = so_rcvtimeo then
        (if optlen < sizeof_timeval N then (err invalid_argument, x, net)
         else if timeout_ms optval < 0 then (err invalid_argument, x, net)
         else (ok (), x, set_recv_timeout N (sock_conn x) (word_of_int (timeout_ms optval)) net))
      else (err not_supported, x, net))"

fun sockaddr_type_valid :: "sockaddr \<Rightarrow> bool" where
  "sockaddr_type_valid (Other_sockaddr family _ _) \<longleftrightarrow> family = af_inet \<or> family = af_inet6"
| "sockaddr_type_valid _ \<longleftrightarrow> True"

definition unmapped_addr :: "'n lwip \<Rightarrow> ip_addr \<Rightarrow> ip_addr" where
  "unmapped_addr N addr = (case addr of V6 a zone \<Rightarrow> (case unmap_v4 N a of Some v \<Rightarrow> V4 v | None \<Rightarrow> addr) | _ \<Rightarrow> addr)"

text \<open>\<open>aligned\<close> tells whether the pointer to the address is aligned.\<close>

definition lwip_sendto :: "'n lwip \<Rightarrow> byte list \<Rightarrow> sockaddr option \<Rightarrow> nat \<Rightarrow> bool \<Rightarrow> lwip_sock \<Rightarrow> 'n \<Rightarrow> nat result \<times> lwip_sock \<times> 'n" where
  "lwip_sendto N data to tolen aligned x net =
     (if length data > min 0xFFFF ssize_max then (err message_too_long, x, net)
      else if \<not> ((to = None \<and> tolen = 0) \<or>
          ((tolen = sizeof_sockaddr_in N \<or> tolen = sizeof_sockaddr_in6 N) \<and> (case to of None \<Rightarrow> False | Some sa \<Rightarrow> sockaddr_type_valid sa \<and> aligned)))
        then (err invalid_argument, x, net)
      else
        let (addr, port) = (case to of Some sa \<Rightarrow> sockaddr_to_ipaddr_port N sa | None \<Rightarrow> (any_addr N (conn_is_v6 N (sock_conn x)), 0));
            (refs, net) = ref_data N data net
        in if \<not> refs then (err out_of_memory, x, net)
           else
             let (sent, net) = send_netbuf N (sock_conn x) (unmapped_addr N addr) port data net
             in (if sent then ok (length data) else err io_error, x, net))"

text \<open>The bytes that go to each block of the receiver.\<close>

fun copy_to_iovs :: "nat list \<Rightarrow> byte list \<Rightarrow> nat \<Rightarrow> byte list list" where
  "copy_to_iovs [] buf copied = []"
| "copy_to_iovs (n # ns) buf copied = (if copied < length buf then
     (let len_left = length buf - copied; copylen = (if n > len_left then len_left else n)
      in take copylen (drop copied buf) # copy_to_iovs ns buf (copied + copylen))
   else [])"

text \<open>The blocks, the length of the datagram, what is stored of the address, and the length of the name afterwards.  \<open>name\<close> tells
  whether there is room for the address at all; the control data of the message is not asked for.\<close>

definition lwip_recvfrom_udp_raw :: "'n lwip \<Rightarrow> u32 \<Rightarrow> nat list \<Rightarrow> bool \<Rightarrow> nat \<Rightarrow> lwip_sock \<Rightarrow> 'n
  \<Rightarrow> (byte list list \<times> nat \<times> (sockaddr \<times> nat) option \<times> nat) option \<times> lwip_sock \<times> 'n" where
  "lwip_recvfrom_udp_raw N flags iovs name namelen x net =
     (let (buf, net) = (case lastdata x of Some buf \<Rightarrow> (Some buf, net) | None \<Rightarrow> recv_netbuf N (sock_conn x) (flags AND msg_dontwait \<noteq> 0) net)
      in case buf of
        None \<Rightarrow> (None, x, net)
      | Some buf \<Rightarrow>
          let blocks = copy_to_iovs iovs (payload buf) 0;
              (buf, from, namelen) = (if name \<and> namelen \<noteq> 0 then
                  (case lwip_sock_make_addr N (sock_conn x) (from_addr buf) (from_port buf) namelen of
                     (addr, saddr, stored) \<Rightarrow> (buf\<lparr>from_addr := addr\<rparr>, Some (saddr, stored), stored))
                else (buf, None, namelen))
          in (Some (blocks, length (payload buf), from, namelen), x\<lparr>lastdata := (if flags AND msg_peek = 0 then None else Some buf)\<rparr>, net))"

record received =
  rcv_data :: "byte list"
  rcv_from :: "(sockaddr \<times> nat) option"
  rcv_fromlen :: "nat option"

definition lwip_recvfrom :: "'n lwip \<Rightarrow> nat \<Rightarrow> u32 \<Rightarrow> bool \<Rightarrow> nat option \<Rightarrow> lwip_sock \<Rightarrow> 'n \<Rightarrow> (nat \<times> received) result \<times> lwip_sock \<times> 'n" where
  "lwip_recvfrom N n flags from fromlen x net =
     (case lwip_recvfrom_udp_raw N flags [n] from (case fromlen of Some k \<Rightarrow> k | None \<Rightarrow> 0) x net of
        (None, x, net) \<Rightarrow> (err io_error, x, net)
      | (Some (blocks, datagram_len, name, namelen), x, net) \<Rightarrow>
          (ok (min (min n datagram_len) ssize_max,
               \<lparr>rcv_data = concat blocks, rcv_from = name, rcv_fromlen = (case fromlen of Some _ \<Rightarrow> Some namelen | None \<Rightarrow> None)\<rparr>), x, net))"

subsection \<open>The driver\<close>

datatype socket_request = Setsockopt int int "int \<times> int" nat | Sendto "byte list" u32 "sockaddr option" nat bool | Recvfrom nat u32 bool "nat option"

fun lwip_request :: "'n lwip \<Rightarrow> socket_request \<Rightarrow> lwip_sock \<Rightarrow> 'n \<Rightarrow> (int \<times> received option) result \<times> lwip_sock \<times> 'n" where
  "lwip_request N (Setsockopt level optname optval optlen) x net =
     (case lwip_setsockopt N level optname optval optlen x net of (r, s) \<Rightarrow> (map_sum id (\<lambda>_. (0, None)) r, s))"
| "lwip_request N (Sendto data flags to tolen aligned) x net =
     (case lwip_sendto N data to tolen aligned x net of (r, s) \<Rightarrow> (map_sum id (\<lambda>n. (int n, None)) r, s))"
| "lwip_request N (Recvfrom n flags from fromlen) x net =
     (case lwip_recvfrom N n flags from fromlen x net of (r, s) \<Rightarrow> (map_sum id (\<lambda>(k, v). (int k, Some v)) r, s))"

text \<open>What a device does that does not define these calls itself.\<close>

definition device_close :: "'f \<Rightarrow> 'h \<Rightarrow> unit result \<times> 'h" where "device_close x h = (ok (), h)"
definition device_fast_open :: "string \<Rightarrow> 'f \<Rightarrow> 'h \<Rightarrow> unit result \<times> 'f \<times> 'h" where
  "device_fast_open path x h = (if path = [] then ok () else err invalid_path, x, h)"

type_synonym 'n socket_drivers = "(lwip_sock, 'n, socket_request, received option) drivers"

text \<open>The device becomes the one for new sockets; a second one fails the assertion of the socket manager.\<close>

definition install_lwip :: "'n lwip \<Rightarrow> named_object \<Rightarrow> 'n socket_drivers \<Rightarrow> 'n socket_drivers option" where
  "install_lwip N d b = (if default_socket_device b \<noteq> None then None
     else Some (b\<lparr>default_socket_device := Some d, is_socket_device := (\<lambda>e. e = d \<or> is_socket_device b e),
       drv_open := (\<lambda>e. if e = d then device_fast_open else drv_open b e), drv_close := (\<lambda>e. if e = d then device_close else drv_close b e),
       drv_socket := (\<lambda>e. if e = d then lwip_socket N else drv_socket b e), drv_request := (\<lambda>e. if e = d then lwip_request N else drv_request b e)\<rparr>))"

subsection \<open>Ports and addresses\<close>

lemma ntohs_htons [simp]: "lwip_ntohs (lwip_htons p) = p"
proof -
  have "push_bit 8 (ucast (ucast (drop_bit 8 p :: u16) :: byte) :: u16) = push_bit 8 (drop_bit 8 p)"
    and "(ucast (ucast p :: byte) :: u16) = take_bit 8 p"
    by (rule bit_word_eqI; simp add: bit_simps; force dest: bit_imp_le_length)+
  then show ?thesis by (simp add: lwip_ntohs_def lwip_htons_def bits_ident)
qed

text \<open>A zone that its address does not carry is lost on the way.\<close>

fun proper_addr :: "'n lwip \<Rightarrow> ip_addr \<Rightarrow> bool" where
  "proper_addr N (V4 a) = True"
| "proper_addr N (V6 a zone) = (has_scope N a \<or> zone = 0)"
| "proper_addr N (Any_type a zone) = False"

lemma ucast_up_down: "ucast (ucast (z :: byte) :: u32) = z"
  by (simp add: ucast_down_ucast_id is_down)

lemma sockaddr_roundtrip: "proper_addr N a \<Longrightarrow> sockaddr_to_ipaddr_port N (ipaddr_port_to_sockaddr a p) = (a, p)"
  by (cases a) (auto simp: ucast_up_down)

subsection \<open>Datagrams arrive in order\<close>

text \<open>The connection delivers these datagrams one after another, whether or not it may wait.\<close>

fun delivers :: "'n lwip \<Rightarrow> nat \<Rightarrow> 'n \<Rightarrow> netbuf list \<Rightarrow> bool" where
  "delivers N c net [] \<longleftrightarrow> True"
| "delivers N c net (d # ds) \<longleftrightarrow> length (payload d) < 2 ^ 16 \<and>
     (\<forall>wait. fst (recv_netbuf N c wait net) = Some d \<and> delivers N c (snd (recv_netbuf N c wait net)) ds)"

text \<open>A reader: the size of its buffer, the flags, and the room for the address.  What it gets from a datagram.\<close>

type_synonym reader = "nat \<times> u32 \<times> bool \<times> nat option"

fun recv_call :: "int \<Rightarrow> reader \<Rightarrow> socket_request posix_call" where
  "recv_call fd (n, flags, from, fromlen) = Request_call fd (Recvfrom n flags from fromlen)"

fun peeks :: "reader \<Rightarrow> bool" where
  "peeks (n, flags, from, fromlen) \<longleftrightarrow> flags AND msg_peek \<noteq> 0"

fun received_of :: "'n lwip \<Rightarrow> netbuf \<Rightarrow> reader \<Rightarrow> received" where
  "received_of N d (n, flags, from, fromlen) = (
     let saddr = ipaddr_port_to_sockaddr (from_addr d) (from_port d);
         stored = (\<lambda>k. if from \<and> k \<noteq> 0 then min k (sockaddr_len N saddr) else k)
     in \<lparr>rcv_data = take n (payload d), rcv_from = (case fromlen of Some k \<Rightarrow> if from \<and> k \<noteq> 0 then Some (saddr, stored k) else None | None \<Rightarrow> None),
         rcv_fromlen = map_option stored fromlen\<rparr>)"

text \<open>One queue, from which a reader takes a datagram unless it only looks.\<close>

fun reads_of :: "'n lwip \<Rightarrow> netbuf list \<Rightarrow> reader list \<Rightarrow> received option answer list" where
  "reads_of N (d # ds) (r # rs) = ((int (min (fst r) (length (payload d))), None), Stored (Some (received_of N d r))) # reads_of N (if peeks r then d # ds else ds) rs"
| "reads_of N _ _ = []"

definition sock_queue :: "'n lwip \<Rightarrow> lwip_sock \<Rightarrow> 'n \<Rightarrow> netbuf list \<Rightarrow> bool" where
  "sock_queue N x net ds = (case lastdata x of
     None \<Rightarrow> delivers N (sock_conn x) net ds
   | Some d \<Rightarrow> (case ds of [] \<Rightarrow> False | e # es \<Rightarrow> e = d \<and> length (payload d) < 2 ^ 16 \<and> delivers N (sock_conn x) net es))"

lemma sock_queue_next:
  assumes "sock_queue N x net (d # ds)"
  obtains net' where "(case lastdata x of Some buf \<Rightarrow> (Some buf, net) | None \<Rightarrow> recv_netbuf N (sock_conn x) wait net) = (Some d, net')"
    "delivers N (sock_conn x) net' ds" "length (payload d) < 2 ^ 16"
proof (cases "lastdata x")
  case None
  then have "recv_netbuf N (sock_conn x) wait net = (Some d, snd (recv_netbuf N (sock_conn x) wait net))"
      "delivers N (sock_conn x) (snd (recv_netbuf N (sock_conn x) wait net)) ds" "length (payload d) < 2 ^ 16"
    using assms by (auto simp: sock_queue_def prod_eq_iff)
  then show ?thesis using that None by (metis option.simps(4))
next
  case (Some buf)
  then show ?thesis using that assms by (simp add: sock_queue_def)
qed

lemma make_addr_plain: "\<not> conn_is_v6 N c \<Longrightarrow> lwip_sock_make_addr N c a p k =
   (a, ipaddr_port_to_sockaddr a p, min k (sockaddr_len N (ipaddr_port_to_sockaddr a p)))"
  by (auto simp: lwip_sock_make_addr_def Let_def split: ip_addr.splits)

lemma recv_step:
  assumes "sock_queue N x net (d # ds)" and "\<not> conn_is_v6 N (sock_conn x)"
  shows "\<exists>x' net'. lwip_request N (Recvfrom n flags from fromlen) x net
      = (ok (int (min n (length (payload d))), Some (received_of N d (n, flags, from, fromlen))), x', net')
    \<and> sock_conn x' = sock_conn x \<and> sock_queue N x' net' (if peeks (n, flags, from, fromlen) then d # ds else ds)"
proof -
  obtain net' where n: "(case lastdata x of Some buf \<Rightarrow> (Some buf, net) | None \<Rightarrow> recv_netbuf N (sock_conn x) (flags AND msg_dontwait \<noteq> 0) net) = (Some d, net')"
      "delivers N (sock_conn x) net' ds" "length (payload d) < 2 ^ 16"
    by (rule sock_queue_next [OF assms(1), of "flags AND msg_dontwait \<noteq> 0"])
  let ?x = "x\<lparr>lastdata := (if flags AND msg_peek = 0 then None else Some d)\<rparr>"
  have "lwip_request N (Recvfrom n flags from fromlen) x net
      = (ok (int (min n (length (payload d))), Some (received_of N d (n, flags, from, fromlen))), ?x, net')"
    using n(3) by (cases fromlen) (simp_all add: lwip_recvfrom_def lwip_recvfrom_udp_raw_def n(1) make_addr_plain [OF assms(2)] ssize_max_def Let_def)
  then show ?thesis using n(2,3) by (auto simp: sock_queue_def)
qed

text \<open>The same through the system calls, on a descriptor of the device.\<close>

lemma reads_simulate:
  assumes "is_socket_device b d" "drv_request b d = lwip_request N"
  shows "simulates root g s (m, net) \<Longrightarrow> m fd = Some (d, x) \<Longrightarrow> \<not> conn_is_v6 N (sock_conn x) \<Longrightarrow> sock_queue N x net ds
    \<Longrightarrow> length (filter (\<lambda>r. \<not> peeks r) (butlast rs)) < length ds \<Longrightarrow> \<exists>s'. serve_calls b (map (recv_call fd) rs) s = Some (reads_of N ds rs, s')"
proof (induction rs arbitrary: s m net x ds)
  case (Cons r rs)
  obtain n flags name fromlen where r: "r = (n, flags, name, fromlen)" by (metis prod_cases4)
  obtain e es where ds: "ds = e # es" using Cons.prems(5) by (cases ds) auto
  obtain x' net' where step: "lwip_request N (Recvfrom n flags name fromlen) x net = (ok (int (min n (length (payload e))), Some (received_of N e r)), x', net')"
      "sock_conn x' = sock_conn x" "sock_queue N x' net' (if peeks r then e # es else es)"
    using recv_step [OF _ Cons.prems(3), of net e es n flags name fromlen] Cons.prems(4) unfolding ds r by blast
  have c: "device_call (on_socket b (Recvfrom n flags name fromlen)) fd m net = (ok (int (min n (length (payload e))), Some (received_of N e r)), m(fd \<mapsto> (d, x')), net')"
    using step(1) Cons.prems(2) assms by (simp add: device_call_def on_socket_def)
  obtain s' where s': "on_file b (on_socket b (Recvfrom n flags name fromlen)) fd s = Some (ok (int (min n (length (payload e))), Some (received_of N e r)), s')"
      "simulates root g s' (m(fd \<mapsto> (d, x')), net')"
    using on_file_simulates [OF Cons.prems(1) c] by blast
  have call: "serve_call b (recv_call fd r) s = Some (((int (min n (length (payload e))), None), Stored (Some (received_of N e r))), s')"
    using s'(1) by (simp add: r sys_request_def wrap_posix_def)
  show ?case
  proof (cases "rs = []")
    case True
    then show ?thesis using call by (simp add: ds r)
  next
    case False
    then have "length (filter (\<lambda>r. \<not> peeks r) (butlast rs)) < length (if peeks r then e # es else es)" using Cons.prems(5) ds by (auto split: if_splits)
    then obtain s2 where "serve_calls b (map (recv_call fd) rs) s' = Some (reads_of N (if peeks r then e # es else es) rs, s2)"
      using Cons.IH [OF s'(2) _ _ step(3)] step(2) Cons.prems(3) by auto
    then show ?thesis using call by (simp add: ds r)
  qed
qed simp

text \<open>
  C18. Once the network stack is installed as the socket device, a datagram socket that a process opens reads like one queue, whatever the process did before:
  every \<^verbatim>\<open>recvfrom\<close> returns the first bytes of the next datagram that the connection delivers, as many as fit, with the sender's address as far as there
  is room; with \<^verbatim>\<open>MSG_PEEK\<close> the datagram stays, for any number of looks, and otherwise the rest of it is dropped.
\<close>

theorem datagrams_in_order:
  assumes "install_lwip N d b0 = Some b" and "serve_calls b before (kernel_start root h) = Some (as, s0)"
    and "serve_call b (Socket_call af_inet sock_dgram protocol room) s0 = Some (((fd, None), No_bytes), s1)"
    and "\<not> conn_is_v6 N (fst (new_conn N Netconn_udp 0 (kernel_hardware s0)))"
    and "delivers N (fst (new_conn N Netconn_udp 0 (kernel_hardware s0))) (kernel_hardware s1) ds"
    and "length (filter (\<lambda>r. \<not> peeks r) (butlast rs)) < length ds"
  shows "\<exists>s2. serve_calls b (map (recv_call fd) rs) s1 = Some (reads_of N ds rs, s2)"
proof -
  have b: "default_socket_device b = Some d" "is_socket_device b d" "drv_open b d = device_fast_open" "drv_socket b d = lwip_socket N" "drv_request b d = lwip_request N"
    using assms(1) by (auto simp: install_lwip_def split: if_splits)
  obtain w0 g0 where w0: "simulates root g0 s0 w0" using serve_calls_simulates [OF start_simulates [of root h], of b before] assms(2) by auto
  obtain m net where w: "w0 = (m, net)" by (rule prod.exhaust)
  have net: "kernel_hardware s0 = net" using simulatesD(2) [OF w0] w by simp
  obtain m1 n1 g1 where w1: "simulates root g1 s1 (m1, n1)" "allowed b root (Socket_call af_inet sock_dgram protocol room) (m, net) ((fd, None), No_bytes) (m1, n1)"
    using serve_call_simulates [OF w0 [unfolded w], of b "Socket_call af_inet sock_dgram protocol room"] assms(3) by auto
  obtain c net' where c: "new_conn N Netconn_udp 0 net = (c, net')" by (rule prod.exhaust)
  have "m1 fd = Some (d, \<lparr>sock_conn = c, lastdata = None\<rparr>)" "n1 = net'"
    using w1(2) b c by (auto simp del: split_paired_Ex simp: device_fast_open_def lwip_socket_def netconn_kind_def af_inet_def sock_dgram_def sock_stream_def wrap_posix_def split: if_splits)
  then show ?thesis
    using reads_simulate [OF b(2,5), of root g1 s1 m1 n1 fd "\<lparr>sock_conn = c, lastdata = None\<rparr>" ds rs] w1(1) assms(4-6) c net simulatesD(2) [OF w1(1)]
    by (simp add: sock_queue_def)
qed

text \<open>A network with one connection that has these datagrams.\<close>

definition one_conn :: "netbuf list lwip" where
  "one_conn = \<lparr>new_conn = (\<lambda>kind proto net. (1, net)), conn_is_v6 = (\<lambda>_. False),
     recv_netbuf = (\<lambda>c wait net. case net of [] \<Rightarrow> (None, []) | d # ds \<Rightarrow> (Some d, ds)), ref_data = (\<lambda>bs net. (True, net)),
     send_netbuf = (\<lambda>c a p bs net. (True, net @ [\<lparr>payload = bs, from_addr = a, from_port = p\<rparr>])), set_recv_timeout = (\<lambda>c ms net. net), any_addr = (\<lambda>_. V4 0),
     has_scope = (\<lambda>_. False), map_v4 = (\<lambda>a. ([], 0)), unmap_v4 = (\<lambda>_. None), sizeof_sockaddr_in = 16, sizeof_sockaddr_in6 = 28, sizeof_timeval = 8\<rparr>"

definition no_drivers :: "(lwip_sock, 'n, socket_request, received option) drivers" where
  "no_drivers = \<lparr>is_device = (\<lambda>_. True), no_data = zero_sock, drv_open = (\<lambda>_ _ x h. (err invalid_path, x, h)), drv_close = (\<lambda>_ _ h. (ok (), h)),
     drv_read = (\<lambda>_ _ x h. (err not_supported, x, h)), drv_write = (\<lambda>_ _ x h. (err not_supported, x, h)), drv_control = (\<lambda>_ _ x h. (err not_supported, x, h)),
     debug_print = (\<lambda>_ h. h), default_socket_device = None, is_socket_device = (\<lambda>_. False), drv_socket = (\<lambda>_ _ _ _ x h. (err not_supported, x, h)),
     drv_request = (\<lambda>_ _ x h. (err not_supported, x, h))\<rparr>"

definition one_device :: "netbuf list socket_drivers" where
  "one_device = the (install_lwip one_conn (Object ''socket'' 0) no_drivers)"

definition two_datagrams :: "netbuf list" where
  "two_datagrams = [\<lparr>payload = [1, 2, 3], from_addr = V4 7, from_port = 80\<rparr>, \<lparr>payload = [4], from_addr = V4 8, from_port = 81\<rparr>]"

lemma one_device_installed: "install_lwip one_conn (Object ''socket'' 0) no_drivers = Some one_device"
  by (simp add: one_device_def install_lwip_def no_drivers_def)

definition opened_socket :: "(lwip_sock, netbuf list) kernel" where
  "opened_socket = snd (the (serve_call one_device (Socket_call af_inet sock_dgram 0 True) (kernel_start [] two_datagrams)))"

lemma opens_socket: "serve_call one_device (Socket_call af_inet sock_dgram 0 True) (kernel_start [] two_datagrams) = Some (((3, None), No_bytes), opened_socket)"
    "kernel_hardware opened_socket = two_datagrams"
  by (simp_all add: opened_socket_def one_device_def install_lwip_def no_drivers_def sys_socket_def open_on_def prepare_to_open_def put_file_def kernel_start_def Let_def
      call_driver_def device_fast_open_def lwip_socket_def netconn_kind_def one_conn_def af_inet_def sock_dgram_def sock_stream_def give_handle_def
      handle_allocate_def handle_table_def handle_capacity pool_allocate_def segment_allocate_def object_segment_def nth_append fd_base_def add_ref_def dec_ref_def wrap_posix_def
      del: upt_rec_numeral)

lemma datagrams_in_order_witness:
  "\<exists>s1 s2. serve_call one_device (Socket_call af_inet sock_dgram 0 True) (kernel_start [] two_datagrams) = Some (((3, None), No_bytes), s1)
     \<and> serve_calls one_device (map (recv_call 3) [(2, msg_peek, True, Some 16), (2, 0, False, None), (8, 0, False, None)]) s1
       = Some ([((2, None), Stored (Some \<lparr>rcv_data = [1, 2], rcv_from = Some (Sockaddr_in (0, 80) 7, 16), rcv_fromlen = Some 16\<rparr>)),
                ((2, None), Stored (Some \<lparr>rcv_data = [1, 2], rcv_from = None, rcv_fromlen = None\<rparr>)),
                ((1, None), Stored (Some \<lparr>rcv_data = [4], rcv_from = None, rcv_fromlen = None\<rparr>))], s2)"
proof -
  define rs :: "reader list" where "rs = [(2, msg_peek, True, Some 16), (2, 0, False, None), (8, 0, False, None)]"
  have c: "fst (new_conn one_conn Netconn_udp 0 (kernel_hardware (kernel_start [] two_datagrams :: (lwip_sock, netbuf list) kernel))) = 1" by (simp add: one_conn_def)
  have "\<not> conn_is_v6 one_conn 1" "delivers one_conn 1 two_datagrams two_datagrams" "length (filter (\<lambda>r. \<not> peeks r) (butlast rs)) < length two_datagrams"
    by (simp_all add: one_conn_def two_datagrams_def rs_def msg_peek_def)
  then have "\<exists>s2. serve_calls one_device (map (recv_call 3) rs) opened_socket = Some (reads_of one_conn two_datagrams rs, s2)"
    using datagrams_in_order [OF one_device_installed serve_calls.simps(1) opens_socket(1), of two_datagrams rs] unfolding c opens_socket(2) by blast
  moreover have "reads_of one_conn two_datagrams rs = [((2, None), Stored (Some \<lparr>rcv_data = [1, 2], rcv_from = Some (Sockaddr_in (0, 80) 7, 16), rcv_fromlen = Some 16\<rparr>)),
      ((2, None), Stored (Some \<lparr>rcv_data = [1, 2], rcv_from = None, rcv_fromlen = None\<rparr>)), ((1, None), Stored (Some \<lparr>rcv_data = [4], rcv_from = None, rcv_fromlen = None\<rparr>))]"
    by (simp add: two_datagrams_def msg_peek_def one_conn_def Let_def lwip_htons_def rs_def)
  ultimately show ?thesis using opens_socket(1) unfolding rs_def by metis
qed

subsection \<open>Replies\<close>

lemma sendto_valid:
  assumes "length reply < 2 ^ 16"
  shows "lwip_sendto N reply (Some (ipaddr_port_to_sockaddr a p)) (sockaddr_len N (ipaddr_port_to_sockaddr a p)) True x net
    = (case ref_data N reply net of (refs, net) \<Rightarrow> if \<not> refs then (err out_of_memory, x, net) else
        (case sockaddr_to_ipaddr_port N (ipaddr_port_to_sockaddr a p) of (b, q) \<Rightarrow>
          (case send_netbuf N (sock_conn x) (unmapped_addr N b) q reply net of (sent, net) \<Rightarrow> (if sent then ok (length reply) else err io_error, x, net))))"
  using assms by (cases a) (simp_all add: lwip_sendto_def ssize_max_def Let_def split: prod.splits)

text \<open>
  C19. A reply reaches the sender: the address and the length that \<^verbatim>\<open>recvfrom\<close> stores, when there is room for the address and its zone is one that
  the address carries, make \<^verbatim>\<open>sendto\<close> send to the address and the port that the datagram came from, on the same connection and
  with an IPv4 address in place of one that stands for it.
\<close>

theorem reply_reaches_sender:
  assumes "sock_queue N x net (d # ds)" and "\<not> conn_is_v6 N (sock_conn x)" and "proper_addr N (from_addr d)"
    and "sockaddr_len N (ipaddr_port_to_sockaddr (from_addr d) (from_port d)) \<le> room" and "0 < room" and "length reply < 2 ^ 16"
  shows "\<exists>k v x' net' sa len. lwip_request N (Recvfrom n flags True (Some room)) x net = (ok (k, Some v), x', net') \<and> rcv_from v = Some (sa, len) \<and> rcv_fromlen v = Some len
    \<and> lwip_request N (Sendto reply flags' (Some sa) len True) x' net' = (case ref_data N reply net' of (refs, net1) \<Rightarrow> if \<not> refs then (err out_of_memory, x', net1) else
        (case send_netbuf N (sock_conn x) (unmapped_addr N (from_addr d)) (from_port d) reply net1 of (sent, net2) \<Rightarrow>
          (if sent then ok (int (length reply), None) else err io_error, x', net2)))"
proof -
  let ?sa = "ipaddr_port_to_sockaddr (from_addr d) (from_port d)" and ?v = "received_of N d (n, flags, True, Some room)"
  obtain x' net' where r: "lwip_request N (Recvfrom n flags True (Some room)) x net = (ok (int (min n (length (payload d))), Some ?v), x', net')" "sock_conn x' = sock_conn x"
    using recv_step [OF assms(1,2), of n flags True "Some room"] by blast
  have v: "rcv_from ?v = Some (?sa, sockaddr_len N ?sa)" "rcv_fromlen ?v = Some (sockaddr_len N ?sa)"
    using assms(4,5) by (simp_all add: Let_def min_def)
  have "lwip_request N (Sendto reply flags' (Some ?sa) (sockaddr_len N ?sa) True) x' net' = (case ref_data N reply net' of (refs, net1) \<Rightarrow> if \<not> refs then (err out_of_memory, x', net1) else
        (case send_netbuf N (sock_conn x) (unmapped_addr N (from_addr d)) (from_port d) reply net1 of (sent, net2) \<Rightarrow>
          (if sent then ok (int (length reply), None) else err io_error, x', net2)))"
    by (simp add: sendto_valid [OF assms(6)] sockaddr_roundtrip [OF assms(3)] r(2) split: prod.splits)
  then show ?thesis using r(1) v by blast
qed

lemma reply_reaches_sender_witness:
  "(\<exists>k v x' net' sa len. lwip_request one_conn (Recvfrom 3 0 True (Some 16)) \<lparr>sock_conn = 1, lastdata = None\<rparr> two_datagrams = (ok (k, Some v), x', net')
     \<and> rcv_from v = Some (sa, len) \<and> rcv_fromlen v = Some len \<and> lwip_request one_conn (Sendto [9] 0 (Some sa) len True) x' net'
       = (ok (1, None), x', net' @ [\<lparr>payload = [9], from_addr = V4 7, from_port = 80\<rparr>]))"
  using reply_reaches_sender [of one_conn "\<lparr>sock_conn = 1, lastdata = None\<rparr>" two_datagrams "hd two_datagrams" "tl two_datagrams" 16 "[9]" 3 0 0]
  by (simp add: sock_queue_def two_datagrams_def one_conn_def unmapped_addr_def)

subsection \<open>What closing leaves behind\<close>

text \<open>Nobody tells the network stack that the descriptor of a socket is closed, so its connection stays.\<close>

lemma close_keeps_connection:
  assumes "install_lwip N d b0 = Some b" and "simulates root g s (m, net)" and "m fd = Some (d, x)"
  shows "\<exists>s'. sys_close b fd s = Some (ok 0, s') \<and> kernel_hardware s' = kernel_hardware s"
proof -
  have "drv_close b d = device_close" using assms(1) by (auto simp: install_lwip_def split: if_splits)
  then show ?thesis using close_simulates [OF assms(2,3), of b] simulatesD(2) [OF assms(2)] simulatesD(2) by (fastforce simp: device_close_def)
qed

text \<open>A descriptor of the device that was opened by its path has no connection: a request hands the null pointer to the network stack.\<close>

lemma opened_by_path:
  assumes "install_lwip N d b0 = Some b" and "no_data b0 = zero_sock"
  shows "drv_open b d [] (no_data b) net = (ok (), zero_sock, net) \<and> sock_conn zero_sock = 0
    \<and> drv_request b d (Recvfrom n 0 False None) zero_sock net = (case recv_netbuf N 0 False net of
        (None, net) \<Rightarrow> (err io_error, zero_sock, net)
      | (Some buf, net) \<Rightarrow> (ok (int (min n (min (length (payload buf)) ssize_max)), Some \<lparr>rcv_data = take n (payload buf), rcv_from = None, rcv_fromlen = None\<rparr>), zero_sock, net))"
  using assms by (auto simp: install_lwip_def device_fast_open_def zero_sock_def lwip_recvfrom_def lwip_recvfrom_udp_raw_def Let_def split: if_splits prod.splits option.splits)

end
