(* ===== verification/Spec2Isabelle.thy ===== *)
theory Spec2Isabelle
  imports Basic_Invariant Microrl Nr_Session Kernel_Scheduler Kernel_Pages_Race Kernel_Objects Kernel_Directory Kernel_Sync Kernel_Io Kernel_Sockets
begin

section \<open>Verification of the kernel and the components of Chino OS\<close>

text \<open>
  \<^bold>\<open>The program.\<close>  Chino OS is a small operating system: a kernel in C++ (\<^verbatim>\<open>src/src/os/kernel\<close>, \<^verbatim>\<open>src/include\<close>) that runs
  on an emulator and on boards, and components in C that run on it (\<^verbatim>\<open>src/src/components\<close>): a BASIC interpreter, the
  line editor microrl in front of it, the command shell nr_micro_shell, and the vendored Lua and MicroPython.  The development models the
  kernel and the first three components; the theories follow the files of the source, and their functions keep the names of the source.

  \<^bold>\<open>Conventions.\<close>  A step that C or C++ leaves undefined (an access outside a block, a null pointer, a failed assertion)
  is \<open>None\<close>; an error that the code reports is a value of \<open>error_code + 'a\<close> in the kernel and \<open>last_error\<close> of the state in BASIC.
  Memory blocks of C are lists of cells with offsets (Prelude); integers that may wrap are words.  State is passed explicitly; what
  several threads do is a step relation, with one access to an atomic variable, or one section under a lock, as a step.
  Each interface is a locale with the laws its clients rely on, interpreted on the model in the theory that provides it.

  \<^bold>\<open>BASIC\<close> (\<^verbatim>\<open>components/basic\<close>).
  \<^item> \<open>Basic_Lines\<close>: the program as packed records in one block (\<^verbatim>\<open>lines.c\<close>).  Locale \<open>program_store\<close>, interpretation \<open>ls\<close>.
    Every sequence of commands computes what the same commands on sorted lists of lines compute; overflow and the saving loop.
  \<^item> \<open>Basic_Dictionary\<close>: the hash table (\<^verbatim>\<open>dictionary.c\<close>).  Locale \<open>name_table\<close>, interpretation \<open>dict\<close>.  It answers like a finite
    map; deletion of a name that is not first in its chain does not end.
  \<^item> \<open>Basic_Variables\<close>: arrays and variables (\<^verbatim>\<open>array.c\<close>, \<^verbatim>\<open>variables.c\<close>).  Indices are a mixed radix number and
    back; a subscript one beyond the bound is accepted.
  \<^item> \<open>Basic_Tokenizer\<close>, \<open>Basic_Expressions\<close>, \<open>Basic_Interpreter\<close>: \<^verbatim>\<open>tokenizer.c\<close> and the two halves of \<^verbatim>\<open>parser.c\<close> with
    \<^verbatim>\<open>io.c\<close>: the tokenizer on pointers into two blocks, the parser that evaluates while it reads, all statements.
  \<^item> \<open>Basic_Frame\<close>: what each function leaves unchanged.  Locales \<open>expression_parsers\<close> (interpretation \<open>ep\<close>) and \<open>shape_keeper\<close>
    (interpretation \<open>pl\<close>) tie the mutually recursive functions by fuel.
  \<^item> \<open>Basic_Tables\<close>: the tables that \<^verbatim>\<open>basic_init\<close> builds, the invariant of the interpreter, reading of the keywords.
  \<^item> \<open>Basic_Arithmetic\<close>, \<open>Basic_Control\<close>, \<open>Basic_Source\<close>, \<open>Basic_Run\<close>: the reference semantics of expressions and of programs, and the
    proof that \<^verbatim>\<open>RUN\<close> on the bytes of a stored program does what the reference semantics says.
  Floats are a parameter (\<open>floats\<close>: the operations of the float type and its conversions), because C leaves their format open; the
  witnesses use integers.  Recursion of the parser and the loop over the lines take fuel; the theorems give an amount that is
  enough (\<open>sum_fuel\<close>, \<open>stmt_fuel\<close>, two for each statement run), so that they say that the functions return.

  \<^bold>\<open>Line editors.\<close>
  \<^item> \<open>Microrl_History\<close>, \<open>Microrl\<close> (\<^verbatim>\<open>components/readline/microrl\<close>): the ring of earlier lines (locale \<open>line_history\<close>, interpretation
    \<open>ring\<close>), the editing functions, escape sequences, splitting, \<^verbatim>\<open>readline\<close>.  All keys refine an abstract editor.
  \<^item> \<open>Nr_History\<close>, \<open>Nr_Shell\<close>, \<open>Nr_Editor\<close>, \<open>Nr_Session\<close> (\<^verbatim>\<open>components/shell/nr\<close>): the queue of commands (locale \<open>command_history\<close>,
    interpretation \<open>nrq\<close>), the decoder of control sequences, the shell.  The bytes of any keys refine an abstract
    session.  What the compiler decides (the sign of \<^verbatim>\<open>char\<close>, the value of \<^verbatim>\<open>rp = rp++\<close>) is a parameter.

  \<^bold>\<open>Kernel.\<close>
  \<^item> \<open>Kernel_Base\<close>: error codes, results, error numbers, rounding (\<^verbatim>\<open>error.h\<close>, \<^verbatim>\<open>result.h\<close>, \<^verbatim>\<open>units.h\<close>, \<^verbatim>\<open>ke_services\<close>).
  \<^item> \<open>Kernel_List\<close>: the intrusive lists on a heap of nodes (\<^verbatim>\<open>intrusive_list.h\<close>).  Locale \<open>element_list\<close>, interpretation \<open>il\<close>.
    They refine lists; the other kernel theories use lists for them.
  \<^item> \<open>Kernel_Pages\<close>, \<open>Kernel_Pages_Race\<close>: the physical page allocator (\<^verbatim>\<open>mm/physical\<close>), for one CPU and for any interleaving of
    threads on one counter and its bitmap.
  \<^item> \<open>Kernel_Scheduler\<close>: threads, their lists, the choice of the next thread, sleeping, waiting and waking
    (\<^verbatim>\<open>ps/sched\<close>, \<^verbatim>\<open>ps/task\<close>, \<^verbatim>\<open>ke/startup.cpp\<close>).  An invariant of all runs, turns of equal threads, and three bugs.
  \<^item> \<open>Kernel_Sync\<close>: mutexes, events and semaphores (\<^verbatim>\<open>processapi.h\<close>) over the waiting and waking of the scheduler.  Locale
    \<open>token_variable\<close>, interpretations \<open>mx\<close>, \<open>ar\<close> and \<open>sm\<close>.  Exclusion, and no lost wakeup.
  \<^item> \<open>Kernel_Objects\<close>: object pools and handle tables (\<^verbatim>\<open>object_pool.h\<close>, \<^verbatim>\<open>ob/handle_table\<close>).  Locale \<open>slot_store\<close>,
    interpretation \<open>hs\<close>.  A handle table answers like a finite map with 254 entries: a segment has 4096 bytes, a header
    of 32 and 16 for each handle.
  \<^item> \<open>Kernel_Directory\<close>: directories of named objects and the search for devices (\<^verbatim>\<open>ob/directory.cpp\<close>, \<^verbatim>\<open>object_manager.cpp\<close>).
  \<^item> \<open>Kernel_Io\<close>: requests to devices, the worker, interrupts, the console and the standard input
    (\<^verbatim>\<open>io/io_manager.cpp\<close>, \<^verbatim>\<open>io_request.cpp\<close>, \<^verbatim>\<open>device.cpp\<close>, \<^verbatim>\<open>drivers\<close>).  Every request is accounted for; which steps fail.
  \<^item> \<open>Kernel_Files\<close>: the system calls \<^verbatim>\<open>open\<close>, \<^verbatim>\<open>close\<close>, \<^verbatim>\<open>read\<close>, \<^verbatim>\<open>write\<close>, \<^verbatim>\<open>ioctl\<close>, \<^verbatim>\<open>socket\<close> and those on sockets (\<^verbatim>\<open>io/io_manager.cpp\<close>,
    \<^verbatim>\<open>file.cpp\<close>, \<^verbatim>\<open>net/socket_manager.cpp\<close>) over the directories and the facts \<open>hs\<close> of the handle table, with the answers of drivers as a
    parameter.  They refine a map of descriptors.
  \<^item> \<open>Kernel_Sockets\<close>: the socket device (\<^verbatim>\<open>drivers/socket/lwip_socket\<close>) as such a driver, over the network stack lwIP, which is not
    part of the sources and a parameter.  Datagrams arrive in order through the system calls, and replies reach the sender.

  \<^bold>\<open>What was found.\<close>  The theorems on errors prove defects of the code: deletion in the dictionary that does not end, a
  bound check of arrays off by one, a store of a line beyond the block, pages handed out twice, an ending thread without a
  successor, late and deaf sleepers, a waiter that spins, an interrupt and a wait that come at the wrong time, a
  read that is never served, connections that are never given back.  Each is stated as what the code does, next to the properties that hold.

  \<^bold>\<open>Not modelled.\<close>  Lua and most of MicroPython (vendored); other ports of BASIC with their drivers; hexdump; the emulator, boards, boot code,
  the loader of programs and the drivers that only call the host; Bluetooth, whose code forwards one call; the asynchronous
  read of files and the references to devices; processes, whose list of threads nobody reads; the free page list, whose allocation always
  fails.  Weak memory is not modelled: steps of threads are interleaved.  Of the kernel one CPU is modelled, as the code
  has one scheduler in use.
\<close>

end
